(* ===== verification/Prelude.thy ===== *)
theory Prelude
  imports Main "HOL-Library.Word" "HOL-Library.Char_ord" "HOL-Library.List_Lexorder"
begin

text \<open>
  Shared vocabulary of the development: the crate's error type and the results built over
  it, a state-and-error monad for code that mutates a database, the third-party crates as
  a record of functions, and the generic lemmas the components use.

  A fallible Rust function becomes a function into \<open>'a result\<close>; a function that also
  writes becomes an \<open>('s, 'a) op\<close>, which returns the final state on the error path too,
  because a Rust function that fails half-way leaves its earlier writes in place unless a
  transaction rolls them back.
\<close>

section \<open>The collections the components fill\<close>

named_theorems op_simps \<open>unfolding rules for the operations of the state-and-error monad\<close>
named_theorems keeps_intros \<open>introduction rules for operations that keep a predicate\<close>
named_theorems quiet_intros \<open>introduction rules for operations that leave a part of the state alone\<close>

section \<open>Errors and results\<close>

type_synonym bytes = "8 word list"

text \<open>
  \<open>Error\<close> of \<open>src/error.rs\<close>. The payloads of \<open>Db\<close> and \<open>Io\<close> are foreign
  types; only the distinctions the code can meet are kept: a query that found no row, a
  violated constraint or trigger, any other SQLite failure (a transaction opened inside
  another, say); a file that already exists, one that does not, any other I/O failure.
\<close>

datatype db_error = QueryReturnedNoRows | ConstraintViolation | SqlFailure

datatype io_error = IoAlreadyExists | IoNotFound | IoFault

datatype error =
    Db db_error
  | Io io_error
  | InvalidPath
  | KeyDerivationFailed
  | InvalidPassword
  | InvalidShareToken
  | ShareExpired
  | ShareRevoked
  | ShareExhausted
  | IntegrityCheckFailed
  | QuorumNotMet
  | InvalidQuorumThreshold
  | InvalidTreeSpec
  | KeyRevoked
  | WrongKeyType
  | InvalidPublicKey
  | SignatureVerificationFailed
  | PinMismatch
  | PinLocked
  | PinNotSet
  | InvalidPin
  | BundleFieldTooLarge
  | NodeNotFound
  | DuplicateNodeLabel
  | InvalidBridge
  | BridgeNotWhitelisted
  | BridgeNotFound
  | CannotEvict
  | CannotAddLeaf
  | ShareShapeMismatch
  | InvalidBridgePackage
  | NotBridgeMember
  | TooFewBridgeMembers
  | BridgeDestroyed
  | BridgeGenerationMismatch
  | SealedKeyNotHeld
  | AmbiguousDeliveryName string
  | InvalidApiKey
  | InvalidApiKeyRequest
  | ApiKeyExpired
  | ApiKeyRevoked
  | ApiKeyScopeDenied
  | ApiKeyNotFound
  | InvalidLicenseeKey
  | OrganizationDatabase
  | InvalidInboxPage
  | RelayRequest string
  | TreeNotFound
  | StalePublicTree

type_synonym 'a result = "error + 'a"

abbreviation Ok :: "'a \<Rightarrow> 'a result" where
  "Ok \<equiv> Inr"

abbreviation Err :: "error \<Rightarrow> 'a result" where
  "Err \<equiv> Inl"

text \<open>The \<open>?\<close> operator on a pure result, and \<open>Option::ok_or\<close>.\<close>

definition and_then :: "'a result \<Rightarrow> ('a \<Rightarrow> 'b result) \<Rightarrow> 'b result" where
  "and_then r f = (case r of Err e \<Rightarrow> Err e | Ok a \<Rightarrow> f a)"

definition ok_or :: "error \<Rightarrow> 'a option \<Rightarrow> 'a result" where
  "ok_or e x = (case x of None \<Rightarrow> Err e | Some a \<Rightarrow> Ok a)"

definition is_ok :: "'a result \<Rightarrow> bool" where
  "is_ok r = (case r of Err _ \<Rightarrow> False | Ok _ \<Rightarrow> True)"

fun try_all :: "('a \<Rightarrow> 'b result) \<Rightarrow> 'a list \<Rightarrow> 'b list result" where
  "try_all f [] = Ok []"
| "try_all f (x # xs) = and_then (f x) (\<lambda>y. and_then (try_all f xs) (\<lambda>ys. Ok (y # ys)))"

lemma and_then_simps [simp]:
  "and_then (Err e) f = Err e"
  "and_then (Ok a) f = f a"
  by (simp_all add: and_then_def)

lemma and_then_Ok_iff: "and_then r f = Ok b \<longleftrightarrow> (\<exists>a. r = Ok a \<and> f a = Ok b)"
  by (cases r) auto

lemma and_then_Ok_elim:
  assumes "and_then r f = Ok b"
  obtains a where "r = Ok a" "f a = Ok b"
  using assms by (auto simp: and_then_Ok_iff)

lemma ok_or_simps [simp]:
  "ok_or e None = Err e"
  "ok_or e (Some a) = Ok a"
  by (simp_all add: ok_or_def)

lemma ok_or_Ok_iff [simp]: "ok_or e x = Ok a \<longleftrightarrow> x = Some a"
  by (cases x) auto

lemma ok_or_Err_iff [simp]: "ok_or e x = Err e' \<longleftrightarrow> x = None \<and> e = e'"
  by (cases x) auto

text \<open>A computation that fails with one error only.\<close>

definition only_fails :: "error \<Rightarrow> 'a result \<Rightarrow> bool" where
  "only_fails e r \<longleftrightarrow> (\<forall>x. r = Err x \<longrightarrow> x = e)"

lemma only_failsI: "(\<And>x. r = Err x \<Longrightarrow> x = e) \<Longrightarrow> only_fails e r"
  by (simp add: only_fails_def)

lemma only_fails_simps [simp]:
  "only_fails e (Ok a)"
  "only_fails e (Err x) \<longleftrightarrow> x = e"
  by (auto simp: only_fails_def)

lemma only_fails_and_then [intro]:
  "only_fails e r \<Longrightarrow> (\<And>a. only_fails e (f a)) \<Longrightarrow> only_fails e (and_then r f)"
  by (cases r) (auto simp: only_fails_def and_then_def)

lemma only_fails_pair [intro]:
  "(\<And>x y. only_fails e (f x y)) \<Longrightarrow> only_fails e (case p of (x, y) \<Rightarrow> f x y)"
  by (cases p) simp

lemma only_fails_if [intro]:
  "(b \<Longrightarrow> only_fails e r) \<Longrightarrow> (\<not> b \<Longrightarrow> only_fails e q) \<Longrightarrow> only_fails e (if b then r else q)"
  by simp

lemma is_ok_simps [simp]:
  "is_ok (Ok a)"
  "\<not> is_ok (Err e)"
  by (simp_all add: is_ok_def)

lemma is_ok_iff: "is_ok r \<longleftrightarrow> (\<exists>a. r = Ok a)"
  by (cases r) auto

lemma try_all_Ok: "(\<And>x. x \<in> set xs \<Longrightarrow> f x = Ok (g x)) \<Longrightarrow> try_all f xs = Ok (map g xs)"
  by (induction xs) auto

lemma try_all_length: "try_all f xs = Ok ys \<Longrightarrow> length ys = length xs"
  by (induction xs arbitrary: ys) (auto simp: and_then_Ok_iff)

section \<open>Operations on a mutable state\<close>

type_synonym ('s, 'a) op = "'s \<Rightarrow> 'a result \<times> 's"

definition ret :: "'a \<Rightarrow> ('s, 'a) op" where
  "ret a = (\<lambda>s. (Ok a, s))"

definition fail :: "error \<Rightarrow> ('s, 'a) op" where
  "fail e = (\<lambda>s. (Err e, s))"

definition bind :: "('s, 'a) op \<Rightarrow> ('a \<Rightarrow> ('s, 'b) op) \<Rightarrow> ('s, 'b) op" where
  "bind m f = (\<lambda>s. case m s of (Err e, s') \<Rightarrow> (Err e, s') | (Ok a, s') \<Rightarrow> f a s')"

definition asks :: "('s \<Rightarrow> 'a result) \<Rightarrow> ('s, 'a) op" where
  "asks q = (\<lambda>s. (q s, s))"

definition lift_result :: "'a result \<Rightarrow> ('s, 'a) op" where
  "lift_result r = (\<lambda>s. (r, s))"

definition modify :: "('s \<Rightarrow> 's) \<Rightarrow> ('s, unit) op" where
  "modify f = (\<lambda>s. (Ok (), f s))"

definition guard :: "bool \<Rightarrow> error \<Rightarrow> ('s, unit) op" where
  "guard b e = (if b then ret () else fail e)"

fun for_each :: "('a \<Rightarrow> ('s, unit) op) \<Rightarrow> 'a list \<Rightarrow> ('s, unit) op" where
  "for_each f [] = ret ()"
| "for_each f (x # xs) = bind (f x) (\<lambda>_. for_each f xs)"

lemma ret_run [simp, op_simps]: "ret a s = (Ok a, s)"
  by (simp add: ret_def)

lemma fail_run [simp, op_simps]: "fail e s = (Err e, s)"
  by (simp add: fail_def)

lemma asks_run [simp, op_simps]: "asks q s = (q s, s)"
  by (simp add: asks_def)

lemma lift_run [simp, op_simps]: "lift_result r s = (r, s)"
  by (simp add: lift_result_def)

lemma modify_run [simp, op_simps]: "modify f s = (Ok (), f s)"
  by (simp add: modify_def)

lemma guard_run [simp, op_simps]: "guard b e s = (if b then (Ok (), s) else (Err e, s))"
  by (simp add: guard_def)

lemma bind_run [op_simps]:
  "bind m f s = (case m s of (Err e, s') \<Rightarrow> (Err e, s') | (Ok a, s') \<Rightarrow> f a s')"
  by (simp add: bind_def)

lemma bind_run_Ok [simp]: "m s = (Ok a, s') \<Longrightarrow> bind m f s = f a s'"
  by (simp add: bind_def)

lemma bind_run_Err [simp]: "m s = (Err e, s') \<Longrightarrow> bind m f s = (Err e, s')"
  by (simp add: bind_def)

lemma bind_Ok_elim:
  assumes "bind m f s = (Ok b, t)"
  obtains a s' where "m s = (Ok a, s')" "f a s' = (Ok b, t)"
  using assms by (auto simp: bind_def split: prod.splits sum.splits)

lemma bind_ret [simp]: "bind (ret a) f = f a"
  by (simp add: bind_def ret_def)

lemma bind_fail [simp]: "bind (fail e) f = fail e"
  by (simp add: bind_def fail_def)

subsection \<open>Predicates an operation keeps\<close>

text \<open>
  \<open>keeps P m\<close>: \<open>m\<close> leads from states with \<open>P\<close> to states with \<open>P\<close>, whether it
  returns or fails. The rules below reduce it to the primitive writes of an operation.
\<close>

definition keeps :: "('s \<Rightarrow> bool) \<Rightarrow> ('s, 'a) op \<Rightarrow> bool" where
  "keeps P m \<longleftrightarrow> (\<forall>s. P s \<longrightarrow> P (snd (m s)))"

lemma keepsI: "(\<And>s. P s \<Longrightarrow> P (snd (m s))) \<Longrightarrow> keeps P m"
  by (simp add: keeps_def)

lemma keepsD: "keeps P m \<Longrightarrow> P s \<Longrightarrow> P (snd (m s))"
  by (simp add: keeps_def)

lemma keeps_ret [simp, keeps_intros]: "keeps P (ret a)"
  by (simp add: keeps_def)

lemma keeps_fail [simp, keeps_intros]: "keeps P (fail e)"
  by (simp add: keeps_def)

lemma keeps_asks [simp, keeps_intros]: "keeps P (asks q)"
  by (simp add: keeps_def)

lemma keeps_lift [simp, keeps_intros]: "keeps P (lift_result r)"
  by (simp add: keeps_def)

lemma keeps_guard [simp, keeps_intros]: "keeps P (guard b e)"
  by (simp add: keeps_def)

lemma keeps_modify [keeps_intros]: "(\<And>s. P s \<Longrightarrow> P (f s)) \<Longrightarrow> keeps P (modify f)"
  by (simp add: keeps_def)

lemma keeps_bind [keeps_intros]:
  assumes "keeps P m" "\<And>a. keeps P (f a)"
  shows "keeps P (bind m f)"
proof (rule keepsI)
  fix s assume "P s"
  with assms(1) have *: "P (snd (m s))" by (rule keepsD)
  show "P (snd (bind m f s))"
    using * assms(2) by (auto simp: bind_def keeps_def split: prod.splits sum.splits)
qed

lemma keeps_for_each [keeps_intros]: "(\<And>x. keeps P (f x)) \<Longrightarrow> keeps P (for_each f xs)"
  by (induction xs) (auto intro: keeps_intros)

lemma keeps_if [keeps_intros]: "keeps P m \<Longrightarrow> keeps P n \<Longrightarrow> keeps P (if b then m else n)"
  by simp

lemma keeps_case_option [keeps_intros]:
  "keeps P m \<Longrightarrow> (\<And>a. keeps P (f a)) \<Longrightarrow> keeps P (case x of None \<Rightarrow> m | Some a \<Rightarrow> f a)"
  by (cases x) auto

section \<open>Lists, options and maps\<close>

lemma find_None_iff_all: "find P xs = None \<longleftrightarrow> (\<forall>x \<in> set xs. \<not> P x)"
  by (auto simp: find_None_iff)

lemma find_SomeD: "find P xs = Some x \<Longrightarrow> x \<in> set xs \<and> P x"
  by (auto simp: find_Some_iff)

lemma find_unique:
  assumes "distinct (map k xs)" "x \<in> set xs" "k x = v"
  shows "find (\<lambda>y. k y = v) xs = Some x"
  using assms
proof (induction xs)
  case (Cons a xs)
  then show ?case by (cases "k a = v") (auto simp: image_iff)
qed simp

lemma find_None_image: "find (\<lambda>r. k r = v) xs = None \<Longrightarrow> v \<notin> k ` set xs"
  by (induction xs) (auto split: if_splits)

lemma find_append: "find P (xs @ ys) = (case find P xs of None \<Rightarrow> find P ys | Some x \<Rightarrow> Some x)"
  by (induction xs) auto

lemma find_cong_map:
  assumes "\<And>x. x \<in> set xs \<Longrightarrow> P (f x) = Q x"
  shows "find P (map f xs) = map_option f (find Q xs)"
  using assms by (induction xs) auto

lemma distinct_filter_one:
  assumes "distinct (map k rs)" "find (\<lambda>r. k r = v) rs = Some r"
  shows "length (filter (\<lambda>x. k x = v \<and> P x) rs) = (if P r then 1 else 0)"
  using assms
proof (induction rs)
  case (Cons a rs)
  show ?case
  proof (cases "k a = v")
    case True
    then have "\<forall>x \<in> set rs. k x \<noteq> v" using Cons.prems(1)
      by (metis distinct.simps(2) list.simps(9) image_eqI set_map)
    then have "filter (\<lambda>x. k x = v \<and> P x) rs = []" by (simp add: filter_empty_conv)
    then show ?thesis using True Cons.prems(2) by simp
  qed (use Cons in simp)
qed simp

lemma list_all_append_iff [simp]: "list_all P (xs @ ys) \<longleftrightarrow> list_all P xs \<and> list_all P ys"
  by (simp add: list_all_iff ball_Un)

lemma length_filter_map_eq:
  "length (filter P (map f xs)) = length (filter (P \<circ> f) xs)"
  by (simp add: filter_map)

lemma filter_id_if_all: "(\<And>x. x \<in> set xs \<Longrightarrow> P x) \<Longrightarrow> filter P xs = xs"
  by (simp add: filter_id_conv)

section \<open>Fixed-width integers of the source\<close>

text \<open>\<open>u8\<close>, \<open>u16\<close> and \<open>u32\<close> values; Rust's \<open>as u8\<close> truncates, \<open>as usize\<close> wraps.\<close>

type_synonym u8 = "8 word"
type_synonym u16 = "16 word"
type_synonym u32 = "32 word"

definition i64_as_usize :: "int \<Rightarrow> nat" where
  "i64_as_usize i = nat (i mod 2 ^ 64)"

definition usize_as_u8 :: "nat \<Rightarrow> nat" where
  "usize_as_u8 n = n mod 256"

lemma i64_as_usize_small [simp]: "0 \<le> i \<Longrightarrow> i < 2 ^ 64 \<Longrightarrow> i64_as_usize i = nat i"
  by (simp add: i64_as_usize_def)

lemma usize_as_u8_small [simp]: "n < 256 \<Longrightarrow> usize_as_u8 n = n"
  by (simp add: usize_as_u8_def)

section \<open>Rust strings\<close>

text \<open>
  A \<open>String\<close> is its UTF-8 bytes: a HOL \<open>char\<close> is one byte, so \<open>length\<close> is
  \<open>str::len\<close> and the list order is the byte order of \<open>BTreeMap<String, _>\<close>.
\<close>

definition as_bytes :: "string \<Rightarrow> bytes" where
  "as_bytes s = map of_char s"

definition from_bytes :: "bytes \<Rightarrow> string" where
  "from_bytes bs = map (\<lambda>b. char_of (unat b)) bs"

text \<open>
  \<open>std::str::from_utf8\<close>: the well-formed byte sequences of the Unicode standard, by
  the range of the lead byte and of the byte after it.
\<close>

definition cont :: "u8 \<Rightarrow> bool" where
  "cont b \<longleftrightarrow> 0x80 \<le> b \<and> b \<le> 0xBF"

fun utf8_valid :: "bytes \<Rightarrow> bool" where
  "utf8_valid [] = True"
| "utf8_valid (a # bs) =
     (if a \<le> 0x7F then utf8_valid bs
      else if 0xC2 \<le> a \<and> a \<le> 0xDF then
        (case bs of b # rest \<Rightarrow> cont b \<and> utf8_valid rest | [] \<Rightarrow> False)
      else if 0xE0 \<le> a \<and> a \<le> 0xEF then
        (case bs of b # c # rest \<Rightarrow>
           (if a = 0xE0 then 0xA0 \<le> b \<and> b \<le> 0xBF
            else if a = 0xED then 0x80 \<le> b \<and> b \<le> 0x9F
            else cont b) \<and> cont c \<and> utf8_valid rest
         | _ \<Rightarrow> False)
      else if 0xF0 \<le> a \<and> a \<le> 0xF4 then
        (case bs of b # c # d # rest \<Rightarrow>
           (if a = 0xF0 then 0x90 \<le> b \<and> b \<le> 0xBF
            else if a = 0xF4 then 0x80 \<le> b \<and> b \<le> 0x8F
            else cont b) \<and> cont c \<and> cont d \<and> utf8_valid rest
         | _ \<Rightarrow> False)
      else False)"

definition utf8_str :: "string \<Rightarrow> bool" where
  "utf8_str s \<longleftrightarrow> utf8_valid (as_bytes s)"

lemma unat_of_char [simp]: "unat (of_char c :: 8 word) = of_char c"
proof -
  have "(of_char c :: 8 word) = of_nat (of_char c)" by (simp only: of_nat_of_char)
  then have "unat (of_char c :: 8 word) = take_bit 8 (of_char c :: nat)"
    by (simp only: unsigned_of_nat) simp
  then show ?thesis by (simp add: take_bit_eq_mod)
qed

lemma of_char_char_of_unat [simp]: "(of_char (char_of (unat b)) :: 8 word) = b"
proof -
  have "unat (of_char (char_of (unat b)) :: 8 word) = unat b mod 256"
    by simp
  also have "\<dots> = unat b" using unsigned_less [of b, where 'a = nat] by simp
  finally show ?thesis by (simp only: word_unat_eq_iff)
qed

lemma from_bytes_as_bytes [simp]: "from_bytes (as_bytes s) = s"
  by (simp add: from_bytes_def as_bytes_def o_def)

lemma as_bytes_from_bytes [simp]: "as_bytes (from_bytes bs) = bs"
  by (simp add: from_bytes_def as_bytes_def o_def)

lemma length_as_bytes [simp]: "length (as_bytes s) = length s"
  by (simp add: as_bytes_def)

end
