(* ===== verification/Crates.thy ===== *)
theory Crates
  imports Prelude
begin

text \<open>
  The third-party crates the program calls, as one record of functions: every definition
  that needs one of them takes the record as its first argument \<open>C\<close>. None of this code is
  in the repository, so nothing is said about it here; what a property relies on is a named
  hypothesis below, stated as the crate documents it. Randomness is explicit: an operation
  that draws from \<open>OsRng\<close> takes the number of the draw (a \<open>coin\<close>), so a statement for every
  \<open>C\<close> holds for every outcome of the generator.
\<close>

record crates =
  sha256 :: "bytes \<Rightarrow> bytes"
  hex_encode :: "bytes \<Rightarrow> string"
  hex_decode :: "string \<Rightarrow> bytes option"
  b64_decode :: "string \<Rightarrow> bytes option"
  b64url_encode :: "bytes \<Rightarrow> string"
  b64url_decode :: "string \<Rightarrow> bytes option"
  argon2id :: "string \<Rightarrow> bytes \<Rightarrow> bytes option"
  aes_seal :: "bytes \<Rightarrow> bytes \<Rightarrow> bytes \<Rightarrow> bytes"
  aes_open :: "bytes \<Rightarrow> bytes \<Rightarrow> bytes \<Rightarrow> bytes option"
  x25519_public :: "bytes \<Rightarrow> bytes"
  x25519_weak :: "bytes \<Rightarrow> bool"
  box_seal :: "bytes \<Rightarrow> nat \<Rightarrow> bytes \<Rightarrow> bytes"
  box_unseal :: "bytes \<Rightarrow> bytes \<Rightarrow> bytes option"
  ed_public :: "bytes \<Rightarrow> bytes"
  ed_valid_key :: "bytes \<Rightarrow> bool"
  ed_sign :: "bytes \<Rightarrow> bytes \<Rightarrow> bytes"
  ed_verify :: "bytes \<Rightarrow> bytes \<Rightarrow> bytes \<Rightarrow> bool"
  os_bytes :: "nat \<Rightarrow> nat \<Rightarrow> bytes"
  shamir_deal :: "nat \<Rightarrow> bytes \<Rightarrow> nat \<Rightarrow> bytes list"
  share_try_from :: "bytes \<Rightarrow> bool"
  shamir_recover :: "nat \<Rightarrow> bytes list \<Rightarrow> bytes option"

text \<open>
  \<open>blahaj\<close>: a share is \<open>x # y\<close>, one field element then one per byte of the secret. The
  dealer at threshold \<open>t\<close> gives one share for each of the 255 non-zero \<open>x\<close>; any \<open>t\<close> or more
  distinct ones of one dealing recover the secret; an encoding of at least two bytes
  converts back to a share.
\<close>

definition share_x :: "bytes \<Rightarrow> u8" where
  "share_x b = hd b"

definition share_y :: "bytes \<Rightarrow> bytes" where
  "share_y b = tl b"

definition shamir_ok :: "crates \<Rightarrow> bool" where
  "shamir_ok C \<longleftrightarrow>
     (\<forall>t s c. 1 \<le> t \<and> t \<le> 255 \<longrightarrow>
        length (shamir_deal C t s c) = 255
      \<and> distinct (map share_x (shamir_deal C t s c))
      \<and> (\<forall>b \<in> set (shamir_deal C t s c). length b = Suc (length s) \<and> share_x b \<noteq> 0)
      \<and> (\<forall>shs. distinct shs \<and> set shs \<subseteq> set (shamir_deal C t s c) \<and> t \<le> length shs \<and> s \<noteq> []
               \<longrightarrow> shamir_recover C t shs = Some s))
     \<and> (\<forall>b. 2 \<le> length b \<longrightarrow> share_try_from C b)"

text \<open>
  Lagrange interpolation over GF(256), where addition is XOR, is linear in the \<open>y\<close> parts
  and keeps their length: two lists of shares with the same distinct \<open>x\<close> recover to values
  whose XOR is what the XOR of the shares recovers to, once there are at least \<open>t\<close> of them.
\<close>

definition xor_bytes :: "bytes \<Rightarrow> bytes \<Rightarrow> bytes" where
  "xor_bytes a b = map2 xor a b"

definition xor_share :: "bytes \<Rightarrow> bytes \<Rightarrow> bytes" where
  "xor_share a b = share_x a # xor_bytes (share_y a) (share_y b)"

definition shamir_linear :: "crates \<Rightarrow> bool" where
  "shamir_linear C \<longleftrightarrow>
     (\<forall>t n shs ds a b.
        1 \<le> t \<and> t \<le> length shs \<and> map share_x shs = map share_x ds
        \<and> distinct (map share_x shs) \<and> 0 < n
        \<and> (\<forall>x \<in> set shs \<union> set ds. length x = Suc n)
        \<and> shamir_recover C t shs = Some a \<and> shamir_recover C t ds = Some b
        \<longrightarrow> shamir_recover C t (map2 xor_share shs ds) = Some (xor_bytes a b)
          \<and> length a = n \<and> length b = n)"

text \<open>\<open>crypto_box\<close> sealed boxes open under the secret key of the public key they are for.\<close>

definition box_ok :: "crates \<Rightarrow> bool" where
  "box_ok C \<longleftrightarrow>
     (\<forall>sk coin m. length sk = 32 \<longrightarrow> box_unseal C sk (box_seal C (x25519_public C sk) coin m) = Some m)"

text \<open>AES-256-GCM decrypts what it encrypted under the same key and nonce.\<close>

definition aes_ok :: "crates \<Rightarrow> bool" where
  "aes_ok C \<longleftrightarrow> (\<forall>k n m. aes_open C k n (aes_seal C k n m) = Some m)"

text \<open>Ed25519: a signature verifies under the key derived from the same seed.\<close>

definition ed_ok :: "crates \<Rightarrow> bool" where
  "ed_ok C \<longleftrightarrow>
     (\<forall>sk m. length sk = 32 \<longrightarrow>
        ed_valid_key C (ed_public C sk) \<and> ed_verify C (ed_public C sk) m (ed_sign C sk m)
        \<and> length (ed_public C sk) = 32 \<and> length (ed_sign C sk m) = 64)"

text \<open>The hexadecimal, base64 and random-number crates.\<close>

definition hex_ok :: "crates \<Rightarrow> bool" where
  "hex_ok C \<longleftrightarrow> (\<forall>b. hex_decode C (hex_encode C b) = Some b)"

definition b64url_ok :: "crates \<Rightarrow> bool" where
  "b64url_ok C \<longleftrightarrow> (\<forall>b. b64url_decode C (b64url_encode C b) = Some b)"

definition os_ok :: "crates \<Rightarrow> bool" where
  "os_ok C \<longleftrightarrow> (\<forall>c n. length (os_bytes C c n) = n)"

section \<open>What the hypotheses give\<close>

lemma shamir_deal_length: "shamir_ok C \<Longrightarrow> 1 \<le> t \<Longrightarrow> t \<le> 255 \<Longrightarrow> length (shamir_deal C t s c) = 255"
  unfolding shamir_ok_def by blast

lemma shamir_deal_xs:
  "shamir_ok C \<Longrightarrow> 1 \<le> t \<Longrightarrow> t \<le> 255 \<Longrightarrow> distinct (map share_x (shamir_deal C t s c))"
  unfolding shamir_ok_def by blast

lemma shamir_deal_share:
  assumes "shamir_ok C" "1 \<le> t" "t \<le> 255" "b \<in> set (shamir_deal C t s c)"
  shows "length b = Suc (length s)" "share_x b \<noteq> 0"
  using assms unfolding shamir_ok_def by blast+

lemma shamir_recover_deal:
  assumes "shamir_ok C" "1 \<le> t" "t \<le> 255" "s \<noteq> []"
    and "distinct shs" "set shs \<subseteq> set (shamir_deal C t s c)" "t \<le> length shs"
  shows "shamir_recover C t shs = Some s"
  using assms unfolding shamir_ok_def by blast

lemma share_try_from_long: "shamir_ok C \<Longrightarrow> 2 \<le> length b \<Longrightarrow> share_try_from C b"
  unfolding shamir_ok_def by blast

lemma box_unseal_seal:
  "box_ok C \<Longrightarrow> length sk = 32 \<Longrightarrow> pk = x25519_public C sk \<Longrightarrow> box_unseal C sk (box_seal C pk c m) = Some m"
  unfolding box_ok_def by blast

section \<open>A concrete instance\<close>

text \<open>
  An instance that satisfies every hypothesis, used to evaluate the model on concrete inputs.
  Its dealer hands the secret itself out under each \<open>x\<close>, so it is of course not a secure one;
  recovering still demands \<open>t\<close> shares with distinct \<open>x\<close> and one length.
\<close>

definition toy_recover :: "nat \<Rightarrow> bytes list \<Rightarrow> bytes option" where
  "toy_recover t shs =
     (case shs of [] \<Rightarrow> None
      | s # _ \<Rightarrow> if t \<le> length (remdups (map share_x shs)) \<and> list_all (\<lambda>b. length b = length s) shs
                 then Some (share_y s) else None)"

definition toy_shares :: "bytes \<Rightarrow> bytes list" where
  "toy_shares s = map (\<lambda>x. word_of_nat x # s) [1..<256]"

definition toy :: crates where
  "toy = \<lparr>
     sha256 = (\<lambda>b. take 32 (b @ replicate 32 0)),
     hex_encode = from_bytes,
     hex_decode = (\<lambda>s. Some (as_bytes s)),
     b64_decode = (\<lambda>s. Some (as_bytes s)),
     b64url_encode = from_bytes,
     b64url_decode = (\<lambda>s. Some (as_bytes s)),
     argon2id = (\<lambda>p s. Some (take 32 (as_bytes p @ s @ replicate 32 0))),
     aes_seal = (\<lambda>k n m. k @ n @ m),
     aes_open = (\<lambda>k n c. if take (length k + length n) c = k @ n
                          then Some (drop (length k + length n) c) else None),
     x25519_public = (\<lambda>sk. sk),
     x25519_weak = (\<lambda>pk. pk = replicate 32 0),
     box_seal = (\<lambda>pk c m. pk @ m),
     box_unseal = (\<lambda>sk c. if take (length sk) c = sk then Some (drop (length sk) c) else None),
     ed_public = (\<lambda>sk. sk),
     ed_valid_key = (\<lambda>pk. True),
     ed_sign = (\<lambda>sk m. take 64 (sk @ m @ replicate 64 0)),
     ed_verify = (\<lambda>pk m sg. sg = take 64 (pk @ m @ replicate 64 0)),
     os_bytes = (\<lambda>c n. replicate n (word_of_nat c)),
     shamir_deal = (\<lambda>t s c. toy_shares s),
     share_try_from = (\<lambda>b. 2 \<le> length b),
     shamir_recover = toy_recover \<rparr>"

lemma toy_simps [simp]:
  "sha256 toy b = take 32 (b @ replicate 32 0)"
  "hex_encode toy = from_bytes"
  "hex_decode toy s = Some (as_bytes s)"
  "b64_decode toy s = Some (as_bytes s)"
  "b64url_encode toy = from_bytes"
  "b64url_decode toy s = Some (as_bytes s)"
  "argon2id toy p salt = Some (take 32 (as_bytes p @ salt @ replicate 32 0))"
  "aes_seal toy k n m = k @ n @ m"
  "aes_open toy k n c = (if take (length k + length n) c = k @ n
                          then Some (drop (length k + length n) c) else None)"
  "x25519_public toy sk = sk"
  "x25519_weak toy pk = (pk = replicate 32 0)"
  "box_seal toy pk coin m = pk @ m"
  "box_unseal toy sk c = (if take (length sk) c = sk then Some (drop (length sk) c) else None)"
  "ed_public toy sk = sk"
  "ed_valid_key toy pk"
  "ed_sign toy sk m = take 64 (sk @ m @ replicate 64 0)"
  "ed_verify toy pk m sg = (sg = take 64 (pk @ m @ replicate 64 0))"
  "os_bytes toy coin len = replicate len (word_of_nat coin)"
  "shamir_deal toy t secret coin = toy_shares secret"
  "share_try_from toy b = (2 \<le> length b)"
  "shamir_recover toy = toy_recover"
  by (simp_all add: toy_def)

lemma toy_share_xs: "map share_x (toy_shares s) = map word_of_nat [1..<256]"
  by (simp add: toy_shares_def share_x_def)

lemma word_of_nat_inj_byte:
  "m < 256 \<Longrightarrow> n < 256 \<Longrightarrow> (word_of_nat m :: u8) = word_of_nat n \<longleftrightarrow> m = n"
  by (auto simp: word_of_nat_eq_iff take_bit_eq_mod)

lemma toy_xs_distinct: "distinct (map (word_of_nat :: nat \<Rightarrow> u8) [1..<256])"
proof -
  have "inj_on (word_of_nat :: nat \<Rightarrow> u8) {1..<256}"
    using word_of_nat_inj_byte by (intro inj_onI) (meson atLeastLessThan_iff)
  then show ?thesis by (simp add: distinct_map)
qed

lemma toy_share_member:
  assumes "b \<in> set (toy_shares s)"
  shows "share_y b = s" "length b = Suc (length s)" "share_x b \<noteq> 0"
proof -
  from assms obtain x where x: "b = word_of_nat x # s" "1 \<le> x" "x < 256"
    by (auto simp: toy_shares_def)
  then show "share_y b = s" "length b = Suc (length s)" by (simp_all add: share_y_def)
  show "share_x b \<noteq> 0"
    using x word_of_nat_inj_byte [of x 0] by (simp add: share_x_def)
qed

lemma toy_recover_dealt:
  assumes "distinct shs" "set shs \<subseteq> set (toy_shares s)" "t \<le> length shs" "1 \<le> t"
  shows "toy_recover t shs = Some s"
proof -
  from assms(3,4) obtain a rest where shs: "shs = a # rest" by (cases shs) auto
  have y: "share_y b = s" and len: "length b = Suc (length s)" if "b \<in> set shs" for b
    using that assms(2) toy_share_member by blast+
  have "inj_on share_x (set (toy_shares s))"
    using toy_xs_distinct [folded toy_share_xs [of s]] by (simp add: distinct_map)
  then have "inj_on share_x (set shs)" using assms(2) by (rule inj_on_subset)
  with assms(1) have "distinct (map share_x shs)" by (simp add: distinct_map)
  then have "length (remdups (map share_x shs)) = length shs"
    by (metis distinct_remdups_id length_map)
  moreover have "list_all (\<lambda>b. length b = length a) shs"
    using len shs by (auto simp: list_all_iff)
  ultimately show ?thesis using assms(3) y [of a] shs
    by (simp add: toy_recover_def)
qed

lemma toy_shamir_ok: "shamir_ok toy"
  unfolding shamir_ok_def toy_simps
  using toy_recover_dealt toy_share_member toy_xs_distinct
  by (auto simp: toy_share_xs simp del: map_map) (simp add: toy_shares_def)

lemma toy_linear: "shamir_linear toy"
  unfolding shamir_linear_def toy_simps
proof (intro allI impI, elim conjE)
  fix t n :: nat and shs ds :: "bytes list" and a b
  assume t: "1 \<le> t" "t \<le> length shs" and xs: "map share_x shs = map share_x ds"
    and d: "distinct (map share_x shs)"
    and len: "\<forall>x\<in>set shs \<union> set ds. length x = Suc n"
    and a: "toy_recover t shs = Some a" and b: "toy_recover t ds = Some b"
  obtain s shs' where shs: "shs = s # shs'" using t by (cases shs) auto
  obtain e ds' where ds: "ds = e # ds'" using xs shs by (cases ds) auto
  have ab: "a = share_y s" "b = share_y e"
    using a b shs ds by (auto simp: toy_recover_def split: if_splits)
  have l: "length shs = length ds" using xs by (metis length_map)
  have mx: "map share_x (map2 xor_share shs ds) = map share_x shs"
    using l by (induction shs ds rule: list_induct2) (auto simp: xor_share_def share_x_def)
  have ml: "length z = Suc n" if "z \<in> set (map2 xor_share shs ds)" for z
  proof -
    from that obtain p q where "p \<in> set shs" "q \<in> set ds" "z = xor_share p q"
      by (auto dest: set_zip_leftD set_zip_rightD)
    then show ?thesis using len by (simp add: xor_share_def xor_bytes_def share_y_def)
  qed
  have lr: "length (remdups (map share_x (map2 xor_share shs ds))) = length shs"
    unfolding mx using d by (metis distinct_remdups_id length_map)
  have "list_all (\<lambda>z. length z = length (xor_share s e)) (map2 xor_share shs ds)"
    using ml shs ds by (auto simp: list_all_iff)
  then have "toy_recover t (map2 xor_share shs ds) = Some (xor_bytes a b)"
    using lr t shs ds ab
    by (simp add: toy_recover_def xor_share_def share_y_def)
  moreover have "length a = n" "length b = n"
    using ab len shs ds by (simp_all add: share_y_def)
  ultimately show "toy_recover t (map2 xor_share shs ds) = Some (xor_bytes a b)
      \<and> length a = n \<and> length b = n" by blast
qed

lemma toy_box_ok: "box_ok toy"
  by (simp add: box_ok_def)

lemma toy_aes_ok: "aes_ok toy"
  by (simp add: aes_ok_def)

lemma toy_hex_ok: "hex_ok toy"
  by (simp add: hex_ok_def)

lemma toy_b64url_ok: "b64url_ok toy"
  by (simp add: b64url_ok_def)

lemma toy_os_ok: "os_ok toy"
  by (simp add: os_ok_def)

lemma toy_ed_ok: "ed_ok toy"
  unfolding ed_ok_def toy_simps by auto

end
