(* ===== verification/Strings.thy ===== *)
theory Strings
  imports Prelude
begin

text \<open>
  The string methods of Rust's standard library that the code uses, on strings as UTF-8
  bytes: \<open>trim\<close>, \<open>lines\<close>, \<open>split_whitespace\<close>, \<open>strip_prefix\<close> and \<open>strip_suffix\<close>.
  White space is Unicode's: a character of one, two or three bytes.
\<close>

definition white_space :: "string list" where
  "white_space =
     map (\<lambda>n. [char_of n]) ([9..<14] @ [32 :: nat])
     @ [[CHR 0xC2, CHR 0x85], [CHR 0xC2, CHR 0xA0], [CHR 0xE1, CHR 0x9A, CHR 0x80]]
     @ map (\<lambda>n. [CHR 0xE2, CHR 0x80, char_of n]) ([0x80..<0x8B] @ [0xA8, 0xA9, 0xAF :: nat])
     @ [[CHR 0xE2, CHR 0x81, CHR 0x9F], [CHR 0xE3, CHR 0x80, CHR 0x80]]"

definition starts_with :: "string \<Rightarrow> string \<Rightarrow> bool" where
  "starts_with p s \<longleftrightarrow> take (length p) s = p"

definition strip_prefix :: "string \<Rightarrow> string \<Rightarrow> string option" where
  "strip_prefix p s = (if starts_with p s then Some (drop (length p) s) else None)"

definition strip_suffix :: "string \<Rightarrow> string \<Rightarrow> string option" where
  "strip_suffix p s = map_option rev (strip_prefix (rev p) (rev s))"

text \<open>How many bytes the first character of \<open>s\<close> has, when it is one of \<open>ws\<close>.\<close>

definition head_len :: "string list \<Rightarrow> string \<Rightarrow> nat" where
  "head_len ws s = (case find (\<lambda>w. starts_with w s) ws of None \<Rightarrow> 0 | Some w \<Rightarrow> min (length w) (length s))"

function trim_head :: "string list \<Rightarrow> string \<Rightarrow> string" where
  "trim_head ws s = (if head_len ws s = 0 then s else trim_head ws (drop (head_len ws s) s))"
  by pat_completeness auto
termination
  by (relation "measure (\<lambda>(ws, s). length s)")
     (auto simp: head_len_def split: option.splits)

declare trim_head.simps [simp del]

definition trim_start :: "string \<Rightarrow> string" where
  "trim_start s = trim_head white_space s"

definition trim_end :: "string \<Rightarrow> string" where
  "trim_end s = rev (trim_head (map rev white_space) (rev s))"

definition trim :: "string \<Rightarrow> string" where
  "trim s = trim_end (trim_start s)"

fun until_white :: "string \<Rightarrow> string \<times> string" where
  "until_white [] = ([], [])"
| "until_white (c # s) =
     (if head_len white_space (c # s) > 0 then ([], c # s)
      else let (w, r) = until_white s in (c # w, r))"

text \<open>One step of \<open>split_whitespace\<close>: the next word and what follows it.\<close>

definition next_word :: "string \<Rightarrow> (string \<times> string) option" where
  "next_word s = (let t = trim_start s in if t = [] then None else Some (until_white t))"

text \<open>\<open>lines\<close>: cut at each newline, drop a carriage return before it, no empty last line.\<close>

definition drop_cr :: "string \<Rightarrow> string" where
  "drop_cr l = (if l \<noteq> [] \<and> last l = CHR 0x0D then butlast l else l)"

fun lines_from :: "string \<Rightarrow> string \<Rightarrow> string list" where
  "lines_from acc [] = (if acc = [] then [] else [rev acc])"
| "lines_from acc (c # s) =
     (if c = CHR 0x0A then drop_cr (rev acc) # lines_from [] s else lines_from (c # acc) s)"

definition lines :: "string \<Rightarrow> string list" where
  "lines s = lines_from [] s"

text \<open>\<open>trim_end_matches\<close> with a one-byte character.\<close>

definition trim_end_matches :: "char \<Rightarrow> string \<Rightarrow> string" where
  "trim_end_matches c s = rev (dropWhile (\<lambda>d. d = c) (rev s))"

lemma starts_with_append [simp]: "starts_with p (p @ s)"
  by (simp add: starts_with_def)

lemma starts_with_iff: "starts_with p s \<longleftrightarrow> (\<exists>r. s = p @ r)"
  by (metis append_eq_conv_conj append_take_drop_id starts_with_append starts_with_def)

lemma strip_prefix_iff: "strip_prefix p s = Some r \<longleftrightarrow> s = p @ r"
  by (auto simp: strip_prefix_def starts_with_iff)

lemma strip_suffix_iff: "strip_suffix p s = Some r \<longleftrightarrow> s = r @ p"
  by (auto simp: strip_suffix_def strip_prefix_iff rev_swap)

lemma trim_head_stops: "head_len ws (trim_head ws s) = 0"
  by (induction ws s rule: trim_head.induct) (simp add: trim_head.simps [of _ s for s])

lemma trim_head_idem: "trim_head ws (trim_head ws s) = trim_head ws s"
  using trim_head_stops [of ws s] by (subst trim_head.simps) simp

lemma trim_head_suffix: "\<exists>p. s = p @ trim_head ws s"
proof (induction ws s rule: trim_head.induct)
  case (1 ws s)
  show ?case
  proof (cases "head_len ws s = 0")
    case False
    with 1 obtain p where "drop (head_len ws s) s = p @ trim_head ws (drop (head_len ws s) s)"
      by blast
    then have "s = (take (head_len ws s) s @ p) @ trim_head ws s"
      using False by (subst trim_head.simps) (metis append_assoc append_take_drop_id)
    then show ?thesis by blast
  qed (simp add: trim_head.simps)
qed

text \<open>A text that begins and ends with a visible ASCII character is its own trimming.\<close>

definition visible_ascii :: "char \<Rightarrow> bool" where
  "visible_ascii c \<longleftrightarrow> (let n = of_char c :: nat in 33 \<le> n \<and> n \<le> 126)"

lemma white_space_ends: "w \<in> set white_space \<Longrightarrow> w \<noteq> [] \<and> \<not> visible_ascii (hd w) \<and> \<not> visible_ascii (last w)"
  by (auto simp: white_space_def visible_ascii_def)

lemma head_len_visible:
  assumes "visible_ascii c"
  shows "head_len white_space (c # s) = 0" "head_len (map rev white_space) (c # s) = 0"
proof -
  have apart: "\<not> starts_with v (c # s)" if "v \<noteq> []" "\<not> visible_ascii (hd v)" for v
    using that assms by (cases v) (auto simp: starts_with_def)
  have "\<not> starts_with w (c # s) \<and> \<not> starts_with (rev w) (c # s)" if "w \<in> set white_space" for w
    using white_space_ends [OF that] by (simp add: apart hd_rev)
  then have "find (\<lambda>w. starts_with w (c # s)) white_space = None" "find (\<lambda>w. starts_with w (c # s)) (map rev white_space) = None"
    by (auto simp: find_None_iff)
  then show "head_len white_space (c # s) = 0" "head_len (map rev white_space) (c # s) = 0"
    by (simp_all add: head_len_def)
qed

lemma trim_visible:
  assumes "s \<noteq> []" "visible_ascii (hd s)" "visible_ascii (last s)" shows "trim s = s"
proof -
  have start: "trim_start s = s"
    unfolding trim_start_def using assms(1,2) by (cases s) (simp_all add: trim_head.simps head_len_visible)
  obtain c r where r: "rev s = c # r" using assms(1) by (cases "rev s") auto
  then have "c = last s" by (metis hd_rev list.sel(1))
  then have "trim_head (map rev white_space) (rev s) = rev s"
    unfolding r using assms(3) by (simp add: trim_head.simps head_len_visible)
  then show ?thesis using start by (simp add: trim_def trim_end_def)
qed

end
