(* ===== verification/Wire.thy ===== *)
theory Wire
  imports Prelude
begin

text \<open>
  Big-endian integers and the cursor functions of the hand-written binary formats:
  \<open>take_u8\<close>, \<open>take_n\<close>, \<open>take_array\<close>, \<open>take_len_prefixed\<close> and \<open>push_len_prefixed\<close>
  of \<open>src/signing.rs\<close> (\<open>src/private_bridge.rs\<close> and \<open>src/export.rs\<close> repeat them). A
  cursor \<open>&mut &[u8]\<close> becomes the value read with the bytes left. What the decoders rely on
  is the locale \<open>codec\<close>, which every primitive interprets.
\<close>

section \<open>Big-endian integers\<close>

fun be_bytes :: "nat \<Rightarrow> nat \<Rightarrow> bytes" where
  "be_bytes 0 v = []"
| "be_bytes (Suc k) v = word_of_nat (v div 256 ^ k) # be_bytes k v"

definition be_value :: "bytes \<Rightarrow> nat" where
  "be_value bs = foldl (\<lambda>a b. a * 256 + unat b) 0 bs"

lemma length_be_bytes [simp]: "length (be_bytes k v) = k"
  by (induction k) auto

lemma be_value_acc: "foldl (\<lambda>a b. a * 256 + unat b) n (bs :: bytes) = n * 256 ^ length bs + be_value bs"
  unfolding be_value_def
proof (induction bs arbitrary: n)
  case (Cons b bs)
  show ?case
    using Cons.IH [of "n * 256 + unat b"] Cons.IH [of "unat b"] by (simp add: algebra_simps)
qed simp

lemma be_value_Nil [simp]: "be_value [] = 0"
  by (simp add: be_value_def)

lemma be_value_Cons [simp]: "be_value (b # bs) = unat b * 256 ^ length bs + be_value bs"
  using be_value_acc [of "unat b" bs] by (simp add: be_value_def)

lemma byte_bound: "unat (b :: u8) < 256"
  using unsigned_less [of b, where 'a = nat] by simp

lemma be_value_bound: "be_value bs < 256 ^ length bs"
proof (induction bs)
  case (Cons b bs)
  have "unat b * 256 ^ length bs + be_value bs < unat b * 256 ^ length bs + 256 ^ length bs"
    using Cons by simp
  also have "\<dots> = (unat b + 1) * 256 ^ length bs" by (simp add: algebra_simps)
  also have "\<dots> \<le> 256 * 256 ^ length bs"
    using byte_bound [of b] by (intro mult_right_mono) auto
  finally show ?case by simp
qed simp

lemma be_value_be_bytes: "be_value (be_bytes k v) = v mod 256 ^ k"
proof (induction k)
  case (Suc k)
  have "unat (word_of_nat (v div 256 ^ k) :: u8) = (v div 256 ^ k) mod 256"
    by (simp add: unsigned_of_nat take_bit_eq_mod)
  moreover have "v mod 256 ^ Suc k = 256 ^ k * (v div 256 ^ k mod 256) + v mod 256 ^ k"
    by (simp only: power_Suc2 mod_mult2_eq)
  ultimately show ?case using Suc by (simp add: algebra_simps)
qed simp

lemma be_bytes_be_value: "be_bytes (length bs) (be_value bs) = bs"
proof -
  have shift: "be_bytes k (n * 256 ^ k + v) = be_bytes k v" for k n v
  proof (induction k arbitrary: n)
    case (Suc k)
    have "n * 256 ^ Suc k + v = v + (n * 256) * 256 ^ k" by simp
    then have a: "(n * 256 ^ Suc k + v) div 256 ^ k = n * 256 + v div 256 ^ k"
      by (simp only: div_mult_self1) simp
    have w: "(word_of_nat (n * 256 + v div 256 ^ k) :: u8) = word_of_nat (v div 256 ^ k)"
      by (simp only: word_of_nat_eq_iff) (simp add: take_bit_eq_mod)
    have "be_bytes k (n * 256 ^ Suc k + v) = be_bytes k v"
      using Suc.IH [of "n * 256"] by (simp add: mult.assoc)
    then show ?case by (simp only: be_bytes.simps a w)
  qed simp
  show ?thesis
  proof (induction bs)
    case (Cons b bs)
    have "(unat b * 256 ^ length bs + be_value bs) div 256 ^ length bs = unat b"
      using be_value_bound [of bs] by simp
    then show ?case using Cons shift by simp
  qed simp
qed

section \<open>Cursors\<close>

definition take_n :: "bytes \<Rightarrow> nat \<Rightarrow> (bytes \<times> bytes) result" where
  "take_n d n = (if length d < n then Err InvalidBridgePackage else Ok (take n d, drop n d))"

definition take_u8 :: "bytes \<Rightarrow> (u8 \<times> bytes) result" where
  "take_u8 d = (case d of [] \<Rightarrow> Err InvalidBridgePackage | b # r \<Rightarrow> Ok (b, r))"

definition take_u16 :: "bytes \<Rightarrow> (nat \<times> bytes) result" where
  "take_u16 d = and_then (take_n d 2) (\<lambda>(b, r). Ok (be_value b, r))"

definition take_u32 :: "bytes \<Rightarrow> (u32 \<times> bytes) result" where
  "take_u32 d = and_then (take_n d 4) (\<lambda>(b, r). Ok (word_of_nat (be_value b), r))"

definition take_len_prefixed :: "bytes \<Rightarrow> (bytes \<times> bytes) result" where
  "take_len_prefixed d = and_then (take_u16 d) (\<lambda>(n, r). take_n r n)"

text \<open>\<open>std::str::from_utf8\<close> of a length-prefixed field.\<close>

definition take_string :: "bytes \<Rightarrow> (string \<times> bytes) result" where
  "take_string d = and_then (take_len_prefixed d) (\<lambda>(b, r).
     if utf8_valid b then Ok (from_bytes b, r) else Err InvalidBridgePackage)"

definition u32_bytes :: "u32 \<Rightarrow> bytes" where
  "u32_bytes g = be_bytes 4 (unat g)"

definition len_prefixed :: "bytes \<Rightarrow> bytes" where
  "len_prefixed b = be_bytes 2 (length b) @ b"

text \<open>\<open>push_len_prefixed\<close>: nothing is written when the length does not fit a \<open>u16\<close>.\<close>

definition push_len_prefixed :: "bytes \<Rightarrow> bytes \<Rightarrow> bytes result" where
  "push_len_prefixed out b =
     (if length b < 65536 then Ok (out @ len_prefixed b) else Err BundleFieldTooLarge)"

section \<open>The interface of a field codec\<close>

text \<open>
  A field: its decoder gives back a valid value whatever follows, accepts nothing but
  encodings of valid values, and fails only with \<open>InvalidBridgePackage\<close>.
\<close>

locale codec =
  fixes enc :: "'a \<Rightarrow> bytes"
    and dec :: "bytes \<Rightarrow> ('a \<times> bytes) result"
    and valid :: "'a \<Rightarrow> bool"
  assumes dec_enc: "valid a \<Longrightarrow> dec (enc a @ r) = Ok (a, r)"
    and dec_Ok: "dec d = Ok (a, r) \<Longrightarrow> valid a \<and> d = enc a @ r"
    and dec_Err: "dec d = Err e \<Longrightarrow> e = InvalidBridgePackage"
begin

lemma dec_iff: "dec d = Ok (a, r) \<longleftrightarrow> valid a \<and> d = enc a @ r"
  using dec_enc dec_Ok by blast

lemma enc_prefix_free:
  assumes "valid a" "valid b" "enc a @ r = enc b @ q"
  shows "a = b \<and> r = q"
proof -
  have "Ok (a, r) = dec (enc b @ q)"
    unfolding assms(3) [symmetric] by (rule dec_enc [OF assms(1), symmetric])
  also have "\<dots> = Ok (b, q)" by (rule dec_enc [OF assms(2)])
  finally show ?thesis by simp
qed

lemma enc_inj: "valid a \<Longrightarrow> valid b \<Longrightarrow> enc a = enc b \<Longrightarrow> a = b"
  using enc_prefix_free [of a b "[]" "[]"] by force

lemma dec_cut:
  assumes "valid a" "enc a = d @ x # xs"
  shows "dec d = Err InvalidBridgePackage"
proof (cases "dec d")
  case (Inl e)
  then show ?thesis using dec_Err by simp
next
  case (Inr p)
  obtain b r where p: "p = (b, r)" by (cases p)
  with Inr have b: "valid b" "d = enc b @ r" using dec_Ok by blast+
  then have "enc a @ [] = enc b @ (r @ x # xs)" using assms(2) by simp
  from enc_prefix_free [OF assms(1) b(1) this] show ?thesis by simp
qed

end

subsection \<open>The primitives are codecs\<close>

lemma take_n_Ok_iff: "take_n d n = Ok (a, r) \<longleftrightarrow> length a = n \<and> d = a @ r"
  unfolding take_n_def by (auto simp: append_eq_conv_conj)

lemma take_n_Err: "take_n d n = Err e \<Longrightarrow> e = InvalidBridgePackage"
  by (simp add: take_n_def split: if_splits)

lemma take_n_append [simp]: "length a = n \<Longrightarrow> take_n (a @ r) n = Ok (a, r)"
  by (simp add: take_n_Ok_iff)

interpretation arr: codec "\<lambda>b. b" "\<lambda>d. take_n d n" "\<lambda>b. length b = n" for n
  by unfold_locales (auto simp: take_n_Ok_iff dest: take_n_Err)

interpretation byte: codec "\<lambda>b. [b]" take_u8 "\<lambda>_. True"
  by unfold_locales (auto simp: take_u8_def split: list.splits)

lemma take_u16_Ok_iff: "take_u16 d = Ok (n, r) \<longleftrightarrow> n < 65536 \<and> d = be_bytes 2 n @ r"
proof -
  have "n < 65536 \<and> d = be_bytes 2 n @ r" if h: "take_u16 d = Ok (n, r)"
  proof -
    from h obtain b where b: "take_n d 2 = Ok (b, r)" "n = be_value b"
      by (auto simp: take_u16_def and_then_Ok_iff)
    then have "length b = 2" "d = b @ r" by (auto simp: take_n_Ok_iff)
    then show ?thesis
      using b(2) be_bytes_be_value [of b] be_value_bound [of b] by simp
  qed
  moreover have "take_u16 d = Ok (n, r)" if "n < 65536" "d = be_bytes 2 n @ r"
    using that by (simp add: take_u16_def be_value_be_bytes)
  ultimately show ?thesis by blast
qed

lemma take_u16_Err: "take_u16 d = Err e \<Longrightarrow> e = InvalidBridgePackage"
  by (cases "take_n d 2") (auto simp: take_u16_def dest: take_n_Err)

interpretation half: codec "be_bytes 2" take_u16 "\<lambda>n. n < 65536"
  by unfold_locales (auto simp: take_u16_Ok_iff dest: take_u16_Err)

lemma take_u32_Ok_iff: "take_u32 d = Ok (g, r) \<longleftrightarrow> d = u32_bytes g @ r"
proof -
  have bound: "unat g < 256 ^ 4" using unsigned_less [of g, where 'a = nat] by simp
  have "d = u32_bytes g @ r" if h: "take_u32 d = Ok (g, r)"
  proof -
    from h obtain b where b: "take_n d 4 = Ok (b, r)" "g = word_of_nat (be_value b)"
      by (auto simp: take_u32_def and_then_Ok_iff)
    then have l: "length b = 4" "d = b @ r" by (auto simp: take_n_Ok_iff)
    then have "unat g = be_value b"
      using b(2) be_value_bound [of b] by (simp add: unsigned_of_nat take_bit_eq_mod)
    then show ?thesis using l be_bytes_be_value [of b] by (simp add: u32_bytes_def)
  qed
  moreover have "take_u32 d = Ok (g, r)" if "d = u32_bytes g @ r"
    using that bound by (simp add: take_u32_def u32_bytes_def be_value_be_bytes)
  ultimately show ?thesis by blast
qed

lemma take_u32_Err: "take_u32 d = Err e \<Longrightarrow> e = InvalidBridgePackage"
  by (cases "take_n d 4") (auto simp: take_u32_def dest: take_n_Err)

interpretation word: codec u32_bytes take_u32 "\<lambda>_. True"
  by unfold_locales (auto simp: take_u32_Ok_iff dest: take_u32_Err)

lemma take_len_prefixed_Ok_iff:
  "take_len_prefixed d = Ok (b, r) \<longleftrightarrow> length b < 65536 \<and> d = len_prefixed b @ r"
  by (auto simp: take_len_prefixed_def and_then_Ok_iff take_u16_Ok_iff take_n_Ok_iff len_prefixed_def)

lemma take_len_prefixed_Err: "take_len_prefixed d = Err e \<Longrightarrow> e = InvalidBridgePackage"
  by (cases "take_u16 d") (auto simp: take_len_prefixed_def dest: take_u16_Err take_n_Err)

interpretation field: codec len_prefixed take_len_prefixed "\<lambda>b. length b < 65536"
  by unfold_locales (auto simp: take_len_prefixed_Ok_iff dest: take_len_prefixed_Err)

definition string_bytes :: "string \<Rightarrow> bytes" where
  "string_bytes s = len_prefixed (as_bytes s)"

definition short_string :: "string \<Rightarrow> bool" where
  "short_string s \<longleftrightarrow> length s < 65536 \<and> utf8_str s"

lemma take_string_Ok_iff:
  "take_string d = Ok (s, r) \<longleftrightarrow> short_string s \<and> d = string_bytes s @ r"
proof
  assume "take_string d = Ok (s, r)"
  then show "short_string s \<and> d = string_bytes s @ r"
    by (auto simp: take_string_def and_then_Ok_iff take_len_prefixed_Ok_iff short_string_def
        string_bytes_def utf8_str_def split: if_splits)
       (metis length_as_bytes as_bytes_from_bytes)
next
  assume "short_string s \<and> d = string_bytes s @ r"
  then have "take_len_prefixed d = Ok (as_bytes s, r)" "utf8_valid (as_bytes s)"
    by (simp_all add: take_len_prefixed_Ok_iff string_bytes_def short_string_def utf8_str_def)
  then show "take_string d = Ok (s, r)" by (simp add: take_string_def)
qed

lemma take_string_Err: "take_string d = Err e \<Longrightarrow> e = InvalidBridgePackage"
  by (cases "take_len_prefixed d")
     (auto simp: take_string_def dest: take_len_prefixed_Err split: if_splits)

interpretation str: codec string_bytes take_string short_string
  by unfold_locales (auto simp: take_string_Ok_iff dest: take_string_Err)

text \<open>The rules that run a decoder on its own encoding.\<close>

lemmas take_simps =
  byte.dec_enc half.dec_enc word.dec_enc field.dec_enc str.dec_enc take_n_append

lemmas take_Ok_iffs =
  take_n_Ok_iff byte.dec_iff take_u16_Ok_iff take_u32_Ok_iff take_len_prefixed_Ok_iff
  take_string_Ok_iff

lemmas take_Errs =
  take_n_Err byte.dec_Err take_u16_Err take_u32_Err take_len_prefixed_Err take_string_Err

lemma take_only_fails [intro]:
  "only_fails InvalidBridgePackage (take_n d n)"
  "only_fails InvalidBridgePackage (take_u8 d)"
  "only_fails InvalidBridgePackage (take_u16 d)"
  "only_fails InvalidBridgePackage (take_u32 d)"
  "only_fails InvalidBridgePackage (take_len_prefixed d)"
  "only_fails InvalidBridgePackage (take_string d)"
  by (rule only_failsI, erule take_Errs)+

lemma len_prefixed_inj:
  "length a < 65536 \<Longrightarrow> length b < 65536 \<Longrightarrow> len_prefixed a @ r = len_prefixed b @ q \<Longrightarrow> a = b \<and> r = q"
  by (rule field.enc_prefix_free)

end
