(* ===== verification/Store.thy ===== *)
theory Store
  imports Prelude Crates
begin

text \<open>
  The personal SQLite database of \<open>src/db/schema.sql\<close>, one list of rows per table, in rowid
  order (the order of a scan and of \<open>ORDER BY id\<close>), with the rest of the world a command
  touches: the draws of \<open>OsRng\<close> made so far, the clock, whether a transaction is open, and
  the files on disk and the paths at which writing fails. A statement that breaks a \<open>CHECK\<close>, a key, a foreign key or a trigger
  of the schema fails with \<open>ConstraintViolation\<close> and writes nothing. Times are integers:
  the code stores one fixed-width ISO format and only compares them.
\<close>

section \<open>Rows\<close>

datatype key_type = Encryption | Signing

record hw_row =
  hw_id :: int
  hw_label :: string
  hw_type :: key_type
  hw_fp :: string
  hw_public :: bytes
  hw_created :: int
  hw_revoked :: "int option"

record key_row =
  k_id :: int
  k_label :: string
  k_generation :: int

record node_row =
  n_id :: int
  n_key :: int
  n_parent :: "int option"
  n_label :: string
  n_threshold :: "int option"
  n_hw :: "int option"
  n_wrapped :: "bytes option"
  n_active :: bool

record file_row =
  f_id :: int
  f_name :: string
  f_path :: string
  f_key :: int
  f_nonce :: bytes

record event_row =
  e_file :: int
  e_success :: bool
  e_presented :: nat

record cred_row =
  c_id :: int
  c_label :: string
  c_username :: "string option"
  c_salt :: bytes
  c_nonce :: bytes
  c_text :: bytes

record locked_row =
  l_id :: int
  l_name :: string
  l_path :: string
  l_salt :: bytes
  l_nonce :: bytes

record share_row =
  s_id :: int
  s_resource :: int
  s_hash :: string
  s_expires :: int
  s_max :: "int option"
  s_uses :: int
  s_revoked :: "int option"

datatype resource_type = Credential | LockedFile | QuorumFile | CredentialShare | FileShare

record pin_row =
  p_id :: int
  p_type :: resource_type
  p_resource :: int
  p_hash :: bytes
  p_salt :: bytes
  p_every_use :: bool
  p_ttl :: int
  p_attempts :: int
  p_locked :: "int option"
  p_until :: "int option"

record pb_row =
  b_id :: int
  b_uid :: string
  b_key :: "int option"
  b_label :: "string option"
  b_generation :: int
  b_public :: bytes
  b_salt :: bytes
  b_destroyed :: "int option"

datatype member_role = Member | Supervisor

record member_row =
  m_bridge :: int
  m_label :: string
  m_encryption :: bytes
  m_signing :: "bytes option"
  m_role :: member_role
  m_local :: bool

record sealed_row =
  sk_bridge :: int
  sk_label :: string
  sk_salt :: bytes
  sk_secret :: bytes

datatype bridge_event_type = Created | Imported | MemberRemoved | Rotated | Destroyed

text \<open>The JSON object in \<open>detail\<close>, before \<open>serde_json\<close> prints it.\<close>

datatype bridge_detail =
    CreatedDetail string u32 "string list" "string list" "string list" bytes
  | ImportedDetail string member_role string u32
  | RemovedDetail string string "string list"
  | RotatedDetail string u32 "string list" "string list" bytes
  | FollowedDetail string u32 string
  | DestroyedDetail string string

record pbevent_row =
  pe_id :: int
  pe_bridge :: int
  pe_type :: bridge_event_type
  pe_detail :: bridge_detail

record relay_row =
  r_url :: string
  r_scope :: string
  r_hash :: string
  r_wrap_key :: bytes
  r_wrap_nonce :: bytes
  r_token :: bytes
  r_remote :: "int option"
  r_label :: "string option"
  r_stored :: int
  r_checked :: "int option"

record store =
  hw_rows :: "hw_row list"
  key_rows :: "key_row list"
  node_rows :: "node_row list"
  bridge_rows :: "(int \<times> string) list"
  link_rows :: "(int \<times> int) list"
  file_rows :: "file_row list"
  event_rows :: "event_row list"
  cred_rows :: "cred_row list"
  locked_rows :: "locked_row list"
  cshare_rows :: "share_row list"
  fshare_rows :: "share_row list"
  pin_rows :: "pin_row list"
  pb_rows :: "pb_row list"
  member_rows :: "member_row list"
  sealed_rows :: "sealed_row list"
  pbevent_rows :: "pbevent_row list"
  relay_rows :: "relay_row list"
  draws :: nat
  clock :: int
  in_tx :: bool
  disk :: "string \<rightharpoonup> bytes"
  bad_paths :: "string set"

definition empty_store :: store where
  "empty_store = \<lparr> hw_rows = [], key_rows = [], node_rows = [], bridge_rows = [], link_rows = [],
     file_rows = [], event_rows = [], cred_rows = [], locked_rows = [], cshare_rows = [],
     fshare_rows = [], pin_rows = [], pb_rows = [], member_rows = [], sealed_rows = [],
     pbevent_rows = [], relay_rows = [], draws = 0, clock = 0, in_tx = False,
     disk = (\<lambda>_. None), bad_paths = {} \<rparr>"

section \<open>Statements\<close>

definition draw :: "(store, nat) op" where
  "draw = (\<lambda>s. (Ok (draws s), s\<lparr>draws := Suc (draws s)\<rparr>))"

lemma draw_run [simp, op_simps]: "draw s = (Ok (draws s), s\<lparr>draws := Suc (draws s)\<rparr>)"
  by (simp add: draw_def)

lemma keeps_draw [keeps_intros]: "(\<And>s. P s \<Longrightarrow> P (s\<lparr>draws := Suc (draws s)\<rparr>)) \<Longrightarrow> keeps P draw"
  by (simp add: keeps_def)

text \<open>\<open>query_row\<close> fails when there is no row; \<open>.optional()\<close> makes that \<open>None\<close>.\<close>

definition query_row :: "'a option \<Rightarrow> 'a result" where
  "query_row x = ok_or (Db QueryReturnedNoRows) x"

lemma query_row_simps [simp]:
  "query_row None = Err (Db QueryReturnedNoRows)"
  "query_row (Some a) = Ok a"
  by (simp_all add: query_row_def)

lemma query_row_Ok_iff [simp]: "query_row x = Ok a \<longleftrightarrow> x = Some a"
  by (simp add: query_row_def)

text \<open>
  A new \<open>INTEGER PRIMARY KEY\<close> is one more than the largest in the table, 1 in an empty one.
\<close>

definition next_rowid :: "int list \<Rightarrow> int" where
  "next_rowid ids = foldr max ids 0 + 1"

lemma next_rowid_greater: "i \<in> set ids \<Longrightarrow> i < next_rowid ids"
  unfolding next_rowid_def by (induction ids) auto

lemma next_rowid_pos: "0 < next_rowid ids"
proof -
  have "0 \<le> foldr max ids (0::int)" by (induction ids) auto
  then show ?thesis by (simp add: next_rowid_def)
qed

lemma next_rowid_fresh: "next_rowid ids \<notin> set ids"
  using next_rowid_greater by blast

definition insert_row ::
  "('s \<Rightarrow> bool) \<Rightarrow> ('s \<Rightarrow> int list) \<Rightarrow> ((int \<Rightarrow> 's \<Rightarrow> 's)) \<Rightarrow> ('s, int) op" where
  "insert_row ok ids put = (\<lambda>s.
     if ok s then let i = next_rowid (ids s) in (Ok i, put i s)
     else (Err (Db ConstraintViolation), s))"

subsection \<open>Transactions\<close>

text \<open>
  \<open>conn.transaction()\<close> with \<open>?\<close> inside and \<open>commit\<close> at the end: a failure drops the
  transaction, which rolls the tables back. Files and the random generator are outside the
  database and keep what happened. \<open>with_immediate_transaction\<close> of \<open>src/db/mod.rs\<close> runs
  its closure directly when a transaction is already open.
\<close>

definition rollback :: "store \<Rightarrow> store \<Rightarrow> store" where
  "rollback s s' = s\<lparr>draws := draws s', disk := disk s'\<rparr>"

definition run_tx :: "(store, 'a) op \<Rightarrow> (store, 'a) op" where
  "run_tx m = (\<lambda>s. case m (s\<lparr>in_tx := True\<rparr>) of
       (Ok a, s') \<Rightarrow> (Ok a, s'\<lparr>in_tx := False\<rparr>)
     | (Err e, s') \<Rightarrow> (Err e, rollback s s'))"

definition transaction :: "(store, 'a) op \<Rightarrow> (store, 'a) op" where
  "transaction m = (\<lambda>s. if in_tx s then (Err (Db SqlFailure), s) else run_tx m s)"

definition with_immediate_transaction :: "(store, 'a) op \<Rightarrow> (store, 'a) op" where
  "with_immediate_transaction m = (\<lambda>s. if in_tx s then m s else run_tx m s)"

text \<open>
  What a transaction guarantees: on failure every table is as before, whatever the body
  had written.
\<close>

definition same_tables :: "store \<Rightarrow> store \<Rightarrow> bool" where
  "same_tables s s' \<longleftrightarrow> s'\<lparr>draws := draws s, disk := disk s\<rparr> = s"

lemma same_tables_refl [simp]: "same_tables s s"
  by (simp add: same_tables_def)

lemma same_tables_rollback [simp]: "same_tables s (rollback s s')"
  by (simp add: same_tables_def rollback_def)

lemma transaction_atomic: "transaction m s = (Err e, s') \<Longrightarrow> same_tables s s'"
  by (auto simp: transaction_def run_tx_def split: if_splits prod.splits sum.splits)

lemma transaction_Ok_elim:
  assumes "transaction m s = (Ok a, s')"
  obtains t where "\<not> in_tx s" "m (s\<lparr>in_tx := True\<rparr>) = (Ok a, t)" "s' = t\<lparr>in_tx := False\<rparr>"
  using assms by (auto simp: transaction_def run_tx_def split: if_splits prod.splits sum.splits)

lemma transaction_Ok:
  "\<not> in_tx s \<Longrightarrow> m (s\<lparr>in_tx := True\<rparr>) = (Ok a, t) \<Longrightarrow> transaction m s = (Ok a, t\<lparr>in_tx := False\<rparr>)"
  by (simp add: transaction_def run_tx_def)

text \<open>
  A predicate on the tables only, which an operation keeps, is kept by the transaction
  around it.
\<close>

definition tables_only :: "(store \<Rightarrow> bool) \<Rightarrow> bool" where
  "tables_only P \<longleftrightarrow> (\<forall>s d k b. P (s\<lparr>draws := d, disk := k, in_tx := b\<rparr>) = P s)"

lemma tables_only_in_tx: "tables_only P \<Longrightarrow> P (s\<lparr>in_tx := b\<rparr>) = P s"
  unfolding tables_only_def
  by (metis store.surjective store.update_convs(18,20,21))

lemma tables_only_rollback: "tables_only P \<Longrightarrow> P (rollback s s') = P s"
  unfolding tables_only_def rollback_def
  by (metis store.surjective store.update_convs(18,20,21))

lemma keeps_run_tx:
  assumes "tables_only P" "keeps P m"
  shows "keeps P (run_tx m)"
proof (rule keepsI)
  fix s assume "P s"
  then have "P (snd (m (s\<lparr>in_tx := True\<rparr>)))"
    using assms by (simp add: keeps_def tables_only_in_tx)
  then show "P (snd (run_tx m s))"
    using \<open>P s\<close> assms(1)
    by (auto simp: run_tx_def tables_only_in_tx tables_only_rollback split: prod.splits sum.splits)
qed

lemma keeps_transaction: "tables_only P \<Longrightarrow> keeps P m \<Longrightarrow> keeps P (transaction m)"
  using keeps_run_tx [of P m] by (auto simp: transaction_def keeps_def)

lemma keeps_with_immediate:
  "tables_only P \<Longrightarrow> keeps P m \<Longrightarrow> keeps P (with_immediate_transaction m)"
  using keeps_run_tx [of P m] by (auto simp: with_immediate_transaction_def keeps_def)

section \<open>The interface of a rowid table\<close>

text \<open>
  What the components rely on when they insert a row and read it back. \<open>ins mk\<close> inserts the
  row \<open>mk i\<close> under a new id \<open>i\<close>. Each table that assigns its own ids is an interpretation.
\<close>

locale rowid_table =
  fixes rows :: "'s \<Rightarrow> 'r list"
    and rid :: "'r \<Rightarrow> int"
    and ins :: "(int \<Rightarrow> 'r) \<Rightarrow> ('s, int) op"
  assumes ins_Ok: "ins mk s = (Ok i, s') \<Longrightarrow>
      i = next_rowid (map rid (rows s)) \<and> rows s' = rows s @ [mk i]"
    and ins_Err: "ins mk s = (Err e, s') \<Longrightarrow> s' = s"
begin

definition ids_ok :: "'s \<Rightarrow> bool" where
  "ids_ok s \<longleftrightarrow> sorted_wrt (<) (map rid (rows s)) \<and> (\<forall>r \<in> set (rows s). 0 < rid r)"

definition row_of :: "'s \<Rightarrow> int \<Rightarrow> 'r option" where
  "row_of s i = find (\<lambda>r. rid r = i) (rows s)"

lemma ids_ok_distinct: "ids_ok s \<Longrightarrow> distinct (map rid (rows s))"
  unfolding ids_ok_def using strict_sorted_iff by blast

lemma ins_fresh: "ins mk s = (Ok i, s') \<Longrightarrow> r \<in> set (rows s) \<Longrightarrow> rid r < i"
  using ins_Ok [of mk s i s'] next_rowid_greater [of "rid r" "map rid (rows s)"] by auto

lemma ins_ids_ok:
  assumes "ins mk s = (Ok i, s')" "rid (mk i) = i" "ids_ok s"
  shows "ids_ok s'"
proof -
  have "0 < i" using ins_Ok [OF assms(1)] next_rowid_pos by simp
  then show ?thesis
    using assms ins_Ok [OF assms(1)] ins_fresh [OF assms(1)]
    by (auto simp: ids_ok_def sorted_wrt_append)
qed

lemma row_of_new:
  assumes "ins mk s = (Ok i, s')" "rid (mk i) = i"
  shows "row_of s' i = Some (mk i)"
proof -
  have "find (\<lambda>r. rid r = i) (rows s) = None"
    using ins_fresh [OF assms(1)] by (fastforce simp: find_None_iff_all)
  then show ?thesis
    using ins_Ok [OF assms(1)] assms(2) by (simp add: row_of_def find_append)
qed

lemma row_of_old:
  assumes "ins mk s = (Ok i, s')" "rid (mk i) = i" "j \<noteq> i"
  shows "row_of s' j = row_of s j"
  using ins_Ok [OF assms(1)] assms(2,3)
  by (simp add: row_of_def find_append split: option.splits)

lemma row_of_member:
  assumes "ids_ok s" "r \<in> set (rows s)"
  shows "row_of s (rid r) = Some r"
  using assms ids_ok_distinct by (simp add: row_of_def find_unique)

lemma row_of_SomeD: "row_of s i = Some r \<Longrightarrow> r \<in> set (rows s) \<and> rid r = i"
  using find_SomeD [of "\<lambda>r. rid r = i"] by (auto simp: row_of_def)

end

end
