(* ===== verification/Keys.thy ===== *)
theory Keys
  imports Store Strings Wire
begin

text \<open>
  \<open>src/keys.rs\<close>: the registry of hardware keys (the \<open>hardware_keys\<close> table) and the parser of
  key files. A \<open>HardwareKey\<close> of the code is the row itself. Generation of key pairs is one
  call of a crate and is not modelled.
\<close>

section \<open>The registry\<close>

definition fingerprint :: "crates \<Rightarrow> bytes \<Rightarrow> string" where
  "fingerprint C pk = hex_encode C (sha256 C pk)"

text \<open>The \<open>INSERT\<close>: \<open>fingerprint\<close> is \<open>UNIQUE\<close>.\<close>

definition insert_hw :: "(int \<Rightarrow> hw_row) \<Rightarrow> (store, int) op" where
  "insert_hw mk = (\<lambda>s. insert_row
     (\<lambda>s. \<forall>r \<in> set (hw_rows s). hw_fp r \<noteq> hw_fp (mk (next_rowid (map hw_id (hw_rows s)))))
     (\<lambda>s. map hw_id (hw_rows s))
     (\<lambda>i s. s\<lparr>hw_rows := hw_rows s @ [mk i]\<rparr>) s)"

definition register_key :: "crates \<Rightarrow> string \<Rightarrow> key_type \<Rightarrow> bytes \<Rightarrow> (store, int) op" where
  "register_key C label kt pk =
     (if length pk \<noteq> 32 then fail InvalidPublicKey
      else (\<lambda>s. insert_hw (\<lambda>i. \<lparr> hw_id = i, hw_label = label, hw_type = kt,
                  hw_fp = fingerprint C pk, hw_public = pk, hw_created = clock s,
                  hw_revoked = None \<rparr>) s))"

definition list_keys :: "store \<Rightarrow> hw_row list" where
  "list_keys s = hw_rows s"

definition get_key :: "store \<Rightarrow> int \<Rightarrow> hw_row result" where
  "get_key s i = query_row (find (\<lambda>r. hw_id r = i) (hw_rows s))"

definition get_key_by_public_key :: "store \<Rightarrow> bytes \<Rightarrow> hw_row result" where
  "get_key_by_public_key s pk = ok_or InvalidPublicKey (find (\<lambda>r. hw_public r = pk) (hw_rows s))"

definition get_key_by_fingerprint :: "store \<Rightarrow> string \<Rightarrow> hw_row result" where
  "get_key_by_fingerprint s fp = ok_or InvalidPublicKey (find (\<lambda>r. hw_fp r = fp) (hw_rows s))"

definition get_or_register_encryption :: "crates \<Rightarrow> string \<Rightarrow> bytes \<Rightarrow> (store, int) op" where
  "get_or_register_encryption C label pk =
     (if length pk \<noteq> 32 then fail InvalidPublicKey
      else (\<lambda>s. case get_key_by_public_key s pk of
                  Ok r \<Rightarrow> (Ok (hw_id r), s)
                | Err _ \<Rightarrow> register_key C label Encryption pk s))"

text \<open>\<open>UPDATE\<close> and \<open>DELETE\<close> succeed on an id that is not there; the delete is stopped by
  the foreign key of \<open>key_nodes\<close>, which is \<open>ON DELETE RESTRICT\<close>.\<close>

definition revoke_key :: "int \<Rightarrow> (store, unit) op" where
  "revoke_key i = modify (\<lambda>s. s\<lparr>hw_rows :=
     map (\<lambda>r. if hw_id r = i then r\<lparr>hw_revoked := Some (clock s)\<rparr> else r) (hw_rows s)\<rparr>)"

definition remove_key :: "int \<Rightarrow> (store, unit) op" where
  "remove_key i = (\<lambda>s.
     if \<exists>r \<in> set (hw_rows s). hw_id r = i \<and> (\<exists>n \<in> set (node_rows s). n_hw n = Some i)
     then (Err (Db ConstraintViolation), s)
     else (Ok (), s\<lparr>hw_rows := filter (\<lambda>r. hw_id r \<noteq> i) (hw_rows s)\<rparr>))"

definition get_active_encryption_key :: "store \<Rightarrow> int \<Rightarrow> hw_row result" where
  "get_active_encryption_key s i =
     and_then (get_key s i) (\<lambda>r.
       if hw_type r \<noteq> Encryption then Err WrongKeyType
       else if hw_revoked r \<noteq> None then Err KeyRevoked
       else Ok r)"

definition encryption_public_from_secret :: "crates \<Rightarrow> bytes \<Rightarrow> bytes" where
  "encryption_public_from_secret C sk = x25519_public C sk"

section \<open>Key files\<close>

text \<open>The DER prefixes of RFC 8410, and the reader of SSH's length-prefixed strings.\<close>

definition SPKI_X25519 :: bytes where
  "SPKI_X25519 = [0x30, 0x2a, 0x30, 0x05, 0x06, 0x03, 0x2b, 0x65, 0x6e, 0x03, 0x21, 0x00]"

definition SPKI_ED25519 :: bytes where
  "SPKI_ED25519 = [0x30, 0x2a, 0x30, 0x05, 0x06, 0x03, 0x2b, 0x65, 0x70, 0x03, 0x21, 0x00]"

definition PKCS8_X25519 :: bytes where
  "PKCS8_X25519 = [0x30, 0x2e, 0x02, 0x01, 0x00, 0x30, 0x05, 0x06, 0x03, 0x2b, 0x65, 0x6e,
                   0x04, 0x22, 0x04, 0x20]"

definition PKCS8_ED25519 :: bytes where
  "PKCS8_ED25519 = [0x30, 0x2e, 0x02, 0x01, 0x00, 0x30, 0x05, 0x06, 0x03, 0x2b, 0x65, 0x70,
                    0x04, 0x22, 0x04, 0x20]"

definition pem_label_is_curve_key :: "string \<Rightarrow> bool" where
  "pem_label_is_curve_key l \<longleftrightarrow>
     l \<in> {''PUBLIC KEY'', ''PRIVATE KEY'', ''ED25519 PUBLIC KEY'', ''ED25519 PRIVATE KEY'',
          ''X25519 PUBLIC KEY'', ''X25519 PRIVATE KEY''}"

definition strip_der :: "bytes \<Rightarrow> bytes \<Rightarrow> bytes option" where
  "strip_der der p =
     (if length der = length p + 32 \<and> take (length p) der = p then Some (drop (length p) der) else None)"

definition extract_curve_key_bytes :: "bytes \<Rightarrow> bytes result" where
  "extract_curve_key_bytes der =
     (if length der = 32 then Ok der
      else case find (\<lambda>p. strip_der der p \<noteq> None) [SPKI_X25519, SPKI_ED25519, PKCS8_X25519, PKCS8_ED25519] of
             Some p \<Rightarrow> ok_or InvalidPublicKey (strip_der der p)
           | None \<Rightarrow> Err InvalidPublicKey)"

text \<open>
  The loop over the lines of a PEM file, with its three variables: whether a header was
  seen, the base64 text so far, and whether the scan is inside a block. A second header is
  accepted and the text goes on; the first footer ends the scan.
\<close>

fun pem_lines :: "bool \<Rightarrow> string \<Rightarrow> bool \<Rightarrow> string list \<Rightarrow> (bool \<times> string) result" where
  "pem_lines saw b64 inside [] = Ok (saw, b64)"
| "pem_lines saw b64 inside (l # ls) =
     (let line = trim l in
      case strip_prefix ''-----BEGIN '' line of
        Some rest \<Rightarrow>
          and_then (ok_or InvalidPublicKey (strip_suffix ''-----'' rest)) (\<lambda>name.
            if pem_label_is_curve_key name then pem_lines True b64 True ls else Err InvalidPublicKey)
      | None \<Rightarrow>
          if starts_with ''-----END '' line then Ok (saw, b64)
          else pem_lines saw (if inside then b64 @ line else b64) inside ls)"

definition decode_pem_key :: "crates \<Rightarrow> string \<Rightarrow> bytes result" where
  "decode_pem_key C text =
     and_then (pem_lines False [] False (lines text)) (\<lambda>(saw, b64).
       if \<not> saw then Err InvalidPublicKey
       else and_then (ok_or InvalidPublicKey (b64_decode C b64)) extract_curve_key_bytes)"

definition read_ssh_string :: "bytes \<Rightarrow> (bytes \<times> bytes) option" where
  "read_ssh_string d =
     (if length d < 4 then None
      else let len = be_value (take 4 d); r = drop 4 d
           in if length r < len then None else Some (take len r, drop len r))"

definition parse_ssh_ed25519_blob :: "bytes \<Rightarrow> bytes option" where
  "parse_ssh_ed25519_blob d =
     (case read_ssh_string d of None \<Rightarrow> None | Some (algo, d') \<Rightarrow>
        if algo \<noteq> as_bytes ''ssh-ed25519'' then None
        else (case read_ssh_string d' of None \<Rightarrow> None | Some (key, d'') \<Rightarrow>
                if length key \<noteq> 32 \<or> d'' \<noteq> [] then None else Some key))"

definition parse_openssh_public :: "crates \<Rightarrow> string \<Rightarrow> bytes option" where
  "parse_openssh_public C line =
     (case next_word line of None \<Rightarrow> None | Some (algo, rest) \<Rightarrow>
        if algo \<noteq> ''ssh-ed25519'' then None
        else (case next_word rest of None \<Rightarrow> None | Some (data, _) \<Rightarrow>
                (case b64_decode C data of None \<Rightarrow> None
                 | Some raw \<Rightarrow> parse_ssh_ed25519_blob raw)))"

definition parse_key_text :: "crates \<Rightarrow> string \<Rightarrow> bytes result" where
  "parse_key_text C contents =
     (let t = trim contents in
      if starts_with ''-----BEGIN '' t then decode_pem_key C t
      else case parse_openssh_public C t of
             Some raw \<Rightarrow> Ok raw
           | None \<Rightarrow> ok_or InvalidPublicKey (hex_decode C t))"

section \<open>The registry is a rowid table with unique fingerprints\<close>

lemma insert_hw_run:
  "insert_hw mk s =
     (let i = next_rowid (map hw_id (hw_rows s)) in
      if \<forall>r \<in> set (hw_rows s). hw_fp r \<noteq> hw_fp (mk i)
      then (Ok i, s\<lparr>hw_rows := hw_rows s @ [mk i]\<rparr>) else (Err (Db ConstraintViolation), s))"
  by (simp add: insert_hw_def insert_row_def Let_def)

interpretation hw: rowid_table hw_rows hw_id insert_hw
  by unfold_locales (auto simp: insert_hw_run Let_def split: if_splits)

definition keys_ok :: "crates \<Rightarrow> store \<Rightarrow> bool" where
  "keys_ok C s \<longleftrightarrow> hw.ids_ok s \<and> distinct (map hw_fp (hw_rows s))
     \<and> (\<forall>r \<in> set (hw_rows s). length (hw_public r) = 32 \<and> hw_fp r = fingerprint C (hw_public r))"

lemma get_key_Ok_iff: "get_key s i = Ok r \<longleftrightarrow> hw.row_of s i = Some r"
  by (simp add: get_key_def hw.row_of_def)

lemma get_keyD: "get_key s i = Ok r \<Longrightarrow> r \<in> set (hw_rows s) \<and> hw_id r = i"
  by (simp add: get_key_Ok_iff hw.row_of_SomeD)

lemma get_active_encryption_key_Ok_iff:
  "get_active_encryption_key s i = Ok r \<longleftrightarrow>
     get_key s i = Ok r \<and> hw_type r = Encryption \<and> hw_revoked r = None"
  by (cases "get_key s i") (auto simp: get_active_encryption_key_def)

lemma register_key_Ok:
  assumes "register_key C l kt pk s = (Ok i, s')"
  shows "length pk = 32" "i = next_rowid (map hw_id (hw_rows s))"
    and "s' = s\<lparr>hw_rows := hw_rows s @ [\<lparr> hw_id = i, hw_label = l, hw_type = kt,
            hw_fp = fingerprint C pk, hw_public = pk, hw_created = clock s, hw_revoked = None \<rparr>]\<rparr>"
    and "\<forall>r \<in> set (hw_rows s). hw_fp r \<noteq> fingerprint C pk"
  using assms by (auto simp: register_key_def insert_hw_run Let_def split: if_splits)

lemma register_key_Err: "register_key C l kt pk s = (Err e, s') \<Longrightarrow> s' = s"
  by (auto simp: register_key_def insert_hw_run Let_def split: if_splits)

lemma keys_ok_register: "keeps (keys_ok C) (register_key C l kt pk)"
proof (rule keepsI)
  fix s assume ok: "keys_ok C s"
  show "keys_ok C (snd (register_key C l kt pk s))"
  proof (cases "register_key C l kt pk s")
    case (Pair r s')
    then show ?thesis
    proof (cases r)
      case (Inr i)
      with Pair have run: "register_key C l kt pk s = (Ok i, s')" by simp
      note R = register_key_Ok [OF this]
      have "insert_hw (\<lambda>i. \<lparr> hw_id = i, hw_label = l, hw_type = kt, hw_fp = fingerprint C pk,
              hw_public = pk, hw_created = clock s, hw_revoked = None \<rparr>) s = (Ok i, s')"
        using run by (simp add: register_key_def split: if_splits)
      from hw.ins_ids_ok [OF this] have "hw.ids_ok s'" using ok by (simp add: keys_ok_def)
      then show ?thesis using ok R Pair by (auto simp: keys_ok_def)
    next
      case (Inl e)
      with Pair have "s' = s" using register_key_Err by simp
      then show ?thesis using ok Pair by simp
    qed
  qed
qed

lemma keys_ok_get_or_register: "keeps (keys_ok C) (get_or_register_encryption C l pk)"
  using keys_ok_register [of C l Encryption pk]
  by (auto simp: get_or_register_encryption_def keeps_def split: sum.splits)

lemma keys_ok_revoke: "keeps (keys_ok C) (revoke_key i)"
proof -
  have map_same: "map f (map (\<lambda>r. if hw_id r = i then r\<lparr>hw_revoked := Some t\<rparr> else r) rs) = map f rs"
    if "\<And>r t. f (r\<lparr>hw_revoked := Some t\<rparr>) = f r" for f :: "hw_row \<Rightarrow> 'b" and rs t
    using that by (induction rs) auto
  show ?thesis
    unfolding revoke_key_def
    by (rule keeps_modify) (auto simp: keys_ok_def hw.ids_ok_def map_same simp del: map_map)
qed

lemma keys_ok_remove: "keeps (keys_ok C) (remove_key i)"
proof (rule keepsI)
  fix s assume ok: "keys_ok C s"
  have "sorted_wrt (<) (map hw_id (filter (\<lambda>r. hw_id r \<noteq> i) (hw_rows s)))"
    using ok unfolding keys_ok_def hw.ids_ok_def sorted_wrt_map by (blast intro: sorted_wrt_filter)
  moreover have "distinct (map hw_fp (filter (\<lambda>r. hw_id r \<noteq> i) (hw_rows s)))"
    using ok by (simp add: keys_ok_def distinct_map_filter)
  ultimately show "keys_ok C (snd (remove_key i s))"
    using ok unfolding remove_key_def keys_ok_def hw.ids_ok_def by (simp split: if_split)
qed

text \<open>A revoked key never comes back as active.\<close>

lemma revoke_key_inactive:
  "get_active_encryption_key (snd (revoke_key i s)) i \<noteq> Ok r"
proof
  assume "get_active_encryption_key (snd (revoke_key i s)) i = Ok r"
  then have "get_key (snd (revoke_key i s)) i = Ok r" and n: "hw_revoked r = None"
    by (simp_all add: get_active_encryption_key_Ok_iff)
  then have "r \<in> set (hw_rows (snd (revoke_key i s)))" and "hw_id r = i"
    using get_keyD by blast+
  then have "r \<in> (\<lambda>q. if hw_id q = i then q\<lparr>hw_revoked := Some (clock s)\<rparr> else q) ` set (hw_rows s)"
    by (simp add: revoke_key_def)
  then obtain q where q: "r = (if hw_id q = i then q\<lparr>hw_revoked := Some (clock s)\<rparr> else q)"
    by (rule imageE)
  show False using \<open>hw_id r = i\<close> n unfolding q by (cases "hw_id q = i") simp_all
qed

section \<open>What the SSH and DER readers accept\<close>

definition ssh_ed25519_blob :: "bytes \<Rightarrow> bytes" where
  "ssh_ed25519_blob k =
     be_bytes 4 (length (as_bytes ''ssh-ed25519'')) @ as_bytes ''ssh-ed25519'' @ be_bytes 4 (length k) @ k"

lemma read_ssh_string_iff:
  "read_ssh_string d = Some (a, r) \<longleftrightarrow> length a < 2 ^ 32 \<and> d = be_bytes 4 (length a) @ a @ r"
proof
  assume h: "read_ssh_string d = Some (a, r)"
  then have l: "4 \<le> length d" and len: "be_value (take 4 d) \<le> length (drop 4 d)"
    and ar: "a = take (be_value (take 4 d)) (drop 4 d)" "r = drop (be_value (take 4 d)) (drop 4 d)"
    by (auto simp: read_ssh_string_def Let_def split: if_splits)
  from ar len have la: "length a = be_value (take 4 d)" by simp
  have "length (take 4 d) = 4" using l by simp
  then have "be_bytes 4 (length a) = take 4 d" "length a < 256 ^ 4"
    using be_bytes_be_value [of "take 4 d"] be_value_bound [of "take 4 d"] la by simp_all
  moreover have "a @ r = drop 4 d" by (simp only: ar append_take_drop_id)
  ultimately show "length a < 2 ^ 32 \<and> d = be_bytes 4 (length a) @ a @ r" by simp
next
  assume "length a < 2 ^ 32 \<and> d = be_bytes 4 (length a) @ a @ r"
  then show "read_ssh_string d = Some (a, r)"
    by (simp add: read_ssh_string_def be_value_be_bytes)
qed

lemma parse_ssh_blob_iff:
  "parse_ssh_ed25519_blob d = Some k \<longleftrightarrow> length k = 32 \<and> d = ssh_ed25519_blob k"
proof
  assume "parse_ssh_ed25519_blob d = Some k"
  then obtain d' where "read_ssh_string d = Some (as_bytes ''ssh-ed25519'', d')"
      "read_ssh_string d' = Some (k, [])" "length k = 32"
    by (auto simp: parse_ssh_ed25519_blob_def split: option.splits prod.splits if_splits)
  then show "length k = 32 \<and> d = ssh_ed25519_blob k"
    by (simp add: read_ssh_string_iff ssh_ed25519_blob_def)
next
  assume h: "length k = 32 \<and> d = ssh_ed25519_blob k"
  then have "read_ssh_string d = Some (as_bytes ''ssh-ed25519'', be_bytes 4 32 @ k)"
      "read_ssh_string (be_bytes 4 32 @ k) = Some (k, [])"
    by (simp_all add: read_ssh_string_iff ssh_ed25519_blob_def)
  then show "parse_ssh_ed25519_blob d = Some k"
    using h by (simp add: parse_ssh_ed25519_blob_def)
qed

lemma extract_curve_key_sound:
  "extract_curve_key_bytes der = Ok k \<Longrightarrow>
     length k = 32 \<and> (der = k \<or> (\<exists>p \<in> {SPKI_X25519, SPKI_ED25519, PKCS8_X25519, PKCS8_ED25519}. der = p @ k))"
  unfolding extract_curve_key_bytes_def strip_der_def
  by (auto split: if_splits option.splits dest!: find_SomeD) (metis append_take_drop_id)+

lemma extract_curve_key_complete:
  assumes "length k = 32" "p \<in> {[], SPKI_X25519, SPKI_ED25519, PKCS8_X25519, PKCS8_ED25519}"
  shows "extract_curve_key_bytes (p @ k) = Ok k"
  using assms
  by (auto simp: extract_curve_key_bytes_def strip_der_def SPKI_X25519_def SPKI_ED25519_def
      PKCS8_X25519_def PKCS8_ED25519_def)

end
