(* ===== verification/Pss.thy ===== *)
theory Pss
  imports Store "HOL-Library.AList"
begin

text \<open>
  \<open>src/pss.rs\<close>: proactive refresh of Shamir shares. A share is its encoding, the byte \<open>x\<close>
  then the bytes \<open>y\<close>. A \<open>HashMap<u8, Vec<u8>>\<close> is an association list without duplicate
  keys; the order in which the code walks it cannot be observed, each key being met once.
\<close>

section \<open>The operations\<close>

fun distinct_nonzero_from :: "u8 set \<Rightarrow> u8 list \<Rightarrow> unit result" where
  "distinct_nonzero_from seen [] = Ok ()"
| "distinct_nonzero_from seen (x # xs) =
     (if x = 0 \<or> x \<in> seen then Err ShareShapeMismatch else distinct_nonzero_from (insert x seen) xs)"

definition require_distinct_nonzero_xs :: "u8 list \<Rightarrow> unit result" where
  "require_distinct_nonzero_xs xs = distinct_nonzero_from {} xs"

definition add_shares :: "bytes \<Rightarrow> bytes \<Rightarrow> bytes result" where
  "add_shares a b =
     (if length a < 2 \<or> length a \<noteq> length b \<or> a ! 0 \<noteq> b ! 0 then Err ShareShapeMismatch
      else Ok (a ! 0 # map2 xor (drop 1 a) (drop 1 b)))"

definition apply_deltas :: "bytes \<Rightarrow> bytes \<Rightarrow> bytes result" where
  "apply_deltas share delta = add_shares share delta"

definition generate_zero_deltas ::
  "crates \<Rightarrow> nat \<Rightarrow> nat \<Rightarrow> u8 list \<Rightarrow> (store, (u8 \<times> bytes) list) op" where
  "generate_zero_deltas C t len xs =
     (if t < 2 \<or> len = 0 \<or> xs = [] then fail ShareShapeMismatch
      else bind (lift_result (require_distinct_nonzero_xs xs)) (\<lambda>_. bind draw (\<lambda>coin.
        let all = take 255 (shamir_deal C t (replicate len 0) coin);
            by_x = foldl (\<lambda>m b. if b ! 0 \<in> set xs then AList.update (b ! 0) b m else m) [] all
        in if length by_x \<noteq> length (remdups xs) then fail ShareShapeMismatch else ret by_x)))"

fun absorb :: "(u8 \<times> bytes) list \<Rightarrow> (u8 \<times> bytes) list \<Rightarrow> (u8 \<times> bytes) list result" where
  "absorb [] acc = Ok acc"
| "absorb ((x, d) # ds) acc =
     and_then (ok_or ShareShapeMismatch (map_of acc x)) (\<lambda>a.
     and_then (apply_deltas a d) (\<lambda>a'. absorb ds (AList.update x a' acc)))"

fun absorb_rounds ::
  "crates \<Rightarrow> nat \<Rightarrow> nat \<Rightarrow> u8 list \<Rightarrow> nat \<Rightarrow> (u8 \<times> bytes) list \<Rightarrow> (store, (u8 \<times> bytes) list) op" where
  "absorb_rounds C t len xs 0 acc = ret acc"
| "absorb_rounds C t len xs (Suc k) acc =
     bind (generate_zero_deltas C t len xs) (\<lambda>ds.
     bind (lift_result (absorb ds acc)) (absorb_rounds C t len xs k))"

definition refresh_among :: "crates \<Rightarrow> bytes list \<Rightarrow> nat \<Rightarrow> (store, bytes list) op" where
  "refresh_among C shares t =
     (if shares = [] \<or> length shares < t then fail ShareShapeMismatch
      else let len = length (hd shares) - 1 in
      if len = 0 then fail ShareShapeMismatch
      else if \<not> list_all (\<lambda>b. length b = len + 1) shares then fail ShareShapeMismatch
      else let xs = map (\<lambda>b. b ! 0) shares in
      bind (lift_result (require_distinct_nonzero_xs xs)) (\<lambda>_.
      if t < 2 then fail ShareShapeMismatch
      else bind (absorb_rounds C t len xs (length shares)
                  (foldl (\<lambda>m x. AList.update x (x # replicate len 0) m) [] xs)) (\<lambda>combined.
           lift_result (try_all (\<lambda>b. and_then (ok_or ShareShapeMismatch (map_of combined (b ! 0)))
                                       (apply_deltas b)) shares))))"

section \<open>Shapes\<close>

lemma require_distinct_nonzero_Ok_iff:
  "require_distinct_nonzero_xs xs = Ok () \<longleftrightarrow> distinct xs \<and> 0 \<notin> set xs"
proof -
  have "distinct_nonzero_from seen xs = Ok () \<longleftrightarrow> distinct xs \<and> 0 \<notin> set xs \<and> seen \<inter> set xs = {}" for seen
    by (induction seen xs rule: distinct_nonzero_from.induct) auto
  then show ?thesis by (simp add: require_distinct_nonzero_xs_def)
qed

lemma require_distinct_nonzero_cases:
  "require_distinct_nonzero_xs xs = (if distinct xs \<and> 0 \<notin> set xs then Ok () else Err ShareShapeMismatch)"
proof -
  have "distinct_nonzero_from seen xs \<in> {Ok (), Err ShareShapeMismatch}" for seen
    by (induction seen xs rule: distinct_nonzero_from.induct) auto
  then have "require_distinct_nonzero_xs xs \<in> {Ok (), Err ShareShapeMismatch}"
    by (simp add: require_distinct_nonzero_xs_def)
  then show ?thesis using require_distinct_nonzero_Ok_iff [of xs] by (auto split: if_splits)
qed

text \<open>A share of \<open>n\<close> secret bytes, and the table of the shares a round maintains.\<close>

definition share_shape :: "nat \<Rightarrow> bytes \<Rightarrow> bool" where
  "share_shape n b \<longleftrightarrow> length b = Suc n"

lemma add_shares_xor:
  assumes "share_shape n a" "share_shape n b" "0 < n" "share_x a = share_x b"
  shows "add_shares a b = Ok (xor_share a b)"
  using assms
  by (cases a; cases b)
     (auto simp: add_shares_def share_shape_def share_x_def xor_share_def xor_bytes_def share_y_def)

lemma share_shape_xor: "share_shape n a \<Longrightarrow> share_shape n b \<Longrightarrow> share_shape n (xor_share a b)"
  by (simp add: share_shape_def xor_share_def xor_bytes_def share_y_def)

lemma share_x_xor [simp]: "share_x (xor_share a b) = share_x a"
  by (simp add: xor_share_def share_x_def)

lemma xor_bytes_zero: "length a = n \<Longrightarrow> xor_bytes a (replicate n 0) = a"
  by (induction a arbitrary: n) (auto simp: xor_bytes_def)

lemma xor_bytes_self: "xor_bytes a a = replicate (length a) 0"
  by (induction a) (auto simp: xor_bytes_def)

lemma share_x_nth: "share_shape n b \<Longrightarrow> b ! 0 = share_x b"
  by (cases b) (auto simp: share_shape_def share_x_def)

section \<open>The dealer covers every coordinate\<close>

lemma nonzero_bytes_card: "card (UNIV - {0 :: u8}) = 255"
  by (simp add: card_Diff_singleton card_word)

lemma deal_covers:
  assumes "shamir_ok C" "1 \<le> t" "t \<le> 255" "x \<noteq> 0"
  shows "\<exists>b \<in> set (shamir_deal C t s c). share_x b = x"
proof -
  let ?xs = "map share_x (shamir_deal C t s c)"
  have "set ?xs \<subseteq> UNIV - {0}" using shamir_deal_share [OF assms(1-3)] by auto
  moreover have "card (set ?xs) = 255"
    using distinct_card [OF shamir_deal_xs [OF assms(1-3)]] shamir_deal_length [OF assms(1-3)] by simp
  ultimately have "set ?xs = UNIV - {0}"
    using nonzero_bytes_card by (intro card_subset_eq) auto
  then have "x \<in> share_x ` set (shamir_deal C t s c)" using assms(4) by simp
  then show ?thesis by blast
qed

text \<open>
  A table of shares of zero: one share per coordinate, and every large enough selection of
  them recovers to zero. Such tables are closed under XOR; a dealing of zero is one.
\<close>

definition zero_table :: "crates \<Rightarrow> nat \<Rightarrow> nat \<Rightarrow> u8 list \<Rightarrow> (u8 \<rightharpoonup> bytes) \<Rightarrow> bool" where
  "zero_table C t n xs m \<longleftrightarrow> dom m = set xs
     \<and> (\<forall>x b. m x = Some b \<longrightarrow> share_shape n b \<and> share_x b = x)
     \<and> (\<forall>js. distinct js \<and> set js \<subseteq> set xs \<and> t \<le> length js
          \<longrightarrow> shamir_recover C t (map (\<lambda>x. the (m x)) js) = Some (replicate n 0))"

lemma zero_table_share:
  "zero_table C t n xs m \<Longrightarrow> x \<in> set xs \<Longrightarrow> \<exists>b. m x = Some b \<and> share_shape n b \<and> share_x b = x"
  unfolding zero_table_def by blast

lemma zero_table_xs:
  assumes "zero_table C t n xs m" "set js \<subseteq> set xs"
  shows "map share_x (map (\<lambda>x. the (m x)) js) = js"
  using assms(2) zero_table_share [OF assms(1)] by (induction js) fastforce+

lemma recover_absorbs_zero:
  assumes lin: "shamir_linear C" and t: "1 \<le> t" and n: "0 < n"
    and z: "zero_table C t n xs m" and sub: "set (map share_x shs) \<subseteq> set xs"
    and d: "distinct (map share_x shs)" and sh: "\<forall>b \<in> set shs. share_shape n b"
    and len: "t \<le> length shs" and rec: "shamir_recover C t shs = Some v"
  shows "shamir_recover C t (map (\<lambda>b. xor_share b (the (m (share_x b)))) shs) = Some v"
proof -
  let ?ds = "map (\<lambda>x. the (m x)) (map share_x shs)"
  have xs: "map share_x shs = map share_x ?ds" using zero_table_xs [OF z sub] by simp
  have shape: "\<forall>b \<in> set shs \<union> set ?ds. length b = Suc n"
    using sh sub zero_table_share [OF z] by (fastforce simp: share_shape_def)
  have zero: "shamir_recover C t ?ds = Some (replicate n 0)"
    using z d sub len unfolding zero_table_def by (metis length_map)
  have "shamir_recover C t (map2 xor_share shs ?ds) = Some (xor_bytes v (replicate n 0)) \<and> length v = n"
    using lin t len xs d n shape rec zero unfolding shamir_linear_def by blast
  moreover have "map2 xor_share shs ?ds = map (\<lambda>b. xor_share b (the (m (share_x b)))) shs"
    by (induction shs) auto
  ultimately show ?thesis by (simp add: xor_bytes_zero)
qed

lemma zero_table_xor:
  assumes lin: "shamir_linear C" and t: "1 \<le> t" and n: "0 < n"
    and a: "zero_table C t n xs a" and b: "zero_table C t n xs b"
  shows "zero_table C t n xs (\<lambda>x. case b x of None \<Rightarrow> a x | Some d \<Rightarrow> Some (xor_share (the (a x)) d))"
    (is "zero_table C t n xs ?m")
proof -
  have m: "?m x = Some (xor_share (the (a x)) (the (b x)))" if "x \<in> set xs" for x
    using zero_table_share [OF b that] by auto
  have out: "?m x = None" if "x \<notin> set xs" for x
    using that a b by (auto simp: zero_table_def dom_def split: option.splits)
  have 1: "dom ?m = set xs"
    using m out by (metis (no_types, lifting) domD domI not_Some_eq subsetI subset_antisym)
  have 2: "share_shape n c \<and> share_x c = x" if h: "?m x = Some c" for x c
  proof -
    have x: "x \<in> set xs" using out h by (metis option.distinct(1))
    show ?thesis
      using zero_table_share [OF a x] zero_table_share [OF b x] m [OF x] h
      by (auto simp: share_shape_xor)
  qed
  have 3: "shamir_recover C t (map (\<lambda>x. the (?m x)) js) = Some (replicate n 0)"
    if js: "distinct js" "set js \<subseteq> set xs" "t \<le> length js" for js
  proof -
    let ?as = "map (\<lambda>x. the (a x)) js"
    have ax: "map share_x ?as = js" by (rule zero_table_xs [OF a js(2)])
    have sh: "\<forall>c \<in> set ?as. share_shape n c" using js(2) zero_table_share [OF a] by fastforce
    have za: "shamir_recover C t ?as = Some (replicate n 0)"
      using a js unfolding zero_table_def by blast
    have "set (map share_x ?as) \<subseteq> set xs" "distinct (map share_x ?as)" "t \<le> length ?as"
      unfolding ax using js by simp_all
    from recover_absorbs_zero [OF lin t n b this(1,2) sh this(3) za]
    have "shamir_recover C t (map (\<lambda>c. xor_share c (the (b (share_x c)))) ?as) = Some (replicate n 0)" .
    moreover have "map (\<lambda>c. xor_share c (the (b (share_x c)))) ?as = map (\<lambda>x. the (?m x)) js"
      unfolding map_map
    proof (rule map_cong [OF refl])
      fix x assume "x \<in> set js"
      then have x: "x \<in> set xs" using js(2) by blast
      show "((\<lambda>c. xor_share c (the (b (share_x c)))) \<circ> (\<lambda>x. the (a x))) x = the (?m x)"
        using zero_table_share [OF a x] m [OF x] by auto
    qed
    ultimately show ?thesis by (simp only:)
  qed
  show ?thesis unfolding zero_table_def using 1 2 3 by blast
qed

section \<open>The rounds\<close>

definition by_x_step :: "u8 set \<Rightarrow> (u8 \<times> bytes) list \<Rightarrow> bytes \<Rightarrow> (u8 \<times> bytes) list" where
  "by_x_step X = (\<lambda>m b. if b ! 0 \<in> X then AList.update (b ! 0) b m else m)"

lemma by_x_distinct:
  "distinct (map fst m) \<Longrightarrow> distinct (map fst (foldl (by_x_step X) m bs))"
  by (induction bs arbitrary: m) (auto simp: by_x_step_def distinct_update)

lemma by_x_map:
  assumes "distinct (map (\<lambda>b. b ! 0) bs)"
  shows "map_of (foldl (by_x_step X) m bs) x =
           (case find (\<lambda>b. b ! 0 = x \<and> x \<in> X) bs of Some b \<Rightarrow> Some b | None \<Rightarrow> map_of m x)"
  using assms
proof (induction bs arbitrary: m)
  case (Cons b bs)
  have "b ! 0 \<notin> (\<lambda>c. c ! 0) ` set bs" using Cons.prems by simp
  then have "find (\<lambda>c. c ! 0 = b ! 0 \<and> b ! 0 \<in> X) bs = None"
    unfolding find_None_iff_all by (metis imageI)
  then show ?case using Cons
    by (auto simp: by_x_step_def update_conv' split: option.splits)
qed simp

lemma map_of_length:
  assumes "distinct (map fst m)" "dom (map_of m) = set xs" "distinct xs"
  shows "length m = length xs"
proof -
  have "length m = card (fst ` set m)"
    using assms(1) distinct_card [of "map fst m"] by simp
  also have "\<dots> = card (set xs)" using assms(2) by (simp add: dom_map_of_conv_image_fst)
  also have "\<dots> = length xs" using assms(3) by (rule distinct_card)
  finally show ?thesis .
qed

lemma generate_zero_deltas_Ok:
  assumes ok: "shamir_ok C" and t: "2 \<le> t" "t \<le> 255" and n: "0 < n"
    and xs: "xs \<noteq> []" "distinct xs" "0 \<notin> set xs"
  shows "\<exists>ds. generate_zero_deltas C t n xs s = (Ok ds, s\<lparr>draws := Suc (draws s)\<rparr>)
           \<and> distinct (map fst ds) \<and> zero_table C t n xs (map_of ds)"
proof -
  have t1: "1 \<le> t" using t by simp
  let ?all = "shamir_deal C t (replicate n 0) (draws s)"
  let ?ds = "foldl (by_x_step (set xs)) [] ?all"
  note shape = shamir_deal_share [OF ok t1 t(2), of _ "replicate n 0"]
  have hd: "b ! 0 = share_x b" if "b \<in> set ?all" for b
    using shape(1) [OF that] by (cases b) (auto simp: share_x_def)
  have d: "distinct (map (\<lambda>b. b ! 0) ?all)"
    using shamir_deal_xs [OF ok t1 t(2)] hd by (simp cong: map_cong)
  have mo: "map_of ?ds x = find (\<lambda>b. b ! 0 = x \<and> x \<in> set xs) ?all" for x
    using by_x_map [OF d, of "set xs" "[]" x] by (simp split: option.splits)
  have dist: "distinct (map fst ?ds)" by (rule by_x_distinct) simp
  have some: "b \<in> set ?all \<and> share_x b = x \<and> x \<in> set xs" if "map_of ?ds x = Some b" for x b
    using that find_SomeD [of "\<lambda>b. b ! 0 = x \<and> x \<in> set xs" ?all b] hd unfolding mo by auto
  have dom: "dom (map_of ?ds) = set xs"
  proof
    show "dom (map_of ?ds) \<subseteq> set xs" using some by blast
    show "set xs \<subseteq> dom (map_of ?ds)"
    proof
      fix x assume x: "x \<in> set xs"
      then have "x \<noteq> 0" using xs by auto
      from deal_covers [OF ok t1 t(2) this, of "replicate n 0" "draws s"]
      obtain b where "b \<in> set ?all" "share_x b = x" by blast
      then have "find (\<lambda>b. b ! 0 = x \<and> x \<in> set xs) ?all \<noteq> None"
        unfolding find_None_iff_all using x hd by blast
      then show "x \<in> dom (map_of ?ds)" using mo by (simp add: dom_def)
    qed
  qed
  have zt: "zero_table C t n xs (map_of ?ds)"
    unfolding zero_table_def
  proof (intro conjI allI impI dom)
    fix x b assume "map_of ?ds x = Some b"
    then show "share_shape n b" "share_x b = x"
      using some shape(1) by (fastforce simp: share_shape_def)+
  next
    fix js assume js: "distinct js \<and> set js \<subseteq> set xs \<and> t \<le> length js"
    have mem: "the (map_of ?ds x) \<in> set ?all \<and> share_x (the (map_of ?ds x)) = x" if "x \<in> set js" for x
    proof -
      from that js dom obtain b where "map_of ?ds x = Some b" by blast
      then show ?thesis using some by simp
    qed
    have "distinct (map (\<lambda>x. the (map_of ?ds x)) js)"
      using js mem unfolding distinct_map by (metis (no_types, lifting) inj_onI)
    moreover have "set (map (\<lambda>x. the (map_of ?ds x)) js) \<subseteq> set ?all" using mem by auto
    ultimately show "shamir_recover C t (map (\<lambda>x. the (map_of ?ds x)) js) = Some (replicate n 0)"
      using js n by (intro shamir_recover_deal [OF ok t1 t(2)]) auto
  qed
  have "length ?ds = length xs" by (rule map_of_length [OF dist dom xs(2)])
  moreover have "take 255 ?all = ?all" using shamir_deal_length [OF ok t1 t(2)] by simp
  moreover have "require_distinct_nonzero_xs xs = Ok ()"
    using xs by (simp add: require_distinct_nonzero_Ok_iff)
  ultimately have "generate_zero_deltas C t n xs s = (Ok ?ds, s\<lparr>draws := Suc (draws s)\<rparr>)"
    using t n xs(1,2)
    by (simp add: generate_zero_deltas_def op_simps Let_def by_x_step_def distinct_remdups_id)
  then show ?thesis using dist zt by blast
qed

lemma absorb_Ok:
  assumes "0 < n" "distinct (map fst ds)"
    and "\<And>x d. (x, d) \<in> set ds \<Longrightarrow> share_shape n d \<and> share_x d = x
           \<and> (\<exists>a. map_of acc x = Some a \<and> share_shape n a \<and> share_x a = x)"
  shows "\<exists>acc'. absorb ds acc = Ok acc' \<and>
           map_of acc' = (\<lambda>x. case map_of ds x of None \<Rightarrow> map_of acc x
                              | Some d \<Rightarrow> Some (xor_share (the (map_of acc x)) d))"
  using assms(2,3)
proof (induction ds arbitrary: acc)
  case (Cons p ds)
  obtain x d where p: "p = (x, d)" by (cases p)
  from Cons.prems(2) [of x d] p obtain a where
    a: "map_of acc x = Some a" "share_shape n a" "share_x a = x" "share_shape n d" "share_x d = x"
    by auto
  then have ap: "apply_deltas a d = Ok (xor_share a d)"
    using assms(1) by (simp add: apply_deltas_def add_shares_xor)
  let ?acc = "AList.update x (xor_share a d) acc"
  have x: "x \<notin> fst ` set ds" using Cons.prems(1) p by simp
  have "\<exists>acc'. absorb ds ?acc = Ok acc' \<and>
           map_of acc' = (\<lambda>x. case map_of ds x of None \<Rightarrow> map_of ?acc x
                              | Some d \<Rightarrow> Some (xor_share (the (map_of ?acc x)) d))"
  proof (rule Cons.IH)
    show "distinct (map fst ds)" using Cons.prems(1) by simp
    fix y e assume ye: "(y, e) \<in> set ds"
    then have "y \<noteq> x" using x by force
    then show "share_shape n e \<and> share_x e = y
           \<and> (\<exists>a. map_of ?acc y = Some a \<and> share_shape n a \<and> share_x a = y)"
      using Cons.prems(2) [of y e] ye by (simp add: update_conv')
  qed
  moreover have "map_of ds x = None" using x by (simp add: map_of_eq_None_iff)
  ultimately show ?case
    using p a(1) ap by (fastforce simp: update_conv' split: option.splits)
qed simp

lemma absorb_rounds_Ok:
  assumes ok: "shamir_ok C" and lin: "shamir_linear C" and t: "2 \<le> t" "t \<le> 255" and n: "0 < n"
    and xs: "xs \<noteq> []" "distinct xs" "0 \<notin> set xs"
    and acc: "zero_table C t n xs (map_of acc)"
  shows "\<exists>acc'. absorb_rounds C t n xs k acc s = (Ok acc', s\<lparr>draws := draws s + k\<rparr>)
           \<and> zero_table C t n xs (map_of acc')"
  using acc
proof (induction k arbitrary: acc s)
  case (Suc k)
  have t1: "1 \<le> t" using t by simp
  obtain ds where ds: "generate_zero_deltas C t n xs s = (Ok ds, s\<lparr>draws := Suc (draws s)\<rparr>)"
      "distinct (map fst ds)" "zero_table C t n xs (map_of ds)"
    using generate_zero_deltas_Ok [OF ok t n xs] by blast
  have "\<exists>acc'. absorb ds acc = Ok acc' \<and>
           map_of acc' = (\<lambda>x. case map_of ds x of None \<Rightarrow> map_of acc x
                              | Some d \<Rightarrow> Some (xor_share (the (map_of acc x)) d))"
  proof (rule absorb_Ok [OF n ds(2)])
    fix x d assume "(x, d) \<in> set ds"
    then have d: "map_of ds x = Some d" using ds(2) by simp
    then have x: "x \<in> set xs" using ds(3) unfolding zero_table_def by blast
    show "share_shape n d \<and> share_x d = x
           \<and> (\<exists>a. map_of acc x = Some a \<and> share_shape n a \<and> share_x a = x)"
      using zero_table_share [OF ds(3) x] zero_table_share [OF Suc.prems x] d by auto
  qed
  then obtain a where a: "absorb ds acc = Ok a" "zero_table C t n xs (map_of a)"
    using zero_table_xor [OF lin t1 n Suc.prems ds(3)] by auto
  from Suc.IH [OF a(2), of "s\<lparr>draws := Suc (draws s)\<rparr>"] show ?case
    using ds(1) a(1) by simp
qed simp

section \<open>Refreshing\<close>

lemma zero_start:
  assumes ok: "shamir_ok C" and lin: "shamir_linear C" and t: "2 \<le> t" "t \<le> 255" and n: "0 < n"
    and xs: "xs \<noteq> []" "distinct xs" "0 \<notin> set xs"
  shows "zero_table C t n xs (\<lambda>x. if x \<in> set xs then Some (x # replicate n 0) else None)"
proof -
  have t1: "1 \<le> t" using t by simp
  obtain ds where ds: "zero_table C t n xs (map_of ds)"
    using generate_zero_deltas_Ok [OF ok t n xs] by blast
  have "(\<lambda>x. case map_of ds x of None \<Rightarrow> map_of ds x | Some d \<Rightarrow> Some (xor_share (the (map_of ds x)) d))
      = (\<lambda>x. if x \<in> set xs then Some (x # replicate n 0) else None)"
  proof
    fix x
    show "(case map_of ds x of None \<Rightarrow> map_of ds x | Some d \<Rightarrow> Some (xor_share (the (map_of ds x)) d))
        = (if x \<in> set xs then Some (x # replicate n 0) else None)"
    proof (cases "x \<in> set xs")
      case True
      from zero_table_share [OF ds this] obtain b where
        b: "map_of ds x = Some b" "length b = Suc n" "share_x b = x"
        by (auto simp: share_shape_def)
      then show ?thesis using True
        by (cases b) (auto simp: xor_share_def share_x_def share_y_def xor_bytes_self)
    next
      case False
      then have "map_of ds x = None" using ds by (auto simp: zero_table_def dom_def)
      then show ?thesis using False by simp
    qed
  qed
  with zero_table_xor [OF lin t1 n ds ds] show ?thesis by simp
qed

lemma map_of_zero_init:
  "map_of (foldl (\<lambda>m x. AList.update x (x # z) m) m xs) =
     (\<lambda>x. if x \<in> set xs then Some (x # z) else map_of m x)"
  by (induction xs arbitrary: m) (auto simp: update_conv')

text \<open>What a mutual refresh may be run on.\<close>

definition refreshable :: "nat \<Rightarrow> bytes list \<Rightarrow> bool" where
  "refreshable t shares \<longleftrightarrow> 2 \<le> t \<and> t \<le> length shares
     \<and> (\<exists>n > 0. \<forall>b \<in> set shares. share_shape n b)
     \<and> distinct (map share_x shares) \<and> 0 \<notin> set (map share_x shares)"

lemma refresh_among_run:
  assumes ok: "shamir_ok C" and lin: "shamir_linear C" and t: "t \<le> 255" and r: "refreshable t shares"
  shows "\<exists>m n. refresh_among C shares t s =
             (Ok (map (\<lambda>b. xor_share b (the (m (share_x b)))) shares), s\<lparr>draws := draws s + length shares\<rparr>)
           \<and> zero_table C t n (map share_x shares) m \<and> 0 < n \<and> (\<forall>b \<in> set shares. share_shape n b)"
proof -
  from r obtain n where n: "0 < n" "\<forall>b \<in> set shares. share_shape n b"
    and t2: "2 \<le> t" "t \<le> length shares"
    and d: "distinct (map share_x shares)" "0 \<notin> set (map share_x shares)"
    by (auto simp: refreshable_def)
  have ne: "shares \<noteq> []" using t2 by auto
  have xs: "map (\<lambda>b. b ! 0) shares = map share_x shares"
    using n(2) share_x_nth by (intro map_cong) blast+
  let ?xs = "map share_x shares"
  have len: "length (hd shares) - 1 = n" using n(2) ne by (simp add: share_shape_def)
  have all: "list_all (\<lambda>b. length b = n + 1) shares" using n(2) by (simp add: list_all_iff share_shape_def)
  let ?init = "foldl (\<lambda>m x. AList.update x (x # replicate n 0) m) [] ?xs"
  have "zero_table C t n ?xs (map_of ?init)"
    unfolding map_of_zero_init map_of.simps using zero_start [OF ok lin t2(1) t n(1) _ d] ne by simp
  from absorb_rounds_Ok [OF ok lin t2(1) t n(1) _ d this] ne obtain acc where
    acc: "absorb_rounds C t n ?xs (length shares) ?init s = (Ok acc, s\<lparr>draws := draws s + length shares\<rparr>)"
      "zero_table C t n ?xs (map_of acc)" by blast
  have "try_all (\<lambda>b. and_then (ok_or ShareShapeMismatch (map_of acc (b ! 0))) (apply_deltas b)) shares
      = Ok (map (\<lambda>b. xor_share b (the (map_of acc (share_x b)))) shares)"
  proof (rule try_all_Ok)
    fix b assume b: "b \<in> set shares"
    then have "share_x b \<in> set ?xs" by simp
    from zero_table_share [OF acc(2) this] obtain a where
      "map_of acc (share_x b) = Some a" "share_shape n a" "share_x a = share_x b" by blast
    then show "and_then (ok_or ShareShapeMismatch (map_of acc (b ! 0))) (apply_deltas b)
        = Ok (xor_share b (the (map_of acc (share_x b))))"
      using b n share_x_nth [of n b] add_shares_xor [of n b a] by (simp add: apply_deltas_def)
  qed
  then have "refresh_among C shares t s =
      (Ok (map (\<lambda>b. xor_share b (the (map_of acc (share_x b)))) shares), s\<lparr>draws := draws s + length shares\<rparr>)"
    using ne t2 len all n(1) d acc(1)
    by (simp add: refresh_among_def Let_def xs require_distinct_nonzero_cases op_simps)
  then show ?thesis using acc(2) n by blast
qed

lemma refresh_among_kept:
  assumes "shamir_ok C" "shamir_linear C" "t \<le> 255" "refreshable t shares"
  shows "\<exists>new. refresh_among C shares t s = (Ok new, s\<lparr>draws := draws s + length shares\<rparr>)
           \<and> map share_x new = map share_x shares \<and> map length new = map length shares
           \<and> (\<forall>js v. distinct js \<and> set js \<subseteq> {..<length shares} \<and> t \<le> length js
                \<and> shamir_recover C t (map (\<lambda>j. shares ! j) js) = Some v
                \<longrightarrow> shamir_recover C t (map (\<lambda>j. new ! j) js) = Some v)"
proof -
  from refresh_among_run [OF assms, of s] obtain m n where
    run: "refresh_among C shares t s = (Ok (map (\<lambda>b. xor_share b (the (m (share_x b)))) shares),
            s\<lparr>draws := draws s + length shares\<rparr>)"
    and m: "zero_table C t n (map share_x shares) m" and n: "0 < n"
    and sh: "\<forall>b \<in> set shares. share_shape n b" by blast
  let ?f = "\<lambda>b. xor_share b (the (m (share_x b)))"
  have shape: "share_shape n (?f b)" if "b \<in> set shares" for b
    using that sh zero_table_share [OF m, of "share_x b"] by (auto intro: share_shape_xor)
  have "map share_x (map ?f shares) = map share_x shares" by simp
  moreover have "map length (map ?f shares) = map length shares"
    using shape sh by (simp add: share_shape_def)
  moreover have "shamir_recover C t (map (\<lambda>j. map ?f shares ! j) js) = Some v"
    if js: "distinct js" "set js \<subseteq> {..<length shares}" "t \<le> length js"
      and rec: "shamir_recover C t (map (\<lambda>j. shares ! j) js) = Some v" for js v
  proof -
    let ?shs = "map (\<lambda>j. shares ! j) js"
    have sub: "set ?shs \<subseteq> set shares" using js(2) by auto
    have d: "distinct (map share_x shares)" using assms(4) by (simp add: refreshable_def)
    have "inj_on (\<lambda>j. share_x (shares ! j)) {..<length shares}"
      using d unfolding distinct_conv_nth by (intro inj_onI) (metis length_map lessThan_iff nth_map)
    then have "distinct (map share_x ?shs)"
      using js by (simp add: distinct_map inj_on_subset o_def)
    moreover have "set (map share_x ?shs) \<subseteq> set (map share_x shares)" using sub by auto
    moreover have "\<forall>b \<in> set ?shs. share_shape n b" using sub sh by blast
    moreover have "1 \<le> t" using assms(4) by (simp add: refreshable_def)
    ultimately have "shamir_recover C t (map ?f ?shs) = Some v"
      using recover_absorbs_zero [OF assms(2) _ n m _ _ _ _ rec] js(3) by simp
    moreover have "map ?f ?shs = map (\<lambda>j. map ?f shares ! j) js"
      unfolding map_map by (rule map_cong) (use js(2) in auto)
    ultimately show ?thesis by (simp only:)
  qed
  ultimately show ?thesis using run by blast
qed

text \<open>
  C3: \<open>refresh_among\<close> succeeds on shares that may be refreshed, keeps every \<open>x\<close> coordinate
  and length, and whatever \<open>t\<close> or more of the old shares recover to, the refreshed ones at the
  same places recover to the same value.
\<close>
theorem refresh_keeps_secret:
  assumes "shamir_ok C" "shamir_linear C" "t \<le> 255" "refreshable t shares"
  shows "\<exists>new. refresh_among C shares t s = (Ok new, s\<lparr>draws := draws s + length shares\<rparr>)
           \<and> map share_x new = map share_x shares \<and> map length new = map length shares
           \<and> (\<forall>js v. distinct js \<and> set js \<subseteq> {..<length shares} \<and> t \<le> length js
                \<and> shamir_recover C t (map (\<lambda>j. shares ! j) js) = Some v
                \<longrightarrow> shamir_recover C t (map (\<lambda>j. new ! j) js) = Some v)"
  by (rule refresh_among_kept [OF assms])

theorem refresh_keeps_secret_witness:
  "\<exists>new. refresh_among toy [[1, 7, 9], [2, 7, 9], [4, 7, 9]] 2 empty_store
           = (Ok new, empty_store\<lparr>draws := 3\<rparr>)
         \<and> shamir_recover toy 2 [new ! 0, new ! 2] = Some [7, 9]"
proof -
  have r: "refreshable 2 [[1, 7, 9], [2, 7, 9], [4, 7, 9 :: u8]]"
    by (auto simp: refreshable_def share_shape_def share_x_def)
  have "shamir_recover toy 2 (map (\<lambda>j. [[1, 7, 9], [2, 7, 9], [4, 7, 9]] ! j) [0, 2]) = Some [7, 9]"
    by (simp add: toy_recover_def share_x_def share_y_def)
  moreover obtain new where new:
    "refresh_among toy [[1, 7, 9], [2, 7, 9], [4, 7, 9]] 2 empty_store
       = (Ok new, empty_store\<lparr>draws := draws empty_store + length [[1, 7, 9], [2, 7, 9], [4, 7, 9 :: u8]]\<rparr>)"
    "\<And>js v. distinct js \<Longrightarrow> set js \<subseteq> {..<length [[1, 7, 9], [2, 7, 9], [4, 7, 9 :: u8]]} \<Longrightarrow> 2 \<le> length js
       \<Longrightarrow> shamir_recover toy 2 (map (\<lambda>j. [[1, 7, 9], [2, 7, 9], [4, 7, 9]] ! j) js) = Some v
       \<Longrightarrow> shamir_recover toy 2 (map (\<lambda>j. new ! j) js) = Some v"
    using refresh_keeps_secret [OF toy_shamir_ok toy_linear _ r, of empty_store] by auto
  ultimately have "shamir_recover toy 2 (map (\<lambda>j. new ! j) [0, 2]) = Some [7, 9]"
    by (intro new(2)) simp_all
  then show ?thesis using new(1) by (intro exI [of _ new]) (simp add: empty_store_def)
qed

lemma refresh_among_rejected:
  assumes "\<not> refreshable t shares"
  shows "refresh_among C shares t s = (Err ShareShapeMismatch, s)"
proof (cases "shares = [] \<or> length shares < t \<or> length (hd shares) - 1 = 0
    \<or> \<not> list_all (\<lambda>b. length b = length (hd shares) - 1 + 1) shares")
  case True
  then show ?thesis by (elim disjE) (simp_all add: refresh_among_def Let_def)
next
  case False
  let ?n = "length (hd shares) - 1"
  have n: "0 < ?n" using False by linarith
  have "list_all (\<lambda>b. length b = ?n + 1) shares" using False by blast
  then have sh: "\<forall>b \<in> set shares. share_shape ?n b"
    unfolding list_all_iff share_shape_def Suc_eq_plus1 .
  have xs: "map (\<lambda>b. b ! 0) shares = map share_x shares"
    using sh share_x_nth by (intro map_cong) blast+
  have "\<not> (distinct (map share_x shares) \<and> 0 \<notin> set (map share_x shares)) \<or> t < 2"
    using assms False n sh unfolding refreshable_def by (meson not_le)
  then show ?thesis using False
    by (auto simp: refresh_among_def Let_def xs require_distinct_nonzero_cases op_simps)
qed

text \<open>
  \<open>refresh_among\<close> refuses every other input with \<open>ShareShapeMismatch\<close> before it draws
  any randomness: fewer shares than the threshold, a threshold below 2, an empty secret,
  unequal lengths, and a zero or repeated coordinate.
\<close>
theorem refresh_rejects:
  assumes "\<not> refreshable t shares"
  shows "refresh_among C shares t s = (Err ShareShapeMismatch, s)"
  by (rule refresh_among_rejected [OF assms])

theorem refresh_rejects_witness:
  "refresh_among toy [[1, 7], [1, 9]] 2 empty_store = (Err ShareShapeMismatch, empty_store)"
  by (rule refresh_rejects) (simp add: refreshable_def share_x_def)

end
