(* ===== verification/TreeArena.thy ===== *)
theory TreeArena
  imports Store
begin

text \<open>
  The in-memory arena of \<open>src/key_tree.rs\<close>: \<open>KeyQuorumTree::load\<close>, the index lookups, the
  lowest common ancestor and the reconstruction of a secret from leaf shares. An arena is
  what \<open>load\<close> builds, so indices held by nodes are in range. The walks follow links the
  database does not force to be acyclic; they take fuel and give \<open>None\<close> when it runs out,
  which stands for not returning. \<open>arena_ok\<close> says when they do return.
\<close>

section \<open>The arena\<close>

record key_node =
  kn_db :: int
  kn_label :: string
  kn_parent :: "nat option"
  kn_children :: "nat list"
  kn_threshold :: "nat option"
  kn_active :: bool
  kn_hw :: "int option"
  kn_bridges :: "string set"

record key_tree =
  kt_nodes :: "key_node list"
  kt_root :: nat
  kt_by_label :: "string \<rightharpoonup> nat"
  kt_by_db :: "int \<rightharpoonup> nat"

subsection \<open>Loading\<close>

definition node_of_row :: "node_row \<Rightarrow> key_node" where
  "node_of_row r = \<lparr> kn_db = n_id r, kn_label = n_label r, kn_parent = None, kn_children = [],
     kn_threshold = map_option i64_as_usize (n_threshold r), kn_active = n_active r,
     kn_hw = n_hw r, kn_bridges = {} \<rparr>"

fun load_nodes ::
  "nat \<Rightarrow> node_row list \<Rightarrow> (string \<rightharpoonup> nat) \<Rightarrow> (int \<rightharpoonup> nat) \<Rightarrow> key_node list
    \<Rightarrow> ((string \<rightharpoonup> nat) \<times> (int \<rightharpoonup> nat) \<times> key_node list) result" where
  "load_nodes i [] labels dbs nodes = Ok (labels, dbs, nodes)"
| "load_nodes i (r # rs) labels dbs nodes =
     (if labels (n_label r) \<noteq> None then Err DuplicateNodeLabel
      else load_nodes (Suc i) rs (labels(n_label r \<mapsto> i)) (dbs(n_id r \<mapsto> i)) (nodes @ [node_of_row r]))"

fun link_parents :: "nat \<Rightarrow> node_row list \<Rightarrow> (int \<rightharpoonup> nat) \<Rightarrow> key_node list \<Rightarrow> key_node list result" where
  "link_parents i [] dbs nodes = Ok nodes"
| "link_parents i (r # rs) dbs nodes =
     (case n_parent r of
        None \<Rightarrow> link_parents (Suc i) rs dbs nodes
      | Some q \<Rightarrow> and_then (ok_or NodeNotFound (dbs q)) (\<lambda>p.
          let nodes1 = nodes[i := (nodes ! i)\<lparr>kn_parent := Some p\<rparr>];
              nodes2 = nodes1[p := (nodes1 ! p)\<lparr>kn_children := kn_children (nodes1 ! p) @ [i]\<rparr>]
          in link_parents (Suc i) rs dbs nodes2))"

fun attach_bridges :: "(int \<times> string) list \<Rightarrow> (int \<rightharpoonup> nat) \<Rightarrow> key_node list \<Rightarrow> key_node list result" where
  "attach_bridges [] dbs nodes = Ok nodes"
| "attach_bridges ((d, peer) # bs) dbs nodes =
     and_then (ok_or NodeNotFound (dbs d)) (\<lambda>i.
       attach_bridges bs dbs
         (nodes[i := (nodes ! i)\<lparr>kn_bridges := insert peer (kn_bridges (nodes ! i))\<rparr>]))"

definition key_node_rows :: "store \<Rightarrow> int \<Rightarrow> node_row list" where
  "key_node_rows s key = filter (\<lambda>r. n_key r = key) (node_rows s)"

definition key_bridge_rows :: "store \<Rightarrow> int \<Rightarrow> (int \<times> string) list" where
  "key_bridge_rows s key =
     filter (\<lambda>(d, _). \<exists>r \<in> set (node_rows s). n_id r = d \<and> n_key r = key) (bridge_rows s)"

definition load :: "store \<Rightarrow> int \<Rightarrow> key_tree result" where
  "load s key =
     (let rows = key_node_rows s key in
      if rows = [] then Err NodeNotFound
      else and_then (load_nodes 0 rows (\<lambda>_. None) (\<lambda>_. None) []) (\<lambda>(labels, dbs, nodes).
        and_then (link_parents 0 rows dbs nodes) (\<lambda>nodes'.
        and_then (attach_bridges (key_bridge_rows s key) dbs nodes') (\<lambda>nodes''.
        and_then (ok_or NodeNotFound
                   (find (\<lambda>i. kn_parent (nodes'' ! i) = None) [0..<length nodes''])) (\<lambda>root.
        Ok \<lparr> kt_nodes = nodes'', kt_root = root, kt_by_label = labels, kt_by_db = dbs \<rparr>)))))"

definition index_by_label :: "key_tree \<Rightarrow> string \<Rightarrow> nat result" where
  "index_by_label T l = ok_or NodeNotFound (kt_by_label T l)"

definition index_by_db_id :: "key_tree \<Rightarrow> int \<Rightarrow> nat result" where
  "index_by_db_id T d = ok_or NodeNotFound (kt_by_db T d)"

subsection \<open>Ancestors\<close>

fun path_to_root :: "key_node list \<Rightarrow> nat \<Rightarrow> nat \<Rightarrow> nat list option" where
  "path_to_root ns 0 i = None"
| "path_to_root ns (Suc f) i =
     (case kn_parent (ns ! i) of None \<Rightarrow> Some [i] | Some p \<Rightarrow> map_option (Cons i) (path_to_root ns f p))"

fun lca_scan :: "nat \<Rightarrow> nat list \<Rightarrow> nat list \<Rightarrow> nat" where
  "lca_scan l (a # as) (b # bs) = (if a = b then lca_scan a as bs else l)"
| "lca_scan l as bs = l"

definition find_lowest_common_ancestor :: "key_tree \<Rightarrow> nat \<Rightarrow> nat \<Rightarrow> nat result option" where
  "find_lowest_common_ancestor T a b =
     (let ns = kt_nodes T; f = Suc (length ns) in
      if a \<ge> length ns \<or> b \<ge> length ns then Some (Err NodeNotFound)
      else case (path_to_root ns f a, path_to_root ns f b) of
             (Some pa, Some pb) \<Rightarrow> Some (Ok (lca_scan (kt_root T) (rev pa) (rev pb)))
           | _ \<Rightarrow> None)"

fun lca_fold :: "key_tree \<Rightarrow> nat \<Rightarrow> nat list \<Rightarrow> nat result option" where
  "lca_fold T acc [] = Some (Ok acc)"
| "lca_fold T acc (i # is) =
     (case find_lowest_common_ancestor T acc i of
        None \<Rightarrow> None | Some (Err e) \<Rightarrow> Some (Err e) | Some (Ok l) \<Rightarrow> lca_fold T l is)"

definition find_lowest_common_ancestor_of :: "key_tree \<Rightarrow> nat list \<Rightarrow> nat result option" where
  "find_lowest_common_ancestor_of T is =
     (case is of [] \<Rightarrow> Some (Err NodeNotFound) | i # rest \<Rightarrow> lca_fold T i rest)"

subsection \<open>Reconstruction\<close>

text \<open>
  The loop over the children of a split: stop once \<open>t\<close> shares are there, skip inactive
  children and those that do not resolve or whose value is no share.
\<close>

fun gather_shares ::
  "crates \<Rightarrow> nat \<Rightarrow> (nat \<Rightarrow> bool) \<Rightarrow> (nat \<Rightarrow> bytes result option) \<Rightarrow> nat list \<Rightarrow> bytes list
    \<Rightarrow> bytes list option" where
  "gather_shares C t use rec [] acc = Some acc"
| "gather_shares C t use rec (c # cs) acc =
     (if length acc \<ge> t then Some acc
      else if \<not> use c then gather_shares C t use rec cs acc
      else case rec c of
             None \<Rightarrow> None
           | Some (Err _) \<Rightarrow> gather_shares C t use rec cs acc
           | Some (Ok v) \<Rightarrow> gather_shares C t use rec cs (if share_try_from C v then acc @ [v] else acc))"

definition combine :: "crates \<Rightarrow> nat \<Rightarrow> bytes list \<Rightarrow> bytes result" where
  "combine C t shs =
     (if length shs < t then Err QuorumNotMet
      else ok_or QuorumNotMet (shamir_recover C (usize_as_u8 t) shs))"

fun reconstruct_node :: "crates \<Rightarrow> key_tree \<Rightarrow> (int \<rightharpoonup> bytes) \<Rightarrow> nat \<Rightarrow> nat \<Rightarrow> bytes result option" where
  "reconstruct_node C T raw 0 i = None"
| "reconstruct_node C T raw (Suc f) i =
     (if i \<ge> length (kt_nodes T) then Some (Err NodeNotFound)
      else let n = kt_nodes T ! i in
        if \<not> kn_active n then Some (Err QuorumNotMet)
        else if kn_hw n \<noteq> None then Some (ok_or QuorumNotMet (raw (kn_db n)))
        else case kn_threshold n of
               None \<Rightarrow> Some (Err QuorumNotMet)
             | Some t \<Rightarrow>
                 map_option (combine C t)
                   (gather_shares C t (\<lambda>c. kn_active (kt_nodes T ! c))
                      (\<lambda>c. reconstruct_node C T raw f c) (kn_children n) []))"

definition tree_fuel :: "key_tree \<Rightarrow> nat" where
  "tree_fuel T = Suc (length (kt_nodes T))"

definition reconstruct_from :: "crates \<Rightarrow> key_tree \<Rightarrow> nat \<Rightarrow> (int \<rightharpoonup> bytes) \<Rightarrow> bytes result option" where
  "reconstruct_from C T i raw = reconstruct_node C T raw (tree_fuel T) i"

definition tree_reconstruct :: "crates \<Rightarrow> key_tree \<Rightarrow> (int \<rightharpoonup> bytes) \<Rightarrow> bytes result option" where
  "tree_reconstruct C T raw = reconstruct_from C T (kt_root T) raw"

text \<open>The climb of \<open>reconstruct_up_to_root\<close>: \<open>value\<close> is that of the node \<open>i\<close>.\<close>

fun climb :: "crates \<Rightarrow> key_tree \<Rightarrow> (int \<rightharpoonup> bytes) \<Rightarrow> nat \<Rightarrow> nat \<Rightarrow> bytes \<Rightarrow> bytes result option" where
  "climb C T raw 0 i v = None"
| "climb C T raw (Suc f) i v =
     (case kn_parent (kt_nodes T ! i) of
        None \<Rightarrow> Some (Ok v)
      | Some p \<Rightarrow>
          (case kn_threshold (kt_nodes T ! p) of
             None \<Rightarrow> Some (Err QuorumNotMet)
           | Some t \<Rightarrow>
               (case gather_shares C t (\<lambda>c. c \<noteq> i \<and> kn_active (kt_nodes T ! c))
                       (\<lambda>c. reconstruct_from C T c raw) (kn_children (kt_nodes T ! p))
                       (if share_try_from C v then [v] else []) of
                  None \<Rightarrow> None
                | Some shs \<Rightarrow>
                    (case combine C t shs of
                       Err e \<Rightarrow> Some (Err e)
                     | Ok v' \<Rightarrow> climb C T raw f p v'))))"

definition reconstruct_up_to_root :: "crates \<Rightarrow> key_tree \<Rightarrow> nat \<Rightarrow> (int \<rightharpoonup> bytes) \<Rightarrow> bytes result option" where
  "reconstruct_up_to_root C T i raw =
     (case reconstruct_from C T i raw of
        None \<Rightarrow> None | Some (Err e) \<Rightarrow> Some (Err e)
      | Some (Ok v) \<Rightarrow> climb C T raw (tree_fuel T) i v)"

definition reconstruct :: "crates \<Rightarrow> store \<Rightarrow> int \<Rightarrow> (int \<rightharpoonup> bytes) \<Rightarrow> bytes result option" where
  "reconstruct C s key raw =
     (case load s key of Err e \<Rightarrow> Some (Err e) | Ok T \<Rightarrow> tree_reconstruct C T raw)"

definition reconstruct_from_lca ::
  "crates \<Rightarrow> store \<Rightarrow> int \<Rightarrow> nat \<Rightarrow> (int \<rightharpoonup> bytes) \<Rightarrow> bytes result option" where
  "reconstruct_from_lca C s key i raw =
     (case load s key of Err e \<Rightarrow> Some (Err e) | Ok T \<Rightarrow> reconstruct_up_to_root C T i raw)"

end
