(* ===== verification/TreeFacts.thy ===== *)
theory TreeFacts
  imports TreeArena "HOL-Library.Sublist"
begin

text \<open>
  What holds of the walks of \<open>TreeArena\<close> on a well-formed arena: they return, the lowest
  common ancestor is one, and reconstruction gives a node's value exactly when the leaves
  presented below it meet the thresholds.
\<close>

section \<open>Well-formed arenas\<close>

text \<open>
  A parent function that descends in some rank below the number of nodes, hence has no
  cycle, and children lists that are its inverse.
\<close>

definition ranked :: "key_tree \<Rightarrow> (nat \<Rightarrow> nat) \<Rightarrow> bool" where
  "ranked T rank \<longleftrightarrow>
     (\<forall>i < length (kt_nodes T). rank i < length (kt_nodes T)
        \<and> (\<forall>p. kn_parent (kt_nodes T ! i) = Some p \<longrightarrow> p < length (kt_nodes T) \<and> rank p < rank i))"

definition arena_ok :: "key_tree \<Rightarrow> bool" where
  "arena_ok T \<longleftrightarrow> (\<exists>rank. ranked T rank)
     \<and> (\<forall>i < length (kt_nodes T). distinct (kn_children (kt_nodes T ! i))
          \<and> (\<forall>j. j \<in> set (kn_children (kt_nodes T ! i))
                \<longleftrightarrow> j < length (kt_nodes T) \<and> kn_parent (kt_nodes T ! j) = Some i))"

definition single_root :: "key_tree \<Rightarrow> bool" where
  "single_root T \<longleftrightarrow> kt_root T < length (kt_nodes T)
     \<and> (\<forall>i < length (kt_nodes T). kn_parent (kt_nodes T ! i) = None \<longleftrightarrow> i = kt_root T)"

inductive ancestor :: "key_tree \<Rightarrow> nat \<Rightarrow> nat \<Rightarrow> bool" for T where
  ancestor_refl: "ancestor T i i"
| ancestor_step: "kn_parent (kt_nodes T ! i) = Some p \<Longrightarrow> ancestor T c p \<Longrightarrow> ancestor T c i"

inductive_cases ancestorE: "ancestor T c i"

lemma ancestor_unfold:
  "ancestor T c i \<longleftrightarrow>
     c = i \<or> (case kn_parent (kt_nodes T ! i) of None \<Rightarrow> False | Some p \<Rightarrow> ancestor T c p)"
  by (auto elim: ancestorE intro: ancestor.intros split: option.splits)

lemma child_rank:
  assumes "ranked T rank" "arena_ok T" "i < length (kt_nodes T)" "c \<in> set (kn_children (kt_nodes T ! i))"
  shows "c < length (kt_nodes T)" "rank i < rank c"
  using assms unfolding arena_ok_def ranked_def by blast+

section \<open>Paths\<close>

definition path :: "key_tree \<Rightarrow> nat \<Rightarrow> nat list" where
  "path T i = the (path_to_root (kt_nodes T) (tree_fuel T) i)"

lemma path_to_root_mono:
  "path_to_root ns f i = Some p \<Longrightarrow> f \<le> g \<Longrightarrow> path_to_root ns g i = Some p"
proof (induction f arbitrary: g i p)
  case (Suc f)
  then obtain h where g: "g = Suc h" "f \<le> h" by (cases g) auto
  show ?case
    using Suc.prems(1) Suc.IH [OF _ g(2)] g(1) by (auto split: option.splits)
qed simp

lemma path_to_root_returns:
  assumes "ranked T rank"
  shows "i < length (kt_nodes T) \<Longrightarrow> rank i < f \<Longrightarrow> path_to_root (kt_nodes T) f i \<noteq> None"
proof (induction f arbitrary: i)
  case (Suc f)
  show ?case
  proof (cases "kn_parent (kt_nodes T ! i)")
    case (Some p)
    then have "p < length (kt_nodes T)" "rank p < f"
      using assms Suc.prems unfolding ranked_def by fastforce+
    then show ?thesis using Suc.IH Some by auto
  qed simp
qed simp

lemma path_eqs:
  assumes "arena_ok T" "i < length (kt_nodes T)"
  shows "path_to_root (kt_nodes T) (tree_fuel T) i = Some (path T i)"
    and "path T i = (case kn_parent (kt_nodes T ! i) of None \<Rightarrow> [i] | Some p \<Rightarrow> i # path T p)"
proof -
  let ?n = "length (kt_nodes T)"
  obtain rank where r: "ranked T rank" using assms(1) unfolding arena_ok_def by blast
  have some: "path_to_root (kt_nodes T) (tree_fuel T) j = Some (path T j)" if "j < ?n" for j
  proof -
    have "rank j < tree_fuel T" using r that unfolding ranked_def tree_fuel_def by fastforce
    from path_to_root_returns [OF r that this] show ?thesis by (auto simp: path_def)
  qed
  show "path_to_root (kt_nodes T) (tree_fuel T) i = Some (path T i)" by (rule some [OF assms(2)])
  show "path T i = (case kn_parent (kt_nodes T ! i) of None \<Rightarrow> [i] | Some p \<Rightarrow> i # path T p)"
  proof (cases "kn_parent (kt_nodes T ! i)")
    case None
    then show ?thesis by (simp add: path_def tree_fuel_def)
  next
    case (Some p)
    then have p: "p < ?n" "rank p < ?n"
      using r assms(2) unfolding ranked_def by (blast, fastforce)
    from path_to_root_returns [OF r p] obtain q where q: "path_to_root (kt_nodes T) ?n p = Some q" by blast
    then have "path_to_root (kt_nodes T) (tree_fuel T) p = Some q"
      using path_to_root_mono unfolding tree_fuel_def by (metis le_add2 plus_1_eq_Suc)
    then have "path T p = q" by (simp add: path_def)
    moreover have "path T i = i # q" using Some q by (simp add: path_def tree_fuel_def)
    ultimately show ?thesis using Some by simp
  qed
qed

lemma path_ne: "arena_ok T \<Longrightarrow> i < length (kt_nodes T) \<Longrightarrow> \<exists>q. path T i = i # q"
  using path_eqs(2) by (auto split: option.splits)

lemma parent_range:
  "arena_ok T \<Longrightarrow> i < length (kt_nodes T) \<Longrightarrow> kn_parent (kt_nodes T ! i) = Some p \<Longrightarrow> p < length (kt_nodes T)"
  unfolding arena_ok_def ranked_def by blast

lemma ancestor_range:
  assumes "ancestor T c i" "arena_ok T" "i < length (kt_nodes T)"
  shows "c < length (kt_nodes T)"
  using assms by induction (auto dest: parent_range)

lemma ancestor_iff_suffix:
  assumes ok: "arena_ok T" and c: "c < length (kt_nodes T)"
  shows "i < length (kt_nodes T) \<Longrightarrow> ancestor T c i \<longleftrightarrow> suffix (path T c) (path T i)"
proof -
  have if_anc: "suffix (path T c) (path T i)" if "ancestor T c i" "i < length (kt_nodes T)" for i
    using that
  proof induction
    case (ancestor_step i p c)
    then have "suffix (path T c) (path T p)" using parent_range [OF ok] by blast
    then show ?case
      using path_eqs(2) [OF ok ancestor_step.prems] ancestor_step.hyps(1) by (simp add: suffix_ConsI)
  qed simp
  have only: "ancestor T c i" if "suffix (path T c) (path T i)" "i < length (kt_nodes T)" for i
  proof -
    obtain rank where r: "ranked T rank" using ok unfolding arena_ok_def by blast
    show ?thesis using that
    proof (induction "rank i" arbitrary: i rule: less_induct)
      case less
      obtain q where q: "path T c = c # q" using path_ne [OF ok c] by blast
      show ?case
      proof (cases "kn_parent (kt_nodes T ! i)")
        case None
        then have "path T i = [i]" using path_eqs(2) [OF ok less.prems(2)] by simp
        then show ?thesis using less.prems(1) q by (auto simp: suffix_Cons intro: ancestor_refl)
      next
        case (Some p)
        then have pth: "path T i = i # path T p" using path_eqs(2) [OF ok less.prems(2)] by simp
        have p: "p < length (kt_nodes T)" "rank p < rank i"
          using Some r less.prems(2) unfolding ranked_def by blast+
        from less.prems(1) pth q consider (here) "c = i" | (up) "suffix (path T c) (path T p)"
          by (auto simp: suffix_Cons)
        then show ?thesis
        proof cases
          case up
          from less.hyps [OF p(2) this p(1)] Some show ?thesis by (rule ancestor_step [rotated])
        qed (simp add: ancestor_refl)
      qed
    qed
  qed
  show "i < length (kt_nodes T) \<Longrightarrow> ancestor T c i \<longleftrightarrow> suffix (path T c) (path T i)"
    using if_anc only by blast
qed

lemma path_suffix_is_path:
  assumes ok: "arena_ok T"
  shows "i < length (kt_nodes T) \<Longrightarrow> path T i = xs @ c # ys \<Longrightarrow> c < length (kt_nodes T) \<and> path T c = c # ys"
proof -
  obtain rank where r: "ranked T rank" using ok unfolding arena_ok_def by blast
  show "i < length (kt_nodes T) \<Longrightarrow> path T i = xs @ c # ys \<Longrightarrow> c < length (kt_nodes T) \<and> path T c = c # ys"
  proof (induction xs arbitrary: i)
    case Nil
    obtain q where "path T i = i # q" using path_ne [OF ok Nil.prems(1)] by blast
    then show ?case using Nil by auto
  next
    case (Cons x xs)
    show ?case
    proof (cases "kn_parent (kt_nodes T ! i)")
      case None
      then show ?thesis using Cons.prems path_eqs(2) [OF ok Cons.prems(1)] by simp
    next
      case (Some p)
      then show ?thesis
        using Cons path_eqs(2) [OF ok Cons.prems(1)] parent_range [OF ok Cons.prems(1) Some] by simp
    qed
  qed
qed

lemma path_last_root:
  assumes ok: "arena_ok T" and sr: "single_root T"
  shows "i < length (kt_nodes T) \<Longrightarrow> \<exists>xs. path T i = xs @ [kt_root T]"
proof -
  obtain rank where r: "ranked T rank" using ok unfolding arena_ok_def by blast
  show "i < length (kt_nodes T) \<Longrightarrow> \<exists>xs. path T i = xs @ [kt_root T]"
  proof (induction "rank i" arbitrary: i rule: less_induct)
    case less
    show ?case
    proof (cases "kn_parent (kt_nodes T ! i)")
      case None
      then show ?thesis
        using sr less.prems path_eqs(2) [OF ok less.prems] unfolding single_root_def by auto
    next
      case (Some p)
      then have "p < length (kt_nodes T)" "rank p < rank i"
        using r less.prems unfolding ranked_def by blast+
      with less.hyps obtain xs where "path T p = xs @ [kt_root T]" by blast
      then have "path T i = (i # xs) @ [kt_root T]"
        using path_eqs(2) [OF ok less.prems] Some by simp
      then show ?thesis by blast
    qed
  qed
qed

section \<open>The lowest common ancestor\<close>

lemma lca_scan_prefix:
  "lca_scan l as bs =
     (let p = longest_common_prefix as bs in if p = [] then l else last p)"
  by (induction l as bs rule: lca_scan.induct) (auto simp: Let_def)

text \<open>The common ancestors of two nodes are those of their lowest common ancestor.\<close>

definition is_lca :: "key_tree \<Rightarrow> nat \<Rightarrow> nat set \<Rightarrow> bool" where
  "is_lca T l is \<longleftrightarrow> l < length (kt_nodes T)
     \<and> (\<forall>c < length (kt_nodes T). (\<forall>i \<in> is. ancestor T c i) \<longleftrightarrow> ancestor T c l)"

lemma lca_correct:
  assumes ok: "arena_ok T" and sr: "single_root T"
    and a: "a < length (kt_nodes T)" and b: "b < length (kt_nodes T)"
  shows "\<exists>l. find_lowest_common_ancestor T a b = Some (Ok l) \<and> is_lca T l {a, b}"
proof -
  let ?p = "longest_common_prefix (rev (path T a)) (rev (path T b))"
  let ?l = "lca_scan (kt_root T) (rev (path T a)) (rev (path T b))"
  obtain xs ys where "path T a = xs @ [kt_root T]" "path T b = ys @ [kt_root T]"
    using path_last_root [OF ok sr] a b by blast
  then have pne: "?p \<noteq> []" by simp
  then have l: "?l = last ?p" by (simp add: lca_scan_prefix Let_def)
  then have pl: "?p = butlast ?p @ [?l]" using pne by simp
  obtain za where za: "rev (path T a) = ?p @ za"
    using longest_common_prefix_prefix1 prefixE by metis
  obtain zb where zb: "rev (path T b) = ?p @ zb"
    using longest_common_prefix_prefix2 prefixE by metis
  have rp: "rev ?p = ?l # rev (butlast ?p)"
    using arg_cong [OF pl, of rev] by (simp only: rev_append rev.simps append_Nil append_Cons)
  have "path T a = rev (?p @ za)" using arg_cong [OF za, of rev] by (simp only: rev_rev_ident)
  then have ra: "path T a = rev za @ ?l # rev (butlast ?p)" by (simp only: rev_append rp)
  have lr: "?l < length (kt_nodes T)" and pathl: "path T ?l = ?l # rev (butlast ?p)"
    using path_suffix_is_path [OF ok a ra] by blast+
  have revl: "rev (path T ?l) = ?p"
    unfolding pathl rp [symmetric] by (rule rev_rev_ident)
  have "ancestor T c a \<and> ancestor T c b \<longleftrightarrow> ancestor T c ?l" if c: "c < length (kt_nodes T)" for c
  proof -
    have "ancestor T c a \<longleftrightarrow> prefix (rev (path T c)) (rev (path T a))"
         "ancestor T c b \<longleftrightarrow> prefix (rev (path T c)) (rev (path T b))"
         "ancestor T c ?l \<longleftrightarrow> prefix (rev (path T c)) ?p"
      using ancestor_iff_suffix [OF ok c] a b lr revl by (simp_all add: suffix_to_prefix)
    moreover have "prefix z ?p \<longleftrightarrow> prefix z (rev (path T a)) \<and> prefix z (rev (path T b))" for z
      using longest_common_prefix_max_prefix prefix_order.trans [OF _ longest_common_prefix_prefix1]
        prefix_order.trans [OF _ longest_common_prefix_prefix2] by blast
    ultimately show ?thesis by blast
  qed
  moreover have "find_lowest_common_ancestor T a b = Some (Ok ?l)"
    using a b path_eqs(1) [OF ok] unfolding find_lowest_common_ancestor_def tree_fuel_def
    by (simp add: Let_def)
  ultimately show ?thesis using lr by (auto simp: is_lca_def)
qed

lemma lca_fold_correct:
  assumes ok: "arena_ok T" and sr: "single_root T"
  shows "acc < length (kt_nodes T) \<Longrightarrow> \<forall>i \<in> set is. i < length (kt_nodes T) \<Longrightarrow>
     \<exists>l. lca_fold T acc is = Some (Ok l) \<and> is_lca T l (insert acc (set is))"
proof (induction "is" arbitrary: acc)
  case (Cons i "is")
  obtain l where l: "find_lowest_common_ancestor T acc i = Some (Ok l)" "is_lca T l {acc, i}"
    using lca_correct [OF ok sr] Cons.prems by fastforce
  then have "l < length (kt_nodes T)" by (simp add: is_lca_def)
  with Cons.IH [of l] Cons.prems(2) obtain m where
    m: "lca_fold T l is = Some (Ok m)" "is_lca T m (insert l (set is))" by auto
  have "is_lca T m (insert acc (set (i # is)))"
    using l(2) m(2) unfolding is_lca_def by (simp add: Ball_def) blast
  then show ?case using l(1) m(1) by auto
qed (simp add: is_lca_def)

section \<open>Reconstruction returns\<close>

lemma gather_returns:
  assumes "\<And>c. c \<in> set cs \<Longrightarrow> rec c \<noteq> None"
  shows "gather_shares C t use rec cs acc \<noteq> None"
  using assms
proof (induction cs arbitrary: acc)
  case (Cons c cs)
  then obtain r where "rec c = Some r" by (metis list.set_intros(1) not_None_eq)
  then show ?case using Cons by (cases r) auto
qed simp

lemma gather_cong:
  assumes "gather_shares C t use rec cs acc = Some shs"
    and "\<And>c r. c \<in> set cs \<Longrightarrow> rec c = Some r \<Longrightarrow> rec' c = Some r"
  shows "gather_shares C t use rec' cs acc = Some shs"
  using assms
proof (induction cs arbitrary: acc)
  case (Cons c cs)
  have IH: "gather_shares C t use rec cs a = Some shs \<Longrightarrow> gather_shares C t use rec' cs a = Some shs" for a
    using Cons.IH Cons.prems(2) by auto
  show ?case
  proof (cases "t \<le> length acc \<or> \<not> use c")
    case False
    with Cons.prems(1) obtain r where r: "rec c = Some r" by (auto split: option.splits)
    then have "rec' c = Some r" using Cons.prems(2) by simp
    then show ?thesis using False r Cons.prems(1) IH by (cases r) auto
  qed (use Cons.prems(1) IH in auto)
qed simp

lemma reconstruct_node_mono:
  "reconstruct_node C T raw f i = Some r \<Longrightarrow> f \<le> g \<Longrightarrow> reconstruct_node C T raw g i = Some r"
proof (induction f arbitrary: g i r)
  case (Suc f)
  then obtain h where g: "g = Suc h" "f \<le> h" by (cases g) auto
  show ?case
    using Suc.prems(1) gather_cong [OF _ Suc.IH [OF _ g(2)]] unfolding g(1)
    by (auto simp: Let_def split: if_splits option.splits)
qed simp

lemma reconstruct_node_returns:
  assumes r: "ranked T rank" and ok: "arena_ok T"
  shows "length (kt_nodes T) - rank i < f \<Longrightarrow> reconstruct_node C T raw f i \<noteq> None"
proof (induction f arbitrary: i)
  case (Suc f)
  show ?case
  proof (cases "i < length (kt_nodes T)")
    case True
    have "reconstruct_node C T raw f c \<noteq> None" if "c \<in> set (kn_children (kt_nodes T ! i))" for c
    proof (rule Suc.IH)
      have "c < length (kt_nodes T)" "rank i < rank c" using child_rank [OF r ok True that] by blast+
      moreover have "rank c < length (kt_nodes T)" using r calculation(1) unfolding ranked_def by blast
      ultimately show "length (kt_nodes T) - rank c < f" using Suc.prems by linarith
    qed
    from gather_returns [of _ "\<lambda>c. reconstruct_node C T raw f c", OF this]
    show ?thesis by (auto simp: Let_def split: option.splits)
  qed simp
qed simp

lemma reconstruct_from_returns: "arena_ok T \<Longrightarrow> \<exists>r. reconstruct_from C T i raw = Some r"
  using reconstruct_node_returns [of T _ i "tree_fuel T"]
  unfolding arena_ok_def reconstruct_from_def tree_fuel_def
  by (metis arena_ok_def diff_le_self le_imp_less_Suc not_None_eq)

text \<open>The fuel does not show: one unfolding of the code's recursion, at the same fuel.\<close>

lemma reconstruct_from_eq:
  assumes ok: "arena_ok T" and i: "i < length (kt_nodes T)"
  shows "reconstruct_from C T i raw =
     (let n = kt_nodes T ! i in
        if \<not> kn_active n then Some (Err QuorumNotMet)
        else if kn_hw n \<noteq> None then Some (ok_or QuorumNotMet (raw (kn_db n)))
        else case kn_threshold n of
               None \<Rightarrow> Some (Err QuorumNotMet)
             | Some t \<Rightarrow>
                 map_option (combine C t)
                   (gather_shares C t (\<lambda>c. kn_active (kt_nodes T ! c))
                      (\<lambda>c. reconstruct_from C T c raw) (kn_children n) []))"
proof -
  have mono: "gather_shares C t use (\<lambda>c. reconstruct_from C T c raw) cs acc = Some shs"
    if "gather_shares C t use (\<lambda>c. reconstruct_node C T raw (length (kt_nodes T)) c) cs acc = Some shs"
    for t "use" cs acc shs
    using that
  proof (rule gather_cong)
    fix c r assume "reconstruct_node C T raw (length (kt_nodes T)) c = Some r"
    then show "reconstruct_from C T c raw = Some r"
      unfolding reconstruct_from_def tree_fuel_def by (rule reconstruct_node_mono) simp
  qed
  obtain r where "reconstruct_from C T i raw = Some r" using reconstruct_from_returns [OF ok] by blast
  then have "reconstruct_node C T raw (Suc (length (kt_nodes T))) i = Some r"
    by (simp add: reconstruct_from_def tree_fuel_def)
  then show ?thesis
    using i mono unfolding reconstruct_from_def [of C T i] tree_fuel_def
    by (auto simp: Let_def split: if_splits option.splits)
qed

section \<open>Arenas with consistent shares\<close>

text \<open>
  \<open>val\<close> gives each node the value it stands for. At a split, any \<open>t\<close> or more distinct active
  children have values that recover to the split's own. \<open>met\<close> says which nodes the leaves
  in \<open>P\<close> can resolve: it mentions no share.
\<close>

definition consistent :: "crates \<Rightarrow> key_tree \<Rightarrow> (nat \<Rightarrow> bytes) \<Rightarrow> bool" where
  "consistent C T val \<longleftrightarrow>
     (\<forall>i < length (kt_nodes T). kn_active (kt_nodes T ! i) \<and> kn_hw (kt_nodes T ! i) = None \<longrightarrow>
        (\<exists>t. kn_threshold (kt_nodes T ! i) = Some t \<and> 0 < t
           \<and> (\<forall>c \<in> set (kn_children (kt_nodes T ! i)). kn_active (kt_nodes T ! c) \<longrightarrow> share_try_from C (val c))
           \<and> (\<forall>cs. distinct cs \<and> t \<le> length cs
                \<and> set cs \<subseteq> {c \<in> set (kn_children (kt_nodes T ! i)). kn_active (kt_nodes T ! c)}
                \<longrightarrow> shamir_recover C (usize_as_u8 t) (map val cs) = Some (val i))))"

definition presents :: "key_tree \<Rightarrow> (nat \<Rightarrow> bytes) \<Rightarrow> (int \<rightharpoonup> bytes) \<Rightarrow> bool" where
  "presents T val raw \<longleftrightarrow>
     (\<forall>i < length (kt_nodes T). kn_active (kt_nodes T ! i) \<and> kn_hw (kt_nodes T ! i) \<noteq> None
        \<longrightarrow> raw (kn_db (kt_nodes T ! i)) \<in> {None, Some (val i)})"

inductive met :: "key_tree \<Rightarrow> (int \<Rightarrow> bool) \<Rightarrow> nat \<Rightarrow> bool" for T P where
  met_leaf: "kn_active (kt_nodes T ! i) \<Longrightarrow> kn_hw (kt_nodes T ! i) \<noteq> None \<Longrightarrow> P (kn_db (kt_nodes T ! i))
     \<Longrightarrow> met T P i"
| met_split: "kn_active (kt_nodes T ! i) \<Longrightarrow> kn_hw (kt_nodes T ! i) = None
     \<Longrightarrow> kn_threshold (kt_nodes T ! i) = Some t \<Longrightarrow> distinct cs \<Longrightarrow> t \<le> length cs
     \<Longrightarrow> (\<And>c. c \<in> set cs \<Longrightarrow> c \<in> set (kn_children (kt_nodes T ! i)) \<and> met T P c)
     \<Longrightarrow> met T P i"

inductive_cases met_cases: "met T P i"

lemma met_active: "met T P i \<Longrightarrow> kn_active (kt_nodes T ! i)"
  by (erule met_cases)

lemma met_leaf_iff:
  "kn_hw (kt_nodes T ! i) \<noteq> None \<Longrightarrow>
     met T P i \<longleftrightarrow> kn_active (kt_nodes T ! i) \<and> P (kn_db (kt_nodes T ! i))"
  by (auto elim: met_cases intro: met_leaf)

lemma met_split_iff:
  assumes "kn_hw (kt_nodes T ! i) = None" "kn_threshold (kt_nodes T ! i) = Some t"
    and "distinct (kn_children (kt_nodes T ! i))"
  shows "met T P i \<longleftrightarrow> kn_active (kt_nodes T ! i)
           \<and> t \<le> length (filter (met T P) (kn_children (kt_nodes T ! i)))"
proof
  assume "met T P i"
  then show "kn_active (kt_nodes T ! i) \<and> t \<le> length (filter (met T P) (kn_children (kt_nodes T ! i)))"
  proof (rule met_cases)
    fix t' cs
    assume h: "kn_threshold (kt_nodes T ! i) = Some t'" "distinct cs" "t' \<le> length cs"
      "\<And>c. c \<in> set cs \<Longrightarrow> c \<in> set (kn_children (kt_nodes T ! i)) \<and> met T P c"
      and act: "kn_active (kt_nodes T ! i)"
    have "length cs = card (set cs)" using h(2) by (simp add: distinct_card)
    also have "\<dots> \<le> card (set (filter (met T P) (kn_children (kt_nodes T ! i))))"
      using h(4) by (intro card_mono) auto
    also have "\<dots> \<le> length (filter (met T P) (kn_children (kt_nodes T ! i)))" by (rule card_length)
    finally show ?thesis using h(1,3) act assms(2) by simp
  qed (use assms in simp)
next
  assume h: "kn_active (kt_nodes T ! i) \<and> t \<le> length (filter (met T P) (kn_children (kt_nodes T ! i)))"
  show "met T P i"
    by (rule met_split [of T i t "filter (met T P) (kn_children (kt_nodes T ! i))"])
       (use h assms in auto)
qed

text \<open>
  What the loop over the children collects, when each child that is used resolves to its
  value or not at all: the values of the first \<open>t\<close> resolving ones, on top of \<open>acc\<close>.
\<close>

lemma gather_values:
  assumes "\<And>c. c \<in> set cs \<Longrightarrow> use c \<Longrightarrow> rec c = Some (if M c then Ok (val c) else Err QuorumNotMet)"
    and "\<And>c. c \<in> set cs \<Longrightarrow> use c \<Longrightarrow> share_try_from C (val c)"
  shows "gather_shares C t use rec cs acc =
           Some (acc @ map val (take (t - length acc) (filter (\<lambda>c. use c \<and> M c) cs)))"
  using assms
proof (induction cs arbitrary: acc)
  case (Cons c cs)
  have IH: "gather_shares C t use rec cs a =
      Some (a @ map val (take (t - length a) (filter (\<lambda>c. use c \<and> M c) cs)))" for a
    using Cons by auto
  show ?case
  proof (cases "t \<le> length acc")
    case False
    then obtain k where k: "t - length acc = Suc k" by (metis Suc_diff_Suc not_le)
    then have "t - length (acc @ [v]) = k" for v by simp
    then show ?thesis
      using Cons.prems [of c] False IH k by (auto split: if_splits)
  qed simp
qed simp

lemma reconstruct_consistent:
  assumes ok: "arena_ok T" and cs: "consistent C T val" and pr: "presents T val raw"
  shows "i < length (kt_nodes T) \<Longrightarrow>
     reconstruct_from C T i raw =
       Some (if met T (\<lambda>d. raw d \<noteq> None) i then Ok (val i) else Err QuorumNotMet)"
proof -
  obtain rank where r: "ranked T rank" using ok unfolding arena_ok_def by blast
  let ?N = "length (kt_nodes T)" and ?M = "met T (\<lambda>d. raw d \<noteq> None)"
  show "i < ?N \<Longrightarrow> reconstruct_from C T i raw = Some (if ?M i then Ok (val i) else Err QuorumNotMet)"
  proof (induction "?N - rank i" arbitrary: i rule: less_induct)
    case less
    let ?n = "kt_nodes T ! i"
    note eq = reconstruct_from_eq [OF ok less.prems, of C raw]
    have child: "reconstruct_from C T c raw = Some (if ?M c then Ok (val c) else Err QuorumNotMet)"
      if c: "c \<in> set (kn_children ?n)" for c
    proof (rule less.hyps)
      show cN: "c < ?N" using child_rank [OF r ok less.prems c] by blast
      have "rank i < rank c" using child_rank [OF r ok less.prems c] by blast
      moreover have "rank c < ?N" using r cN unfolding ranked_def by blast
      ultimately show "?N - rank c < ?N - rank i" by linarith
    qed
    show ?case
    proof (cases "kn_active ?n")
      case False
      then have "\<not> ?M i" using met_active by blast
      then show ?thesis using False eq by (simp add: Let_def)
    next
      case act: True
      show ?thesis
      proof (cases "kn_hw ?n")
        case (Some h)
        then have "raw (kn_db ?n) \<in> {None, Some (val i)}"
          using pr act less.prems unfolding presents_def by blast
        moreover have "reconstruct_from C T i raw = Some (ok_or QuorumNotMet (raw (kn_db ?n)))"
          using eq act Some by (simp add: Let_def)
        moreover have "?M i \<longleftrightarrow> raw (kn_db ?n) \<noteq> None"
          using met_leaf_iff [of T i "\<lambda>d. raw d \<noteq> None"] Some act by simp
        ultimately show ?thesis by (cases "raw (kn_db ?n)") simp_all
      next
        case None
        from cs less.prems act None have "\<exists>t. kn_threshold ?n = Some t \<and> 0 < t
           \<and> (\<forall>c \<in> set (kn_children ?n). kn_active (kt_nodes T ! c) \<longrightarrow> share_try_from C (val c))
           \<and> (\<forall>cs. distinct cs \<and> t \<le> length cs
                \<and> set cs \<subseteq> {c \<in> set (kn_children ?n). kn_active (kt_nodes T ! c)}
                \<longrightarrow> shamir_recover C (usize_as_u8 t) (map val cs) = Some (val i))"
          unfolding consistent_def by (elim allE impE) auto
        then obtain t where t: "kn_threshold ?n = Some t" "0 < t"
          and sh: "\<And>c. c \<in> set (kn_children ?n) \<Longrightarrow> kn_active (kt_nodes T ! c) \<Longrightarrow> share_try_from C (val c)"
          and rec: "\<And>cs. distinct cs \<Longrightarrow> t \<le> length cs
              \<Longrightarrow> set cs \<subseteq> {c \<in> set (kn_children ?n). kn_active (kt_nodes T ! c)}
              \<Longrightarrow> shamir_recover C (usize_as_u8 t) (map val cs) = Some (val i)"
          by blast
        let ?act = "\<lambda>c. kn_active (kt_nodes T ! c)"
        let ?ms = "filter (\<lambda>c. ?act c \<and> ?M c) (kn_children ?n)"
        have d: "distinct (kn_children ?n)" using ok less.prems unfolding arena_ok_def by blast
        have g: "gather_shares C t ?act (\<lambda>c. reconstruct_from C T c raw) (kn_children ?n) []
            = Some (map val (take t ?ms))"
          using gather_values [of "kn_children ?n" ?act "\<lambda>c. reconstruct_from C T c raw" ?M val C t "[]"]
            child sh by simp
        have ms: "?ms = filter ?M (kn_children ?n)" using met_active by (metis (mono_tags, lifting))
        have m: "?M i \<longleftrightarrow> t \<le> length ?ms"
          using met_split_iff [OF None t(1) d] act unfolding ms by simp
        show ?thesis
        proof (cases "t \<le> length ?ms")
          case True
          have "shamir_recover C (usize_as_u8 t) (map val (take t ?ms)) = Some (val i)"
            using True d by (intro rec) (auto dest: in_set_takeD)
          then show ?thesis
            using eq g act None t(1) m True by (simp add: Let_def combine_def)
        next
          case False
          then show ?thesis using eq g act None t(1) m by (simp add: Let_def combine_def)
        qed
      qed
    qed
  qed
qed

section \<open>Climbing from a department\<close>

lemma consistent_split:
  assumes "consistent C T val" "i < length (kt_nodes T)" "kn_active (kt_nodes T ! i)"
    and "kn_hw (kt_nodes T ! i) = None"
  obtains t where "kn_threshold (kt_nodes T ! i) = Some t" "0 < t"
    and "\<And>c. c \<in> set (kn_children (kt_nodes T ! i)) \<Longrightarrow> kn_active (kt_nodes T ! c) \<Longrightarrow> share_try_from C (val c)"
    and "\<And>cs. distinct cs \<Longrightarrow> t \<le> length cs
           \<Longrightarrow> (\<And>c. c \<in> set cs \<Longrightarrow> c \<in> set (kn_children (kt_nodes T ! i)) \<and> kn_active (kt_nodes T ! c))
           \<Longrightarrow> shamir_recover C (usize_as_u8 t) (map val cs) = Some (val i)"
proof -
  from assms have "\<exists>t. kn_threshold (kt_nodes T ! i) = Some t \<and> 0 < t
           \<and> (\<forall>c \<in> set (kn_children (kt_nodes T ! i)). kn_active (kt_nodes T ! c) \<longrightarrow> share_try_from C (val c))
           \<and> (\<forall>cs. distinct cs \<and> t \<le> length cs
                \<and> set cs \<subseteq> {c \<in> set (kn_children (kt_nodes T ! i)). kn_active (kt_nodes T ! c)}
                \<longrightarrow> shamir_recover C (usize_as_u8 t) (map val cs) = Some (val i))"
    unfolding consistent_def by (elim allE impE) auto
  then show ?thesis using that by (metis (no_types, lifting) mem_Collect_eq subsetI)
qed

text \<open>Leaves of the quorum are leaves of the tree, which the climb relies on.\<close>

definition leaves_childless :: "key_tree \<Rightarrow> bool" where
  "leaves_childless T \<longleftrightarrow>
     (\<forall>i < length (kt_nodes T). kn_hw (kt_nodes T ! i) \<noteq> None \<longrightarrow> kn_children (kt_nodes T ! i) = [])"

lemma climb_consistent:
  assumes ok: "arena_ok T" and cs: "consistent C T val" and pr: "presents T val raw"
    and lc: "leaves_childless T" and r: "ranked T rank"
  shows "i < length (kt_nodes T) \<Longrightarrow> rank i < f
     \<Longrightarrow> (\<And>a. ancestor T a i \<Longrightarrow> met T (\<lambda>d. raw d \<noteq> None) a)
     \<Longrightarrow> \<exists>top. climb C T raw f i (val i) = Some (Ok (val top)) \<and> ancestor T top i
            \<and> top < length (kt_nodes T) \<and> kn_parent (kt_nodes T ! top) = None"
proof (induction f arbitrary: i)
  case (Suc f)
  let ?M = "met T (\<lambda>d. raw d \<noteq> None)" and ?act = "\<lambda>c. kn_active (kt_nodes T ! c)"
  show ?case
  proof (cases "kn_parent (kt_nodes T ! i)")
    case None
    then show ?thesis using Suc.prems(1) by (auto intro: ancestor_refl)
  next
    case (Some p)
    then have p: "p < length (kt_nodes T)" "rank p < rank i"
      using r Suc.prems(1) unfolding ranked_def by blast+
    have anc: "?M a" if "ancestor T a p" for a
      using Suc.prems(3) ancestor_step [OF Some that] by blast
    have Mi: "?M i" and Mp: "?M p" using Suc.prems(3) anc by (blast intro: ancestor_refl)+
    let ?ch = "kn_children (kt_nodes T ! p)"
    have ich: "i \<in> set ?ch" and d: "distinct ?ch"
      using ok p(1) Suc.prems(1) Some unfolding arena_ok_def by blast+
    have hw: "kn_hw (kt_nodes T ! p) = None" using lc p(1) ich unfolding leaves_childless_def by fastforce
    obtain t where t: "kn_threshold (kt_nodes T ! p) = Some t" "0 < t"
      and sh: "\<And>c. c \<in> set ?ch \<Longrightarrow> ?act c \<Longrightarrow> share_try_from C (val c)"
      and rec: "\<And>cs. distinct cs \<Longrightarrow> t \<le> length cs
           \<Longrightarrow> (\<And>c. c \<in> set cs \<Longrightarrow> c \<in> set ?ch \<and> ?act c)
           \<Longrightarrow> shamir_recover C (usize_as_u8 t) (map val cs) = Some (val p)"
      using consistent_split [OF cs p(1) met_active [OF Mp] hw] by metis
    let ?ms = "filter (\<lambda>c. (c \<noteq> i \<and> ?act c) \<and> ?M c) ?ch"
    have ti: "share_try_from C (val i)" using sh ich Mi met_active by blast
    have g: "gather_shares C t (\<lambda>c. c \<noteq> i \<and> ?act c) (\<lambda>c. reconstruct_from C T c raw) ?ch [val i]
        = Some ([val i] @ map val (take (t - 1) ?ms))"
    proof -
      have "reconstruct_from C T c raw = Some (if ?M c then Ok (val c) else Err QuorumNotMet)"
        if "c \<in> set ?ch" for c
        using reconstruct_consistent [OF ok cs pr] child_rank [OF r ok p(1) that] by blast
      from gather_values [of ?ch "\<lambda>c. c \<noteq> i \<and> ?act c" "\<lambda>c. reconstruct_from C T c raw" ?M val C t "[val i]",
          OF this] sh show ?thesis by simp
    qed
    have len: "t - 1 \<le> length ?ms"
    proof -
      let ?bs = "filter ?M ?ch"
      have "t \<le> length ?bs" using Mp met_split_iff [OF hw t(1) d] by blast
      also have "length ?bs = card (set ?bs)"
        by (rule distinct_card [symmetric]) (rule distinct_filter [OF d])
      also have "\<dots> \<le> card (insert i (set ?ms))"
        using met_active by (intro card_mono) auto
      also have "\<dots> \<le> Suc (card (set ?ms))" by (simp add: card_insert_if)
      also have "card (set ?ms) = length ?ms"
        by (rule distinct_card) (rule distinct_filter [OF d])
      finally show ?thesis by simp
    qed
    have "shamir_recover C (usize_as_u8 t) (map val (i # take (t - 1) ?ms)) = Some (val p)"
    proof (rule rec)
      have "i \<notin> set (take (t - 1) ?ms)" by (auto dest: in_set_takeD)
      moreover have "distinct (take (t - 1) ?ms)" using d by (intro distinct_take distinct_filter)
      ultimately show "distinct (i # take (t - 1) ?ms)" by simp
      show "t \<le> length (i # take (t - 1) ?ms)" using len by simp
      show "c \<in> set ?ch \<and> ?act c" if "c \<in> set (i # take (t - 1) ?ms)" for c
        using that ich Mi met_active by (auto dest: in_set_takeD)
    qed
    then have "combine C t ([val i] @ map val (take (t - 1) ?ms)) = Ok (val p)"
      using len by (simp add: combine_def)
    then have step: "climb C T raw (Suc f) i (val i) = climb C T raw f p (val p)"
      using Some t(1) ti g by simp
    have "rank p < f" using p(2) Suc.prems(2) by simp
    from Suc.IH [OF p(1) this anc] obtain top where
      "climb C T raw f p (val p) = Some (Ok (val top))" "ancestor T top p"
      "top < length (kt_nodes T)" "kn_parent (kt_nodes T ! top) = None" by blast
    then show ?thesis using step ancestor_step [OF Some] by auto
  qed
qed simp

lemma up_to_root_consistent:
  assumes ok: "arena_ok T" and sr: "single_root T" and lc: "leaves_childless T"
    and cs: "consistent C T val" and pr: "presents T val raw" and i: "i < length (kt_nodes T)"
    and anc: "\<And>a. ancestor T a i \<Longrightarrow> met T (\<lambda>d. raw d \<noteq> None) a"
  shows "reconstruct_up_to_root C T i raw = Some (Ok (val (kt_root T)))"
proof -
  obtain rank where r: "ranked T rank" using ok unfolding arena_ok_def by blast
  have "rank i < tree_fuel T" using r i unfolding ranked_def tree_fuel_def by fastforce
  from climb_consistent [OF ok cs pr lc r i this anc] obtain top where
    c: "climb C T raw (tree_fuel T) i (val i) = Some (Ok (val top))"
    and top: "top < length (kt_nodes T)" "kn_parent (kt_nodes T ! top) = None" by blast
  have "top = kt_root T" using sr top unfolding single_root_def by blast
  moreover have "reconstruct_from C T i raw = Some (Ok (val i))"
    using reconstruct_consistent [OF ok cs pr i] anc [OF ancestor_refl] by simp
  ultimately show ?thesis using c by (simp add: reconstruct_up_to_root_def)
qed

end
