(* ===== verification/TreeLoad.thy ===== *)
theory TreeLoad
  imports TreeFacts
begin

text \<open>
  What \<open>load\<close> makes of well-formed rows: the arena in closed form, its well-formedness, and
  the lookups by label and id. The rows of a key are well formed when their ids ascend, labels
  are distinct, the first row is the root and every other row hangs below an earlier one.
\<close>

definition tree_rows_ok :: "node_row list \<Rightarrow> bool" where
  "tree_rows_ok rows \<longleftrightarrow> rows \<noteq> [] \<and> sorted_wrt (<) (map n_id rows) \<and> distinct (map n_label rows)
     \<and> n_parent (hd rows) = None
     \<and> (\<forall>r \<in> set (tl rows). \<exists>q. n_parent r = Some q \<and> q < n_id r \<and> q \<in> n_id ` set rows)"

definition row_index :: "node_row list \<Rightarrow> int \<Rightarrow> nat" where
  "row_index rows q = length (takeWhile (\<lambda>r. n_id r \<noteq> q) rows)"

lemma row_index_nth:
  assumes "distinct (map n_id rows)" "j < length rows"
  shows "row_index rows (n_id (rows ! j)) = j"
  using assms
proof (induction rows arbitrary: j)
  case (Cons r rows)
  show ?case
  proof (cases j)
    case (Suc k)
    then have "n_id r \<noteq> n_id (rows ! k)" using Cons.prems by auto
    then show ?thesis using Cons Suc by (simp add: row_index_def)
  qed (simp add: row_index_def)
qed simp

definition db_map :: "node_row list \<Rightarrow> int \<rightharpoonup> nat" where
  "db_map rows d = (if d \<in> n_id ` set rows then Some (row_index rows d) else None)"

definition label_map :: "node_row list \<Rightarrow> string \<rightharpoonup> nat" where
  "label_map rows l =
     (if l \<in> n_label ` set rows then Some (length (takeWhile (\<lambda>r. n_label r \<noteq> l) rows)) else None)"

text \<open>The arena after the parents of the first \<open>i\<close> rows are linked, and the final one.\<close>

definition linked :: "node_row list \<Rightarrow> nat \<Rightarrow> nat \<Rightarrow> key_node" where
  "linked rows i j = (node_of_row (rows ! j))
     \<lparr> kn_parent := (if j < i then map_option (row_index rows) (n_parent (rows ! j)) else None),
       kn_children := filter (\<lambda>c. n_parent (rows ! c) = Some (n_id (rows ! j))) [0..<i] \<rparr>"

definition arena_nodes :: "node_row list \<Rightarrow> (int \<times> string) list \<Rightarrow> key_node list" where
  "arena_nodes rows bs =
     map (\<lambda>j. (linked rows (length rows) j)\<lparr> kn_bridges := {p. (n_id (rows ! j), p) \<in> set bs} \<rparr>)
       [0..<length rows]"

definition arena_of :: "node_row list \<Rightarrow> (int \<times> string) list \<Rightarrow> key_tree" where
  "arena_of rows bs = \<lparr> kt_nodes = arena_nodes rows bs, kt_root = 0,
     kt_by_label = label_map rows, kt_by_db = db_map rows \<rparr>"

lemma length_arena_nodes [simp]: "length (arena_nodes rows bs) = length rows"
  by (simp add: arena_nodes_def)

lemma arena_node_fields [simp]:
  assumes "j < length rows"
  shows "kn_db (arena_nodes rows bs ! j) = n_id (rows ! j)"
    and "kn_label (arena_nodes rows bs ! j) = n_label (rows ! j)"
    and "kn_parent (arena_nodes rows bs ! j) = map_option (row_index rows) (n_parent (rows ! j))"
    and "kn_children (arena_nodes rows bs ! j) =
           filter (\<lambda>c. n_parent (rows ! c) = Some (n_id (rows ! j))) [0..<length rows]"
    and "kn_threshold (arena_nodes rows bs ! j) = map_option i64_as_usize (n_threshold (rows ! j))"
    and "kn_active (arena_nodes rows bs ! j) = n_active (rows ! j)"
    and "kn_hw (arena_nodes rows bs ! j) = n_hw (rows ! j)"
    and "kn_bridges (arena_nodes rows bs ! j) = {p. (n_id (rows ! j), p) \<in> set bs}"
  using assms by (simp_all add: arena_nodes_def linked_def node_of_row_def)

lemma arena_of_simps [simp]:
  "kt_nodes (arena_of rows bs) = arena_nodes rows bs"
  "kt_root (arena_of rows bs) = 0"
  "kt_by_label (arena_of rows bs) = label_map rows"
  "kt_by_db (arena_of rows bs) = db_map rows"
  by (simp_all add: arena_of_def)

section \<open>The three passes\<close>

lemma load_nodes_run:
  assumes "distinct (map n_label rows)" "distinct (map n_id rows)"
    and "\<forall>r \<in> set rows. labels (n_label r) = None"
  shows "load_nodes i rows labels dbs nodes =
     Ok (\<lambda>l. if l \<in> n_label ` set rows then Some (i + length (takeWhile (\<lambda>r. n_label r \<noteq> l) rows)) else labels l,
         \<lambda>d. if d \<in> n_id ` set rows then Some (i + row_index rows d) else dbs d,
         nodes @ map node_of_row rows)"
  using assms
proof (induction rows arbitrary: i labels dbs nodes)
  case (Cons r rows)
  have "n_label x \<noteq> n_label r" if "x \<in> set rows" for x
    using Cons.prems(1) that by (metis distinct.simps(2) image_eqI list.map(2) list.set_map)
  then have "\<forall>x \<in> set rows. (labels(n_label r \<mapsto> i)) (n_label x) = None"
    using Cons.prems(3) by simp
  then have IH: "load_nodes (Suc i) rows (labels(n_label r \<mapsto> i)) (dbs(n_id r \<mapsto> i)) (nodes @ [node_of_row r]) =
     Ok (\<lambda>l. if l \<in> n_label ` set rows then Some (Suc i + length (takeWhile (\<lambda>r. n_label r \<noteq> l) rows))
              else (labels(n_label r \<mapsto> i)) l,
         \<lambda>d. if d \<in> n_id ` set rows then Some (Suc i + row_index rows d) else (dbs(n_id r \<mapsto> i)) d,
         (nodes @ [node_of_row r]) @ map node_of_row rows)"
    using Cons.prems(1,2) by (intro Cons.IH) simp_all
  have L: "(\<lambda>l. if l \<in> n_label ` set rows then Some (Suc i + length (takeWhile (\<lambda>r. n_label r \<noteq> l) rows))
              else (labels(n_label r \<mapsto> i)) l)
      = (\<lambda>l. if l \<in> n_label ` set (r # rows)
              then Some (i + length (takeWhile (\<lambda>r. n_label r \<noteq> l) (r # rows))) else labels l)"
    by (rule ext) (use Cons.prems(1) in auto)
  have D: "(\<lambda>d. if d \<in> n_id ` set rows then Some (Suc i + row_index rows d) else (dbs(n_id r \<mapsto> i)) d)
      = (\<lambda>d. if d \<in> n_id ` set (r # rows) then Some (i + row_index (r # rows) d) else dbs d)"
    by (rule ext) (use Cons.prems(2) in \<open>auto simp: row_index_def\<close>)
  have step: "load_nodes i (r # rows) labels dbs nodes =
      load_nodes (Suc i) rows (labels(n_label r \<mapsto> i)) (dbs(n_id r \<mapsto> i)) (nodes @ [node_of_row r])"
    using Cons.prems(3) by simp
  show ?case unfolding step IH L D by simp
qed (simp add: row_index_def)

lemma link_step:
  assumes "distinct (map n_id rows)" "i < length rows"
    and q: "\<And>q. n_parent (rows ! i) = Some q \<Longrightarrow> \<exists>p < length rows. q = n_id (rows ! p)"
  shows "link_parents i (drop i rows) (db_map rows) (map (linked rows i) [0..<length rows]) =
     link_parents (Suc i) (drop (Suc i) rows) (db_map rows) (map (linked rows (Suc i)) [0..<length rows])"
proof -
  have dr: "drop i rows = rows ! i # drop (Suc i) rows" using assms(2) by (simp add: Cons_nth_drop_Suc)
  show ?thesis
  proof (cases "n_parent (rows ! i)")
    case None
    then have "map (linked rows i) [0..<length rows] = map (linked rows (Suc i)) [0..<length rows]"
      by (intro map_cong) (auto simp: linked_def less_Suc_eq)
    then show ?thesis using None by (simp only: dr link_parents.simps option.case)
  next
    case (Some q)
    with q obtain p where p: "p < length rows" "q = n_id (rows ! p)" by blast
    have dp: "db_map rows q = Some p"
      using p assms(1) row_index_nth by (simp add: db_map_def)
    have ri: "row_index rows q = p" using p assms(1) row_index_nth by simp
    let ?n0 = "map (linked rows i) [0..<length rows]"
    let ?n1 = "?n0[i := (?n0 ! i)\<lparr>kn_parent := Some p\<rparr>]"
    let ?n2 = "?n1[p := (?n1 ! p)\<lparr>kn_children := kn_children (?n1 ! p) @ [i]\<rparr>]"
    have inj: "n_id (rows ! p) = n_id (rows ! j) \<longleftrightarrow> j = p" if "j < length rows" for j
      using assms(1) p(1) that nth_eq_iff_index_eq [of "map n_id rows" p j] by auto
    have "?n2 = map (linked rows (Suc i)) [0..<length rows]"
    proof (rule nth_equalityI)
      fix j assume "j < length ?n2"
      then have j: "j < length rows" by simp
      show "?n2 ! j = map (linked rows (Suc i)) [0..<length rows] ! j"
        using j p assms(2) Some ri inj [OF j]
        by (auto simp: nth_list_update linked_def less_Suc_eq)
    qed simp
    then show ?thesis using Some dp by (simp add: dr Let_def)
  qed
qed

lemma link_parents_run:
  assumes "distinct (map n_id rows)"
    and "\<And>j q. j < length rows \<Longrightarrow> n_parent (rows ! j) = Some q \<Longrightarrow> q \<in> n_id ` set rows"
  shows "i \<le> length rows \<Longrightarrow>
     link_parents i (drop i rows) (db_map rows) (map (linked rows i) [0..<length rows]) =
     Ok (map (linked rows (length rows)) [0..<length rows])"
proof (induction "length rows - i" arbitrary: i)
  case (Suc k)
  then have i: "i < length rows" by simp
  have "\<exists>p < length rows. q = n_id (rows ! p)" if "n_parent (rows ! i) = Some q" for q
    using assms(2) [OF i that] by (auto simp: in_set_conv_nth)
  from link_step [OF assms(1) i this] show ?case using Suc by simp
qed simp

lemma attach_bridges_run:
  assumes "\<forall>(d, p) \<in> set bs. \<exists>i < length nodes. dbs d = Some i"
  shows "attach_bridges bs dbs nodes =
     Ok (map (\<lambda>j. (nodes ! j)\<lparr> kn_bridges := kn_bridges (nodes ! j) \<union> {p. \<exists>d. (d, p) \<in> set bs \<and> dbs d = Some j} \<rparr>)
           [0..<length nodes])"
  using assms
proof (induction bs arbitrary: nodes)
  case Nil
  have "map (\<lambda>j. nodes ! j) [0..<length nodes] = nodes" by (rule map_nth)
  then show ?case by simp
next
  case (Cons b bs)
  obtain d q where b: "b = (d, q)" by (cases b)
  with Cons.prems obtain i where i: "i < length nodes" "dbs d = Some i" by auto
  let ?n = "nodes[i := (nodes ! i)\<lparr>kn_bridges := insert q (kn_bridges (nodes ! i))\<rparr>]"
  have IH: "attach_bridges bs dbs ?n =
     Ok (map (\<lambda>j. (?n ! j)\<lparr> kn_bridges := kn_bridges (?n ! j) \<union> {p. \<exists>d. (d, p) \<in> set bs \<and> dbs d = Some j} \<rparr>)
           [0..<length ?n])"
    using Cons by (intro Cons.IH) auto
  have eq: "(?n ! j)\<lparr> kn_bridges := kn_bridges (?n ! j) \<union> {p. \<exists>d. (d, p) \<in> set bs \<and> dbs d = Some j} \<rparr>
      = (nodes ! j)\<lparr> kn_bridges := kn_bridges (nodes ! j) \<union> {p. \<exists>d. (d, p) \<in> set (b # bs) \<and> dbs d = Some j} \<rparr>"
    if "j < length nodes" for j
  proof (cases "j = i")
    case True
    have "insert q (kn_bridges (nodes ! i)) \<union> {p. \<exists>d. (d, p) \<in> set bs \<and> dbs d = Some i}
        = kn_bridges (nodes ! i) \<union> {p. \<exists>d. (d, p) \<in> set (b # bs) \<and> dbs d = Some i}"
      using i b by auto
    then show ?thesis using True i(1) by simp
  next
    case False
    then have "{p. \<exists>d. (d, p) \<in> set bs \<and> dbs d = Some j} = {p. \<exists>d. (d, p) \<in> set (b # bs) \<and> dbs d = Some j}"
      using i b by auto
    then show ?thesis using False by simp
  qed
  show ?case using IH eq b i by simp
qed

section \<open>Loading well-formed rows\<close>

lemma tree_rows_parent:
  assumes "tree_rows_ok rows" "j < length rows" "n_parent (rows ! j) = Some q"
  shows "\<exists>p < j. q = n_id (rows ! p)"
proof -
  obtain r rest where rr: "rows = r # rest" "n_parent r = None"
    using assms(1) by (cases rows) (auto simp: tree_rows_ok_def)
  then obtain k where "j = Suc k" "k < length rest"
    using assms(2,3) by (cases j) auto
  then have "rows ! j \<in> set (tl rows)" using rr by simp
  then have "\<exists>q'. n_parent (rows ! j) = Some q' \<and> q' < n_id (rows ! j) \<and> q' \<in> n_id ` set rows"
    using assms(1) unfolding tree_rows_ok_def by blast
  then have "q < n_id (rows ! j)" "q \<in> n_id ` set rows" using assms(3) by simp_all
  then obtain p where p: "p < length rows" "q = n_id (rows ! p)" by (auto simp: in_set_conv_nth)
  have "p < j"
  proof (rule ccontr)
    assume "\<not> p < j"
    then consider "j = p" | "j < p" by linarith
    then show False
    proof cases
      case 1
      then show False using \<open>q < n_id (rows ! j)\<close> p by simp
    next
      case 2
      then have "n_id (rows ! j) < n_id (rows ! p)"
        using assms(1) p(1) by (auto simp: tree_rows_ok_def sorted_wrt_map sorted_wrt_iff_nth_less)
      then show False using \<open>q < n_id (rows ! j)\<close> p by simp
    qed
  qed
  then show ?thesis using p by blast
qed

lemma tree_rows_distinct: "tree_rows_ok rows \<Longrightarrow> distinct (map n_id rows)"
  unfolding tree_rows_ok_def using strict_sorted_iff by blast

text \<open>The bridge rows the join of \<open>load\<close> returns for well-formed node ids.\<close>

definition store_ids_ok :: "store \<Rightarrow> bool" where
  "store_ids_ok s \<longleftrightarrow> distinct (map n_id (node_rows s))"

lemma key_node_rows_ids:
  assumes "r \<in> set (node_rows s)" "r' \<in> set (key_node_rows s key)" "n_id r = n_id r'" "store_ids_ok s"
  shows "r = r'"
  using assms by (auto simp: key_node_rows_def store_ids_ok_def distinct_map dest: inj_onD)

lemma load_eq:
  assumes d: "distinct (map n_id (key_node_rows s key))" and ne: "key_node_rows s key \<noteq> []"
    and dl: "distinct (map n_label (key_node_rows s key))"
    and par: "\<forall>r \<in> set (key_node_rows s key). \<forall>q. n_parent r = Some q \<longrightarrow> q \<in> n_id ` set (key_node_rows s key)"
  shows "load s key =
     and_then (ok_or NodeNotFound
        (find (\<lambda>i. kn_parent (arena_nodes (key_node_rows s key) (key_bridge_rows s key) ! i) = None)
           [0..<length (key_node_rows s key)])) (\<lambda>root.
      Ok ((arena_of (key_node_rows s key) (key_bridge_rows s key))\<lparr>kt_root := root\<rparr>))"
proof -
  let ?rows = "key_node_rows s key" and ?bs = "key_bridge_rows s key"
  have 1: "load_nodes 0 ?rows (\<lambda>_. None) (\<lambda>_. None) [] =
      Ok (label_map ?rows, db_map ?rows, map node_of_row ?rows)"
    using load_nodes_run [OF dl d, of "\<lambda>_. None" 0 "\<lambda>_. None" "[]"]
    by (simp add: label_map_def [abs_def] db_map_def [abs_def] cong: if_cong)
  have init: "map node_of_row ?rows = map (linked ?rows 0) [0..<length ?rows]"
  proof (rule nth_equalityI)
    fix j assume "j < length (map node_of_row ?rows)"
    then show "map node_of_row ?rows ! j = map (linked ?rows 0) [0..<length ?rows] ! j"
      by (simp add: linked_def node_of_row_def)
  qed simp
  have 2: "link_parents 0 ?rows (db_map ?rows) (map node_of_row ?rows) =
      Ok (map (linked ?rows (length ?rows)) [0..<length ?rows])"
  proof -
    have "n_parent (?rows ! j) = Some q \<Longrightarrow> q \<in> n_id ` set ?rows" if "j < length ?rows" for j q
      using par nth_mem [OF that] by blast
    from link_parents_run [OF d this, where i = 0] show ?thesis unfolding init by simp
  qed
  have bs: "\<forall>(e, p) \<in> set ?bs. e \<in> n_id ` set ?rows"
    by (auto simp: key_bridge_rows_def key_node_rows_def)
  have dbj: "db_map ?rows e = Some j \<longleftrightarrow> e = n_id (?rows ! j)" if "j < length ?rows" "e \<in> n_id ` set ?rows" for e j
  proof -
    from that(2) obtain k where k: "k < length ?rows" "e = n_id (?rows ! k)" by (auto simp: in_set_conv_nth)
    then show ?thesis
      using that d row_index_nth [OF d k(1)] nth_eq_iff_index_eq [of "map n_id ?rows" k j]
      by (auto simp: db_map_def)
  qed
  have 3: "attach_bridges ?bs (db_map ?rows) (map (linked ?rows (length ?rows)) [0..<length ?rows]) =
      Ok (arena_nodes ?rows ?bs)"
  proof -
    let ?ns = "map (linked ?rows (length ?rows)) [0..<length ?rows]"
    have some: "\<forall>(e, p) \<in> set ?bs. \<exists>i < length ?ns. db_map ?rows e = Some i"
    proof (clarify)
      fix e p assume "(e, p) \<in> set ?bs"
      then have "e \<in> n_id ` set ?rows" using bs by blast
      then obtain k where "k < length ?rows" "e = n_id (?rows ! k)" by (auto simp: in_set_conv_nth)
      then show "\<exists>i < length ?ns. db_map ?rows e = Some i" using row_index_nth [OF d] by (auto simp: db_map_def)
    qed
    have "map (\<lambda>j. (?ns ! j)\<lparr> kn_bridges := kn_bridges (?ns ! j) \<union> {p. \<exists>e. (e, p) \<in> set ?bs \<and> db_map ?rows e = Some j} \<rparr>)
            [0..<length ?ns] = arena_nodes ?rows ?bs"
      unfolding arena_nodes_def
    proof (rule map_cong)
      fix j assume "j \<in> set [0..<length ?rows]"
      then have j: "j < length ?rows" by simp
      then have nj: "?ns ! j = linked ?rows (length ?rows) j" by simp
      have e: "{p. \<exists>e. (e, p) \<in> set ?bs \<and> db_map ?rows e = Some j} = {p. (n_id (?rows ! j), p) \<in> set ?bs}"
      proof (rule Collect_cong, rule iffI)
        fix p assume "\<exists>e. (e, p) \<in> set ?bs \<and> db_map ?rows e = Some j"
        then obtain e where e: "(e, p) \<in> set ?bs" "db_map ?rows e = Some j" by blast
        from e(1) bs have "e \<in> n_id ` set ?rows" by blast
        from dbj [OF j this] e show "(n_id (?rows ! j), p) \<in> set ?bs" by simp
      next
        fix p assume h: "(n_id (?rows ! j), p) \<in> set ?bs"
        have "n_id (?rows ! j) \<in> n_id ` set ?rows" using j by simp
        from dbj [OF j this] h show "\<exists>e. (e, p) \<in> set ?bs \<and> db_map ?rows e = Some j" by blast
      qed
      have k: "kn_bridges (linked ?rows (length ?rows) j) = {}"
        by (simp add: linked_def node_of_row_def)
      show "(?ns ! j)\<lparr> kn_bridges := kn_bridges (?ns ! j) \<union> {p. \<exists>e. (e, p) \<in> set ?bs \<and> db_map ?rows e = Some j} \<rparr>
          = (linked ?rows (length ?rows) j)\<lparr> kn_bridges := {p. (n_id (?rows ! j), p) \<in> set ?bs} \<rparr>"
        unfolding nj e k Un_empty_left ..
    qed simp
    with attach_bridges_run [OF some] show ?thesis by (simp only:)
  qed
  show ?thesis
    using ne 1 2 3 by (simp add: load_def arena_of_def Let_def)
qed

text \<open>A successful load, whatever the shape of the tree.\<close>

lemma load_nodes_distinct:
  "load_nodes i rows labels dbs nodes = Ok r \<Longrightarrow>
     distinct (map n_label rows) \<and> (\<forall>x \<in> set rows. labels (n_label x) = None)"
  by (induction i rows labels dbs nodes rule: load_nodes.induct) (auto split: if_splits)

lemma link_parents_known:
  "link_parents i rows dbs nodes = Ok ns \<Longrightarrow> r \<in> set rows \<Longrightarrow> n_parent r = Some q \<Longrightarrow> dbs q \<noteq> None"
  by (induction i rows dbs nodes rule: link_parents.induct)
     (auto simp: Let_def and_then_Ok_iff split: option.splits)

lemma key_rows_distinct: "store_ids_ok s \<Longrightarrow> distinct (map n_id (key_node_rows s key))"
  unfolding store_ids_ok_def key_node_rows_def by (rule distinct_map_filter)

lemma load_OkD:
  assumes "load s key = Ok T" "store_ids_ok s"
  shows "kt_nodes T = arena_nodes (key_node_rows s key) (key_bridge_rows s key)"
    and "kt_by_label T = label_map (key_node_rows s key)"
    and "kt_by_db T = db_map (key_node_rows s key)"
    and "distinct (map n_label (key_node_rows s key))"
    and "\<forall>r \<in> set (key_node_rows s key). \<forall>q. n_parent r = Some q \<longrightarrow> q \<in> n_id ` set (key_node_rows s key)"
proof -
  let ?rows = "key_node_rows s key"
  have ne: "?rows \<noteq> []" using assms(1) by (auto simp: load_def Let_def)
  then obtain labels dbs nodes ns where
    l: "load_nodes 0 ?rows (\<lambda>_. None) (\<lambda>_. None) [] = Ok (labels, dbs, nodes)"
    and k: "link_parents 0 ?rows dbs nodes = Ok ns"
    using assms(1) by (auto simp: load_def Let_def and_then_Ok_iff)
  have d: "distinct (map n_id ?rows)" by (rule key_rows_distinct [OF assms(2)])
  from load_nodes_distinct [OF l] show dl: "distinct (map n_label ?rows)" by blast
  have dbs: "dbs = db_map ?rows"
    using l load_nodes_run [OF dl d, of "\<lambda>_. None" 0 "\<lambda>_. None" "[]"]
    by (simp add: db_map_def [abs_def] cong: if_cong)
  show known: "\<forall>r \<in> set ?rows. \<forall>q. n_parent r = Some q \<longrightarrow> q \<in> n_id ` set ?rows"
    using link_parents_known [OF k] unfolding dbs db_map_def by (metis (no_types, lifting))
  from assms(1) [unfolded load_eq [OF d ne dl known]] obtain root where
    T: "T = (arena_of ?rows (key_bridge_rows s key))\<lparr>kt_root := root\<rparr>"
    by (auto simp: and_then_Ok_iff)
  show "kt_nodes T = arena_nodes ?rows (key_bridge_rows s key)" "kt_by_label T = label_map ?rows"
    "kt_by_db T = db_map ?rows"
    unfolding T by (simp_all add: arena_of_def)
qed

lemma load_ok:
  assumes ids: "store_ids_ok s" and rows: "tree_rows_ok (key_node_rows s key)"
  shows "load s key = Ok (arena_of (key_node_rows s key) (key_bridge_rows s key))"
proof -
  let ?rows = "key_node_rows s key" and ?bs = "key_bridge_rows s key"
  have d: "distinct (map n_id ?rows)" by (rule tree_rows_distinct [OF rows])
  have ne: "?rows \<noteq> []" and dl: "distinct (map n_label ?rows)" using rows by (simp_all add: tree_rows_ok_def)
  have par: "\<forall>r \<in> set ?rows. \<forall>q. n_parent r = Some q \<longrightarrow> q \<in> n_id ` set ?rows"
  proof (intro ballI allI impI)
    fix r q assume r: "r \<in> set ?rows" and q: "n_parent r = Some q"
    from r obtain j where j: "j < length ?rows" "r = ?rows ! j" by (auto simp: in_set_conv_nth)
    then show "q \<in> n_id ` set ?rows" using tree_rows_parent [OF rows j(1)] q by fastforce
  qed
  have root: "find (\<lambda>i. kn_parent (arena_nodes ?rows ?bs ! i) = None) [0..<length ?rows] = Some 0"
  proof -
    have "[0..<length ?rows] = 0 # [1..<length ?rows]" using ne by (simp add: upt_rec)
    moreover have "n_parent (?rows ! 0) = None" using rows ne by (simp add: tree_rows_ok_def hd_conv_nth)
    ultimately show ?thesis using ne by simp
  qed
  show ?thesis
    using load_eq [OF d ne dl par] root by (simp add: arena_of_def)
qed

lemma arena_of_ok:
  assumes rows: "tree_rows_ok rows"
  shows "arena_ok (arena_of rows bs)" and "single_root (arena_of rows bs)"
proof -
  have d: "distinct (map n_id rows)" by (rule tree_rows_distinct [OF rows])
  have par: "\<exists>p < j. map_option (row_index rows) (n_parent (rows ! j)) = Some p \<and> q = n_id (rows ! p)"
    if "j < length rows" "n_parent (rows ! j) = Some q" for j q
    using tree_rows_parent [OF rows that] that row_index_nth [OF d] by auto
  have "ranked (arena_of rows bs) (\<lambda>i. i)"
    unfolding ranked_def using par by fastforce
  moreover have "distinct (kn_children (arena_nodes rows bs ! i))
      \<and> (\<forall>j. j \<in> set (kn_children (arena_nodes rows bs ! i))
            \<longleftrightarrow> j < length rows \<and> kn_parent (arena_nodes rows bs ! j) = Some i)"
    if i: "i < length rows" for i
  proof -
    have "n_parent (rows ! j) = Some (n_id (rows ! i))
        \<longleftrightarrow> map_option (row_index rows) (n_parent (rows ! j)) = Some i" if j: "j < length rows" for j
    proof (cases "n_parent (rows ! j)")
      case (Some q)
      from par [OF j Some] obtain p where p: "p < j" "row_index rows q = p" "q = n_id (rows ! p)"
        using Some by auto
      then show ?thesis
        using Some i j nth_eq_iff_index_eq [OF d, of p i] by auto
    qed simp
    then show ?thesis using i by auto
  qed
  ultimately show "arena_ok (arena_of rows bs)" unfolding arena_ok_def by auto
  have "n_parent (rows ! i) = None \<longleftrightarrow> i = 0" if "i < length rows" for i
  proof
    assume n: "n_parent (rows ! i) = None"
    show "i = 0"
    proof (rule ccontr)
      assume "i \<noteq> 0"
      with that have "rows ! i \<in> set (tl rows)"
        by (cases rows; cases i) auto
      then show False using rows n by (force simp: tree_rows_ok_def)
    qed
  next
    assume "i = 0"
    then show "n_parent (rows ! i) = None" using rows by (auto simp: tree_rows_ok_def hd_conv_nth)
  qed
  then show "single_root (arena_of rows bs)"
    using rows by (auto simp: single_root_def tree_rows_ok_def)
qed

text \<open>Row ids and parents as indices of a loaded arena.\<close>

lemma index_by_db_row:
  assumes "load s key = Ok T" "store_ids_ok s" "index_by_db_id T d = Ok i"
  shows "i < length (key_node_rows s key)" "n_id (key_node_rows s key ! i) = d"
proof -
  let ?rows = "key_node_rows s key"
  have "db_map ?rows d = Some i" using assms(3) load_OkD(3) [OF assms(1,2)] by (simp add: index_by_db_id_def)
  then have d: "d \<in> n_id ` set ?rows" "i = row_index ?rows d" by (auto simp: db_map_def split: if_splits)
  then obtain j where j: "j < length ?rows" "d = n_id (?rows ! j)" by (auto simp: in_set_conv_nth)
  then have "i = j" using d(2) row_index_nth [OF key_rows_distinct [OF assms(2)] j(1)] by simp
  with j show "i < length ?rows" "n_id (?rows ! i) = d" by simp_all
qed

lemma arena_parent:
  assumes "load s key = Ok T" "store_ids_ok s" "i < length (key_node_rows s key)" "kn_parent (kt_nodes T ! i) = Some p"
  shows "p < length (key_node_rows s key)" "n_parent (key_node_rows s key ! i) = Some (n_id (key_node_rows s key ! p))"
proof -
  let ?rows = "key_node_rows s key"
  from assms(4) obtain q where q: "n_parent (?rows ! i) = Some q" "row_index ?rows q = p"
    using load_OkD(1) [OF assms(1,2)] assms(3) by auto
  have "?rows ! i \<in> set ?rows" using assms(3) by simp
  then have "q \<in> n_id ` set ?rows" using load_OkD(5) [OF assms(1,2)] q(1) by blast
  then obtain j where j: "j < length ?rows" "q = n_id (?rows ! j)" by (auto simp: in_set_conv_nth)
  then have "p = j" using q(2) row_index_nth [OF key_rows_distinct [OF assms(2)] j(1)] by simp
  with j q(1) show "p < length ?rows" "n_parent (?rows ! i) = Some (n_id (?rows ! p))" by simp_all
qed

end
