(* ===== verification/TreeSplit.thy ===== *)
theory TreeSplit
  imports TreeLoad Keys
begin

text \<open>
  Building a tree: \<open>NodeSpec\<close>, \<open>validate\<close>, \<open>split\<close> and \<open>build_tree\<close> of
  \<open>src/key_tree.rs\<close>. A split draws once for its dealer, a leaf once for its sealed box, in
  the order the nodes are visited.
\<close>

datatype node_spec =
    Leaf string int "string list"
  | Split string u8 "node_spec list" "string list"

fun spec_label :: "node_spec \<Rightarrow> string" where
  "spec_label (Leaf l h ab) = l"
| "spec_label (Split l t cs ab) = l"

fun spec_allowed_bridges :: "node_spec \<Rightarrow> string list" where
  "spec_allowed_bridges (Leaf l h ab) = ab"
| "spec_allowed_bridges (Split l t cs ab) = ab"

definition flat_split :: "string \<Rightarrow> u8 \<Rightarrow> (string \<times> int) list \<Rightarrow> node_spec" where
  "flat_split root t leaves = Split root t (map (\<lambda>(l, h). Leaf l h []) leaves) []"

section \<open>Validation\<close>

fun validate_node :: "store \<Rightarrow> node_spec \<Rightarrow> nat \<Rightarrow> nat result"
and validate_nodes :: "store \<Rightarrow> node_spec list \<Rightarrow> nat \<Rightarrow> nat result" where
  "validate_node s (Leaf l h ab) n =
     and_then (get_active_encryption_key s h) (\<lambda>_. Ok (Suc n))"
| "validate_node s (Split l t cs ab) n =
     (if cs = [] \<or> t = 0 \<or> unat t > length cs \<or> length cs > 255 then Err InvalidQuorumThreshold
      else validate_nodes s cs n)"
| "validate_nodes s [] n = Ok n"
| "validate_nodes s (c # cs) n = and_then (validate_node s c n) (validate_nodes s cs)"

fun collect_labels :: "node_spec \<Rightarrow> string set \<Rightarrow> string set result"
and collect_all_labels :: "node_spec list \<Rightarrow> string set \<Rightarrow> string set result" where
  "collect_labels (Leaf l h ab) seen =
     (if l = [] \<or> l \<in> seen then Err DuplicateNodeLabel else Ok (insert l seen))"
| "collect_labels (Split l t cs ab) seen =
     (if l = [] \<or> l \<in> seen then Err DuplicateNodeLabel else collect_all_labels cs (insert l seen))"
| "collect_all_labels [] seen = Ok seen"
| "collect_all_labels (c # cs) seen = and_then (collect_labels c seen) (collect_all_labels cs)"

fun validate_bridges :: "node_spec \<Rightarrow> string set \<Rightarrow> unit result"
and validate_all_bridges :: "node_spec list \<Rightarrow> string set \<Rightarrow> unit result" where
  "validate_bridges (Leaf l h ab) labels =
     (if \<exists>p \<in> set ab. p = l \<or> p \<notin> labels then Err InvalidBridge else Ok ())"
| "validate_bridges (Split l t cs ab) labels =
     (if \<exists>p \<in> set ab. p = l \<or> p \<notin> labels then Err InvalidBridge else validate_all_bridges cs labels)"
| "validate_all_bridges [] labels = Ok ()"
| "validate_all_bridges (c # cs) labels =
     and_then (validate_bridges c labels) (\<lambda>_. validate_all_bridges cs labels)"

definition validate :: "store \<Rightarrow> node_spec \<Rightarrow> unit result" where
  "validate s spec =
     and_then (validate_node s spec 0) (\<lambda>leaf_count.
     if leaf_count = 0 then Err InvalidQuorumThreshold
     else and_then (collect_labels spec {}) (\<lambda>labels. validate_bridges spec labels))"

section \<open>Statements\<close>

definition insert_key_row :: "(int \<Rightarrow> key_row) \<Rightarrow> (store, int) op" where
  "insert_key_row mk = insert_row (\<lambda>_. True) (\<lambda>s. map k_id (key_rows s))
     (\<lambda>i s. s\<lparr>key_rows := key_rows s @ [mk i]\<rparr>)"

text \<open>
  The constraints on a new \<open>key_nodes\<close> row: the foreign keys, \<open>threshold > 0\<close>, a split or a
  leaf, and the trigger against signing keys.
\<close>

definition node_row_allowed :: "store \<Rightarrow> node_row \<Rightarrow> bool" where
  "node_row_allowed s r \<longleftrightarrow>
     n_key r \<in> k_id ` set (key_rows s)
     \<and> (case n_parent r of None \<Rightarrow> True | Some p \<Rightarrow> p \<in> n_id ` set (node_rows s))
     \<and> (case n_hw r of None \<Rightarrow> True
        | Some h \<Rightarrow> (case hw.row_of s h of None \<Rightarrow> False | Some k \<Rightarrow> hw_type k = Encryption))
     \<and> (case n_threshold r of None \<Rightarrow> n_hw r \<noteq> None
        | Some t \<Rightarrow> 0 < t \<and> n_hw r = None \<and> n_wrapped r = None)"

definition insert_node :: "(int \<Rightarrow> node_row) \<Rightarrow> (store, int) op" where
  "insert_node mk = insert_row
     (\<lambda>s. node_row_allowed s (mk (next_rowid (map n_id (node_rows s)))))
     (\<lambda>s. map n_id (node_rows s)) (\<lambda>i s. s\<lparr>node_rows := node_rows s @ [mk i]\<rparr>)"

definition insert_bridge :: "int \<Rightarrow> string \<Rightarrow> (store, unit) op" where
  "insert_bridge i p = (\<lambda>s.
     if i \<in> n_id ` set (node_rows s) \<and> (i, p) \<notin> set (bridge_rows s)
     then (Ok (), s\<lparr>bridge_rows := bridge_rows s @ [(i, p)]\<rparr>)
     else (Err (Db ConstraintViolation), s))"

section \<open>Splitting\<close>

definition insert_allowed_bridges :: "int \<Rightarrow> string list \<Rightarrow> (store, unit) op" where
  "insert_allowed_bridges i peers = for_each (insert_bridge i) peers"

definition seal_share :: "crates \<Rightarrow> hw_row \<Rightarrow> bytes \<Rightarrow> (store, bytes) op" where
  "seal_share C key share =
     (if length (hw_public key) \<noteq> 32 then fail InvalidPublicKey
      else bind draw (\<lambda>coin. ret (box_seal C (hw_public key) coin share)))"

fun split_node :: "crates \<Rightarrow> int \<Rightarrow> int option \<Rightarrow> bytes \<Rightarrow> node_spec \<Rightarrow> (store, unit) op"
and split_children :: "crates \<Rightarrow> int \<Rightarrow> int option \<Rightarrow> bytes list \<Rightarrow> node_spec list \<Rightarrow> (store, unit) op" where
  "split_node C key parent secret (Leaf l h ab) =
     bind (asks (\<lambda>s. get_active_encryption_key s h)) (\<lambda>hk.
     bind (seal_share C hk secret) (\<lambda>wrapped.
     bind (insert_node (\<lambda>i. \<lparr> n_id = i, n_key = key, n_parent = parent, n_label = l,
             n_threshold = None, n_hw = Some h, n_wrapped = Some wrapped, n_active = True \<rparr>)) (\<lambda>i.
     insert_allowed_bridges i ab)))"
| "split_node C key parent secret (Split l t cs ab) =
     bind (insert_node (\<lambda>i. \<lparr> n_id = i, n_key = key, n_parent = parent, n_label = l,
             n_threshold = Some (int (unat t)), n_hw = None, n_wrapped = None, n_active = True \<rparr>)) (\<lambda>i.
     bind (insert_allowed_bridges i ab) (\<lambda>_.
     bind draw (\<lambda>coin.
       let shares = take (length cs) (shamir_deal C (unat t) secret coin) in
       if length shares \<noteq> length cs then fail InvalidQuorumThreshold
       else split_children C key (Some i) shares cs)))"
| "split_children C key parent (sh # shs) (c # cs) =
     bind (split_node C key parent sh c) (\<lambda>_. split_children C key parent shs cs)"
| "split_children C key parent [] cs = ret ()"
| "split_children C key parent (sh # shs) [] = ret ()"

definition build_tree :: "crates \<Rightarrow> string \<Rightarrow> bytes \<Rightarrow> node_spec \<Rightarrow> (store, int) op" where
  "build_tree C label secret spec =
     bind (asks (\<lambda>s. validate s spec)) (\<lambda>_.
     bind (insert_key_row (\<lambda>i. \<lparr> k_id = i, k_label = label, k_generation = 1 \<rparr>)) (\<lambda>key.
     bind (split_node C key None secret spec) (\<lambda>_. ret key)))"

definition split :: "crates \<Rightarrow> string \<Rightarrow> bytes \<Rightarrow> node_spec \<Rightarrow> (store, int) op" where
  "split C label secret spec = transaction (build_tree C label secret spec)"

section \<open>The tables as rowid tables\<close>

lemma insert_key_row_run:
  "insert_key_row mk s = (let i = next_rowid (map k_id (key_rows s)) in
     (Ok i, s\<lparr>key_rows := key_rows s @ [mk i]\<rparr>))"
  by (simp add: insert_key_row_def insert_row_def Let_def)

lemma insert_node_run:
  "insert_node mk s = (let i = next_rowid (map n_id (node_rows s)) in
     if node_row_allowed s (mk i) then (Ok i, s\<lparr>node_rows := node_rows s @ [mk i]\<rparr>)
     else (Err (Db ConstraintViolation), s))"
  by (simp add: insert_node_def insert_row_def Let_def)

interpretation key_table: rowid_table key_rows k_id insert_key_row
  by unfold_locales (auto simp: insert_key_row_run Let_def)

interpretation node_table: rowid_table node_rows n_id insert_node
  by unfold_locales (auto simp: insert_node_run Let_def split: if_splits)

section \<open>What validation establishes\<close>

fun wf_spec :: "node_spec \<Rightarrow> bool" where
  "wf_spec (Leaf l h ab) = True"
| "wf_spec (Split l t cs ab) =
     (cs \<noteq> [] \<and> t \<noteq> 0 \<and> unat t \<le> length cs \<and> length cs \<le> 255 \<and> (\<forall>c \<in> set cs. wf_spec c))"

fun spec_labels :: "node_spec \<Rightarrow> string list" where
  "spec_labels (Leaf l h ab) = [l]"
| "spec_labels (Split l t cs ab) = l # concat (map spec_labels cs)"

fun spec_leaves :: "node_spec \<Rightarrow> (string \<times> int) list" where
  "spec_leaves (Leaf l h ab) = [(l, h)]"
| "spec_leaves (Split l t cs ab) = concat (map spec_leaves cs)"

fun spec_bridges :: "node_spec \<Rightarrow> (string \<times> string list) list" where
  "spec_bridges (Leaf l h ab) = [(l, ab)]"
| "spec_bridges (Split l t cs ab) = (l, ab) # concat (map spec_bridges cs)"

lemma validate_node_Ok:
  "validate_node s spec n = Ok m \<longleftrightarrow> wf_spec spec
     \<and> (\<forall>(l, h) \<in> set (spec_leaves spec). is_ok (get_active_encryption_key s h))
     \<and> m = n + length (spec_leaves spec)"
  "validate_nodes s cs n = Ok m \<longleftrightarrow> (\<forall>c \<in> set cs. wf_spec c)
     \<and> (\<forall>c \<in> set cs. \<forall>(l, h) \<in> set (spec_leaves c). is_ok (get_active_encryption_key s h))
     \<and> m = n + length (concat (map spec_leaves cs))"
proof (induction s spec n and s cs n arbitrary: m and m rule: validate_node_validate_nodes.induct)
  case (1 s l h ab n)
  then show ?case by (auto simp: and_then_Ok_iff is_ok_iff)
next
  case (2 s l t cs ab n)
  then show ?case by (auto simp: not_le)
next
  case (4 s c cs n)
  then show ?case by (auto simp: and_then_Ok_iff)
qed auto

lemma collect_labels_Ok:
  "collect_labels spec seen = Ok seen' \<longleftrightarrow> distinct (spec_labels spec) \<and> [] \<notin> set (spec_labels spec)
     \<and> set (spec_labels spec) \<inter> seen = {} \<and> seen' = seen \<union> set (spec_labels spec)"
  "collect_all_labels cs seen = Ok seen' \<longleftrightarrow> distinct (concat (map spec_labels cs))
     \<and> [] \<notin> set (concat (map spec_labels cs))
     \<and> set (concat (map spec_labels cs)) \<inter> seen = {} \<and> seen' = seen \<union> set (concat (map spec_labels cs))"
proof (induction spec seen and cs seen arbitrary: seen' and seen' rule: collect_labels_collect_all_labels.induct)
  case (4 c cs seen)
  have "collect_all_labels (c # cs) seen = Ok seen' \<longleftrightarrow>
      (\<exists>a. collect_labels c seen = Ok a \<and> collect_all_labels cs a = Ok seen')"
    by (simp add: and_then_Ok_iff)
  also have "\<dots> \<longleftrightarrow> (distinct (spec_labels c) \<and> [] \<notin> set (spec_labels c) \<and> set (spec_labels c) \<inter> seen = {}
      \<and> collect_all_labels cs (seen \<union> set (spec_labels c)) = Ok seen')"
    using 4(1) by auto
  also have "\<dots> \<longleftrightarrow> distinct (concat (map spec_labels (c # cs)))
     \<and> [] \<notin> set (concat (map spec_labels (c # cs)))
     \<and> set (concat (map spec_labels (c # cs))) \<inter> seen = {}
     \<and> seen' = seen \<union> set (concat (map spec_labels (c # cs)))"
    using 4(2) [of "seen \<union> set (spec_labels c)" seen'] by auto
  finally show ?case .
qed auto

lemma validate_bridges_Ok:
  "validate_bridges spec labels = Ok () \<longleftrightarrow>
     (\<forall>(l, ab) \<in> set (spec_bridges spec). \<forall>p \<in> set ab. p \<noteq> l \<and> p \<in> labels)"
  "validate_all_bridges cs labels = Ok () \<longleftrightarrow>
     (\<forall>(l, ab) \<in> set (concat (map spec_bridges cs)). \<forall>p \<in> set ab. p \<noteq> l \<and> p \<in> labels)"
proof (induction spec labels and cs labels rule: validate_bridges_validate_all_bridges.induct)
  case (1 l h ab labels)
  show ?case by (simp del: ball_simps) blast
next
  case (2 l t cs ab labels)
  show ?case
  proof (cases "\<exists>p \<in> set ab. p = l \<or> p \<notin> labels")
    case True
    then show ?thesis by auto
  next
    case False
    then have "\<forall>p \<in> set ab. p \<noteq> l \<and> p \<in> labels" by blast
    then show ?thesis using 2 [OF False] False by simp
  qed
next
  case (4 c cs labels)
  then show ?case by (simp add: and_then_Ok_iff ball_Un)
qed simp

lemma wf_spec_leaves: "wf_spec spec \<Longrightarrow> spec_leaves spec \<noteq> []"
proof (induction spec)
  case (Split l t cs ab)
  then obtain c rest where "cs = c # rest" by (cases cs) auto
  with Split show ?case by simp
qed simp

text \<open>The predicate \<open>validate\<close> decides.\<close>

definition valid_spec :: "store \<Rightarrow> node_spec \<Rightarrow> bool" where
  "valid_spec s spec \<longleftrightarrow> wf_spec spec
     \<and> (\<forall>(l, h) \<in> set (spec_leaves spec). is_ok (get_active_encryption_key s h))
     \<and> distinct (spec_labels spec) \<and> [] \<notin> set (spec_labels spec)
     \<and> (\<forall>(l, ab) \<in> set (spec_bridges spec). \<forall>p \<in> set ab. p \<noteq> l \<and> p \<in> set (spec_labels spec))"

lemma validate_Ok_iff: "validate s spec = Ok u \<longleftrightarrow> valid_spec s spec"
proof -
  have "validate s spec = Ok () \<longleftrightarrow> (\<exists>n. validate_node s spec 0 = Ok n \<and> n \<noteq> 0 \<and>
      (\<exists>labels. collect_labels spec {} = Ok labels \<and> validate_bridges spec labels = Ok ()))"
    by (auto simp: validate_def and_then_Ok_iff split: if_splits)
  also have "\<dots> \<longleftrightarrow> valid_spec s spec"
    using wf_spec_leaves [of spec]
    by (auto simp: validate_node_Ok collect_labels_Ok validate_bridges_Ok valid_spec_def)
  finally show ?thesis by simp
qed

section \<open>The rows a split writes\<close>

text \<open>
  In closed form: the node at preorder position \<open>k\<close> takes the id \<open>b + k\<close> and the draw
  \<open>d + k\<close>. \<open>plant_values\<close> lists what each node stands for, the secret at the root.
\<close>

fun spec_size :: "node_spec \<Rightarrow> nat" where
  "spec_size (Leaf l h ab) = 1"
| "spec_size (Split l t cs ab) = Suc (sum_list (map spec_size cs))"

lemma spec_size_pos [simp]: "0 < spec_size spec"
  by (cases spec) auto

definition leaf_key :: "store \<Rightarrow> int \<Rightarrow> bytes" where
  "leaf_key s h = (case get_key s h of Ok k \<Rightarrow> hw_public k | Err _ \<Rightarrow> [])"

definition dealt :: "crates \<Rightarrow> u8 \<Rightarrow> node_spec list \<Rightarrow> bytes \<Rightarrow> nat \<Rightarrow> bytes list" where
  "dealt C t cs v d = take (length cs) (shamir_deal C (unat t) v d)"

fun plant_rows :: "crates \<Rightarrow> (int \<Rightarrow> bytes) \<Rightarrow> int \<Rightarrow> int option \<Rightarrow> int \<Rightarrow> nat \<Rightarrow> bytes \<Rightarrow> node_spec \<Rightarrow> node_row list"
and plant_forest :: "crates \<Rightarrow> (int \<Rightarrow> bytes) \<Rightarrow> int \<Rightarrow> int option \<Rightarrow> int \<Rightarrow> nat \<Rightarrow> bytes list \<Rightarrow> node_spec list \<Rightarrow> node_row list" where
  "plant_rows C pk key p b d v (Leaf l h ab) =
     [\<lparr> n_id = b, n_key = key, n_parent = p, n_label = l, n_threshold = None, n_hw = Some h,
        n_wrapped = Some (box_seal C (pk h) d v), n_active = True \<rparr>]"
| "plant_rows C pk key p b d v (Split l t cs ab) =
     \<lparr> n_id = b, n_key = key, n_parent = p, n_label = l, n_threshold = Some (int (unat t)),
       n_hw = None, n_wrapped = None, n_active = True \<rparr>
     # plant_forest C pk key (Some b) (b + 1) (Suc d) (dealt C t cs v d) cs"
| "plant_forest C pk key p b d (v # vs) (c # cs) =
     plant_rows C pk key p b d v c
     @ plant_forest C pk key p (b + int (spec_size c)) (d + spec_size c) vs cs"
| "plant_forest C pk key p b d [] cs = []"
| "plant_forest C pk key p b d (v # vs) [] = []"

fun plant_values :: "crates \<Rightarrow> nat \<Rightarrow> bytes \<Rightarrow> node_spec \<Rightarrow> bytes list"
and forest_values :: "crates \<Rightarrow> nat \<Rightarrow> bytes list \<Rightarrow> node_spec list \<Rightarrow> bytes list" where
  "plant_values C d v (Leaf l h ab) = [v]"
| "plant_values C d v (Split l t cs ab) = v # forest_values C (Suc d) (dealt C t cs v d) cs"
| "forest_values C d (v # vs) (c # cs) =
     plant_values C d v c @ forest_values C (d + spec_size c) vs cs"
| "forest_values C d [] cs = []"
| "forest_values C d (v # vs) [] = []"

fun plant_bridges :: "int \<Rightarrow> node_spec \<Rightarrow> (int \<times> string) list"
and forest_bridges :: "int \<Rightarrow> node_spec list \<Rightarrow> (int \<times> string) list" where
  "plant_bridges b (Leaf l h ab) = map (Pair b) ab"
| "plant_bridges b (Split l t cs ab) = map (Pair b) ab @ forest_bridges (b + 1) cs"
| "forest_bridges b [] = []"
| "forest_bridges b (c # cs) = plant_bridges b c @ forest_bridges (b + int (spec_size c)) cs"

lemma dealt_length:
  assumes "shamir_ok C" "t \<noteq> 0" "length cs \<le> 255"
  shows "length (dealt C t cs v d) = length cs"
proof -
  have "1 \<le> unat t" using assms(2) by (metis Suc_leI One_nat_def unat_gt_0)
  moreover have "unat t \<le> 255" using byte_bound [of t] by simp
  ultimately show ?thesis using shamir_deal_length [OF assms(1)] assms(3) by (simp add: dealt_def)
qed

section \<open>Splitting writes those rows\<close>

definition grow :: "store \<Rightarrow> node_row list \<Rightarrow> (int \<times> string) list \<Rightarrow> nat \<Rightarrow> store" where
  "grow s rows bs n = s\<lparr> node_rows := node_rows s @ rows, bridge_rows := bridge_rows s @ bs,
     draws := draws s + n \<rparr>"

lemma grow_fields [simp]:
  "node_rows (grow s rows bs n) = node_rows s @ rows"
  "bridge_rows (grow s rows bs n) = bridge_rows s @ bs"
  "draws (grow s rows bs n) = draws s + n"
  "hw_rows (grow s rows bs n) = hw_rows s"
  "key_rows (grow s rows bs n) = key_rows s"
  "link_rows (grow s rows bs n) = link_rows s"
  "in_tx (grow s rows bs n) = in_tx s"
  by (simp_all add: grow_def)

lemma grow_grow [simp]: "grow (grow s r1 b1 n1) r2 b2 n2 = grow s (r1 @ r2) (b1 @ b2) (n1 + n2)"
  by (simp add: grow_def add.assoc)

lemma grow_nothing [simp]: "grow s [] [] 0 = s"
  by (simp add: grow_def)

lemma next_rowid_snoc: "next_rowid (ids @ [next_rowid ids]) = next_rowid ids + 1"
proof -
  let ?m = "foldr max ids (0::int)"
  have "foldr max ids (max x (0::int)) = max x (foldr max ids 0)" for x
    by (induction ids) (auto simp: max.left_commute)
  from this [of "?m + 1"] have "foldr max ids (max (?m + 1) 0) = max (?m + 1) ?m" .
  moreover have "0 \<le> ?m" by (induction ids) auto
  ultimately have "foldr max ids (max (?m + 1) 0) = ?m + 1" "max (?m + 1) 0 = ?m + 1" by simp_all
  then have "foldr max (ids @ [?m + 1]) 0 = ?m + 1" by (simp only: foldr_append foldr.simps o_apply id_apply)
  then show ?thesis by (simp only: next_rowid_def)
qed

definition id_block :: "int \<Rightarrow> nat \<Rightarrow> int list" where
  "id_block b n = map (\<lambda>k. b + int k) [0..<n]"

lemma id_block_0 [simp]: "id_block b 0 = []"
  by (simp add: id_block_def)

lemma id_block_Suc: "id_block b (Suc n) = b # id_block (b + 1) n"
proof -
  have "[0..<Suc n] = 0 # map Suc [0..<n]" by (metis map_Suc_upt upt_rec zero_less_Suc)
  then show ?thesis by (simp add: id_block_def algebra_simps)
qed

lemma id_block_add: "id_block b (m + n) = id_block b m @ id_block (b + int m) n"
  by (induction m arbitrary: b) (simp_all add: id_block_Suc algebra_simps)

lemma next_rowid_block: "b = next_rowid ids \<Longrightarrow> next_rowid (ids @ id_block b n) = b + int n"
proof (induction n)
  case (Suc n)
  have "id_block b (Suc n) = id_block b n @ [b + int n]" by (simp add: id_block_def)
  then have "ids @ id_block b (Suc n) = (ids @ id_block b n) @ [next_rowid (ids @ id_block b n)]"
    using Suc by simp
  then show ?case using next_rowid_snoc Suc by (metis of_nat_Suc add.assoc add.commute)
qed simp

lemma set_id_block [simp]: "i \<in> set (id_block b n) \<longleftrightarrow> b \<le> i \<and> i < b + int n"
proof
  assume "b \<le> i \<and> i < b + int n"
  then have "i = b + int (nat (i - b))" "nat (i - b) < n" by auto
  then show "i \<in> set (id_block b n)" unfolding id_block_def by force
qed (auto simp: id_block_def)

lemma plant_ids:
  "wf_spec spec \<Longrightarrow> shamir_ok C \<Longrightarrow>
     map n_id (plant_rows C pk key p b d v spec) = id_block b (spec_size spec)"
  "\<forall>c \<in> set cs. wf_spec c \<Longrightarrow> shamir_ok C \<Longrightarrow> length vs = length cs \<Longrightarrow>
     map n_id (plant_forest C pk key p b d vs cs) = id_block b (sum_list (map spec_size cs))"
proof (induction C pk key p b d v spec and C pk key p b d vs cs rule: plant_rows_plant_forest.induct)
  case (2 C pk key p b d v l t cs ab)
  then show ?case using dealt_length [of C t cs v d] by (simp add: id_block_Suc)
next
  case (3 C pk key p b d v vs c cs)
  then show ?case by (simp add: id_block_add)
qed (simp_all add: id_block_Suc)

lemma insert_allowed_bridges_run:
  assumes "i \<in> n_id ` set (node_rows s)" "distinct ab" "\<forall>p \<in> set ab. (i, p) \<notin> set (bridge_rows s)"
  shows "insert_allowed_bridges i ab s = (Ok (), grow s [] (map (Pair i) ab) 0)"
  using assms
proof (induction ab arbitrary: s)
  case (Cons p ab)
  let ?s = "s\<lparr>bridge_rows := bridge_rows s @ [(i, p)]\<rparr>"
  have "insert_allowed_bridges i ab ?s = (Ok (), grow ?s [] (map (Pair i) ab) 0)"
    using Cons.prems by (intro Cons.IH) auto
  then show ?case
    using Cons.prems by (simp add: insert_allowed_bridges_def insert_bridge_def grow_def)
qed (simp add: insert_allowed_bridges_def)

text \<open>Where a node may be planted, and which specs go in without an error.\<close>

definition plantable :: "store \<Rightarrow> int \<Rightarrow> int option \<Rightarrow> int \<Rightarrow> bool" where
  "plantable s key p b \<longleftrightarrow> key \<in> k_id ` set (key_rows s)
     \<and> (case p of None \<Rightarrow> True | Some q \<Rightarrow> q \<in> n_id ` set (node_rows s))
     \<and> b = next_rowid (map n_id (node_rows s)) \<and> (\<forall>(i, q) \<in> set (bridge_rows s). i < b)
     \<and> (\<forall>r \<in> set (hw_rows s). length (hw_public r) = 32)"

definition leaves_active :: "store \<Rightarrow> node_spec \<Rightarrow> bool" where
  "leaves_active s spec \<longleftrightarrow> (\<forall>(l, h) \<in> set (spec_leaves spec). is_ok (get_active_encryption_key s h))"

definition bridges_distinct :: "node_spec \<Rightarrow> bool" where
  "bridges_distinct spec \<longleftrightarrow> (\<forall>(l, ab) \<in> set (spec_bridges spec). distinct ab)"

lemma active_key_cong: "hw_rows s = hw_rows s' \<Longrightarrow> get_active_encryption_key s h = get_active_encryption_key s' h"
  by (simp add: get_active_encryption_key_def get_key_def)

lemma leaf_key_cong: "hw_rows s = hw_rows s' \<Longrightarrow> leaf_key s = leaf_key s'"
  by (simp add: leaf_key_def get_key_def fun_eq_iff)

lemma plant_bridges_range:
  "(i, q) \<in> set (plant_bridges b spec) \<Longrightarrow> b \<le> i \<and> i < b + int (spec_size spec)"
  "(i, q) \<in> set (forest_bridges b cs) \<Longrightarrow> b \<le> i \<and> i < b + int (sum_list (map spec_size cs))"
  by (induction b spec and b cs rule: plant_bridges_forest_bridges.induct) force+

lemma split_node_run:
  "shamir_ok C \<Longrightarrow> wf_spec spec \<Longrightarrow> leaves_active s spec \<Longrightarrow> bridges_distinct spec
     \<Longrightarrow> plantable s key p b \<Longrightarrow> d = draws s \<Longrightarrow> pk = leaf_key s \<Longrightarrow>
     split_node C key p v spec s =
       (Ok (), grow s (plant_rows C pk key p b d v spec) (plant_bridges b spec) (spec_size spec))"
  "shamir_ok C \<Longrightarrow> \<forall>c \<in> set cs. wf_spec c \<and> leaves_active s c \<and> bridges_distinct c
     \<Longrightarrow> length vs = length cs \<Longrightarrow> plantable s key p b \<Longrightarrow> d = draws s \<Longrightarrow> pk = leaf_key s \<Longrightarrow>
     split_children C key p vs cs s =
       (Ok (), grow s (plant_forest C pk key p b d vs cs) (forest_bridges b cs) (sum_list (map spec_size cs)))"
proof (induction C pk key p b d v spec and C pk key p b d vs cs arbitrary: s and s
    rule: plant_rows_plant_forest.induct)
  case (1 C pk key p b d v l h ab)
  obtain hk where hk: "get_active_encryption_key s h = Ok hk"
    using 1(3) by (auto simp: leaves_active_def is_ok_iff)
  then have g: "get_key s h = Ok hk" "hw_type hk = Encryption" by (simp_all add: get_active_encryption_key_Ok_iff)
  then have "hk \<in> set (hw_rows s)" by (blast dest: get_keyD)
  then have len: "length (hw_public hk) = 32" using 1(5) by (simp add: plantable_def)
  have pkh: "pk h = hw_public hk" using g 1(7) by (simp add: leaf_key_def)
  let ?r = "\<lambda>i. \<lparr> n_id = i, n_key = key, n_parent = p, n_label = l, n_threshold = None, n_hw = Some h,
        n_wrapped = Some (box_seal C (hw_public hk) d v), n_active = True \<rparr>"
  let ?s1 = "s\<lparr>draws := Suc (draws s)\<rparr>"
  have row: "hw.row_of ?s1 h = Some hk" using g(1) by (simp add: get_key_Ok_iff hw.row_of_def)
  have b: "b = next_rowid (map n_id (node_rows s))" using 1(5) by (simp add: plantable_def)
  have ins: "insert_node ?r ?s1 = (Ok b, ?s1\<lparr>node_rows := node_rows s @ [?r b]\<rparr>)"
    using 1(5) row g(2) b
    by (auto simp: insert_node_run Let_def node_row_allowed_def plantable_def split: option.splits)
  have br: "insert_allowed_bridges b ab (?s1\<lparr>node_rows := node_rows s @ [?r b]\<rparr>)
      = (Ok (), grow (?s1\<lparr>node_rows := node_rows s @ [?r b]\<rparr>) [] (map (Pair b) ab) 0)"
    using 1(4,5) by (intro insert_allowed_bridges_run) (auto simp: bridges_distinct_def plantable_def)
  show ?case
    using hk len ins br 1(6) pkh by (simp add: seal_share_def grow_def)
next
  case (2 C pk key p b d v l t cs ab)
  have b: "b = next_rowid (map n_id (node_rows s))" using 2(6) by (simp add: plantable_def)
  have wf: "t \<noteq> 0" "length cs \<le> 255" "\<forall>c \<in> set cs. wf_spec c" using 2(3) by auto
  let ?r = "\<lambda>i. \<lparr> n_id = i, n_key = key, n_parent = p, n_label = l, n_threshold = Some (int (unat t)),
       n_hw = None, n_wrapped = None, n_active = True \<rparr>"
  have "0 < unat t" using wf(1) by (simp add: unat_gt_0)
  then have "0 < int (unat t)" by (simp only: of_nat_0_less_iff)
  then have "0 < uint t" by simp
  then have ins: "insert_node ?r s = (Ok b, grow s [?r b] [] 0)"
    using 2(6) b by (auto simp: insert_node_run Let_def node_row_allowed_def plantable_def grow_def split: option.splits)
  let ?s1 = "grow s [?r b] [] 0"
  have "insert_allowed_bridges b ab ?s1 = (Ok (), grow ?s1 [] (map (Pair b) ab) 0)"
    using 2(5,6) by (intro insert_allowed_bridges_run) (auto simp: bridges_distinct_def plantable_def)
  then have br: "insert_allowed_bridges b ab ?s1 = (Ok (), grow s [?r b] (map (Pair b) ab) 0)"
    by simp
  have sh: "length (dealt C t cs v d) = length cs" by (rule dealt_length [OF 2(2) wf(1,2)])
  let ?s2 = "grow s [?r b] (map (Pair b) ab) 1"
  have "plantable ?s2 key (Some b) (b + 1)"
    using 2(6) b next_rowid_snoc [of "map n_id (node_rows s)"] by (force simp: plantable_def)
  moreover have "\<forall>c \<in> set cs. wf_spec c \<and> leaves_active ?s2 c \<and> bridges_distinct c"
    using 2(4,5) wf(3) active_key_cong [of ?s2 s] by (fastforce simp: leaves_active_def bridges_distinct_def)
  moreover have "pk = leaf_key ?s2" using 2(8) leaf_key_cong [of ?s2 s] by simp
  ultimately have ch: "split_children C key (Some b) (dealt C t cs v d) cs ?s2 =
      (Ok (), grow ?s2 (plant_forest C pk key (Some b) (b + 1) (Suc d) (dealt C t cs v d) cs)
                (forest_bridges (b + 1) cs) (sum_list (map spec_size cs)))"
    using 2(1) [OF 2(2) _ sh] 2(7) by simp
  have dr: "(grow s [?r b] (map (Pair b) ab) 0)\<lparr>draws := Suc d\<rparr> = ?s2" using 2(7) by (simp add: grow_def)
  show ?case
    using ins br dr sh ch 2(7) by (simp add: Let_def dealt_def)
next
  case (3 C pk key p b d v vs c cs)
  let ?s1 = "grow s (plant_rows C pk key p b d v c) (plant_bridges b c) (spec_size c)"
  have c: "wf_spec c" "leaves_active s c" "bridges_distinct c" using 3(4) by auto
  have run: "split_node C key p v c s = (Ok (), ?s1)"
    by (rule 3(1) [OF 3(3) c 3(6,7,8)])
  have b: "b = next_rowid (map n_id (node_rows s))" using 3(6) by (simp add: plantable_def)
  have ids: "map n_id (node_rows ?s1) = map n_id (node_rows s) @ id_block b (spec_size c)"
    using plant_ids(1) [OF c(1) 3(3)] by simp
  have "plantable ?s1 key p (b + int (spec_size c))"
    unfolding plantable_def ids
  proof (intro conjI)
    show "b + int (spec_size c) = next_rowid (map n_id (node_rows s) @ id_block b (spec_size c))"
      using next_rowid_block [OF b] by simp
    show "\<forall>(i, q) \<in> set (bridge_rows ?s1). i < b + int (spec_size c)"
      using 3(6) plant_bridges_range(1) [of _ _ b c] by (fastforce simp: plantable_def)
  qed (use 3(6) in \<open>auto simp: plantable_def split: option.splits\<close>)
  moreover have "\<forall>c \<in> set cs. wf_spec c \<and> leaves_active ?s1 c \<and> bridges_distinct c"
    using 3(4) active_key_cong [of ?s1 s] by (auto simp: leaves_active_def)
  moreover have "pk = leaf_key ?s1" using 3(8) leaf_key_cong [of ?s1 s] by simp
  ultimately have "split_children C key p vs cs ?s1 =
      (Ok (), grow ?s1 (plant_forest C pk key p (b + int (spec_size c)) (d + spec_size c) vs cs)
                (forest_bridges (b + int (spec_size c)) cs) (sum_list (map spec_size cs)))"
    using 3(2) [OF 3(3)] 3(5,7) by simp
  then show ?case using run by simp
qed simp_all

section \<open>The integrity of the tree tables\<close>

text \<open>What the schema and the operations keep true of the key, node and whitelist tables.\<close>

definition tree_store_ok :: "store \<Rightarrow> bool" where
  "tree_store_ok s \<longleftrightarrow> node_table.ids_ok s \<and> key_table.ids_ok s \<and> hw.ids_ok s
     \<and> (\<forall>r \<in> set (hw_rows s). length (hw_public r) = 32)
     \<and> (\<forall>r \<in> set (node_rows s). n_key r \<in> k_id ` set (key_rows s))
     \<and> (\<forall>(i, p) \<in> set (bridge_rows s). i \<in> n_id ` set (node_rows s))"

definition split_store :: "crates \<Rightarrow> string \<Rightarrow> bytes \<Rightarrow> node_spec \<Rightarrow> store \<Rightarrow> store" where
  "split_store C label secret spec s =
     (let key = next_rowid (map k_id (key_rows s)); b = next_rowid (map n_id (node_rows s)) in
      grow (s\<lparr>key_rows := key_rows s @ [\<lparr> k_id = key, k_label = label, k_generation = 1 \<rparr>]\<rparr>)
        (plant_rows C (leaf_key s) key None b (draws s) secret spec) (plant_bridges b spec) (spec_size spec))"

lemma split_store_fields:
  "node_rows (split_store C label secret spec s) = node_rows s
     @ plant_rows C (leaf_key s) (next_rowid (map k_id (key_rows s))) None
         (next_rowid (map n_id (node_rows s))) (draws s) secret spec"
  "hw_rows (split_store C label secret spec s) = hw_rows s"
  "in_tx (split_store C label secret spec s) = in_tx s"
  by (simp_all add: split_store_def Let_def)

lemma build_tree_run:
  assumes ok: "shamir_ok C" and st: "tree_store_ok s" and val: "valid_spec s spec" and bd: "bridges_distinct spec"
  shows "build_tree C label secret spec s =
     (Ok (next_rowid (map k_id (key_rows s))), split_store C label secret spec s)"
proof -
  let ?key = "next_rowid (map k_id (key_rows s))" and ?b = "next_rowid (map n_id (node_rows s))"
  let ?s1 = "s\<lparr>key_rows := key_rows s @ [\<lparr> k_id = ?key, k_label = label, k_generation = 1 \<rparr>]\<rparr>"
  have v: "validate s spec = Ok ()" using val validate_Ok_iff by blast
  have wf: "wf_spec spec" and act: "leaves_active s spec"
    using val by (simp_all add: valid_spec_def leaves_active_def)
  have "leaves_active ?s1 spec" using act active_key_cong [of ?s1 s] by (simp add: leaves_active_def)
  moreover have "plantable ?s1 ?key None ?b"
  proof -
    have "i < ?b" if "(i, q) \<in> set (bridge_rows s)" for i q
    proof -
      have "i \<in> set (map n_id (node_rows s))" using st that by (auto simp: tree_store_ok_def)
      then show ?thesis by (rule next_rowid_greater)
    qed
    then show ?thesis using st by (auto simp: plantable_def tree_store_ok_def)
  qed
  moreover have "leaf_key s = leaf_key ?s1" by (rule leaf_key_cong) simp
  ultimately have "split_node C ?key None secret spec ?s1 =
      (Ok (), split_store C label secret spec s)"
    using split_node_run(1) [OF ok wf, of ?s1 ?key None ?b "draws s" "leaf_key s" secret] bd
    by (simp add: split_store_def Let_def)
  then show ?thesis by (simp add: build_tree_def v insert_key_row_run Let_def)
qed

lemma split_run:
  assumes "shamir_ok C" "tree_store_ok s" "valid_spec s spec" "bridges_distinct spec" "\<not> in_tx s"
  shows "split C label secret spec s =
     (Ok (next_rowid (map k_id (key_rows s))), split_store C label secret spec s)"
proof -
  let ?t = "s\<lparr>in_tx := True\<rparr>"
  have "tree_store_ok ?t" "valid_spec ?t spec"
    using assms(2,3) active_key_cong [of ?t s]
    by (auto simp: tree_store_ok_def node_table.ids_ok_def key_table.ids_ok_def hw.ids_ok_def valid_spec_def)
  from build_tree_run [OF assms(1) this assms(4)] have
    "build_tree C label secret spec ?t = (Ok (next_rowid (map k_id (key_rows s))), split_store C label secret spec ?t)"
    by simp
  moreover have "leaf_key ?t = leaf_key s" by (rule leaf_key_cong) simp
  then have "(split_store C label secret spec ?t)\<lparr>in_tx := False\<rparr> = split_store C label secret spec s"
    using assms(5) by (simp add: split_store_def Let_def grow_def)
  ultimately show ?thesis
    using assms(5) by (simp add: split_def transaction_def run_tx_def)
qed

end
