(* ===== verification/TreeRound.thy ===== *)
theory TreeRound
  imports TreeSplit
begin

text \<open>
  The round trip: what \<open>split\<close> writes, \<open>load\<close> reads back as an arena whose shares are
  consistent, and \<open>reconstruct\<close> returns the secret exactly when the leaves presented satisfy
  the thresholds of the specification.
\<close>

section \<open>Unwrapping a leaf\<close>

definition unwrap_leaf_share :: "crates \<Rightarrow> store \<Rightarrow> int \<Rightarrow> bytes \<Rightarrow> bytes result" where
  "unwrap_leaf_share C s i sk =
     (if length sk \<noteq> 32 then Err InvalidPublicKey
      else and_then (query_row (node_table.row_of s i)) (\<lambda>r.
        and_then (ok_or NodeNotFound (n_hw r)) (\<lambda>h.
        and_then (ok_or NodeNotFound (n_wrapped r)) (\<lambda>w.
        and_then (get_key s h) (\<lambda>k.
        if hw_public k \<noteq> x25519_public C sk then Err IntegrityCheckFailed
        else ok_or IntegrityCheckFailed (box_unseal C sk w))))))"

section \<open>When the leaves presented are enough\<close>

fun spec_sat :: "(string \<Rightarrow> bool) \<Rightarrow> node_spec \<Rightarrow> bool" where
  "spec_sat P (Leaf l h ab) = P l"
| "spec_sat P (Split l t cs ab) = (unat t \<le> length (filter (spec_sat P) cs))"

section \<open>Blocks of rows\<close>

definition laid :: "'a list \<Rightarrow> nat \<Rightarrow> 'a list \<Rightarrow> bool" where
  "laid R k L \<longleftrightarrow> k + length L \<le> length R \<and> (\<forall>j < length L. R ! (k + j) = L ! j)"

lemma laid_Cons: "laid R k (x # L) \<Longrightarrow> k < length R \<and> R ! k = x \<and> laid R (Suc k) L"
  unfolding laid_def by (fastforce simp: nth_Cons split: nat.splits)

lemma laid_append: "laid R k (L @ M) \<Longrightarrow> laid R k L \<and> laid R (k + length L) M"
  unfolding laid_def by (fastforce simp: nth_append add.assoc)

lemma laid_nth: "laid R k L \<Longrightarrow> j < length L \<Longrightarrow> k + j < length R \<and> R ! (k + j) = L ! j"
  by (auto simp: laid_def)

lemma laid_member: "laid R k L \<Longrightarrow> k \<le> i \<Longrightarrow> i < k + length L \<Longrightarrow> R ! i \<in> set L"
  using laid_nth [of R k L "i - k"] nth_mem [of "i - k" L] by force

lemma laid_whole: "laid R 0 R"
  by (simp add: laid_def)

section \<open>Sizes, parents and values of planted rows\<close>

lemma plant_length:
  assumes "wf_spec spec" "shamir_ok C"
  shows "length (plant_rows C pk key p b d v spec) = spec_size spec"
  using arg_cong [OF plant_ids(1) [OF assms], of length pk key p b d v] by (simp add: id_block_def)

lemma forest_length:
  assumes "\<forall>c \<in> set cs. wf_spec c" "shamir_ok C" "length vs = length cs"
  shows "length (plant_forest C pk key p b d vs cs) = sum_list (map spec_size cs)"
  using arg_cong [OF plant_ids(2) [OF assms], of length pk key p b d] by (simp add: id_block_def)

lemma values_length:
  "wf_spec spec \<Longrightarrow> shamir_ok C \<Longrightarrow> length (plant_values C d v spec) = spec_size spec"
  "\<forall>c \<in> set cs. wf_spec c \<Longrightarrow> shamir_ok C \<Longrightarrow> length vs = length cs \<Longrightarrow>
     length (forest_values C d vs cs) = sum_list (map spec_size cs)"
proof (induction C d v spec and C d vs cs rule: plant_values_forest_values.induct)
  case (2 C d v l t cs ab)
  then show ?case using dealt_length [of C t cs v d] by simp
qed simp_all

lemma plant_parent:
  "r \<in> set (plant_rows C pk key p b d v spec) \<Longrightarrow>
     n_parent r = p \<or> (\<exists>q. n_parent r = Some q \<and> b \<le> q \<and> q < b + int (spec_size spec))"
  "r \<in> set (plant_forest C pk key p b d vs cs) \<Longrightarrow>
     n_parent r = p \<or> (\<exists>q. n_parent r = Some q \<and> b \<le> q \<and> q < b + int (sum_list (map spec_size cs)))"
proof (induction C pk key p b d v spec and C pk key p b d vs cs rule: plant_rows_plant_forest.induct)
  case (2 C pk key p b d v l t cs ab)
  then show ?case by fastforce
next
  case (3 C pk key p b d v vs c cs)
  then show ?case by fastforce
qed simp_all

lemma plant_fields:
  "r \<in> set (plant_rows C pk key p b d v spec) \<Longrightarrow> n_key r = key \<and> n_active r"
  "r \<in> set (plant_forest C pk key p b d vs cs) \<Longrightarrow> n_key r = key \<and> n_active r"
  by (induction C pk key p b d v spec and C pk key p b d vs cs rule: plant_rows_plant_forest.induct) auto

lemma plant_labels:
  "wf_spec spec \<Longrightarrow> shamir_ok C \<Longrightarrow> map n_label (plant_rows C pk key p b d v spec) = spec_labels spec"
  "\<forall>c \<in> set cs. wf_spec c \<Longrightarrow> shamir_ok C \<Longrightarrow> length vs = length cs \<Longrightarrow>
     map n_label (plant_forest C pk key p b d vs cs) = concat (map spec_labels cs)"
proof (induction C pk key p b d v spec and C pk key p b d vs cs rule: plant_rows_plant_forest.induct)
  case (2 C pk key p b d v l t cs ab)
  then show ?case using dealt_length [of C t cs v d] by simp
qed simp_all

text \<open>The positions of the children of a split whose first child is at \<open>k\<close>.\<close>

fun child_idx :: "nat \<Rightarrow> node_spec list \<Rightarrow> nat list" where
  "child_idx k [] = []"
| "child_idx k (c # cs) = k # child_idx (k + spec_size c) cs"

lemma child_idx_ge: "i \<in> set (child_idx k cs) \<Longrightarrow> k \<le> i \<and> i < k + sum_list (map spec_size cs)"
proof (induction cs arbitrary: k)
  case (Cons c cs)
  then show ?case using spec_size_pos [of c] by (fastforce simp del: spec_size_pos)
qed simp

lemma child_idx_sorted: "sorted_wrt (<) (child_idx k cs)"
proof (induction cs arbitrary: k)
  case (Cons c cs)
  then show ?case using spec_size_pos [of c] by (fastforce dest: child_idx_ge simp del: spec_size_pos)
qed simp

lemma child_idx_length [simp]: "length (child_idx k cs) = length cs"
  by (induction cs arbitrary: k) auto

text \<open>A child's value is the share it was dealt.\<close>

lemma values_first: "\<exists>rest. plant_values C d v spec = v # rest"
  by (cases spec) auto

lemma child_values:
  assumes "\<forall>c \<in> set cs. wf_spec c" "shamir_ok C" "length vs = length cs"
    and "laid V k (forest_values C d vs cs)"
  shows "map (\<lambda>i. V ! i) (child_idx k cs) = vs"
  using assms
proof (induction cs arbitrary: k d vs)
  case (Cons c cs)
  then obtain v vs' where vs: "vs = v # vs'" by (cases vs) auto
  have "laid V k (plant_values C d v c @ forest_values C (d + spec_size c) vs' cs)"
    using Cons.prems(4) vs by simp
  from laid_append [OF this] values_length(1) [of c C d v] Cons.prems(1,2) have
    l: "laid V k (plant_values C d v c)"
       "laid V (k + spec_size c) (forest_values C (d + spec_size c) vs' cs)" by auto
  from values_first [of C d v c] l(1) have "V ! k = v" by (metis laid_Cons)
  moreover have "map (\<lambda>i. V ! i) (child_idx (k + spec_size c) cs) = vs'"
    using Cons.prems vs l(2) by (intro Cons.IH) auto
  ultimately show ?case using vs by simp
qed simp

text \<open>Among the rows of a forest, exactly the child positions name the parent.\<close>

definition below :: "int option \<Rightarrow> int \<Rightarrow> bool" where
  "below p b \<longleftrightarrow> (\<forall>q. p = Some q \<longrightarrow> q < b)"

lemma tree_top:
  assumes wf: "wf_spec spec" "shamir_ok C" and p: "below p b"
    and L: "laid R k (plant_rows C pk key p b d v spec)" and i: "k \<le> i" "i < k + spec_size spec"
  shows "n_parent (R ! i) = p \<longleftrightarrow> i = k"
proof (cases spec)
  case (Leaf l h ab)
  then show ?thesis using L i laid_Cons by fastforce
next
  case (Split l t cs ab)
  let ?F = "plant_forest C pk key (Some b) (b + 1) (Suc d) (dealt C t cs v d) cs"
  have top: "n_parent (R ! k) = p" and F: "laid R (Suc k) ?F"
    using L laid_Cons unfolding Split by fastforce+
  have "n_parent (R ! i) \<noteq> p" if "i \<noteq> k"
  proof -
    have "length ?F = sum_list (map spec_size cs)"
      using wf dealt_length [of C t cs v d] Split by (intro forest_length) auto
    then have "R ! i \<in> set ?F" using laid_member [OF F, of i] i that Split by simp
    from plant_parent(2) [OF this] p show ?thesis by (fastforce simp: below_def)
  qed
  then show ?thesis using top by blast
qed

lemma forest_tops:
  assumes "\<forall>c \<in> set cs. wf_spec c" "shamir_ok C" "length vs = length cs" "below p b"
    and "laid R k (plant_forest C pk key p b d vs cs)" "k \<le> i" "i < k + sum_list (map spec_size cs)"
  shows "n_parent (R ! i) = p \<longleftrightarrow> i \<in> set (child_idx k cs)"
  using assms
proof (induction cs arbitrary: k d vs b)
  case (Cons c cs)
  then obtain v vs' where vs: "vs = v # vs'" by (cases vs) auto
  have "laid R k (plant_rows C pk key p b d v c @
      plant_forest C pk key p (b + int (spec_size c)) (d + spec_size c) vs' cs)"
    using Cons.prems(5) vs by simp
  from laid_append [OF this] plant_length [of c C] Cons.prems(1,2) have
    l: "laid R k (plant_rows C pk key p b d v c)"
       "laid R (k + spec_size c) (plant_forest C pk key p (b + int (spec_size c)) (d + spec_size c) vs' cs)"
    by auto
  show ?case
  proof (cases "i < k + spec_size c")
    case True
    then have "i \<notin> set (child_idx (k + spec_size c) cs)" using child_idx_ge by fastforce
    then show ?thesis
      using tree_top [OF _ Cons.prems(2,4) l(1) Cons.prems(6) True] Cons.prems(1) by simp
  next
    case False
    have "n_parent (R ! i) = p \<longleftrightarrow> i \<in> set (child_idx (k + spec_size c) cs)"
    proof (rule Cons.IH [OF _ Cons.prems(2) _ _ l(2)])
      show "below p (b + int (spec_size c))" using Cons.prems(4) by (fastforce simp: below_def)
      show "k + spec_size c \<le> i" "i < k + spec_size c + sum_list (map spec_size cs)"
        using False Cons.prems(7) by simp_all
    qed (use Cons.prems vs in auto)
    moreover have "i \<noteq> k" using False spec_size_pos [of c] by linarith
    ultimately show ?thesis by simp
  qed
qed simp

text \<open>No row outside a block hangs below a row of it. \<open>B\<close> is the id of row 0.\<close>

definition closed_off :: "node_row list \<Rightarrow> int \<Rightarrow> nat \<Rightarrow> nat \<Rightarrow> bool" where
  "closed_off R B k n \<longleftrightarrow> (\<forall>i < length R. i < k \<or> k + n \<le> i \<longrightarrow>
     (\<forall>j. k \<le> j \<and> j < k + n \<longrightarrow> n_parent (R ! i) \<noteq> Some (B + int j)))"

lemma closed_off_split:
  assumes "closed_off R B k (spec_size (Split l t cs ab))" "below p (B + int k)"
    and "laid R k (plant_rows C pk key p b d v (Split l t cs ab))"
  shows "closed_off R B (Suc k) (sum_list (map spec_size cs))"
  unfolding closed_off_def
proof (intro allI impI)
  fix i j assume i: "i < length R" "i < Suc k \<or> Suc k + sum_list (map spec_size cs) \<le> i"
    and j: "Suc k \<le> j \<and> j < Suc k + sum_list (map spec_size cs)"
  have "n_parent (R ! k) = p" using assms(3) laid_Cons by fastforce
  then show "n_parent (R ! i) \<noteq> Some (B + int j)"
    using assms(1,2) i j by (cases "i = k") (auto simp: closed_off_def below_def)
qed

lemma closed_off_Cons:
  assumes wf: "\<forall>c \<in> set (c # cs). wf_spec c" "shamir_ok C" "length vs = length cs"
    and off: "closed_off R B k (sum_list (map spec_size (c # cs)))" and p: "below p b" and b: "b = B + int k"
    and l: "laid R k (plant_rows C pk key p b d v c)"
           "laid R (k + spec_size c) (plant_forest C pk key p (b + int (spec_size c)) (d + spec_size c) vs cs)"
  shows "closed_off R B k (spec_size c)"
    and "closed_off R B (k + spec_size c) (sum_list (map spec_size cs))"
proof -
  let ?n = "spec_size c" and ?m = "sum_list (map spec_size cs)"
  have len: "length (plant_forest C pk key p (b + int ?n) (d + ?n) vs cs) = ?m"
    using forest_length [of cs C vs] wf by simp
  have len1: "length (plant_rows C pk key p b d v c) = ?n" using plant_length wf by simp
  have offD: "n_parent (R ! i) \<noteq> Some (B + int j)"
    if "i < length R" "i < k \<or> k + (?n + ?m) \<le> i" "k \<le> j" "j < k + (?n + ?m)" for i j
    using off that unfolding closed_off_def list.map sum_list.Cons by blast
  have right: "n_parent (R ! i) \<noteq> Some (B + int j)"
    if "k + ?n \<le> i" "i < k + ?n + ?m" "k \<le> j" "j < k + ?n" for i j
  proof -
    have "R ! i \<in> set (plant_forest C pk key p (b + int ?n) (d + ?n) vs cs)"
      using laid_member [OF l(2)] len that by simp
    from plant_parent(2) [OF this] show ?thesis using p b that by (auto simp: below_def)
  qed
  have left: "n_parent (R ! i) \<noteq> Some (B + int j)"
    if "k \<le> i" "i < k + ?n" "k + ?n \<le> j" for i j
  proof -
    have "R ! i \<in> set (plant_rows C pk key p b d v c)" using laid_member [OF l(1)] len1 that by simp
    from plant_parent(1) [OF this] show ?thesis using p b that by (auto simp: below_def)
  qed
  show "closed_off R B k ?n"
    unfolding closed_off_def
  proof (intro allI impI)
    fix i j assume i: "i < length R" "i < k \<or> k + ?n \<le> i" and j: "k \<le> j \<and> j < k + ?n"
    show "n_parent (R ! i) \<noteq> Some (B + int j)"
    proof (cases "k + ?n \<le> i \<and> i < k + ?n + ?m")
      case False
      then have "i < k \<or> k + (?n + ?m) \<le> i" using i by linarith
      then show ?thesis using offD i(1) j by simp
    qed (use right j in blast)
  qed
  show "closed_off R B (k + ?n) ?m"
    unfolding closed_off_def
  proof (intro allI impI)
    fix i j assume i: "i < length R" "i < k + ?n \<or> k + ?n + ?m \<le> i" and j: "k + ?n \<le> j \<and> j < k + ?n + ?m"
    show "n_parent (R ! i) \<noteq> Some (B + int j)"
    proof (cases "k \<le> i \<and> i < k + ?n")
      case False
      then have "i < k \<or> k + (?n + ?m) \<le> i" using i by linarith
      then show ?thesis using offD i(1) j by simp
    qed (use left j in blast)
  qed
qed

lemma split_child_positions:
  assumes wf: "wf_spec (Split l t cs ab)" "shamir_ok C" and p: "below p b" and b: "b = B + int k"
    and L: "laid R k (plant_rows C pk key p b d v (Split l t cs ab))"
    and off: "closed_off R B k (spec_size (Split l t cs ab))"
  shows "filter (\<lambda>c. n_parent (R ! c) = Some b) [0..<length R] = child_idx (Suc k) cs"
proof -
  let ?F = "plant_forest C pk key (Some b) (b + 1) (Suc d) (dealt C t cs v d) cs"
  let ?m = "sum_list (map spec_size cs)"
  have top: "n_parent (R ! k) = p" and F: "laid R (Suc k) ?F" using L laid_Cons by fastforce+
  have dl: "length (dealt C t cs v d) = length cs" using wf dealt_length by simp
  have cs: "\<forall>c \<in> set cs. wf_spec c" using wf by simp
  have len: "length ?F = ?m" using forest_length [OF cs wf(2) dl] .
  have bel: "below (Some b) (b + 1)" by (simp add: below_def)
  have sets: "set (filter (\<lambda>c. n_parent (R ! c) = Some b) [0..<length R]) = set (child_idx (Suc k) cs)"
  proof (rule set_eqI)
    fix c
    consider (here) "c = k" | (inside) "Suc k \<le> c" "c < Suc k + ?m" | (outside) "c < k \<or> Suc k + ?m \<le> c" by linarith
    then show "c \<in> set (filter (\<lambda>c. n_parent (R ! c) = Some b) [0..<length R]) \<longleftrightarrow> c \<in> set (child_idx (Suc k) cs)"
    proof cases
      case here
      then show ?thesis using top p child_idx_ge [of c "Suc k" cs] by (auto simp: below_def)
    next
      case inside
      then have "c < length R" using F len by (simp add: laid_def)
      then show ?thesis using forest_tops [OF cs wf(2) dl bel F inside] by simp
    next
      case outside
      then have "c \<notin> set (child_idx (Suc k) cs)" using child_idx_ge [of c "Suc k" cs] by auto
      moreover have "c < length R \<Longrightarrow> n_parent (R ! c) \<noteq> Some b"
        using off outside b unfolding closed_off_def by auto
      ultimately show ?thesis by auto
    qed
  qed
  have "sorted_wrt (<) (filter (\<lambda>c. n_parent (R ! c) = Some b) [0..<length R])"
    by (rule sorted_wrt_filter) simp
  then show ?thesis
    using child_idx_sorted [of "Suc k" cs] sets sorted_distinct_set_unique
    unfolding strict_sorted_iff by blast
qed

section \<open>Planted shares are consistent\<close>

text \<open>The condition of \<open>consistent\<close> at one row, with the values in a list beside the rows.\<close>

definition share_node :: "crates \<Rightarrow> node_row list \<Rightarrow> bytes list \<Rightarrow> int \<Rightarrow> nat \<Rightarrow> bool" where
  "share_node C R V B i \<longleftrightarrow> (n_hw (R ! i) = None \<longrightarrow>
     (\<exists>t. n_threshold (R ! i) = Some (int t) \<and> 0 < t \<and> t < 256
        \<and> (\<forall>c < length R. n_parent (R ! c) = Some (B + int i) \<longrightarrow> share_try_from C (V ! c))
        \<and> (\<forall>cs. distinct cs \<and> t \<le> length cs
             \<and> set cs \<subseteq> {c. c < length R \<and> n_parent (R ! c) = Some (B + int i)}
             \<longrightarrow> shamir_recover C t (map (\<lambda>c. V ! c) cs) = Some (V ! i))))"

lemma share_node_split:
  assumes ok: "shamir_ok C" and wf: "wf_spec (Split l t cs ab)" and v: "v \<noteq> []"
    and p: "below p b" and b: "b = B + int k"
    and L: "laid R k (plant_rows C pk key p b d v (Split l t cs ab))"
    and VL: "laid V k (plant_values C d v (Split l t cs ab))"
    and off: "closed_off R B k (spec_size (Split l t cs ab))"
  shows "share_node C R V B k"
proof -
  let ?ch = "child_idx (Suc k) cs"
  have pos: "filter (\<lambda>c. n_parent (R ! c) = Some b) [0..<length R] = ?ch"
    by (rule split_child_positions [OF wf ok p b L off])
  then have "set ?ch = {c. c < length R \<and> n_parent (R ! c) = Some b}" by (simp flip: pos)
  then have mem: "c \<in> set ?ch \<longleftrightarrow> c < length R \<and> n_parent (R ! c) = Some (B + int k)" for c
    using b by blast
  have t1: "1 \<le> unat t" using wf by (metis Suc_leI One_nat_def unat_gt_0 wf_spec.simps(2))
  have t2: "unat t \<le> 255" using byte_bound [of t] by simp
  have dl: "length (dealt C t cs v d) = length cs" using wf ok dealt_length by simp
  have vals: "map (\<lambda>i. V ! i) ?ch = dealt C t cs v d"
    using child_values [of cs C "dealt C t cs v d" V "Suc k" "Suc d"] wf ok dl VL laid_Cons by fastforce
  have Vk: "V ! k = v" using VL laid_Cons by fastforce
  have sub: "set (dealt C t cs v d) \<subseteq> set (shamir_deal C (unat t) v d)"
    by (auto simp: dealt_def dest: in_set_takeD)
  have dist: "distinct (dealt C t cs v d)"
    using shamir_deal_xs [OF ok t1 t2, of v d] by (simp add: dealt_def distinct_map)
  have inV: "V ! c \<in> set (dealt C t cs v d)" if "c \<in> set ?ch" for c
    unfolding vals [symmetric] using that by simp
  have row: "n_hw (R ! k) = None \<and> n_threshold (R ! k) = Some (int (unat t))" using L laid_Cons by fastforce
  have 1: "share_try_from C (V ! c)" if "c < length R" "n_parent (R ! c) = Some (B + int k)" for c
  proof -
    have "V ! c \<in> set (shamir_deal C (unat t) v d)" using inV that mem sub by blast
    then have "length (V ! c) = Suc (length v)" by (rule shamir_deal_share [OF ok t1 t2])
    then show ?thesis using v by (intro share_try_from_long [OF ok]) (cases v; simp)
  qed
  have 2: "shamir_recover C (unat t) (map (\<lambda>c. V ! c) js) = Some v"
    if js: "distinct js" "unat t \<le> length js" "set js \<subseteq> set ?ch" for js
  proof (rule shamir_recover_deal [OF ok t1 t2 v])
    have "distinct (map (\<lambda>i. V ! i) ?ch)" using dist vals by simp
    then have "inj_on (\<lambda>i. V ! i) (set ?ch)" by (simp add: distinct_map)
    then show "distinct (map (\<lambda>c. V ! c) js)"
      using js by (simp add: distinct_map inj_on_subset)
    show "set (map (\<lambda>c. V ! c) js) \<subseteq> set (shamir_deal C (unat t) v d)"
      using js(3) inV sub by auto
  qed (use js in simp)
  have "{c. c < length R \<and> n_parent (R ! c) = Some (B + int k)} = set ?ch" using mem by blast
  then show ?thesis
    unfolding share_node_def using row 1 2 Vk t1 t2 by (intro impI exI [of _ "unat t"]) auto
qed

lemma planted_share_nodes:
  "wf_spec spec \<Longrightarrow> shamir_ok C \<Longrightarrow> v \<noteq> [] \<Longrightarrow> below p b \<Longrightarrow> b = B + int k
    \<Longrightarrow> laid R k (plant_rows C pk key p b d v spec) \<Longrightarrow> laid V k (plant_values C d v spec)
    \<Longrightarrow> closed_off R B k (spec_size spec) \<Longrightarrow> k \<le> i \<Longrightarrow> i < k + spec_size spec \<Longrightarrow> share_node C R V B i"
  "\<forall>c \<in> set cs. wf_spec c \<Longrightarrow> shamir_ok C \<Longrightarrow> length vs = length cs \<Longrightarrow> \<forall>v \<in> set vs. v \<noteq> []
    \<Longrightarrow> below p b \<Longrightarrow> b = B + int k
    \<Longrightarrow> laid R k (plant_forest C pk key p b d vs cs) \<Longrightarrow> laid V k (forest_values C d vs cs)
    \<Longrightarrow> closed_off R B k (sum_list (map spec_size cs)) \<Longrightarrow> k \<le> i
    \<Longrightarrow> i < k + sum_list (map spec_size cs) \<Longrightarrow> share_node C R V B i"
proof (induction C pk key p b d v spec and C pk key p b d vs cs arbitrary: k and k
    rule: plant_rows_plant_forest.induct)
  case (1 C pk key p b d v l h ab)
  have "i = k" using 1(9,10) by simp
  moreover have "n_hw (R ! k) = Some h" using 1(6) laid_Cons by fastforce
  ultimately show ?case by (simp add: share_node_def)
next
  case (2 C pk key p b d v l t cs ab)
  show ?case
  proof (cases "i = k")
    case True
    then show ?thesis using share_node_split [OF 2(3,2,4,5,6,7,8,9)] by simp
  next
    case False
    have wf: "\<forall>c \<in> set cs. wf_spec c" "t \<noteq> 0" "length cs \<le> 255" using 2(2) by auto
    have dl: "length (dealt C t cs v d) = length cs" by (rule dealt_length [OF 2(3) wf(2,3)])
    have t1: "1 \<le> unat t" using wf(2) by (metis Suc_leI One_nat_def unat_gt_0)
    have t2: "unat t \<le> 255" using byte_bound [of t] by simp
    have ne: "\<forall>w \<in> set (dealt C t cs v d). w \<noteq> []"
    proof
      fix w assume "w \<in> set (dealt C t cs v d)"
      then have "w \<in> set (shamir_deal C (unat t) v d)" by (auto simp: dealt_def dest: in_set_takeD)
      from shamir_deal_share(1) [OF 2(3) t1 t2 this] show "w \<noteq> []" by auto
    qed
    have bel: "below (Some b) (b + 1)" by (simp add: below_def)
    have bk: "b + 1 = B + int (Suc k)" using 2(6) by simp
    have lr: "laid R (Suc k) (plant_forest C pk key (Some b) (b + 1) (Suc d) (dealt C t cs v d) cs)"
      using 2(7) laid_Cons by fastforce
    have lv: "laid V (Suc k) (forest_values C (Suc d) (dealt C t cs v d) cs)"
      using 2(8) laid_Cons by fastforce
    have off: "closed_off R B (Suc k) (sum_list (map spec_size cs))"
      using closed_off_split [OF 2(9) _ 2(7)] 2(5,6) by simp
    show ?thesis
      by (rule 2(1) [OF wf(1) 2(3) dl ne bel bk lr lv off]) (use False 2(10,11) in simp_all)
  qed
next
  case (3 C pk key p b d v vs c cs)
  have "laid R k (plant_rows C pk key p b d v c @
      plant_forest C pk key p (b + int (spec_size c)) (d + spec_size c) vs cs)"
    using 3(9) by simp
  from laid_append [OF this] plant_length [of c C] 3(3,4) have
    l: "laid R k (plant_rows C pk key p b d v c)"
       "laid R (k + spec_size c) (plant_forest C pk key p (b + int (spec_size c)) (d + spec_size c) vs cs)"
    by auto
  have "laid V k (plant_values C d v c @ forest_values C (d + spec_size c) vs cs)" using 3(10) by simp
  from laid_append [OF this] values_length(1) [of c C] 3(3,4) have
    w: "laid V k (plant_values C d v c)" "laid V (k + spec_size c) (forest_values C (d + spec_size c) vs cs)"
    by auto
  have len: "length vs = length cs" using 3(5) by simp
  note off = closed_off_Cons [OF 3(3,4) len 3(11,7,8) l]
  show ?case
  proof (cases "i < k + spec_size c")
    case True
    show ?thesis
      by (rule 3(1) [OF _ 3(4) _ 3(7,8) l(1) w(1) off(1) 3(12) True]) (use 3(3,6) in auto)
  next
    case False
    have bel: "below p (b + int (spec_size c))" using 3(7) by (fastforce simp: below_def)
    have bk: "b + int (spec_size c) = B + int (k + spec_size c)" using 3(8) by simp
    show ?thesis
      by (rule 3(2) [OF _ 3(4) len _ bel bk l(2) w(2) off(2)]) (use 3(3,6,13) False in auto)
  qed
qed simp_all

section \<open>Planted nodes resolve when their specification is satisfied\<close>

lemma i64_as_usize_byte: "n < 256 \<Longrightarrow> i64_as_usize (int n) = n"
  by (simp add: i64_as_usize_def)

lemma threshold_usize: "i64_as_usize (int (unat (t :: u8))) = unat t"
  by (rule i64_as_usize_byte) (rule byte_bound)

lemma length_filter_eq: "map P xs = map Q ys \<Longrightarrow> length (filter P xs) = length (filter Q ys)"
proof -
  assume "map P xs = map Q ys"
  then have "filter (\<lambda>b. b) (map P xs) = filter (\<lambda>b. b) (map Q ys)" by simp
  then show ?thesis by (metis filter_map length_map comp_def filter_cong)
qed

definition labels_hold :: "node_row list \<Rightarrow> (int \<Rightarrow> bool) \<Rightarrow> string \<Rightarrow> bool" where
  "labels_hold R P l \<longleftrightarrow> (\<exists>r \<in> set R. n_label r = l \<and> P (n_id r))"

lemma labels_hold_nth:
  assumes "distinct (map n_label R)" "i < length R"
  shows "labels_hold R P (n_label (R ! i)) \<longleftrightarrow> P (n_id (R ! i))"
proof -
  have "r = R ! i" if "r \<in> set R" "n_label r = n_label (R ! i)" for r
    using assms that by (metis distinct_map inj_onD nth_mem)
  then show ?thesis using assms(2) nth_mem unfolding labels_hold_def by blast
qed

lemma planted_met:
  assumes ids: "\<forall>j < length R. n_id (R ! j) = B + int j" and dl: "distinct (map n_label R)"
  shows "wf_spec spec \<Longrightarrow> shamir_ok C \<Longrightarrow> below p b \<Longrightarrow> b = B + int k
    \<Longrightarrow> laid R k (plant_rows C pk key p b d v spec) \<Longrightarrow> closed_off R B k (spec_size spec)
    \<Longrightarrow> met (arena_of R bs) P k \<longleftrightarrow> spec_sat (labels_hold R P) spec"
  and "\<forall>c \<in> set cs. wf_spec c \<Longrightarrow> shamir_ok C \<Longrightarrow> length vs = length cs \<Longrightarrow> below p b \<Longrightarrow> b = B + int k
    \<Longrightarrow> laid R k (plant_forest C pk key p b d vs cs) \<Longrightarrow> closed_off R B k (sum_list (map spec_size cs))
    \<Longrightarrow> map (met (arena_of R bs) P) (child_idx k cs) = map (spec_sat (labels_hold R P)) cs"
proof (induction C pk key p b d v spec and C pk key p b d vs cs arbitrary: k and k
    rule: plant_rows_plant_forest.induct)
  case (1 C pk key p b d v l h ab)
  have k: "k < length R" and row: "n_label (R ! k) = l" "n_hw (R ! k) = Some h" "n_active (R ! k)"
    using 1(5) laid_Cons by fastforce+
  have "met (arena_of R bs) P k \<longleftrightarrow> P (n_id (R ! k))"
    using met_leaf_iff [of "arena_of R bs" k P] k row by simp
  also have "\<dots> \<longleftrightarrow> labels_hold R P l" using labels_hold_nth [OF dl k, of P] row(1) by simp
  finally show ?case by simp
next
  case (2 C pk key p b d v l t cs ab)
  let ?T = "arena_of R bs"
  have k: "k < length R" and row: "n_hw (R ! k) = None" "n_threshold (R ! k) = Some (int (unat t))" "n_active (R ! k)"
    using 2(6) laid_Cons by fastforce+
  have wf: "\<forall>c \<in> set cs. wf_spec c" "t \<noteq> 0" "length cs \<le> 255" using 2(2) by auto
  have dlen: "length (dealt C t cs v d) = length cs" by (rule dealt_length [OF 2(3) wf(2,3)])
  have "n_id (R ! k) = b" using ids k 2(5) by simp
  then have ch: "kn_children (arena_nodes R bs ! k) = child_idx (Suc k) cs"
    using split_child_positions [OF 2(2,3,4,5,6,7)] k by simp
  have "below (Some b) (b + 1)" by (simp add: below_def)
  moreover have "b + 1 = B + int (Suc k)" using 2(5) by simp
  moreover have "laid R (Suc k) (plant_forest C pk key (Some b) (b + 1) (Suc d) (dealt C t cs v d) cs)"
    using 2(6) laid_Cons by fastforce
  moreover have "closed_off R B (Suc k) (sum_list (map spec_size cs))"
    using closed_off_split [OF 2(7) _ 2(6)] 2(4,5) by simp
  ultimately have "map (met ?T P) (child_idx (Suc k) cs) = map (spec_sat (labels_hold R P)) cs"
    by (rule 2(1) [OF wf(1) 2(3) dlen])
  from length_filter_eq [OF this] have
    len: "length (filter (met ?T P) (child_idx (Suc k) cs)) = length (filter (spec_sat (labels_hold R P)) cs)" .
  have "distinct (child_idx (Suc k) cs)" using child_idx_sorted strict_sorted_iff by blast
  then have "met ?T P k \<longleftrightarrow> unat t \<le> length (filter (met ?T P) (child_idx (Suc k) cs))"
    using met_split_iff [of ?T k "unat t" P] k row ch threshold_usize [of t] by simp
  then show ?case using len by simp
next
  case (3 C pk key p b d v vs c cs)
  have "laid R k (plant_rows C pk key p b d v c @
      plant_forest C pk key p (b + int (spec_size c)) (d + spec_size c) vs cs)"
    using 3(8) by simp
  from laid_append [OF this] plant_length [of c C] 3(3,4) have
    l: "laid R k (plant_rows C pk key p b d v c)"
       "laid R (k + spec_size c) (plant_forest C pk key p (b + int (spec_size c)) (d + spec_size c) vs cs)"
    by auto
  have len: "length vs = length cs" using 3(5) by simp
  note off = closed_off_Cons [OF 3(3,4) len 3(9,6,7) l]
  have "met (arena_of R bs) P k \<longleftrightarrow> spec_sat (labels_hold R P) c"
    by (rule 3(1) [OF _ 3(4) 3(6,7) l(1) off(1)]) (use 3(3) in auto)
  moreover have bel: "below p (b + int (spec_size c))" using 3(6) by (fastforce simp: below_def)
  have "map (met (arena_of R bs) P) (child_idx (k + spec_size c) cs) = map (spec_sat (labels_hold R P)) cs"
    by (rule 3(2) [OF _ 3(4) len bel _ l(2) off(2)]) (use 3(3,7) in auto)
  ultimately show ?case by simp
qed simp_all

section \<open>Planted rows load\<close>

lemma plant_parent_less:
  "shamir_ok C \<Longrightarrow> wf_spec spec \<Longrightarrow> r \<in> set (plant_rows C pk key p b d v spec) \<Longrightarrow>
     n_parent r = p \<or> (\<exists>q. n_parent r = Some q \<and> b \<le> q \<and> q < n_id r)"
  "shamir_ok C \<Longrightarrow> \<forall>c \<in> set cs. wf_spec c \<Longrightarrow> length vs = length cs
     \<Longrightarrow> r \<in> set (plant_forest C pk key p b d vs cs) \<Longrightarrow>
     n_parent r = p \<or> (\<exists>q. n_parent r = Some q \<and> b \<le> q \<and> q < n_id r)"
proof (induction C pk key p b d v spec and C pk key p b d vs cs rule: plant_rows_plant_forest.induct)
  case (2 C pk key p b d v l t cs ab)
  let ?F = "plant_forest C pk key (Some b) (b + 1) (Suc d) (dealt C t cs v d) cs"
  have wf: "\<forall>c \<in> set cs. wf_spec c" using 2(3) by simp
  have dl: "length (dealt C t cs v d) = length cs" using 2(2,3) dealt_length by simp
  from 2(4) consider "n_parent r = p" | (inside) "r \<in> set ?F" by auto
  then show ?case
  proof cases
    case inside
    then have "n_id r \<in> set (map n_id ?F)" by simp
    then have "b + 1 \<le> n_id r" unfolding plant_ids(2) [OF wf 2(2) dl] by simp
    then show ?thesis using 2(1) [OF 2(2) wf dl inside] by auto
  qed simp
next
  case (3 C pk key p b d v vs c cs)
  then show ?case by fastforce
qed simp_all

lemma id_block_sorted: "sorted_wrt (<) (id_block b n)"
  by (simp add: id_block_def sorted_wrt_map sorted_wrt_iff_nth_less)

lemma planted_rows_ok:
  assumes ok: "shamir_ok C" and wf: "wf_spec spec" and dl: "distinct (spec_labels spec)"
  shows "tree_rows_ok (plant_rows C pk key None b d v spec)"
proof -
  let ?R = "plant_rows C pk key None b d v spec"
  have ids: "map n_id ?R = id_block b (spec_size spec)" by (rule plant_ids(1) [OF wf ok])
  have ne: "?R \<noteq> []" using plant_length [OF wf ok] spec_size_pos [of spec] by (metis less_numeral_extra(3) list.size(3))
  have hd: "n_parent (hd ?R) = None" by (cases spec) auto
  have "\<exists>q. n_parent r = Some q \<and> q < n_id r \<and> q \<in> n_id ` set ?R" if r: "r \<in> set (tl ?R)" for r
  proof -
    have nn: "n_parent r \<noteq> None"
    proof (cases spec)
      case (Split l t cs ab)
      then have "r \<in> set (plant_forest C pk key (Some b) (b + 1) (Suc d) (dealt C t cs v d) cs)" using r by simp
      from plant_parent(2) [OF this] show ?thesis by auto
    qed (use r in simp)
    have rR: "r \<in> set ?R" using r ne by (meson list.set_sel(2))
    from plant_parent_less(1) [OF ok wf rR] nn obtain q where q: "n_parent r = Some q" "b \<le> q" "q < n_id r"
      by auto
    have "n_id r \<in> set (map n_id ?R)" using rR by simp
    then have "n_id r < b + int (spec_size spec)" unfolding ids by simp
    then have "q \<in> set (map n_id ?R)" unfolding ids using q by simp
    then show ?thesis using q by auto
  qed
  then show ?thesis
    unfolding tree_rows_ok_def using ne hd ids id_block_sorted plant_labels(1) [OF wf ok] dl by metis
qed

lemma planted_ids_nth:
  assumes "shamir_ok C" "wf_spec spec" "j < length (plant_rows C pk key p b d v spec)"
  shows "n_id (plant_rows C pk key p b d v spec ! j) = b + int j"
proof -
  have "map n_id (plant_rows C pk key p b d v spec) ! j = id_block b (spec_size spec) ! j"
    using plant_ids(1) [OF assms(2,1)] by simp
  then show ?thesis using assms(3) plant_length [OF assms(2,1)] by (simp add: id_block_def)
qed

lemma planted_wrapped:
  "wf_spec spec \<Longrightarrow> shamir_ok C \<Longrightarrow> j < spec_size spec \<Longrightarrow>
     n_hw (plant_rows C pk key p b d v spec ! j) = Some h \<Longrightarrow>
     \<exists>coin. n_wrapped (plant_rows C pk key p b d v spec ! j) =
       Some (box_seal C (pk h) coin (plant_values C d v spec ! j))"
  "\<forall>c \<in> set cs. wf_spec c \<Longrightarrow> shamir_ok C \<Longrightarrow> length vs = length cs \<Longrightarrow> j < sum_list (map spec_size cs) \<Longrightarrow>
     n_hw (plant_forest C pk key p b d vs cs ! j) = Some h \<Longrightarrow>
     \<exists>coin. n_wrapped (plant_forest C pk key p b d vs cs ! j) =
       Some (box_seal C (pk h) coin (forest_values C d vs cs ! j))"
proof (induction C pk key p b d v spec and C pk key p b d vs cs arbitrary: j and j
    rule: plant_rows_plant_forest.induct)
  case (2 C pk key p b d v l t cs ab)
  then obtain i where j: "j = Suc i" by (cases j) auto
  have "length (dealt C t cs v d) = length cs" using 2(2,3) dealt_length by simp
  then show ?case using 2 j by simp
next
  case (3 C pk key p b d v vs c cs)
  have len: "length (plant_rows C pk key p b d v c) = spec_size c" "length (plant_values C d v c) = spec_size c"
    using plant_length [of c C] values_length(1) [of c C] 3(3,4) by auto
  show ?case
  proof (cases "j < spec_size c")
    case True
    then show ?thesis using 3(1) [of j] 3(3,4,7) len by (simp add: nth_append)
  next
    case False
    then show ?thesis using 3(2) [of "j - spec_size c"] 3(3,4,5,6,7) len by (simp add: nth_append)
  qed
qed auto

lemma planted_consistent:
  assumes ok: "shamir_ok C" and wf: "wf_spec spec" and v: "v \<noteq> []"
    and R: "R = plant_rows C pk key None b d v spec" and V: "V = plant_values C d v spec"
  shows "consistent C (arena_of R bs) (\<lambda>i. V ! i)"
proof -
  have len: "length R = spec_size spec" "length V = spec_size spec"
    using plant_length [OF wf ok] values_length(1) [OF wf ok] R V by simp_all
  have ids: "n_id (R ! j) = b + int j" if "j < length R" for j
    using planted_ids_nth [OF ok wf] that R by simp
  have off: "closed_off R b 0 (spec_size spec)" using len by (simp add: closed_off_def)
  have node: "share_node C R V b i" if "i < length R" for i
    using planted_share_nodes(1) [OF wf ok v, of None b b 0 R pk key d V i] off len that
      laid_whole [of R] laid_whole [of V] R V by (simp add: below_def)
  show ?thesis
    unfolding consistent_def arena_of_simps length_arena_nodes
  proof (intro allI impI, elim conjE)
    fix i assume i: "i < length R" and hw: "kn_hw (arena_nodes R bs ! i) = None"
    then have "n_hw (R ! i) = None" by simp
    with node [OF i] obtain t where t: "n_threshold (R ! i) = Some (int t)" "0 < t" "t < 256"
      and sh: "\<forall>c < length R. n_parent (R ! c) = Some (b + int i) \<longrightarrow> share_try_from C (V ! c)"
      and rec: "\<forall>cs. distinct cs \<and> t \<le> length cs
             \<and> set cs \<subseteq> {c. c < length R \<and> n_parent (R ! c) = Some (b + int i)}
             \<longrightarrow> shamir_recover C t (map (\<lambda>c. V ! c) cs) = Some (V ! i)"
      unfolding share_node_def by blast
    have ch: "c \<in> set (kn_children (arena_nodes R bs ! i)) \<longleftrightarrow> c < length R \<and> n_parent (R ! c) = Some (b + int i)" for c
      using i ids by auto
    have u8: "usize_as_u8 t = t" using t(3) by simp
    have th: "kn_threshold (arena_nodes R bs ! i) = Some t"
      using i t(1,3) i64_as_usize_byte [of t] by simp
    show "\<exists>t. kn_threshold (arena_nodes R bs ! i) = Some t \<and> 0 < t
        \<and> (\<forall>c \<in> set (kn_children (arena_nodes R bs ! i)). kn_active (arena_nodes R bs ! c) \<longrightarrow> share_try_from C (V ! c))
        \<and> (\<forall>cs. distinct cs \<and> t \<le> length cs
             \<and> set cs \<subseteq> {c \<in> set (kn_children (arena_nodes R bs ! i)). kn_active (arena_nodes R bs ! c)}
             \<longrightarrow> shamir_recover C (usize_as_u8 t) (map (\<lambda>c. V ! c) cs) = Some (V ! i))"
    proof (intro exI [of _ t] conjI ballI allI impI)
      show "shamir_recover C (usize_as_u8 t) (map (\<lambda>c. V ! c) cs) = Some (V ! i)"
        if "distinct cs \<and> t \<le> length cs \<and>
          set cs \<subseteq> {c \<in> set (kn_children (arena_nodes R bs ! i)). kn_active (arena_nodes R bs ! c)}" for cs
        using rec that ch unfolding u8 by blast
    qed (use th t(2) sh ch in auto)
  qed
qed

section \<open>Split, then reconstruct\<close>

lemma split_rows:
  assumes "tree_store_ok s" "shamir_ok C" "wf_spec spec"
  shows "key_node_rows (split_store C label secret spec s) (next_rowid (map k_id (key_rows s))) =
     plant_rows C (leaf_key s) (next_rowid (map k_id (key_rows s))) None
       (next_rowid (map n_id (node_rows s))) (draws s) secret spec"
proof -
  let ?key = "next_rowid (map k_id (key_rows s))"
  let ?R = "plant_rows C (leaf_key s) ?key None (next_rowid (map n_id (node_rows s))) (draws s) secret spec"
  have "n_key r \<noteq> ?key" if "r \<in> set (node_rows s)" for r
  proof -
    have "n_key r \<in> set (map k_id (key_rows s))" using assms(1) that by (simp add: tree_store_ok_def)
    then show ?thesis using next_rowid_fresh by metis
  qed
  then have "filter (\<lambda>r. n_key r = ?key) (node_rows s) = []" by (simp add: filter_empty_conv)
  moreover have "filter (\<lambda>r. n_key r = ?key) ?R = ?R"
    using plant_fields(1) by (intro filter_id_if_all) blast
  ultimately show ?thesis by (simp add: key_node_rows_def split_store_fields)
qed

lemma split_ids_ok:
  assumes "tree_store_ok s" "shamir_ok C" "wf_spec spec"
  shows "node_table.ids_ok (split_store C label secret spec s)"
proof -
  let ?b = "next_rowid (map n_id (node_rows s))"
  let ?R = "plant_rows C (leaf_key s) (next_rowid (map k_id (key_rows s))) None ?b (draws s) secret spec"
  have ids: "map n_id ?R = id_block ?b (spec_size spec)" by (rule plant_ids(1) [OF assms(3,2)])
  have old: "sorted_wrt (<) (map n_id (node_rows s))" "\<forall>r \<in> set (node_rows s). 0 < n_id r"
    using assms(1) by (simp_all add: tree_store_ok_def node_table.ids_ok_def)
  have lt: "x < y" if "x \<in> set (map n_id (node_rows s))" "y \<in> set (id_block ?b (spec_size spec))" for x y
    using next_rowid_greater [OF that(1)] that(2) by simp
  have pos: "0 < n_id r" if "r \<in> set ?R" for r
  proof -
    have "n_id r \<in> set (map n_id ?R)" using that by simp
    then show ?thesis unfolding ids using next_rowid_pos [of "map n_id (node_rows s)"] by simp
  qed
  have "sorted_wrt (<) (map n_id (node_rows s) @ id_block ?b (spec_size spec))"
    unfolding sorted_wrt_append using old(1) id_block_sorted lt by blast
  then show ?thesis
    using old(2) pos ids by (auto simp: node_table.ids_ok_def split_store_fields)
qed

text \<open>The unwrapped shares of a leaf are the values of the arena.\<close>

lemma unwrap_planted:
  assumes sh: "shamir_ok C" and box: "box_ok C" and st: "tree_store_ok s" and wf: "wf_spec spec"
    and S: "S = split_store C label secret spec s"
    and R: "R = key_node_rows S (next_rowid (map k_id (key_rows s)))"
    and V: "V = plant_values C (draws s) secret spec"
    and i: "i < length R" and u: "unwrap_leaf_share C S (n_id (R ! i)) sk = Ok w"
  shows "w = V ! i"
proof -
  let ?b = "next_rowid (map n_id (node_rows s))" and ?key = "next_rowid (map k_id (key_rows s))"
  have RP: "R = plant_rows C (leaf_key s) ?key None ?b (draws s) secret spec"
    unfolding R S by (rule split_rows [OF st sh wf])
  have ids: "node_table.ids_ok S" unfolding S by (rule split_ids_ok [OF st sh wf])
  have "R ! i \<in> set (node_rows S)" using i R nth_mem [OF i] by (auto simp: key_node_rows_def)
  from node_table.row_of_member [OF ids this] have row: "node_table.row_of S (n_id (R ! i)) = Some (R ! i)" .
  from u row obtain h wr k where
    h: "n_hw (R ! i) = Some h" "n_wrapped (R ! i) = Some wr" "get_key S h = Ok k"
      "hw_public k = x25519_public C sk" "box_unseal C sk wr = Some w" "length sk = 32"
    by (auto simp: unwrap_leaf_share_def and_then_Ok_iff split: if_splits)
  have "get_key s h = Ok k" using h(3) by (simp add: get_key_def S split_store_fields)
  then have pk: "leaf_key s h = x25519_public C sk" using h(4) by (simp add: leaf_key_def)
  have "i < spec_size spec" using i RP plant_length [OF wf sh] by simp
  from planted_wrapped(1) [OF wf sh this] h(1) obtain coin where
    "n_wrapped (R ! i) = Some (box_seal C (leaf_key s h) coin (V ! i))" unfolding RP V by blast
  then have "box_unseal C sk wr = Some (V ! i)"
    using h(2) box_unseal_seal [OF box h(6) pk] by simp
  then show ?thesis using h(5) by simp
qed

text \<open>Reconstruction reads the node and bridge tables only, unwrapping the node and key tables.\<close>

lemma reconstruct_cong:
  assumes "node_rows s = node_rows t" "bridge_rows s = bridge_rows t"
  shows "reconstruct C s key raw = reconstruct C t key raw"
proof -
  have "key_node_rows s key = key_node_rows t key" "key_bridge_rows s key = key_bridge_rows t key"
    using assms by (simp_all add: key_node_rows_def key_bridge_rows_def)
  then have "load s key = load t key" unfolding load_def by (simp only:)
  then show ?thesis by (simp add: reconstruct_def)
qed

lemma unwrap_cong:
  "node_rows s = node_rows t \<Longrightarrow> hw_rows s = hw_rows t \<Longrightarrow> unwrap_leaf_share C s i sk = unwrap_leaf_share C t i sk"
  by (simp only: unwrap_leaf_share_def get_key_def node_table.row_of_def)

text \<open>
  The tables after a split, by themselves: the transaction of \<open>split\<close> and the one of
  \<open>quorum::lock_file\<close> both end in them.
\<close>

lemma split_store_reconstruct:
  assumes "shamir_ok C" "box_ok C" "tree_store_ok s" "secret \<noteq> []" "valid_spec s spec"
    and "s' = split_store C label secret spec s"
    and "\<forall>i w. raw i = Some w \<longrightarrow> (\<exists>sk. unwrap_leaf_share C s' i sk = Ok w)"
  shows "reconstruct C s' (next_rowid (map k_id (key_rows s))) raw =
     Some (if spec_sat (labels_hold (key_node_rows s' (next_rowid (map k_id (key_rows s)))) (\<lambda>i. raw i \<noteq> None)) spec
           then Ok secret else Err QuorumNotMet)"
proof -
  let ?key = "next_rowid (map k_id (key_rows s))" and ?b = "next_rowid (map n_id (node_rows s))"
  have wf: "wf_spec spec" and dl: "distinct (spec_labels spec)"
    using assms(5) by (simp_all add: valid_spec_def)
  define R where "R = key_node_rows s' ?key"
  define V where "V = plant_values C (draws s) secret spec"
  define bs where "bs = key_bridge_rows s' ?key"
  have RP: "R = plant_rows C (leaf_key s) ?key None ?b (draws s) secret spec"
    unfolding R_def assms(6) by (rule split_rows [OF assms(3,1) wf])
  have rows: "tree_rows_ok R" unfolding RP by (rule planted_rows_ok [OF assms(1) wf dl])
  have len: "length R = spec_size spec" unfolding RP by (rule plant_length [OF wf assms(1)])
  have ids: "store_ids_ok s'"
    using split_ids_ok [OF assms(3,1) wf] node_table.ids_ok_distinct unfolding assms(6) store_ids_ok_def by blast
  have load: "load s' ?key = Ok (arena_of R bs)"
    unfolding R_def bs_def by (rule load_ok [OF ids]) (use rows R_def in simp)
  have cons: "consistent C (arena_of R bs) (\<lambda>i. V ! i)"
    by (rule planted_consistent [OF assms(1) wf assms(4) RP V_def])
  have pres: "presents (arena_of R bs) (\<lambda>i. V ! i) raw"
    unfolding presents_def
  proof (intro allI impI)
    fix i assume "i < length (kt_nodes (arena_of R bs))"
    then have i: "i < length R" by simp
    have "w = V ! i" if "raw (n_id (R ! i)) = Some w" for w
    proof -
      from assms(7) that obtain sk where "unwrap_leaf_share C s' (n_id (R ! i)) sk = Ok w" by blast
      then show ?thesis
        using unwrap_planted [OF assms(1,2,3) wf assms(6) _ V_def i] R_def by blast
    qed
    then show "raw (kn_db (kt_nodes (arena_of R bs) ! i)) \<in> {None, Some (V ! i)}"
      using i by (cases "raw (n_id (R ! i))") auto
  qed
  have met0: "met (arena_of R bs) (\<lambda>i. raw i \<noteq> None) 0 \<longleftrightarrow> spec_sat (labels_hold R (\<lambda>i. raw i \<noteq> None)) spec"
  proof (rule planted_met(1) [OF _ _ wf assms(1)])
    show "\<forall>j < length R. n_id (R ! j) = ?b + int j" using planted_ids_nth [OF assms(1) wf] RP by blast
    show "distinct (map n_label R)" using rows by (simp add: tree_rows_ok_def)
    show "laid R 0 (plant_rows C (leaf_key s) ?key None ?b (draws s) secret spec)"
      unfolding RP by (rule laid_whole)
  qed (use len in \<open>simp_all add: below_def closed_off_def\<close>)
  have "0 < length (kt_nodes (arena_of R bs))" using len by simp
  from reconstruct_consistent [OF arena_of_ok(1) [OF rows] cons pres this]
  have "tree_reconstruct C (arena_of R bs) raw =
      Some (if met (arena_of R bs) (\<lambda>i. raw i \<noteq> None) 0 then Ok (V ! 0) else Err QuorumNotMet)"
    by (simp add: tree_reconstruct_def)
  moreover have "V ! 0 = secret" unfolding V_def by (cases spec) auto
  ultimately have "reconstruct C s' ?key raw =
      Some (if spec_sat (labels_hold R (\<lambda>i. raw i \<noteq> None)) spec then Ok secret else Err QuorumNotMet)"
    using load met0 by (simp add: reconstruct_def)
  then show ?thesis using R_def by blast
qed

text \<open>
  C1: A secret split over any valid tree specification comes back. After \<open>split\<close>, take any
  set of leaves whose stored shares were unwrapped with their hardware keys: \<open>reconstruct\<close>
  returns the secret if those leaves satisfy the thresholds of the specification, at every
  level, and \<open>QuorumNotMet\<close> if they do not.
\<close>
theorem split_reconstruct:
  assumes "shamir_ok C" "box_ok C" "tree_store_ok s" "\<not> in_tx s" "secret \<noteq> []"
    and "valid_spec s spec" "bridges_distinct spec"
    and "split C label secret spec s = (r, s')"
    and "\<forall>i w. raw i = Some w \<longrightarrow> (\<exists>sk. unwrap_leaf_share C s' i sk = Ok w)"
  shows "\<exists>key. r = Ok key \<and> reconstruct C s' key raw =
     Some (if spec_sat (labels_hold (key_node_rows s' key) (\<lambda>i. raw i \<noteq> None)) spec
           then Ok secret else Err QuorumNotMet)"
proof -
  have r: "r = Ok (next_rowid (map k_id (key_rows s)))" "s' = split_store C label secret spec s"
    using split_run [OF assms(1,3,6,7,4)] assms(8) by simp_all
  then show ?thesis using split_store_reconstruct [OF assms(1,2,3,5,6) r(2) assms(9)] by blast
qed

subsection \<open>A concrete split\<close>

definition demo_key :: "int \<Rightarrow> u8 \<Rightarrow> hw_row" where
  "demo_key i b = \<lparr> hw_id = i, hw_label = ''k'', hw_type = Encryption, hw_fp = [char_of (unat b)],
     hw_public = replicate 32 b, hw_created = 0, hw_revoked = None \<rparr>"

definition demo_store :: store where
  "demo_store = empty_store\<lparr> hw_rows := [demo_key 1 1, demo_key 2 2] \<rparr>"

definition demo_spec :: node_spec where
  "demo_spec = Split ''root'' 2
     [Leaf ''ann'' 1 [], Split ''dept'' 1 [Leaf ''bob'' 2 [''ann''], Leaf ''cyd'' 2 []] []] []"

lemma demo_ok:
  "tree_store_ok demo_store" "\<not> in_tx demo_store" "valid_spec demo_store demo_spec" "bridges_distinct demo_spec"
  by (simp_all add: tree_store_ok_def node_table.ids_ok_def key_table.ids_ok_def hw.ids_ok_def
      demo_store_def demo_key_def empty_store_def valid_spec_def demo_spec_def bridges_distinct_def
      get_active_encryption_key_def get_key_def is_ok_def)

lemma demo_split:
  "split toy ''vault'' [7] demo_spec demo_store = (Ok 1, split_store toy ''vault'' [7] demo_spec demo_store)"
  using split_run [OF toy_shamir_ok demo_ok(1,3,4,2)]
  by (simp add: demo_store_def empty_store_def next_rowid_def)

lemma toy_take: "take n (toy_shares s) = map (\<lambda>x. word_of_nat x # s) [1..<min 256 (1 + n)]"
  by (simp add: toy_shares_def take_map min_def)

lemma demo_rows:
  "node_rows (split_store toy ''vault'' [7] demo_spec demo_store) =
    [\<lparr> n_id = 1, n_key = 1, n_parent = None, n_label = ''root'', n_threshold = Some 2, n_hw = None,
       n_wrapped = None, n_active = True \<rparr>,
     \<lparr> n_id = 2, n_key = 1, n_parent = Some 1, n_label = ''ann'', n_threshold = None, n_hw = Some 1,
       n_wrapped = Some (replicate 32 1 @ [1, 7]), n_active = True \<rparr>,
     \<lparr> n_id = 3, n_key = 1, n_parent = Some 1, n_label = ''dept'', n_threshold = Some 1, n_hw = None,
       n_wrapped = None, n_active = True \<rparr>,
     \<lparr> n_id = 4, n_key = 1, n_parent = Some 3, n_label = ''bob'', n_threshold = None, n_hw = Some 2,
       n_wrapped = Some (replicate 32 2 @ [1, 2, 7]), n_active = True \<rparr>,
     \<lparr> n_id = 5, n_key = 1, n_parent = Some 3, n_label = ''cyd'', n_threshold = None, n_hw = Some 2,
       n_wrapped = Some (replicate 32 2 @ [2, 2, 7]), n_active = True \<rparr>]"
  by (simp add: split_store_fields demo_store_def demo_spec_def demo_key_def empty_store_def dealt_def
      toy_take next_rowid_def leaf_key_def get_key_def upt_rec)

lemma demo_hw: "hw_rows (split_store toy ''vault'' [7] demo_spec demo_store) = [demo_key 1 1, demo_key 2 2]"
  by (simp add: split_store_fields demo_store_def)

theorem split_reconstruct_witness:
  "reconstruct toy (snd (split toy ''vault'' [7] demo_spec demo_store)) 1 [2 \<mapsto> [1, 7], 4 \<mapsto> [1, 2, 7]]
     = Some (Ok [7])"
proof -
  let ?S = "split_store toy ''vault'' [7] demo_spec demo_store"
  let ?raw = "[2 \<mapsto> [1, 7], 4 \<mapsto> [1, 2, 7 :: u8]] :: int \<rightharpoonup> bytes"
  have "unwrap_leaf_share toy ?S 2 (replicate 32 1) = Ok [1, 7]"
    "unwrap_leaf_share toy ?S 4 (replicate 32 2) = Ok [1, 2, 7]"
    by (simp_all add: unwrap_leaf_share_def node_table.row_of_def demo_rows get_key_def demo_hw demo_key_def)
  then have "\<forall>i w. ?raw i = Some w \<longrightarrow> (\<exists>sk. unwrap_leaf_share toy ?S i sk = Ok w)"
    by (auto split: if_splits)
  from split_reconstruct [OF toy_shamir_ok toy_box_ok demo_ok(1,2) _ demo_ok(3,4) demo_split this]
  obtain key where k: "Ok 1 = (Ok key :: int result)" and rec: "reconstruct toy ?S key ?raw =
      Some (if spec_sat (labels_hold (key_node_rows ?S key) (\<lambda>i. ?raw i \<noteq> None)) demo_spec
            then Ok [7] else Err QuorumNotMet)" by blast
  have key: "key = 1" using k by simp
  have "spec_sat (labels_hold (key_node_rows ?S 1) (\<lambda>i. ?raw i \<noteq> None)) demo_spec"
    unfolding key_node_rows_def demo_rows by (simp add: demo_spec_def labels_hold_def)
  then show ?thesis using rec unfolding key demo_split snd_conv by (simp only: if_True)
qed

end
