(* ===== verification/TreeProps.thy ===== *)
theory TreeProps
  imports TreeRound
begin

text \<open>
  Properties of the tree walks on what the tables hold: termination, the lowest common
  ancestor, the climb from a department, what validation decides and what a failed split
  leaves behind.
\<close>

section \<open>The demonstration arena\<close>

definition demo_split_store :: store where
  "demo_split_store = split_store toy ''vault'' [7] demo_spec demo_store"

definition demo_arena :: key_tree where
  "demo_arena = arena_of (node_rows demo_split_store) [(4, ''ann'')]"

lemma demo_arena_rows_ok: "tree_rows_ok (node_rows demo_split_store)"
  unfolding demo_split_store_def demo_rows by (simp add: tree_rows_ok_def)

lemma demo_arena_length: "length (kt_nodes demo_arena) = 5"
  by (simp add: demo_arena_def demo_split_store_def demo_rows)

lemma demo_arena_ok: "arena_ok demo_arena" "single_root demo_arena"
  unfolding demo_arena_def using demo_arena_rows_ok by (simp_all add: arena_of_ok)

lemma demo_key_rows: "key_node_rows demo_split_store 1 = node_rows demo_split_store"
  by (simp add: key_node_rows_def demo_split_store_def demo_rows)

lemma demo_bridges: "key_bridge_rows demo_split_store 1 = [(4, ''ann'')]"
proof -
  have "bridge_rows demo_split_store = [(4, ''ann'')]"
    by (simp add: demo_split_store_def split_store_def Let_def demo_store_def empty_store_def demo_spec_def next_rowid_def)
  moreover have "\<exists>r \<in> set (node_rows demo_split_store). n_id r = 4 \<and> n_key r = 1"
    unfolding demo_split_store_def demo_rows by simp
  ultimately show ?thesis by (simp add: key_bridge_rows_def)
qed

lemma demo_ids_ok: "store_ids_ok demo_split_store"
  by (simp add: store_ids_ok_def demo_split_store_def demo_rows)

lemma demo_load: "load demo_split_store 1 = Ok demo_arena"
proof -
  have "tree_rows_ok (key_node_rows demo_split_store 1)"
    unfolding demo_key_rows by (rule demo_arena_rows_ok)
  from load_ok [OF demo_ids_ok this] show ?thesis
    unfolding demo_arena_def demo_key_rows demo_bridges .
qed

section \<open>Termination\<close>

text \<open>
  C33: \<open>load\<close> and \<open>reconstruct\<close> return on every well-formed tree, whatever shares are
  presented: the recursion over children reaches the leaves and the fuel never shows.
\<close>
theorem reconstruct_returns:
  assumes "store_ids_ok s" "tree_rows_ok (key_node_rows s key)"
  shows "\<exists>T. load s key = Ok T \<and> (\<exists>r. reconstruct C s key raw = Some r)
           \<and> (\<forall>i. \<exists>r. reconstruct_from C T i raw = Some r)"
proof -
  let ?T = "arena_of (key_node_rows s key) (key_bridge_rows s key)"
  have l: "load s key = Ok ?T" by (rule load_ok [OF assms])
  have ok: "arena_ok ?T" by (rule arena_of_ok(1) [OF assms(2)])
  have all: "\<forall>i. \<exists>r. reconstruct_from C ?T i raw = Some r"
    using reconstruct_from_returns [OF ok] by blast
  then have "\<exists>r. reconstruct C s key raw = Some r"
    using l by (simp add: reconstruct_def tree_reconstruct_def)
  with l all show ?thesis by blast
qed

theorem reconstruct_returns_witness:
  "\<exists>r. reconstruct toy demo_split_store 1 (\<lambda>_. None) = Some r"
proof -
  have "tree_rows_ok (key_node_rows demo_split_store 1)"
    unfolding demo_key_rows by (rule demo_arena_rows_ok)
  from reconstruct_returns [OF demo_ids_ok this, of toy "\<lambda>_. None"] show ?thesis by blast
qed

section \<open>The lowest common ancestor\<close>

text \<open>
  C35: On a tree with one root, \<open>find_lowest_common_ancestor_of\<close> of any nodes returns a
  common ancestor of them that every other common ancestor is above.
\<close>
theorem lca_of_lowest:
  assumes "arena_ok T" "single_root T" "is \<noteq> []" "\<forall>i \<in> set is. i < length (kt_nodes T)"
  shows "\<exists>l. find_lowest_common_ancestor_of T is = Some (Ok l)
           \<and> (\<forall>i \<in> set is. ancestor T l i)
           \<and> (\<forall>c. (\<forall>i \<in> set is. ancestor T c i) \<longrightarrow> ancestor T c l)"
proof -
  obtain i rest where i: "is = i # rest" using assms(3) by (cases "is") auto
  then have "i < length (kt_nodes T)" "\<forall>j \<in> set rest. j < length (kt_nodes T)" using assms(4) by auto
  from lca_fold_correct [OF assms(1,2) this] obtain l where
    l: "lca_fold T i rest = Some (Ok l)" "is_lca T l (set is)" unfolding i by auto
  have "\<forall>c. (\<forall>i \<in> set is. ancestor T c i) \<longrightarrow> ancestor T c l"
  proof (intro allI impI)
    fix c assume c: "\<forall>i \<in> set is. ancestor T c i"
    then have "c < length (kt_nodes T)"
      using ancestor_range [of T c i] assms(1,4) i by simp
    then show "ancestor T c l" using l(2) c unfolding is_lca_def by blast
  qed
  moreover have "\<forall>i \<in> set is. ancestor T l i"
    using l(2) ancestor_refl unfolding is_lca_def by blast
  ultimately show ?thesis using l(1) i by (auto simp: find_lowest_common_ancestor_of_def)
qed

theorem lca_of_lowest_witness:
  "\<exists>l. find_lowest_common_ancestor_of demo_arena [3, 4, 1] = Some (Ok l) \<and> ancestor demo_arena l 3"
  using lca_of_lowest [OF demo_arena_ok, of "[3, 4, 1]"] demo_arena_length by auto

section \<open>Climbing from a department\<close>

text \<open>
  Reconstructing a node first and then climbing to the root gives what reconstructing
  the root gives: from a node whose every ancestor, itself included, the presented leaves can
  resolve, \<open>reconstruct_up_to_root\<close> and \<open>reconstruct\<close> both return the value of the root.
\<close>
theorem up_to_root_agrees:
  assumes "arena_ok T" "single_root T" "leaves_childless T" "consistent C T val" "presents T val raw"
    and "i < length (kt_nodes T)" "\<And>a. ancestor T a i \<Longrightarrow> met T (\<lambda>d. raw d \<noteq> None) a"
  shows "reconstruct_up_to_root C T i raw = Some (Ok (val (kt_root T)))
      \<and> tree_reconstruct C T raw = Some (Ok (val (kt_root T)))"
proof
  show "reconstruct_up_to_root C T i raw = Some (Ok (val (kt_root T)))"
    by (rule up_to_root_consistent [OF assms])
  have "ancestor T (kt_root T) i"
  proof -
    obtain xs where "path T i = xs @ [kt_root T]" using path_last_root [OF assms(1,2,6)] by blast
    then have "kt_root T < length (kt_nodes T) \<and> path T (kt_root T) = [kt_root T]"
      using path_suffix_is_path [OF assms(1,6), of xs "kt_root T" "[]"] by simp
    then show ?thesis
      using ancestor_iff_suffix [OF assms(1) _ assms(6)] \<open>path T i = xs @ [kt_root T]\<close>
      by (auto simp: suffix_def)
  qed
  then have "met T (\<lambda>d. raw d \<noteq> None) (kt_root T)" by (rule assms(7))
  then show "tree_reconstruct C T raw = Some (Ok (val (kt_root T)))"
    using reconstruct_consistent [OF assms(1,4,5)] assms(2)
    by (simp add: tree_reconstruct_def single_root_def)
qed

lemma demo_planted:
  "node_rows demo_split_store = plant_rows toy (leaf_key demo_store) 1 None 1 0 [7] demo_spec"
  by (simp add: demo_split_store_def split_store_fields demo_store_def empty_store_def next_rowid_def)

lemma demo_consistent: "consistent toy demo_arena (\<lambda>i. plant_values toy 0 [7] demo_spec ! i)"
  unfolding demo_arena_def
  by (rule planted_consistent [OF toy_shamir_ok _ _ demo_planted refl]) (simp_all add: demo_spec_def)

lemma demo_values: "plant_values toy 0 [7] demo_spec = [[7], [1, 7], [2, 7], [1, 2, 7], [2, 2, 7]]"
  by (simp add: demo_spec_def dealt_def toy_take upt_rec)

lemma demo_node:
  "kt_nodes demo_arena ! 0 = \<lparr> kn_db = 1, kn_label = ''root'', kn_parent = None, kn_children = [1, 2],
     kn_threshold = Some 2, kn_active = True, kn_hw = None, kn_bridges = {} \<rparr>"
  "kt_nodes demo_arena ! Suc 0 = \<lparr> kn_db = 2, kn_label = ''ann'', kn_parent = Some 0, kn_children = [],
     kn_threshold = None, kn_active = True, kn_hw = Some 1, kn_bridges = {} \<rparr>"
  "kt_nodes demo_arena ! 2 = \<lparr> kn_db = 3, kn_label = ''dept'', kn_parent = Some 0, kn_children = [3, 4],
     kn_threshold = Some 1, kn_active = True, kn_hw = None, kn_bridges = {} \<rparr>"
  "kt_nodes demo_arena ! 3 = \<lparr> kn_db = 4, kn_label = ''bob'', kn_parent = Some 2, kn_children = [],
     kn_threshold = None, kn_active = True, kn_hw = Some 2, kn_bridges = {''ann''} \<rparr>"
  "kt_nodes demo_arena ! 4 = \<lparr> kn_db = 5, kn_label = ''cyd'', kn_parent = Some 2, kn_children = [],
     kn_threshold = None, kn_active = True, kn_hw = Some 2, kn_bridges = {} \<rparr>"
  unfolding demo_arena_def demo_split_store_def demo_rows
  by (simp_all add: arena_nodes_def linked_def node_of_row_def row_index_def i64_as_usize_def upt_rec)

lemma demo_met:
  assumes "P 2" "P 4"
  shows "met demo_arena P 3" "met demo_arena P 2" "met demo_arena P 1" "met demo_arena P 0"
proof -
  show 3: "met demo_arena P 3" and 1: "met demo_arena P 1"
    by (rule met_leaf; simp add: demo_node assms)+
  show 2: "met demo_arena P 2"
    by (rule met_split [where cs = "[3]" and t = 1]) (use 3 in \<open>auto simp: demo_node\<close>)
  show "met demo_arena P 0"
    by (rule met_split [where cs = "[1, 2]" and t = 2]) (use 1 2 in \<open>auto simp: demo_node\<close>)
qed

theorem up_to_root_agrees_witness:
  "reconstruct_up_to_root toy demo_arena 3 [2 \<mapsto> [1, 7], 4 \<mapsto> [1, 2, 7]] = Some (Ok [7])"
proof -
  let ?raw = "[2 \<mapsto> [1, 7], 4 \<mapsto> [1, 2, 7 :: u8]] :: int \<rightharpoonup> bytes"
  let ?val = "\<lambda>i. plant_values toy 0 [7] demo_spec ! i"
  have lt: "i < 5 \<longleftrightarrow> i = 0 \<or> i = 1 \<or> i = 2 \<or> i = 3 \<or> i = 4" for i :: nat by auto
  have lc: "leaves_childless demo_arena"
    unfolding leaves_childless_def demo_arena_length lt by (auto simp: demo_node)
  have pr: "presents demo_arena ?val ?raw"
    unfolding presents_def demo_arena_length lt demo_values by (auto simp: demo_node)
  have anc: "met demo_arena (\<lambda>d. ?raw d \<noteq> None) a" if "ancestor demo_arena a 3" for a
  proof -
    have "a = 3 \<or> a = 2 \<or> a = 0"
      using that ancestor_unfold [of demo_arena a 3] ancestor_unfold [of demo_arena a 2]
        ancestor_unfold [of demo_arena a 0] by (simp add: demo_node)
    moreover have "met demo_arena (\<lambda>d. ?raw d \<noteq> None) 3" "met demo_arena (\<lambda>d. ?raw d \<noteq> None) 2"
      "met demo_arena (\<lambda>d. ?raw d \<noteq> None) 0"
      by (rule demo_met; simp)+
    ultimately show ?thesis by blast
  qed
  have "?val (kt_root demo_arena) = [7]" unfolding demo_values by (simp add: demo_arena_def)
  moreover have "3 < length (kt_nodes demo_arena)" by (simp add: demo_arena_length)
  from up_to_root_agrees [OF demo_arena_ok lc demo_consistent pr this anc]
  have "reconstruct_up_to_root toy demo_arena 3 ?raw = Some (Ok (?val (kt_root demo_arena)))" by blast
  ultimately show ?thesis by (simp only:)
qed

section \<open>Validation and failed splits\<close>

text \<open>
  C36: \<open>validate\<close> accepts exactly the specifications whose splits have between 1 and 255
  children and a threshold between 1 and their number, whose leaves name active encryption
  keys, whose labels are non-empty and distinct, and whose whitelists name other nodes of the
  same tree.
\<close>
theorem validate_decides:
  "(validate s spec = Ok ()) =
     (wf_spec spec \<and> (\<forall>(l, h) \<in> set (spec_leaves spec). \<exists>k. get_active_encryption_key s h = Ok k)
      \<and> distinct (spec_labels spec) \<and> [] \<notin> set (spec_labels spec)
      \<and> (\<forall>(l, ab) \<in> set (spec_bridges spec). \<forall>p \<in> set ab. p \<noteq> l \<and> p \<in> set (spec_labels spec)))"
  unfolding validate_Ok_iff valid_spec_def is_ok_iff by (rule refl)

theorem validate_decides_witness:
  "validate demo_store demo_spec = Ok ()"
  unfolding validate_decides
  using demo_ok(3) unfolding valid_spec_def is_ok_iff .

section \<open>What a split decides\<close>

text \<open>A node whose whitelist repeats a peer cannot be stored; nothing else stops a valid specification.\<close>

lemma insert_bridges_Ok:
  "insert_allowed_bridges i ab s = (Ok (), s') \<Longrightarrow> distinct ab \<and> (\<forall>p \<in> set ab. (i, p) \<notin> set (bridge_rows s))"
  unfolding insert_allowed_bridges_def
proof (induction ab arbitrary: s)
  case (Cons p ab)
  from Cons.prems obtain t where t: "insert_bridge i p s = (Ok (), t)" and rest: "for_each (insert_bridge i) ab t = (Ok (), s')"
    by (auto elim: bind_Ok_elim)
  have "(i, p) \<notin> set (bridge_rows s)" "set (bridge_rows t) = insert (i, p) (set (bridge_rows s))"
    using t by (auto simp: insert_bridge_def split: if_splits)
  then show ?case using Cons.IH [OF rest] by auto
qed simp

lemma split_node_Ok:
  "split_node C key p v spec s = (Ok (), s') \<Longrightarrow> bridges_distinct spec"
  "split_children C key p vs cs s = (Ok (), s') \<Longrightarrow> length vs = length cs \<Longrightarrow> \<forall>c \<in> set cs. bridges_distinct c"
proof (induction C key p v spec and C key p vs cs arbitrary: s s' and s s' rule: split_node_split_children.induct)
  case (1 C key p v l h ab)
  then obtain i t where "insert_allowed_bridges i ab t = (Ok (), s')" by (auto elim!: bind_Ok_elim)
  then show ?case using insert_bridges_Ok by (simp add: bridges_distinct_def)
next
  case (2 C key p v l t cs ab)
  from 2(2) obtain i t1 t2 coin u where b: "insert_allowed_bridges i ab t1 = (Ok (), t2)"
    and len: "length (take (length cs) (shamir_deal C (unat t) v coin)) = length cs"
    and run: "split_children C key (Some i) (take (length cs) (shamir_deal C (unat t) v coin)) cs u = (Ok (), s')"
    by (auto simp: Let_def elim!: bind_Ok_elim split: if_splits)
  have "\<forall>c \<in> set cs. bridges_distinct c" by (rule 2(1) [OF refl _ run len]) (use len in simp)
  then show ?case using insert_bridges_Ok [OF b] by (auto simp: bridges_distinct_def)
next
  case (3 C key p sh shs c cs)
  then show ?case by (auto elim!: bind_Ok_elim)
qed auto

lemma hw_kept: "keeps (\<lambda>u. hw_rows u = h) (insert_node mk)" "keeps (\<lambda>u. hw_rows u = h) (insert_allowed_bridges i ab)"
  "keeps (\<lambda>u. hw_rows u = h) draw"
  unfolding insert_allowed_bridges_def
  by (simp add: keeps_def insert_node_run Let_def, intro keeps_for_each, simp_all add: keeps_def insert_bridge_def)

lemma hw_after: "keeps (\<lambda>u. hw_rows u = hw_rows s) m \<Longrightarrow> m s = (r, t) \<Longrightarrow> hw_rows t = hw_rows s"
  using keepsD [of "\<lambda>u. hw_rows u = hw_rows s" m s] by simp

lemma split_keeps_hw:
  "keeps (\<lambda>u. hw_rows u = hw) (split_node C key p v spec)"
  "keeps (\<lambda>u. hw_rows u = hw) (split_children C key p vs cs)"
proof (induction C key p v spec and C key p vs cs rule: split_node_split_children.induct)
  case (1 C key p v l h ab)
  show ?case unfolding split_node.simps seal_share_def by (intro keeps_intros hw_kept) simp_all
next
  case (2 C key p v l t cs ab)
  let ?sh = "\<lambda>coin. take (length cs) (shamir_deal C (unat t) v coin)"
  have "keeps (\<lambda>u. hw_rows u = hw) (if length (?sh coin) \<noteq> length cs then fail InvalidQuorumThreshold
      else split_children C key (Some i) (?sh coin) cs)" for i coin
    using 2 [OF refl, of coin i] by (cases "length (?sh coin) = length cs") simp_all
  then show ?case unfolding split_node.simps Let_def by (intro keeps_bind hw_kept)
next
  case (3 C key p sh shs c cs)
  then show ?case unfolding split_children.simps by (intro keeps_bind)
qed (simp_all add: keeps_def ret_def)

lemma insert_fails:
  "insert_node mk s = (Err e, s') \<Longrightarrow> e = Db ConstraintViolation"
  "insert_allowed_bridges i ab s = (Err e, s') \<Longrightarrow> e = Db ConstraintViolation"
proof -
  show "insert_node mk s = (Err e, s') \<Longrightarrow> e = Db ConstraintViolation"
    by (auto simp: insert_node_run Let_def split: if_splits)
  show "insert_allowed_bridges i ab s = (Err e, s') \<Longrightarrow> e = Db ConstraintViolation"
    unfolding insert_allowed_bridges_def
    by (induction ab arbitrary: s) (auto simp: insert_bridge_def bind_def split: if_splits prod.splits sum.splits)
qed

definition sealable :: "store \<Rightarrow> node_spec \<Rightarrow> bool" where
  "sealable s spec \<longleftrightarrow> wf_spec spec \<and> leaves_active s spec \<and> (\<forall>r \<in> set (hw_rows s). length (hw_public r) = 32)"

lemma sealable_cong: "hw_rows t = hw_rows s \<Longrightarrow> sealable t = sealable s"
  using active_key_cong [of t s] by (simp add: sealable_def leaves_active_def fun_eq_iff)

lemma validate_cong:
  assumes "hw_rows t = hw_rows s" shows "validate t spec = validate s spec"
proof -
  have "validate_node s c n = validate_node t c n" "validate_nodes s cs n = validate_nodes t cs n" for c cs n
    using assms
    by (induction s c n and s cs n rule: validate_node_validate_nodes.induct)
       (auto simp: active_key_cong [of t] and_then_def split: sum.split)
  then show ?thesis by (simp add: validate_def)
qed

lemma bind_Err_elim:
  assumes "bind m f s = (Err e, t)"
  obtains "m s = (Err e, t)" | a u where "m s = (Ok a, u)" "f a u = (Err e, t)"
  using assms by (auto simp: bind_def split: prod.splits sum.splits)

lemma split_node_Err:
  "split_node C key p v spec s = (Err e, s') \<Longrightarrow> shamir_ok C \<Longrightarrow> sealable s spec \<Longrightarrow> e = Db ConstraintViolation"
  "split_children C key p vs cs s = (Err e, s') \<Longrightarrow> shamir_ok C \<Longrightarrow> \<forall>c \<in> set cs. sealable s c \<Longrightarrow> e = Db ConstraintViolation"
proof (induction C key p v spec and C key p vs cs arbitrary: s s' and s s' rule: split_node_split_children.induct)
  case (1 C key p v l h ab)
  obtain hk where hk: "get_active_encryption_key s h = Ok hk"
    using 1(3) by (auto simp: sealable_def leaves_active_def is_ok_iff)
  then have "hk \<in> set (hw_rows s)" by (auto simp: get_active_encryption_key_Ok_iff dest: get_keyD)
  then have "length (hw_public hk) = 32" using 1(3) by (simp add: sealable_def)
  with 1(1) hk show ?case
    by (auto simp: seal_share_def bind_run elim!: bind_Err_elim dest: insert_fails split: prod.splits sum.splits)
next
  case (2 C key p v l t cs ab)
  let ?sh = "\<lambda>coin. take (length cs) (shamir_deal C (unat t) v coin)"
  have wf: "t \<noteq> 0" "length cs \<le> 255" using 2(4) by (simp_all add: sealable_def)
  have len: "length (?sh coin) = length cs" for coin
    using dealt_length [OF 2(3) wf, of v coin] by (simp add: dealt_def)
  show ?case
    using 2(2) unfolding split_node.simps
  proof (elim bind_Err_elim)
    fix i u assume i: "insert_node (\<lambda>i. \<lparr> n_id = i, n_key = key, n_parent = p, n_label = l,
             n_threshold = Some (int (unat t)), n_hw = None, n_wrapped = None, n_active = True \<rparr>) s = (Ok i, u)"
    fix a u2 coin u3 assume b: "insert_allowed_bridges i ab u = (Ok a, u2)" and c: "draw u2 = (Ok coin, u3)"
      and run: "(let shares = ?sh coin in if length shares \<noteq> length cs then fail InvalidQuorumThreshold
         else split_children C key (Some i) shares cs) u3 = (Err e, s')"
    have "hw_rows u3 = hw_rows s"
      using hw_after [OF hw_kept(1) i] hw_after [OF hw_kept(2) b] hw_after [OF hw_kept(3) c] by simp
    then have "\<forall>c \<in> set cs. sealable u3 c"
      using 2(4) sealable_cong [of u3 s] by (auto simp: sealable_def leaves_active_def)
    moreover have "split_children C key (Some i) (?sh coin) cs u3 = (Err e, s')" using run len by (simp add: Let_def)
    ultimately show ?thesis using 2(1) [OF refl] len 2(3) by simp
  qed (auto dest: insert_fails simp: draw_def)
next
  case (3 C key p sh shs c cs)
  show ?case
    using 3(3) unfolding split_children.simps
  proof (cases rule: bind_Err_elim)
    case 1
    then show ?thesis using 3(1) 3(4,5) by simp
  next
    case (2 a u)
    have "hw_rows u = hw_rows s" by (rule hw_after [OF split_keeps_hw(1) 2(1)])
    then show ?thesis using 3(2) [OF 2(2) 3(4)] 3(5) sealable_cong [of u s] by simp
  qed
qed auto

lemma split_refused:
  assumes "validate s spec = Err e" "\<not> in_tx s"
  shows "split C label secret spec s = (Err e, s)"
proof -
  have "validate (s\<lparr>in_tx := True\<rparr>) spec = Err e" using assms(1) validate_cong [of "s\<lparr>in_tx := True\<rparr>" s] by simp
  then show ?thesis
    using assms(2) by (simp add: split_def transaction_def run_tx_def build_tree_def bind_run rollback_def)
qed

text \<open>The nodes of a specification in the order they are stored, each with its threshold or its hardware key.\<close>

fun spec_shape :: "node_spec \<Rightarrow> (string \<times> int option \<times> int option) list" where
  "spec_shape (Leaf l h ab) = [(l, None, Some h)]"
| "spec_shape (Split l t cs ab) = (l, Some (int (unat t)), None) # concat (map spec_shape cs)"

lemma plant_shape:
  "wf_spec spec \<Longrightarrow> shamir_ok C \<Longrightarrow>
     map (\<lambda>r. (n_label r, n_threshold r, n_hw r)) (plant_rows C pk key p b d v spec) = spec_shape spec"
  "\<forall>c \<in> set cs. wf_spec c \<Longrightarrow> shamir_ok C \<Longrightarrow> length vs = length cs \<Longrightarrow>
     map (\<lambda>r. (n_label r, n_threshold r, n_hw r)) (plant_forest C pk key p b d vs cs) = concat (map spec_shape cs)"
proof (induction C pk key p b d v spec and C pk key p b d vs cs rule: plant_rows_plant_forest.induct)
  case (2 C pk key p b d v l t cs ab)
  then show ?case using dealt_length [of C t cs v d] by simp
qed simp_all

definition bridges_of :: "node_row list \<Rightarrow> (string \<times> string list) list \<Rightarrow> (int \<times> string) list" where
  "bridges_of rows bridges = concat (map (\<lambda>(r, _, peers). map (Pair (n_id r)) peers) (zip rows bridges))"

lemma bridges_of_simps [simp]:
  "bridges_of [] [] = []"
  "bridges_of (r # rows) ((l, peers) # bs) = map (Pair (n_id r)) peers @ bridges_of rows bs"
  "length rows = length bs \<Longrightarrow> bridges_of (rows @ rows') (bs @ bs') = bridges_of rows bs @ bridges_of rows' bs'"
  by (simp_all add: bridges_of_def)

lemma spec_bridges_length: "length (spec_bridges spec) = spec_size spec"
  by (induction spec) (simp_all add: length_concat o_def cong: map_cong)

lemma plant_bridges_of:
  "wf_spec spec \<Longrightarrow> shamir_ok C \<Longrightarrow>
     plant_bridges b spec = bridges_of (plant_rows C pk key p b d v spec) (spec_bridges spec)"
  "\<forall>c \<in> set cs. wf_spec c \<Longrightarrow> shamir_ok C \<Longrightarrow> length vs = length cs \<Longrightarrow>
     forest_bridges b cs = bridges_of (plant_forest C pk key p b d vs cs) (concat (map spec_bridges cs))"
proof (induction C pk key p b d v spec and C pk key p b d vs cs rule: plant_rows_plant_forest.induct)
  case (2 C pk key p b d v l t cs ab)
  then show ?case using dealt_length [of C t cs v d] by simp
next
  case (3 C pk key p b d v vs c cs)
  then show ?case by (simp add: plant_length spec_bridges_length)
qed simp_all

lemma split_stored:
  assumes "shamir_ok C" "tree_store_ok s" "\<not> in_tx s" "valid_spec s spec" "bridges_distinct spec"
  shows "\<exists>key rows bs n. split C label secret spec s = (Ok key,
      s\<lparr>key_rows := key_rows s @ [\<lparr> k_id = key, k_label = label, k_generation = 1 \<rparr>],
        node_rows := node_rows s @ rows, bridge_rows := bridge_rows s @ bs, draws := draws s + n\<rparr>)
    \<and> key \<notin> k_id ` set (key_rows s) \<and> map (\<lambda>r. (n_label r, n_threshold r, n_hw r)) rows = spec_shape spec
    \<and> (\<forall>r \<in> set rows. n_key r = key \<and> n_active r \<and> n_id r \<notin> n_id ` set (node_rows s))
    \<and> bs = bridges_of rows (spec_bridges spec) \<and> n = spec_size spec"
proof -
  let ?key = "next_rowid (map k_id (key_rows s))" and ?b = "next_rowid (map n_id (node_rows s))"
  let ?rows = "plant_rows C (leaf_key s) ?key None ?b (draws s) secret spec"
  have "split C label secret spec s = (Ok ?key, split_store C label secret spec s)"
    by (rule split_run [OF assms(1,2,4,5,3)])
  moreover have "split_store C label secret spec s = s\<lparr>key_rows := key_rows s @ [\<lparr> k_id = ?key, k_label = label, k_generation = 1 \<rparr>],
      node_rows := node_rows s @ ?rows, bridge_rows := bridge_rows s @ plant_bridges ?b spec, draws := draws s + spec_size spec\<rparr>"
    by (simp add: split_store_def grow_def Let_def)
  moreover have wf: "wf_spec spec" using assms(4) by (simp add: valid_spec_def)
  moreover have "n_id r \<notin> n_id ` set (node_rows s)" if "r \<in> set ?rows" for r
  proof -
    have "n_id r \<in> set (map n_id ?rows)" using that by simp
    then have "?b \<le> n_id r" unfolding plant_ids(1) [OF wf assms(1)] by simp
    then show ?thesis using next_rowid_greater [of "n_id r" "map n_id (node_rows s)"] by auto
  qed
  ultimately show ?thesis
    using next_rowid_fresh [of "map k_id (key_rows s)"] plant_shape(1) [OF wf assms(1)] plant_fields(1)
      plant_bridges_of(1) [OF wf assms(1)]
    by (intro exI [of _ ?key] exI [of _ ?rows] exI [of _ "plant_bridges ?b spec"] exI [of _ "spec_size spec"]) auto
qed

lemma split_violates:
  assumes "shamir_ok C" "tree_store_ok s" "\<not> in_tx s" "valid_spec s spec" "\<not> bridges_distinct spec"
  shows "\<exists>s'. split C label secret spec s = (Err (Db ConstraintViolation), s') \<and> same_tables s s'"
proof -
  obtain x t where body: "build_tree C label secret spec (s\<lparr>in_tx := True\<rparr>) = (x, t)" by fastforce
  have "validate (s\<lparr>in_tx := True\<rparr>) spec = Ok ()"
    using assms(4) validate_Ok_iff validate_cong [of "s\<lparr>in_tx := True\<rparr>" s] by simp
  then obtain key t1 y t2 where k: "split_node C key None secret spec t1 = (y, t2)" "hw_rows t1 = hw_rows s"
    and y: "x = (case y of Err e \<Rightarrow> Err e | Ok _ \<Rightarrow> Ok key)"
    using body by (auto simp: build_tree_def bind_run insert_key_row_run Let_def split: prod.splits sum.splits)
  have "sealable t1 spec"
    using assms(2,4) sealable_cong [OF k(2)]
    by (simp add: sealable_def valid_spec_def leaves_active_def tree_store_ok_def)
  then have "x = Err (Db ConstraintViolation)"
    using split_node_Ok(1) [of C key None secret spec t1 t2] split_node_Err(1) [of C key None secret spec t1 _ t2] k(1) y assms(1,5)
    by (cases y) auto
  then have "split C label secret spec s = (Err (Db ConstraintViolation), rollback s t)"
    using body assms(3) by (simp add: split_def transaction_def run_tx_def)
  then show ?thesis by simp
qed

text \<open>
  C25: \<open>split\<close> decides on the specification alone. One that \<open>validate\<close> refuses is refused with the
  same error, and nothing at all has changed. A valid one in which a node lists a peer twice ends in a
  constraint violation, and every table is as it was, whatever had been inserted by then. Any other
  is stored: the result is the id of a new key, at generation 1; appended are its row, one new active
  node row for each node of the specification, in its order, with the node's label and its threshold
  or hardware key, and one whitelist row for each peer a node lists; each node takes one draw and no
  other table changes.
\<close>
theorem split_decides:
  assumes "shamir_ok C" "tree_store_ok s" "\<not> in_tx s"
  shows "case validate s spec of
      Err e \<Rightarrow> split C label secret spec s = (Err e, s)
    | Ok _ \<Rightarrow>
        if bridges_distinct spec
        then \<exists>key rows bs n. split C label secret spec s = (Ok key,
              s\<lparr>key_rows := key_rows s @ [\<lparr> k_id = key, k_label = label, k_generation = 1 \<rparr>],
                node_rows := node_rows s @ rows, bridge_rows := bridge_rows s @ bs, draws := draws s + n\<rparr>)
            \<and> key \<notin> k_id ` set (key_rows s) \<and> map (\<lambda>r. (n_label r, n_threshold r, n_hw r)) rows = spec_shape spec
            \<and> (\<forall>r \<in> set rows. n_key r = key \<and> n_active r \<and> n_id r \<notin> n_id ` set (node_rows s))
            \<and> bs = bridges_of rows (spec_bridges spec) \<and> n = spec_size spec
        else \<exists>s'. split C label secret spec s = (Err (Db ConstraintViolation), s') \<and> same_tables s s'"
proof (cases "validate s spec")
  case (Inl e)
  then show ?thesis using split_refused [OF Inl assms(3)] by simp
next
  case (Inr u)
  then have val: "valid_spec s spec" by (simp add: validate_Ok_iff)
  show ?thesis
    unfolding Inr sum.case
    using split_stored [OF assms val] split_violates [OF assms val] by (cases "bridges_distinct spec") simp_all
qed

text \<open>
  \<open>validate\<close> accepts a specification in which a node lists the same peer twice, and the second
  whitelist row violates the primary key: the whole split fails with a database error.
\<close>
theorem split_decides_witness:
  "split toy ''v'' [7] (Split ''r'' 3 [Leaf ''a'' 1 []] []) demo_store = (Err InvalidQuorumThreshold, demo_store)
   \<and> (\<exists>s'. split toy ''v'' [7] (Split ''r'' 1 [Leaf ''a'' 1 [''b'', ''b''], Leaf ''b'' 2 []] []) demo_store
        = (Err (Db ConstraintViolation), s') \<and> same_tables demo_store s')
   \<and> (\<exists>key s'. split toy ''v'' [7] demo_spec demo_store = (Ok key, s')
        \<and> map (\<lambda>r. (n_label r, n_threshold r, n_hw r)) (node_rows s') = spec_shape demo_spec)"
proof (intro conjI)
  note dec = split_decides [OF toy_shamir_ok demo_ok(1,2), where label = "''v''" and secret = "[7]"]
  have "validate demo_store (Split ''r'' 3 [Leaf ''a'' 1 []] []) = Err InvalidQuorumThreshold" by (simp add: validate_def)
  then show "split toy ''v'' [7] (Split ''r'' 3 [Leaf ''a'' 1 []] []) demo_store = (Err InvalidQuorumThreshold, demo_store)"
    using dec [of "Split ''r'' 3 [Leaf ''a'' 1 []] []"] by simp
  let ?dup = "Split ''r'' 1 [Leaf ''a'' 1 [''b'', ''b''], Leaf ''b'' 2 []] []"
  have "validate demo_store ?dup = Ok ()"
    by (simp add: validate_def demo_store_def get_active_encryption_key_def get_key_def demo_key_def)
  moreover have "\<not> bridges_distinct ?dup" by (simp add: bridges_distinct_def)
  ultimately show "\<exists>s'. split toy ''v'' [7] ?dup demo_store = (Err (Db ConstraintViolation), s') \<and> same_tables demo_store s'"
    using dec [of ?dup] by simp
  have "validate demo_store demo_spec = Ok ()" using demo_ok(3) by (simp add: validate_Ok_iff)
  then obtain key rows s' where "split toy ''v'' [7] demo_spec demo_store = (Ok key, s')"
    "node_rows s' = node_rows demo_store @ rows" "map (\<lambda>r. (n_label r, n_threshold r, n_hw r)) rows = spec_shape demo_spec"
    using dec [of demo_spec] demo_ok(4) by auto
  moreover have "node_rows demo_store = []" by (simp add: demo_store_def empty_store_def)
  ultimately show "\<exists>key s'. split toy ''v'' [7] demo_spec demo_store = (Ok key, s')
      \<and> map (\<lambda>r. (n_label r, n_threshold r, n_hw r)) (node_rows s') = spec_shape demo_spec" by simp
qed

end
