(* ===== verification/TreeBridges.thy ===== *)
theory TreeBridges
  imports TreeProps "HOL-Library.Product_Lexorder"
begin

text \<open>
  The whitelist and the established pairings of \<open>src/key_tree.rs\<close>: \<open>allow_bridge\<close>,
  \<open>deny_bridge\<close>, \<open>add_bridge\<close>, \<open>remove_bridge\<close>, \<open>list_bridges\<close>, the binding helpers and
  the deletion of a node's bindings, with the invariant they keep: a pairing is an ordered
  pair of two nodes of one tree that the whitelist of one of them allows.
\<close>

section \<open>Operations\<close>

definition node_row_for_label :: "store \<Rightarrow> int \<Rightarrow> string \<Rightarrow> node_row option" where
  "node_row_for_label s key l = find (\<lambda>r. n_key r = key \<and> n_label r = l) (node_rows s)"

definition node_id_for_label :: "store \<Rightarrow> int \<Rightarrow> string \<Rightarrow> int result" where
  "node_id_for_label s key l = ok_or NodeNotFound (map_option n_id (node_row_for_label s key l))"

definition ordered_pair :: "int \<Rightarrow> int \<Rightarrow> (int \<times> int) result" where
  "ordered_pair a b = (if a = b then Err InvalidBridge else if a < b then Ok (a, b) else Ok (b, a))"

text \<open>\<open>INSERT OR IGNORE\<close>: a row that is there already is left alone.\<close>

definition put_bridge :: "int \<Rightarrow> string \<Rightarrow> (store, unit) op" where
  "put_bridge i p = modify (\<lambda>s. if (i, p) \<in> set (bridge_rows s) then s
     else s\<lparr>bridge_rows := bridge_rows s @ [(i, p)]\<rparr>)"

definition put_link :: "int \<Rightarrow> int \<Rightarrow> (store, unit) op" where
  "put_link a b = modify (\<lambda>s. if (a, b) \<in> set (link_rows s) then s
     else s\<lparr>link_rows := link_rows s @ [(a, b)]\<rparr>)"

definition allow_bridge :: "int \<Rightarrow> string \<Rightarrow> string \<Rightarrow> (store, unit) op" where
  "allow_bridge key node peer =
     (if node = peer then fail InvalidBridge
      else bind (asks (\<lambda>s. node_id_for_label s key node)) (\<lambda>i.
           bind (asks (\<lambda>s. node_id_for_label s key peer)) (\<lambda>_. put_bridge i peer)))"

definition deny_bridge :: "int \<Rightarrow> string \<Rightarrow> string \<Rightarrow> (store, unit) op" where
  "deny_bridge key node peer =
     bind (asks (\<lambda>s. node_id_for_label s key node)) (\<lambda>i.
     bind (asks (\<lambda>s. node_id_for_label s key peer)) (\<lambda>j.
     bind (modify (\<lambda>s. s\<lparr>bridge_rows :=
             filter (\<lambda>r. r \<noteq> (i, peer) \<and> r \<noteq> (j, node)) (bridge_rows s)\<rparr>)) (\<lambda>_.
     case ordered_pair i j of
       Ok pr \<Rightarrow> modify (\<lambda>s. s\<lparr>link_rows := filter (\<lambda>r. r \<noteq> pr) (link_rows s)\<rparr>)
     | Err _ \<Rightarrow> ret ())))"

definition add_bridge :: "int \<Rightarrow> string \<Rightarrow> string \<Rightarrow> (store, unit) op" where
  "add_bridge key from_label to_label =
     bind (asks (\<lambda>s. load s key)) (\<lambda>T.
     bind (lift_result (index_by_label T from_label)) (\<lambda>a.
     bind (lift_result (index_by_label T to_label)) (\<lambda>b.
     if a = b then fail InvalidBridge
     else let na = kt_nodes T ! a; nb = kt_nodes T ! b in
       if \<not> (to_label \<in> kn_bridges na \<or> from_label \<in> kn_bridges nb) then fail BridgeNotWhitelisted
       else bind (lift_result (ordered_pair (kn_db na) (kn_db nb))) (\<lambda>(lo, hi). put_link lo hi))))"

definition remove_bridge :: "int \<Rightarrow> string \<Rightarrow> string \<Rightarrow> (store, unit) op" where
  "remove_bridge key from_label to_label =
     bind (asks (\<lambda>s. node_id_for_label s key from_label)) (\<lambda>a.
     bind (asks (\<lambda>s. node_id_for_label s key to_label)) (\<lambda>b.
     bind (lift_result (ordered_pair a b)) (\<lambda>pr.
     (\<lambda>s. if pr \<in> set (link_rows s)
          then (Ok (), s\<lparr>link_rows := filter (\<lambda>r. r \<noteq> pr) (link_rows s)\<rparr>)
          else (Err BridgeNotFound, s)))))"

definition list_allowed :: "store \<Rightarrow> int \<Rightarrow> (string \<times> string) list" where
  "list_allowed s key = sort (concat (map (\<lambda>(i, p).
     map (\<lambda>r. (n_label r, p)) (filter (\<lambda>r. n_id r = i \<and> n_key r = key) (node_rows s))) (bridge_rows s)))"

definition list_established :: "store \<Rightarrow> int \<Rightarrow> (string \<times> string) list" where
  "list_established s key = sort (concat (map (\<lambda>(x, y).
     concat (map (\<lambda>a. map (\<lambda>b. (n_label a, n_label b))
        (filter (\<lambda>r. n_id r = y \<and> n_key r = key) (node_rows s)))
        (filter (\<lambda>r. n_id r = x \<and> n_key r = key) (node_rows s)))) (link_rows s)))"

definition list_bridges :: "store \<Rightarrow> int \<Rightarrow> (string \<times> string) list \<times> (string \<times> string) list" where
  "list_bridges s key = (list_allowed s key, list_established s key)"

definition bind_pair :: "int \<Rightarrow> string \<Rightarrow> string \<Rightarrow> (store, unit) op" where
  "bind_pair key a b =
     bind (allow_bridge key a b) (\<lambda>_. bind (allow_bridge key b a) (\<lambda>_. add_bridge key a b))"

definition active_leaf :: "key_tree \<Rightarrow> nat \<Rightarrow> bool" where
  "active_leaf T c \<longleftrightarrow> kn_active (kt_nodes T ! c) \<and> kn_hw (kt_nodes T ! c) \<noteq> None"

definition bind_leaf_to_active_siblings :: "int \<Rightarrow> string \<Rightarrow> (store, unit) op" where
  "bind_leaf_to_active_siblings key leaf =
     bind (asks (\<lambda>s. load s key)) (\<lambda>T.
     bind (lift_result (index_by_label T leaf)) (\<lambda>i.
     bind (lift_result (ok_or InvalidBridge (kn_parent (kt_nodes T ! i)))) (\<lambda>p.
     for_each (\<lambda>c. bind_pair key leaf (kn_label (kt_nodes T ! c)))
       (filter (\<lambda>c. c \<noteq> i \<and> active_leaf T c) (kn_children (kt_nodes T ! p))))))"

text \<open>Every pair of positions \<open>i < j\<close> of a list, in the order of the two nested loops.\<close>

fun all_pairs :: "'a list \<Rightarrow> ('a \<times> 'a) list" where
  "all_pairs [] = []"
| "all_pairs (x # xs) = map (Pair x) xs @ all_pairs xs"

definition bind_all_sibling_leaf_pairs :: "int \<Rightarrow> (store, unit) op" where
  "bind_all_sibling_leaf_pairs key =
     bind (asks (\<lambda>s. load s key)) (\<lambda>T.
     for_each (\<lambda>(a, b). bind_pair key a b)
       (concat (map (\<lambda>n. if kn_threshold n = None then []
                         else all_pairs (map (\<lambda>c. kn_label (kt_nodes T ! c))
                                (filter (active_leaf T) (kn_children n)))) (kt_nodes T))))"

definition delete_node_bindings :: "int \<Rightarrow> int \<Rightarrow> (store, unit) op" where
  "delete_node_bindings key i =
     bind (asks (\<lambda>s. query_row (find (\<lambda>r. n_id r = i \<and> n_key r = key) (node_rows s)))) (\<lambda>r.
     modify (\<lambda>s. s\<lparr>
       link_rows := filter (\<lambda>(a, b). \<not> (a = i \<or> b = i)) (link_rows s),
       bridge_rows := filter (\<lambda>(j, p). \<not> (j = i \<or>
           (p = n_label r \<and> (\<exists>q \<in> set (node_rows s). n_id q = j \<and> n_key q = key)))) (bridge_rows s)\<rparr>))"

text \<open>\<open>ORDER BY key_id, id\<close>: a stable sort of the scan by key.\<close>

definition active_leaves_for_hardware :: "store \<Rightarrow> int \<Rightarrow> node_row list" where
  "active_leaves_for_hardware s h =
     sort_key n_key (filter (\<lambda>r. n_hw r = Some h \<and> n_active r) (node_rows s))"

definition drop_bindings_for_hardware :: "int \<Rightarrow> (store, node_row list) op" where
  "drop_bindings_for_hardware h =
     bind (asks (\<lambda>s. Ok (active_leaves_for_hardware s h))) (\<lambda>leaves.
     bind (for_each (\<lambda>r. delete_node_bindings (n_key r) (n_id r)) leaves) (\<lambda>_. ret leaves))"

section \<open>The invariant\<close>

definition link_allowed :: "store \<Rightarrow> int \<Rightarrow> int \<Rightarrow> bool" where
  "link_allowed s a b \<longleftrightarrow> a < b \<and> (\<exists>ra \<in> set (node_rows s). \<exists>rb \<in> set (node_rows s).
     n_id ra = a \<and> n_id rb = b \<and> n_key ra = n_key rb
     \<and> ((a, n_label rb) \<in> set (bridge_rows s) \<or> (b, n_label ra) \<in> set (bridge_rows s)))"

definition labels_unique :: "store \<Rightarrow> bool" where
  "labels_unique s \<longleftrightarrow> (\<forall>r \<in> set (node_rows s). \<forall>r' \<in> set (node_rows s).
     n_key r = n_key r' \<and> n_label r = n_label r' \<longrightarrow> r = r')"

definition bridge_inv :: "store \<Rightarrow> bool" where
  "bridge_inv s \<longleftrightarrow> store_ids_ok s \<and> labels_unique s
     \<and> distinct (bridge_rows s) \<and> distinct (link_rows s)
     \<and> (\<forall>(i, p) \<in> set (bridge_rows s). i \<in> n_id ` set (node_rows s))
     \<and> (\<forall>(a, b) \<in> set (link_rows s). link_allowed s a b)"

lemma ids_unique:
  "store_ids_ok s \<Longrightarrow> r \<in> set (node_rows s) \<Longrightarrow> r' \<in> set (node_rows s) \<Longrightarrow> n_id r = n_id r' \<Longrightarrow> r = r'"
  by (auto simp: store_ids_ok_def distinct_map dest: inj_onD)

lemma node_id_for_label_OkD:
  assumes "node_id_for_label s key l = Ok i"
  obtains r where "r \<in> set (node_rows s)" "n_key r = key" "n_label r = l" "n_id r = i"
proof -
  from assms obtain r where "node_row_for_label s key l = Some r" "n_id r = i"
    unfolding node_id_for_label_def ok_or_Ok_iff map_option_eq_Some by blast
  then show ?thesis
    using find_SomeD [of "\<lambda>r. n_key r = key \<and> n_label r = l" "node_rows s" r] that
    unfolding node_row_for_label_def by blast
qed

lemma labels_uniqueD:
  "labels_unique s \<Longrightarrow> r \<in> set (node_rows s) \<Longrightarrow> r' \<in> set (node_rows s)
    \<Longrightarrow> n_key r = n_key r' \<Longrightarrow> n_label r = n_label r' \<Longrightarrow> r = r'"
  by (simp add: labels_unique_def)

lemma ordered_pair_OkD: "ordered_pair a b = Ok (x, y) \<Longrightarrow> x < y \<and> {x, y} = {a, b}"
  by (auto simp: ordered_pair_def split: if_splits)

lemma takeWhile_shorter: "\<exists>x \<in> set xs. \<not> P x \<Longrightarrow> length (takeWhile P xs) < length xs"
  by (induction xs) auto

lemma label_map_nth:
  assumes "label_map rows l = Some i"
  shows "i < length rows \<and> n_label (rows ! i) = l"
proof -
  from assms have "\<exists>r \<in> set rows. n_label r = l" and i: "i = length (takeWhile (\<lambda>r. n_label r \<noteq> l) rows)"
    by (auto simp: label_map_def split: if_splits)
  then have "i < length rows" using takeWhile_shorter [of rows "\<lambda>r. n_label r \<noteq> l"] by simp
  then show ?thesis using nth_length_takeWhile [of "\<lambda>r. n_label r \<noteq> l" rows] i by simp
qed

text \<open>What an index found by label stands for.\<close>

lemma index_by_label_row:
  assumes "load s key = Ok T" "store_ids_ok s" "index_by_label T l = Ok i"
  obtains r where "r \<in> set (node_rows s)" "n_key r = key" "n_label r = l"
    "kn_db (kt_nodes T ! i) = n_id r" "kn_bridges (kt_nodes T ! i) = {p. (n_id r, p) \<in> set (bridge_rows s)}"
    "r = key_node_rows s key ! i" "i < length (key_node_rows s key)"
proof -
  let ?rows = "key_node_rows s key"
  have "label_map ?rows l = Some i"
    using assms(3) load_OkD(2) [OF assms(1,2)] by (simp add: index_by_label_def)
  then have i: "i < length ?rows" "n_label (?rows ! i) = l" using label_map_nth by blast+
  then have "?rows ! i \<in> set ?rows" by simp
  then have r: "?rows ! i \<in> set (node_rows s)" "n_key (?rows ! i) = key" by (auto simp: key_node_rows_def)
  have "(n_id (?rows ! i), p) \<in> set (key_bridge_rows s key) \<longleftrightarrow> (n_id (?rows ! i), p) \<in> set (bridge_rows s)" for p
    using r by (auto simp: key_bridge_rows_def)
  then have "kn_bridges (kt_nodes T ! i) = {p. (n_id (?rows ! i), p) \<in> set (bridge_rows s)}"
    using load_OkD(1) [OF assms(1,2)] i by simp
  moreover have "kn_db (kt_nodes T ! i) = n_id (?rows ! i)" using load_OkD(1) [OF assms(1,2)] i by simp
  ultimately show ?thesis using that [of "?rows ! i"] r i by blast
qed

subsection \<open>Every operation keeps it\<close>

lemma put_bridge_inv:
  assumes "bridge_inv s" "i \<in> n_id ` set (node_rows s)"
  shows "bridge_inv (snd (put_bridge i p s))"
proof (cases "(i, p) \<in> set (bridge_rows s)")
  case False
  have "link_allowed (s\<lparr>bridge_rows := bridge_rows s @ [(i, p)]\<rparr>) a b" if "link_allowed s a b" for a b
    using that unfolding link_allowed_def by auto
  then show ?thesis
    using assms False by (auto simp: put_bridge_def bridge_inv_def store_ids_ok_def labels_unique_def)
qed (use assms in \<open>simp add: put_bridge_def\<close>)

lemma put_link_inv:
  assumes "bridge_inv s" "link_allowed s a b"
  shows "bridge_inv (snd (put_link a b s))"
proof (cases "(a, b) \<in> set (link_rows s)")
  case False
  have "link_allowed (s\<lparr>link_rows := l\<rparr>) x y = link_allowed s x y" for l x y
    by (simp add: link_allowed_def)
  then show ?thesis
    using assms False by (auto simp: put_link_def bridge_inv_def store_ids_ok_def labels_unique_def)
qed (use assms in \<open>simp add: put_link_def\<close>)

lemma drop_links_inv:
  assumes "bridge_inv s"
  shows "bridge_inv (s\<lparr>link_rows := filter P (link_rows s)\<rparr>)"
proof -
  have "link_allowed (s\<lparr>link_rows := l\<rparr>) x y = link_allowed s x y" for l x y
    by (simp add: link_allowed_def)
  then show ?thesis
    using assms by (auto simp: bridge_inv_def store_ids_ok_def labels_unique_def)
qed

lemma allow_bridge_inv: "keeps bridge_inv (allow_bridge key a b)"
proof (rule keepsI)
  fix s assume inv: "bridge_inv s"
  show "bridge_inv (snd (allow_bridge key a b s))"
  proof (cases "a = b \<or> is_ok (node_id_for_label s key a) = False \<or> is_ok (node_id_for_label s key b) = False")
    case True
    then show ?thesis
      using inv by (auto simp: allow_bridge_def bind_run is_ok_def split: sum.splits)
  next
    case False
    then obtain i j where ij: "node_id_for_label s key a = Ok i" "node_id_for_label s key b = Ok j"
      by (auto simp: is_ok_iff)
    from ij(1) obtain r where "r \<in> set (node_rows s)" "n_id r = i" by (rule node_id_for_label_OkD)
    then have "i \<in> n_id ` set (node_rows s)" by blast
    then show ?thesis
      using put_bridge_inv [OF inv, of i b] False ij by (simp add: allow_bridge_def)
  qed
qed

lemma add_bridge_inv: "keeps bridge_inv (add_bridge key a b)"
proof (rule keepsI)
  fix s assume inv: "bridge_inv s"
  then have ids: "store_ids_ok s" by (simp add: bridge_inv_def)
  show "bridge_inv (snd (add_bridge key a b s))"
  proof (cases "add_bridge key a b s")
    case (Pair res s')
    show ?thesis
    proof (cases "s' = s")
      case False
      then obtain T i j lo hi where T: "load s key = Ok T" "index_by_label T a = Ok i" "index_by_label T b = Ok j"
        and w: "b \<in> kn_bridges (kt_nodes T ! i) \<or> a \<in> kn_bridges (kt_nodes T ! j)"
        and p: "ordered_pair (kn_db (kt_nodes T ! i)) (kn_db (kt_nodes T ! j)) = Ok (lo, hi)"
        and s': "(res, s') = put_link lo hi s"
        using Pair by (auto simp: add_bridge_def bind_run Let_def split: sum.splits if_splits)
      obtain ra where ra: "ra \<in> set (node_rows s)" "n_key ra = key" "n_label ra = a"
          "kn_db (kt_nodes T ! i) = n_id ra" "kn_bridges (kt_nodes T ! i) = {p. (n_id ra, p) \<in> set (bridge_rows s)}"
        by (rule index_by_label_row [OF T(1) ids T(2)])
      obtain rb where rb: "rb \<in> set (node_rows s)" "n_key rb = key" "n_label rb = b"
          "kn_db (kt_nodes T ! j) = n_id rb" "kn_bridges (kt_nodes T ! j) = {p. (n_id rb, p) \<in> set (bridge_rows s)}"
        by (rule index_by_label_row [OF T(1) ids T(3)])
      have "lo < hi" "{lo, hi} = {n_id ra, n_id rb}" using ordered_pair_OkD [OF p] ra(4) rb(4) by simp_all
      then consider "lo = n_id ra" "hi = n_id rb" | "lo = n_id rb" "hi = n_id ra"
        by (auto simp: doubleton_eq_iff)
      then have "link_allowed s lo hi"
        using \<open>lo < hi\<close> ra rb w unfolding link_allowed_def by cases fastforce+
      from put_link_inv [OF inv this] s' Pair show ?thesis by (metis snd_conv)
    qed (use inv Pair in simp)
  qed
qed

lemma remove_bridge_inv: "keeps bridge_inv (remove_bridge key a b)"
  unfolding remove_bridge_def
  by (intro keeps_intros keepsI) (auto intro: drop_links_inv)

text \<open>
  Dropping whitelist rows keeps the invariant when every pairing that loses its support goes
  too. \<open>deny_bridge\<close> and \<open>delete_node_bindings\<close> are both of this form.
\<close>

lemma drop_bridges_inv:
  assumes inv: "bridge_inv s"
    and sup: "\<And>a b ra rb. (a, b) \<in> set (link_rows s) \<Longrightarrow> Q (a, b)
       \<Longrightarrow> ra \<in> set (node_rows s) \<Longrightarrow> rb \<in> set (node_rows s) \<Longrightarrow> n_id ra = a \<Longrightarrow> n_id rb = b
       \<Longrightarrow> n_key ra = n_key rb
       \<Longrightarrow> ((a, n_label rb) \<in> set (bridge_rows s) \<longrightarrow> P (a, n_label rb))
         \<and> ((b, n_label ra) \<in> set (bridge_rows s) \<longrightarrow> P (b, n_label ra))"
  shows "bridge_inv (s\<lparr>link_rows := filter Q (link_rows s), bridge_rows := filter P (bridge_rows s)\<rparr>)"
proof -
  let ?t = "s\<lparr>link_rows := filter Q (link_rows s), bridge_rows := filter P (bridge_rows s)\<rparr>"
  have "link_allowed ?t a b" if l: "(a, b) \<in> set (link_rows s)" "Q (a, b)" for a b
  proof -
    from inv l(1) have "link_allowed s a b" by (auto simp: bridge_inv_def)
    then obtain ra rb where r: "ra \<in> set (node_rows s)" "rb \<in> set (node_rows s)" "n_id ra = a" "n_id rb = b"
        "n_key ra = n_key rb" "a < b"
        "(a, n_label rb) \<in> set (bridge_rows s) \<or> (b, n_label ra) \<in> set (bridge_rows s)"
      unfolding link_allowed_def by blast
    have sp: "((a, n_label rb) \<in> set (bridge_rows s) \<longrightarrow> P (a, n_label rb))
        \<and> ((b, n_label ra) \<in> set (bridge_rows s) \<longrightarrow> P (b, n_label ra))"
      by (rule sup [OF l r(1,2,3,4,5)])
    have "(a, n_label rb) \<in> set (bridge_rows ?t) \<or> (b, n_label ra) \<in> set (bridge_rows ?t)"
      using r(7) by (elim disjE) (use sp in auto)
    moreover have "ra \<in> set (node_rows ?t)" "rb \<in> set (node_rows ?t)" using r(1,2) by simp_all
    ultimately show ?thesis using r(3-6) unfolding link_allowed_def by blast
  qed
  then show ?thesis
    using inv by (auto simp: bridge_inv_def store_ids_ok_def labels_unique_def)
qed

lemma deny_bridge_run:
  assumes "node_id_for_label s key node = Ok i" "node_id_for_label s key peer = Ok j"
  shows "deny_bridge key node peer s = (Ok (),
    s\<lparr>link_rows := filter (\<lambda>r. r \<noteq> (min i j, max i j) \<or> i = j) (link_rows s),
      bridge_rows := filter (\<lambda>r. r \<noteq> (i, peer) \<and> r \<noteq> (j, node)) (bridge_rows s)\<rparr>)"
  using assms by (auto simp: deny_bridge_def ordered_pair_def min_def max_def)

lemma deny_bridge_inv: "keeps bridge_inv (deny_bridge key node peer)"
proof (rule keepsI)
  fix s assume inv: "bridge_inv s"
  then have ids: "store_ids_ok s" and lu: "labels_unique s" by (simp_all add: bridge_inv_def)
  show "bridge_inv (snd (deny_bridge key node peer s))"
  proof (cases "is_ok (node_id_for_label s key node) \<and> is_ok (node_id_for_label s key peer)")
    case False
    then show ?thesis using inv by (auto simp: deny_bridge_def bind_run is_ok_def split: sum.splits)
  next
    case True
    then obtain i j where ij: "node_id_for_label s key node = Ok i" "node_id_for_label s key peer = Ok j"
      by (auto simp: is_ok_iff)
    obtain ri where ri: "ri \<in> set (node_rows s)" "n_key ri = key" "n_label ri = node" "n_id ri = i"
      using ij(1) by (rule node_id_for_label_OkD)
    obtain rj where rj: "rj \<in> set (node_rows s)" "n_key rj = key" "n_label rj = peer" "n_id rj = j"
      using ij(2) by (rule node_id_for_label_OkD)
    have "bridge_inv (s\<lparr>link_rows := filter (\<lambda>r. r \<noteq> (min i j, max i j) \<or> i = j) (link_rows s),
      bridge_rows := filter (\<lambda>r. r \<noteq> (i, peer) \<and> r \<noteq> (j, node)) (bridge_rows s)\<rparr>)"
    proof (rule drop_bridges_inv [OF inv])
      fix a b ra rb
      assume l: "(a, b) \<in> set (link_rows s)" "(a, b) \<noteq> (min i j, max i j) \<or> i = j"
        and r: "ra \<in> set (node_rows s)" "rb \<in> set (node_rows s)" "n_id ra = a" "n_id rb = b" "n_key ra = n_key rb"
      have lt: "a < b" using inv l(1) by (auto simp: bridge_inv_def link_allowed_def)
      have eq: "{a, b} = {i, j}"
        if "(n_id x, n_label y) = (i, peer) \<or> (n_id x, n_label y) = (j, node)" "{x, y} = {ra, rb}" for x y
      proof -
        have x: "x \<in> set (node_rows s)" "y \<in> set (node_rows s)" "n_key x = n_key y" "{n_id x, n_id y} = {a, b}"
          using that(2) r by (auto simp: doubleton_eq_iff)
        from that(1) show ?thesis
        proof
          assume "(n_id x, n_label y) = (i, peer)"
          then have "x = ri" "n_label y = n_label rj" using ids_unique [OF ids x(1) ri(1)] ri rj by auto
          then have "y = rj" using lu x ri rj unfolding labels_unique_def by metis
          then show ?thesis using \<open>x = ri\<close> x(4) ri rj by auto
        next
          assume "(n_id x, n_label y) = (j, node)"
          then have "x = rj" "n_label y = n_label ri" using ids_unique [OF ids x(1) rj(1)] ri rj by auto
          then have "y = ri" using lu x ri rj unfolding labels_unique_def by metis
          then show ?thesis using \<open>x = rj\<close> x(4) ri rj by auto
        qed
      qed
      have "{a, b} \<noteq> {i, j}"
      proof
        assume e: "{a, b} = {i, j}"
        then have "i \<noteq> j" using lt by (auto simp: doubleton_eq_iff)
        moreover have "(a, b) = (min i j, max i j)" using e lt by (auto simp: doubleton_eq_iff)
        ultimately show False using l(2) by blast
      qed
      then show "((a, n_label rb) \<in> set (bridge_rows s) \<longrightarrow> (a, n_label rb) \<noteq> (i, peer) \<and> (a, n_label rb) \<noteq> (j, node))
         \<and> ((b, n_label ra) \<in> set (bridge_rows s) \<longrightarrow> (b, n_label ra) \<noteq> (i, peer) \<and> (b, n_label ra) \<noteq> (j, node))"
        using eq [of ra rb] eq [of rb ra] r(3,4) by (metis insert_commute)
    qed
    then show ?thesis using deny_bridge_run [OF ij] by simp
  qed
qed

lemma delete_node_bindings_inv: "keeps bridge_inv (delete_node_bindings key i)"
proof (rule keepsI)
  fix s assume inv: "bridge_inv s"
  then have ids: "store_ids_ok s" and lu: "labels_unique s" by (simp_all add: bridge_inv_def)
  show "bridge_inv (snd (delete_node_bindings key i s))"
  proof (cases "find (\<lambda>r. n_id r = i \<and> n_key r = key) (node_rows s)")
    case None
    then show ?thesis using inv by (simp add: delete_node_bindings_def bind_run)
  next
    case (Some r)
    then have r: "r \<in> set (node_rows s)" "n_id r = i" "n_key r = key"
      using find_SomeD [of "\<lambda>r. n_id r = i \<and> n_key r = key"] by blast+
    let ?P = "\<lambda>(j, p). \<not> (j = i \<or> (p = n_label r \<and> (\<exists>q \<in> set (node_rows s). n_id q = j \<and> n_key q = key)))"
    let ?Q = "\<lambda>(a, b). \<not> (a = i \<or> b = i)"
    have "bridge_inv (s\<lparr>link_rows := filter ?Q (link_rows s), bridge_rows := filter ?P (bridge_rows s)\<rparr>)"
    proof (rule drop_bridges_inv [OF inv])
      fix a b ra rb
      assume l: "?Q (a, b)"
        and rr: "ra \<in> set (node_rows s)" "rb \<in> set (node_rows s)" "n_id ra = a" "n_id rb = b" "n_key ra = n_key rb"
      have cross: "?P (n_id x, n_label y)" if xy: "{x, y} = {ra, rb}" for x y
      proof -
        have y: "x \<in> set (node_rows s)" "y \<in> set (node_rows s)" "n_key x = n_key y" "n_id y \<noteq> i" "n_id x \<noteq> i"
          using xy rr l by (auto simp: doubleton_eq_iff)
        have "n_label y \<noteq> n_label r" if "n_key x = key"
        proof
          assume "n_label y = n_label r"
          then have "y = r" using lu y(2,3) r that unfolding labels_unique_def by metis
          then show False using y(4) r(2) by simp
        qed
        moreover have "q = x" if "q \<in> set (node_rows s)" "n_id q = n_id x" for q
          using ids_unique [OF ids that(1) y(1) that(2)] .
        ultimately show ?thesis using y(5) by auto
      qed
      have c1: "?P (n_id ra, n_label rb)" by (rule cross) (rule refl)
      have c2: "?P (n_id rb, n_label ra)" by (rule cross) (rule insert_commute)
      show "((a, n_label rb) \<in> set (bridge_rows s) \<longrightarrow> ?P (a, n_label rb))
         \<and> ((b, n_label ra) \<in> set (bridge_rows s) \<longrightarrow> ?P (b, n_label ra))"
        using c1 c2 unfolding rr(3,4) by (intro conjI impI)
    qed
    then show ?thesis using Some by (simp add: delete_node_bindings_def)
  qed
qed

lemma bind_pair_inv: "keeps bridge_inv (bind_pair key a b)"
  unfolding bind_pair_def by (intro keeps_bind allow_bridge_inv add_bridge_inv)

lemma bind_leaf_inv: "keeps bridge_inv (bind_leaf_to_active_siblings key l)"
  unfolding bind_leaf_to_active_siblings_def
  by (intro keeps_bind keeps_asks keeps_lift keeps_for_each bind_pair_inv)

lemma bind_all_inv: "keeps bridge_inv (bind_all_sibling_leaf_pairs key)"
  unfolding bind_all_sibling_leaf_pairs_def
  by (intro keeps_bind keeps_asks keeps_for_each) (auto intro: bind_pair_inv)

lemma drop_hardware_inv: "keeps bridge_inv (drop_bindings_for_hardware h)"
  unfolding drop_bindings_for_hardware_def
  by (intro keeps_bind keeps_asks keeps_ret keeps_for_each delete_node_bindings_inv)


subsection \<open>Any sequence of bridge commands\<close>

datatype bridge_cmd = Allow string string | Deny string string | Add string string
  | Remove string string | BindPair string string | BindSiblings string | BindAll
  | DropNode int | DropHardware int

fun bridge_op :: "int \<Rightarrow> bridge_cmd \<Rightarrow> (store, unit) op" where
  "bridge_op key (Allow a b) = allow_bridge key a b"
| "bridge_op key (Deny a b) = deny_bridge key a b"
| "bridge_op key (Add a b) = add_bridge key a b"
| "bridge_op key (Remove a b) = remove_bridge key a b"
| "bridge_op key (BindPair a b) = bind_pair key a b"
| "bridge_op key (BindSiblings l) = bind_leaf_to_active_siblings key l"
| "bridge_op key BindAll = bind_all_sibling_leaf_pairs key"
| "bridge_op key (DropNode i) = delete_node_bindings key i"
| "bridge_op key (DropHardware h) = bind (drop_bindings_for_hardware h) (\<lambda>_. ret ())"

text \<open>The stores a sequence of commands can lead to, whether each succeeds or fails.\<close>

inductive bridge_reach :: "store \<Rightarrow> store \<Rightarrow> bool" for s0 where
  start: "bridge_reach s0 s0"
| cmd: "bridge_reach s0 s \<Longrightarrow> bridge_reach s0 (snd (bridge_op key c s))"

lemma bridge_op_inv: "keeps bridge_inv (bridge_op key c)"
  by (cases c) (simp_all add: allow_bridge_inv deny_bridge_inv add_bridge_inv remove_bridge_inv bind_pair_inv
      bind_leaf_inv bind_all_inv delete_node_bindings_inv drop_hardware_inv keeps_bind)

lemma bridge_reach_inv: "bridge_reach s0 s \<Longrightarrow> bridge_inv s0 \<Longrightarrow> bridge_inv s"
  by (induction rule: bridge_reach.induct) (auto intro: keepsD [OF bridge_op_inv])

lemma list_allowed_iff:
  "(l, p) \<in> set (list_allowed s key) \<longleftrightarrow>
     (\<exists>r \<in> set (node_rows s). n_key r = key \<and> n_label r = l \<and> (n_id r, p) \<in> set (bridge_rows s))"
  by (auto simp: list_allowed_def)

lemma list_established_iff:
  "(l, p) \<in> set (list_established s key) \<longleftrightarrow>
     (\<exists>a \<in> set (node_rows s). \<exists>b \<in> set (node_rows s). n_key a = key \<and> n_key b = key
       \<and> n_label a = l \<and> n_label b = p \<and> (n_id a, n_id b) \<in> set (link_rows s))"
  by (auto simp: list_established_def image_iff split: prod.splits) blast

lemma established_backed:
  assumes inv: "bridge_inv s" and e: "(a, b) \<in> set (list_established s key)"
  shows "((a, b) \<in> set (list_allowed s key) \<or> (b, a) \<in> set (list_allowed s key)) \<and> a \<noteq> b"
proof -
  from inv have ids: "store_ids_ok s" by (simp add: bridge_inv_def)
  from e obtain ra rb where r: "ra \<in> set (node_rows s)" "rb \<in> set (node_rows s)" "n_key ra = key" "n_key rb = key"
      "n_label ra = a" "n_label rb = b" "(n_id ra, n_id rb) \<in> set (link_rows s)"
    unfolding list_established_iff by blast
  then have "link_allowed s (n_id ra) (n_id rb)" using inv by (auto simp: bridge_inv_def)
  then obtain xa xb where x: "n_id ra < n_id rb" "xa \<in> set (node_rows s)" "xb \<in> set (node_rows s)"
      "n_id xa = n_id ra" "n_id xb = n_id rb"
      "(n_id ra, n_label xb) \<in> set (bridge_rows s) \<or> (n_id rb, n_label xa) \<in> set (bridge_rows s)"
    unfolding link_allowed_def by blast
  then have "xa = ra" "xb = rb" using ids_unique [OF ids] r(1,2) by blast+
  then have "(n_id ra, b) \<in> set (bridge_rows s) \<or> (n_id rb, a) \<in> set (bridge_rows s)" using x(6) r(5,6) by simp
  then have "(a, b) \<in> set (list_allowed s key) \<or> (b, a) \<in> set (list_allowed s key)"
    unfolding list_allowed_iff using r by blast
  moreover have "a \<noteq> b"
  proof
    assume "a = b"
    then have "ra = rb" using inv r(1-6) by (auto simp: bridge_inv_def labels_unique_def)
    then show False using x(1) by simp
  qed
  ultimately show ?thesis by simp
qed


text \<open>
  C26: Whatever sequence of bridge commands runs, failing ones included, every pairing that
  \<open>list_bridges\<close> then reports as established is one it reports as allowed, by the
  whitelist of one of the two nodes, and no node is paired with itself.
\<close>
theorem established_allowed:
  assumes "bridge_inv s0" "bridge_reach s0 s" "list_bridges s key = (allowed, established)"
    and "(a, b) \<in> set established"
  shows "((a, b) \<in> set allowed \<or> (b, a) \<in> set allowed) \<and> a \<noteq> b"
proof -
  have "list_allowed s key = allowed" "list_established s key = established"
    using assms(3) by (simp_all add: list_bridges_def)
  then show ?thesis
    using established_backed [OF bridge_reach_inv [OF assms(2,1)], of a b key] assms(4) by simp
qed

text \<open>The loaded tree does not hold the pairings.\<close>

lemma load_link_rows: "load (s\<lparr>link_rows := l\<rparr>) key = load s key"
proof -
  have "key_node_rows (s\<lparr>link_rows := l\<rparr>) key = key_node_rows s key"
    "key_bridge_rows (s\<lparr>link_rows := l\<rparr>) key = key_bridge_rows s key"
    by (simp_all add: key_node_rows_def key_bridge_rows_def)
  then show ?thesis unfolding load_def by (simp only:)
qed

definition pair_store :: store where
  "pair_store = demo_store\<lparr>node_rows :=
     [node_row.make 1 1 None ''root'' (Some 2) None None True,
      node_row.make 2 1 (Some 1) ''ann'' None (Some 1) (Some []) True,
      node_row.make 3 1 (Some 1) ''bob'' None (Some 2) (Some []) True]\<rparr>"

lemma pair_store_rows:
  "key_node_rows pair_store 1 = node_rows pair_store" "bridge_rows pair_store = []" "link_rows pair_store = []"
  by (simp_all add: pair_store_def key_node_rows_def node_row.defs demo_store_def empty_store_def)

lemma pair_store_inv: "bridge_inv pair_store"
  unfolding bridge_inv_def pair_store_rows
  by (simp add: store_ids_ok_def labels_unique_def) (simp add: pair_store_def node_row.defs)

lemma pair_load:
  "load pair_store 1 = Ok (arena_of (node_rows pair_store) [])"
proof -
  have "tree_rows_ok (key_node_rows pair_store 1)"
    unfolding pair_store_rows by (simp add: tree_rows_ok_def pair_store_def node_row.defs)
  moreover have "store_ids_ok pair_store" using pair_store_inv by (simp add: bridge_inv_def)
  moreover have "key_bridge_rows pair_store 1 = []" by (simp add: key_bridge_rows_def pair_store_rows)
  ultimately show ?thesis using load_ok [of pair_store 1] by (simp add: pair_store_rows)
qed

text \<open>The tree does not lose its shape when whitelist rows change.\<close>

lemma load_bridge_rows:
  assumes "load s key = Ok T" "store_ids_ok s"
  shows "\<exists>T'. load (s\<lparr>bridge_rows := bs\<rparr>) key = Ok T' \<and> kt_by_label T' = kt_by_label T"
proof -
  let ?s = "s\<lparr>bridge_rows := bs\<rparr>" and ?rows = "key_node_rows s key"
  have rows: "key_node_rows ?s key = ?rows" by (simp add: key_node_rows_def)
  have ids: "store_ids_ok ?s" using assms(2) by (simp add: store_ids_ok_def)
  have ne: "?rows \<noteq> []" using assms(1) by (auto simp: load_def Let_def)
  then obtain labels dbs nodes ns where
    l: "load_nodes 0 ?rows (\<lambda>_. None) (\<lambda>_. None) [] = Ok (labels, dbs, nodes)"
    and k: "link_parents 0 ?rows dbs nodes = Ok ns"
    using assms(1) by (auto simp: load_def Let_def and_then_Ok_iff)
  have d: "distinct (map n_id ?rows)" by (rule key_rows_distinct [OF assms(2)])
  have dl: "distinct (map n_label ?rows)" using load_OkD(4) [OF assms] .
  have dbs: "dbs = db_map ?rows"
    using l load_nodes_run [OF dl d, of "\<lambda>_. None" 0 "\<lambda>_. None" "[]"]
    by (simp add: db_map_def [abs_def] cong: if_cong)
  have par: "\<forall>r \<in> set ?rows. \<forall>q. n_parent r = Some q \<longrightarrow> q \<in> n_id ` set ?rows"
    using link_parents_known [OF k] unfolding dbs db_map_def by (metis (no_types, lifting))
  note e = load_eq [OF d ne dl par]
  from assms(1) [unfolded e] obtain root where
    root: "find (\<lambda>i. kn_parent (arena_nodes ?rows (key_bridge_rows s key) ! i) = None) [0..<length ?rows] = Some root"
    by (auto simp: and_then_Ok_iff)
  have "find (\<lambda>i. kn_parent (arena_nodes ?rows (key_bridge_rows ?s key) ! i) = None) [0..<length ?rows] = Some root"
    unfolding root [symmetric] by (rule find_cong) auto
  moreover have "key_node_rows ?s key \<noteq> []" using ne rows by simp
  ultimately obtain T' where T': "load ?s key = Ok T'"
    using load_eq [of ?s key] d ne dl par unfolding rows by auto
  then have "kt_by_label T' = label_map ?rows" using load_OkD(2) [OF T' ids] rows by simp
  then show ?thesis using T' load_OkD(2) [OF assms] by simp
qed

lemma index_of_row:
  assumes "load s key = Ok T" "bridge_inv s" "r \<in> set (node_rows s)" "n_key r = key"
  obtains i where "index_by_label T (n_label r) = Ok i" "kn_db (kt_nodes T ! i) = n_id r"
    "kn_bridges (kt_nodes T ! i) = {p. (n_id r, p) \<in> set (bridge_rows s)}"
proof -
  from assms(2) have ids: "store_ids_ok s" and lu: "labels_unique s" by (simp_all add: bridge_inv_def)
  have "r \<in> set (key_node_rows s key)" using assms(3,4) by (simp add: key_node_rows_def)
  then have "n_label r \<in> n_label ` set (key_node_rows s key)" by (rule imageI)
  then have "label_map (key_node_rows s key) (n_label r) \<noteq> None" unfolding label_map_def by simp
  then obtain i where i: "index_by_label T (n_label r) = Ok i"
    unfolding index_by_label_def load_OkD(2) [OF assms(1) ids] ok_or_Ok_iff by blast
  then obtain r' where r': "r' \<in> set (node_rows s)" "n_key r' = key" "n_label r' = n_label r"
      "kn_db (kt_nodes T ! i) = n_id r'" "kn_bridges (kt_nodes T ! i) = {p. (n_id r', p) \<in> set (bridge_rows s)}"
    by (rule index_by_label_row [OF assms(1) ids])
  have "r' = r" by (rule labels_uniqueD [OF lu r'(1) assms(3)]) (simp_all add: r'(2,3) assms(4))
  show thesis
    by (rule that [OF i]) (use r'(4,5) \<open>r' = r\<close> in \<open>simp_all only:\<close>)
qed

lemma node_id_of_row:
  assumes "bridge_inv s" "r \<in> set (node_rows s)" "n_key r = key"
  shows "node_id_for_label s key (n_label r) = Ok (n_id r)"
proof -
  from assms(1) have lu: "labels_unique s" by (simp add: bridge_inv_def)
  have "find (\<lambda>x. n_key x = key \<and> n_label x = n_label r) (node_rows s) = Some r"
  proof (rule ccontr)
    assume n: "find (\<lambda>x. n_key x = key \<and> n_label x = n_label r) (node_rows s) \<noteq> Some r"
    show False
    proof (cases "find (\<lambda>x. n_key x = key \<and> n_label x = n_label r) (node_rows s)")
      case None
      then show False using assms(2,3) unfolding find_None_iff_all by blast
    next
      case (Some x)
      then have xr: "x \<in> set (node_rows s) \<and> n_key x = key \<and> n_label x = n_label r" by (rule find_SomeD)
      have x: "x = r" by (rule labels_uniqueD [OF lu _ assms(2)]) (simp_all add: xr assms(3))
      from Some [unfolded x] n show False by contradiction
    qed
  qed
  then show ?thesis by (simp add: node_id_for_label_def node_row_for_label_def)
qed

lemma add_bridge_run:
  assumes "load s key = Ok T" "bridge_inv s" "ra \<in> set (node_rows s)" "rb \<in> set (node_rows s)"
    "n_key ra = key" "n_key rb = key" "ra \<noteq> rb"
  shows "add_bridge key (n_label ra) (n_label rb) s =
    (if (n_id ra, n_label rb) \<in> set (bridge_rows s) \<or> (n_id rb, n_label ra) \<in> set (bridge_rows s)
     then put_link (min (n_id ra) (n_id rb)) (max (n_id ra) (n_id rb)) s else (Err BridgeNotWhitelisted, s))"
proof -
  from assms(2) have ids: "store_ids_ok s" by (simp add: bridge_inv_def)
  obtain i where i: "index_by_label T (n_label ra) = Ok i" "kn_db (kt_nodes T ! i) = n_id ra"
      "kn_bridges (kt_nodes T ! i) = {p. (n_id ra, p) \<in> set (bridge_rows s)}"
    by (rule index_of_row [OF assms(1,2,3,5)])
  obtain j where j: "index_by_label T (n_label rb) = Ok j" "kn_db (kt_nodes T ! j) = n_id rb"
      "kn_bridges (kt_nodes T ! j) = {p. (n_id rb, p) \<in> set (bridge_rows s)}"
    by (rule index_of_row [OF assms(1,2,4,6)])
  have ne: "n_id ra \<noteq> n_id rb" using ids_unique [OF ids assms(3,4)] assms(7) by blast
  then have "i \<noteq> j" using i(2) j(2) by auto
  then show ?thesis
    using assms(1) i j ne by (simp add: add_bridge_def Let_def ordered_pair_def min_def max_def)
qed

lemma put_bridge_run:
  "put_bridge i p s = (Ok (), s\<lparr>bridge_rows := (if (i, p) \<in> set (bridge_rows s) then bridge_rows s
     else bridge_rows s @ [(i, p)])\<rparr>)"
  by (simp add: put_bridge_def)

lemma allow_bridge_run:
  assumes "bridge_inv s" "ra \<in> set (node_rows s)" "rb \<in> set (node_rows s)"
    "n_key ra = key" "n_key rb = key" "n_label ra \<noteq> n_label rb"
  shows "allow_bridge key (n_label ra) (n_label rb) s = put_bridge (n_id ra) (n_label rb) s"
  using assms node_id_of_row [OF assms(1,2,4)] node_id_of_row [OF assms(1,3,5)]
  by (simp add: allow_bridge_def)

lemma bind_pair_run:
  assumes "load s key = Ok T" "bridge_inv s" "ra \<in> set (node_rows s)" "rb \<in> set (node_rows s)"
    "n_key ra = key" "n_key rb = key" "n_label ra \<noteq> n_label rb"
  shows "\<exists>s'. bind_pair key (n_label ra) (n_label rb) s = (Ok (), s') \<and> node_rows s' = node_rows s
     \<and> set (bridge_rows s') = insert (n_id ra, n_label rb) (insert (n_id rb, n_label ra) (set (bridge_rows s)))
     \<and> set (link_rows s') = insert (min (n_id ra) (n_id rb), max (n_id ra) (n_id rb)) (set (link_rows s))"
proof -
  from assms(2) have ids: "store_ids_ok s" by (simp add: bridge_inv_def)
  obtain s1 where s1: "put_bridge (n_id ra) (n_label rb) s = (Ok (), s1)" by (simp add: put_bridge_run)
  obtain s2 where s2: "put_bridge (n_id rb) (n_label ra) s1 = (Ok (), s2)" by (simp add: put_bridge_run)
  have i1: "bridge_inv s1" using put_bridge_inv [OF assms(2), of "n_id ra" "n_label rb"] assms(3) s1 by simp
  have n1: "node_rows s1 = node_rows s" using s1 by (auto simp: put_bridge_run)
  have i2: "bridge_inv s2" using put_bridge_inv [OF i1, of "n_id rb" "n_label ra"] assms(4) s2 n1 by simp
  have 2: "node_rows s2 = node_rows s" "link_rows s2 = link_rows s"
      "set (bridge_rows s2) = insert (n_id ra, n_label rb) (insert (n_id rb, n_label ra) (set (bridge_rows s)))"
    using s1 s2 by (auto simp: put_bridge_run split: if_splits)
  have "s2 = s\<lparr>bridge_rows := bridge_rows s2\<rparr>" using s1 s2 by (auto simp: put_bridge_run)
  then obtain T' where T': "load s2 key = Ok T'" using load_bridge_rows [OF assms(1) ids, of "bridge_rows s2"] by auto
  have "ra \<noteq> rb" using assms(7) by auto
  then have add: "add_bridge key (n_label ra) (n_label rb) s2 = put_link (min (n_id ra) (n_id rb)) (max (n_id ra) (n_id rb)) s2"
    using add_bridge_run [OF T' i2, of ra rb] assms 2 by simp
  have a1: "allow_bridge key (n_label ra) (n_label rb) s = (Ok (), s1)"
    using allow_bridge_run [OF assms(2-7)] s1 by simp
  have a2: "allow_bridge key (n_label rb) (n_label ra) s1 = (Ok (), s2)"
    using allow_bridge_run [OF i1, of rb ra] assms n1 s2 by simp
  have "bind_pair key (n_label ra) (n_label rb) s
      = put_link (min (n_id ra) (n_id rb)) (max (n_id ra) (n_id rb)) s2"
    using a1 a2 add by (simp add: bind_pair_def)
  then show ?thesis using 2 by (auto simp: put_link_def)
qed

lemma pair_rows_mem:
  "node_row.make 2 1 (Some 1) ''ann'' None (Some 1) (Some []) True \<in> set (node_rows pair_store)"
  "node_row.make 3 1 (Some 1) ''bob'' None (Some 2) (Some []) True \<in> set (node_rows pair_store)"
  by (simp_all add: pair_store_def)

lemma pair_bound:
  "\<exists>s'. bind_pair 1 ''ann'' ''bob'' pair_store = (Ok (), s') \<and> (''ann'', ''bob'') \<in> set (list_established s' 1)"
proof -
  note r = bind_pair_run [OF pair_load pair_store_inv pair_rows_mem]
  have "n_label (node_row.make 2 1 (Some 1) ''ann'' None (Some 1) (Some []) True) \<noteq>
        n_label (node_row.make 3 1 (Some 1) ''bob'' None (Some 2) (Some []) True)"
    by (simp add: node_row.defs)
  from r [OF _ _ this] obtain s' where s': "bind_pair 1 ''ann'' ''bob'' pair_store = (Ok (), s')"
      "node_rows s' = node_rows pair_store" "(2, 3) \<in> set (link_rows s')"
    by (auto simp: node_row.defs min_def max_def)
  have "(''ann'', ''bob'') \<in> set (list_established s' 1)"
    unfolding list_established_iff s'(2)
    by (rule bexI [OF _ pair_rows_mem(1)], rule bexI [OF _ pair_rows_mem(2)]) (use s'(3) in \<open>simp add: node_row.defs\<close>)
  with s'(1) show ?thesis by blast
qed

theorem established_allowed_witness:
  "\<exists>s. bridge_reach pair_store s \<and> (''ann'', ''bob'') \<in> set (list_established s 1)
     \<and> ((''ann'', ''bob'') \<in> set (list_allowed s 1) \<or> (''bob'', ''ann'') \<in> set (list_allowed s 1))"
proof -
  obtain s' where s': "bind_pair 1 ''ann'' ''bob'' pair_store = (Ok (), s')"
      "(''ann'', ''bob'') \<in> set (list_established s' 1)" using pair_bound by blast
  have "bridge_reach pair_store s'"
    using bridge_reach.cmd [OF bridge_reach.start, of pair_store 1 "BindPair ''ann'' ''bob''"] s'(1) by simp
  with established_allowed [OF pair_store_inv this list_bridges_def s'(2)] s'(2) show ?thesis by blast
qed

text \<open>
  Binding two nodes of a tree whitelists each for the other and establishes their
  pairing, and nothing else changes in what the listing reports of the whitelist.
\<close>
theorem bind_pair_establishes:
  assumes "bridge_inv s" "load s key = Ok T" "ra \<in> set (node_rows s)" "rb \<in> set (node_rows s)"
    "n_key ra = key" "n_key rb = key" "n_label ra = a" "n_label rb = b" "a \<noteq> b"
  shows "\<exists>s'. bind_pair key a b s = (Ok (), s')
     \<and> set (list_allowed s' key) = {(a, b), (b, a)} \<union> set (list_allowed s key)
     \<and> ((a, b) \<in> set (list_established s' key) \<or> (b, a) \<in> set (list_established s' key))
     \<and> bridge_inv s'"
proof -
  have ids: "store_ids_ok s" using assms(1) by (simp add: bridge_inv_def)
  obtain s' where s': "bind_pair key a b s = (Ok (), s')" "node_rows s' = node_rows s"
      "set (bridge_rows s') = insert (n_id ra, b) (insert (n_id rb, a) (set (bridge_rows s)))"
      "set (link_rows s') = insert (min (n_id ra) (n_id rb), max (n_id ra) (n_id rb)) (set (link_rows s))"
    using bind_pair_run [OF assms(2,1,3-6)] assms(7-9) by auto
  have "(l, p) \<in> set (list_allowed s' key) \<longleftrightarrow> (l, p) \<in> {(a, b), (b, a)} \<union> set (list_allowed s key)" for l p
  proof
    assume "(l, p) \<in> set (list_allowed s' key)"
    then obtain r where r: "r \<in> set (node_rows s)" "n_key r = key" "n_label r = l"
        "(n_id r, p) \<in> insert (n_id ra, b) (insert (n_id rb, a) (set (bridge_rows s)))"
      unfolding list_allowed_iff s'(2,3) by blast
    from r(4) consider "n_id r = n_id ra" "p = b" | "n_id r = n_id rb" "p = a" | "(n_id r, p) \<in> set (bridge_rows s)"
      by blast
    then show "(l, p) \<in> {(a, b), (b, a)} \<union> set (list_allowed s key)"
    proof cases
      case 1
      then have "r = ra" using ids_unique [OF ids r(1) assms(3)] by simp
      then show ?thesis using 1 r(3) assms(7) by simp
    next
      case 2
      then have "r = rb" using ids_unique [OF ids r(1) assms(4)] by simp
      then show ?thesis using 2 r(3) assms(8) by simp
    next
      case 3
      then show ?thesis unfolding Un_iff list_allowed_iff using r(1-3) by blast
    qed
  next
    assume "(l, p) \<in> {(a, b), (b, a)} \<union> set (list_allowed s key)"
    then show "(l, p) \<in> set (list_allowed s' key)"
      unfolding Un_iff list_allowed_iff s'(2,3) using assms(3-8) by blast
  qed
  then have "set (list_allowed s' key) = {(a, b), (b, a)} \<union> set (list_allowed s key)" by auto
  moreover have "(a, b) \<in> set (list_established s' key) \<or> (b, a) \<in> set (list_established s' key)"
  proof (cases "n_id ra \<le> n_id rb")
    case True
    then have "(n_id ra, n_id rb) \<in> set (link_rows s')" using s'(4) by (simp add: min_def max_def)
    then show ?thesis unfolding list_established_iff s'(2) using assms(3-8) by blast
  next
    case False
    then have "(n_id rb, n_id ra) \<in> set (link_rows s')" using s'(4) by (simp add: min_def max_def)
    then show ?thesis unfolding list_established_iff s'(2) using assms(3-8) by blast
  qed
  moreover have "bridge_inv s'" using keepsD [OF bind_pair_inv assms(1), of key a b] s'(1) by simp
  ultimately show ?thesis using s'(1) by blast
qed

theorem bind_pair_establishes_witness:
  "\<exists>s'. bind_pair 1 ''ann'' ''bob'' pair_store = (Ok (), s') \<and> (''bob'', ''ann'') \<in> set (list_allowed s' 1)"
proof -
  let ?a = "node_row.make 2 1 (Some 1) ''ann'' None (Some 1) (Some []) True"
  let ?b = "node_row.make 3 1 (Some 1) ''bob'' None (Some 2) (Some []) True"
  have "n_key ?a = 1" "n_key ?b = 1" "n_label ?a = ''ann''" "n_label ?b = ''bob''" "''ann'' \<noteq> ''bob''"
    by (simp_all add: node_row.defs)
  from bind_pair_establishes [OF pair_store_inv pair_load pair_rows_mem this] show ?thesis by auto
qed

text \<open>
  After a successful \<open>deny_bridge\<close> neither node whitelists the other, the two are not
  paired, and \<open>add_bridge\<close> between them is refused as not whitelisted until one of them is
  allowed again.
\<close>
theorem deny_blocks:
  assumes "bridge_inv s" "load s key = Ok T" "deny_bridge key a b s = (Ok (), s')" "a \<noteq> b"
  shows "{(a, b), (b, a)} \<inter> (set (list_allowed s' key) \<union> set (list_established s' key)) = {}
     \<and> add_bridge key a b s' = (Err BridgeNotWhitelisted, s')"
proof -
  from assms(1) have ids: "store_ids_ok s" by (simp add: bridge_inv_def)
  have inv': "bridge_inv s'" using keepsD [OF deny_bridge_inv assms(1), of key a b] assms(3) by simp
  from assms(3) obtain i j where ij: "node_id_for_label s key a = Ok i" "node_id_for_label s key b = Ok j"
    by (auto simp: deny_bridge_def bind_run split: sum.splits)
  from ij(1) obtain ra where ra: "ra \<in> set (node_rows s)" "n_key ra = key" "n_label ra = a" "n_id ra = i"
    by (rule node_id_for_label_OkD)
  from ij(2) obtain rb where rb: "rb \<in> set (node_rows s)" "n_key rb = key" "n_label rb = b" "n_id rb = j"
    by (rule node_id_for_label_OkD)
  have s': "s' = s\<lparr>link_rows := filter (\<lambda>r. r \<noteq> (min i j, max i j) \<or> i = j) (link_rows s),
      bridge_rows := filter (\<lambda>r. r \<noteq> (i, b) \<and> r \<noteq> (j, a)) (bridge_rows s)\<rparr>"
    using deny_bridge_run [OF ij] assms(3) by simp
  have rows: "node_rows s' = node_rows s" unfolding s' by simp
  have no: "(i, b) \<notin> set (bridge_rows s')" "(j, a) \<notin> set (bridge_rows s')" unfolding s' by auto
  have lab: "r = ra" if "r \<in> set (node_rows s')" "n_key r = key" "n_label r = a" for r
    using inv' ra that rows by (auto simp: bridge_inv_def dest: labels_uniqueD)
  have lbb: "r = rb" if "r \<in> set (node_rows s')" "n_key r = key" "n_label r = b" for r
    using inv' rb that rows by (auto simp: bridge_inv_def dest: labels_uniqueD)
  have al: "(a, b) \<notin> set (list_allowed s' key)" "(b, a) \<notin> set (list_allowed s' key)"
    unfolding list_allowed_iff using lab lbb no ra(4) rb(4) by blast+
  have est: "(l, p) \<notin> set (list_established s' key)" if "{l, p} = {a, b}" for l p
  proof
    assume e: "(l, p) \<in> set (list_established s' key)"
    have "(l, p) \<in> set (list_allowed s' key) \<or> (p, l) \<in> set (list_allowed s' key)"
      using established_backed [OF inv' e] by blast
    then show False using al that by (auto simp: doubleton_eq_iff)
  qed
  have "s' = (s\<lparr>bridge_rows := bridge_rows s'\<rparr>)\<lparr>link_rows := link_rows s'\<rparr>" unfolding s' by simp
  then have "load s' key = load (s\<lparr>bridge_rows := bridge_rows s'\<rparr>) key"
    by (metis load_link_rows)
  then obtain T' where T': "load s' key = Ok T'" using load_bridge_rows [OF assms(2) ids] by metis
  have "ra \<noteq> rb" using ra(3) rb(3) assms(4) by auto
  then have "add_bridge key a b s' = (Err BridgeNotWhitelisted, s')"
    using add_bridge_run [OF T' inv', of ra rb] ra rb rows no by simp
  moreover have "(a, b) \<notin> set (list_established s' key)" "(b, a) \<notin> set (list_established s' key)"
    using est by (auto simp: insert_commute)
  ultimately show ?thesis using al by simp
qed

theorem deny_blocks_witness:
  "\<exists>s'. deny_bridge 1 ''ann'' ''bob'' pair_store = (Ok (), s')
     \<and> add_bridge 1 ''ann'' ''bob'' s' = (Err BridgeNotWhitelisted, s')"
proof -
  have "node_id_for_label pair_store 1 ''ann'' = Ok 2" "node_id_for_label pair_store 1 ''bob'' = Ok 3"
    by (simp_all add: pair_store_def node_row.defs node_id_for_label_def node_row_for_label_def)
  from deny_bridge_run [OF this] obtain s' where d: "deny_bridge 1 ''ann'' ''bob'' pair_store = (Ok (), s')" by simp
  have "''ann'' \<noteq> ''bob''" by simp
  with deny_blocks [OF pair_store_inv pair_load d] d show ?thesis by blast
qed

end
