(* ===== verification/TreeOps.thy ===== *)
theory TreeOps
  imports TreeBridges
begin

text \<open>
  The remaining operations of \<open>src/key_tree.rs\<close> on one store: the read-only summary
  (\<open>describe\<close>, \<open>list_trees\<close>), the snapshot \<open>export_spec\<close> and rebinding a leaf to another
  hardware key.
\<close>

section \<open>Summaries\<close>

datatype node_summary = NodeSummary (ns_id: int) (ns_label: string) (ns_threshold: "int option")
  (ns_hw: "int option") (ns_hw_label: "string option") (ns_active: bool)
  (ns_bridges: "string list") (ns_children: "node_summary list")

record tree_summary =
  ts_key :: int
  ts_label :: string
  ts_root :: node_summary

definition root_node_id :: "store \<Rightarrow> int \<Rightarrow> int result" where
  "root_node_id s key = query_row (map_option n_id (find (\<lambda>r. n_key r = key \<and> n_parent r = None) (node_rows s)))"

definition hw_label_of :: "store \<Rightarrow> int option \<Rightarrow> string option result" where
  "hw_label_of s h = (case h of None \<Rightarrow> Ok None | Some i \<Rightarrow> and_then (get_key s i) (\<lambda>k. Ok (Some (hw_label k))))"

definition child_ids :: "store \<Rightarrow> int \<Rightarrow> int list" where
  "child_ids s i = map n_id (filter (\<lambda>r. n_parent r = Some i) (node_rows s))"

definition allowed_of :: "store \<Rightarrow> int \<Rightarrow> string list" where
  "allowed_of s i = sort (map snd (filter (\<lambda>(j, _). j = i) (bridge_rows s)))"

text \<open>A loop with \<open>?\<close> over calls that may not return.\<close>

fun try_all_opt :: "('a \<Rightarrow> 'b result option) \<Rightarrow> 'a list \<Rightarrow> 'b list result option" where
  "try_all_opt f [] = Some (Ok [])"
| "try_all_opt f (x # xs) =
     (case f x of
        None \<Rightarrow> None
      | Some (Err e) \<Rightarrow> Some (Err e)
      | Some (Ok y) \<Rightarrow> map_option (\<lambda>r. and_then r (\<lambda>ys. Ok (y # ys))) (try_all_opt f xs))"

fun describe_node :: "nat \<Rightarrow> store \<Rightarrow> int \<Rightarrow> node_summary result option" where
  "describe_node 0 s i = None"
| "describe_node (Suc f) s i =
     (case query_row (node_table.row_of s i) of
        Err e \<Rightarrow> Some (Err e)
      | Ok r \<Rightarrow>
          (case hw_label_of s (n_hw r) of
             Err e \<Rightarrow> Some (Err e)
           | Ok hl \<Rightarrow>
               map_option (\<lambda>cs. and_then cs (\<lambda>cs. Ok (NodeSummary i (n_label r) (n_threshold r) (n_hw r) hl
                   (n_active r) (allowed_of s i) cs)))
                 (try_all_opt (describe_node f s) (child_ids s i))))"

definition describe :: "store \<Rightarrow> int \<Rightarrow> tree_summary result option" where
  "describe s key =
     (case query_row (map_option k_label (key_table.row_of s key)) of
        Err e \<Rightarrow> Some (Err e)
      | Ok l \<Rightarrow>
          (case root_node_id s key of
             Err e \<Rightarrow> Some (Err e)
           | Ok root \<Rightarrow>
               map_option (\<lambda>r. and_then r (\<lambda>n. Ok \<lparr> ts_key = key, ts_label = l, ts_root = n \<rparr>))
                 (describe_node (Suc (length (node_rows s))) s root)))"

definition list_trees :: "store \<Rightarrow> (int \<times> string) list" where
  "list_trees s = map (\<lambda>r. (k_id r, k_label r)) (key_rows s)"

section \<open>Exporting the live specification\<close>

fun export_node :: "nat \<Rightarrow> key_tree \<Rightarrow> nat \<Rightarrow> node_spec option" where
  "export_node 0 T i = None"
| "export_node (Suc f) T i =
     (let n = kt_nodes T ! i; allowed = sorted_list_of_set (kn_bridges n) in
      case kn_hw n of
        Some h \<Rightarrow> Some (Leaf (kn_label n) h allowed)
      | None \<Rightarrow>
          map_option (\<lambda>cs. Split (kn_label n)
              (word_of_nat (case kn_threshold n of None \<Rightarrow> 1 | Some t \<Rightarrow> t)) cs allowed)
            (those (map (export_node f T) (filter (\<lambda>c. kn_active (kt_nodes T ! c)) (kn_children n)))))"

definition export_spec :: "store \<Rightarrow> int \<Rightarrow> node_spec result option" where
  "export_spec s key =
     (case load s key of
        Err e \<Rightarrow> Some (Err e)
      | Ok T \<Rightarrow> map_option Ok (export_node (tree_fuel T) T (kt_root T)))"

section \<open>Rebinding a leaf\<close>

definition update_nodes :: "(node_row \<Rightarrow> bool) \<Rightarrow> (node_row \<Rightarrow> node_row) \<Rightarrow> (store, nat) op" where
  "update_nodes P f = (\<lambda>s. (Ok (length (filter P (node_rows s))),
     s\<lparr>node_rows := map (\<lambda>r. if P r then f r else r) (node_rows s)\<rparr>))"

definition rebind_leaf :: "crates \<Rightarrow> int \<Rightarrow> string \<Rightarrow> int \<Rightarrow> bytes \<Rightarrow> (store, unit) op" where
  "rebind_leaf C key label new_hw old_secret =
     bind (asks (\<lambda>s. load s key)) (\<lambda>T.
     bind (lift_result (index_by_label T label)) (\<lambda>i.
     let n = kt_nodes T ! i in
     if \<not> kn_active n \<or> kn_hw n = None then fail NodeNotFound
     else bind (asks (\<lambda>s. unwrap_leaf_share C s (kn_db n) old_secret)) (\<lambda>share.
          bind (asks (\<lambda>s. get_active_encryption_key s new_hw)) (\<lambda>hk.
          bind (seal_share C hk share) (\<lambda>wrapped.
          bind (update_nodes (\<lambda>r. n_id r = kn_db n \<and> n_key r = key)
                  (\<lambda>r. r\<lparr>n_hw := Some new_hw, n_wrapped := Some wrapped\<rparr>)) (\<lambda>updated.
          if updated \<noteq> 1 then fail NodeNotFound else ret ()))))))"

section \<open>Exporting what was split\<close>

fun sort_allowed :: "node_spec \<Rightarrow> node_spec" where
  "sort_allowed (Leaf l h ab) = Leaf l h (sort ab)"
| "sort_allowed (Split l t cs ab) = Split l t (map sort_allowed cs) (sort ab)"

lemma sorted_list_of_bridges:
  assumes "distinct ab" "{q. (b, q) \<in> set bs} = set ab"
  shows "sorted_list_of_set {q. (b, q) \<in> set bs} = sort ab"
  using assms by (simp add: sorted_list_of_set_sort_remdups distinct_remdups_id)

text \<open>Within a block of ids the whitelist rows are those of the specification planted there.\<close>

definition bridges_at :: "(int \<times> string) list \<Rightarrow> int \<Rightarrow> nat \<Rightarrow> (int \<times> string) list \<Rightarrow> bool" where
  "bridges_at bs b n L \<longleftrightarrow> (\<forall>i q. b \<le> i \<and> i < b + int n \<longrightarrow> ((i, q) \<in> set bs \<longleftrightarrow> (i, q) \<in> set L))"

lemma bridges_at_split:
  assumes "bridges_at bs b (spec_size (Split l t cs ab)) (plant_bridges b (Split l t cs ab))"
  shows "{q. (b, q) \<in> set bs} = set ab"
    and "bridges_at bs (b + 1) (sum_list (map spec_size cs)) (forest_bridges (b + 1) cs)"
  using assms plant_bridges_range(2) [where b = "b + 1" and cs = cs]
  unfolding bridges_at_def by fastforce+

lemma bridges_at_leaf:
  "bridges_at bs b 1 (plant_bridges b (Leaf l h ab)) \<Longrightarrow> {q. (b, q) \<in> set bs} = set ab"
  unfolding bridges_at_def by fastforce

lemma bridges_at_Cons:
  assumes "bridges_at bs b (sum_list (map spec_size (c # cs))) (forest_bridges b (c # cs))"
  shows "bridges_at bs b (spec_size c) (plant_bridges b c)"
    and "bridges_at bs (b + int (spec_size c)) (sum_list (map spec_size cs)) (forest_bridges (b + int (spec_size c)) cs)"
  using assms plant_bridges_range(1) [where b = b and spec = c]
    plant_bridges_range(2) [where b = "b + int (spec_size c)" and cs = cs]
  unfolding bridges_at_def by fastforce+

lemma those_map_Some [simp]: "those (map (\<lambda>x. Some (g x)) xs) = Some (map g xs)"
  by (induction xs) auto

lemma threshold_word: "word_of_nat (i64_as_usize (uint (t :: u8))) = t"
  using threshold_usize [of t] by simp

lemma child_active:
  assumes "\<forall>c \<in> set cs. wf_spec c" "shamir_ok C" "length vs = length cs"
    and "laid R k (plant_forest C pk key p b d vs cs)" "i \<in> set (child_idx k cs)"
  shows "i < length R \<and> n_active (R ! i)"
proof -
  have len: "length (plant_forest C pk key p b d vs cs) = sum_list (map spec_size cs)"
    by (rule forest_length [OF assms(1-3)])
  have i: "k \<le> i" "i < k + length (plant_forest C pk key p b d vs cs)"
    using child_idx_ge [OF assms(5)] len by simp_all
  have "R ! i \<in> set (plant_forest C pk key p b d vs cs)" by (rule laid_member [OF assms(4) i])
  then show ?thesis using plant_fields(2) i assms(4) by (auto simp: laid_def)
qed

lemma export_planted:
  assumes ids: "\<forall>j < length R. n_id (R ! j) = B + int j"
  shows "wf_spec spec \<Longrightarrow> shamir_ok C \<Longrightarrow> below p b \<Longrightarrow> b = B + int k \<Longrightarrow> bridges_distinct spec
    \<Longrightarrow> laid R k (plant_rows C pk key p b d v spec) \<Longrightarrow> closed_off R B k (spec_size spec)
    \<Longrightarrow> bridges_at bs b (spec_size spec) (plant_bridges b spec) \<Longrightarrow> spec_size spec \<le> f
    \<Longrightarrow> export_node f (arena_of R bs) k = Some (sort_allowed spec)"
  and "\<forall>c \<in> set cs. wf_spec c \<Longrightarrow> shamir_ok C \<Longrightarrow> length vs = length cs \<Longrightarrow> below p b \<Longrightarrow> b = B + int k
    \<Longrightarrow> \<forall>c \<in> set cs. bridges_distinct c
    \<Longrightarrow> laid R k (plant_forest C pk key p b d vs cs) \<Longrightarrow> closed_off R B k (sum_list (map spec_size cs))
    \<Longrightarrow> bridges_at bs b (sum_list (map spec_size cs)) (forest_bridges b cs) \<Longrightarrow> sum_list (map spec_size cs) \<le> f
    \<Longrightarrow> map (export_node f (arena_of R bs)) (child_idx k cs) = map (\<lambda>c. Some (sort_allowed c)) cs"
proof (induction C pk key p b d v spec and C pk key p b d vs cs arbitrary: k f and k f
    rule: plant_rows_plant_forest.induct)
  case (1 C pk key p b d v l h ab)
  obtain g where f: "f = Suc g" using 1(9) by (cases f) auto
  have k: "k < length R" and row: "n_label (R ! k) = l" "n_hw (R ! k) = Some h"
    using 1(6) laid_Cons by fastforce+
  have id: "n_id (R ! k) = b" using ids k 1(4) by simp
  have "distinct ab" using 1(5) by (simp add: bridges_distinct_def)
  from sorted_list_of_bridges [OF this bridges_at_leaf] 1(8) show ?case
    using k row id by (simp add: f)
next
  case (2 C pk key p b d v l t cs ab)
  obtain g where f: "f = Suc g" "sum_list (map spec_size cs) \<le> g" using 2(10) by (cases f) auto
  have k: "k < length R" and row: "n_label (R ! k) = l" "n_hw (R ! k) = None" "n_threshold (R ! k) = Some (int (unat t))"
    using 2(7) laid_Cons by fastforce+
  have id: "n_id (R ! k) = b" using ids k 2(5) by simp
  have wf: "\<forall>c \<in> set cs. wf_spec c" "t \<noteq> 0" "length cs \<le> 255" using 2(2) by auto
  have dlen: "length (dealt C t cs v d) = length cs" by (rule dealt_length [OF 2(3) wf(2,3)])
  have F: "laid R (Suc k) (plant_forest C pk key (Some b) (b + 1) (Suc d) (dealt C t cs v d) cs)"
    using 2(7) laid_Cons by fastforce
  have ch: "kn_children (arena_nodes R bs ! k) = child_idx (Suc k) cs"
    using split_child_positions [OF 2(2,3,4,5,7,8)] k id by simp
  have act: "filter (\<lambda>c. kn_active (arena_nodes R bs ! c)) (child_idx (Suc k) cs) = child_idx (Suc k) cs"
    using child_active [OF wf(1) 2(3) dlen F] by (intro filter_id_if_all) simp
  have bd: "distinct ab" "\<forall>c \<in> set cs. bridges_distinct c"
    using 2(6) by (auto simp: bridges_distinct_def)
  have "map (export_node g (arena_of R bs)) (child_idx (Suc k) cs) = map (\<lambda>c. Some (sort_allowed c)) cs"
  proof (rule 2(1) [OF wf(1) 2(3) dlen _ _ bd(2) F])
    show "below (Some b) (b + 1)" by (simp add: below_def)
    show "b + 1 = B + int (Suc k)" using 2(5) by simp
    show "closed_off R B (Suc k) (sum_list (map spec_size cs))"
      using closed_off_split [OF 2(8) _ 2(7)] 2(4,5) by simp
    show "bridges_at bs (b + 1) (sum_list (map spec_size cs)) (forest_bridges (b + 1) cs)"
      by (rule bridges_at_split(2) [OF 2(9)])
  qed (rule f(2))
  then show ?case
    using sorted_list_of_bridges [OF bd(1) bridges_at_split(1) [OF 2(9)]] k row id ch act
    by (simp add: f threshold_word Let_def)
next
  case (3 C pk key p b d v vs c cs)
  have L: "laid R k (plant_rows C pk key p b d v c @
      plant_forest C pk key p (b + int (spec_size c)) (d + spec_size c) vs cs)" using 3(9) by simp
  have len: "length (plant_rows C pk key p b d v c) = spec_size c" using plant_length 3(3,4) by simp
  have l: "laid R k (plant_rows C pk key p b d v c)"
    "laid R (k + spec_size c) (plant_forest C pk key p (b + int (spec_size c)) (d + spec_size c) vs cs)"
    using laid_append [OF L] len by simp_all
  have vs: "length vs = length cs" using 3(5) by simp
  note off = closed_off_Cons [OF 3(3,4) vs 3(10,6,7) l] and bat = bridges_at_Cons [OF 3(11)]
  have "export_node f (arena_of R bs) k = Some (sort_allowed c)"
    using 3(3,8,12) by (intro 3(1) [OF _ 3(4,6,7) _ l(1) off(1) bat(1)]) auto
  moreover have "map (export_node f (arena_of R bs)) (child_idx (k + spec_size c) cs) = map (\<lambda>c. Some (sort_allowed c)) cs"
    using 3(3,6,7,8,12) by (intro 3(2) [OF _ 3(4) vs _ _ _ l(2) off(2) bat(2)]) (auto simp: below_def)
  ultimately show ?case by simp
qed simp_all

lemma split_bridge_rows:
  assumes "shamir_ok C" "tree_store_ok s" "wf_spec spec" "b = next_rowid (map n_id (node_rows s))"
  shows "bridges_at (key_bridge_rows (split_store C label secret spec s) (next_rowid (map k_id (key_rows s))))
     b (spec_size spec) (plant_bridges b spec)"
  unfolding bridges_at_def
proof (intro allI impI)
  fix i q assume i: "b \<le> i \<and> i < b + int (spec_size spec)"
  let ?key = "next_rowid (map k_id (key_rows s))"
  let ?S = "split_store C label secret spec s"
  let ?R = "plant_rows C (leaf_key s) ?key None b (draws s) secret spec"
  have "bridge_rows ?S = bridge_rows s @ plant_bridges b spec"
    by (simp add: split_store_def Let_def assms(4))
  moreover have "(i, q) \<notin> set (bridge_rows s)"
  proof
    assume "(i, q) \<in> set (bridge_rows s)"
    then have "i \<in> set (map n_id (node_rows s))" using assms(2) by (auto simp: tree_store_ok_def)
    from next_rowid_greater [OF this] show False using i assms(4) by simp
  qed
  moreover have "i \<in> set (map n_id ?R)"
    unfolding plant_ids(1) [OF assms(3,1)] using i by simp
  then obtain r where "r \<in> set ?R" "n_id r = i" by auto
  then have "\<exists>r \<in> set (node_rows ?S). n_id r = i \<and> n_key r = ?key"
    using plant_fields(1) unfolding split_store_fields assms(4) by fastforce
  ultimately show "(i, q) \<in> set (key_bridge_rows ?S ?key) \<longleftrightarrow> (i, q) \<in> set (plant_bridges b spec)"
    by (auto simp: key_bridge_rows_def)
qed

text \<open>
  C38: The export of a freshly split tree is the specification it was split from, with every
  whitelist in alphabetical order: splitting that export again builds the same tree.
\<close>
theorem export_split:
  assumes "shamir_ok C" "tree_store_ok s" "\<not> in_tx s" "valid_spec s spec" "bridges_distinct spec"
    and "split C label secret spec s = (r, s')"
  shows "\<exists>key. r = Ok key \<and> export_spec s' key = Some (Ok (sort_allowed spec))"
proof -
  let ?key = "next_rowid (map k_id (key_rows s))" and ?b = "next_rowid (map n_id (node_rows s))"
  define R where "R = key_node_rows s' ?key"
  define bs where "bs = key_bridge_rows s' ?key"
  have r: "r = Ok ?key" "s' = split_store C label secret spec s"
    using split_run [OF assms(1,2,4,5,3)] assms(6) by simp_all
  have wf: "wf_spec spec" and dl: "distinct (spec_labels spec)" using assms(4) by (simp_all add: valid_spec_def)
  have RP: "R = plant_rows C (leaf_key s) ?key None ?b (draws s) secret spec"
    unfolding R_def r(2) by (rule split_rows [OF assms(2,1) wf])
  have rows: "tree_rows_ok R" unfolding RP by (rule planted_rows_ok [OF assms(1) wf dl])
  have len: "length R = spec_size spec" unfolding RP by (rule plant_length [OF wf assms(1)])
  have ids: "store_ids_ok s'"
    using split_ids_ok [OF assms(2,1) wf] node_table.ids_ok_distinct unfolding r(2) store_ids_ok_def by blast
  have load: "load s' ?key = Ok (arena_of R bs)"
    unfolding R_def bs_def by (rule load_ok [OF ids]) (use rows R_def in simp)
  have "export_node (tree_fuel (arena_of R bs)) (arena_of R bs) 0 = Some (sort_allowed spec)"
  proof (rule export_planted(1) [OF _ wf assms(1)])
    show "\<forall>j < length R. n_id (R ! j) = ?b + int j" using planted_ids_nth [OF assms(1) wf] RP by blast
    show "bridges_at bs ?b (spec_size spec) (plant_bridges ?b spec)"
      unfolding bs_def r(2) by (rule split_bridge_rows [OF assms(1,2) wf refl])
    show "laid R 0 (plant_rows C (leaf_key s) ?key None ?b (draws s) secret spec)"
      unfolding RP by (rule laid_whole)
  qed (use len assms(5) in \<open>simp_all add: below_def closed_off_def tree_fuel_def\<close>)
  then show ?thesis using r(1) load by (simp add: export_spec_def)
qed

theorem export_split_witness:
  "export_spec (snd (split toy ''vault'' [7] demo_spec demo_store)) 1 = Some (Ok (sort_allowed demo_spec))"
proof -
  obtain key where "Ok 1 = (Ok key :: int result)"
    "export_spec (split_store toy ''vault'' [7] demo_spec demo_store) key = Some (Ok (sort_allowed demo_spec))"
    using export_split [OF toy_shamir_ok demo_ok demo_split] by blast
  then show ?thesis by (simp add: demo_split)
qed

section \<open>The summary\<close>

text \<open>What a summary node says is what the tables hold, and its children are all there are.\<close>

fun summarises :: "store \<Rightarrow> node_summary \<Rightarrow> bool" where
  "summarises s (NodeSummary i l t h hl a ab cs) \<longleftrightarrow>
     (\<exists>r. node_table.row_of s i = Some r \<and> n_label r = l \<and> n_threshold r = t \<and> n_hw r = h \<and> n_active r = a
        \<and> hw_label_of s h = Ok hl)
     \<and> sorted ab \<and> set ab = {p. (i, p) \<in> set (bridge_rows s)}
     \<and> map ns_id cs = child_ids s i \<and> list_all (summarises s) cs"

definition parents_below :: "store \<Rightarrow> bool" where
  "parents_below s \<longleftrightarrow> (\<forall>r \<in> set (node_rows s). \<forall>q. n_parent r = Some q \<longrightarrow> q < n_id r)"

lemma try_all_opt_returns:
  "(\<And>x. x \<in> set xs \<Longrightarrow> f x \<noteq> None) \<Longrightarrow> try_all_opt f xs \<noteq> None"
proof (induction xs)
  case (Cons x xs)
  then obtain r where "f x = Some r" by fastforce
  then show ?case using Cons by (cases r) auto
qed simp

lemma try_all_opt_Ok:
  "try_all_opt f xs = Some (Ok ys) \<longleftrightarrow> list_all2 (\<lambda>x y. f x = Some (Ok y)) xs ys"
proof (induction xs arbitrary: ys)
  case (Cons x xs)
  show ?case
  proof (cases ys)
    case Nil
    then show ?thesis by (auto simp: and_then_Ok_iff split: option.splits sum.splits)
  next
    case (Cons y zs)
    then show ?thesis using Cons.IH [of zs] by (auto simp: and_then_Ok_iff split: option.splits sum.splits)
  qed
qed auto

lemma child_ids_greater: "parents_below s \<Longrightarrow> c \<in> set (child_ids s i) \<Longrightarrow> i < c"
  by (auto simp: parents_below_def child_ids_def)

lemma describe_node_returns:
  assumes "parents_below s"
  shows "length (filter (\<lambda>r. i \<le> n_id r) (node_rows s)) < f \<Longrightarrow> describe_node f s i \<noteq> None"
proof (induction f arbitrary: i)
  case (Suc f)
  show ?case
  proof (cases "node_table.row_of s i")
    case (Some r)
    then have r: "r \<in> set (node_rows s)" "n_id r = i" using node_table.row_of_SomeD by blast+
    have "describe_node f s c \<noteq> None" if "c \<in> set (child_ids s i)" for c
    proof (rule Suc.IH)
      have less: "i < c" by (rule child_ids_greater [OF assms that])
      then have "filter (\<lambda>r. c \<le> n_id r) (node_rows s)
          = filter (\<lambda>r. c \<le> n_id r) (filter (\<lambda>r. i \<le> n_id r) (node_rows s))"
        by (auto intro: filter_cong)
      moreover have "length (filter (\<lambda>r. c \<le> n_id r) (filter (\<lambda>r. i \<le> n_id r) (node_rows s)))
          < length (filter (\<lambda>r. i \<le> n_id r) (node_rows s))"
        using r less by (intro length_filter_less [of r]) auto
      ultimately show "length (filter (\<lambda>r. c \<le> n_id r) (node_rows s)) < f"
        using Suc.prems by simp
    qed
    then have "try_all_opt (describe_node f s) (child_ids s i) \<noteq> None" by (rule try_all_opt_returns)
    then show ?thesis using Some by (auto split: option.splits sum.splits)
  qed simp
qed simp

lemma describe_node_summarises:
  "describe_node f s i = Some (Ok n) \<Longrightarrow> summarises s n \<and> ns_id n = i"
proof (induction f arbitrary: i n)
  case (Suc f)
  then obtain r hl cs where
    r: "node_table.row_of s i = Some r" "hw_label_of s (n_hw r) = Ok hl"
    and cs: "try_all_opt (describe_node f s) (child_ids s i) = Some (Ok cs)"
    and n: "n = NodeSummary i (n_label r) (n_threshold r) (n_hw r) hl (n_active r) (allowed_of s i) cs"
    by (auto simp: and_then_Ok_iff query_row_def split: sum.splits option.splits)
  have l2: "list_all2 (\<lambda>x y. describe_node f s x = Some (Ok y)) (child_ids s i) cs"
    using cs by (simp add: try_all_opt_Ok)
  then have "list_all2 (\<lambda>x y. summarises s y \<and> ns_id y = x) (child_ids s i) cs"
    by (rule list.rel_mono_strong) (rule Suc.IH)
  then have "map ns_id cs = child_ids s i" "list_all (summarises s) cs"
    by (induction rule: list_all2_induct) auto
  moreover have "set (allowed_of s i) = {p. (i, p) \<in> set (bridge_rows s)}"
    by (force simp: allowed_of_def)
  ultimately show ?case using r n by (simp add: allowed_of_def)
qed simp

text \<open>
  C34: \<open>describe\<close> returns on every store whose nodes come after their parents, and what it
  returns is what the tables hold: each node with its own row's label, threshold, hardware key
  and state, its sorted whitelist, and all its children in the order of their ids.
\<close>
theorem describe_faithful:
  assumes "parents_below s"
  shows "\<exists>r. describe s key = Some r
     \<and> (\<forall>d. r = Ok d \<longrightarrow> summarises s (ts_root d) \<and> root_node_id s key = Ok (ns_id (ts_root d)))"
proof -
  have "describe_node (Suc (length (node_rows s))) s i \<noteq> None" for i
    by (rule describe_node_returns [OF assms]) (simp add: le_imp_less_Suc)
  then have "describe s key \<noteq> None"
    by (auto simp: describe_def simp del: describe_node.simps split: sum.splits)
  moreover have "summarises s (ts_root d) \<and> root_node_id s key = Ok (ns_id (ts_root d))"
    if "describe s key = Some (Ok d)" for d
    using that describe_node_summarises
    by (fastforce simp: describe_def and_then_Ok_iff simp del: describe_node.simps summarises.simps split: sum.splits)
  ultimately show ?thesis by auto
qed

theorem describe_faithful_witness:
  "\<exists>d. describe demo_split_store 1 = Some (Ok d) \<and> summarises demo_split_store (ts_root d)"
proof -
  have "parents_below demo_split_store"
    unfolding parents_below_def demo_split_store_def demo_rows by simp
  from describe_faithful [OF this, of 1] obtain r where r: "describe demo_split_store 1 = Some r"
    "\<forall>d. r = Ok d \<longrightarrow> summarises demo_split_store (ts_root d)" by blast
  have "key_rows demo_split_store = [\<lparr> k_id = 1, k_label = ''vault'', k_generation = 1 \<rparr>]"
    by (simp add: demo_split_store_def split_store_def Let_def demo_store_def empty_store_def next_rowid_def)
  moreover have "hw_rows demo_split_store = [demo_key 1 1, demo_key 2 2]"
    unfolding demo_split_store_def by (rule demo_hw)
  moreover note rows = demo_rows [folded demo_split_store_def]
  ultimately have "\<exists>d. describe demo_split_store 1 = Some (Ok d)"
    by (simp add: describe_def key_table.row_of_def root_node_id_def rows node_table.row_of_def
        hw_label_of_def child_ids_def get_key_def hw.row_of_def demo_key_def)
  then have "\<exists>d. r = Ok d" using r(1) by auto
  then show ?thesis using r by blast
qed

section \<open>Rebinding keeps the share\<close>

lemma row_of_map:
  assumes "\<And>r. n_id (f r) = n_id r"
  shows "node_table.row_of (s\<lparr>node_rows := map f (node_rows s), draws := d\<rparr>) j = map_option f (node_table.row_of s j)"
  unfolding node_table.row_of_def by (simp add: assms find_cong_map)

lemma get_key_fields: "hw_rows s' = hw_rows s \<Longrightarrow> get_key s' h = get_key s h"
  by (simp add: get_key_def)

lemma unwrap_of_row:
  assumes "box_ok C" "node_table.row_of s i = Some r" "n_hw r = Some h" "get_key s h = Ok k"
    "n_wrapped r = Some (box_seal C (hw_public k) coin share)"
  shows "unwrap_leaf_share C s i sk =
    (if length sk \<noteq> 32 then Err InvalidPublicKey
     else if hw_public k \<noteq> x25519_public C sk then Err IntegrityCheckFailed else Ok share)"
  using assms by (simp add: unwrap_leaf_share_def box_unseal_seal)

lemma rebind_Ok:
  assumes "rebind_leaf C key label new_hw old s = (Ok (), s')" "store_ids_ok s"
  obtains r share k coin where "r \<in> set (node_rows s)" "n_key r = key" "n_label r = label" "n_active r"
    "unwrap_leaf_share C s (n_id r) old = Ok share" "get_active_encryption_key s new_hw = Ok k"
    "s' = s\<lparr>node_rows := map (\<lambda>q. if n_id q = n_id r then q\<lparr>n_hw := Some new_hw,
        n_wrapped := Some (box_seal C (hw_public k) coin share)\<rparr> else q) (node_rows s), draws := Suc (draws s)\<rparr>"
proof -
  from assms(1) obtain T i where T: "load s key = Ok T" and i: "index_by_label T label = Ok i"
    by (auto simp: rebind_leaf_def bind_run Let_def split: sum.splits prod.splits)
  obtain r where r: "r \<in> set (node_rows s)" "n_key r = key" "n_label r = label"
      "kn_db (kt_nodes T ! i) = n_id r" "r = key_node_rows s key ! i" "i < length (key_node_rows s key)"
    using index_by_label_row [OF T assms(2) i] by blast
  have act: "kn_active (kt_nodes T ! i) = n_active r"
    using load_OkD(1) [OF T assms(2)] r(5,6) by simp
  from assms(1) T i act r(4) obtain share k where
    k: "n_active r" "unwrap_leaf_share C s (n_id r) old = Ok share" "get_active_encryption_key s new_hw = Ok k"
    and s': "s' = s\<lparr>draws := Suc (draws s), node_rows := map (\<lambda>q. if n_id q = n_id r \<and> n_key q = key
        then q\<lparr>n_hw := Some new_hw, n_wrapped := Some (box_seal C (hw_public k) (draws s) share)\<rparr> else q) (node_rows s)\<rparr>"
    by (auto simp: rebind_leaf_def bind_run Let_def seal_share_def update_nodes_def
        split: sum.splits prod.splits if_splits)
  have "n_id q = n_id r \<and> n_key q = key \<longleftrightarrow> n_id q = n_id r" if "q \<in> set (node_rows s)" for q
    using ids_unique [OF assms(2) that r(1)] r(2) by blast
  then have "map (\<lambda>q. if n_id q = n_id r \<and> n_key q = key
        then q\<lparr>n_hw := Some new_hw, n_wrapped := Some (box_seal C (hw_public k) (draws s) share)\<rparr> else q) (node_rows s)
    = map (\<lambda>q. if n_id q = n_id r
        then q\<lparr>n_hw := Some new_hw, n_wrapped := Some (box_seal C (hw_public k) (draws s) share)\<rparr> else q) (node_rows s)"
    by (intro map_cong refl) (simp cong: if_cong)
  with s' have "s' = s\<lparr>node_rows := map (\<lambda>q. if n_id q = n_id r
        then q\<lparr>n_hw := Some new_hw, n_wrapped := Some (box_seal C (hw_public k) (draws s) share)\<rparr> else q) (node_rows s),
        draws := Suc (draws s)\<rparr>" by simp
  then show ?thesis using that r(1-3) k by blast
qed

text \<open>
  C37: Rebinding a leaf moves its share to the new hardware key and to that key only: before,
  the old secret unwraps it; after, exactly the secret of the new key does, to the same share.
  Nothing else changes: the new store is the old one with the key and the wrapped share of that
  one row replaced (and one draw taken for the sealed box); the row's label, parent, threshold,
  tree and state, every other row and every other table are as they were.
\<close>
theorem rebind_keeps_share:
  assumes "box_ok C" "store_ids_ok s" "rebind_leaf C key label new_hw old s = (Ok (), s')"
  shows "\<exists>r share k w. r \<in> set (node_rows s) \<and> n_key r = key \<and> n_label r = label \<and> n_active r
     \<and> unwrap_leaf_share C s (n_id r) old = Ok share \<and> get_active_encryption_key s new_hw = Ok k
     \<and> (\<forall>sk. unwrap_leaf_share C s' (n_id r) sk =
          (if length sk \<noteq> 32 then Err InvalidPublicKey
           else if hw_public k \<noteq> x25519_public C sk then Err IntegrityCheckFailed else Ok share))
     \<and> s' = s\<lparr>node_rows := map (\<lambda>q. if n_id q = n_id r then q\<lparr>n_hw := Some new_hw, n_wrapped := Some w\<rparr> else q)
          (node_rows s), draws := Suc (draws s)\<rparr>"
proof (rule rebind_Ok [OF assms(3,2)])
  fix r share k coin
  assume r: "r \<in> set (node_rows s)" "n_key r = key" "n_label r = label" "n_active r"
      "unwrap_leaf_share C s (n_id r) old = Ok share" "get_active_encryption_key s new_hw = Ok k"
    and s': "s' = s\<lparr>node_rows := map (\<lambda>q. if n_id q = n_id r then q\<lparr>n_hw := Some new_hw,
        n_wrapped := Some (box_seal C (hw_public k) coin share)\<rparr> else q) (node_rows s), draws := Suc (draws s)\<rparr>"
  let ?f = "\<lambda>q. if n_id q = n_id r then q\<lparr>n_hw := Some new_hw,
        n_wrapped := Some (box_seal C (hw_public k) coin share)\<rparr> else q"
  have row: "node_table.row_of s' j = map_option ?f (node_table.row_of s j)" for j
    unfolding s' by (rule row_of_map) simp
  have "node_table.row_of s (n_id r) = Some r"
    unfolding node_table.row_of_def using assms(2) r(1) by (intro find_unique) (auto simp: store_ids_ok_def)
  then have "node_table.row_of s' (n_id r) = Some (r\<lparr>n_hw := Some new_hw,
      n_wrapped := Some (box_seal C (hw_public k) coin share)\<rparr>)" unfolding row by simp
  moreover have "get_key s' new_hw = Ok k"
    using r(6) by (simp add: get_active_encryption_key_Ok_iff get_key_def s')
  ultimately have "\<forall>sk. unwrap_leaf_share C s' (n_id r) sk =
          (if length sk \<noteq> 32 then Err InvalidPublicKey
           else if hw_public k \<noteq> x25519_public C sk then Err IntegrityCheckFailed else Ok share)"
    using unwrap_of_row [OF assms(1), of s' "n_id r" _ new_hw k coin share] by simp
  then show ?thesis using r s' by blast
qed

lemma demo_find:
  "node_table.row_of demo_split_store 4 = Some \<lparr> n_id = 4, n_key = 1, n_parent = Some 3, n_label = ''bob'',
     n_threshold = None, n_hw = Some 2, n_wrapped = Some (replicate 32 2 @ [1, 2, 7]), n_active = True \<rparr>"
  by (simp add: node_table.row_of_def demo_split_store_def demo_rows)

lemma demo_hw_keys: "hw_rows demo_split_store = [demo_key 1 1, demo_key 2 2]"
  unfolding demo_split_store_def by (rule demo_hw)

theorem rebind_keeps_share_witness:
  "\<exists>s'. rebind_leaf toy 1 ''bob'' 1 (replicate 32 2) demo_split_store = (Ok (), s')
     \<and> (\<exists>r :: node_row. n_label r = ''bob'' \<and> unwrap_leaf_share toy s' (n_id r) (replicate 32 1) = Ok [1, 2, 7])"
proof -
  have i: "index_by_label demo_arena ''bob'' = Ok 3"
    by (simp add: index_by_label_def demo_arena_def label_map_def demo_split_store_def demo_rows)
  have u: "unwrap_leaf_share toy demo_split_store 4 (replicate 32 2) = Ok [1, 2, 7]"
    by (simp add: unwrap_leaf_share_def demo_find get_key_def demo_hw_keys demo_key_def)
  have k: "get_active_encryption_key demo_split_store 1 = Ok (demo_key 1 1)"
    by (simp add: get_active_encryption_key_def get_key_def demo_hw_keys demo_key_def)
  have one: "length (filter (\<lambda>r. n_id r = 4 \<and> n_key r = 1) (node_rows demo_split_store)) = 1"
    unfolding demo_split_store_def demo_rows by simp
  have "\<exists>s'. rebind_leaf toy 1 ''bob'' 1 (replicate 32 2) demo_split_store = (Ok (), s')"
    using demo_load i u k one
    by (simp add: rebind_leaf_def bind_run Let_def demo_node seal_share_def update_nodes_def demo_key_def)
  then obtain s' where s': "rebind_leaf toy 1 ''bob'' 1 (replicate 32 2) demo_split_store = (Ok (), s')" by blast
  from rebind_keeps_share [OF toy_box_ok demo_ids_ok this] obtain r share k' where
    r: "r \<in> set (node_rows demo_split_store)" "n_label r = ''bob''"
      "unwrap_leaf_share toy demo_split_store (n_id r) (replicate 32 2) = Ok share"
      "get_active_encryption_key demo_split_store 1 = Ok k'"
      "\<forall>sk. unwrap_leaf_share toy s' (n_id r) sk =
          (if length sk \<noteq> 32 then Err InvalidPublicKey
           else if hw_public k' \<noteq> x25519_public toy sk then Err IntegrityCheckFailed else Ok share)" by blast
  have "n_id r = 4" using r(1,2) unfolding demo_split_store_def demo_rows by auto
  moreover have "k' = demo_key 1 1" using r(4) k by simp
  ultimately have "unwrap_leaf_share toy s' (n_id r) (replicate 32 1) = Ok [1, 2, 7]"
    using r(3,5) u \<open>k' = demo_key 1 1\<close> by (simp add: demo_key_def)
  then show ?thesis using s' r(2) by blast
qed

end
