(* ===== verification/TreeReshare.thy ===== *)
theory TreeReshare
  imports TreeOps Pss
begin

text \<open>
  \<open>add_leaf_and_reshare\<close> of \<open>src/key_tree.rs\<close>: recover the secret of a split from the shares its
  leaves present, deal it again to one more leaf, and seal every leaf's row again.
\<close>

section \<open>Adding a leaf\<close>

definition require_recoverable :: "bytes list \<Rightarrow> unit result" where
  "require_recoverable raws =
     (if \<exists>r \<in> set raws. r = [] then Err ShareShapeMismatch
      else require_distinct_nonzero_xs (map hd raws))"

definition recover_secret :: "crates \<Rightarrow> nat \<Rightarrow> bytes list \<Rightarrow> bytes result" where
  "recover_secret C t raws =
     and_then (require_recoverable raws) (\<lambda>_.
     if \<exists>r \<in> set raws. \<not> share_try_from C r then Err QuorumNotMet
     else ok_or QuorumNotMet (shamir_recover C t raws))"

text \<open>The children a split may be reshared over: active ones, and all of them leaves.\<close>

fun leaf_children :: "error \<Rightarrow> key_tree \<Rightarrow> nat list \<Rightarrow> nat list result" where
  "leaf_children e T [] = Ok []"
| "leaf_children e T (c # cs) =
     (if \<not> kn_active (kt_nodes T ! c) then leaf_children e T cs
      else if kn_hw (kt_nodes T ! c) = None then Err e
      else and_then (leaf_children e T cs) (\<lambda>is. Ok (c # is)))"

text \<open>Seal a share to a key and store it as the wrapped share of a row.\<close>

definition put_share :: "crates \<Rightarrow> int \<times> hw_row \<times> bytes \<Rightarrow> (store, unit) op" where
  "put_share C = (\<lambda>(d, hk, share).
     bind (seal_share C hk share) (\<lambda>wrapped.
     bind (update_nodes (\<lambda>r. n_id r = d) (\<lambda>r. r\<lparr>n_wrapped := Some wrapped\<rparr>)) (\<lambda>_. ret ())))"

definition reseal :: "crates \<Rightarrow> key_tree \<Rightarrow> nat \<times> bytes \<Rightarrow> (store, unit) op" where
  "reseal C T = (\<lambda>(i, share).
     let n = kt_nodes T ! i in
     bind (lift_result (ok_or CannotAddLeaf (kn_hw n))) (\<lambda>h.
     bind (asks (\<lambda>s. get_active_encryption_key s h)) (\<lambda>hk.
     put_share C (kn_db n, hk, share))))"

definition add_leaf_body ::
  "crates \<Rightarrow> int \<Rightarrow> string \<Rightarrow> string \<Rightarrow> int \<Rightarrow> (int \<rightharpoonup> bytes) \<Rightarrow> (store, int) op" where
  "add_leaf_body C key parent_label new_label new_hw presented =
     bind (asks (\<lambda>s. load s key)) (\<lambda>T.
     bind (guard (kt_by_label T new_label = None) DuplicateNodeLabel) (\<lambda>_.
     bind (lift_result (index_by_label T parent_label)) (\<lambda>p.
     let parent = kt_nodes T ! p in
     bind (lift_result (ok_or CannotAddLeaf (kn_threshold parent))) (\<lambda>threshold.
     bind (lift_result (leaf_children CannotAddLeaf T (kn_children parent))) (\<lambda>leaves.
     let n = length leaves + 1 in
     bind (guard (\<not> (n > 255 \<or> threshold > n)) CannotAddLeaf) (\<lambda>_.
     let raws = List.map_filter (\<lambda>i. presented (kn_db (kt_nodes T ! i))) leaves in
     bind (guard (\<not> length raws < threshold) QuorumNotMet) (\<lambda>_.
     bind (lift_result (require_recoverable raws)) (\<lambda>_.
     bind (lift_result (recover_secret C (usize_as_u8 threshold) raws)) (\<lambda>secret.
     bind (asks (\<lambda>s. get_active_encryption_key s new_hw)) (\<lambda>_.
     bind draw (\<lambda>coin.
     let shares = take n (shamir_deal C (usize_as_u8 threshold) secret coin) in
     bind (guard (length shares = n) InvalidQuorumThreshold) (\<lambda>_.
     bind (for_each (reseal C T) (zip leaves shares)) (\<lambda>_.
     bind (asks (\<lambda>s. get_active_encryption_key s new_hw)) (\<lambda>hk.
     bind (seal_share C hk (shares ! (n - 1))) (\<lambda>wrapped.
     insert_node (\<lambda>i. \<lparr> n_id = i, n_key = key, n_parent = Some (kn_db parent), n_label = new_label,
       n_threshold = None, n_hw = Some new_hw, n_wrapped = Some wrapped, n_active = True \<rparr>))))))))))))))))"

definition add_leaf_and_reshare ::
  "crates \<Rightarrow> int \<Rightarrow> string \<Rightarrow> string \<Rightarrow> int \<Rightarrow> (int \<rightharpoonup> bytes) \<Rightarrow> (store, int) op" where
  "add_leaf_and_reshare C key parent_label new_label new_hw presented =
     (if new_label = [] then fail DuplicateNodeLabel
      else transaction (add_leaf_body C key parent_label new_label new_hw presented))"

section \<open>Rows that are sealed again\<close>

definition sealed_to :: "crates \<Rightarrow> store \<Rightarrow> int \<Rightarrow> bytes \<Rightarrow> bool" where
  "sealed_to C s i share \<longleftrightarrow> (\<exists>r h k coin. node_table.row_of s i = Some r \<and> n_hw r = Some h
     \<and> get_key s h = Ok k \<and> n_wrapped r = Some (box_seal C (hw_public k) coin share))"

lemma unwrap_sealed:
  "box_ok C \<Longrightarrow> sealed_to C s i share \<Longrightarrow> unwrap_leaf_share C s i sk = Ok w \<Longrightarrow> w = share"
  by (auto simp: sealed_to_def unwrap_leaf_share_def box_unseal_seal split: if_splits)

lemma sealed_to_cong:
  "node_table.row_of s i = node_table.row_of t i \<Longrightarrow> hw_rows s = hw_rows t \<Longrightarrow> sealed_to C s i share = sealed_to C t i share"
  by (simp add: sealed_to_def get_key_def)

lemma sealed_to_draws: "sealed_to C (s\<lparr>draws := d\<rparr>) = sealed_to C s"
  by (simp add: sealed_to_def node_table.row_of_def get_key_def fun_eq_iff)

text \<open>Only the wrapped shares of the rows \<open>D\<close> and the draws differ.\<close>

definition resealed :: "int set \<Rightarrow> store \<Rightarrow> store \<Rightarrow> bool" where
  "resealed D s s' \<longleftrightarrow> (\<exists>w d. s' = s\<lparr>node_rows :=
     map (\<lambda>r. if n_id r \<in> D then r\<lparr>n_wrapped := w (n_id r)\<rparr> else r) (node_rows s), draws := d\<rparr>)"

lemma resealed_refl: "resealed {} s s"
  unfolding resealed_def by (rule exI, rule exI [of _ "draws s"]) simp

lemma resealed_trans:
  assumes "resealed D s t" "resealed E t u"
  shows "resealed (D \<union> E) s u"
proof -
  from assms obtain v c w d where
    t: "t = s\<lparr>node_rows := map (\<lambda>r. if n_id r \<in> D then r\<lparr>n_wrapped := v (n_id r)\<rparr> else r) (node_rows s), draws := c\<rparr>" and
    u: "u = t\<lparr>node_rows := map (\<lambda>r. if n_id r \<in> E then r\<lparr>n_wrapped := w (n_id r)\<rparr> else r) (node_rows t), draws := d\<rparr>"
    unfolding resealed_def by blast
  show ?thesis
    unfolding resealed_def u t
    by (rule exI [of _ "\<lambda>i. if i \<in> E then w i else v i"], rule exI [of _ d]) simp
qed

lemma resealed_fields:
  assumes "resealed D s s'"
  shows "hw_rows s' = hw_rows s" "bridge_rows s' = bridge_rows s" "link_rows s' = link_rows s"
    "key_rows s' = key_rows s" "map n_id (node_rows s') = map n_id (node_rows s)" "in_tx s' = in_tx s"
  using assms by (auto simp: resealed_def)

lemma resealed_row:
  assumes "resealed D s s'"
  shows "i \<notin> D \<Longrightarrow> node_table.row_of s' i = node_table.row_of s i"
    and "node_table.row_of s i = Some r \<Longrightarrow> \<exists>w. node_table.row_of s' i = Some (r\<lparr>n_wrapped := w\<rparr>)"
proof -
  from assms obtain w d where s': "s' = s\<lparr>node_rows :=
     map (\<lambda>r. if n_id r \<in> D then r\<lparr>n_wrapped := w (n_id r)\<rparr> else r) (node_rows s), draws := d\<rparr>"
    unfolding resealed_def by blast
  have eq: "node_table.row_of s' j
      = map_option (\<lambda>r. if n_id r \<in> D then r\<lparr>n_wrapped := w (n_id r)\<rparr> else r) (node_table.row_of s j)" for j
    unfolding s' by (rule row_of_map) simp
  show "i \<notin> D \<Longrightarrow> node_table.row_of s' i = node_table.row_of s i"
    unfolding eq using node_table.row_of_SomeD [of s i] by (cases "node_table.row_of s i") auto
  assume r: "node_table.row_of s i = Some r"
  show "\<exists>w. node_table.row_of s' i = Some (r\<lparr>n_wrapped := w\<rparr>)"
  proof (cases "n_id r \<in> D")
    case False
    then show ?thesis unfolding eq r by (intro exI [of _ "n_wrapped r"]) simp
  qed (auto simp: eq r)
qed

lemma put_share_Ok:
  assumes "put_share C (d, hk, share) s = (Ok u, s')"
  shows "resealed {d} s s'"
    and "\<exists>coin. \<forall>r. node_table.row_of s d = Some r \<longrightarrow>
       node_table.row_of s' d = Some (r\<lparr>n_wrapped := Some (box_seal C (hw_public hk) coin share)\<rparr>)"
proof -
  let ?w = "Some (box_seal C (hw_public hk) (draws s) share)"
  have s': "s' = s\<lparr>node_rows := map (\<lambda>r. if n_id r = d then r\<lparr>n_wrapped := ?w\<rparr> else r) (node_rows s),
      draws := Suc (draws s)\<rparr>"
    using assms by (auto simp: put_share_def seal_share_def update_nodes_def bind_run split: if_splits)
  show "resealed {d} s s'"
    unfolding resealed_def s' by (rule exI [of _ "\<lambda>_. ?w"], rule exI [of _ "Suc (draws s)"]) simp
  have "node_table.row_of s' d = map_option (\<lambda>r. if n_id r = d then r\<lparr>n_wrapped := ?w\<rparr> else r) (node_table.row_of s d)"
    unfolding s' by (rule row_of_map) simp
  then show "\<exists>coin. \<forall>r. node_table.row_of s d = Some r \<longrightarrow>
       node_table.row_of s' d = Some (r\<lparr>n_wrapped := Some (box_seal C (hw_public hk) coin share)\<rparr>)"
    using node_table.row_of_SomeD [of s d] by (intro exI [of _ "draws s"]) auto
qed

lemma put_shares_Ok:
  assumes "for_each (put_share C) L s = (Ok u, s')" "distinct (map fst L)"
  shows "resealed (fst ` set L) s s'
    \<and> (\<forall>(d, hk, share) \<in> set L. \<exists>coin. \<forall>r. node_table.row_of s d = Some r \<longrightarrow>
         node_table.row_of s' d = Some (r\<lparr>n_wrapped := Some (box_seal C (hw_public hk) coin share)\<rparr>))"
  using assms
proof (induction L arbitrary: s)
  case Nil
  then show ?case by (simp add: resealed_refl)
next
  case (Cons x L)
  obtain d hk share where x: "x = (d, hk, share)" by (cases x) auto
  from Cons.prems(1) obtain v t where 1: "put_share C (d, hk, share) s = (Ok v, t)"
    and 2: "for_each (put_share C) L t = (Ok u, s')" by (auto simp: x elim: bind_Ok_elim)
  have IH: "resealed (fst ` set L) t s'" "\<forall>(e, hk, share) \<in> set L. \<exists>coin. \<forall>r. node_table.row_of t e = Some r \<longrightarrow>
         node_table.row_of s' e = Some (r\<lparr>n_wrapped := Some (box_seal C (hw_public hk) coin share)\<rparr>)"
    using Cons.IH [OF 2] Cons.prems(2) by auto
  have "d \<notin> fst ` set L" using Cons.prems(2) by (simp add: x)
  then have "node_table.row_of s' d = node_table.row_of t d" by (rule resealed_row(1) [OF IH(1)])
  moreover have "node_table.row_of t e = node_table.row_of s e" if "e \<noteq> d" for e
    using resealed_row(1) [OF put_share_Ok(1) [OF 1]] that by simp
  moreover have "e \<noteq> d" if "(e, hk', share') \<in> set L" for e hk' share'
    using Cons.prems(2) that by (force simp: x)
  ultimately show ?case
    using resealed_trans [OF put_share_Ok(1) [OF 1] IH(1)] put_share_Ok(2) [OF 1] IH(2)
    by (fastforce simp: x)
qed

section \<open>Adding a leaf deals the same secret\<close>

definition thresholds_ok :: "store \<Rightarrow> bool" where
  "thresholds_ok s \<longleftrightarrow> (\<forall>r \<in> set (node_rows s). \<forall>t. n_threshold r = Some t \<longrightarrow> 0 < t \<and> t < 2 ^ 63)"

text \<open>The active children of a node, as rows.\<close>

definition kids :: "store \<Rightarrow> int \<Rightarrow> int \<Rightarrow> node_row list" where
  "kids s key p = filter (\<lambda>r. n_parent r = Some p \<and> n_active r) (key_node_rows s key)"

lemma leaf_children_Ok:
  "leaf_children e T cs = Ok is \<longleftrightarrow>
     is = filter (\<lambda>c. kn_active (kt_nodes T ! c)) cs \<and> (\<forall>c \<in> set is. kn_hw (kt_nodes T ! c) \<noteq> None)"
  by (induction e T cs arbitrary: "is" rule: leaf_children.induct) (auto simp: and_then_Ok_iff)

lemma map_nth_filter: "map (\<lambda>i. xs ! i) (filter (\<lambda>i. P (xs ! i)) [0..<length xs]) = filter P xs"
proof -
  have "filter P (map (\<lambda>i. xs ! i) [0..<length xs]) = map (\<lambda>i. xs ! i) (filter (P \<circ> (\<lambda>i. xs ! i)) [0..<length xs])"
    by (rule filter_map)
  then show ?thesis by (simp add: map_nth comp_def)
qed

lemma arena_kids:
  assumes "load s key = Ok T" "store_ids_ok s" "j < length (key_node_rows s key)"
    and "is = filter (\<lambda>c. kn_active (kt_nodes T ! c)) (kn_children (kt_nodes T ! j))"
  shows "map (\<lambda>i. key_node_rows s key ! i) is = kids s key (n_id (key_node_rows s key ! j))"
    and "\<forall>i \<in> set is. i < length (key_node_rows s key)
       \<and> kn_db (kt_nodes T ! i) = n_id (key_node_rows s key ! i) \<and> kn_hw (kt_nodes T ! i) = n_hw (key_node_rows s key ! i)"
proof -
  let ?rows = "key_node_rows s key"
  have T: "kt_nodes T = arena_nodes ?rows (key_bridge_rows s key)" by (rule load_OkD(1) [OF assms(1,2)])
  have "is = filter (\<lambda>c. n_parent (?rows ! c) = Some (n_id (?rows ! j)) \<and> n_active (?rows ! c)) [0..<length ?rows]"
    unfolding assms(4) T using assms(3) by (auto intro!: filter_cong)
  then show "map (\<lambda>i. ?rows ! i) is = kids s key (n_id (?rows ! j))"
    and "\<forall>i \<in> set is. i < length ?rows \<and> kn_db (kt_nodes T ! i) = n_id (?rows ! i) \<and> kn_hw (kt_nodes T ! i) = n_hw (?rows ! i)"
    using map_nth_filter [of ?rows "\<lambda>r. n_parent r = Some (n_id (?rows ! j)) \<and> n_active r"]
    by (auto simp: kids_def T)
qed

definition leaf_hk :: "store \<Rightarrow> key_tree \<Rightarrow> nat \<Rightarrow> hw_row" where
  "leaf_hk s T i = (case get_active_encryption_key s (the (kn_hw (kt_nodes T ! i))) of Ok k \<Rightarrow> k)"

lemma put_share_keys: "put_share C (d, hk, w) t = (Ok u, t') \<Longrightarrow> hw_rows t' = hw_rows t"
  by (rule resealed_fields(1) [OF put_share_Ok(1)])

lemma reseal_put:
  assumes "for_each (reseal C T) L t = (Ok u, s')" "hw_rows t = hw_rows s"
  shows "for_each (put_share C) (map (\<lambda>(i, w). (kn_db (kt_nodes T ! i), leaf_hk s T i, w)) L) t = (Ok u, s')
     \<and> (\<forall>(i, w) \<in> set L. \<exists>h. kn_hw (kt_nodes T ! i) = Some h \<and> get_active_encryption_key s h = Ok (leaf_hk s T i))"
  using assms
proof (induction L arbitrary: t)
  case (Cons x L)
  obtain i w where x: "x = (i, w)" by (cases x) auto
  from Cons.prems(1) obtain v t' where r: "reseal C T (i, w) t = (Ok v, t')" "for_each (reseal C T) L t' = (Ok u, s')"
    by (auto simp: x elim: bind_Ok_elim)
  from r(1) obtain h k where h: "kn_hw (kt_nodes T ! i) = Some h" "get_active_encryption_key t h = Ok k"
      and put: "put_share C (kn_db (kt_nodes T ! i), k, w) t = (Ok v, t')"
    by (auto simp: reseal_def Let_def elim!: bind_Ok_elim)
  have act: "get_active_encryption_key s h = Ok k"
    using h(2) active_key_cong [OF Cons.prems(2), of h] by simp
  then have k: "leaf_hk s T i = k" using h(1) by (simp add: leaf_hk_def)
  have "hw_rows t' = hw_rows s" using put_share_keys [OF put] Cons.prems(2) by simp
  from Cons.IH [OF r(2) this] show ?case
    using h(1) act put by (simp add: x k)
qed simp

definition leaf_row :: "int \<Rightarrow> int \<Rightarrow> string \<Rightarrow> int \<Rightarrow> bytes \<Rightarrow> int \<Rightarrow> node_row" where
  "leaf_row key parent label h wrapped i = \<lparr> n_id = i, n_key = key, n_parent = Some parent, n_label = label,
     n_threshold = None, n_hw = Some h, n_wrapped = Some wrapped, n_active = True \<rparr>"

lemma add_leaf_body_Ok:
  assumes "add_leaf_body C key pl nl hw presented s = (Ok new, s')"
  obtains T p t leaves secret s2 hk wrapped s3 where
    "load s key = Ok T" "index_by_label T pl = Ok p" "kn_threshold (kt_nodes T ! p) = Some t"
    "leaf_children CannotAddLeaf T (kn_children (kt_nodes T ! p)) = Ok leaves"
    "length leaves < 255"
    "recover_secret C (usize_as_u8 t) (List.map_filter (\<lambda>i. presented (kn_db (kt_nodes T ! i))) leaves) = Ok secret"
    "t \<le> Suc (length leaves)"
    "length (take (Suc (length leaves)) (shamir_deal C (usize_as_u8 t) secret (draws s))) = Suc (length leaves)"
    "for_each (reseal C T) (zip leaves (take (Suc (length leaves)) (shamir_deal C (usize_as_u8 t) secret (draws s))))
       (s\<lparr>draws := Suc (draws s)\<rparr>) = (Ok (), s2)"
    "get_active_encryption_key s2 hw = Ok hk"
    "seal_share C hk (shamir_deal C (usize_as_u8 t) secret (draws s) ! length leaves) s2 = (Ok wrapped, s3)"
    "insert_node (leaf_row key (kn_db (kt_nodes T ! p)) nl hw wrapped) s3 = (Ok new, s')"
  using assms unfolding add_leaf_body_def Let_def leaf_row_def [abs_def]
  by (elim bind_Ok_elim) (auto simp del: take_all_iff length_take split: if_splits)

lemma resealed_kids:
  assumes "resealed D s s'"
  shows "map n_id (kids s' key p) = map n_id (kids s key p)"
proof -
  from assms obtain w d where s': "s' = s\<lparr>node_rows :=
     map (\<lambda>r. if n_id r \<in> D then r\<lparr>n_wrapped := w (n_id r)\<rparr> else r) (node_rows s), draws := d\<rparr>"
    unfolding resealed_def by blast
  have "map n_id (filter P (map (\<lambda>r. if n_id r \<in> D then r\<lparr>n_wrapped := w (n_id r)\<rparr> else r) rs))
      = map n_id (filter P rs)" if "\<And>r v. P (r\<lparr>n_wrapped := v\<rparr>) = P r" for P rs
    by (induction rs) (auto simp: that)
  from this [of "\<lambda>r. (n_parent r = Some p \<and> n_active r) \<and> n_key r = key"] show ?thesis
    by (simp add: kids_def key_node_rows_def s' conj_commute)
qed

lemma seal_share_Ok:
  "seal_share C hk w s = (Ok b, s') \<Longrightarrow> b = box_seal C (hw_public hk) (draws s) w \<and> s' = s\<lparr>draws := Suc (draws s)\<rparr>"
  by (auto simp: seal_share_def split: if_splits)

lemma threshold_range:
  assumes "0 < t" "t < 2 ^ 63" "i64_as_usize t \<le> 255"
  shows "usize_as_u8 (i64_as_usize t) = nat t" "1 \<le> nat t" "nat t \<le> 255" "i64_as_usize t = nat t"
proof -
  have "i64_as_usize t = nat t" using assms(1,2) by (simp add: i64_as_usize_def)
  then show "usize_as_u8 (i64_as_usize t) = nat t" "1 \<le> nat t" "nat t \<le> 255" "i64_as_usize t = nat t"
    using assms by simp_all
qed

lemma presented_kids:
  "List.map_filter (\<lambda>i. f (g i)) is = List.map_filter f (map g is)"
  by (induction "is") (auto simp: List.map_filter_def)

text \<open>After the loop every child's row is sealed to its share, and nothing else changed.\<close>

lemma reseal_loop:
  assumes T: "load s key = Ok T" "store_ids_ok s" "j < length (key_node_rows s key)"
    and leaves: "leaf_children e T (kn_children (kt_nodes T ! j)) = Ok leaves"
    and K: "K = kids s key (n_id (key_node_rows s key ! j))"
    and len: "length leaves \<le> length shs"
    and loop: "for_each (reseal C T) (zip leaves shs) (s\<lparr>draws := d\<rparr>) = (Ok (), s2)"
  shows "resealed (n_id ` set K) (s\<lparr>draws := d\<rparr>) s2"
    and "map (\<lambda>i. kn_db (kt_nodes T ! i)) leaves = map n_id K"
    and "\<forall>i < length K. sealed_to C s2 (n_id (K ! i)) (shs ! i)"
proof -
  let ?rows = "key_node_rows s key" and ?s1 = "s\<lparr>draws := d\<rparr>"
  let ?L = "map (\<lambda>(i, w). (kn_db (kt_nodes T ! i), leaf_hk s T i, w)) (zip leaves shs)"
  have lv: "leaves = filter (\<lambda>c. kn_active (kt_nodes T ! c)) (kn_children (kt_nodes T ! j))"
    using leaves leaf_children_Ok by blast
  note arena = arena_kids [OF T lv, folded K]
  show dbs: "map (\<lambda>i. kn_db (kt_nodes T ! i)) leaves = map n_id K"
    using arena(2) by (simp flip: arena(1))
  have put: "for_each (put_share C) ?L ?s1 = (Ok (), s2)"
    and keys: "\<forall>(i, w) \<in> set (zip leaves shs). \<exists>h. kn_hw (kt_nodes T ! i) = Some h
        \<and> get_active_encryption_key s h = Ok (leaf_hk s T i)"
    using reseal_put [OF loop, of s] by simp_all
  have "map fst ?L = map (\<lambda>i. kn_db (kt_nodes T ! i)) (map fst (zip leaves shs))"
    by (simp add: case_prod_beta comp_def)
  also have "map fst (zip leaves shs) = leaves" using len by (simp add: map_fst_zip_take)
  finally have fstL: "map fst ?L = map n_id K" using dbs by simp
  have dK: "distinct (map n_id K)"
    unfolding K kids_def using key_rows_distinct [OF T(2)] by (rule distinct_map_filter)
  then have "distinct (map fst ?L)" unfolding fstL .
  note put_ok = put_shares_Ok [OF put this]
  have "resealed (fst ` set ?L) ?s1 s2" using put_ok by (rule conjunct1)
  moreover have "fst ` set ?L = n_id ` set K" using fstL by (metis set_map)
  ultimately show rs: "resealed (n_id ` set K) ?s1 s2" by (simp only:)
  show "\<forall>i < length K. sealed_to C s2 (n_id (K ! i)) (shs ! i)"
  proof (intro allI impI)
    fix i assume "i < length K"
    then have i: "i < length leaves" "i < length shs" using arena(1) len by (metis length_map, metis length_map order_less_le_trans)
    let ?c = "leaves ! i"
    have Ki: "K ! i = ?rows ! ?c" using i(1) by (simp flip: arena(1))
    have c: "?c < length ?rows" "kn_db (kt_nodes T ! ?c) = n_id (K ! i)" "kn_hw (kt_nodes T ! ?c) = n_hw (K ! i)"
      using arena(2) i(1) Ki by simp_all
    have mem: "K ! i \<in> set (node_rows s)" using c(1) nth_mem [of ?c ?rows] Ki by (auto simp: key_node_rows_def)
    have zip: "(?c, shs ! i) \<in> set (zip leaves shs)" using i by (force simp: set_zip)
    obtain h where h: "n_hw (K ! i) = Some h" "get_active_encryption_key s h = Ok (leaf_hk s T ?c)"
      using bspec [OF keys zip] c(3) by auto
    have "(n_id (K ! i), leaf_hk s T ?c, shs ! i) \<in> set ?L" using zip c(2) by force
    then obtain coin where "\<forall>r. node_table.row_of ?s1 (n_id (K ! i)) = Some r \<longrightarrow> node_table.row_of s2 (n_id (K ! i))
        = Some (r\<lparr>n_wrapped := Some (box_seal C (hw_public (leaf_hk s T ?c)) coin (shs ! i))\<rparr>)"
      using put_ok by fastforce
    moreover have "node_table.row_of ?s1 (n_id (K ! i)) = Some (K ! i)"
      unfolding node_table.row_of_def using T(2) mem by (intro find_unique) (auto simp: store_ids_ok_def)
    moreover have key: "get_key s2 h = Ok (leaf_hk s T ?c)"
      using h(2) get_key_fields [of s2 s h] resealed_fields(1) [OF rs] by (simp add: get_active_encryption_key_Ok_iff)
    ultimately have "node_table.row_of s2 (n_id (K ! i))
        = Some ((K ! i)\<lparr>n_wrapped := Some (box_seal C (hw_public (leaf_hk s T ?c)) coin (shs ! i))\<rparr>)" by blast
    then show "sealed_to C s2 (n_id (K ! i)) (shs ! i)"
      unfolding sealed_to_def using h(1) key by auto
  qed
qed

text \<open>The new row beside the sealed ones.\<close>

lemma insert_leaf:
  assumes "insert_node (leaf_row key q nl h w) s = (Ok new, s')"
  shows "kids s' key q = kids s key q @ [leaf_row key q nl h w new]"
    and "new \<notin> n_id ` set (node_rows s)" and "hw_rows s' = hw_rows s"
    and "node_table.row_of s' new = Some (leaf_row key q nl h w new)"
    and "\<And>i. i \<noteq> new \<Longrightarrow> node_table.row_of s' i = node_table.row_of s i"
    and "in_tx s' = in_tx s" and "n_id (leaf_row key q nl h w new) = new"
proof -
  show id: "n_id (leaf_row key q nl h w new) = new" by (simp add: leaf_row_def)
  have n: "new = next_rowid (map n_id (node_rows s)) \<and> node_rows s' = node_rows s @ [leaf_row key q nl h w new]"
    by (rule node_table.ins_Ok [OF assms])
  then show "kids s' key q = kids s key q @ [leaf_row key q nl h w new]"
    by (simp add: kids_def key_node_rows_def leaf_row_def)
  show "new \<notin> n_id ` set (node_rows s)" using n next_rowid_fresh [of "map n_id (node_rows s)"] by simp
  show "hw_rows s' = hw_rows s" "in_tx s' = in_tx s"
    using assms by (auto simp: insert_node_run Let_def split: if_splits)
  show "node_table.row_of s' new = Some (leaf_row key q nl h w new)"
    by (rule node_table.row_of_new [OF assms id])
  show "\<And>i. i \<noteq> new \<Longrightarrow> node_table.row_of s' i = node_table.row_of s i"
    by (rule node_table.row_of_old [OF assms id])
qed

text \<open>The shares \<open>shs\<close> are those the active children of \<open>p\<close> are sealed to, in their order.\<close>

definition children_hold :: "crates \<Rightarrow> store \<Rightarrow> int \<Rightarrow> int \<Rightarrow> bytes list \<Rightarrow> bool" where
  "children_hold C s key p shs \<longleftrightarrow> length shs = length (kids s key p)
     \<and> (\<forall>i < length shs. sealed_to C s (n_id (kids s key p ! i)) (shs ! i))"

lemma children_hold_insert:
  assumes ins: "insert_node (leaf_row key p nl h w) s = (Ok new, s')"
    and K: "map n_id (kids s key p) = map n_id K" "n_id ` set K \<subseteq> n_id ` set (node_rows s)"
    and old: "\<forall>i < length K. sealed_to C s (n_id (K ! i)) (shs ! i)" and len: "length shs = Suc (length K)"
    and new: "get_key s h = Ok k" "w = box_seal C (hw_public k) coin (shs ! length K)"
  shows "children_hold C s' key p shs"
  unfolding children_hold_def
proof (intro conjI allI impI)
  note I = insert_leaf [OF ins]
  have lK: "length (kids s key p) = length K" using K(1) by (metis length_map)
  show "length shs = length (kids s' key p)" by (simp add: I(1) len lK)
  fix i assume "i < length shs"
  then consider (old) "i < length K" | (new) "i = length K" using len by linarith
  then show "sealed_to C s' (n_id (kids s' key p ! i)) (shs ! i)"
  proof cases
    case old
    have id: "n_id (kids s' key p ! i) = n_id (K ! i)"
      using old lK K(1) by (metis I(1) nth_append nth_map)
    have "n_id (K ! i) \<noteq> new" using K(2) I(2) nth_mem [OF old] by auto
    then have "node_table.row_of s (n_id (K ! i)) = node_table.row_of s' (n_id (K ! i))" using I(5) by simp
    from sealed_to_cong [OF this, of C "shs ! i"] I(3) show ?thesis
      using assms(4) old id by simp
  next
    case new
    have "get_key s' h = Ok k" using assms(6) get_key_fields [OF I(3)] by simp
    then have "sealed_to C s' new (shs ! i)"
      unfolding sealed_to_def using I(4) assms(7) new by (auto simp: leaf_row_def)
    moreover have "kids s' key p ! i = leaf_row key p nl h w new" by (simp add: I(1) new lK [symmetric])
    ultimately show ?thesis using I(7) by simp
  qed
qed

lemma add_leaf_body_spec:
  assumes "thresholds_ok s" "store_ids_ok s"
    and run: "add_leaf_body C key pl nl hw presented s = (Ok new, s')"
  shows "\<exists>p t secret. p \<in> set (key_node_rows s key) \<and> n_label p = pl \<and> n_threshold p = Some t
    \<and> recover_secret C (nat t) (List.map_filter (\<lambda>r. presented (n_id r)) (kids s key (n_id p))) = Ok secret
    \<and> 1 \<le> nat t \<and> nat t \<le> 255
    \<and> map n_id (kids s' key (n_id p)) = map n_id (kids s key (n_id p)) @ [new]
    \<and> children_hold C s' key (n_id p)
         (take (Suc (length (kids s key (n_id p)))) (shamir_deal C (nat t) secret (draws s)))
    \<and> (\<forall>i. i \<notin> n_id ` set (kids s' key (n_id p)) \<longrightarrow> node_table.row_of s' i = node_table.row_of s i)"
proof (rule add_leaf_body_Ok [OF run])
  fix T j t secret s2 hk wrapped s3 and leaves :: "nat list"
  let ?shs = "take (Suc (length leaves)) (shamir_deal C (usize_as_u8 t) secret (draws s))"
  assume T: "load s key = Ok T" and j: "index_by_label T pl = Ok j" and t: "kn_threshold (kt_nodes T ! j) = Some t"
    and lv: "leaf_children CannotAddLeaf T (kn_children (kt_nodes T ! j)) = Ok leaves" and n: "length leaves < 255"
    and sec: "recover_secret C (usize_as_u8 t) (List.map_filter (\<lambda>i. presented (kn_db (kt_nodes T ! i))) leaves) = Ok secret"
    and tn: "t \<le> Suc (length leaves)" and len: "length ?shs = Suc (length leaves)"
    and loop: "for_each (reseal C T) (zip leaves ?shs) (s\<lparr>draws := Suc (draws s)\<rparr>) = (Ok (), s2)"
    and hk: "get_active_encryption_key s2 hw = Ok hk"
    and seal: "seal_share C hk (shamir_deal C (usize_as_u8 t) secret (draws s) ! length leaves) s2 = (Ok wrapped, s3)"
    and ins: "insert_node (leaf_row key (kn_db (kt_nodes T ! j)) nl hw wrapped) s3 = (Ok new, s')"
  obtain p where p: "n_label p = pl" "kn_db (kt_nodes T ! j) = n_id p" "p = key_node_rows s key ! j"
      "j < length (key_node_rows s key)" "p \<in> set (node_rows s)"
    using index_by_label_row [OF T assms(2) j] by blast
  have "map_option i64_as_usize (n_threshold p) = Some t" using t load_OkD(1) [OF T assms(2)] p(3,4) by simp
  then obtain tt where tt: "n_threshold p = Some tt" "t = i64_as_usize tt" by blast
  have tr: "usize_as_u8 t = nat tt" "1 \<le> nat tt" "nat tt \<le> 255"
    using assms(1) p(5) tt tn n threshold_range [of tt] by (auto simp: thresholds_ok_def)
  let ?K = "kids s key (n_id p)"
  note L = reseal_loop [OF T assms(2) p(4) lv refl, of ?shs, folded p(3), OF _ loop]
  have le: "length leaves \<le> length ?shs" using len by (simp only:)
  have lK: "length leaves = length ?K" using arg_cong [OF L(2) [OF le], of length] by simp
  have s3: "s3 = s2\<lparr>draws := Suc (draws s2)\<rparr>" and
    wr: "wrapped = box_seal C (hw_public hk) (draws s2) (?shs ! length ?K)"
    using seal_share_Ok [OF seal] lK by simp_all
  have R3: "resealed (n_id ` set ?K) (s\<lparr>draws := Suc (draws s)\<rparr>) s2" by (rule L(1) [OF le])
  have rows3: "node_table.row_of s3 i = node_table.row_of s2 i" for i by (simp add: s3 node_table.row_of_def)
  have K3: "map n_id (kids s3 key (n_id p)) = map n_id ?K"
    using resealed_kids [OF R3, of key "n_id p"] by (simp add: s3 kids_def key_node_rows_def)
  have ids3: "map n_id (node_rows s3) = map n_id (node_rows s)" using resealed_fields(5) [OF R3] by (simp add: s3)
  have "n_id ` set ?K \<subseteq> set (map n_id (node_rows s))" by (auto simp: kids_def key_node_rows_def)
  then have Ksub: "n_id ` set ?K \<subseteq> n_id ` set (node_rows s3)" by (simp add: ids3 flip: set_map)
  have old: "\<forall>i < length ?K. sealed_to C s3 (n_id (?K ! i)) (?shs ! i)"
    using L(3) [OF le] unfolding s3 sealed_to_draws .
  have hk3: "get_key s3 hw = Ok hk" using hk by (simp add: get_active_encryption_key_Ok_iff s3 get_key_def)
  have "children_hold C s' key (n_id p) ?shs"
    by (rule children_hold_insert [OF ins [unfolded p(2)] K3 Ksub old _ hk3 wr]) (use len lK in simp)
  moreover have "map n_id (kids s' key (n_id p)) = map n_id ?K @ [new]"
    using insert_leaf(1,7) [OF ins [unfolded p(2)]] K3 by simp
  moreover have "node_table.row_of s' i = node_table.row_of s i" if "i \<notin> n_id ` set (kids s' key (n_id p))" for i
  proof -
    have "i \<notin> set (map n_id (kids s' key (n_id p)))" using that by simp
    then have "i \<noteq> new" "i \<notin> n_id ` set ?K" unfolding calculation(2) by auto
    then show ?thesis
      using insert_leaf(5) [OF ins] rows3 resealed_row(1) [OF R3] by (simp add: node_table.row_of_def)
  qed
  moreover have "List.map_filter (\<lambda>i. presented (kn_db (kt_nodes T ! i))) leaves
      = List.map_filter (\<lambda>r. presented (n_id r)) ?K"
    using presented_kids [of presented "\<lambda>i. kn_db (kt_nodes T ! i)" leaves] presented_kids [of presented n_id ?K]
      L(2) [OF le] by simp
  moreover have "p \<in> set (key_node_rows s key)" using p(3,4) by simp
  ultimately show ?thesis
    using p(1) tt(1) sec tr lK by (intro exI [of _ p] exI [of _ tt] exI [of _ secret]) simp
qed

lemma children_recover:
  assumes "shamir_ok C" "box_ok C" "1 \<le> t" "t \<le> 255" "secret \<noteq> []"
    and hold: "children_hold C s key p (take m (shamir_deal C t secret coin))"
    and js: "distinct js" "\<forall>j \<in> set js. j < length (kids s key p)" "t \<le> length js" "length ws = length js"
    and ws: "\<forall>i < length js. \<exists>sk. unwrap_leaf_share C s (n_id (kids s key p ! (js ! i))) sk = Ok (ws ! i)"
  shows "shamir_recover C t ws = Some secret"
proof -
  let ?shs = "take m (shamir_deal C t secret coin)"
  have len: "length ?shs = length (kids s key p)" using hold by (simp only: children_hold_def)
  have "ws ! i = ?shs ! (js ! i)" if "i < length js" for i
  proof -
    have "js ! i < length ?shs" using js(2) that len by simp
    then have "sealed_to C s (n_id (kids s key p ! (js ! i))) (?shs ! (js ! i))"
      using hold by (simp only: children_hold_def)
    then show ?thesis using ws that unwrap_sealed [OF assms(2)] by blast
  qed
  then have "ws = map (\<lambda>j. ?shs ! j) js" using js(4) by (simp add: list_eq_iff_nth_eq)
  moreover have "distinct ?shs"
    using shamir_deal_xs [OF assms(1,3,4), of secret coin] by (simp add: distinct_map)
  then have "distinct (map (\<lambda>j. ?shs ! j) js)"
    using js(1,2) len by (auto simp: distinct_map inj_on_def nth_eq_iff_index_eq)
  moreover have "set (map (\<lambda>j. ?shs ! j) js) \<subseteq> set (shamir_deal C t secret coin)"
    using js(2) len set_take_subset [of m "shamir_deal C t secret coin"] nth_mem [of _ ?shs] by fastforce
  ultimately show ?thesis
    using shamir_recover_deal [OF assms(1,3,4,5)] js(3) by simp
qed

lemma body_in_tx:
  assumes "transaction m s = (Ok a, s')"
  obtains t where "m (s\<lparr>in_tx := True\<rparr>) = (Ok a, t)" "s' = t\<lparr>in_tx := False\<rparr>"
  using assms by (elim transaction_Ok_elim) blast

lemma in_tx_reads [simp]:
  "kids (s\<lparr>in_tx := b\<rparr>) = kids s" "key_node_rows (s\<lparr>in_tx := b\<rparr>) = key_node_rows s"
  "node_table.row_of (s\<lparr>in_tx := b\<rparr>) = node_table.row_of s"
  "unwrap_leaf_share C (s\<lparr>in_tx := b\<rparr>) = unwrap_leaf_share C s"
  by (simp_all add: fun_eq_iff kids_def key_node_rows_def node_table.row_of_def unwrap_leaf_share_def get_key_def)

text \<open>
  C5: \<open>add_leaf_and_reshare\<close> adds one active leaf under the parent and deals the secret the
  presented shares recover again: at the parent's threshold, every choice of enough children,
  old or new, whose shares are unwrapped with their hardware keys recovers that same secret.
  No row but those of the children changes.
\<close>
theorem add_leaf_reshares:
  assumes "shamir_ok C" "box_ok C" "thresholds_ok s" "store_ids_ok s"
    and "add_leaf_and_reshare C key pl nl hw presented s = (Ok new, s')"
  shows "\<exists>p t secret. p \<in> set (key_node_rows s key) \<and> n_label p = pl \<and> n_threshold p = Some t
    \<and> recover_secret C (nat t) (List.map_filter (\<lambda>r. presented (n_id r)) (kids s key (n_id p))) = Ok secret
    \<and> map n_id (kids s' key (n_id p)) = map n_id (kids s key (n_id p)) @ [new]
    \<and> (\<forall>js ws. secret \<noteq> [] \<and> distinct js \<and> (\<forall>j \<in> set js. j < length (kids s' key (n_id p)))
          \<and> nat t \<le> length js \<and> length ws = length js
          \<and> (\<forall>i < length js. \<exists>sk. unwrap_leaf_share C s' (n_id (kids s' key (n_id p) ! (js ! i))) sk = Ok (ws ! i))
          \<longrightarrow> shamir_recover C (nat t) ws = Some secret)
    \<and> (\<forall>i. i \<notin> n_id ` set (kids s' key (n_id p)) \<longrightarrow> node_table.row_of s' i = node_table.row_of s i)"
proof -
  let ?s = "s\<lparr>in_tx := True\<rparr>"
  from assms(5) obtain u where u: "add_leaf_body C key pl nl hw presented ?s = (Ok new, u)" "s' = u\<lparr>in_tx := False\<rparr>"
    by (auto simp: add_leaf_and_reshare_def split: if_splits elim: body_in_tx)
  have "thresholds_ok ?s" "store_ids_ok ?s" using assms(3,4) by (simp_all add: thresholds_ok_def store_ids_ok_def)
  from add_leaf_body_spec [OF this u(1)] obtain p t secret where
    p: "p \<in> set (key_node_rows s key)" "n_label p = pl" "n_threshold p = Some t"
      "recover_secret C (nat t) (List.map_filter (\<lambda>r. presented (n_id r)) (kids s key (n_id p))) = Ok secret"
      "1 \<le> nat t" "nat t \<le> 255" "map n_id (kids u key (n_id p)) = map n_id (kids s key (n_id p)) @ [new]"
    and hold: "children_hold C u key (n_id p)
         (take (Suc (length (kids s key (n_id p)))) (shamir_deal C (nat t) secret (draws s)))"
    and rest: "\<forall>i. i \<notin> n_id ` set (kids u key (n_id p)) \<longrightarrow> node_table.row_of u i = node_table.row_of s i"
    by auto
  note rec = children_recover [OF assms(1,2) p(5,6) _ hold]
  show ?thesis
    using p(1-4,7) rec rest unfolding u(2) in_tx_reads by blast
qed

lemma load_in_tx [simp]: "load (s\<lparr>in_tx := b\<rparr>) key = load s key"
proof -
  have "key_node_rows (s\<lparr>in_tx := b\<rparr>) key = key_node_rows s key" "key_bridge_rows (s\<lparr>in_tx := b\<rparr>) key = key_bridge_rows s key"
    by (simp_all add: key_node_rows_def key_bridge_rows_def)
  then show ?thesis unfolding load_def by (simp only:)
qed

lemma demo_add_run:
  "\<exists>new s'. add_leaf_and_reshare toy 1 ''dept'' ''dan'' 1 [4 \<mapsto> [1, 2, 7]] demo_split_store = (Ok new, s')"
proof -
  let ?s = "demo_split_store"
  have l: "kt_by_label demo_arena ''dan'' = None" "index_by_label demo_arena ''dept'' = Ok 2"
    by (simp_all add: index_by_label_def demo_arena_def label_map_def demo_split_store_def demo_rows)
  have k: "get_active_encryption_key (s\<lparr>node_rows := n\<rparr>) h = get_active_encryption_key s h"
    "get_active_encryption_key (s\<lparr>draws := d\<rparr>) h = get_active_encryption_key s h"
    "get_active_encryption_key (s\<lparr>in_tx := b\<rparr>) h = get_active_encryption_key s h"
    "hw.row_of (s\<lparr>node_rows := n\<rparr>) h = hw.row_of s h" "hw.row_of (s\<lparr>draws := d\<rparr>) h = hw.row_of s h"
    "hw.row_of (s\<lparr>in_tx := b\<rparr>) h = hw.row_of s h" for s n d b h
    by (simp_all add: get_active_encryption_key_def get_key_def hw.row_of_def)
  have kk: "get_active_encryption_key ?s 1 = Ok (demo_key 1 1)" "get_active_encryption_key ?s 2 = Ok (demo_key 2 2)"
    by (simp_all add: get_active_encryption_key_def get_key_def demo_hw_keys demo_key_def)
  have tx: "\<not> in_tx ?s" by (simp add: demo_split_store_def split_store_fields demo_store_def empty_store_def)
  have rec: "recover_secret toy (Suc 0) [[1, 2, 7]] = Ok [2, 7]" "require_recoverable [[1, 2, 7 :: u8]] = Ok ()"
    by (simp_all add: recover_secret_def require_recoverable_def require_distinct_nonzero_cases toy_recover_def share_y_def)
  have deal: "take (Suc (Suc (Suc 0))) (toy_shares [2, 7]) = [[1, 2, 7], [2, 2, 7], [3, 2, 7]]"
      "length (toy_shares [2, 7]) = 255"
    by (simp_all add: toy_take upt_rec toy_shares_def)
  note rows = demo_rows [folded demo_split_store_def]
  have keys: "k_id ` set (key_rows ?s) = {1}"
    by (simp add: demo_split_store_def split_store_def Let_def demo_store_def empty_store_def next_rowid_def)
  have w: "length (hw_public (demo_key i b)) = 32" "hw_type (demo_key i b) = Encryption" for i b by (simp_all add: demo_key_def)
  have h1: "hw.row_of ?s 1 = Some (demo_key 1 1)" by (simp add: hw.row_of_def demo_hw_keys demo_key_def)
  have "\<exists>t. add_leaf_body toy 1 ''dept'' ''dan'' 1 [4 \<mapsto> [1, 2, 7]] (?s\<lparr>in_tx := True\<rparr>) = (Ok 6, t)"
    using demo_load l
    by (simp add: add_leaf_body_def bind_run Let_def demo_node rec deal k kk reseal_def put_share_def
      seal_share_def update_nodes_def w List.map_filter_simps insert_node_run node_row_allowed_def keys rows h1 next_rowid_def)
  then show ?thesis using tx
    by (auto simp: add_leaf_and_reshare_def transaction_def run_tx_def)
qed

theorem add_leaf_reshares_witness:
  "\<exists>new s'. add_leaf_and_reshare toy 1 ''dept'' ''dan'' 1 [4 \<mapsto> [1, 2, 7]] demo_split_store = (Ok new, s')
     \<and> map n_id (kids s' 1 3) = [4, 5, new]"
proof -
  obtain new s' where run: "add_leaf_and_reshare toy 1 ''dept'' ''dan'' 1 [4 \<mapsto> [1, 2, 7]] demo_split_store = (Ok new, s')"
    using demo_add_run by blast
  note rows = demo_rows [folded demo_split_store_def]
  have "thresholds_ok demo_split_store" by (simp add: thresholds_ok_def rows)
  from add_leaf_reshares [OF toy_shamir_ok toy_box_ok this demo_ids_ok run] obtain p where
    p: "p \<in> set (key_node_rows demo_split_store 1)" "n_label p = ''dept''"
      "map n_id (kids s' 1 (n_id p)) = map n_id (kids demo_split_store 1 (n_id p)) @ [new]" by blast
  have "n_id p = 3" using p(1,2) by (auto simp: demo_key_rows rows)
  then have "map n_id (kids s' 1 3) = [4, 5, new]" using p(3) by (simp add: kids_def demo_key_rows rows)
  with run show ?thesis by (intro exI conjI)
qed

end
