(* ===== verification/SortedMap.thy ===== *)
theory SortedMap
  imports Prelude
begin

text \<open>
  Rust's \<open>BTreeMap\<close> with text keys: the list of its entries in ascending key order, which is
  also the order its iterators give. \<open>BTreeSet\<close> is the list of keys.
\<close>

type_synonym 'v smap = "(string \<times> 'v) list"

fun sm_insert :: "string \<Rightarrow> 'v \<Rightarrow> 'v smap \<Rightarrow> 'v smap" where
  "sm_insert k v [] = [(k, v)]"
| "sm_insert k v ((k', v') # m) =
     (if k < k' then (k, v) # (k', v') # m
      else if k = k' then (k, v) # m
      else (k', v') # sm_insert k v m)"

definition sm_ok :: "'v smap \<Rightarrow> bool" where
  "sm_ok m \<longleftrightarrow> sorted_wrt (<) (map fst m)"

definition sm_keys :: "'v smap \<Rightarrow> string list" where
  "sm_keys m = map fst m"

definition sm_has :: "'v smap \<Rightarrow> string \<Rightarrow> bool" where
  "sm_has m k \<longleftrightarrow> map_of m k \<noteq> None"

lemma sm_ok_Nil [simp]: "sm_ok []"
  by (simp add: sm_ok_def)

lemma sm_has_iff: "sm_has m k \<longleftrightarrow> k \<in> fst ` set m"
  by (simp add: sm_has_def map_of_eq_None_iff)

lemma sm_insert_keys [simp]: "fst ` set (sm_insert k v m) = insert k (fst ` set m)"
  by (induction k v m rule: sm_insert.induct) auto

lemma sm_insert_ok: "sm_ok m \<Longrightarrow> sm_ok (sm_insert k v m)"
proof (induction k v m rule: sm_insert.induct)
  case (2 k v k' v' m)
  have "set (map fst (sm_insert k v m)) = insert k (fst ` set m)" by simp
  then show ?case using 2 by (fastforce simp: sm_ok_def)
qed (simp add: sm_ok_def)

lemma map_of_sm_insert: "sm_ok m \<Longrightarrow> map_of (sm_insert k v m) = (map_of m)(k \<mapsto> v)"
  by (induction k v m rule: sm_insert.induct) (auto simp: sm_ok_def fun_eq_iff)

lemma sm_ok_distinct: "sm_ok m \<Longrightarrow> distinct (map fst m)"
  unfolding sm_ok_def using strict_sorted_iff by blast

lemma sm_insert_last: "\<forall>k' \<in> fst ` set m. k' < k \<Longrightarrow> sm_insert k v m = m @ [(k, v)]"
  by (induction k v m rule: sm_insert.induct) (auto dest: order_less_asym)

section \<open>The interface of an ordered map\<close>

text \<open>
  What the code relies on when it fills a map and reads it back: an insertion is found again
  and changes no other key, and the entries stay in key order.
\<close>

locale ordered_map =
  fixes entries :: "'m \<Rightarrow> (string \<times> 'v) list"
    and ins :: "string \<Rightarrow> 'v \<Rightarrow> 'm \<Rightarrow> 'm"
    and ok :: "'m \<Rightarrow> bool"
  assumes ok_ins: "ok m \<Longrightarrow> ok (ins k v m)"
    and look_ins: "ok m \<Longrightarrow> map_of (entries (ins k v m)) = (map_of (entries m))(k \<mapsto> v)"
    and in_order: "ok m \<Longrightarrow> sorted_wrt (<) (map fst (entries m))"
begin

definition ins_all :: "(string \<times> 'v) list \<Rightarrow> 'm \<Rightarrow> 'm" where
  "ins_all xs m = foldl (\<lambda>m (k, v). ins k v m) m xs"

lemma ins_all_simps [simp]:
  "ins_all [] m = m"
  "ins_all ((k, v) # xs) m = ins_all xs (ins k v m)"
  by (simp_all add: ins_all_def)

lemma ok_ins_all: "ok m \<Longrightarrow> ok (ins_all xs m)"
  by (induction xs arbitrary: m) (auto simp: ok_ins)

lemma look_ins_all: "ok m \<Longrightarrow> map_of (entries (ins_all xs m)) = map_of (entries m) ++ map_of (rev xs)"
proof (induction xs arbitrary: m)
  case (Cons x xs)
  obtain k v where x: "x = (k, v)" by fastforce
  show ?case using Cons by (simp add: x ok_ins look_ins fun_eq_iff map_add_def split: option.splits)
qed simp

lemma entries_determined:
  assumes "ok m" "ok n" "map_of (entries m) = map_of (entries n)"
  shows "entries m = entries n"
proof -
  have d: "distinct (map fst (entries m))" "distinct (map fst (entries n))"
    using in_order assms(1,2) strict_sorted_iff by blast+
  have "set (entries m) = set (entries n)"
    using assms(3) d by (metis map_of_eq_Some_iff subsetI subset_antisym surj_pair)
  moreover have "inj_on fst (set (entries m) \<union> set (entries n))"
    using calculation d(1) by (simp add: distinct_map)
  ultimately show ?thesis
    using map_sorted_distinct_set_unique [of fst "entries m" "entries n"] in_order assms(1,2) d
    by (simp add: strict_sorted_iff)
qed

end

interpretation sm: ordered_map "\<lambda>m. m" sm_insert sm_ok
  by unfold_locales (auto simp: sm_insert_ok map_of_sm_insert, simp add: sm_ok_def)

text \<open>Filling an empty map from entries already in order gives them back.\<close>

lemma sm_build: "sm_ok (m @ xs) \<Longrightarrow> sm.ins_all xs m = m @ xs"
proof (induction xs arbitrary: m)
  case (Cons x xs)
  obtain k v where x: "x = (k, v)" by fastforce
  have "\<forall>k' \<in> fst ` set m. k' < k" using Cons.prems by (auto simp: x sm_ok_def sorted_wrt_append)
  then have "sm_insert k v m = m @ [(k, v)]" by (rule sm_insert_last)
  moreover have "sm_ok ((m @ [(k, v)]) @ xs)" using Cons.prems by (simp add: x)
  ultimately show ?case using Cons.IH [of "m @ [(k, v)]"] by (simp add: x)
qed simp

lemma sm_map: "sm_ok (map (\<lambda>(k, v). (k, f v)) m) = sm_ok m"
  by (simp add: sm_ok_def case_prod_beta comp_def)

lemma sm_filter: "sm_ok m \<Longrightarrow> sm_ok (filter P m)"
proof -
  assume "sm_ok m"
  then have "sorted_wrt (\<lambda>x y. fst x < fst y) m" by (simp add: sm_ok_def sorted_wrt_map)
  then have "sorted_wrt (\<lambda>x y. fst x < fst y) (filter P m)" by (rule sorted_wrt_filter)
  then show ?thesis by (simp add: sm_ok_def sorted_wrt_map)
qed

lemma sm_lookup: "sm_ok m \<Longrightarrow> map_of m k = Some v \<longleftrightarrow> (k, v) \<in> set m"
  by (rule map_of_eq_Some_iff) (rule sm_ok_distinct)

end
