(* ===== verification/Crypto.thy ===== *)
theory Crypto
  imports Store
begin

text \<open>
  The wrappers of \<open>src/crypto.rs\<close> around the password hash, the cipher and the random
  generator, and SQLite's \<open>datetime('now', ...)\<close>, which \<open>src/pin.rs\<close> and \<open>src/sharing.rs\<close>
  use for their time limits.
\<close>

section \<open>Keys, salts and nonces\<close>

definition SALT_LEN :: nat where "SALT_LEN = 16"
definition NONCE_LEN :: nat where "NONCE_LEN = 12"
definition KEY_LEN :: nat where "KEY_LEN = 32"

definition random_bytes :: "crates \<Rightarrow> nat \<Rightarrow> (store, bytes) op" where
  "random_bytes C n = bind draw (\<lambda>c. ret (os_bytes C c n))"

definition random_salt :: "crates \<Rightarrow> (store, bytes) op" where
  "random_salt C = random_bytes C SALT_LEN"

definition random_nonce :: "crates \<Rightarrow> (store, bytes) op" where
  "random_nonce C = random_bytes C NONCE_LEN"

definition random_key :: "crates \<Rightarrow> (store, bytes) op" where
  "random_key C = random_bytes C KEY_LEN"

definition derive_key :: "crates \<Rightarrow> string \<Rightarrow> bytes \<Rightarrow> bytes result" where
  "derive_key C password salt = ok_or KeyDerivationFailed (argon2id C password salt)"

definition encrypt :: "crates \<Rightarrow> bytes \<Rightarrow> bytes \<Rightarrow> bytes \<Rightarrow> bytes" where
  "encrypt C key nonce plaintext = aes_seal C key nonce plaintext"

definition decrypt :: "crates \<Rightarrow> bytes \<Rightarrow> bytes \<Rightarrow> bytes \<Rightarrow> bytes option" where
  "decrypt C key nonce ciphertext = aes_open C key nonce ciphertext"

text \<open>\<open>nonce.try_into()\<close> of a stored BLOB.\<close>

definition nonce_array :: "bytes \<Rightarrow> bytes result" where
  "nonce_array b = (if length b = NONCE_LEN then Ok b else Err IntegrityCheckFailed)"

lemma random_run [simp, op_simps]:
  "random_bytes C n s = (Ok (os_bytes C (draws s) n), s\<lparr>draws := Suc (draws s)\<rparr>)"
  by (simp add: random_bytes_def)

lemma random_runs [simp, op_simps]:
  "random_salt C s = (Ok (os_bytes C (draws s) 16), s\<lparr>draws := Suc (draws s)\<rparr>)"
  "random_nonce C s = (Ok (os_bytes C (draws s) 12), s\<lparr>draws := Suc (draws s)\<rparr>)"
  "random_key C s = (Ok (os_bytes C (draws s) 32), s\<lparr>draws := Suc (draws s)\<rparr>)"
  by (simp_all add: random_salt_def random_nonce_def random_key_def SALT_LEN_def NONCE_LEN_def KEY_LEN_def)

lemma keeps_random [keeps_intros]:
  assumes "\<And>s. P s \<Longrightarrow> P (s\<lparr>draws := Suc (draws s)\<rparr>)"
  shows "keeps P (random_salt C)" "keeps P (random_nonce C)" "keeps P (random_key C)"
  using assms by (simp_all add: keeps_def)

lemma derive_key_Ok_iff [simp]: "derive_key C p salt = Ok k \<longleftrightarrow> argon2id C p salt = Some k"
  by (simp add: derive_key_def)

lemma decrypt_encrypt [simp]: "aes_ok C \<Longrightarrow> decrypt C k n (encrypt C k n m) = Some m"
  by (simp add: aes_ok_def encrypt_def decrypt_def)

lemma nonce_array_12 [simp]: "length b = 12 \<Longrightarrow> nonce_array b = Ok b"
  by (simp add: nonce_array_def NONCE_LEN_def)

section \<open>Time limits\<close>

text \<open>
  \<open>datetime('now', '+N seconds')\<close> in seconds since 1970. SQLite refuses a modifier of
  464269060800 seconds or more either way, and a result outside the years -4713 to 9999; it
  gives NULL then.
\<close>

definition SECOND_LIMIT :: int where "SECOND_LIMIT = 464269060800"
definition TIME_MIN :: int where "TIME_MIN = -210866760000"
definition TIME_MAX :: int where "TIME_MAX = 253402300799"

definition datetime_plus :: "int \<Rightarrow> int \<Rightarrow> int option" where
  "datetime_plus now n =
     (if \<bar>n\<bar> < SECOND_LIMIT \<and> TIME_MIN \<le> now + n \<and> now + n \<le> TIME_MAX then Some (now + n) else None)"

lemma datetime_plus_SomeD: "datetime_plus now n = Some t \<Longrightarrow> t = now + n"
  by (simp add: datetime_plus_def split: if_splits)

end
