(* ===== verification/Signing.thy ===== *)
theory Signing
  imports Crypto Wire
begin

text \<open>
  \<open>src/signing.rs\<close>: Ed25519 signatures, the salted preimage a private bridge signs, the two
  signatures of an artifact and its \<open>KQBS\<close> encoding.
\<close>

section \<open>Signatures\<close>

definition verify_signature :: "crates \<Rightarrow> bytes \<Rightarrow> bytes \<Rightarrow> bytes \<Rightarrow> unit result" where
  "verify_signature C pk msg sg =
     (if \<not> ed_valid_key C pk then Err InvalidPublicKey
      else if ed_verify C pk msg sg then Ok () else Err SignatureVerificationFailed)"

definition sign :: "crates \<Rightarrow> bytes \<Rightarrow> bytes \<Rightarrow> bytes" where
  "sign C sk msg = ed_sign C sk msg"

lemma verify_sign [simp]:
  "ed_ok C \<Longrightarrow> length sk = 32 \<Longrightarrow> verify_signature C (ed_public C sk) msg (sign C sk msg) = Ok ()"
  by (simp add: ed_ok_def verify_signature_def sign_def)

lemma verify_signature_Ok_iff:
  "verify_signature C pk msg sg = Ok () \<longleftrightarrow> ed_valid_key C pk \<and> ed_verify C pk msg sg"
  by (simp add: verify_signature_def)

section \<open>Bridge signatures\<close>

record bridge_signature =
  bs_uid :: string
  bs_generation :: u32
  bs_bridge_salt :: bytes
  bs_signature_salt :: bytes
  bs_signer_label :: string
  bs_signer_key :: bytes
  bs_bridge_sig :: bytes
  bs_personal_sig :: bytes

definition SIGN_DOMAIN :: bytes where "SIGN_DOMAIN = as_bytes ''KQBRIDGE-SIGN-v1''"

text \<open>What the hasher is fed, and its digest.\<close>

definition sign_text :: "string \<Rightarrow> u32 \<Rightarrow> bytes \<Rightarrow> bytes \<Rightarrow> string \<Rightarrow> bytes \<Rightarrow> bytes \<Rightarrow> bytes" where
  "sign_text uid g bsalt ssalt label pk msg =
     SIGN_DOMAIN @ as_bytes uid @ u32_bytes g @ bsalt @ ssalt @ as_bytes label @ pk @ msg"

definition bridge_sign_preimage ::
  "crates \<Rightarrow> string \<Rightarrow> u32 \<Rightarrow> bytes \<Rightarrow> bytes \<Rightarrow> string \<Rightarrow> bytes \<Rightarrow> bytes \<Rightarrow> bytes" where
  "bridge_sign_preimage C uid g bsalt ssalt label pk msg = sha256 C (sign_text uid g bsalt ssalt label pk msg)"

definition sign_with_bridge ::
  "crates \<Rightarrow> string \<Rightarrow> u32 \<Rightarrow> bytes \<Rightarrow> string \<Rightarrow> bytes \<Rightarrow> bytes \<Rightarrow> bytes \<Rightarrow> (store, bridge_signature) op" where
  "sign_with_bridge C uid g bsalt label bridge_sk personal_sk msg =
     bind (random_salt C) (\<lambda>ssalt.
       let pk = ed_public C personal_sk;
           pre = bridge_sign_preimage C uid g bsalt ssalt label pk msg
       in ret \<lparr> bs_uid = uid, bs_generation = g, bs_bridge_salt = bsalt, bs_signature_salt = ssalt,
                bs_signer_label = label, bs_signer_key = pk, bs_bridge_sig = sign C bridge_sk pre,
                bs_personal_sig = sign C personal_sk pre \<rparr>)"

definition verify_bridge_signature ::
  "crates \<Rightarrow> bridge_signature \<Rightarrow> bytes \<Rightarrow> bytes \<Rightarrow> bytes \<Rightarrow> unit result" where
  "verify_bridge_signature C a bridge_pk signer_pk msg =
     (if bs_signer_key a \<noteq> signer_pk then Err SignatureVerificationFailed
      else let pre = bridge_sign_preimage C (bs_uid a) (bs_generation a) (bs_bridge_salt a)
                       (bs_signature_salt a) (bs_signer_label a) signer_pk msg
        in and_then (verify_signature C bridge_pk pre (bs_bridge_sig a)) (\<lambda>_.
             verify_signature C signer_pk pre (bs_personal_sig a)))"

section \<open>The \<open>KQBS\<close> format\<close>

definition ARTIFACT_MAGIC :: bytes where "ARTIFACT_MAGIC = as_bytes ''KQBS''"

definition ARTIFACT_VERSION :: u8 where "ARTIFACT_VERSION = 1"

definition encode_bridge_signature :: "bridge_signature \<Rightarrow> bytes result" where
  "encode_bridge_signature a =
     and_then (push_len_prefixed (ARTIFACT_MAGIC @ [ARTIFACT_VERSION]) (as_bytes (bs_uid a))) (\<lambda>out.
     and_then (push_len_prefixed (out @ u32_bytes (bs_generation a) @ bs_bridge_salt a @ bs_signature_salt a)
                 (as_bytes (bs_signer_label a))) (\<lambda>out.
     Ok (out @ bs_signer_key a @ bs_bridge_sig a @ bs_personal_sig a)))"

definition decode_bridge_signature :: "bytes \<Rightarrow> bridge_signature result" where
  "decode_bridge_signature d =
     and_then (take_n d 4) (\<lambda>(magic, d).
     if magic \<noteq> ARTIFACT_MAGIC then Err InvalidBridgePackage
     else and_then (take_u8 d) (\<lambda>(version, d).
     if version \<noteq> ARTIFACT_VERSION then Err InvalidBridgePackage
     else and_then (take_string d) (\<lambda>(uid, d).
     and_then (take_u32 d) (\<lambda>(g, d).
     and_then (take_n d 16) (\<lambda>(bsalt, d).
     and_then (take_n d 16) (\<lambda>(ssalt, d).
     and_then (take_string d) (\<lambda>(label, d).
     and_then (take_n d 32) (\<lambda>(pk, d).
     and_then (take_n d 64) (\<lambda>(bsig, d).
     and_then (take_n d 64) (\<lambda>(psig, d).
     if d \<noteq> [] then Err InvalidBridgePackage
     else Ok \<lparr> bs_uid = uid, bs_generation = g, bs_bridge_salt = bsalt, bs_signature_salt = ssalt,
               bs_signer_label = label, bs_signer_key = pk, bs_bridge_sig = bsig,
               bs_personal_sig = psig \<rparr>))))))))))"

text \<open>The array types of the struct, and strings short enough for their length prefix.\<close>

definition artifact_ok :: "bridge_signature \<Rightarrow> bool" where
  "artifact_ok a \<longleftrightarrow> short_string (bs_uid a) \<and> short_string (bs_signer_label a)
     \<and> length (bs_bridge_salt a) = 16 \<and> length (bs_signature_salt a) = 16
     \<and> length (bs_signer_key a) = 32 \<and> length (bs_bridge_sig a) = 64 \<and> length (bs_personal_sig a) = 64"

definition artifact_bytes :: "bridge_signature \<Rightarrow> bytes" where
  "artifact_bytes a = ARTIFACT_MAGIC @ [ARTIFACT_VERSION] @ string_bytes (bs_uid a) @ u32_bytes (bs_generation a)
     @ bs_bridge_salt a @ bs_signature_salt a @ string_bytes (bs_signer_label a)
     @ bs_signer_key a @ bs_bridge_sig a @ bs_personal_sig a"

lemma length_MAGIC [simp]: "length ARTIFACT_MAGIC = 4"
  by (simp add: ARTIFACT_MAGIC_def)

lemma encode_artifact: "artifact_ok a \<Longrightarrow> encode_bridge_signature a = Ok (artifact_bytes a)"
  by (simp add: encode_bridge_signature_def push_len_prefixed_def artifact_bytes_def string_bytes_def
      artifact_ok_def short_string_def)

lemma decode_artifact: "artifact_ok a \<Longrightarrow> decode_bridge_signature (artifact_bytes a) = Ok a"
  unfolding artifact_ok_def artifact_bytes_def decode_bridge_signature_def
  by (simp add: arr.dec_enc word.dec_enc str.dec_enc byte.dec_enc [simplified] take_n_Ok_iff
      arr.dec_enc [of _ _ "[]", simplified])

lemma decode_artifact_sound:
  assumes "decode_bridge_signature d = Ok a"
  shows "artifact_ok a \<and> d = artifact_bytes a"
  using assms unfolding decode_bridge_signature_def
  by (auto simp: and_then_Ok_iff take_Ok_iffs artifact_ok_def artifact_bytes_def split: if_splits prod.splits)

lemma decode_artifact_fails: "only_fails InvalidBridgePackage (decode_bridge_signature d)"
  unfolding decode_bridge_signature_def
  by (intro only_fails_and_then only_fails_pair only_fails_if take_only_fails only_fails_simps(1)
      only_fails_simps(2) [THEN iffD2] refl)

section \<open>Properties\<close>

text \<open>
  The \<open>KQBS\<close> decoder accepts exactly the encodings of well-formed artifacts and returns
  the artifact that was encoded; whatever else it is given, truncated or with bytes left
  over, is refused as \<open>InvalidBridgePackage\<close>.
\<close>
theorem artifact_codec:
  "(decode_bridge_signature d = Ok a \<longleftrightarrow> artifact_ok a \<and> encode_bridge_signature a = Ok d)
     \<and> (\<forall>e. decode_bridge_signature d = Err e \<longrightarrow> e = InvalidBridgePackage)"
proof
  show "decode_bridge_signature d = Ok a \<longleftrightarrow> artifact_ok a \<and> encode_bridge_signature a = Ok d"
  proof
    assume "decode_bridge_signature d = Ok a"
    then have "artifact_ok a" "d = artifact_bytes a" using decode_artifact_sound by blast+
    then show "artifact_ok a \<and> encode_bridge_signature a = Ok d" using encode_artifact by simp
  next
    assume h: "artifact_ok a \<and> encode_bridge_signature a = Ok d"
    then have "d = artifact_bytes a" using encode_artifact [of a] by simp
    then show "decode_bridge_signature d = Ok a" using decode_artifact h by simp
  qed
  show "\<forall>e. decode_bridge_signature d = Err e \<longrightarrow> e = InvalidBridgePackage"
    using decode_artifact_fails by (simp add: only_fails_def)
qed

definition demo_artifact :: bridge_signature where
  "demo_artifact = \<lparr> bs_uid = ''b1'', bs_generation = 2, bs_bridge_salt = replicate 16 1,
     bs_signature_salt = replicate 16 2, bs_signer_label = ''M.S'', bs_signer_key = replicate 32 3,
     bs_bridge_sig = replicate 64 4, bs_personal_sig = replicate 64 5 \<rparr>"

theorem artifact_codec_witness:
  "\<exists>d. encode_bridge_signature demo_artifact = Ok d \<and> decode_bridge_signature d = Ok demo_artifact
     \<and> decode_bridge_signature [] = Err InvalidBridgePackage"
proof -
  have ok: "artifact_ok demo_artifact"
    by (simp add: artifact_ok_def demo_artifact_def short_string_def utf8_str_def as_bytes_def)
  then obtain d where "encode_bridge_signature demo_artifact = Ok d" using encode_artifact by blast
  moreover from this ok have "decode_bridge_signature d = Ok demo_artifact" using artifact_codec by blast
  moreover have "decode_bridge_signature [] = Err InvalidBridgePackage"
  proof (cases "decode_bridge_signature []")
    case (Inl e)
    then show ?thesis using artifact_codec [of "[]" demo_artifact] by simp
  next
    case (Inr a)
    then show ?thesis by (simp add: decode_bridge_signature_def take_n_def)
  qed
  ultimately show ?thesis by blast
qed

text \<open>
  C30: What \<open>sign_with_bridge\<close> returns verifies under the two public keys of its secrets for
  the message signed, and still does after a trip through the \<open>KQBS\<close> encoding; it names the
  signer's own key, so verification under any other signer key fails.
\<close>
theorem sign_with_bridge_verifies:
  assumes "ed_ok C" "os_ok C" "length bridge_sk = 32" "length personal_sk = 32" "length bsalt = 16"
    "short_string uid" "short_string label"
    and "sign_with_bridge C uid g bsalt label bridge_sk personal_sk msg s = (Ok a, s')"
  shows "verify_bridge_signature C a (ed_public C bridge_sk) (ed_public C personal_sk) msg = Ok ()
     \<and> and_then (encode_bridge_signature a) decode_bridge_signature = Ok a
     \<and> (pk \<noteq> ed_public C personal_sk \<longrightarrow>
          verify_bridge_signature C a (ed_public C bridge_sk) pk msg = Err SignatureVerificationFailed)"
proof -
  have a: "bs_signer_key a = ed_public C personal_sk" "artifact_ok a"
    and v: "verify_bridge_signature C a (ed_public C bridge_sk) (ed_public C personal_sk) msg = Ok ()"
    using assms by (auto simp: sign_with_bridge_def Let_def verify_bridge_signature_def artifact_ok_def
        ed_ok_def os_ok_def sign_def verify_signature_def)
  have "and_then (encode_bridge_signature a) decode_bridge_signature = Ok a"
    using encode_artifact [OF a(2)] decode_artifact [OF a(2)] by simp
  with v show ?thesis using a(1) by (simp add: verify_bridge_signature_def)
qed

theorem sign_with_bridge_verifies_witness:
  "\<exists>a s'. sign_with_bridge toy ''u'' 1 (replicate 16 0) ''M'' (replicate 32 1) (replicate 32 2) [9] empty_store = (Ok a, s')
     \<and> verify_bridge_signature toy a (ed_public toy (replicate 32 1)) (ed_public toy (replicate 32 2)) [9] = Ok ()"
proof -
  let ?run = "sign_with_bridge toy ''u'' 1 (replicate 16 0) ''M'' (replicate 32 1) (replicate 32 2) [9] empty_store"
  obtain a s' where run: "?run = (Ok a, s')" by (simp add: sign_with_bridge_def Let_def)
  have "short_string ''u''" "short_string ''M''"
    by (simp_all add: short_string_def utf8_str_def as_bytes_def)
  from sign_with_bridge_verifies [OF toy_ed_ok toy_os_ok _ _ _ this run] run show ?thesis by simp
qed

text \<open>
  C29: For uids and labels of given lengths the hashed text determines every field, so a
  signature speaks for one uid, generation, pair of salts, signer and message only. The
  fields are not length-prefixed, though: without the lengths two different signers and
  messages can share one text.
\<close>
theorem sign_text_binds:
  "(length uid = length uid' \<and> length label = length label' \<and> length bsalt = length bsalt'
      \<and> length ssalt = length ssalt' \<and> length pk = length pk'
      \<and> sign_text uid g bsalt ssalt label pk msg = sign_text uid' g' bsalt' ssalt' label' pk' msg'
      \<longrightarrow> (uid, g, bsalt, ssalt, label, pk, msg) = (uid', g', bsalt', ssalt', label', pk', msg'))
   \<and> sign_text uid g bsalt ssalt ''a'' (replicate 32 98) [99, 100] =
     sign_text uid g bsalt ssalt ''ab'' (replicate 31 98 @ [99]) [100]"
proof
  have inj: "as_bytes x = as_bytes y \<Longrightarrow> x = y" for x y by (metis from_bytes_as_bytes)
  have gen: "u32_bytes g = u32_bytes g' \<Longrightarrow> g = g'" using word.enc_inj by blast
  have len: "length (u32_bytes g) = length (u32_bytes g')" by (simp add: u32_bytes_def)
  show "length uid = length uid' \<and> length label = length label' \<and> length bsalt = length bsalt'
      \<and> length ssalt = length ssalt' \<and> length pk = length pk'
      \<and> sign_text uid g bsalt ssalt label pk msg = sign_text uid' g' bsalt' ssalt' label' pk' msg'
      \<longrightarrow> (uid, g, bsalt, ssalt, label, pk, msg) = (uid', g', bsalt', ssalt', label', pk', msg')"
    by (auto simp: sign_text_def len append_eq_append_conv dest: inj gen)
  have "as_bytes ''ab'' = as_bytes ''a'' @ [98]" by (simp add: as_bytes_def)
  moreover have "replicate 32 (98 :: u8) = 98 # replicate 31 98" using replicate_Suc [of 31] by (simp del: replicate_Suc)
  ultimately show "sign_text uid g bsalt ssalt ''a'' (replicate 32 98) [99, 100] =
     sign_text uid g bsalt ssalt ''ab'' (replicate 31 98 @ [99]) [100]"
    by (simp add: sign_text_def)
qed

theorem sign_text_binds_witness:
  "sign_text ''u'' 1 [] [] ''l'' [] [7] \<noteq> sign_text ''u'' 1 [] [] ''l'' [] [8]"
  using sign_text_binds [of "''u''" "''u''" "''l''" "''l''" "[]" "[]" "[]" "[]" "[]" "[]" 1 "[7]" 1 "[8]"] by auto

end
