(* ===== verification/BridgeCodec.thy ===== *)
theory BridgeCodec
  imports SortedMap Signing Keys
begin

text \<open>
  The values and the wire format of \<open>src/private_bridge.rs\<close>: the dotted labels and who is
  notified, the rosters, the sealed \<open>KQPB\<close> delivery package with its update signature, and the
  \<open>KQBN\<close> notice.
\<close>

section \<open>Labels\<close>

text \<open>\<open>rsplit_once('.')\<close>.\<close>

definition parent_node_label :: "string \<Rightarrow> string option" where
  "parent_node_label l =
     (if CHR ''.'' \<in> set l then Some (rev (tl (dropWhile (\<lambda>c. c \<noteq> CHR ''.'') (rev l)))) else None)"

definition notify_step :: "unit smap \<Rightarrow> string \<Rightarrow> unit smap" where
  "notify_step out l =
     (let out = sm_insert l () out in
      case parent_node_label l of None \<Rightarrow> out | Some p \<Rightarrow> sm_insert p () out)"

definition notify_labels :: "string list \<Rightarrow> string list" where
  "notify_labels members = sm_keys (foldl notify_step [] members)"

section \<open>Rosters\<close>

record member_keys =
  mk_encryption :: bytes
  mk_signing :: bytes

record party_input =
  pi_label :: string
  pi_encryption :: bytes
  pi_signing :: "bytes option"

record delivery_package =
  dp_label :: string
  dp_role :: member_role
  dp_recipient :: bytes
  dp_bytes :: bytes

definition PACKAGE_MAGIC :: bytes where "PACKAGE_MAGIC = as_bytes ''KQPB''"
definition NOTICE_MAGIC :: bytes where "NOTICE_MAGIC = as_bytes ''KQBN''"
definition PB_FORMAT_VERSION :: u8 where "PB_FORMAT_VERSION = 2"
definition KIND_INVITE :: u8 where "KIND_INVITE = 1"
definition KIND_ROTATE :: u8 where "KIND_ROTATE = 2"
definition KIND_DESTROY :: u8 where "KIND_DESTROY = 3"
definition KIND_SUPERVISOR :: u8 where "KIND_SUPERVISOR = 4"
definition ROLE_MEMBER :: u8 where "ROLE_MEMBER = 1"
definition ROLE_SUPERVISOR :: u8 where "ROLE_SUPERVISOR = 2"
definition UPDATE_DOMAIN :: bytes where "UPDATE_DOMAIN = as_bytes ''KQBRIDGE-UPDATE-v1''"

fun role_to_u8 :: "member_role \<Rightarrow> u8" where
  "role_to_u8 Member = ROLE_MEMBER"
| "role_to_u8 Supervisor = ROLE_SUPERVISOR"

definition role_from_u8 :: "u8 \<Rightarrow> member_role result" where
  "role_from_u8 v = (if v = ROLE_MEMBER then Ok Member
     else if v = ROLE_SUPERVISOR then Ok Supervisor else Err InvalidBridgePackage)"

lemma role_round [simp]: "role_from_u8 (role_to_u8 r) = Ok r"
  by (cases r) (simp_all add: role_from_u8_def ROLE_MEMBER_def ROLE_SUPERVISOR_def)

definition pb_is_weak_x25519_public_key :: "crates \<Rightarrow> bytes \<Rightarrow> bool" where
  "pb_is_weak_x25519_public_key C pk = x25519_weak C pk"

section \<open>Maps on the wire\<close>

definition push_u16_count :: "bytes \<Rightarrow> nat \<Rightarrow> bytes result" where
  "push_u16_count out n = (if n < 65536 then Ok (out @ be_bytes 2 n) else Err BundleFieldTooLarge)"

text \<open>The loops of \<open>push_party_map\<close> and \<open>push_member_map\<close>, with what they write for a value.\<close>

fun push_entries :: "('v \<Rightarrow> bytes) \<Rightarrow> bytes \<Rightarrow> 'v smap \<Rightarrow> bytes result" where
  "push_entries pr out [] = Ok out"
| "push_entries pr out ((l, v) # m) =
     and_then (push_len_prefixed out (as_bytes l)) (\<lambda>out. push_entries pr (out @ pr v) m)"

definition member_bytes :: "member_keys \<Rightarrow> bytes" where
  "member_bytes k = mk_encryption k @ mk_signing k"

definition push_party_map :: "bytes \<Rightarrow> bytes smap \<Rightarrow> bytes result" where
  "push_party_map out m = and_then (push_u16_count out (length m)) (\<lambda>out. push_entries (\<lambda>pk. pk) out m)"

definition push_member_map :: "bytes \<Rightarrow> member_keys smap \<Rightarrow> bytes result" where
  "push_member_map out m = and_then (push_u16_count out (length m)) (\<lambda>out. push_entries member_bytes out m)"

fun take_entries ::
  "(bytes \<Rightarrow> ('v \<times> bytes) result) \<Rightarrow> nat \<Rightarrow> 'v smap \<Rightarrow> bytes \<Rightarrow> ('v smap \<times> bytes) result" where
  "take_entries rd 0 m d = Ok (m, d)"
| "take_entries rd (Suc n) m d =
     and_then (take_string d) (\<lambda>(l, d). and_then (rd d) (\<lambda>(v, d). take_entries rd n (sm_insert l v m) d))"

definition take_member :: "crates \<Rightarrow> bytes \<Rightarrow> (member_keys \<times> bytes) result" where
  "take_member C d =
     and_then (take_n d 32) (\<lambda>(e, d). and_then (take_n d 32) (\<lambda>(sg, d).
     if ed_valid_key C sg then Ok (\<lparr> mk_encryption = e, mk_signing = sg \<rparr>, d) else Err InvalidBridgePackage))"

definition take_party_map :: "bytes \<Rightarrow> (bytes smap \<times> bytes) result" where
  "take_party_map d = and_then (take_u16 d) (\<lambda>(n, d). take_entries (\<lambda>d. take_n d 32) n [] d)"

definition take_member_map :: "crates \<Rightarrow> bytes \<Rightarrow> (member_keys smap \<times> bytes) result" where
  "take_member_map C d = and_then (take_u16 d) (\<lambda>(n, d). take_entries (take_member C) n [] d)"

section \<open>The update signature\<close>

text \<open>What the hasher is fed for a map: like the wire, but an empty label is an error.\<close>

fun hash_entries :: "('v \<Rightarrow> bytes) \<Rightarrow> bytes \<Rightarrow> 'v smap \<Rightarrow> bytes result" where
  "hash_entries pr out [] = Ok out"
| "hash_entries pr out ((l, v) # m) =
     (if l = [] then Err InvalidBridgePackage
      else and_then (push_len_prefixed out (as_bytes l)) (\<lambda>out. hash_entries pr (out @ pr v) m))"

definition update_auth_text ::
  "string \<Rightarrow> u32 \<Rightarrow> u8 \<Rightarrow> bytes \<Rightarrow> bytes \<Rightarrow> string \<Rightarrow> member_keys smap \<Rightarrow> bytes smap \<Rightarrow> string \<Rightarrow> bytes result" where
  "update_auth_text uid g kind pk salt recipient members supervisors removed =
     and_then (push_len_prefixed UPDATE_DOMAIN (as_bytes uid)) (\<lambda>h.
     let h = h @ u32_bytes g @ [kind] @ pk @ salt in
     and_then (push_len_prefixed h (as_bytes recipient)) (\<lambda>h.
     and_then (push_len_prefixed h (as_bytes removed)) (\<lambda>h.
     and_then (push_u16_count h (length members)) (\<lambda>h.
     and_then (hash_entries member_bytes h members) (\<lambda>h.
     and_then (push_u16_count h (length supervisors)) (\<lambda>h.
     hash_entries (\<lambda>pk. pk) h supervisors))))))"

definition update_auth_preimage ::
  "crates \<Rightarrow> string \<Rightarrow> u32 \<Rightarrow> u8 \<Rightarrow> bytes \<Rightarrow> bytes \<Rightarrow> string \<Rightarrow> member_keys smap \<Rightarrow> bytes smap \<Rightarrow> string \<Rightarrow> bytes result" where
  "update_auth_preimage C uid g kind pk salt recipient members supervisors removed =
     and_then (update_auth_text uid g kind pk salt recipient members supervisors removed) (\<lambda>h. Ok (sha256 C h))"

section \<open>Packages\<close>

record package_fields =
  pf_kind :: u8
  pf_uid :: string
  pf_generation :: u32
  pf_bridge_label :: string
  pf_public :: bytes
  pf_salt :: bytes
  pf_recipient :: string
  pf_recipient_key :: bytes
  pf_role :: member_role
  pf_members :: "member_keys smap"
  pf_supervisors :: "bytes smap"
  pf_removed :: string
  pf_wrap_salt :: "bytes option"
  pf_secret :: "bytes option"
  pf_old_signing :: "bytes option"

record decoded_package =
  dc_kind :: u8
  dc_uid :: string
  dc_generation :: u32
  dc_bridge_label :: string
  dc_public :: bytes
  dc_salt :: bytes
  dc_recipient :: string
  dc_recipient_key :: bytes
  dc_role :: member_role
  dc_members :: "member_keys smap"
  dc_supervisors :: "bytes smap"
  dc_removed :: string
  dc_wrap_salt :: "bytes option"
  dc_secret :: "bytes option"
  dc_auth :: "bytes option"

definition fields_preimage :: "crates \<Rightarrow> package_fields \<Rightarrow> bytes result" where
  "fields_preimage C f = update_auth_preimage C (pf_uid f) (pf_generation f) (pf_kind f) (pf_public f) (pf_salt f)
     (pf_recipient f) (pf_members f) (pf_supervisors f) (pf_removed f)"

definition package_payload :: "crates \<Rightarrow> package_fields \<Rightarrow> bytes result" where
  "package_payload C f =
     and_then (push_len_prefixed [] (as_bytes (pf_uid f))) (\<lambda>p.
     and_then (push_len_prefixed (p @ u32_bytes (pf_generation f)) (as_bytes (pf_bridge_label f))) (\<lambda>p.
     and_then (push_len_prefixed (p @ pf_public f @ pf_salt f) (as_bytes (pf_recipient f))) (\<lambda>p.
     and_then (push_member_map (p @ [role_to_u8 (pf_role f)]) (pf_members f)) (\<lambda>p.
     and_then (push_party_map p (pf_supervisors f)) (\<lambda>p.
     and_then (push_len_prefixed p (as_bytes (pf_removed f))) (\<lambda>p.
     let p = p @ [if pf_secret f \<noteq> None then 1 else 0];
         p = (case (pf_wrap_salt f, pf_secret f) of (Some w, Some sk) \<Rightarrow> p @ w @ sk | _ \<Rightarrow> p);
         p = p @ [if pf_old_signing f \<noteq> None then 1 else 0] in
     case pf_old_signing f of
       None \<Rightarrow> Ok p
     | Some key \<Rightarrow> and_then (fields_preimage C f) (\<lambda>pre. Ok (p @ sign C key pre))))))))"

definition encode_package :: "crates \<Rightarrow> package_fields \<Rightarrow> (store, bytes) op" where
  "encode_package C f =
     bind (guard (\<not> pb_is_weak_x25519_public_key C (pf_recipient_key f)) InvalidPublicKey) (\<lambda>_.
     bind (lift_result (package_payload C f)) (\<lambda>payload.
     bind draw (\<lambda>coin.
     let letter = box_seal C (pf_recipient_key f) coin payload in
     if length letter < 2 ^ 32
     then ret (PACKAGE_MAGIC @ [PB_FORMAT_VERSION] @ [pf_kind f] @ pf_recipient_key f
               @ be_bytes 4 (length letter) @ letter)
     else fail BundleFieldTooLarge)))"

definition parse_kqpb_outer :: "bytes \<Rightarrow> (u8 \<times> bytes \<times> bytes) result" where
  "parse_kqpb_outer data =
     and_then (take_n data 4) (\<lambda>(magic, d). if magic \<noteq> PACKAGE_MAGIC then Err InvalidBridgePackage else
     and_then (take_u8 d) (\<lambda>(version, d). if version \<noteq> PB_FORMAT_VERSION then Err InvalidBridgePackage else
     and_then (take_u8 d) (\<lambda>(kind, d).
     and_then (take_n d 32) (\<lambda>(pk, d).
     and_then (take_u32 d) (\<lambda>(len, d).
     and_then (take_n d (unat len)) (\<lambda>(letter, d).
     if d \<noteq> [] then Err InvalidBridgePackage else Ok (kind, pk, letter)))))))"

definition routing_public_key :: "bytes \<Rightarrow> bytes result" where
  "routing_public_key data = and_then (parse_kqpb_outer data) (\<lambda>(_, pk, _). Ok pk)"

definition take_secret :: "bytes \<Rightarrow> ((bytes option \<times> bytes option) \<times> bytes) result" where
  "take_secret d = and_then (take_u8 d) (\<lambda>(has, d).
     if has \<noteq> 0
     then and_then (take_n d SALT_LEN) (\<lambda>(w, d). and_then (take_n d 32) (\<lambda>(sk, d). Ok ((Some w, Some sk), d)))
     else Ok ((None, None), d))"

definition take_auth :: "bytes \<Rightarrow> (bytes option \<times> bytes) result" where
  "take_auth d = and_then (take_u8 d) (\<lambda>(has, d).
     if has \<noteq> 0 then and_then (take_n d 64) (\<lambda>(sg, d). Ok (Some sg, d)) else Ok (None, d))"

definition take_role :: "bytes \<Rightarrow> (member_role \<times> bytes) result" where
  "take_role d = and_then (take_u8 d) (\<lambda>(b, d). and_then (role_from_u8 b) (\<lambda>r. Ok (r, d)))"

definition decode_payload :: "crates \<Rightarrow> u8 \<Rightarrow> bytes \<Rightarrow> bytes \<Rightarrow> decoded_package result" where
  "decode_payload C kind pk d =
     and_then (take_string d) (\<lambda>(uid, d).
     and_then (take_u32 d) (\<lambda>(g, d).
     and_then (take_string d) (\<lambda>(label, d).
     and_then (take_n d 32) (\<lambda>(public, d).
     and_then (take_n d SALT_LEN) (\<lambda>(salt, d).
     and_then (take_string d) (\<lambda>(recipient, d).
     and_then (take_role d) (\<lambda>(role, d).
     and_then (take_member_map C d) (\<lambda>(members, d).
     and_then (take_party_map d) (\<lambda>(supervisors, d).
     and_then (take_string d) (\<lambda>(removed, d).
     and_then (take_secret d) (\<lambda>((wrap, secret), d).
     and_then (take_auth d) (\<lambda>(auth, d).
     if d \<noteq> [] then Err InvalidBridgePackage
     else Ok \<lparr> dc_kind = kind, dc_uid = uid, dc_generation = g, dc_bridge_label = label, dc_public = public,
       dc_salt = salt, dc_recipient = recipient, dc_recipient_key = pk, dc_role = role, dc_members = members,
       dc_supervisors = supervisors, dc_removed = removed, dc_wrap_salt = wrap, dc_secret = secret,
       dc_auth = auth \<rparr>))))))))))))"

definition decode_package :: "crates \<Rightarrow> bytes \<Rightarrow> bytes \<Rightarrow> decoded_package result" where
  "decode_package C data sk =
     and_then (parse_kqpb_outer data) (\<lambda>(kind, pk, letter).
     and_then (ok_or InvalidBridgePackage (box_unseal C sk letter)) (decode_payload C kind pk))"

section \<open>Notices\<close>

datatype change_kind = NeedsMemberRotate | ChangeDestroyed

fun push_labels :: "bytes \<Rightarrow> string list \<Rightarrow> bytes result" where
  "push_labels out [] = Ok out"
| "push_labels out (l # ls) = and_then (push_len_prefixed out (as_bytes l)) (\<lambda>out. push_labels out ls)"

definition encode_notice :: "string \<Rightarrow> string \<Rightarrow> string list \<Rightarrow> string list \<Rightarrow> change_kind \<Rightarrow> bytes result" where
  "encode_notice uid removed remaining notify kind =
     (let out = NOTICE_MAGIC @ [PB_FORMAT_VERSION]
              @ [case kind of NeedsMemberRotate \<Rightarrow> 1 | ChangeDestroyed \<Rightarrow> 2] in
      and_then (push_len_prefixed out (as_bytes uid)) (\<lambda>out.
      and_then (push_len_prefixed out (as_bytes removed)) (\<lambda>out.
      and_then (push_u16_count out (length remaining)) (\<lambda>out.
      and_then (push_labels out remaining) (\<lambda>out.
      and_then (push_u16_count out (length notify)) (\<lambda>out.
      push_labels out notify))))))"

section \<open>Encodings and what the decoder makes of them\<close>

definition entries_bytes :: "('v \<Rightarrow> bytes) \<Rightarrow> 'v smap \<Rightarrow> bytes" where
  "entries_bytes pr m = concat (map (\<lambda>(l, v). string_bytes l @ pr v) m)"

definition map_bytes :: "('v \<Rightarrow> bytes) \<Rightarrow> 'v smap \<Rightarrow> bytes" where
  "map_bytes pr m = be_bytes 2 (length m) @ entries_bytes pr m"

definition wire_map :: "('v \<Rightarrow> bool) \<Rightarrow> 'v smap \<Rightarrow> bool" where
  "wire_map ok m \<longleftrightarrow> sm_ok m \<and> length m < 65536 \<and> (\<forall>(l, v) \<in> set m. short_string l \<and> ok v)"

lemma entries_bytes_simps [simp]:
  "entries_bytes pr [] = []"
  "entries_bytes pr ((l, v) # m) = string_bytes l @ pr v @ entries_bytes pr m"
  by (simp_all add: entries_bytes_def)

lemma push_string: "short_string l \<Longrightarrow> push_len_prefixed out (as_bytes l) = Ok (out @ string_bytes l)"
  by (simp add: push_len_prefixed_def short_string_def string_bytes_def)

lemma push_entries_bytes:
  "(\<forall>(l, v) \<in> set m. short_string l) \<Longrightarrow> push_entries pr out m = Ok (out @ entries_bytes pr m)"
  by (induction m arbitrary: out) (auto simp: push_string)

lemma take_entries_bytes:
  assumes "\<forall>(l, v) \<in> set m. short_string l \<and> (\<forall>r. rd (pr v @ r) = Ok (v, r))"
  shows "take_entries rd (length m) acc (entries_bytes pr m @ r) = Ok (sm.ins_all m acc, r)"
  using assms by (induction m arbitrary: acc) (auto simp: str.dec_enc)

lemma push_member_map_bytes:
  "wire_map ok m \<Longrightarrow> push_member_map out m = Ok (out @ map_bytes member_bytes m)"
  using push_entries_bytes [of m member_bytes "out @ be_bytes 2 (length m)"]
  by (auto simp: push_member_map_def wire_map_def push_u16_count_def map_bytes_def)

lemma push_party_map_bytes:
  "wire_map ok m \<Longrightarrow> push_party_map out m = Ok (out @ map_bytes (\<lambda>pk. pk) m)"
  using push_entries_bytes [of m "\<lambda>pk. pk" "out @ be_bytes 2 (length m)"]
  by (auto simp: push_party_map_def wire_map_def push_u16_count_def map_bytes_def)

definition member_ok :: "crates \<Rightarrow> member_keys \<Rightarrow> bool" where
  "member_ok C k \<longleftrightarrow> length (mk_encryption k) = 32 \<and> length (mk_signing k) = 32 \<and> ed_valid_key C (mk_signing k)"

lemma take_member_bytes: "member_ok C k \<Longrightarrow> take_member C (member_bytes k @ r) = Ok (k, r)"
  by (simp add: take_member_def member_bytes_def member_ok_def)

lemma take_map_bytes:
  assumes "wire_map ok m" "\<And>v r. ok v \<Longrightarrow> rd (pr v @ r) = Ok (v, r)"
  shows "and_then (take_u16 (map_bytes pr m @ r)) (\<lambda>(n, d). take_entries rd n [] d) = Ok (m, r)"
proof -
  have "take_entries rd (length m) [] (entries_bytes pr m @ r) = Ok (sm.ins_all m [], r)"
    using assms by (intro take_entries_bytes) (auto simp: wire_map_def)
  moreover have "sm.ins_all m [] = m" using assms(1) sm_build [of "[]" m] by (simp add: wire_map_def)
  ultimately show ?thesis using assms(1) by (simp add: map_bytes_def wire_map_def half.dec_enc)
qed

lemma take_member_map_bytes:
  "wire_map (member_ok C) m \<Longrightarrow> take_member_map C (map_bytes member_bytes m @ r) = Ok (m, r)"
  unfolding take_member_map_def
  by (rule take_map_bytes [where ok = "member_ok C"]) (auto simp: take_member_bytes)

lemma take_party_map_bytes:
  "wire_map (\<lambda>pk. length pk = 32) m \<Longrightarrow> take_party_map (map_bytes (\<lambda>pk. pk) m @ r) = Ok (m, r)"
  unfolding take_party_map_def
  by (rule take_map_bytes [where ok = "\<lambda>pk. length pk = 32"]) auto

text \<open>The fields a caller may pass, and what the recipient reads.\<close>

definition fields_ok :: "crates \<Rightarrow> package_fields \<Rightarrow> bool" where
  "fields_ok C f \<longleftrightarrow> (\<forall>l \<in> {pf_uid f, pf_bridge_label f, pf_recipient f, pf_removed f}. short_string l)
     \<and> length (pf_public f) = 32 \<and> length (pf_salt f) = 16 \<and> length (pf_recipient_key f) = 32
     \<and> wire_map (member_ok C) (pf_members f) \<and> wire_map (\<lambda>pk. length pk = 32) (pf_supervisors f)
     \<and> (pf_wrap_salt f = None \<longleftrightarrow> pf_secret f = None)
     \<and> (\<forall>w. pf_wrap_salt f = Some w \<longrightarrow> length w = 16) \<and> (\<forall>k. pf_secret f = Some k \<longrightarrow> length k = 32)
     \<and> (\<forall>k. pf_old_signing f = Some k \<longrightarrow> length k = 32)"

definition decoded_of :: "crates \<Rightarrow> package_fields \<Rightarrow> decoded_package" where
  "decoded_of C f = \<lparr> dc_kind = pf_kind f, dc_uid = pf_uid f, dc_generation = pf_generation f,
     dc_bridge_label = pf_bridge_label f, dc_public = pf_public f, dc_salt = pf_salt f,
     dc_recipient = pf_recipient f, dc_recipient_key = pf_recipient_key f, dc_role = pf_role f,
     dc_members = pf_members f, dc_supervisors = pf_supervisors f, dc_removed = pf_removed f,
     dc_wrap_salt = pf_wrap_salt f, dc_secret = pf_secret f,
     dc_auth = (case (pf_old_signing f, fields_preimage C f) of
                  (Some k, Ok pre) \<Rightarrow> Some (sign C k pre) | _ \<Rightarrow> None) \<rparr>"

definition secret_bytes :: "package_fields \<Rightarrow> bytes" where
  "secret_bytes f = (case (pf_wrap_salt f, pf_secret f) of (Some w, Some k) \<Rightarrow> 1 # w @ k | _ \<Rightarrow> [0])"

definition auth_bytes :: "crates \<Rightarrow> package_fields \<Rightarrow> bytes" where
  "auth_bytes C f = (case dc_auth (decoded_of C f) of Some sg \<Rightarrow> 1 # sg | None \<Rightarrow> [0])"

definition payload_bytes :: "crates \<Rightarrow> package_fields \<Rightarrow> bytes" where
  "payload_bytes C f = string_bytes (pf_uid f) @ u32_bytes (pf_generation f) @ string_bytes (pf_bridge_label f)
     @ pf_public f @ pf_salt f @ string_bytes (pf_recipient f) @ [role_to_u8 (pf_role f)]
     @ map_bytes member_bytes (pf_members f) @ map_bytes (\<lambda>pk. pk) (pf_supervisors f)
     @ string_bytes (pf_removed f) @ secret_bytes f @ auth_bytes C f"

lemma package_payload_Ok:
  assumes "fields_ok C f" "package_payload C f = Ok p"
  shows "p = payload_bytes C f" "pf_old_signing f \<noteq> None \<Longrightarrow> dc_auth (decoded_of C f) \<noteq> None"
proof -
  have m: "push_member_map out (pf_members f) = Ok (out @ map_bytes member_bytes (pf_members f))"
    and s: "push_party_map out (pf_supervisors f) = Ok (out @ map_bytes (\<lambda>pk. pk) (pf_supervisors f))" for out
    using assms(1) push_member_map_bytes push_party_map_bytes unfolding fields_ok_def by blast+
  have l: "\<And>out. push_len_prefixed out (as_bytes l) = Ok (out @ string_bytes l)"
    if "l \<in> {pf_uid f, pf_bridge_label f, pf_recipient f, pf_removed f}" for l
    using assms(1) that push_string unfolding fields_ok_def by blast
  show "p = payload_bytes C f" "pf_old_signing f \<noteq> None \<Longrightarrow> dc_auth (decoded_of C f) \<noteq> None"
    using assms m s l
    by (auto simp: package_payload_def payload_bytes_def secret_bytes_def auth_bytes_def decoded_of_def Let_def
        fields_ok_def and_then_Ok_iff split: option.splits)
qed

lemma take_secret_bytes: "fields_ok C f \<Longrightarrow> take_secret (secret_bytes f @ r) = Ok ((pf_wrap_salt f, pf_secret f), r)"
  by (auto simp: take_secret_def secret_bytes_def fields_ok_def take_u8_def SALT_LEN_def split: option.splits)

lemma take_auth_bytes:
  assumes "ed_ok C" "fields_ok C f"
  shows "take_auth (auth_bytes C f @ r) = Ok (dc_auth (decoded_of C f), r)"
proof -
  have "length sg = 64" if "dc_auth (decoded_of C f) = Some sg" for sg
    using that assms by (auto simp: decoded_of_def fields_ok_def ed_ok_def sign_def split: option.splits sum.splits)
  then show ?thesis by (auto simp: take_auth_def auth_bytes_def take_u8_def split: option.splits)
qed

lemma take_role_bytes: "take_role (role_to_u8 r # d) = Ok (r, d)"
  by (simp add: take_role_def take_u8_def)

lemma decode_payload_bytes:
  assumes "ed_ok C" "fields_ok C f"
  shows "decode_payload C (pf_kind f) (pf_recipient_key f) (payload_bytes C f) = Ok (decoded_of C f)"
proof -
  have m: "\<And>r. take_member_map C (map_bytes member_bytes (pf_members f) @ r) = Ok (pf_members f, r)"
    and s: "\<And>r. take_party_map (map_bytes (\<lambda>pk. pk) (pf_supervisors f) @ r) = Ok (pf_supervisors f, r)"
    using assms(2) take_member_map_bytes take_party_map_bytes unfolding fields_ok_def by blast+
  have l: "\<And>r. take_string (string_bytes l @ r) = Ok (l, r)"
    if "l \<in> {pf_uid f, pf_bridge_label f, pf_recipient f, pf_removed f}" for l
    using assms(2) that str.dec_enc unfolding fields_ok_def by blast
  have a: "take_auth (auth_bytes C f) = Ok (dc_auth (decoded_of C f), [])"
    using take_auth_bytes [OF assms, of "[]"] by simp
  have "length (pf_public f) = 32" "length (pf_salt f) = SALT_LEN"
    using assms(2) by (simp_all add: fields_ok_def SALT_LEN_def)
  then show ?thesis
    by (simp add: decode_payload_def payload_bytes_def m s l a take_secret_bytes [OF assms(2)] take_role_bytes
        word.dec_enc) (simp add: decoded_of_def)
qed

lemma parse_kqpb_outer_Ok_iff:
  "parse_kqpb_outer d = Ok (kind, pk, letter) \<longleftrightarrow> length pk = 32 \<and> length letter < 2 ^ 32
     \<and> d = PACKAGE_MAGIC @ [PB_FORMAT_VERSION] @ [kind] @ pk @ be_bytes 4 (length letter) @ letter"
proof
  assume "parse_kqpb_outer d = Ok (kind, pk, letter)"
  then obtain len :: u32 where l: "length pk = 32" "length letter = unat len"
    "d = PACKAGE_MAGIC @ [PB_FORMAT_VERSION] @ [kind] @ pk @ u32_bytes len @ letter"
    by (auto simp: parse_kqpb_outer_def and_then_Ok_iff take_Ok_iffs split: if_splits prod.splits)
  then show "length pk = 32 \<and> length letter < 2 ^ 32
     \<and> d = PACKAGE_MAGIC @ [PB_FORMAT_VERSION] @ [kind] @ pk @ be_bytes 4 (length letter) @ letter"
    using unsigned_less [of len, where 'a = nat] by (simp add: u32_bytes_def)
next
  let ?len = "word_of_nat (length letter) :: u32"
  assume h: "length pk = 32 \<and> length letter < 2 ^ 32
     \<and> d = PACKAGE_MAGIC @ [PB_FORMAT_VERSION] @ [kind] @ pk @ be_bytes 4 (length letter) @ letter"
  then have len: "unat ?len = length letter" by (simp add: unsigned_of_nat take_bit_eq_mod)
  then have "take_u32 (be_bytes 4 (length letter) @ letter) = Ok (?len, letter)"
    using word.dec_enc [of ?len letter] by (simp add: u32_bytes_def)
  moreover have "length PACKAGE_MAGIC = 4" by (simp add: PACKAGE_MAGIC_def)
  ultimately show "parse_kqpb_outer d = Ok (kind, pk, letter)"
    using h len arr.dec_enc [of letter "length letter" "[]"]
    by (simp add: parse_kqpb_outer_def take_u8_def)
qed

lemma take_entries_fails:
  "(\<And>d. only_fails InvalidBridgePackage (rd d)) \<Longrightarrow> only_fails InvalidBridgePackage (take_entries rd n m d)"
proof (induction n arbitrary: m d)
  case (Suc n)
  show ?case unfolding take_entries.simps
    by (intro only_fails_and_then only_fails_pair take_only_fails Suc)
qed simp

lemma decode_parts_fail:
  "only_fails InvalidBridgePackage (parse_kqpb_outer d)"
  "only_fails InvalidBridgePackage (take_member_map C d)"
  "only_fails InvalidBridgePackage (take_party_map d)"
  "only_fails InvalidBridgePackage (take_role d)"
  "only_fails InvalidBridgePackage (take_secret d)"
  "only_fails InvalidBridgePackage (take_auth d)"
  unfolding parse_kqpb_outer_def take_member_map_def take_party_map_def take_role_def take_secret_def
    take_auth_def take_member_def role_from_u8_def
  by (intro only_fails_and_then only_fails_pair only_fails_if take_only_fails take_entries_fails
      only_fails_simps(1) only_fails_simps(2) [THEN iffD2] refl)+

lemma only_fails_pair_app:
  "(\<And>x y. only_fails e (f x y d)) \<Longrightarrow> only_fails e ((case p of (x, y) \<Rightarrow> f x y) d)"
  by (cases p) simp

lemma decode_package_fails: "only_fails InvalidBridgePackage (decode_package C d sk)"
proof -
  have "only_fails InvalidBridgePackage (decode_payload C kind pk d)" for kind pk d
    unfolding decode_payload_def
    by (intro only_fails_and_then only_fails_pair only_fails_pair_app only_fails_if take_only_fails decode_parts_fail
        only_fails_simps(1) only_fails_simps(2) [THEN iffD2] refl)
  moreover have "only_fails InvalidBridgePackage (ok_or InvalidBridgePackage x)" for x :: "bytes option"
    by (cases x) simp_all
  ultimately show ?thesis
    unfolding decode_package_def by (intro only_fails_and_then only_fails_pair decode_parts_fail)
qed

lemma encode_package_Ok:
  assumes "encode_package C f s = (Ok data, s')"
  obtains p where "package_payload C f = Ok p" "\<not> x25519_weak C (pf_recipient_key f)"
    "s' = s\<lparr>draws := Suc (draws s)\<rparr>"
    "length (box_seal C (pf_recipient_key f) (draws s) p) < 2 ^ 32"
    "data = PACKAGE_MAGIC @ [PB_FORMAT_VERSION] @ [pf_kind f] @ pf_recipient_key f
       @ be_bytes 4 (length (box_seal C (pf_recipient_key f) (draws s) p)) @ box_seal C (pf_recipient_key f) (draws s) p"
  using assms unfolding encode_package_def pb_is_weak_x25519_public_key_def
  by (elim bind_Ok_elim) (auto simp: Let_def split: if_splits)

lemma decode_encoded:
  assumes "box_ok C" "ed_ok C" "fields_ok C f" "pf_recipient_key f = x25519_public C sk" "length sk = 32"
    and "encode_package C f s = (Ok data, s')"
  shows "decode_package C data sk = Ok (decoded_of C f)" "routing_public_key data = Ok (pf_recipient_key f)"
proof -
  obtain p where p: "package_payload C f = Ok p"
    and len: "length (box_seal C (pf_recipient_key f) (draws s) p) < 2 ^ 32"
    and data: "data = PACKAGE_MAGIC @ [PB_FORMAT_VERSION] @ [pf_kind f] @ pf_recipient_key f
       @ be_bytes 4 (length (box_seal C (pf_recipient_key f) (draws s) p)) @ box_seal C (pf_recipient_key f) (draws s) p"
    by (rule encode_package_Ok [OF assms(6)])
  have outer: "parse_kqpb_outer data = Ok (pf_kind f, pf_recipient_key f, box_seal C (pf_recipient_key f) (draws s) p)"
    using len data assms(3) by (simp add: parse_kqpb_outer_Ok_iff fields_ok_def)
  then show "routing_public_key data = Ok (pf_recipient_key f)" by (simp add: routing_public_key_def)
  have "p = payload_bytes C f" by (rule package_payload_Ok(1) [OF assms(3) p])
  then show "decode_package C data sk = Ok (decoded_of C f)"
    using outer decode_payload_bytes [OF assms(2,3)] box_unseal_seal [OF assms(1,5,4)]
    by (simp add: decode_package_def)
qed

lemma hash_entries_bytes:
  "(\<forall>(l, v) \<in> set m. short_string l \<and> l \<noteq> []) \<Longrightarrow> hash_entries pr out m = Ok (out @ entries_bytes pr m)"
  by (induction m arbitrary: out) (auto simp: push_string)

definition update_bytes ::
  "string \<Rightarrow> u32 \<Rightarrow> u8 \<Rightarrow> bytes \<Rightarrow> bytes \<Rightarrow> string \<Rightarrow> member_keys smap \<Rightarrow> bytes smap \<Rightarrow> string \<Rightarrow> bytes" where
  "update_bytes uid g kind pk salt recipient members supervisors removed =
     UPDATE_DOMAIN @ string_bytes uid @ u32_bytes g @ [kind] @ pk @ salt @ string_bytes recipient
     @ string_bytes removed @ map_bytes member_bytes members @ map_bytes (\<lambda>pk. pk) supervisors"

definition update_ok :: "string \<Rightarrow> string \<Rightarrow> string \<Rightarrow> member_keys smap \<Rightarrow> bytes smap \<Rightarrow> bool" where
  "update_ok uid recipient removed members supervisors \<longleftrightarrow>
     short_string uid \<and> short_string recipient \<and> short_string removed
     \<and> wire_map (\<lambda>k. length (mk_encryption k) = 32 \<and> length (mk_signing k) = 32) members
     \<and> wire_map (\<lambda>pk. length pk = 32) supervisors
     \<and> [] \<notin> fst ` set members \<and> [] \<notin> fst ` set supervisors"

lemma update_auth_text_bytes:
  assumes "update_ok uid recipient removed members supervisors"
  shows "update_auth_text uid g kind pk salt recipient members supervisors removed
     = Ok (update_bytes uid g kind pk salt recipient members supervisors removed)"
proof -
  have m: "hash_entries pr out members = Ok (out @ entries_bytes pr members)"
    and s: "hash_entries qr out supervisors = Ok (out @ entries_bytes qr supervisors)" for pr qr out
  proof -
    have "\<forall>(l, v) \<in> set members. short_string l \<and> l \<noteq> []"
      using assms by (auto simp: update_ok_def wire_map_def rev_image_eqI)
    then show "hash_entries pr out members = Ok (out @ entries_bytes pr members)" by (rule hash_entries_bytes)
    have "\<forall>(l, v) \<in> set supervisors. short_string l \<and> l \<noteq> []"
      using assms by (auto simp: update_ok_def wire_map_def rev_image_eqI)
    then show "hash_entries qr out supervisors = Ok (out @ entries_bytes qr supervisors)" by (rule hash_entries_bytes)
  qed
  show ?thesis using assms
    by (simp add: update_auth_text_def update_bytes_def update_ok_def push_string m s push_u16_count_def
        wire_map_def map_bytes_def Let_def)
qed

text \<open>The text is injective: each field in it is prefix-free.\<close>

lemma map_bytes_inj:
  assumes "wire_map ok m" "wire_map ok n" "\<And>v r. ok v \<Longrightarrow> rd (pr v @ r) = Ok (v, r)"
    and "map_bytes pr m @ r = map_bytes pr n @ q"
  shows "m = n \<and> r = q"
proof -
  have "Ok (m, r) = and_then (take_u16 (map_bytes pr n @ q)) (\<lambda>(n, d). take_entries rd n [] d)"
    unfolding assms(4) [symmetric] by (rule take_map_bytes [OF assms(1,3), symmetric])
  also have "\<dots> = Ok (n, q)" by (rule take_map_bytes [OF assms(2,3)])
  finally show ?thesis by simp
qed

lemma update_bytes_inj:
  assumes "update_ok uid rc rm ms ss" "update_ok uid' rc' rm' ms' ss'" "length pk = length pk'" "length sa = length sa'"
    and "update_bytes uid g k pk sa rc ms ss rm = update_bytes uid' g' k' pk' sa' rc' ms' ss' rm'"
  shows "(uid, g, k, pk, sa, rc, rm, ms, ss) = (uid', g', k', pk', sa', rc', rm', ms', ss')"
proof -
  let ?ok = "\<lambda>k. length (mk_encryption k) = 32 \<and> length (mk_signing k) = 32"
  have rd: "take_member toy (member_bytes v @ r) = Ok (v, r)" if "?ok v" for v r
    using that by (intro take_member_bytes) (simp add: member_ok_def)
  note v = assms(1,2) [unfolded update_ok_def]
  have 1: "uid = uid' \<and> u32_bytes g @ k # pk @ sa @ string_bytes rc @ string_bytes rm @ map_bytes member_bytes ms @ map_bytes (\<lambda>pk. pk) ss
     = u32_bytes g' @ k' # pk' @ sa' @ string_bytes rc' @ string_bytes rm' @ map_bytes member_bytes ms' @ map_bytes (\<lambda>pk. pk) ss'"
    using assms(5) v by (intro str.enc_prefix_free) (simp_all add: update_bytes_def)
  then have 2: "g = g' \<and> k # pk @ sa @ string_bytes rc @ string_bytes rm @ map_bytes member_bytes ms @ map_bytes (\<lambda>pk. pk) ss
     = k' # pk' @ sa' @ string_bytes rc' @ string_bytes rm' @ map_bytes member_bytes ms' @ map_bytes (\<lambda>pk. pk) ss'"
    by (intro word.enc_prefix_free) simp_all
  then have 3: "k = k'" "pk = pk'" "sa = sa'"
    "string_bytes rc @ string_bytes rm @ map_bytes member_bytes ms @ map_bytes (\<lambda>pk. pk) ss
     = string_bytes rc' @ string_bytes rm' @ map_bytes member_bytes ms' @ map_bytes (\<lambda>pk. pk) ss'"
    using assms(3,4) by auto
  then have 4: "rc = rc' \<and> string_bytes rm @ map_bytes member_bytes ms @ map_bytes (\<lambda>pk. pk) ss
     = string_bytes rm' @ map_bytes member_bytes ms' @ map_bytes (\<lambda>pk. pk) ss'"
    using v by (intro str.enc_prefix_free) simp_all
  then have 5: "rm = rm' \<and> map_bytes member_bytes ms @ map_bytes (\<lambda>pk. pk) ss
     = map_bytes member_bytes ms' @ map_bytes (\<lambda>pk. pk) ss'"
    using v by (intro str.enc_prefix_free) simp_all
  then have 6: "ms = ms' \<and> map_bytes (\<lambda>pk. pk) ss = map_bytes (\<lambda>pk. pk) ss'"
    using v rd by (intro map_bytes_inj [where ok = ?ok and rd = "take_member toy" and pr = member_bytes]) simp_all
  then have "ss = ss' \<and> ([] :: bytes) = []"
    using v by (intro map_bytes_inj [where ok = "\<lambda>pk. length pk = 32" and rd = "\<lambda>d. take_n d 32" and pr = "\<lambda>pk. pk"])
      simp_all
  then show ?thesis using 1 2 3 4 5 6 by simp
qed

text \<open>Packing succeeds when the update signature can be computed.\<close>

lemma fields_update_ok:
  assumes "fields_ok C f" "[] \<notin> fst ` set (pf_members f)" "[] \<notin> fst ` set (pf_supervisors f)"
  shows "update_ok (pf_uid f) (pf_recipient f) (pf_removed f) (pf_members f) (pf_supervisors f)"
  using assms by (auto simp: update_ok_def fields_ok_def wire_map_def member_ok_def)

lemma package_payload_total:
  assumes "fields_ok C f" "[] \<notin> fst ` set (pf_members f)" "[] \<notin> fst ` set (pf_supervisors f)"
  shows "package_payload C f = Ok (payload_bytes C f)"
proof -
  have m: "push_member_map out (pf_members f) = Ok (out @ map_bytes member_bytes (pf_members f))"
    and s: "push_party_map out (pf_supervisors f) = Ok (out @ map_bytes (\<lambda>pk. pk) (pf_supervisors f))" for out
    using assms(1) push_member_map_bytes push_party_map_bytes unfolding fields_ok_def by blast+
  have l: "\<And>out. push_len_prefixed out (as_bytes l) = Ok (out @ string_bytes l)"
    if "l \<in> {pf_uid f, pf_bridge_label f, pf_recipient f, pf_removed f}" for l
    using assms(1) that push_string unfolding fields_ok_def by blast
  obtain p where "package_payload C f = Ok p"
    using m s l update_auth_text_bytes [OF fields_update_ok [OF assms]]
    by (cases "pf_old_signing f")
       (auto simp: package_payload_def Let_def fields_preimage_def update_auth_preimage_def)
  then show ?thesis using package_payload_Ok(1) [OF assms(1)] by simp
qed

section \<open>The language of packages\<close>

text \<open>
  The byte strings a decoder accepts, as a grammar. A map is a count and its entries in any order,
  the last entry of a label winning; a flag is off when it is 0 and on for any other byte.
\<close>

definition map_form :: "('v \<Rightarrow> bool) \<Rightarrow> ('v \<Rightarrow> bytes) \<Rightarrow> 'v smap \<Rightarrow> bytes \<Rightarrow> bool" where
  "map_form ok pr m b \<longleftrightarrow> (\<exists>es. length es < 65536 \<and> (\<forall>(l, v) \<in> set es. short_string l \<and> ok v)
     \<and> b = be_bytes 2 (length es) @ entries_bytes pr es \<and> sm_ok m \<and> map_of m = map_of (rev es))"

definition secret_form :: "bytes option \<Rightarrow> bytes option \<Rightarrow> bytes \<Rightarrow> bool" where
  "secret_form wrap secret b \<longleftrightarrow> wrap = None \<and> secret = None \<and> b = [0]
     \<or> (\<exists>has w k. wrap = Some w \<and> secret = Some k \<and> has \<noteq> 0 \<and> length w = 16 \<and> length k = 32 \<and> b = has # w @ k)"

definition auth_form :: "bytes option \<Rightarrow> bytes \<Rightarrow> bool" where
  "auth_form auth b \<longleftrightarrow> auth = None \<and> b = [0] \<or> (\<exists>has sg. auth = Some sg \<and> has \<noteq> 0 \<and> length sg = 64 \<and> b = has # sg)"

definition payload_form :: "crates \<Rightarrow> decoded_package \<Rightarrow> bytes \<Rightarrow> bool" where
  "payload_form C d b \<longleftrightarrow> (\<exists>members supervisors secret auth.
     (\<forall>l \<in> {dc_uid d, dc_bridge_label d, dc_recipient d, dc_removed d}. short_string l)
     \<and> length (dc_public d) = 32 \<and> length (dc_salt d) = 16
     \<and> map_form (member_ok C) member_bytes (dc_members d) members
     \<and> map_form (\<lambda>pk. length pk = 32) (\<lambda>pk. pk) (dc_supervisors d) supervisors
     \<and> secret_form (dc_wrap_salt d) (dc_secret d) secret \<and> auth_form (dc_auth d) auth
     \<and> b = string_bytes (dc_uid d) @ u32_bytes (dc_generation d) @ string_bytes (dc_bridge_label d)
         @ dc_public d @ dc_salt d @ string_bytes (dc_recipient d) @ [role_to_u8 (dc_role d)]
         @ members @ supervisors @ string_bytes (dc_removed d) @ secret @ auth)"

definition package_form :: "crates \<Rightarrow> bytes \<Rightarrow> decoded_package \<Rightarrow> bytes \<Rightarrow> bool" where
  "package_form C sk d data \<longleftrightarrow> (\<exists>letter p. length (dc_recipient_key d) = 32 \<and> length letter < 2 ^ 32
     \<and> data = PACKAGE_MAGIC @ [PB_FORMAT_VERSION] @ [dc_kind d] @ dc_recipient_key d @ be_bytes 4 (length letter) @ letter
     \<and> box_unseal C sk letter = Some p \<and> payload_form C d p)"

lemma take_member_iff: "take_member C d = Ok (k, r) \<longleftrightarrow> member_ok C k \<and> d = member_bytes k @ r"
proof
  assume "take_member C d = Ok (k, r)"
  then show "member_ok C k \<and> d = member_bytes k @ r"
    by (auto simp: take_member_def and_then_Ok_iff take_n_Ok_iff member_ok_def member_bytes_def split: if_splits)
qed (use take_member_bytes in blast)

lemma take_entries_iff:
  assumes "\<And>d v r. rd d = Ok (v, r) \<longleftrightarrow> ok v \<and> d = pr v @ r"
  shows "take_entries rd n acc d = Ok (m, r) \<longleftrightarrow> (\<exists>es. length es = n \<and> (\<forall>(l, v) \<in> set es. short_string l \<and> ok v)
     \<and> d = entries_bytes pr es @ r \<and> m = sm.ins_all es acc)"
proof
  show "take_entries rd n acc d = Ok (m, r) \<Longrightarrow> \<exists>es. length es = n \<and> (\<forall>(l, v) \<in> set es. short_string l \<and> ok v)
     \<and> d = entries_bytes pr es @ r \<and> m = sm.ins_all es acc"
  proof (induction n arbitrary: acc d)
    case (Suc n)
    then obtain l d1 v d2 where h: "short_string l" "d = string_bytes l @ d1" "ok v" "d1 = pr v @ d2"
      and rest: "take_entries rd n (sm_insert l v acc) d2 = Ok (m, r)"
      by (auto simp: and_then_Ok_iff take_string_Ok_iff assms)
    from Suc.IH [OF rest] obtain es where "length es = n" "\<forall>(l, v) \<in> set es. short_string l \<and> ok v"
      "d2 = entries_bytes pr es @ r" "m = sm.ins_all es (sm_insert l v acc)" by blast
    then show ?case using h by (intro exI [of _ "(l, v) # es"]) simp
  qed simp
  assume "\<exists>es. length es = n \<and> (\<forall>(l, v) \<in> set es. short_string l \<and> ok v) \<and> d = entries_bytes pr es @ r \<and> m = sm.ins_all es acc"
  then show "take_entries rd n acc d = Ok (m, r)"
    using take_entries_bytes [of _ rd pr acc r] assms by fastforce
qed

lemma filled_iff: "m = sm.ins_all es [] \<longleftrightarrow> sm_ok m \<and> map_of m = map_of (rev es)"
  using sm.ok_ins_all [of "[]" es] sm.look_ins_all [of "[]" es] sm.entries_determined [of m "sm.ins_all es []"] by auto

lemma take_map_iff:
  assumes "\<And>d v r. rd d = Ok (v, r) \<longleftrightarrow> ok v \<and> d = pr v @ r"
  shows "and_then (take_u16 b) (\<lambda>(n, d). take_entries rd n [] d) = Ok (m, r) \<longleftrightarrow> (\<exists>x. map_form ok pr m x \<and> b = x @ r)"
  unfolding map_form_def
  by (auto simp: and_then_Ok_iff take_u16_Ok_iff take_entries_iff [of rd ok pr, OF assms] filled_iff) blast+

lemma take_parts_iff:
  "take_member_map C b = Ok (ms, r) \<longleftrightarrow> (\<exists>x. map_form (member_ok C) member_bytes ms x \<and> b = x @ r)"
  "take_party_map b = Ok (ss, r) \<longleftrightarrow> (\<exists>x. map_form (\<lambda>pk. length pk = 32) (\<lambda>pk. pk) ss x \<and> b = x @ r)"
  "take_role b = Ok (ro, r) \<longleftrightarrow> b = role_to_u8 ro # r"
  "take_secret b = Ok ((w, k), r) \<longleftrightarrow> (\<exists>x. secret_form w k x \<and> b = x @ r)"
  "take_auth b = Ok (sg, r) \<longleftrightarrow> (\<exists>x. auth_form sg x \<and> b = x @ r)"
proof -
  show "take_member_map C b = Ok (ms, r) \<longleftrightarrow> (\<exists>x. map_form (member_ok C) member_bytes ms x \<and> b = x @ r)"
    unfolding take_member_map_def by (rule take_map_iff) (rule take_member_iff)
  show "take_party_map b = Ok (ss, r) \<longleftrightarrow> (\<exists>x. map_form (\<lambda>pk. length pk = 32) (\<lambda>pk. pk) ss x \<and> b = x @ r)"
    unfolding take_party_map_def by (rule take_map_iff) (rule take_n_Ok_iff)
  show "take_role b = Ok (ro, r) \<longleftrightarrow> b = role_to_u8 ro # r"
  proof
    assume "take_role b = Ok (ro, r)"
    then show "b = role_to_u8 ro # r"
      by (auto simp: take_role_def take_u8_def role_from_u8_def and_then_Ok_iff split: list.splits if_splits)
  qed (simp add: take_role_bytes)
  show "take_secret b = Ok ((w, k), r) \<longleftrightarrow> (\<exists>x. secret_form w k x \<and> b = x @ r)"
    by (cases b) (auto simp: take_secret_def take_u8_def secret_form_def SALT_LEN_def and_then_Ok_iff take_n_Ok_iff)
  show "take_auth b = Ok (sg, r) \<longleftrightarrow> (\<exists>x. auth_form sg x \<and> b = x @ r)"
    by (cases b) (auto simp: take_auth_def take_u8_def auth_form_def and_then_Ok_iff take_n_Ok_iff)
qed

lemma decode_payload_forms:
  assumes "decode_payload C kind pk b = Ok d"
  shows "payload_form C d b" "dc_kind d = kind" "dc_recipient_key d = pk"
proof -
  obtain uid b1 g b2 label b3 public b4 salt b5 recipient b6 role b7 members b8 supervisors b9 removed b10 wrap secret b11 auth
    where "take_string b = Ok (uid, b1)" "take_u32 b1 = Ok (g, b2)" "take_string b2 = Ok (label, b3)"
      "take_n b3 32 = Ok (public, b4)" "take_n b4 SALT_LEN = Ok (salt, b5)" "take_string b5 = Ok (recipient, b6)"
      "take_role b6 = Ok (role, b7)" "take_member_map C b7 = Ok (members, b8)" "take_party_map b8 = Ok (supervisors, b9)"
      "take_string b9 = Ok (removed, b10)" "take_secret b10 = Ok ((wrap, secret), b11)" "take_auth b11 = Ok (auth, [])"
      and d: "d = \<lparr> dc_kind = kind, dc_uid = uid, dc_generation = g, dc_bridge_label = label, dc_public = public,
       dc_salt = salt, dc_recipient = recipient, dc_recipient_key = pk, dc_role = role, dc_members = members,
       dc_supervisors = supervisors, dc_removed = removed, dc_wrap_salt = wrap, dc_secret = secret,
       dc_auth = auth \<rparr>"
    using assms unfolding decode_payload_def by (auto simp: and_then_Ok_iff split: if_splits)
  then obtain ms ss sc where "map_form (member_ok C) member_bytes members ms"
      "map_form (\<lambda>pk. length pk = 32) (\<lambda>pk. pk) supervisors ss" "secret_form wrap secret sc" "auth_form auth b11"
    and "b7 = ms @ b8" "b8 = ss @ b9" "b10 = sc @ b11" "b6 = role_to_u8 role # b7"
      "short_string uid" "b = string_bytes uid @ b1" "b1 = u32_bytes g @ b2" "short_string label"
      "b2 = string_bytes label @ b3" "length public = 32" "b3 = public @ b4" "length salt = 16" "b4 = salt @ b5"
      "short_string recipient" "b5 = string_bytes recipient @ b6" "short_string removed" "b9 = string_bytes removed @ b10"
    unfolding take_Ok_iffs take_parts_iff by (auto simp: SALT_LEN_def)
  then show "payload_form C d b" unfolding payload_form_def d
    by (intro exI [of _ ms] exI [of _ ss] exI [of _ sc] exI [of _ b11]) simp
  show "dc_kind d = kind" "dc_recipient_key d = pk" by (simp_all add: d)
qed

lemma decode_payload_iff:
  "decode_payload C kind pk b = Ok d \<longleftrightarrow> payload_form C d b \<and> dc_kind d = kind \<and> dc_recipient_key d = pk"
proof
  assume "decode_payload C kind pk b = Ok d"
  then show "payload_form C d b \<and> dc_kind d = kind \<and> dc_recipient_key d = pk"
    using decode_payload_forms by blast
next
  assume h: "payload_form C d b \<and> dc_kind d = kind \<and> dc_recipient_key d = pk"
  then obtain ms ss sc au where p: "\<forall>l \<in> {dc_uid d, dc_bridge_label d, dc_recipient d, dc_removed d}. short_string l"
      "length (dc_public d) = 32" "length (dc_salt d) = 16"
    and parts: "map_form (member_ok C) member_bytes (dc_members d) ms"
      "map_form (\<lambda>pk. length pk = 32) (\<lambda>pk. pk) (dc_supervisors d) ss"
      "secret_form (dc_wrap_salt d) (dc_secret d) sc" "auth_form (dc_auth d) au"
    and b: "b = string_bytes (dc_uid d) @ u32_bytes (dc_generation d) @ string_bytes (dc_bridge_label d)
         @ dc_public d @ dc_salt d @ string_bytes (dc_recipient d) @ [role_to_u8 (dc_role d)]
         @ ms @ ss @ string_bytes (dc_removed d) @ sc @ au"
    unfolding payload_form_def by blast
  have t: "take_member_map C (ms @ r) = Ok (dc_members d, r)" "take_party_map (ss @ r) = Ok (dc_supervisors d, r)"
    "take_secret (sc @ r) = Ok ((dc_wrap_salt d, dc_secret d), r)" "take_auth (au @ r) = Ok (dc_auth d, r)" for r
    by (rule take_parts_iff [THEN iffD2], rule exI, rule conjI, rule parts, rule refl)+
  note a = t(4) [of "[]", unfolded append_Nil2]
  show "decode_payload C kind pk b = Ok d"
    using p h by (simp add: decode_payload_def b t a str.dec_enc word.dec_enc take_role_bytes SALT_LEN_def)
qed

lemma decode_package_iff: "decode_package C data sk = Ok d \<longleftrightarrow> package_form C sk d data"
proof -
  have "decode_package C data sk = Ok d \<longleftrightarrow> (\<exists>kind pk letter p. parse_kqpb_outer data = Ok (kind, pk, letter)
     \<and> box_unseal C sk letter = Some p \<and> decode_payload C kind pk p = Ok d)"
    by (auto simp: decode_package_def and_then_Ok_iff ok_or_Ok_iff)
  then show ?thesis
    unfolding package_form_def parse_kqpb_outer_Ok_iff decode_payload_iff by blast
qed

lemma decode_package_otherwise:
  "(\<nexists>d. package_form C sk d data) \<Longrightarrow> decode_package C data sk = Err InvalidBridgePackage"
  using decode_package_fails [of C data sk]
  by (cases "decode_package C data sk") (simp_all add: decode_package_iff)

lemma routing_public_key_iff:
  "routing_public_key b = Ok pk \<longleftrightarrow> (\<exists>kind letter. length pk = 32 \<and> length letter < 2 ^ 32
     \<and> b = PACKAGE_MAGIC @ [PB_FORMAT_VERSION] @ [kind] @ pk @ be_bytes 4 (length letter) @ letter)"
  by (auto simp: routing_public_key_def and_then_Ok_iff parse_kqpb_outer_Ok_iff)

section \<open>Properties of the codec\<close>

text \<open>
  C27: What is packed for a recipient comes back under the recipient's secret key, every field
  of it, with an update signature exactly when an old signing key was given; a relay that
  reads only the clear header gets the recipient's key, and a relay reads a key from nothing
  but a complete outer envelope. The decoder accepts exactly the byte strings of the grammar
  \<^const>\<open>package_form\<close>: the magic, version 2, a kind, a key, a letter of the stated length
  and nothing behind it, which opens to a payload of the same exactness. It is laxer than the
  encoder in two places only: a flag may be any non-zero byte, and a map may be unsorted or
  repeat a label, the last entry counting. Every other byte string is refused as
  \<open>InvalidBridgePackage\<close>.
\<close>
theorem package_codec:
  assumes "box_ok C" "ed_ok C" "fields_ok C f" "pf_recipient_key f = x25519_public C sk" "length sk = 32"
    and "encode_package C f s = (Ok data, s')"
  shows "decode_package C data sk = Ok (decoded_of C f)
     \<and> routing_public_key data = Ok (pf_recipient_key f)
     \<and> (dc_auth (decoded_of C f) = None \<longleftrightarrow> pf_old_signing f = None)
     \<and> (\<forall>b k d. decode_package C b k = Ok d \<longleftrightarrow> package_form C k d b)
     \<and> (\<forall>b k. (\<nexists>d. package_form C k d b) \<longrightarrow> decode_package C b k = Err InvalidBridgePackage)
     \<and> (\<forall>b pk. routing_public_key b = Ok pk \<longleftrightarrow> (\<exists>kind letter. length pk = 32 \<and> length letter < 2 ^ 32
          \<and> b = PACKAGE_MAGIC @ [PB_FORMAT_VERSION] @ [kind] @ pk @ be_bytes 4 (length letter) @ letter))"
proof -
  obtain p where p: "package_payload C f = Ok p" by (rule encode_package_Ok [OF assms(6)])
  have "dc_auth (decoded_of C f) = None \<longleftrightarrow> pf_old_signing f = None"
    using package_payload_Ok(2) [OF assms(3) p] by (cases "pf_old_signing f") (auto simp: decoded_of_def)
  then show ?thesis
    using decode_encoded [OF assms] decode_package_iff decode_package_otherwise routing_public_key_iff by simp
qed

definition demo_fields :: package_fields where
  "demo_fields = \<lparr> pf_kind = KIND_ROTATE, pf_uid = ''u'', pf_generation = 2, pf_bridge_label = ''B'',
     pf_public = replicate 32 1, pf_salt = replicate 16 2, pf_recipient = ''M.S'',
     pf_recipient_key = replicate 32 3, pf_role = Member,
     pf_members = [(''M.S'', \<lparr> mk_encryption = replicate 32 3, mk_signing = replicate 32 4 \<rparr>)],
     pf_supervisors = [(''M'', replicate 32 5)], pf_removed = ''M.T'',
     pf_wrap_salt = Some (replicate 16 6), pf_secret = Some (replicate 32 7),
     pf_old_signing = Some (replicate 32 8) \<rparr>"

lemma demo_fields_ok: "fields_ok toy demo_fields"
  by (simp add: fields_ok_def demo_fields_def wire_map_def sm_ok_def member_ok_def short_string_def utf8_str_def
      as_bytes_def)

theorem package_codec_witness:
  "\<exists>data s'. encode_package toy demo_fields empty_store = (Ok data, s')
     \<and> decode_package toy data (replicate 32 3) = Ok (decoded_of toy demo_fields)"
proof -
  have p: "package_payload toy demo_fields = Ok (payload_bytes toy demo_fields)"
    by (rule package_payload_total [OF demo_fields_ok]) (simp_all add: demo_fields_def)
  have key: "pf_recipient_key demo_fields = replicate 32 3" by (simp add: demo_fields_def)
  have "length (payload_bytes toy demo_fields) < 1000"
    by (auto simp: payload_bytes_def demo_fields_def string_bytes_def len_prefixed_def map_bytes_def
        entries_bytes_def member_bytes_def secret_bytes_def auth_bytes_def decoded_of_def u32_bytes_def sign_def
        split: option.split sum.split)
  then obtain data s' where run: "encode_package toy demo_fields empty_store = (Ok data, s')"
    using key by (simp add: encode_package_def pb_is_weak_x25519_public_key_def p Let_def)
  have "pf_recipient_key demo_fields = x25519_public toy (replicate 32 3)" by (simp add: key)
  then have "decode_package toy data (replicate 32 3) = Ok (decoded_of toy demo_fields)"
    by (rule package_codec [OF toy_box_ok toy_ed_ok demo_fields_ok _ _ run, THEN conjunct1]) simp
  then show ?thesis using run by blast
qed

text \<open>
  C28: The text an update signature is made over determines the bridge, the generation, the kind
  of change, the new public key and salt, the recipient, the removed label and both rosters:
  no other update has the same text. It says nothing of the bridge's label, the recipient's
  role or the sealed secret, which the signature leaves open.
\<close>
theorem update_text_binds:
  assumes "update_ok uid rc rm ms ss" "update_ok uid' rc' rm' ms' ss'" "length pk = length pk'" "length sa = length sa'"
    and "update_auth_text uid g k pk sa rc ms ss rm = Ok t" "update_auth_text uid' g' k' pk' sa' rc' ms' ss' rm' = Ok t"
  shows "(uid, g, k, pk, sa, rc, rm, ms, ss) = (uid', g', k', pk', sa', rc', rm', ms', ss')
     \<and> fields_preimage C (f\<lparr>pf_bridge_label := l, pf_role := r, pf_wrap_salt := w, pf_secret := sk\<rparr>) = fields_preimage C f"
proof
  have "update_bytes uid g k pk sa rc ms ss rm = update_bytes uid' g' k' pk' sa' rc' ms' ss' rm'"
    using assms(5,6) by (simp add: update_auth_text_bytes [OF assms(1)] update_auth_text_bytes [OF assms(2)])
  then show "(uid, g, k, pk, sa, rc, rm, ms, ss) = (uid', g', k', pk', sa', rc', rm', ms', ss')"
    by (rule update_bytes_inj [OF assms(1-4)])
qed (simp add: fields_preimage_def)

theorem update_text_binds_witness:
  "update_auth_text ''u'' 2 KIND_ROTATE [] [] ''A'' [] [] ''B'' \<noteq> update_auth_text ''u'' 3 KIND_ROTATE [] [] ''A'' [] [] ''B''"
proof
  have ok: "update_ok ''u'' ''A'' ''B'' [] []"
    by (simp add: update_ok_def wire_map_def short_string_def utf8_str_def as_bytes_def)
  assume "update_auth_text ''u'' 2 KIND_ROTATE [] [] ''A'' [] [] ''B'' = update_auth_text ''u'' 3 KIND_ROTATE [] [] ''A'' [] [] ''B''"
  then obtain t where "update_auth_text ''u'' 2 KIND_ROTATE [] [] ''A'' [] [] ''B'' = Ok t"
    "update_auth_text ''u'' 3 KIND_ROTATE [] [] ''A'' [] [] ''B'' = Ok t"
    using update_auth_text_bytes [OF ok] by metis
  from update_text_binds [OF ok ok _ _ this, where f = demo_fields and C = toy] show False by simp
qed

section \<open>Who is notified\<close>

lemma parent_node_label_iff:
  "parent_node_label l = Some p \<longleftrightarrow> (\<exists>t. l = p @ CHR ''.'' # t \<and> CHR ''.'' \<notin> set t)"
proof
  assume h: "parent_node_label l = Some p"
  then have dot: "CHR ''.'' \<in> set (rev l)" and p: "p = rev (tl (dropWhile (\<lambda>c. c \<noteq> CHR ''.'') (rev l)))"
    by (auto simp: parent_node_label_def split: if_splits)
  let ?a = "takeWhile (\<lambda>c. c \<noteq> CHR ''.'') (rev l)" and ?b = "dropWhile (\<lambda>c. c \<noteq> CHR ''.'') (rev l)"
  have b: "?b \<noteq> []" using dot by (auto simp: dropWhile_eq_Nil_conv)
  then have "hd ?b = CHR ''.''" using hd_dropWhile [of _ "rev l"] by blast
  then have "?b = CHR ''.'' # tl ?b" using b by (metis list.collapse)
  then have "rev l = ?a @ CHR ''.'' # tl ?b" by (metis takeWhile_dropWhile_id)
  then have "rev (rev l) = rev (?a @ CHR ''.'' # tl ?b)" by simp
  then have "l = p @ CHR ''.'' # rev ?a" using p by simp
  moreover have "CHR ''.'' \<notin> set (rev ?a)" by (auto dest: set_takeWhileD)
  ultimately show "\<exists>t. l = p @ CHR ''.'' # t \<and> CHR ''.'' \<notin> set t" by blast
next
  assume "\<exists>t. l = p @ CHR ''.'' # t \<and> CHR ''.'' \<notin> set t"
  then obtain t where t: "l = p @ CHR ''.'' # t" "CHR ''.'' \<notin> set t" by blast
  have "dropWhile (\<lambda>c. c \<noteq> CHR ''.'') (rev t @ CHR ''.'' # rev p) = CHR ''.'' # rev p"
    using t(2) by (subst dropWhile_append2) auto
  then show "parent_node_label l = Some p" using t(1) by (simp add: parent_node_label_def)
qed

lemma notify_foldl:
  "sm_ok out \<Longrightarrow> sm_ok (foldl notify_step out ls)
     \<and> fst ` set (foldl notify_step out ls)
       = fst ` set out \<union> set ls \<union> {p. \<exists>l \<in> set ls. parent_node_label l = Some p}"
proof (induction ls arbitrary: out)
  case (Cons l ls)
  have "sm_ok (notify_step out l)"
    using Cons.prems by (auto simp: notify_step_def Let_def sm_insert_ok split: option.split)
  moreover have "fst ` set (notify_step out l) = fst ` set out \<union> {l} \<union> {p. parent_node_label l = Some p}"
    by (auto simp: notify_step_def Let_def split: option.splits)
  ultimately show ?case using Cons.IH by auto
qed simp

text \<open>Each member and the node above each, once, in ascending order.\<close>

lemma notify_labels_spec:
  "sorted_wrt (<) (notify_labels ls)"
  "set (notify_labels ls) = set ls \<union> {p. \<exists>l \<in> set ls. \<exists>t. l = p @ CHR ''.'' # t \<and> CHR ''.'' \<notin> set t}"
  using notify_foldl [of "[]" ls] by (simp_all add: notify_labels_def sm_keys_def sm_ok_def parent_node_label_iff)

end
