(* ===== verification/BridgeStore.thy ===== *)
theory BridgeStore
  imports BridgeCodec
begin

text \<open>
  The four tables of private bridges and the reads and writes of \<open>src/private_bridge.rs\<close> on
  them: summaries, events, the roster, and the one sealed copy of the shared secret a store
  may hold. \<open>SigningKey::generate\<close> is a draw of 32 bytes and the public key derived from it.
\<close>

section \<open>Statements\<close>

definition insert_pb :: "(int \<Rightarrow> pb_row) \<Rightarrow> (store, int) op" where
  "insert_pb mk = (\<lambda>s. insert_row
     (\<lambda>s. let r = mk (next_rowid (map b_id (pb_rows s))) in
        b_uid r \<notin> b_uid ` set (pb_rows s) \<and> 0 < b_generation r
        \<and> (case b_key r of None \<Rightarrow> True | Some k \<Rightarrow> k \<in> k_id ` set (key_rows s)))
     (\<lambda>s. map b_id (pb_rows s))
     (\<lambda>i s. s\<lparr>pb_rows := pb_rows s @ [mk i]\<rparr>) s)"

definition insert_pbevent :: "(int \<Rightarrow> pbevent_row) \<Rightarrow> (store, int) op" where
  "insert_pbevent mk = (\<lambda>s. insert_row
     (\<lambda>s. pe_bridge (mk 0) \<in> b_id ` set (pb_rows s))
     (\<lambda>s. map pe_id (pbevent_rows s))
     (\<lambda>i s. s\<lparr>pbevent_rows := pbevent_rows s @ [mk i]\<rparr>) s)"

definition member_key :: "member_row \<Rightarrow> int \<times> string" where
  "member_key r = (m_bridge r, m_label r)"

definition sealed_key :: "sealed_row \<Rightarrow> int \<times> string" where
  "sealed_key r = (sk_bridge r, sk_label r)"

definition role_check :: "member_row \<Rightarrow> bool" where
  "role_check r \<longleftrightarrow> (case m_signing r of
       None \<Rightarrow> m_role r = Supervisor
     | Some k \<Rightarrow> m_role r = Member \<and> length k = 32)"

definition insert_member :: "member_row \<Rightarrow> (store, unit) op" where
  "insert_member r = (\<lambda>s.
     if m_bridge r \<in> b_id ` set (pb_rows s) \<and> member_key r \<notin> member_key ` set (member_rows s) \<and> role_check r
     then (Ok (), s\<lparr>member_rows := member_rows s @ [r]\<rparr>)
     else (Err (Db ConstraintViolation), s))"

definition insert_sealed :: "sealed_row \<Rightarrow> (store, unit) op" where
  "insert_sealed r = (\<lambda>s.
     if sealed_key r \<in> member_key ` set (member_rows s) \<and> sealed_key r \<notin> sealed_key ` set (sealed_rows s)
     then (Ok (), s\<lparr>sealed_rows := sealed_rows s @ [r]\<rparr>)
     else (Err (Db ConstraintViolation), s))"

text \<open>Deleting a party deletes its sealed copy (\<open>ON DELETE CASCADE\<close>).\<close>

definition delete_parties :: "(member_row \<Rightarrow> bool) \<Rightarrow> (store, unit) op" where
  "delete_parties P = modify (\<lambda>s. s\<lparr>member_rows := filter (\<lambda>r. \<not> P r) (member_rows s),
     sealed_rows := filter (\<lambda>k. sealed_key k \<notin> member_key ` set (filter P (member_rows s))) (sealed_rows s)\<rparr>)"

definition delete_sealed :: "int \<Rightarrow> (store, unit) op" where
  "delete_sealed b = modify (\<lambda>s. s\<lparr>sealed_rows := filter (\<lambda>k. sk_bridge k \<noteq> b) (sealed_rows s)\<rparr>)"

text \<open>
  An \<open>UPDATE\<close> of \<open>private_bridges\<close> and the number of rows it changed. The \<open>CHECK\<close> on the
  generation holds for updates too: a generation that wrapped round to 0 is refused here.
\<close>

definition update_pb :: "(pb_row \<Rightarrow> bool) \<Rightarrow> (pb_row \<Rightarrow> pb_row) \<Rightarrow> (store, nat) op" where
  "update_pb P f = (\<lambda>s.
     if \<exists>r \<in> set (pb_rows s). P r \<and> b_generation (f r) \<le> 0 then (Err (Db ConstraintViolation), s)
     else (Ok (length (filter P (pb_rows s))), s\<lparr>pb_rows := map (\<lambda>r. if P r then f r else r) (pb_rows s)\<rparr>))"

definition insert_event :: "int \<Rightarrow> bridge_event_type \<Rightarrow> bridge_detail \<Rightarrow> (store, unit) op" where
  "insert_event b t d =
     bind (insert_pbevent (\<lambda>i. \<lparr> pe_id = i, pe_bridge = b, pe_type = t, pe_detail = d \<rparr>)) (\<lambda>_. ret ())"

definition get_optional :: "store \<Rightarrow> string \<Rightarrow> int option" where
  "get_optional s uid = map_option b_id (find (\<lambda>r. b_uid r = uid) (pb_rows s))"

definition last_bridge_id :: "store \<Rightarrow> string \<Rightarrow> int result" where
  "last_bridge_id s uid = ok_or BridgeNotFound (get_optional s uid)"

section \<open>Reads\<close>

definition vec_to_32 :: "bytes \<Rightarrow> bytes result" where
  "vec_to_32 b = (if length b = 32 then Ok b else Err InvalidPublicKey)"

definition vec_to_salt :: "bytes \<Rightarrow> bytes result" where
  "vec_to_salt b = (if length b = SALT_LEN then Ok b else Err InvalidPublicKey)"

record bridge_party =
  bp_label :: string
  bp_encryption :: bytes
  bp_signing :: "bytes option"
  bp_role :: member_role
  bp_local :: bool
  bp_sealed :: bool

record bridge_summary =
  bg_uid :: string
  bg_key :: "int option"
  bg_label :: "string option"
  bg_generation :: u32
  bg_public :: bytes
  bg_salt :: bytes
  bg_destroyed :: bool
  bg_parties :: "bridge_party list"

text \<open>The roster \<open>ORDER BY role, node_label\<close>: the text \<open>member\<close> sorts before \<open>supervisor\<close>.\<close>

definition roster :: "store \<Rightarrow> int \<Rightarrow> member_row list" where
  "roster s b =
     (let rs = filter (\<lambda>r. m_bridge r = b) (member_rows s) in
      sort_key m_label (filter (\<lambda>r. m_role r = Member) rs)
      @ sort_key m_label (filter (\<lambda>r. m_role r = Supervisor) rs))"

definition has_sealed :: "store \<Rightarrow> int \<Rightarrow> string \<Rightarrow> bool" where
  "has_sealed s b l \<longleftrightarrow> (b, l) \<in> sealed_key ` set (sealed_rows s)"

definition party_of :: "store \<Rightarrow> member_row \<Rightarrow> bridge_party result" where
  "party_of s r =
     and_then (vec_to_32 (m_encryption r)) (\<lambda>e.
     and_then (case m_signing r of None \<Rightarrow> Ok None | Some k \<Rightarrow> and_then (vec_to_32 k) (\<lambda>k. Ok (Some k))) (\<lambda>sg.
     Ok \<lparr> bp_label = m_label r, bp_encryption = e, bp_signing = sg, bp_role = m_role r, bp_local = m_local r,
          bp_sealed = has_sealed s (m_bridge r) (m_label r) \<rparr>))"

definition u32_try_from :: "int \<Rightarrow> u32 result" where
  "u32_try_from i = (if 0 \<le> i \<and> i < 2 ^ 32 then Ok (word_of_int i) else Err InvalidBridgePackage)"

definition get :: "store \<Rightarrow> string \<Rightarrow> bridge_summary result" where
  "get s uid =
     and_then (ok_or BridgeNotFound (find (\<lambda>r. b_uid r = uid) (pb_rows s))) (\<lambda>r.
     and_then (try_all (party_of s) (roster s (b_id r))) (\<lambda>parties.
     and_then (u32_try_from (b_generation r)) (\<lambda>g.
     and_then (vec_to_32 (b_public r)) (\<lambda>pk.
     and_then (vec_to_salt (b_salt r)) (\<lambda>salt.
     Ok \<lparr> bg_uid = uid, bg_key = b_key r, bg_label = b_label r, bg_generation = g, bg_public = pk,
          bg_salt = salt, bg_destroyed = (b_destroyed r \<noteq> None), bg_parties = parties \<rparr>)))))"

definition list_private_bridges :: "store \<Rightarrow> int option \<Rightarrow> bridge_summary list result" where
  "list_private_bridges s key =
     try_all (get s) (map b_uid (filter (\<lambda>r. key \<noteq> None \<longrightarrow> b_key r = key) (pb_rows s)))"

record bridge_event =
  be_id :: int
  be_uid :: string
  be_type :: bridge_event_type
  be_detail :: bridge_detail

definition event_from_row :: "pbevent_row \<Rightarrow> pb_row \<Rightarrow> bridge_event" where
  "event_from_row e b = \<lparr> be_id = pe_id e, be_uid = b_uid b, be_type = pe_type e, be_detail = pe_detail e \<rparr>"

definition events :: "store \<Rightarrow> string option \<Rightarrow> int option \<Rightarrow> bridge_event list" where
  "events s uid since =
     [event_from_row e b. e \<leftarrow> pbevent_rows s, b \<leftarrow> filter (\<lambda>b. b_id b = pe_bridge e) (pb_rows s),
        (case uid of None \<Rightarrow> True | Some u \<Rightarrow> b_uid b = u) \<and> (case since of None \<Rightarrow> True | Some i \<Rightarrow> pe_id e > i)]"

section \<open>The sealed secret\<close>

definition generate_signing_keypair :: "crates \<Rightarrow> (store, bytes \<times> bytes) op" where
  "generate_signing_keypair C = bind (random_bytes C 32) (\<lambda>sk. ret (sk, ed_public C sk))"

definition seal_secret :: "crates \<Rightarrow> bytes \<Rightarrow> bytes \<Rightarrow> bytes \<Rightarrow> (store, bytes) op" where
  "seal_secret C pk wrap_salt secret =
     bind (guard (\<not> pb_is_weak_x25519_public_key C pk) InvalidPublicKey) (\<lambda>_.
     bind draw (\<lambda>coin. ret (box_seal C pk coin (wrap_salt @ secret))))"

definition unseal_local_secret :: "crates \<Rightarrow> store \<Rightarrow> string \<Rightarrow> string \<Rightarrow> bytes \<Rightarrow> bytes result" where
  "unseal_local_secret C s uid label sk =
     and_then (last_bridge_id s uid) (\<lambda>b.
     and_then (query_row (find (\<lambda>r. sk_bridge r = b \<and> sk_label r = label) (sealed_rows s))) (\<lambda>r.
     and_then (vec_to_salt (sk_salt r)) (\<lambda>wrap_salt.
     and_then (ok_or IntegrityCheckFailed (box_unseal C sk (sk_secret r))) (\<lambda>plain.
     if length plain \<noteq> SALT_LEN + 32 \<or> take SALT_LEN plain \<noteq> wrap_salt then Err IntegrityCheckFailed
     else Ok (drop SALT_LEN plain)))))"

section \<open>Rosters\<close>

definition insert_member_parties :: "int \<Rightarrow> member_keys smap \<Rightarrow> string option \<Rightarrow> (store, unit) op" where
  "insert_member_parties b members local_label =
     for_each (\<lambda>(l, k). insert_member \<lparr> m_bridge = b, m_label = l, m_encryption = mk_encryption k,
       m_signing = Some (mk_signing k), m_role = Member, m_local = (local_label = Some l) \<rparr>) members"

definition insert_supervisor_parties :: "int \<Rightarrow> bytes smap \<Rightarrow> string option \<Rightarrow> (store, unit) op" where
  "insert_supervisor_parties b supervisors local_label =
     for_each (\<lambda>(l, pk). insert_member \<lparr> m_bridge = b, m_label = l, m_encryption = pk,
       m_signing = None, m_role = Supervisor, m_local = (local_label = Some l) \<rparr>) supervisors"

definition seal_local_if_member ::
  "crates \<Rightarrow> int \<Rightarrow> string \<Rightarrow> member_keys smap \<Rightarrow> bytes \<Rightarrow> (store, unit) op" where
  "seal_local_if_member C b label members secret =
     (case map_of members label of
        None \<Rightarrow> ret ()
      | Some k \<Rightarrow>
          bind (random_salt C) (\<lambda>wrap_salt.
          bind (seal_secret C (mk_encryption k) wrap_salt secret) (\<lambda>wrapped.
          insert_sealed \<lparr> sk_bridge = b, sk_label = label, sk_salt = wrap_salt, sk_secret = wrapped \<rparr>)))"

definition persist_new_bridge ::
  "crates \<Rightarrow> string \<Rightarrow> int option \<Rightarrow> string option \<Rightarrow> u32 \<Rightarrow> bytes \<Rightarrow> bytes \<Rightarrow> member_keys smap \<Rightarrow> bytes smap
    \<Rightarrow> string option \<Rightarrow> bytes \<Rightarrow> (store, unit) op" where
  "persist_new_bridge C uid key label g pk salt members supervisors local_label secret =
     bind (insert_pb (\<lambda>i. \<lparr> b_id = i, b_uid = uid, b_key = key, b_label = label, b_generation = uint g,
             b_public = pk, b_salt = salt, b_destroyed = None \<rparr>)) (\<lambda>b.
     bind (insert_member_parties b members local_label) (\<lambda>_.
     bind (insert_supervisor_parties b supervisors local_label) (\<lambda>_.
     seal_local_if_member C b (case local_label of None \<Rightarrow> [] | Some l \<Rightarrow> l) members secret)))"

definition persist_rotation ::
  "crates \<Rightarrow> string \<Rightarrow> int \<Rightarrow> u32 \<Rightarrow> u32 \<Rightarrow> bytes \<Rightarrow> bytes \<Rightarrow> member_keys smap \<Rightarrow> bytes smap
    \<Rightarrow> string \<Rightarrow> bytes \<Rightarrow> (store, unit) op" where
  "persist_rotation C uid b expected g pk salt members supervisors label secret =
     bind (update_pb (\<lambda>r. b_uid r = uid \<and> b_generation r = uint expected \<and> b_destroyed r = None)
             (\<lambda>r. r\<lparr>b_generation := uint g, b_public := pk, b_salt := salt\<rparr>)) (\<lambda>updated.
     bind (guard (updated = 1) BridgeGenerationMismatch) (\<lambda>_.
     bind (delete_parties (\<lambda>r. m_bridge r = b)) (\<lambda>_.
     bind (insert_member_parties b members (Some label)) (\<lambda>_.
     bind (insert_supervisor_parties b supervisors (Some label)) (\<lambda>_.
     bind (delete_sealed b) (\<lambda>_.
     seal_local_if_member C b label members secret))))))"

end
