(* ===== verification/BridgeOps.thy ===== *)
theory BridgeOps
  imports BridgeStore
begin

text \<open>
  The operations of \<open>src/private_bridge.rs\<close>: planning and committing a new bridge, importing a
  delivery package, removing a member with a rotation or a destruction, and the coordinator's
  removal of a member it has no keys of.
\<close>

section \<open>The rosters a caller gives\<close>

fun unique_members_from :: "crates \<Rightarrow> member_keys smap \<Rightarrow> party_input list \<Rightarrow> member_keys smap result" where
  "unique_members_from C m [] = Ok m"
| "unique_members_from C m (p # ps) =
     (if pi_label p = [] then Err InvalidBridge
      else if pb_is_weak_x25519_public_key C (pi_encryption p) then Err InvalidPublicKey
      else and_then (ok_or InvalidPublicKey (pi_signing p)) (\<lambda>signing.
        if \<not> ed_valid_key C signing then Err InvalidPublicKey
        else if sm_has m (pi_label p) then Err DuplicateNodeLabel
        else unique_members_from C
               (sm_insert (pi_label p) \<lparr> mk_encryption = pi_encryption p, mk_signing = signing \<rparr> m) ps))"

definition unique_members :: "crates \<Rightarrow> party_input list \<Rightarrow> member_keys smap result" where
  "unique_members C ps = unique_members_from C [] ps"

fun unique_supervisors_from :: "crates \<Rightarrow> bytes smap \<Rightarrow> party_input list \<Rightarrow> bytes smap result" where
  "unique_supervisors_from C m [] = Ok m"
| "unique_supervisors_from C m (p # ps) =
     (if pi_label p = [] then Err InvalidBridge
      else if pb_is_weak_x25519_public_key C (pi_encryption p) then Err InvalidPublicKey
      else if sm_has m (pi_label p) then Err DuplicateNodeLabel
      else unique_supervisors_from C (sm_insert (pi_label p) (pi_encryption p) m) ps)"

definition unique_supervisors :: "crates \<Rightarrow> party_input list \<Rightarrow> bytes smap result" where
  "unique_supervisors C ps = unique_supervisors_from C [] ps"

text \<open>The parents the members imply that are not members themselves, per member in order.\<close>

definition implied_parents :: "member_keys smap \<Rightarrow> string list" where
  "implied_parents members =
     [p. l \<leftarrow> sm_keys members, p \<leftarrow> (case parent_node_label l of None \<Rightarrow> [] | Some p \<Rightarrow> [p]), \<not> sm_has members p]"

definition fill_implied_supervisors :: "member_keys smap \<Rightarrow> bytes smap \<Rightarrow> bytes smap result" where
  "fill_implied_supervisors members supervisors =
     (if \<exists>p \<in> set (implied_parents members). \<not> sm_has supervisors p then Err NodeNotFound
      else Ok (filter (\<lambda>(l, _). \<not> sm_has members l) supervisors))"

definition supervisor_pubs_for :: "member_keys smap \<Rightarrow> bridge_party list \<Rightarrow> bytes smap" where
  "supervisor_pubs_for members previous =
     foldl (\<lambda>m p. if bp_label p \<in> set (implied_parents members) then sm_insert (bp_label p) (bp_encryption p) m else m)
       [] previous"

fun remaining_from :: "string \<Rightarrow> member_keys smap \<Rightarrow> bridge_party list \<Rightarrow> member_keys smap result" where
  "remaining_from removed m [] = Ok m"
| "remaining_from removed m (p # ps) =
     (if bp_role p \<noteq> Member \<or> bp_label p = removed then remaining_from removed m ps
      else and_then (ok_or InvalidBridge (bp_signing p)) (\<lambda>signing.
        remaining_from removed (sm_insert (bp_label p) \<lparr> mk_encryption = bp_encryption p, mk_signing = signing \<rparr> m) ps))"

definition remaining_members :: "bridge_summary \<Rightarrow> string \<Rightarrow> member_keys smap result" where
  "remaining_members summary removed = remaining_from removed [] (bg_parties summary)"

section \<open>Packages for a roster\<close>

fun collect :: "('a \<Rightarrow> ('s, 'b) op) \<Rightarrow> 'a list \<Rightarrow> ('s, 'b list) op" where
  "collect f [] = ret []"
| "collect f (x # xs) = bind (f x) (\<lambda>y. bind (collect f xs) (\<lambda>ys. ret (y # ys)))"

definition packages_for_roster ::
  "crates \<Rightarrow> u8 \<Rightarrow> u8 \<Rightarrow> string \<Rightarrow> u32 \<Rightarrow> string \<Rightarrow> bytes \<Rightarrow> bytes \<Rightarrow> member_keys smap \<Rightarrow> bytes smap \<Rightarrow> string
    \<Rightarrow> bytes option \<Rightarrow> bytes option \<Rightarrow> (store, delivery_package list) op" where
  "packages_for_roster C member_kind supervisor_kind uid g label pk salt members supervisors removed secret old =
     bind (collect (\<lambda>(l, k).
       bind (case secret of None \<Rightarrow> ret None | Some _ \<Rightarrow> bind (random_salt C) (\<lambda>w. ret (Some w))) (\<lambda>wrap.
       bind (encode_package C \<lparr> pf_kind = member_kind, pf_uid = uid, pf_generation = g, pf_bridge_label = label,
          pf_public = pk, pf_salt = salt, pf_recipient = l, pf_recipient_key = mk_encryption k, pf_role = Member,
          pf_members = members, pf_supervisors = supervisors, pf_removed = removed, pf_wrap_salt = wrap,
          pf_secret = secret, pf_old_signing = old \<rparr>) (\<lambda>data.
       ret \<lparr> dp_label = l, dp_role = Member, dp_recipient = mk_encryption k, dp_bytes = data \<rparr>))) members) (\<lambda>ms.
     bind (collect (\<lambda>(l, key).
       bind (encode_package C \<lparr> pf_kind = supervisor_kind, pf_uid = uid, pf_generation = g, pf_bridge_label = label,
          pf_public = pk, pf_salt = salt, pf_recipient = l, pf_recipient_key = key, pf_role = Supervisor,
          pf_members = members, pf_supervisors = supervisors, pf_removed = removed, pf_wrap_salt = None,
          pf_secret = None, pf_old_signing = old \<rparr>) (\<lambda>data.
       ret \<lparr> dp_label = l, dp_role = Supervisor, dp_recipient = key, dp_bytes = data \<rparr>)) supervisors) (\<lambda>ss.
     ret (ms @ ss)))"

definition destroy_package_for ::
  "crates \<Rightarrow> string \<Rightarrow> u32 \<Rightarrow> string \<Rightarrow> bytes \<Rightarrow> bytes \<Rightarrow> member_keys smap \<Rightarrow> bytes smap \<Rightarrow> string
    \<Rightarrow> string \<Rightarrow> bytes \<Rightarrow> member_role \<Rightarrow> bytes \<Rightarrow> (store, delivery_package) op" where
  "destroy_package_for C uid g label pk salt members supervisors removed recipient key role old =
     bind (encode_package C \<lparr> pf_kind = KIND_DESTROY, pf_uid = uid, pf_generation = g, pf_bridge_label = label,
        pf_public = pk, pf_salt = salt, pf_recipient = recipient, pf_recipient_key = key, pf_role = role,
        pf_members = members, pf_supervisors = supervisors, pf_removed = removed, pf_wrap_salt = None,
        pf_secret = None, pf_old_signing = Some old \<rparr>) (\<lambda>data.
     ret \<lparr> dp_label = recipient, dp_role = role, dp_recipient = key, dp_bytes = data \<rparr>)"

section \<open>A new bridge\<close>

record created_bridge =
  cb_uid :: string
  cb_generation :: u32
  cb_public :: bytes
  cb_salt :: bytes
  cb_packages :: "delivery_package list"

record planned_creation =
  pc_created :: created_bridge
  pc_key :: "int option"
  pc_label :: "string option"
  pc_members :: "member_keys smap"
  pc_supervisors :: "bytes smap"
  pc_local :: "string option"
  pc_secret :: bytes

definition unwrap_or_empty :: "string option \<Rightarrow> string" where
  "unwrap_or_empty l = (case l of None \<Rightarrow> [] | Some l \<Rightarrow> l)"

definition plan_create ::
  "crates \<Rightarrow> int option \<Rightarrow> string option \<Rightarrow> party_input list \<Rightarrow> party_input list \<Rightarrow> string option
    \<Rightarrow> (store, planned_creation) op" where
  "plan_create C key label members supervisors local_label =
     bind (lift_result (unique_members C members)) (\<lambda>members.
     bind (guard (2 \<le> length members) TooFewBridgeMembers) (\<lambda>_.
     bind (lift_result (unique_supervisors C supervisors)) (\<lambda>supervisors.
     bind (lift_result (fill_implied_supervisors members supervisors)) (\<lambda>supervisors.
     bind (guard (case local_label of None \<Rightarrow> True | Some l \<Rightarrow> sm_has members l \<or> sm_has supervisors l)
             NotBridgeMember) (\<lambda>_.
     bind (random_salt C) (\<lambda>raw.
     bind (random_salt C) (\<lambda>salt.
     bind (generate_signing_keypair C) (\<lambda>(secret, pk).
     let uid = hex_encode C raw; g = 1 in
     bind (packages_for_roster C KIND_INVITE KIND_SUPERVISOR uid g (unwrap_or_empty label) pk salt
             members supervisors [] (Some secret) None) (\<lambda>packages.
     ret \<lparr> pc_created = \<lparr> cb_uid = uid, cb_generation = g, cb_public = pk, cb_salt = salt, cb_packages = packages \<rparr>,
       pc_key = key, pc_label = label, pc_members = members, pc_supervisors = supervisors,
       pc_local = local_label, pc_secret = secret \<rparr>)))))))))"

definition commit_planned_creation :: "crates \<Rightarrow> planned_creation \<Rightarrow> (store, unit) op" where
  "commit_planned_creation C p =
     (let c = pc_created p in
      with_immediate_transaction
        (bind (persist_new_bridge C (cb_uid c) (pc_key p) (pc_label p) (cb_generation c) (cb_public c) (cb_salt c)
                 (pc_members p) (pc_supervisors p) (pc_local p) (pc_secret p)) (\<lambda>_.
         bind (asks (\<lambda>s. last_bridge_id s (cb_uid c))) (\<lambda>b.
         insert_event b Created (CreatedDetail (cb_uid c) (cb_generation c) (sm_keys (pc_members p))
           (sm_keys (pc_supervisors p)) (notify_labels (sm_keys (pc_members p))) (cb_salt c))))))"

definition create ::
  "crates \<Rightarrow> int option \<Rightarrow> string option \<Rightarrow> party_input list \<Rightarrow> party_input list \<Rightarrow> string option
    \<Rightarrow> (store, created_bridge) op" where
  "create C key label members supervisors local_label =
     bind (plan_create C key label members supervisors local_label) (\<lambda>p.
     bind (commit_planned_creation C p) (\<lambda>_. ret (pc_created p)))"

section \<open>Importing a package\<close>

definition empty_to_none :: "string \<Rightarrow> string option" where
  "empty_to_none l = (if l = [] then None else Some l)"

definition validate_decoded_recipient :: "decoded_package \<Rightarrow> unit result" where
  "validate_decoded_recipient d =
     and_then (ok_or InvalidBridgePackage
       (case dc_role d of
          Member \<Rightarrow> map_option mk_encryption (map_of (dc_members d) (dc_recipient d))
        | Supervisor \<Rightarrow> map_of (dc_supervisors d) (dc_recipient d))) (\<lambda>expected.
     if expected \<noteq> dc_recipient_key d then Err InvalidBridgePackage else Ok ())"

definition verify_update_auth :: "crates \<Rightarrow> decoded_package \<Rightarrow> bytes \<Rightarrow> unit result" where
  "verify_update_auth C d old_public =
     and_then (ok_or InvalidBridgePackage (dc_auth d)) (\<lambda>sg.
     and_then (update_auth_preimage C (dc_uid d) (dc_generation d) (dc_kind d) (dc_public d) (dc_salt d)
       (dc_recipient d) (dc_members d) (dc_supervisors d) (dc_removed d)) (\<lambda>pre.
     verify_signature C old_public pre sg))"

definition replace_roster_and_secret :: "crates \<Rightarrow> int \<Rightarrow> decoded_package \<Rightarrow> (store, unit) op" where
  "replace_roster_and_secret C b d =
     bind (insert_member_parties b (dc_members d) (Some (dc_recipient d))) (\<lambda>_.
     bind (insert_supervisor_parties b (dc_supervisors d) (Some (dc_recipient d))) (\<lambda>_.
     case (dc_wrap_salt d, dc_secret d, dc_role d) of
       (Some wrap_salt, Some secret, Member) \<Rightarrow>
         bind (seal_secret C (dc_recipient_key d) wrap_salt secret) (\<lambda>wrapped.
         insert_sealed \<lparr> sk_bridge = b, sk_label = dc_recipient d, sk_salt = wrap_salt, sk_secret = wrapped \<rparr>)
     | _ \<Rightarrow> ret ()))"

definition insert_from_invite :: "crates \<Rightarrow> decoded_package \<Rightarrow> (store, unit) op" where
  "insert_from_invite C d =
     bind (lift_result (validate_decoded_recipient d)) (\<lambda>_.
     bind (asks (\<lambda>s. if get_optional s (dc_uid d) \<noteq> None then Err InvalidBridge else Ok ())) (\<lambda>_.
     with_immediate_transaction
       (bind (insert_pb (\<lambda>i. \<lparr> b_id = i, b_uid = dc_uid d, b_key = None, b_label = empty_to_none (dc_bridge_label d),
               b_generation = uint (dc_generation d), b_public = dc_public d, b_salt = dc_salt d,
               b_destroyed = None \<rparr>)) (\<lambda>b.
        bind (replace_roster_and_secret C b d) (\<lambda>_.
        insert_event b Imported (ImportedDetail (dc_uid d) (dc_role d) (dc_recipient d) (dc_generation d)))))))"

definition apply_rotate :: "crates \<Rightarrow> decoded_package \<Rightarrow> (store, unit) op" where
  "apply_rotate C d =
     bind (lift_result (validate_decoded_recipient d)) (\<lambda>_.
     bind (asks (\<lambda>s. get s (dc_uid d))) (\<lambda>summary.
     bind (guard (\<not> bg_destroyed summary) BridgeDestroyed) (\<lambda>_.
     bind (guard (dc_generation d = bg_generation summary + 1) BridgeGenerationMismatch) (\<lambda>_.
     bind (lift_result (verify_update_auth C d (bg_public summary))) (\<lambda>_.
     bind (asks (\<lambda>s. last_bridge_id s (dc_uid d))) (\<lambda>b.
     with_immediate_transaction
       (bind (update_pb (\<lambda>r. b_uid r = dc_uid d \<and> b_generation r = uint (bg_generation summary) \<and> b_destroyed r = None)
               (\<lambda>r. r\<lparr>b_generation := uint (dc_generation d), b_public := dc_public d, b_salt := dc_salt d,
                  b_label := (case empty_to_none (dc_bridge_label d) of None \<Rightarrow> b_label r | Some l \<Rightarrow> Some l)\<rparr>)) (\<lambda>updated.
        bind (guard (updated = 1) BridgeGenerationMismatch) (\<lambda>_.
        bind (delete_parties (\<lambda>r. m_bridge r = b)) (\<lambda>_.
        bind (delete_sealed b) (\<lambda>_.
        bind (replace_roster_and_secret C b d) (\<lambda>_.
        insert_event b Rotated (FollowedDetail (dc_uid d) (dc_generation d) (dc_recipient d))))))))))))))"

definition apply_destroy :: "crates \<Rightarrow> decoded_package \<Rightarrow> (store, unit) op" where
  "apply_destroy C d =
     bind (asks (\<lambda>s. get s (dc_uid d))) (\<lambda>summary.
     if bg_destroyed summary then ret ()
     else bind (lift_result (verify_update_auth C d (bg_public summary))) (\<lambda>_.
     bind (asks (\<lambda>s. last_bridge_id s (dc_uid d))) (\<lambda>b.
     with_immediate_transaction
       (bind (\<lambda>s. update_pb (\<lambda>r. b_uid r = dc_uid d \<and> b_destroyed r = None)
                (\<lambda>r. r\<lparr>b_destroyed := Some (clock s)\<rparr>) s) (\<lambda>_.
        bind (delete_sealed b) (\<lambda>_.
        insert_event b Destroyed (DestroyedDetail (dc_uid d) (dc_recipient d))))))))"

definition import_package :: "crates \<Rightarrow> bytes \<Rightarrow> bytes \<Rightarrow> (store, bridge_summary) op" where
  "import_package C data sk =
     bind (lift_result (decode_package C data sk)) (\<lambda>d.
     bind (guard (dc_recipient_key d = encryption_public_from_secret C sk) InvalidBridgePackage) (\<lambda>_.
     bind (if dc_kind d = KIND_INVITE then insert_from_invite C d
           else if dc_kind d = KIND_SUPERVISOR \<and> dc_generation d = 1 \<and> dc_auth d = None then insert_from_invite C d
           else if dc_kind d = KIND_ROTATE \<or> dc_kind d = KIND_SUPERVISOR then apply_rotate C d
           else if dc_kind d = KIND_DESTROY then apply_destroy C d
           else fail InvalidBridgePackage) (\<lambda>_.
     asks (\<lambda>s. get s (dc_uid d)))))"

section \<open>Removing a member\<close>

record removal_outcome =
  ro_uid :: string
  ro_destroyed :: bool
  ro_remaining :: "string list"
  ro_packages :: "delivery_package list"

record destroy_plan =
  dl_uid :: string
  dl_bridge :: int
  dl_removed :: string
  dl_notify :: "string list"
  dl_expected :: u32

record rotate_plan =
  rp_uid :: string
  rp_bridge :: int
  rp_removed :: string
  rp_notify :: "string list"
  rp_local :: string
  rp_expected :: u32
  rp_generation :: u32
  rp_public :: bytes
  rp_salt :: bytes
  rp_members :: "member_keys smap"
  rp_supervisors :: "bytes smap"
  rp_secret :: bytes

datatype removal_kind = DestroyKind destroy_plan | RotateKind rotate_plan

record planned_removal =
  pr_outcome :: removal_outcome
  pr_kind :: removal_kind

definition member_labels :: "bridge_summary \<Rightarrow> string list" where
  "member_labels g = map bp_label (filter (\<lambda>p. bp_role p = Member) (bg_parties g))"

text \<open>The checks before anything is drawn, and what they read.\<close>

definition removal_checks ::
  "crates \<Rightarrow> store \<Rightarrow> string \<Rightarrow> string \<Rightarrow> string \<Rightarrow> bytes
    \<Rightarrow> (bridge_summary \<times> bytes \<times> member_keys smap \<times> int) result" where
  "removal_checks C s uid removed label sk =
     and_then (get s uid) (\<lambda>summary.
     if bg_destroyed summary then Err BridgeDestroyed
     else if label = removed then Err InvalidBridge
     else and_then (ok_or SealedKeyNotHeld
            (find (\<lambda>p. bp_label p = label \<and> bp_role p = Member \<and> bp_sealed p) (bg_parties summary))) (\<lambda>me.
     if encryption_public_from_secret C sk \<noteq> bp_encryption me then Err IntegrityCheckFailed
     else if removed \<notin> set (member_labels summary) then Err NotBridgeMember
     else and_then (unseal_local_secret C s uid label sk) (\<lambda>secret.
     and_then (remaining_members summary removed) (\<lambda>members.
     and_then (last_bridge_id s uid) (\<lambda>b. Ok (summary, secret, members, b))))))"

definition destroy_for ::
  "crates \<Rightarrow> bridge_summary \<Rightarrow> member_keys smap \<Rightarrow> bytes smap \<Rightarrow> string \<Rightarrow> bytes \<Rightarrow> bridge_party
    \<Rightarrow> (store, delivery_package) op" where
  "destroy_for C summary members supervisors removed old p =
     destroy_package_for C (bg_uid summary) (bg_generation summary) (unwrap_or_empty (bg_label summary))
       (bg_public summary) (bg_salt summary) members supervisors removed (bp_label p) (bp_encryption p) (bp_role p) old"

definition plan_remove_member ::
  "crates \<Rightarrow> string \<Rightarrow> string \<Rightarrow> string \<Rightarrow> bytes \<Rightarrow> (store, planned_removal) op" where
  "plan_remove_member C uid removed label sk =
     bind (asks (\<lambda>s. removal_checks C s uid removed label sk)) (\<lambda>(summary, secret, members, b).
     let notify = notify_labels (member_labels summary);
         supervisors = supervisor_pubs_for members (bg_parties summary) in
     if length members < 2 then
       bind (collect (destroy_for C summary members supervisors removed secret) (bg_parties summary)) (\<lambda>packages.
       ret \<lparr> pr_outcome = \<lparr> ro_uid = uid, ro_destroyed = True, ro_remaining = sm_keys members, ro_packages = packages \<rparr>,
         pr_kind = DestroyKind \<lparr> dl_uid = uid, dl_bridge = b, dl_removed = removed, dl_notify = notify,
           dl_expected = bg_generation summary \<rparr> \<rparr>)
     else
       bind (random_salt C) (\<lambda>new_salt.
       bind (generate_signing_keypair C) (\<lambda>(new_secret, new_public).
       let g = bg_generation summary + 1 in
       bind (packages_for_roster C KIND_ROTATE KIND_SUPERVISOR uid g (unwrap_or_empty (bg_label summary))
               new_public new_salt members supervisors removed (Some new_secret) (Some secret)) (\<lambda>packages.
       bind (collect (destroy_for C summary members supervisors removed secret)
               (filter (\<lambda>p. \<not> (sm_has members (bp_label p) \<or> sm_has supervisors (bp_label p))) (bg_parties summary))) (\<lambda>notices.
       ret \<lparr> pr_outcome = \<lparr> ro_uid = uid, ro_destroyed = False, ro_remaining = sm_keys members,
           ro_packages = packages @ notices \<rparr>,
         pr_kind = RotateKind \<lparr> rp_uid = uid, rp_bridge = b, rp_removed = removed, rp_notify = notify,
           rp_local = label, rp_expected = bg_generation summary, rp_generation = g, rp_public = new_public,
           rp_salt = new_salt, rp_members = members, rp_supervisors = supervisors, rp_secret = new_secret \<rparr> \<rparr>)))))"

fun commit_kind :: "crates \<Rightarrow> removal_kind \<Rightarrow> (store, unit) op" where
  "commit_kind C (DestroyKind d) =
     bind (\<lambda>s. update_pb (\<lambda>r. b_uid r = dl_uid d \<and> b_generation r = uint (dl_expected d) \<and> b_destroyed r = None)
             (\<lambda>r. r\<lparr>b_destroyed := Some (clock s)\<rparr>) s) (\<lambda>updated.
     bind (guard (updated = 1) BridgeGenerationMismatch) (\<lambda>_.
     bind (delete_sealed (dl_bridge d)) (\<lambda>_.
     insert_event (dl_bridge d) Destroyed (RemovedDetail (dl_uid d) (dl_removed d) (dl_notify d)))))"
| "commit_kind C (RotateKind p) =
     bind (persist_rotation C (rp_uid p) (rp_bridge p) (rp_expected p) (rp_generation p) (rp_public p) (rp_salt p)
             (rp_members p) (rp_supervisors p) (rp_local p) (rp_secret p)) (\<lambda>_.
     bind (insert_event (rp_bridge p) MemberRemoved (RemovedDetail (rp_uid p) (rp_removed p) (rp_notify p))) (\<lambda>_.
     insert_event (rp_bridge p) Rotated (RotatedDetail (rp_uid p) (rp_generation p) (sm_keys (rp_members p))
       (sm_keys (rp_supervisors p)) (rp_salt p))))"

definition commit_planned_removal :: "crates \<Rightarrow> planned_removal \<Rightarrow> (store, unit) op" where
  "commit_planned_removal C p = with_immediate_transaction (commit_kind C (pr_kind p))"

definition remove_member ::
  "crates \<Rightarrow> string \<Rightarrow> string \<Rightarrow> string \<Rightarrow> bytes \<Rightarrow> (store, removal_outcome) op" where
  "remove_member C uid removed label sk =
     bind (plan_remove_member C uid removed label sk) (\<lambda>p.
     bind (commit_planned_removal C p) (\<lambda>_. ret (pr_outcome p)))"

section \<open>The coordinator\<close>

record bridge_change =
  bc_uid :: string
  bc_removed :: string
  bc_remaining :: "string list"
  bc_notify :: "string list"
  bc_kind :: change_kind
  bc_notice :: bytes

definition drop_tx :: "string \<Rightarrow> int \<Rightarrow> string \<Rightarrow> string list \<Rightarrow> change_kind \<Rightarrow> (store, unit) op" where
  "drop_tx uid b removed notify kind = with_immediate_transaction
     (bind (delete_parties (\<lambda>r. m_bridge r = b \<and> m_label r = removed)) (\<lambda>_.
      if kind = ChangeDestroyed then
        bind (\<lambda>s. update_pb (\<lambda>r. b_uid r = uid) (\<lambda>r. r\<lparr>b_destroyed := Some (clock s)\<rparr>) s) (\<lambda>_.
        bind (delete_sealed b) (\<lambda>_.
        insert_event b Destroyed (RemovedDetail uid removed notify)))
      else insert_event b MemberRemoved (RemovedDetail uid removed notify)))"

definition drop_member_on_coordinator :: "string \<Rightarrow> string \<Rightarrow> (store, bridge_change option) op" where
  "drop_member_on_coordinator uid removed =
     bind (asks (\<lambda>s. get s uid)) (\<lambda>summary.
     if bg_destroyed summary then ret None
     else let remaining = filter (\<lambda>l. l \<noteq> removed) (member_labels summary);
              notify = notify_labels (member_labels summary);
              kind = (if length remaining < 2 then ChangeDestroyed else NeedsMemberRotate) in
       bind (asks (\<lambda>s. last_bridge_id s uid)) (\<lambda>b.
       bind (drop_tx uid b removed notify kind) (\<lambda>_.
       bind (lift_result (encode_notice uid removed remaining notify kind)) (\<lambda>notice.
       ret (Some \<lparr> bc_uid = uid, bc_removed = removed, bc_remaining = remaining, bc_notify = notify,
         bc_kind = kind, bc_notice = notice \<rparr>)))))"

fun drop_each :: "string \<Rightarrow> string list \<Rightarrow> (store, bridge_change list) op" where
  "drop_each label [] = ret []"
| "drop_each label (u # us) =
     bind (drop_member_on_coordinator u label) (\<lambda>c.
     bind (drop_each label us) (\<lambda>cs. ret (case c of None \<Rightarrow> cs | Some c \<Rightarrow> c # cs)))"

definition live_uids :: "store \<Rightarrow> (pb_row \<Rightarrow> bool) \<Rightarrow> string \<Rightarrow> string list" where
  "live_uids s P label = [b_uid r. r \<leftarrow> pb_rows s, b_destroyed r = None \<and> P r,
     m \<leftarrow> member_rows s, m_bridge m = b_id r \<and> m_label m = label \<and> m_role m = Member]"

definition on_leaf_removed :: "int \<Rightarrow> string \<Rightarrow> (store, bridge_change list) op" where
  "on_leaf_removed key label =
     bind (asks (\<lambda>s. Ok (live_uids s (\<lambda>r. b_key r = Some key) label))) (drop_each label)"

definition on_member_revoked :: "string \<Rightarrow> (store, bridge_change list) op" where
  "on_member_revoked label = bind (asks (\<lambda>s. Ok (live_uids s (\<lambda>_. True) label))) (drop_each label)"

section \<open>Signing and verifying\<close>

definition encryption_public_for_label :: "store \<Rightarrow> int option \<Rightarrow> string \<Rightarrow> bytes result" where
  "encryption_public_for_label s key label =
     (let leaf = (case key of None \<Rightarrow> None
        | Some k \<Rightarrow> (case [hw_public h. n \<leftarrow> node_rows s, n_key n = k \<and> n_label n = label \<and> n_active n,
                           h \<leftarrow> hw_rows s, n_hw n = Some (hw_id h) \<and> hw_revoked h = None] of
                    [] \<Rightarrow> None | pk # _ \<Rightarrow> Some pk)) in
      case leaf of
        Some pk \<Rightarrow> vec_to_32 pk
      | None \<Rightarrow>
         (case map hw_public (filter (\<lambda>h. hw_label h = label \<and> hw_type h = Encryption \<and> hw_revoked h = None) (hw_rows s)) of
            [pk] \<Rightarrow> vec_to_32 pk
          | [] \<Rightarrow> Err NodeNotFound
          | _ \<Rightarrow> Err InvalidBridge))"

definition signing_public_for_label :: "crates \<Rightarrow> store \<Rightarrow> string \<Rightarrow> bytes result" where
  "signing_public_for_label C s label =
     (case map hw_public (filter (\<lambda>h. hw_label h = label \<and> hw_type h = Signing \<and> hw_revoked h = None) (hw_rows s)) of
        [pk] \<Rightarrow> and_then (vec_to_32 pk) (\<lambda>pk. if ed_valid_key C pk then Ok pk else Err InvalidPublicKey)
      | [] \<Rightarrow> Err NodeNotFound
      | _ \<Rightarrow> Err InvalidBridge)"

text \<open>The \<open>match\<close> on this store's own record of the signer's key.\<close>

definition agrees_with_registry :: "crates \<Rightarrow> store \<Rightarrow> string \<Rightarrow> bytes \<Rightarrow> unit result" where
  "agrees_with_registry C s label pk =
     (case signing_public_for_label C s label of
        Ok k \<Rightarrow> if k \<noteq> pk then Err IntegrityCheckFailed else Ok ()
      | Err e \<Rightarrow> if e = NodeNotFound then Ok () else Err e)"

definition sign_checks :: "crates \<Rightarrow> store \<Rightarrow> string \<Rightarrow> string \<Rightarrow> bytes \<Rightarrow> bytes \<Rightarrow> (bridge_summary \<times> bytes) result" where
  "sign_checks C s uid label enc_sk sign_sk =
     and_then (get s uid) (\<lambda>summary.
     if bg_destroyed summary then Err BridgeDestroyed
     else and_then (ok_or NotBridgeMember
            (find (\<lambda>p. bp_label p = label \<and> bp_role p = Member) (bg_parties summary))) (\<lambda>me.
     if \<not> bp_sealed me then Err SealedKeyNotHeld
     else if encryption_public_from_secret C enc_sk \<noteq> bp_encryption me then Err IntegrityCheckFailed
     else and_then (ok_or InvalidBridge (bp_signing me)) (\<lambda>roster_signing.
     if ed_public C sign_sk \<noteq> roster_signing then Err IntegrityCheckFailed
     else and_then (agrees_with_registry C s label roster_signing) (\<lambda>_.
     and_then (unseal_local_secret C s uid label enc_sk) (\<lambda>bridge_sk. Ok (summary, bridge_sk))))))"

definition sign_message ::
  "crates \<Rightarrow> string \<Rightarrow> string \<Rightarrow> bytes \<Rightarrow> bytes \<Rightarrow> bytes \<Rightarrow> (store, bridge_signature) op" where
  "sign_message C uid label enc_sk sign_sk msg =
     bind (asks (\<lambda>s. sign_checks C s uid label enc_sk sign_sk)) (\<lambda>(summary, bridge_sk).
     sign_with_bridge C uid (bg_generation summary) (bg_salt summary) label bridge_sk sign_sk msg)"

definition verify_message :: "crates \<Rightarrow> store \<Rightarrow> string \<Rightarrow> string \<Rightarrow> bytes \<Rightarrow> bridge_signature \<Rightarrow> unit result" where
  "verify_message C s uid verifier msg a =
     and_then (get s uid) (\<lambda>summary.
     if bg_destroyed summary then Err BridgeDestroyed
     else if bs_uid a \<noteq> uid \<or> bs_generation a \<noteq> bg_generation summary then Err BridgeGenerationMismatch
     else if bs_bridge_salt a \<noteq> bg_salt summary then Err BridgeGenerationMismatch
     else and_then (ok_or NotBridgeMember
            (find (\<lambda>p. bp_role p = Member \<and> bp_label p = bs_signer_label a) (bg_parties summary))) (\<lambda>signer.
     if verifier \<notin> set (member_labels summary) then Err NotBridgeMember
     else and_then (ok_or InvalidBridge (bp_signing signer)) (\<lambda>roster_signing.
     and_then (agrees_with_registry C s (bs_signer_label a) roster_signing) (\<lambda>_.
     verify_bridge_signature C a (bg_public summary) roster_signing msg))))"

end
