(* ===== verification/TreeEvict.thy ===== *)
theory TreeEvict
  imports TreeReshare BridgeOps
begin

text \<open>
  \<open>evict_and_refresh\<close> of \<open>src/key_tree.rs\<close>: deactivate a leaf, drop its links and whitelist
  entries, take it off the private bridges of its tree, and refresh the shares its siblings
  present, sealing each sibling's row again.
\<close>

section \<open>Evicting a leaf\<close>

text \<open>What each survivor presents, with the row and the key the new share will be sealed to.\<close>

fun survivor_shares ::
  "store \<Rightarrow> key_tree \<Rightarrow> (int \<rightharpoonup> bytes) \<Rightarrow> nat list \<Rightarrow> (int \<times> hw_row \<times> bytes) list result" where
  "survivor_shares s T presented [] = Ok []"
| "survivor_shares s T presented (i # is) =
     (let n = kt_nodes T ! i in
      and_then (ok_or QuorumNotMet (presented (kn_db n))) (\<lambda>raw.
      and_then (ok_or CannotEvict (kn_hw n)) (\<lambda>h.
      and_then (get_active_encryption_key s h) (\<lambda>hk.
      and_then (survivor_shares s T presented is) (\<lambda>rest. Ok ((kn_db n, hk, raw) # rest))))))"

definition evict_body ::
  "crates \<Rightarrow> int \<Rightarrow> int \<Rightarrow> (int \<rightharpoonup> bytes) \<Rightarrow> (store, bridge_change list) op" where
  "evict_body C key evicted presented =
     bind (asks (\<lambda>s. load s key)) (\<lambda>T.
     bind (lift_result (index_by_db_id T evicted)) (\<lambda>i.
     let n = kt_nodes T ! i in
     bind (guard (kn_active n \<and> kn_hw n \<noteq> None) CannotEvict) (\<lambda>_.
     bind (lift_result (ok_or CannotEvict (kn_parent n))) (\<lambda>p.
     let parent = kt_nodes T ! p in
     bind (lift_result (ok_or CannotEvict (kn_threshold parent))) (\<lambda>threshold.
     bind (guard (\<not> threshold < 2) CannotEvict) (\<lambda>_.
     bind (lift_result (leaf_children CannotEvict T (filter (\<lambda>c. c \<noteq> i) (kn_children parent)))) (\<lambda>survivors.
     bind (guard (\<not> length survivors < threshold) CannotEvict) (\<lambda>_.
     bind (asks (\<lambda>s. survivor_shares s T presented survivors)) (\<lambda>meta.
     bind (refresh_among C (map (\<lambda>(_, _, raw). raw) meta) (usize_as_u8 threshold)) (\<lambda>shares.
     bind (update_nodes (\<lambda>r. n_id r = evicted) (\<lambda>r. r\<lparr>n_active := False\<rparr>)) (\<lambda>_.
     bind (delete_node_bindings key evicted) (\<lambda>_.
     bind (on_leaf_removed key (kn_label n)) (\<lambda>changes.
     bind (for_each (put_share C) (map2 (\<lambda>(d, hk, _) share. (d, hk, share)) meta shares)) (\<lambda>_.
     ret changes))))))))))))))"

definition evict_and_refresh ::
  "crates \<Rightarrow> int \<Rightarrow> int \<Rightarrow> (int \<rightharpoonup> bytes) \<Rightarrow> (store, bridge_change list) op" where
  "evict_and_refresh C key evicted presented = transaction (evict_body C key evicted presented)"

section \<open>What the steps leave alone\<close>

definition tree_tables :: "store \<Rightarrow> store \<Rightarrow> bool" where
  "tree_tables s t \<longleftrightarrow> node_rows t = node_rows s \<and> hw_rows t = hw_rows s
     \<and> link_rows t = link_rows s \<and> bridge_rows t = bridge_rows s"

lemma tables_only_tree: "tables_only (tree_tables s)"
  by (simp add: tables_only_def tree_tables_def)

lemma keeps_tree_prims:
  "keeps (tree_tables s) (delete_parties P)" "keeps (tree_tables s) (delete_sealed b)"
  "keeps (tree_tables s) (insert_event b t d)"
  "keeps (tree_tables s) (\<lambda>u. update_pb Q (f u) u)"
  unfolding delete_parties_def delete_sealed_def insert_event_def insert_pbevent_def insert_row_def update_pb_def
  by (auto simp: keeps_def bind_def modify_def ret_def tree_tables_def Let_def split: prod.splits sum.splits if_splits)

lemma keeps_drop_tx: "keeps (tree_tables s) (drop_tx uid b l notify kind)"
  unfolding drop_tx_def
  by (intro keeps_with_immediate tables_only_tree keeps_bind keeps_if keeps_tree_prims)

lemma keeps_leaf_removed: "keeps (tree_tables s) (on_leaf_removed key label)"
proof -
  have "keeps (tree_tables s) (drop_each label us)" for us
  proof (induction us)
    case (Cons u us)
    then show ?case
      unfolding drop_each.simps drop_member_on_coordinator_def Let_def
      by (intro keeps_intros keeps_drop_tx)
  qed (simp only: drop_each.simps keeps_ret)
  then show ?thesis unfolding on_leaf_removed_def by (intro keeps_bind keeps_asks)
qed

section \<open>What a successful eviction does\<close>

lemma survivor_shares_Ok:
  "survivor_shares s T presented is = Ok meta \<longleftrightarrow>
     list_all2 (\<lambda>i (d, hk, raw). d = kn_db (kt_nodes T ! i) \<and> presented d = Some raw
       \<and> (\<exists>h. kn_hw (kt_nodes T ! i) = Some h \<and> get_active_encryption_key s h = Ok hk)) is meta"
  by (induction s T presented "is" arbitrary: meta rule: survivor_shares.induct)
     (fastforce simp: Let_def and_then_Ok_iff list_all2_Cons1)+

lemma evict_body_Ok:
  assumes "evict_body C key ev presented s = (Ok changes, s')"
  obtains T i p t survivors meta shares s1 s2 s3 where
    "load s key = Ok T" "index_by_db_id T ev = Ok i" "kn_active (kt_nodes T ! i)"
    "kn_parent (kt_nodes T ! i) = Some p" "kn_threshold (kt_nodes T ! p) = Some t" "2 \<le> t"
    "leaf_children CannotEvict T (filter (\<lambda>c. c \<noteq> i) (kn_children (kt_nodes T ! p))) = Ok survivors"
    "t \<le> length survivors" "survivor_shares s T presented survivors = Ok meta"
    "refresh_among C (map (\<lambda>(_, _, raw). raw) meta) (usize_as_u8 t) s = (Ok shares, s1)"
    "delete_node_bindings key ev (s1\<lparr>node_rows :=
       map (\<lambda>r. if n_id r = ev then r\<lparr>n_active := False\<rparr> else r) (node_rows s1)\<rparr>) = (Ok (), s2)"
    "on_leaf_removed key (kn_label (kt_nodes T ! i)) s2 = (Ok changes, s3)"
    "for_each (put_share C) (map2 (\<lambda>(d, hk, _) share. (d, hk, share)) meta shares) s3 = (Ok (), s')"
  using assms unfolding evict_body_def Let_def
  by (elim bind_Ok_elim) (auto simp: update_nodes_def split: if_splits)

lemma distinct_nonzero_length:
  assumes "distinct xs" "(0 :: u8) \<notin> set xs"
  shows "length xs \<le> 255"
proof -
  have "card (set xs) \<le> card (UNIV - {0 :: u8})" using assms(2) by (intro card_mono) auto
  then show ?thesis using assms(1) nonzero_bytes_card by (simp add: distinct_card)
qed

text \<open>A refresh that succeeded was given shares that may be refreshed, so it kept their secret.\<close>

lemma refresh_among_Ok:
  assumes "shamir_ok C" "shamir_linear C" "refresh_among C old (usize_as_u8 t) s = (Ok new, s')" "t \<le> length old"
  shows "2 \<le> usize_as_u8 t" "usize_as_u8 t = t" "length new = length old" "\<exists>d. s' = s\<lparr>draws := d\<rparr>"
    and "distinct js \<Longrightarrow> set js \<subseteq> {..<length old} \<Longrightarrow> t \<le> length js
      \<Longrightarrow> shamir_recover C t (map (\<lambda>j. old ! j) js) = Some v \<Longrightarrow> shamir_recover C t (map (\<lambda>j. new ! j) js) = Some v"
proof -
  have r: "refreshable (usize_as_u8 t) old"
    using refresh_among_rejected [of "usize_as_u8 t" old C s] assms(3) by auto
  then show t2: "2 \<le> usize_as_u8 t" by (simp add: refreshable_def)
  have "length old \<le> 255" using r distinct_nonzero_length [of "map share_x old"] by (simp add: refreshable_def)
  then show t: "usize_as_u8 t = t" using assms(4) by (simp add: usize_as_u8_def)
  from refresh_among_kept [OF assms(1,2) _ r, of s] \<open>length old \<le> 255\<close> assms(4) t obtain new' where
    new: "refresh_among C old t s = (Ok new', s\<lparr>draws := draws s + length old\<rparr>)" "map length new' = map length old"
      "\<forall>js v. distinct js \<and> set js \<subseteq> {..<length old} \<and> t \<le> length js
         \<and> shamir_recover C t (map (\<lambda>j. old ! j) js) = Some v \<longrightarrow> shamir_recover C t (map (\<lambda>j. new' ! j) js) = Some v"
    by auto
  then have eq: "new' = new" "s' = s\<lparr>draws := draws s + length old\<rparr>" using assms(3) t by auto
  show "length new = length old" using arg_cong [OF new(2), of length] eq(1) by simp
  show "\<exists>d. s' = s\<lparr>draws := d\<rparr>" using eq(2) by blast
  show "distinct js \<Longrightarrow> set js \<subseteq> {..<length old} \<Longrightarrow> t \<le> length js
      \<Longrightarrow> shamir_recover C t (map (\<lambda>j. old ! j) js) = Some v \<Longrightarrow> shamir_recover C t (map (\<lambda>j. new ! j) js) = Some v"
    using new(3) eq(1) by blast
qed

text \<open>The children of the parent other than the evicted one.\<close>

lemma survivors_ids:
  assumes "load s key = Ok T" "store_ids_ok s" "i < length (key_node_rows s key)" "p < length (key_node_rows s key)"
    and "leaf_children e T (filter (\<lambda>c. c \<noteq> i) (kn_children (kt_nodes T ! p))) = Ok survivors"
  shows "map (\<lambda>c. kn_db (kt_nodes T ! c)) survivors
    = filter (\<lambda>d. d \<noteq> n_id (key_node_rows s key ! i)) (map n_id (kids s key (n_id (key_node_rows s key ! p))))"
proof -
  let ?rows = "key_node_rows s key"
  define cs where "cs = filter (\<lambda>c. kn_active (kt_nodes T ! c)) (kn_children (kt_nodes T ! p))"
  have sv: "survivors = filter (\<lambda>c. c \<noteq> i) cs"
    using assms(5) unfolding leaf_children_Ok cs_def by (simp add: conj_commute)
  note arena = arena_kids [OF assms(1,2,4) cs_def]
  have "(c \<noteq> i) = (n_id (?rows ! c) \<noteq> n_id (?rows ! i))" if "c \<in> set cs" for c
    using nth_eq_iff_index_eq [OF key_rows_distinct [OF assms(2)], of c key i] arena(2) that assms(3) by simp
  then have "survivors = filter (\<lambda>c. n_id (?rows ! c) \<noteq> n_id (?rows ! i)) cs"
    unfolding sv by (intro filter_cong) auto
  moreover have "map (\<lambda>c. kn_db (kt_nodes T ! c)) survivors = map (\<lambda>c. n_id (?rows ! c)) survivors"
    using arena(2) unfolding sv by simp
  ultimately show ?thesis
    unfolding arena(1) [symmetric] by (simp add: filter_map comp_def)
qed

lemma survivor_rows:
  assumes "load s key = Ok T" "store_ids_ok s" "p < length (key_node_rows s key)"
    and "leaf_children e T (filter (\<lambda>c. c \<noteq> i) (kn_children (kt_nodes T ! p))) = Ok survivors" "c \<in> set survivors"
  shows "node_table.row_of s (kn_db (kt_nodes T ! c)) = Some (key_node_rows s key ! c)"
    and "n_hw (key_node_rows s key ! c) = kn_hw (kt_nodes T ! c)"
proof -
  let ?rows = "key_node_rows s key"
  have "c \<in> set (filter (\<lambda>c. kn_active (kt_nodes T ! c)) (kn_children (kt_nodes T ! p)))"
    using assms(4,5) unfolding leaf_children_Ok by auto
  then have c: "c < length ?rows" "kn_db (kt_nodes T ! c) = n_id (?rows ! c)" "kn_hw (kt_nodes T ! c) = n_hw (?rows ! c)"
    using arena_kids(2) [OF assms(1-3) refl] by blast+
  have "?rows ! c \<in> set (node_rows s)" using nth_mem [OF c(1)] by (auto simp: key_node_rows_def)
  then show "node_table.row_of s (kn_db (kt_nodes T ! c)) = Some (?rows ! c)"
    unfolding node_table.row_of_def using assms(2) c(2) by (intro find_unique) (auto simp: store_ids_ok_def)
  show "n_hw (?rows ! c) = kn_hw (kt_nodes T ! c)" using c(3) by simp
qed

lemma inactive_kids:
  assumes "node_rows t = map (\<lambda>r. if n_id r = ev then r\<lparr>n_active := False\<rparr> else r) (node_rows s)"
  shows "map n_id (kids t key p) = filter (\<lambda>d. d \<noteq> ev) (map n_id (kids s key p))"
proof -
  let ?P = "\<lambda>r. n_key r = key \<and> n_parent r = Some p \<and> n_active r"
  have "map n_id (filter ?P (map (\<lambda>r. if n_id r = ev then r\<lparr>n_active := False\<rparr> else r) rs))
      = filter (\<lambda>d. d \<noteq> ev) (map n_id (filter ?P rs))" for rs
    by (induction rs) auto
  then show ?thesis by (simp add: kids_def key_node_rows_def assms)
qed

lemma delete_bindings_Ok:
  assumes "delete_node_bindings key i s = (Ok (), s')"
  obtains r where "find (\<lambda>r. n_id r = i \<and> n_key r = key) (node_rows s) = Some r"
    "node_rows s' = node_rows s" "hw_rows s' = hw_rows s"
    "\<forall>(a, b) \<in> set (link_rows s'). a \<noteq> i \<and> b \<noteq> i"
    "\<forall>(j, b) \<in> set (bridge_rows s'). j \<noteq> i \<and> \<not> (b = n_label r \<and> j \<in> n_id ` set (key_node_rows s key))"
proof -
  from assms obtain r where r: "find (\<lambda>r. n_id r = i \<and> n_key r = key) (node_rows s) = Some r"
    by (auto simp: delete_node_bindings_def bind_run query_row_def split: option.splits sum.splits)
  have s': "s' = s\<lparr>link_rows := filter (\<lambda>(a, b). \<not> (a = i \<or> b = i)) (link_rows s),
       bridge_rows := filter (\<lambda>(j, p). \<not> (j = i \<or>
           (p = n_label r \<and> (\<exists>q \<in> set (node_rows s). n_id q = j \<and> n_key q = key)))) (bridge_rows s)\<rparr>"
    using assms r by (simp add: delete_node_bindings_def bind_run query_row_def)
  have f: "node_rows s' = node_rows s" "hw_rows s' = hw_rows s"
    "link_rows s' = filter (\<lambda>(a, b). \<not> (a = i \<or> b = i)) (link_rows s)"
    "bridge_rows s' = filter (\<lambda>(j, p). \<not> (j = i \<or>
           (p = n_label r \<and> (\<exists>q \<in> set (node_rows s). n_id q = j \<and> n_key q = key)))) (bridge_rows s)"
    unfolding s' by simp_all
  show thesis
    by (rule that [OF r f(1,2)]) (auto simp: f(3,4) key_node_rows_def)
qed

text \<open>The loop that seals the refreshed shares, over the rows and keys of \<open>meta\<close>.\<close>

lemma put_refreshed:
  assumes "for_each (put_share C) (map2 (\<lambda>(d, hk, _) share. (d, hk, share)) meta shares) s = (Ok (), s')"
    and "distinct (map fst meta)" "length shares = length meta"
    and key: "\<And>d hk raw. (d, hk, raw) \<in> set meta \<Longrightarrow> \<exists>r h. node_table.row_of s d = Some r \<and> n_hw r = Some h \<and> get_key s h = Ok hk"
  shows "resealed (fst ` set meta) s s'" and "j < length meta \<Longrightarrow> sealed_to C s' (fst (meta ! j)) (shares ! j)"
proof -
  let ?L = "map2 (\<lambda>(d, hk, _) share. (d, hk, share)) meta shares"
  have f: "map fst ?L = map fst meta"
    using assms(3) by (intro nth_equalityI) (auto simp: case_prod_beta)
  then have d: "distinct (map fst ?L)" using assms(2) by (simp only:)
  note put = put_shares_Ok [OF assms(1) d]
  have set: "fst ` set ?L = fst ` set meta" using f by (metis set_map)
  from put have "resealed (fst ` set ?L) s s'" by (rule conjunct1)
  then show rs: "resealed (fst ` set meta) s s'" unfolding set .
  assume j: "j < length meta"
  obtain d hk raw where m: "meta ! j = (d, hk, raw)" by (cases "meta ! j") auto
  have "?L ! j = (d, hk, shares ! j)" using j assms(3) m by simp
  moreover have "?L ! j \<in> set ?L" using j assms(3) by (intro nth_mem) simp
  ultimately have "(d, hk, shares ! j) \<in> set ?L" by (simp only:)
  then obtain coin where new: "\<And>r. node_table.row_of s d = Some r \<Longrightarrow>
      node_table.row_of s' d = Some (r\<lparr>n_wrapped := Some (box_seal C (hw_public hk) coin (shares ! j))\<rparr>)"
    using put by fastforce
  have "(d, hk, raw) \<in> set meta" using j m by (metis nth_mem)
  then obtain r h where r: "node_table.row_of s d = Some r" "n_hw r = Some h" "get_key s h = Ok hk"
    using key by blast
  have "get_key s' h = Ok hk" using r(3) get_key_fields [OF resealed_fields(1) [OF rs]] by simp
  then show "sealed_to C s' (fst (meta ! j)) (shares ! j)"
    unfolding sealed_to_def m using new [OF r(1)] r(2) by auto
qed

section \<open>The survivors hold the same secret\<close>

text \<open>The row an eviction leaves for the evicted leaf, and the tables without its bindings.\<close>

definition evicted_from :: "store \<Rightarrow> int \<Rightarrow> node_row \<Rightarrow> store \<Rightarrow> bool" where
  "evicted_from s key r s' \<longleftrightarrow> node_table.row_of s' (n_id r) = Some (r\<lparr>n_active := False\<rparr>)
     \<and> (\<forall>(a, b) \<in> set (link_rows s'). a \<noteq> n_id r \<and> b \<noteq> n_id r)
     \<and> (\<forall>(j, b) \<in> set (bridge_rows s'). j \<noteq> n_id r \<and> \<not> (b = n_label r \<and> j \<in> n_id ` set (key_node_rows s key)))"

text \<open>
  \<open>refreshed C s' key p t f\<close>: whatever \<open>t\<close> or more of the values \<open>f\<close> gives for the
  children of \<open>p\<close> recover to, the shares unwrapped from the rows of \<open>s'\<close> recover to.
\<close>

definition refreshed :: "crates \<Rightarrow> store \<Rightarrow> int \<Rightarrow> int \<Rightarrow> nat \<Rightarrow> (int \<rightharpoonup> bytes) \<Rightarrow> bool" where
  "refreshed C s' key p t f \<longleftrightarrow> (\<forall>js old ws v.
     distinct js \<and> (\<forall>j \<in> set js. j < length (kids s' key p)) \<and> t \<le> length js
     \<and> length old = length js \<and> length ws = length js
     \<and> (\<forall>i < length js. f (n_id (kids s' key p ! (js ! i))) = Some (old ! i)
          \<and> (\<exists>sk. unwrap_leaf_share C s' (n_id (kids s' key p ! (js ! i))) sk = Ok (ws ! i)))
     \<and> shamir_recover C t old = Some v \<longrightarrow> shamir_recover C t ws = Some v)"

lemma refreshedI:
  assumes "box_ok C" and ids: "map n_id (kids s' key p) = map fst meta"
    and pres: "\<And>d hk raw. (d, hk, raw) \<in> set meta \<Longrightarrow> presented d = Some raw"
    and sealed: "\<And>j. j < length meta \<Longrightarrow> sealed_to C s' (fst (meta ! j)) (shares ! j)"
    and keep: "\<And>js v. distinct js \<Longrightarrow> set js \<subseteq> {..<length meta} \<Longrightarrow> t \<le> length js
      \<Longrightarrow> shamir_recover C t (map (\<lambda>j. map (\<lambda>(_, _, raw). raw) meta ! j) js) = Some v
      \<Longrightarrow> shamir_recover C t (map (\<lambda>j. shares ! j) js) = Some v"
  shows "refreshed C s' key p t presented"
  unfolding refreshed_def
proof (intro allI impI, elim conjE)
  let ?K = "kids s' key p"
  fix js old ws v
  assume js: "distinct js" "\<forall>j \<in> set js. j < length ?K" "t \<le> length js" "length old = length js" "length ws = length js"
    and each: "\<forall>i < length js. presented (n_id (?K ! (js ! i))) = Some (old ! i)
        \<and> (\<exists>sk. unwrap_leaf_share C s' (n_id (?K ! (js ! i))) sk = Ok (ws ! i))"
    and rec: "shamir_recover C t old = Some v"
  have len: "length ?K = length meta" using ids by (metis length_map)
  have "old ! i = map (\<lambda>(_, _, raw). raw) meta ! (js ! i) \<and> ws ! i = shares ! (js ! i)" if i: "i < length js" for i
  proof -
    have j: "js ! i < length meta" using js(2) i len by simp
    have id: "n_id (?K ! (js ! i)) = fst (meta ! (js ! i))" using ids j len by (metis nth_map)
    obtain d hk raw where m: "meta ! (js ! i) = (d, hk, raw)" by (cases "meta ! (js ! i)") auto
    have "presented d = Some raw" using pres m j by (metis nth_mem)
    moreover have "ws ! i = shares ! (js ! i)"
      using each i id unwrap_sealed [OF assms(1) sealed [OF j]] by metis
    moreover have "presented (n_id (?K ! (js ! i))) = Some (old ! i)" using each i by blast
    ultimately show ?thesis using id m j by simp
  qed
  then have "old = map (\<lambda>j. map (\<lambda>(_, _, raw). raw) meta ! j) js" "ws = map (\<lambda>j. shares ! j) js"
    using js(4,5) by (simp_all add: list_eq_iff_nth_eq)
  moreover have "set js \<subseteq> {..<length meta}" using js(2) len by auto
  ultimately show "shamir_recover C t ws = Some v" using keep [of js v] js(1,3) rec by blast
qed

lemma leaf_removed_tables: "on_leaf_removed key l s = (r, s') \<Longrightarrow> tree_tables s s'"
  using keepsD [OF keeps_leaf_removed [of s key l], of s] by (simp add: tree_tables_def)

text \<open>What the evicted row's update, its unbinding and the bridges' update come to.\<close>

lemma retire_leaf:
  assumes "store_ids_ok s" "r \<in> set (node_rows s)" "n_key r = key" "n_id r = ev"
    and del: "delete_node_bindings key ev (s\<lparr>draws := d, node_rows :=
       map (\<lambda>r. if n_id r = ev then r\<lparr>n_active := False\<rparr> else r) (node_rows (s\<lparr>draws := d\<rparr>))\<rparr>) = (Ok (), s2)"
    and leaf: "on_leaf_removed key l s2 = (Ok changes, s3)"
  shows "\<And>j. node_table.row_of s3 j
      = map_option (\<lambda>r. if n_id r = ev then r\<lparr>n_active := False\<rparr> else r) (node_table.row_of s j)"
    and "hw_rows s3 = hw_rows s"
    and "\<And>p. map n_id (kids s3 key p) = filter (\<lambda>d. d \<noteq> ev) (map n_id (kids s key p))"
    and "\<forall>(a, b) \<in> set (link_rows s3). a \<noteq> ev \<and> b \<noteq> ev"
    and "\<forall>(j, b) \<in> set (bridge_rows s3). j \<noteq> ev \<and> \<not> (b = n_label r \<and> j \<in> n_id ` set (key_node_rows s key))"
proof -
  let ?off = "\<lambda>r. if n_id r = ev then r\<lparr>n_active := False\<rparr> else r"
  let ?t = "s\<lparr>draws := d, node_rows := map ?off (node_rows (s\<lparr>draws := d\<rparr>))\<rparr>"
  have t: "node_rows ?t = map ?off (node_rows s)" "hw_rows ?t = hw_rows s" by simp_all
  obtain q where q: "find (\<lambda>r. n_id r = ev \<and> n_key r = key) (node_rows ?t) = Some q"
    and s2: "node_rows s2 = node_rows ?t" "hw_rows s2 = hw_rows ?t"
      "\<forall>(a, b) \<in> set (link_rows s2). a \<noteq> ev \<and> b \<noteq> ev"
    and br: "\<forall>(j, b) \<in> set (bridge_rows s2). j \<noteq> ev \<and> \<not> (b = n_label q \<and> j \<in> n_id ` set (key_node_rows ?t key))"
    by (rule delete_bindings_Ok [OF del])
  note q = q [unfolded t] and s2 = s2 [unfolded t] and br = br [unfolded key_node_rows_def t]
  note s3 = leaf_removed_tables [OF leaf, unfolded tree_tables_def]
  have rows: "node_rows s3 = map ?off (node_rows s)" using s3 s2(1) by simp
  show "node_table.row_of s3 j = map_option ?off (node_table.row_of s j)" for j
    unfolding node_table.row_of_def rows by (rule find_cong_map) simp
  show "hw_rows s3 = hw_rows s" using s3 s2(2) by simp
  show "map n_id (kids s3 key p) = filter (\<lambda>d. d \<noteq> ev) (map n_id (kids s key p))" for p
    by (rule inactive_kids [OF rows])
  show "\<forall>(a, b) \<in> set (link_rows s3). a \<noteq> ev \<and> b \<noteq> ev" using s3 s2(3) by simp
  have "find (\<lambda>r. n_id r = ev \<and> n_key r = key) (map ?off (node_rows s))
      = map_option ?off (find (\<lambda>r. n_id r = ev \<and> n_key r = key) (node_rows s))"
    by (rule find_cong_map) simp
  moreover have "find (\<lambda>r. n_id r = ev \<and> n_key r = key) (node_rows s) = Some r"
  proof -
    have "find (\<lambda>q. n_id q = ev \<and> n_key q = key) (node_rows s) = find (\<lambda>q. n_id q = ev) (node_rows s)"
      using ids_unique [OF assms(1) _ assms(2)] assms(3,4) by (intro find_cong) auto
    then show ?thesis using find_unique [of n_id "node_rows s" r ev] assms(1,2,4) by (simp add: store_ids_ok_def)
  qed
  ultimately have "n_label q = n_label r" using q by (auto split: if_splits)
  moreover have "map n_id (filter (\<lambda>r. n_key r = key) (map ?off rs)) = map n_id (filter (\<lambda>r. n_key r = key) rs)" for rs
    by (induction rs) auto
  from arg_cong [OF this, of set, of "node_rows s"]
  have "n_id ` set (filter (\<lambda>r. n_key r = key) (map ?off (node_rows s))) = n_id ` set (key_node_rows s key)"
    by (simp only: set_map key_node_rows_def)
  ultimately show "\<forall>(j, b) \<in> set (bridge_rows s3). j \<noteq> ev \<and> \<not> (b = n_label r \<and> j \<in> n_id ` set (key_node_rows s key))"
    using br s3 by simp
qed

lemma list_all2_memD: "list_all2 P xs ys \<Longrightarrow> y \<in> set ys \<Longrightarrow> \<exists>x \<in> set xs. P x y"
  by (induction rule: list_all2_induct) auto

lemma evict_rows:
  assumes "store_ids_ok s" and run: "evict_body C key ev presented s = (Ok changes, s')"
    and "shamir_ok C" "shamir_linear C" "box_ok C"
  shows "\<exists>r p t. node_table.row_of s ev = Some r \<and> n_key r = key \<and> n_active r \<and> n_parent r = Some (n_id p)
    \<and> p \<in> set (key_node_rows s key) \<and> map_option i64_as_usize (n_threshold p) = Some t \<and> 2 \<le> t
    \<and> evicted_from s key r s'
    \<and> map n_id (kids s' key (n_id p)) = filter (\<lambda>d. d \<noteq> ev) (map n_id (kids s key (n_id p)))
    \<and> refreshed C s' key (n_id p) t presented
    \<and> (\<forall>i. i \<noteq> ev \<and> i \<notin> n_id ` set (kids s' key (n_id p)) \<longrightarrow> node_table.row_of s' i = node_table.row_of s i)"
proof (rule evict_body_Ok [OF run])
  fix T i p t and survivors :: "nat list" and meta :: "(int \<times> hw_row \<times> bytes) list" and shares s1 s2 s3
  let ?rows = "key_node_rows s key" and ?old = "map (\<lambda>(_, _, raw). raw) meta"
  assume T: "load s key = Ok T" and i: "index_by_db_id T ev = Ok i" and act: "kn_active (kt_nodes T ! i)"
    and p: "kn_parent (kt_nodes T ! i) = Some p" and t: "kn_threshold (kt_nodes T ! p) = Some t" "2 \<le> t"
    and sv: "leaf_children CannotEvict T (filter (\<lambda>c. c \<noteq> i) (kn_children (kt_nodes T ! p))) = Ok survivors"
    and len: "t \<le> length survivors" and meta: "survivor_shares s T presented survivors = Ok meta"
    and ref: "refresh_among C ?old (usize_as_u8 t) s = (Ok shares, s1)"
    and del: "delete_node_bindings key ev (s1\<lparr>node_rows :=
       map (\<lambda>r. if n_id r = ev then r\<lparr>n_active := False\<rparr> else r) (node_rows s1)\<rparr>) = (Ok (), s2)"
    and leaf: "on_leaf_removed key (kn_label (kt_nodes T ! i)) s2 = (Ok changes, s3)"
    and loop: "for_each (put_share C) (map2 (\<lambda>(d, hk, _) share. (d, hk, share)) meta shares) s3 = (Ok (), s')"
  note idx = index_by_db_row [OF T assms(1) i]
  note par = arena_parent [OF T assms(1) idx(1) p]
  let ?r = "?rows ! i" and ?p = "?rows ! p"
  have r: "?r \<in> set (node_rows s)" "n_key ?r = key" using nth_mem [OF idx(1)] by (auto simp: key_node_rows_def)
  have row: "node_table.row_of s ev = Some ?r"
    unfolding node_table.row_of_def using assms(1) r(1) idx(2) by (intro find_unique) (auto simp: store_ids_ok_def)
  have fields: "n_active ?r" "map_option i64_as_usize (n_threshold ?p) = Some t"
    using act t(1) load_OkD(1) [OF T assms(1)] idx(1) par(1) by simp_all
  have m: "list_all2 (\<lambda>i (d, hk, raw). d = kn_db (kt_nodes T ! i) \<and> presented d = Some raw
       \<and> (\<exists>h. kn_hw (kt_nodes T ! i) = Some h \<and> get_active_encryption_key s h = Ok hk)) survivors meta"
    using meta by (simp add: survivor_shares_Ok)
  have lm: "length meta = length survivors" using m by (simp add: list_all2_lengthD)
  have "map fst meta = map (\<lambda>c. kn_db (kt_nodes T ! c)) survivors"
    using m by (induction rule: list_all2_induct) auto
  then have ids: "map fst meta = filter (\<lambda>d. d \<noteq> ev) (map n_id (kids s key (n_id ?p)))"
    using survivors_ids [OF T assms(1) idx(1) par(1) sv] idx(2) by simp
  note ref = refresh_among_Ok [OF assms(3,4) ref]
  have len': "t \<le> length ?old" using len lm by simp
  obtain d where s1: "s1 = s\<lparr>draws := d\<rparr>" using ref(4) [OF len'] by blast
  have rid: "n_id ?r = ev" by (rule idx(2))
  note ret = retire_leaf [OF assms(1) r rid del [unfolded s1] leaf]
  have dm: "distinct (map fst meta)"
    unfolding ids kids_def using key_rows_distinct [OF assms(1)] by (intro distinct_filter distinct_map_filter)
  have ln: "length shares = length meta" using ref(3) [OF len'] by simp
  have key3: "\<exists>r h. node_table.row_of s3 d = Some r \<and> n_hw r = Some h \<and> get_key s3 h = Ok hk"
      and pres: "presented d = Some raw" if mem: "(d, hk, raw) \<in> set meta" for d hk raw
  proof -
    from list_all2_memD [OF m mem] obtain c h where c: "c \<in> set survivors" "d = kn_db (kt_nodes T ! c)"
        "kn_hw (kt_nodes T ! c) = Some h" "get_active_encryption_key s h = Ok hk" "presented d = Some raw" by auto
    have "d \<in> set (map fst meta)" using mem by force
    then have "d \<noteq> ev" by (simp add: ids)
    moreover note survivor_rows [OF T assms(1) par(1) sv c(1)]
    moreover have "get_key s3 h = Ok hk" using c(4) ret(2) by (simp add: get_active_encryption_key_Ok_iff get_key_def)
    ultimately show "\<exists>r h. node_table.row_of s3 d = Some r \<and> n_hw r = Some h \<and> get_key s3 h = Ok hk"
      using ret(1) c(2,3) node_table.row_of_SomeD by fastforce
    show "presented d = Some raw" by (rule c(5))
  qed
  note put = put_refreshed [OF loop dm ln]
  have rs: "resealed (fst ` set meta) s3 s'" by (rule put(1)) (rule key3)
  have sealed: "sealed_to C s' (fst (meta ! j)) (shares ! j)" if "j < length meta" for j
    by (rule put(2) [OF _ that]) (rule key3)
  have ids': "map n_id (kids s' key (n_id ?p)) = map fst meta"
    using resealed_kids [OF rs] ret(3) ids by simp
  have D: "fst ` set meta = n_id ` set (kids s' key (n_id ?p))" using ids' by (metis set_map)
  have "refreshed C s' key (n_id ?p) t presented"
    by (rule refreshedI [OF assms(5) ids' pres sealed]) (use ref(5) [OF len'] in simp_all)
  moreover have "evicted_from s key ?r s'"
  proof -
    have "ev \<notin> set (map fst meta)" unfolding ids by simp
    then have "ev \<notin> fst ` set meta" by simp
    then have "node_table.row_of s' ev = Some (?r\<lparr>n_active := False\<rparr>)"
      using resealed_row(1) [OF rs] ret(1) row rid by simp
    then show ?thesis
      unfolding evicted_from_def rid resealed_fields(2,3) [OF rs] by (intro conjI ret(4,5))
  qed
  moreover have "node_table.row_of s' i = node_table.row_of s i"
    if "i \<noteq> ev" "i \<notin> n_id ` set (kids s' key (n_id ?p))" for i
  proof -
    have "node_table.row_of s' i = node_table.row_of s3 i" by (rule resealed_row(1) [OF rs]) (use that D in simp)
    also have "\<dots> = node_table.row_of s i"
      unfolding ret(1) using that(1) node_table.row_of_SomeD [of s i] by (cases "node_table.row_of s i") auto
    finally show ?thesis .
  qed
  ultimately show ?thesis
    using row r(2) fields par t(2) ids ids' nth_mem [OF par(1)]
    by (intro exI [of _ ?r] exI [of _ ?p] exI [of _ t]) simp
qed

text \<open>
  C4: A successful \<open>evict_and_refresh\<close> leaves the evicted leaf's row inactive and without links
  or whitelist entries on either side. The parent's other active children stay, their rows are
  sealed again, and whatever a quorum of the shares they presented recovers to, the shares
  unwrapped from the new rows at the same places recover to. No other row changes, and the
  threshold is at least 2.
\<close>
theorem evict_refreshes:
  assumes "shamir_ok C" "shamir_linear C" "box_ok C" "store_ids_ok s"
    and "evict_and_refresh C key ev presented s = (Ok changes, s')"
  shows "\<exists>r p t. node_table.row_of s ev = Some r \<and> n_key r = key \<and> n_active r \<and> n_parent r = Some (n_id p)
    \<and> p \<in> set (key_node_rows s key) \<and> map_option i64_as_usize (n_threshold p) = Some t \<and> 2 \<le> t
    \<and> evicted_from s key r s'
    \<and> map n_id (kids s' key (n_id p)) = filter (\<lambda>d. d \<noteq> ev) (map n_id (kids s key (n_id p)))
    \<and> refreshed C s' key (n_id p) t presented
    \<and> (\<forall>i. i \<noteq> ev \<and> i \<notin> n_id ` set (kids s' key (n_id p)) \<longrightarrow> node_table.row_of s' i = node_table.row_of s i)"
proof -
  obtain u where u: "evict_body C key ev presented (s\<lparr>in_tx := True\<rparr>) = (Ok changes, u)" "s' = u\<lparr>in_tx := False\<rparr>"
    using assms(5) unfolding evict_and_refresh_def by (rule body_in_tx)
  have ids: "store_ids_ok (s\<lparr>in_tx := True\<rparr>)" using assms(4) by (simp add: store_ids_ok_def)
  have "evicted_from (s\<lparr>in_tx := True\<rparr>) key r u = evicted_from s key r s'"
    "refreshed C u = refreshed C s'" for r
    by (simp_all add: evicted_from_def refreshed_def fun_eq_iff u(2))
  then show ?thesis
    using evict_rows [OF ids u(1) assms(1-3)] unfolding u(2) in_tx_reads by simp
qed

definition evict_rows_demo :: "node_row list" where
  "evict_rows_demo =
     \<lparr> n_id = 1, n_key = 1, n_parent = None, n_label = ''root'', n_threshold = Some 2, n_hw = None,
        n_wrapped = None, n_active = True \<rparr>
     # map (\<lambda>(i, l). leaf_row 1 1 l 1 [0] i) [(2, ''ann''), (3, ''bob''), (4, ''cyd'')]"

definition evict_store :: store where
  "evict_store = empty_store\<lparr> hw_rows := [demo_key 1 1], node_rows := evict_rows_demo,
     bridge_rows := [(4, ''ann''), (2, ''cyd''), (2, ''bob'')], link_rows := [(2, 3), (2, 4)] \<rparr>"

lemma evict_store_fields:
  "hw_rows evict_store = [demo_key 1 1]" "node_rows evict_store = evict_rows_demo" "\<not> in_tx evict_store"
  "pb_rows evict_store = []" "key_node_rows evict_store 1 = evict_rows_demo" "store_ids_ok evict_store"
  "draws evict_store = 0"
  by (simp_all add: evict_store_def empty_store_def key_node_rows_def evict_rows_demo_def leaf_row_def store_ids_ok_def)

lemma evict_arena:
  "load evict_store 1 = Ok (arena_of evict_rows_demo (key_bridge_rows evict_store 1))"
  using load_ok [OF evict_store_fields(6), of 1]
  by (simp add: evict_store_fields tree_rows_ok_def evict_rows_demo_def leaf_row_def)

abbreviation demo_presented :: "int \<rightharpoonup> bytes" where
  "demo_presented \<equiv> [2 \<mapsto> [1, 7], 3 \<mapsto> [2, 7]]"

lemma evict_demo_run:
  "\<exists>changes s'. evict_and_refresh toy 1 4 demo_presented evict_store = (Ok changes, s')"
proof -
  let ?s = "evict_store\<lparr>in_tx := True\<rparr>"
  define T where "T = arena_of evict_rows_demo (key_bridge_rows evict_store 1)"
  let ?hk = "demo_key 1 1"
  have node: "kn_parent (kt_nodes T ! 3) = Some 0" "kn_active (kt_nodes T ! 3)" "kn_hw (kt_nodes T ! 3) = Some 1"
    "kn_threshold (kt_nodes T ! 0) = Some 2" "kn_children (kt_nodes T ! 0) = [1, 2, 3]"
    "kn_label (kt_nodes T ! 3) = ''cyd''" "index_by_db_id T 4 = Ok 3"
    "kn_active (kt_nodes T ! 1)" "kn_active (kt_nodes T ! 2)" "kn_hw (kt_nodes T ! 1) = Some 1" "kn_hw (kt_nodes T ! 2) = Some 1"
    "kn_db (kt_nodes T ! 1) = 2" "kn_db (kt_nodes T ! 2) = 3"
    by (simp_all add: evict_rows_demo_def leaf_row_def row_index_def i64_as_usize_def index_by_db_id_def db_map_def
      upt_rec T_def)
  have hk: "get_active_encryption_key ?s 1 = Ok ?hk"
    by (simp add: get_active_encryption_key_def get_key_def evict_store_fields demo_key_def)
  have meta: "survivor_shares ?s T demo_presented [1, 2] = Ok [(2, ?hk, [1, 7]), (3, ?hk, [2, 7])]"
    by (simp add: node hk del: One_nat_def)
  have "refreshable 2 [[1, 7], [2, 7 :: u8]]" by (auto simp: refreshable_def share_shape_def share_x_def)
  from refresh_among_kept [OF toy_shamir_ok toy_linear _ this, of ?s] obtain new where
    new: "refresh_among toy [[1, 7], [2, 7]] 2 ?s = (Ok new, ?s\<lparr>draws := 2\<rparr>)" "length new = 2"
    using map_eq_imp_length_eq by (fastforce simp: evict_store_fields)
  then obtain a b where ab: "new = [a, b]" by (auto simp: length_Suc_conv numeral_2_eq_2)
  have len: "length (hw_public ?hk) = 32" by (simp add: demo_key_def)
  have "\<exists>u. evict_body toy 1 4 demo_presented ?s = (Ok [], u)"
    using evict_arena [folded T_def] new(1)
    by (simp add: evict_body_def bind_run Let_def node meta ab update_nodes_def delete_node_bindings_def evict_store_fields
      query_row_def evict_rows_demo_def leaf_row_def on_leaf_removed_def live_uids_def put_share_def seal_share_def len del: One_nat_def survivor_shares.simps)
  then show ?thesis
    by (auto simp: evict_and_refresh_def transaction_def run_tx_def evict_store_fields)
qed

theorem evict_refreshes_witness:
  "\<exists>changes s'. evict_and_refresh toy 1 4 demo_presented evict_store = (Ok changes, s')
     \<and> map n_id (kids s' 1 1) = [2, 3] \<and> refreshed toy s' 1 1 2 demo_presented"
proof -
  obtain changes s' where run: "evict_and_refresh toy 1 4 demo_presented evict_store = (Ok changes, s')"
    using evict_demo_run by blast
  from evict_refreshes [OF toy_shamir_ok toy_linear toy_box_ok evict_store_fields(6) run] obtain r p t where
    p: "node_table.row_of evict_store 4 = Some r" "n_parent r = Some (n_id p)" "p \<in> set (key_node_rows evict_store 1)"
      "map_option i64_as_usize (n_threshold p) = Some t"
      "map n_id (kids s' 1 (n_id p)) = filter (\<lambda>d. d \<noteq> 4) (map n_id (kids evict_store 1 (n_id p)))"
      "refreshed toy s' 1 (n_id p) t demo_presented" by blast
  have "n_id p = 1" using p(1,2) by (auto simp: node_table.row_of_def evict_store_fields evict_rows_demo_def leaf_row_def)
  moreover from this have "t = 2"
    using p(3,4) by (auto simp: evict_store_fields evict_rows_demo_def leaf_row_def i64_as_usize_def)
  ultimately have "map n_id (kids s' 1 1) = [2, 3]" "refreshed toy s' 1 1 2 demo_presented"
    using p(5,6) by (simp_all add: kids_def evict_store_fields evict_rows_demo_def leaf_row_def)
  with run show ?thesis by (intro exI conjI)
qed

end
