(* ===== verification/TreeVisible.thy ===== *)
theory TreeVisible
  imports TreeOps "HOL-Library.AList"
begin

text \<open>
  Who sees what of a split tree (\<open>src/key_tree.rs\<close>): the published topology \<open>PublicTree\<close>, the
  labels visible to a person, and the slice of the tree that keeps only those. A \<open>HashMap\<close> is an
  association list without duplicate keys, a \<open>HashSet\<close> a set. The loops end for the reasons the
  code has: a label is walked once, pushed once, and a round of the fixpoint that grows adds a
  label of the tree or of a link.
\<close>

section \<open>The published tree\<close>

record public_node =
  pn_label :: string
  pn_parent :: "string option"
  pn_threshold :: "u8 option"
  pn_active :: bool
  pn_fp :: "string option"
  pn_pk :: "string option"

record public_tree =
  pt_label :: string
  pt_generation :: u32
  pt_nodes :: "public_node list"
  pt_whitelist :: "(string \<times> string) list"
  pt_links :: "(string \<times> string) list"

definition node_keys :: "crates \<Rightarrow> store \<Rightarrow> int option \<Rightarrow> (string option \<times> string option) result" where
  "node_keys C s h = (case h of None \<Rightarrow> Ok (None, None)
     | Some i \<Rightarrow> and_then (get_key s i) (\<lambda>k. Ok (Some (hw_fp k), Some (hex_encode C (hw_public k)))))"

definition public_node_of :: "crates \<Rightarrow> store \<Rightarrow> key_tree \<Rightarrow> key_node \<Rightarrow> public_node result" where
  "public_node_of C s T n =
     and_then (node_keys C s (kn_hw n)) (\<lambda>(fp, pk).
     Ok \<lparr> pn_label = kn_label n, pn_parent = map_option (\<lambda>i. kn_label (kt_nodes T ! i)) (kn_parent n),
          pn_threshold = map_option (\<lambda>t. word_of_nat t) (kn_threshold n), pn_active = kn_active n,
          pn_fp = fp, pn_pk = pk \<rparr>)"

definition export_public_tree :: "crates \<Rightarrow> store \<Rightarrow> int \<Rightarrow> public_tree result" where
  "export_public_tree C s key =
     and_then (ok_or TreeNotFound (key_table.row_of s key)) (\<lambda>k.
     let generation = (if 0 \<le> k_generation k \<and> k_generation k < 2 ^ 32 then word_of_int (k_generation k) else 1) in
     and_then (load s key) (\<lambda>T.
     and_then (try_all (public_node_of C s T) (kt_nodes T)) (\<lambda>nodes.
     Ok \<lparr> pt_label = k_label k, pt_generation = generation, pt_nodes = nodes,
          pt_whitelist = fst (list_bridges s key), pt_links = snd (list_bridges s key) \<rparr>)))"

section \<open>Visibility\<close>

type_synonym parent_map = "(string \<times> string option) list"
type_synonym children_map = "(string \<times> string list) list"

definition add_child :: "string \<Rightarrow> string \<Rightarrow> children_map \<Rightarrow> children_map" where
  "add_child p c m = AList.update p ((case map_of m p of None \<Rightarrow> [] | Some cs \<Rightarrow> cs) @ [c]) m"

text \<open>One pass over the nodes, each with its parent's label, fills both maps.\<close>

fun index_nodes :: "(string \<times> string option) list \<Rightarrow> parent_map \<Rightarrow> children_map \<Rightarrow> parent_map \<times> children_map" where
  "index_nodes [] P C = (P, C)"
| "index_nodes ((l, p) # ns) P C =
     index_nodes ns (AList.update l p P) (case p of None \<Rightarrow> C | Some q \<Rightarrow> add_child q l C)"

function walk :: "parent_map \<Rightarrow> string \<Rightarrow> string set \<Rightarrow> string set \<Rightarrow> bool \<Rightarrow> string set \<times> bool" where
  "walk P l seen visible grew =
     (if l \<in> seen then (visible, grew)
      else case map_of P l of
             Some (Some p) \<Rightarrow> walk P p (insert l seen) (insert l visible) (grew \<or> l \<notin> visible)
           | _ \<Rightarrow> (insert l visible, grew \<or> l \<notin> visible))"
  by pat_completeness auto

termination
proof (relation "measure (\<lambda>(P, l, seen, visible, grew). card (fst ` set P - seen))")
  fix P :: parent_map and l p and seen visible :: "string set" and grew and v
  assume "l \<notin> seen" "map_of P l = Some v" "v = Some p"
  then have "l \<in> fst ` set P - seen" by (force dest: map_of_SomeD)
  then have "fst ` set P - insert l seen \<subset> fst ` set P - seen" by blast
  then show "((P, p, insert l seen, insert l visible, grew \<or> l \<notin> visible), P, l, seen, visible, grew)
      \<in> measure (\<lambda>(P, l, seen, visible, grew). card (fst ` set P - seen))"
    by (simp add: psubset_card_mono)
qed simp

definition walk_ancestors :: "parent_map \<Rightarrow> string \<Rightarrow> string set \<Rightarrow> string set \<times> bool" where
  "walk_ancestors P start visible = walk P start {} visible False"

fun push_children :: "string list \<Rightarrow> string set \<Rightarrow> string list \<Rightarrow> string set \<times> string list" where
  "push_children [] visible stack = (visible, stack)"
| "push_children (c # cs) visible stack =
     (if c \<in> visible then push_children cs visible stack
      else push_children cs (insert c visible) (c # stack))"

text \<open>The labels that can be pushed.\<close>

definition all_children :: "children_map \<Rightarrow> string set" where
  "all_children C = (\<Union>(l, cs) \<in> set C. set cs)"

lemma push_children_bound:
  assumes "push_children cs visible stack = (visible', stack')" "set cs \<subseteq> U" "finite U"
  shows "card (U - visible') < card (U - visible) \<or> (visible' = visible \<and> stack' = stack)"
  using assms(1,2)
proof (induction cs visible stack rule: push_children.induct)
  case (2 c cs visible stack)
  show ?case
  proof (cases "c \<in> visible")
    case False
    then have "U - insert c visible \<subset> U - visible" using 2(4) by auto
    then have "card (U - insert c visible) < card (U - visible)" using assms(3) by (simp add: psubset_card_mono)
    then show ?thesis using 2(2) [OF False] 2(3,4) False by auto
  qed (use 2 in simp)
qed simp

function descend :: "children_map \<Rightarrow> string list \<Rightarrow> string set \<Rightarrow> string set" where
  "descend C [] visible = visible"
| "descend C (l # stack) visible =
     (case map_of C l of
        None \<Rightarrow> descend C stack visible
      | Some cs \<Rightarrow> (let (visible', stack') = push_children cs visible stack in descend C stack' visible'))"
  by pat_completeness auto

termination
proof (relation "measures [\<lambda>(C, stack, visible). card (all_children C - visible), \<lambda>(C, stack, visible). length stack]")
  fix C :: children_map and l stack visible cs p visible' stack'
  assume "map_of C l = Some cs" and p: "p = push_children cs visible stack" "(visible', stack') = p"
  then have "set cs \<subseteq> all_children C" by (force simp: all_children_def dest: map_of_SomeD)
  moreover have "finite (all_children C)" by (auto simp: all_children_def)
  ultimately have "card (all_children C - visible') < card (all_children C - visible) \<or> (visible' = visible \<and> stack' = stack)"
    using push_children_bound p by metis
  then show "((C, stack', visible'), C, l # stack, visible)
      \<in> measures [\<lambda>(C, stack, visible). card (all_children C - visible), \<lambda>(C, stack, visible). length stack]" by auto
qed auto

definition add_descendants :: "children_map \<Rightarrow> string \<Rightarrow> string set \<Rightarrow> string set" where
  "add_descendants C start visible = descend C [start] visible"

definition see_seed :: "parent_map \<Rightarrow> children_map \<Rightarrow> string \<Rightarrow> string set \<Rightarrow> string set" where
  "see_seed P C seed visible =
     (case map_of P seed of
        None \<Rightarrow> visible
      | Some parent \<Rightarrow>
          (let visible = add_descendants C seed (fst (walk_ancestors P seed visible)) in
           case parent of
             None \<Rightarrow> visible
           | Some p \<Rightarrow> (case map_of C p of None \<Rightarrow> visible | Some siblings \<Rightarrow> visible \<union> set siblings)))"

fun cross_links :: "parent_map \<Rightarrow> (string \<times> string) list \<Rightarrow> string set \<Rightarrow> bool \<Rightarrow> string set \<times> bool" where
  "cross_links P [] visible grew = (visible, grew)"
| "cross_links P ((a, b) # links) visible grew =
     (if (a \<in> visible) = (b \<in> visible) then cross_links P links visible grew
      else (let (visible', g) = walk_ancestors P (if a \<in> visible then b else a) visible in
            cross_links P links visible' (grew \<or> g)))"

subsection \<open>A walk adds the ancestors\<close>

definition up :: "parent_map \<Rightarrow> (string \<times> string) set" where
  "up P = {(l, p). map_of P l = Some (Some p)}"

lemma up_step: "map_of P l = Some (Some p) \<Longrightarrow> (up P)\<^sup>* `` {l} = insert l ((up P)\<^sup>* `` {p})"
proof -
  assume l: "map_of P l = Some (Some p)"
  then have step: "(l, x) \<in> up P \<longleftrightarrow> x = p" for x by (auto simp: up_def)
  show ?thesis
    using step by (auto elim: converse_rtranclE intro: converse_rtrancl_into_rtrancl)
qed

lemma up_stop: "\<forall>p. map_of P l \<noteq> Some (Some p) \<Longrightarrow> (up P)\<^sup>* `` {l} = {l}"
  by (auto simp: up_def elim: converse_rtranclE)

lemma up_closed: "(l, x) \<in> (up P)\<^sup>* \<Longrightarrow> l \<in> S \<Longrightarrow> (\<And>y p. y \<in> S \<Longrightarrow> (y, p) \<in> up P \<Longrightarrow> p \<in> S) \<Longrightarrow> x \<in> S"
  by (induction rule: rtrancl_induct) auto

lemma walk_spec:
  assumes "walk P l seen visible g = (visible', g')" "seen \<subseteq> visible"
    and "\<forall>x \<in> seen. \<forall>p. (x, p) \<in> up P \<longrightarrow> p \<in> insert l seen"
  shows "visible' = visible \<union> (up P)\<^sup>* `` {l} \<and> (g' \<longleftrightarrow> g \<or> visible' \<noteq> visible)"
  using assms
proof (induction P l seen visible g rule: walk.induct)
  case (1 P l seen visible g)
  show ?case
  proof (cases "l \<in> seen")
    case True
    then have "(up P)\<^sup>* `` {l} \<subseteq> visible" using 1(3,4) up_closed [of l _ P seen] True by blast
    then show ?thesis using 1(2) True by auto
  next
    case False
    show ?thesis
    proof (cases "\<exists>p. map_of P l = Some (Some p)")
      case True
      then obtain p where p: "map_of P l = Some (Some p)" by blast
      have "\<forall>x \<in> insert l seen. \<forall>q. (x, q) \<in> up P \<longrightarrow> q \<in> insert p (insert l seen)"
        using 1(4) p by (auto simp: up_def)
      then have "visible' = insert l visible \<union> (up P)\<^sup>* `` {p} \<and> (g' \<longleftrightarrow> (g \<or> l \<notin> visible) \<or> visible' \<noteq> insert l visible)"
        using 1(1) [OF False p refl] 1(2,3) False p by (auto split: if_splits)
      then show ?thesis unfolding up_step [OF p] by auto
    next
      case other: False
      then have "walk P l seen visible g = (insert l visible, g \<or> l \<notin> visible)"
        using False by (auto split: option.splits)
      then show ?thesis using 1(2) other by (auto simp: up_stop)
    qed
  qed
qed

lemma walk_ancestors_eq:
  "walk_ancestors P l visible = (visible \<union> (up P)\<^sup>* `` {l}, \<not> (up P)\<^sup>* `` {l} \<subseteq> visible)"
proof -
  obtain v g where w: "walk P l {} visible False = (v, g)" by (cases "walk P l {} visible False")
  then have "v = visible \<union> (up P)\<^sup>* `` {l} \<and> (g \<longleftrightarrow> False \<or> v \<noteq> visible)" by (rule walk_spec) auto
  then show ?thesis using w by (auto simp: walk_ancestors_def)
qed

text \<open>Every label of the tree and of the links.\<close>

definition universe :: "parent_map \<Rightarrow> (string \<times> string) list \<Rightarrow> string set" where
  "universe P links = (\<Union>(l, p) \<in> set P. insert l (set_option p)) \<union> fst ` set links \<union> snd ` set links"

lemma finite_universe [simp]: "finite (universe P links)"
  by (auto simp: universe_def)

lemma link_universe: "(a, b) \<in> set links \<Longrightarrow> a \<in> universe P links \<and> b \<in> universe P links"
  using imageI [of "(a, b)" "set links" fst] imageI [of "(a, b)" "set links" snd]
  unfolding universe_def fst_conv snd_conv by blast

lemma up_universe:
  assumes "(l, x) \<in> (up P)\<^sup>*" "l \<in> universe P links" shows "x \<in> universe P links"
proof (rule up_closed [OF assms])
  fix y p assume "(y, p) \<in> up P"
  then show "p \<in> universe P links" by (force simp: up_def universe_def dest: map_of_SomeD)
qed

lemma cross_links_spec:
  assumes "cross_links P links visible g = (visible', g')" "set links \<subseteq> set all"
  shows "visible \<subseteq> visible' \<and> visible' \<subseteq> visible \<union> universe P all \<and> (g' \<longleftrightarrow> g \<or> visible' \<noteq> visible)"
  using assms
proof (induction P links visible g rule: cross_links.induct)
  case (2 P a b links visible g)
  show ?case
  proof (cases "(a \<in> visible) = (b \<in> visible)")
    case True
    then show ?thesis using 2(1) [OF True] 2(3,4) by simp
  next
    case False
    define l where "l = (if a \<in> visible then b else a)"
    let ?v = "visible \<union> (up P)\<^sup>* `` {l}"
    have l: "l \<notin> visible" "l \<in> universe P all"
      using False link_universe [of a b all P] 2(4) by (simp_all add: l_def split: if_splits)
    have run: "cross_links P links ?v (g \<or> \<not> (up P)\<^sup>* `` {l} \<subseteq> visible) = (visible', g')"
      using 2(3) False by (simp add: walk_ancestors_eq l_def)
    have "?v \<subseteq> visible' \<and> visible' \<subseteq> ?v \<union> universe P all
        \<and> (g' \<longleftrightarrow> (g \<or> \<not> (up P)\<^sup>* `` {l} \<subseteq> visible) \<or> visible' \<noteq> ?v)"
      using 2(2) [OF False, folded l_def] run 2(4) by (simp add: walk_ancestors_eq)
    moreover have "?v \<subseteq> visible \<union> universe P all" using l(2) up_universe by blast
    ultimately show ?thesis by blast
  qed
qed simp

function grow_links :: "parent_map \<Rightarrow> (string \<times> string) list \<Rightarrow> string set \<Rightarrow> string set" where
  "grow_links P links visible =
     (let (visible', grew) = cross_links P links visible False in
      if grew then grow_links P links visible' else visible')"
  by pat_completeness auto

termination
proof (relation "measure (\<lambda>(P, links, visible). card (universe P links - visible))")
  fix P links visible p visible' grew
  assume "p = cross_links P links visible False" "(visible', grew) = p" "grew"
  then have "visible \<subseteq> visible'" "visible' \<subseteq> visible \<union> universe P links" "visible' \<noteq> visible"
    using cross_links_spec [of P links visible False visible' grew links] by auto
  then have "universe P links - visible' \<subset> universe P links - visible" by blast
  then show "((P, links, visible'), P, links, visible) \<in> measure (\<lambda>(P, links, visible). card (universe P links - visible))"
    by (simp add: psubset_card_mono)
qed simp

declare grow_links.simps [simp del]

definition visible_from_maps ::
  "parent_map \<Rightarrow> children_map \<Rightarrow> (string \<times> string) list \<Rightarrow> string list \<Rightarrow> string set" where
  "visible_from_maps P C links seeds = grow_links P links (fold (see_seed P C) seeds {})"

definition visible_labels_for_links :: "key_tree \<Rightarrow> (string \<times> string) list \<Rightarrow> string \<Rightarrow> string set result" where
  "visible_labels_for_links T links label =
     and_then (index_by_label T label) (\<lambda>start.
     let (P, C) = index_nodes (map (\<lambda>n. (kn_label n, map_option (\<lambda>i. kn_label (kt_nodes T ! i)) (kn_parent n))) (kt_nodes T)) [] [] in
     Ok (visible_from_maps P C links [kn_label (kt_nodes T ! start)]))"

definition visible_labels :: "store \<Rightarrow> int \<Rightarrow> string \<Rightarrow> string set result" where
  "visible_labels s key label =
     and_then (load s key) (\<lambda>T. visible_labels_for_links T (snd (list_bridges s key)) label)"

definition visible_labels_in_public_tree :: "public_tree \<Rightarrow> string list \<Rightarrow> string set" where
  "visible_labels_in_public_tree full seeds =
     (let (P, C) = index_nodes (map (\<lambda>n. (pn_label n, pn_parent n)) (pt_nodes full)) [] [] in
      visible_from_maps P C (pt_links full) seeds)"

definition filter_public_tree :: "public_tree \<Rightarrow> string set \<Rightarrow> public_tree" where
  "filter_public_tree full visible = full\<lparr>
     pt_nodes := filter (\<lambda>n. pn_label n \<in> visible) (pt_nodes full),
     pt_whitelist := filter (\<lambda>(a, b). a \<in> visible \<and> b \<in> visible) (pt_whitelist full),
     pt_links := filter (\<lambda>(a, b). a \<in> visible \<and> b \<in> visible) (pt_links full)\<rparr>"

section \<open>What is visible\<close>

text \<open>
  The rule, on the relation \<open>R\<close> from a label to its parent's: one sees one's ancestors, one's
  descendants and one's siblings; whoever sees one end of a link sees the other end and its
  ancestors.
\<close>

definition own_view :: "(string \<times> string) set \<Rightarrow> string \<Rightarrow> string set" where
  "own_view R seed = R\<^sup>* `` {seed} \<union> {x. (x, seed) \<in> R\<^sup>+} \<union> {x. \<exists>p. (seed, p) \<in> R \<and> (x, p) \<in> R}"

inductive_set sees :: "(string \<times> string) set \<Rightarrow> (string \<times> string) set \<Rightarrow> string set \<Rightarrow> string set"
  for R links own where
  own: "x \<in> own \<Longrightarrow> x \<in> sees R links own"
| cross: "a \<in> sees R links own \<Longrightarrow> (a, b) \<in> links \<or> (b, a) \<in> links \<Longrightarrow> (b, x) \<in> R\<^sup>* \<Longrightarrow> x \<in> sees R links own"

definition down :: "children_map \<Rightarrow> (string \<times> string) set" where
  "down C = {(l, c). \<exists>cs. map_of C l = Some cs \<and> c \<in> set cs}"

lemma push_children_spec:
  "push_children cs visible stack = (visible', stack') \<Longrightarrow>
     visible' = visible \<union> set cs \<and> set stack' = set stack \<union> (set cs - visible)"
  by (induction cs visible stack rule: push_children.induct) (auto split: if_splits)

lemma descend_spec:
  "visible \<subseteq> descend C stack visible
   \<and> (\<forall>x \<in> (descend C stack visible - visible) \<union> set stack. down C `` {x} \<subseteq> descend C stack visible)
   \<and> descend C stack visible \<subseteq> visible \<union> (down C)\<^sup>+ `` set stack"
proof (induction C stack visible rule: descend.induct)
  case (2 C l stack visible)
  show ?case
  proof (cases "map_of C l")
    case None
    then have "down C `` {l} = {}" by (auto simp: down_def)
    then show ?thesis using 2(1) [OF None] None by auto
  next
    case (Some cs)
    obtain v st where push: "push_children cs visible stack = (v, st)" by (cases "push_children cs visible stack")
    note p = push_children_spec [OF push]
    have l: "down C `` {l} = set cs" using Some by (auto simp: down_def)
    have eq: "descend C (l # stack) visible = descend C st v" using Some push by simp
    have IH: "v \<subseteq> descend C st v" "\<forall>x \<in> (descend C st v - v) \<union> set st. down C `` {x} \<subseteq> descend C st v"
        "descend C st v \<subseteq> v \<union> (down C)\<^sup>+ `` set st"
      using 2(2) [OF Some push [symmetric] refl] by blast+
    let ?D = "(down C)\<^sup>+" and ?S = "(down C)\<^sup>+ `` set (l # stack)"
    have kids: "set cs \<subseteq> ?S" using l by auto
    have "?D `` set cs \<subseteq> ?S" using l by (auto intro: trancl_into_trancl2)
    moreover have "?D `` set stack \<subseteq> ?S" by auto
    ultimately have "?D `` set st \<subseteq> ?S" using p by blast
    then have "descend C st v \<subseteq> visible \<union> ?S" using IH(3) p kids by blast
    moreover have "down C `` {x} \<subseteq> descend C st v" if "x \<in> (descend C st v - visible) \<union> set (l # stack)" for x
      using that IH(1,2) l p by auto
    ultimately show ?thesis unfolding eq using IH(1) p by blast
  qed
qed simp

lemma add_descendants_eq:
  assumes "(down C)\<^sup>+ `` {l} \<inter> visible = {}"
  shows "add_descendants C l visible = visible \<union> (down C)\<^sup>+ `` {l}"
proof -
  let ?V = "descend C [l] visible"
  note d = descend_spec [of visible C "[l]"]
  have "y \<in> ?V" if "(l, y) \<in> (down C)\<^sup>+" for y
    using that
  proof (induction rule: trancl_induct)
    case (step y z)
    then have "y \<in> ?V - visible" using assms by auto
    then show ?case using d step(2) by blast
  qed (use d in auto)
  then show ?thesis unfolding add_descendants_def using d by auto
qed

lemma index_nodes_parents:
  "map_of (fst (index_nodes ns P C)) = map_of P ++ map_of (rev ns)"
  by (induction ns P C rule: index_nodes.induct) (auto simp: update_conv' map_add_def fun_eq_iff split: option.splits)

lemma down_add_child: "down (add_child q l C) = insert (q, l) (down C)"
  by (auto simp: down_def add_child_def update_conv' split: option.splits if_splits)

lemma index_nodes_children:
  "down (snd (index_nodes ns P C)) = down C \<union> {(q, l). (l, Some q) \<in> set ns}"
  by (induction ns P C rule: index_nodes.induct) (auto simp: down_add_child split: option.splits)

definition parent_rel :: "(string \<times> string option) list \<Rightarrow> (string \<times> string) set" where
  "parent_rel ns = {(l, p). (l, Some p) \<in> set ns}"

lemma map_of_rev: "distinct (map fst xs) \<Longrightarrow> map_of (rev xs) = map_of xs"
  by (induction xs) (auto simp: map_add_upd_left dom_map_of_conv_image_fst)

lemma indexed:
  assumes "distinct (map fst ns)" "index_nodes ns [] [] = (P, C)"
  shows "map_of P = map_of ns" "up P = parent_rel ns" "down C = (parent_rel ns)\<inverse>"
proof -
  show "map_of P = map_of ns"
    using index_nodes_parents [of ns "[]" "[]"] assms map_of_rev by simp
  then show "up P = parent_rel ns" using assms(1) by (auto simp: up_def parent_rel_def)
  show "down C = (parent_rel ns)\<inverse>"
    using index_nodes_children [of ns "[]" "[]"] assms(2) by (auto simp: parent_rel_def down_def)
qed

lemma see_seed_eq:
  assumes "distinct (map fst ns)" "index_nodes ns [] [] = (P, C)" "acyclic (parent_rel ns)"
  shows "see_seed P C seed {} = (if seed \<in> fst ` set ns then own_view (parent_rel ns) seed else {})"
proof (cases "map_of ns seed")
  case None
  moreover from this have "seed \<notin> fst ` set ns" by (simp add: map_of_eq_None_iff)
  ultimately show ?thesis using indexed(1) [OF assms(1,2)] by (simp add: see_seed_def)
next
  case (Some parent)
  let ?R = "parent_rel ns"
  note ix = indexed [OF assms(1,2)]
  have dom: "seed \<in> fst ` set ns" using Some by (force dest: map_of_SomeD)
  have dn: "(down C)\<^sup>+ `` {seed} = {x. (x, seed) \<in> ?R\<^sup>+}" by (auto simp: ix(3) trancl_converse)
  have "(down C)\<^sup>+ `` {seed} \<inter> ({} \<union> (up P)\<^sup>* `` {seed}) = {}"
    unfolding dn ix(2) using assms(3) by (auto simp: acyclic_def dest: rtrancl_trancl_trancl)
  from add_descendants_eq [OF this]
  have v: "add_descendants C seed (fst (walk_ancestors P seed {})) = ?R\<^sup>* `` {seed} \<union> {x. (x, seed) \<in> ?R\<^sup>+}"
    by (simp add: walk_ancestors_eq dn ix(2))
  have par: "(seed, p) \<in> ?R \<longleftrightarrow> parent = Some p" for p
    using Some map_of_eq_Some_iff [OF assms(1), of seed "Some p"] by (simp add: parent_rel_def)
  have sib: "{x. (x, p) \<in> ?R} = (case map_of C p of None \<Rightarrow> {} | Some cs \<Rightarrow> set cs)" for p
  proof -
    have "{x. (x, p) \<in> ?R} = down C `` {p}" using ix(3) by auto
    then show ?thesis by (auto simp: down_def split: option.splits)
  qed
  have "see_seed P C seed {} = (case parent of None \<Rightarrow> ?R\<^sup>* `` {seed} \<union> {x. (x, seed) \<in> ?R\<^sup>+}
      | Some p \<Rightarrow> ?R\<^sup>* `` {seed} \<union> {x. (x, seed) \<in> ?R\<^sup>+} \<union> {x. (x, p) \<in> ?R})"
    unfolding sib using Some ix(1) v by (auto simp: see_seed_def Let_def split: option.splits)
  then show ?thesis using dom par by (auto simp: own_view_def split: option.splits)
qed

text \<open>The fixpoint over the links: it reaches everything the rule allows, and only that.\<close>

lemma cross_links_sound:
  assumes "cross_links P links visible g = (visible', g')" "set links \<subseteq> all" "visible \<subseteq> sees (up P) all own"
  shows "visible' \<subseteq> sees (up P) all own"
  using assms
proof (induction P links visible g rule: cross_links.induct)
  case (2 P a b links visible g)
  show ?case
  proof (cases "(a \<in> visible) = (b \<in> visible)")
    case False
    define l where "l = (if a \<in> visible then b else a)"
    have "(up P)\<^sup>* `` {l} \<subseteq> sees (up P) all own"
    proof (cases "a \<in> visible")
      case True
      then have "a \<in> sees (up P) all own" "(a, b) \<in> all" using 2(4,5) by auto
      then show ?thesis using True by (auto simp: l_def intro: cross)
    next
      case na: False
      then have "b \<in> sees (up P) all own" "(a, b) \<in> all" using 2(4,5) False by auto
      then show ?thesis using na by (auto simp: l_def intro: cross)
    qed
    moreover have "cross_links P links (visible \<union> (up P)\<^sup>* `` {l}) (g \<or> \<not> (up P)\<^sup>* `` {l} \<subseteq> visible) = (visible', g')"
      using 2(3) False by (simp add: walk_ancestors_eq l_def)
    ultimately show ?thesis
      using 2(2) [OF False, folded l_def] 2(4,5) by (simp add: walk_ancestors_eq)
  qed (use 2 in simp)
qed simp

lemma cross_links_done:
  assumes "cross_links P links visible g = (visible', False)" "(a, b) \<in> set links"
  shows "visible' = visible" "(a \<in> visible) = (b \<in> visible)"
proof -
  show v: "visible' = visible" using cross_links_spec [OF assms(1) subset_refl] by simp
  show "(a \<in> visible) = (b \<in> visible)"
    using assms v
  proof (induction P links visible g rule: cross_links.induct)
    case (2 P c d links visible g)
    show ?case
    proof (cases "(c \<in> visible) = (d \<in> visible)")
      case True
      then show ?thesis using 2(1) [OF True] 2(3-5) by auto
    next
      case False
      define l where "l = (if c \<in> visible then d else c)"
      have "l \<notin> visible" using False by (auto simp: l_def)
      have "cross_links P links (visible \<union> (up P)\<^sup>* `` {l}) (g \<or> \<not> (up P)\<^sup>* `` {l} \<subseteq> visible) = (visible', False)"
        using 2(3) False by (simp add: walk_ancestors_eq l_def)
      from cross_links_spec [OF this subset_refl] have "(up P)\<^sup>* `` {l} \<subseteq> visible" by blast
      then show ?thesis using \<open>l \<notin> visible\<close> by blast
    qed
  qed simp
qed

definition closed_up :: "parent_map \<Rightarrow> string set \<Rightarrow> bool" where
  "closed_up P V \<longleftrightarrow> (\<forall>x \<in> V. (up P)\<^sup>* `` {x} \<subseteq> V)"

lemma cross_links_closed:
  "cross_links P links visible g = (visible', g') \<Longrightarrow> closed_up P visible \<Longrightarrow> closed_up P visible'"
proof (induction P links visible g rule: cross_links.induct)
  case (2 P a b links visible g)
  show ?case
  proof (cases "(a \<in> visible) = (b \<in> visible)")
    case True
    then show ?thesis using 2(1) [OF True] 2(3,4) by simp
  next
    case False
    define l where "l = (if a \<in> visible then b else a)"
    have "closed_up P (visible \<union> (up P)\<^sup>* `` {l})"
      using 2(4) unfolding closed_up_def by (auto intro: rtrancl_trans)
    then show ?thesis
      using 2(2) [OF False, folded l_def] 2(3) False by (simp add: walk_ancestors_eq l_def)
  qed
qed simp

lemma grow_links_inv:
  assumes "V \<subseteq> sees (up P) (set links) own" "own \<subseteq> V" "closed_up P V"
  shows "grow_links P links V \<subseteq> sees (up P) (set links) own \<and> own \<subseteq> grow_links P links V
      \<and> closed_up P (grow_links P links V)
      \<and> (\<forall>(a, b) \<in> set links. a \<in> grow_links P links V \<longleftrightarrow> b \<in> grow_links P links V)"
  using assms
proof (induction P links V rule: grow_links.induct)
  case (1 P links V)
  obtain V' g where c: "cross_links P links V False = (V', g)" by (cases "cross_links P links V False")
  have V': "V' \<subseteq> sees (up P) (set links) own" "own \<subseteq> V'" "closed_up P V'"
    using cross_links_sound [OF c subset_refl 1(2)] cross_links_spec [OF c subset_refl] 1(3)
      cross_links_closed [OF c 1(4)] by blast+
  show ?case
  proof (cases g)
    case True
    then show ?thesis using 1(1) [OF c [symmetric] refl True V'] c True grow_links.simps [of P links V] by simp
  next
    case False
    then have d: "cross_links P links V False = (V', False)" using c by simp
    then have "grow_links P links V = V'" using grow_links.simps [of P links V] by simp
    then show ?thesis using V' cross_links_done [OF d] by auto
  qed
qed

lemma grow_links_eq:
  assumes "closed_up P own"
  shows "grow_links P links own = sees (up P) (set links) own"
proof
  let ?G = "grow_links P links own"
  have G: "?G \<subseteq> sees (up P) (set links) own" "own \<subseteq> ?G" "closed_up P ?G"
    "\<forall>(a, b) \<in> set links. a \<in> ?G \<longleftrightarrow> b \<in> ?G"
    using grow_links_inv [of own P links own, OF _ _ assms] by (auto intro: own)
  then show "?G \<subseteq> sees (up P) (set links) own" by blast
  show "sees (up P) (set links) own \<subseteq> ?G"
  proof
    fix x assume "x \<in> sees (up P) (set links) own"
    then show "x \<in> ?G"
    proof induction
      case (cross a b x)
      then have "b \<in> ?G" using G(4) by blast
      then show ?case using cross G(3) unfolding closed_up_def by blast
    qed (use G(2) in blast)
  qed
qed

lemma own_view_closed:
  assumes "\<And>p q. (x, p) \<in> R \<Longrightarrow> (x, q) \<in> R \<Longrightarrow> p = q" "x \<in> own_view R seed" "(x, y) \<in> R"
    and single: "\<And>p q. (seed, p) \<in> R \<Longrightarrow> (seed, q) \<in> R \<Longrightarrow> p = q"
  shows "y \<in> own_view R seed"
  using assms(2) unfolding own_view_def
proof (elim UnE)
  assume "x \<in> R\<^sup>* `` {seed}"
  then show "y \<in> R\<^sup>* `` {seed} \<union> {x. (x, seed) \<in> R\<^sup>+} \<union> {x. \<exists>p. (seed, p) \<in> R \<and> (x, p) \<in> R}"
    using assms(3) by (auto intro: rtrancl_into_rtrancl)
next
  assume "x \<in> {x. (x, seed) \<in> R\<^sup>+}"
  then obtain z where z: "(x, z) \<in> R" "(z, seed) \<in> R\<^sup>*" by (auto dest: tranclD)
  then have "z = y" using assms(1,3) by blast
  then have "y = seed \<or> (y, seed) \<in> R\<^sup>+" using z(2) by (metis rtranclD)
  then show "y \<in> R\<^sup>* `` {seed} \<union> {x. (x, seed) \<in> R\<^sup>+} \<union> {x. \<exists>p. (seed, p) \<in> R \<and> (x, p) \<in> R}" by auto
next
  assume "x \<in> {x. \<exists>p. (seed, p) \<in> R \<and> (x, p) \<in> R}"
  then obtain p where "(seed, p) \<in> R" "(x, p) \<in> R" by blast
  moreover from this have "p = y" using assms(1,3) by blast
  ultimately show "y \<in> R\<^sup>* `` {seed} \<union> {x. (x, seed) \<in> R\<^sup>+} \<union> {x. \<exists>p. (seed, p) \<in> R \<and> (x, p) \<in> R}" by auto
qed

lemma visible_from_indexed:
  assumes "distinct (map fst ns)" "index_nodes ns [] [] = (P, C)" "acyclic (parent_rel ns)"
  shows "visible_from_maps P C links [seed] = (if seed \<in> fst ` set ns
    then sees (parent_rel ns) (set links) (own_view (parent_rel ns) seed) else {})"
proof -
  note ix = indexed [OF assms(1,2)]
  have one: "p = q" if "(x, p) \<in> parent_rel ns" "(x, q) \<in> parent_rel ns" for x p q
    using that unfolding ix(2) [symmetric] up_def by auto
  have "closed_up P (own_view (parent_rel ns) seed)"
    unfolding closed_up_def ix(2)
    using up_closed [of _ _ P "own_view (parent_rel ns) seed", unfolded ix(2)] own_view_closed one by blast
  then have "grow_links P links (own_view (parent_rel ns) seed)
      = sees (parent_rel ns) (set links) (own_view (parent_rel ns) seed)"
    using grow_links_eq ix(2) by metis
  moreover have "closed_up P {}" by (simp add: closed_up_def)
  then have "grow_links P links {} = sees (up P) (set links) {}" by (rule grow_links_eq)
  moreover have "sees (up P) (set links) {} = {}" by (auto elim: sees.induct)
  ultimately show ?thesis
    using see_seed_eq [OF assms] by (simp add: visible_from_maps_def)
qed

section \<open>Visibility over the tables\<close>

text \<open>Labels and their parents' labels in the rows of a tree.\<close>

definition label_rel :: "store \<Rightarrow> int \<Rightarrow> (string \<times> string) set" where
  "label_rel s key = {(n_label r, n_label q) | r q. r \<in> set (key_node_rows s key) \<and> q \<in> set (key_node_rows s key)
     \<and> n_parent r = Some (n_id q)}"

lemma label_rel_nth:
  "i < length (key_node_rows s key) \<Longrightarrow> j < length (key_node_rows s key)
     \<Longrightarrow> n_parent (key_node_rows s key ! i) = Some (n_id (key_node_rows s key ! j))
     \<Longrightarrow> (n_label (key_node_rows s key ! i), n_label (key_node_rows s key ! j)) \<in> label_rel s key"
  unfolding label_rel_def using nth_mem by blast

lemma label_rel_acyclic:
  assumes "tree_rows_ok (key_node_rows s key)"
  shows "acyclic (label_rel s key)"
proof (rule acyclicI_order)
  let ?rows = "key_node_rows s key"
  let ?f = "\<lambda>l. n_id (the (find (\<lambda>r. n_label r = l) ?rows))"
  have f: "?f (n_label r) = n_id r" if "r \<in> set ?rows" for r
    using find_unique [of n_label ?rows r "n_label r"] assms that by (simp add: tree_rows_ok_def)
  fix l p assume "(l, p) \<in> label_rel s key"
  then obtain r q where r: "l = n_label r" "p = n_label q" "r \<in> set ?rows" "q \<in> set ?rows" "n_parent r = Some (n_id q)"
    by (auto simp: label_rel_def)
  have "r \<in> set (tl ?rows)" using assms r(3,5) by (cases ?rows) (auto simp: tree_rows_ok_def)
  then have "n_id q < n_id r" using assms r(5) by (auto simp: tree_rows_ok_def)
  then show "?f p < ?f l" using f r by simp
qed

abbreviation arena_labels :: "key_tree \<Rightarrow> (string \<times> string option) list" where
  "arena_labels T \<equiv> map (\<lambda>n. (kn_label n, map_option (\<lambda>i. kn_label (kt_nodes T ! i)) (kn_parent n))) (kt_nodes T)"

lemma arena_labels_eq:
  assumes "load s key = Ok T" "store_ids_ok s"
  shows "map fst (arena_labels T) = map n_label (key_node_rows s key)" "parent_rel (arena_labels T) = label_rel s key"
proof -
  let ?rows = "key_node_rows s key"
  have nodes: "kt_nodes T = arena_nodes ?rows (key_bridge_rows s key)" by (rule load_OkD(1) [OF assms])
  then have len: "length (kt_nodes T) = length ?rows" by simp
  show "map fst (arena_labels T) = map n_label ?rows"
    using len nodes by (intro nth_equalityI) simp_all
  have lab: "kn_label (kt_nodes T ! i) = n_label (?rows ! i)" if "i < length ?rows" for i using that nodes by simp
  have par: "kn_parent (kt_nodes T ! i) = Some j \<longleftrightarrow> j < length ?rows \<and> n_parent (?rows ! i) = Some (n_id (?rows ! j))"
    if i: "i < length ?rows" for i j
  proof
    show "kn_parent (kt_nodes T ! i) = Some j \<Longrightarrow> j < length ?rows \<and> n_parent (?rows ! i) = Some (n_id (?rows ! j))"
      using arena_parent [OF assms i] by blast
    assume "j < length ?rows \<and> n_parent (?rows ! i) = Some (n_id (?rows ! j))"
    then show "kn_parent (kt_nodes T ! i) = Some j"
      using i nodes row_index_nth [OF key_rows_distinct [OF assms(2)], of j key] by simp
  qed
  show "parent_rel (arena_labels T) = label_rel s key"
  proof (rule set_eqI, clarify)
    fix l p
    have "(l, p) \<in> parent_rel (arena_labels T) \<longleftrightarrow> (\<exists>i < length ?rows. \<exists>j. kn_parent (kt_nodes T ! i) = Some j
        \<and> l = kn_label (kt_nodes T ! i) \<and> p = kn_label (kt_nodes T ! j))"
    proof -
      have "(l, p) \<in> parent_rel (arena_labels T) \<longleftrightarrow> (\<exists>i < length ?rows. (l, Some p)
          = (kn_label (kt_nodes T ! i), map_option (\<lambda>i. kn_label (kt_nodes T ! i)) (kn_parent (kt_nodes T ! i))))"
        unfolding parent_rel_def mem_Collect_eq prod.case set_map image_iff len [symmetric] by (metis in_set_conv_nth)
      then show ?thesis unfolding prod.inject eq_commute [of "Some p"] map_option_eq_Some by blast
    qed
    also have "\<dots> \<longleftrightarrow> (\<exists>i < length ?rows. \<exists>j < length ?rows. n_parent (?rows ! i) = Some (n_id (?rows ! j))
        \<and> l = n_label (?rows ! i) \<and> p = n_label (?rows ! j))"
      by (auto simp: par lab cong: conj_cong)
    also have "\<dots> \<longleftrightarrow> (l, p) \<in> label_rel s key"
      unfolding label_rel_def by (auto simp: in_set_conv_nth)
    finally show "(l, p) \<in> parent_rel (arena_labels T) \<longleftrightarrow> (l, p) \<in> label_rel s key" .
  qed
qed

lemma exported_labels:
  assumes "export_public_tree C s key = Ok full" "load s key = Ok T"
  shows "map (\<lambda>n. (pn_label n, pn_parent n)) (pt_nodes full) = arena_labels T" "pt_links full = snd (list_bridges s key)"
proof -
  from assms obtain nodes where n: "try_all (public_node_of C s T) (kt_nodes T) = Ok nodes" "pt_nodes full = nodes"
      "pt_links full = snd (list_bridges s key)"
    by (auto simp: export_public_tree_def and_then_Ok_iff Let_def)
  have "try_all (public_node_of C s T) ns = Ok ms \<Longrightarrow> map (\<lambda>n. (pn_label n, pn_parent n)) ms
      = map (\<lambda>n. (kn_label n, map_option (\<lambda>i. kn_label (kt_nodes T ! i)) (kn_parent n))) ns" for ns ms
    by (induction ns arbitrary: ms) (auto simp: and_then_Ok_iff public_node_of_def)
  then show "map (\<lambda>n. (pn_label n, pn_parent n)) (pt_nodes full) = arena_labels T" using n by blast
  show "pt_links full = snd (list_bridges s key)" by (rule n(3))
qed

text \<open>
  C17: On a well-formed tree the labels visible to a person are exactly those the rule gives:
  ancestors, descendants, siblings, and across every established link from a visible label the
  other end with its ancestors. The published tree gives the server the same answer.
\<close>
theorem visible_exact:
  assumes "store_ids_ok s" "tree_rows_ok (key_node_rows s key)" "label \<in> n_label ` set (key_node_rows s key)"
  shows "\<exists>V. visible_labels s key label = Ok V
    \<and> V = sees (label_rel s key) (set (list_established s key)) (own_view (label_rel s key) label)
    \<and> (\<forall>full. export_public_tree C s key = Ok full \<longrightarrow> visible_labels_in_public_tree full [label] = V)"
proof -
  let ?rows = "key_node_rows s key" and ?V = "sees (label_rel s key) (set (list_established s key)) (own_view (label_rel s key) label)"
  obtain T where T: "load s key = Ok T" using load_ok [OF assms(1,2)] by blast
  note al = arena_labels_eq [OF T assms(1)]
  obtain P C' where ix: "index_nodes (arena_labels T) [] [] = (P, C')" by (cases "index_nodes (arena_labels T) [] []")
  have d: "distinct (map fst (arena_labels T))" unfolding al(1) by (rule load_OkD(4) [OF T assms(1)])
  have "acyclic (parent_rel (arena_labels T))" unfolding al(2) by (rule label_rel_acyclic [OF assms(2)])
  note vis = visible_from_indexed [OF d ix this]
  have mem: "label \<in> fst ` set (arena_labels T)" using assms(3) al(1) by (metis set_map)
  have V: "visible_from_maps P C' (list_established s key) [label] = ?V" using vis mem unfolding al(2) by simp
  obtain i where i: "index_by_label T label = Ok i"
    using load_OkD(2) [OF T assms(1)] assms(3) by (auto simp: index_by_label_def label_map_def)
  then have "kn_label (kt_nodes T ! i) = label"
    using index_by_label_row [OF T assms(1) i] load_OkD(1) [OF T assms(1)] by (metis arena_node_fields(2))
  then have "visible_labels s key label = Ok ?V"
    using T i ix V by (simp add: visible_labels_def visible_labels_for_links_def list_bridges_def)
  moreover have "visible_labels_in_public_tree full [label] = ?V" if "export_public_tree C s key = Ok full" for full
    using exported_labels [OF that T] ix V by (simp add: visible_labels_in_public_tree_def list_bridges_def)
  ultimately show ?thesis by blast
qed

lemma own_viewI: "(l, p) \<in> R \<Longrightarrow> (p, g) \<in> R \<Longrightarrow> (c, p) \<in> R \<Longrightarrow> {l, p, g, c} \<subseteq> own_view R l"
  unfolding own_view_def by (blast intro: rtrancl_into_rtrancl)

theorem visible_exact_witness:
  "\<exists>V. visible_labels demo_split_store 1 ''bob'' = Ok V \<and> {''bob'', ''dept'', ''root'', ''cyd''} \<subseteq> V"
proof -
  note rows = demo_rows [folded demo_split_store_def]
  have bob: "''bob'' \<in> n_label ` set (key_node_rows demo_split_store 1)"
    unfolding demo_key_rows rows by simp
  have ok: "tree_rows_ok (key_node_rows demo_split_store 1)"
    unfolding demo_key_rows by (rule demo_arena_rows_ok)
  let ?R = "node_rows demo_split_store"
  have "(n_label (?R ! 3), n_label (?R ! 2)) \<in> label_rel demo_split_store 1"
      "(n_label (?R ! 4), n_label (?R ! 2)) \<in> label_rel demo_split_store 1"
      "(n_label (?R ! 2), n_label (?R ! 0)) \<in> label_rel demo_split_store 1"
    unfolding demo_key_rows [symmetric] by (rule label_rel_nth; simp add: demo_key_rows rows)+
  then have R: "(''bob'', ''dept'') \<in> label_rel demo_split_store 1" "(''cyd'', ''dept'') \<in> label_rel demo_split_store 1"
    "(''dept'', ''root'') \<in> label_rel demo_split_store 1"
    unfolding rows by simp_all
  obtain V where V: "visible_labels demo_split_store 1 ''bob'' = Ok V"
    "V = sees (label_rel demo_split_store 1) (set (list_established demo_split_store 1))
       (own_view (label_rel demo_split_store 1) ''bob'')"
    using visible_exact [OF demo_ids_ok ok bob, of undefined] by blast
  have "{''bob'', ''dept'', ''root'', ''cyd''} \<subseteq> own_view (label_rel demo_split_store 1) ''bob''"
    by (rule own_viewI [OF R(1,3,2)])
  then have "{''bob'', ''dept'', ''root'', ''cyd''} \<subseteq> V"
    unfolding V(2) by (rule order_trans) (rule subsetI, rule own)
  with V(1) show ?thesis by (intro exI conjI)
qed

text \<open>
  With several seeds the order counts: a seed below another one makes the labels between them
  visible first, and the walk down from the upper seed stops at labels it finds visible.
\<close>

definition chain_tree :: public_tree where
  "chain_tree = \<lparr> pt_label = ''t'', pt_generation = 1,
     pt_nodes = map (\<lambda>(l, p). \<lparr> pn_label = l, pn_parent = p, pn_threshold = Some 1, pn_active = True, pn_fp = None, pn_pk = None \<rparr>)
       [(''r'', None), (''a'', Some ''r''), (''b'', Some ''a''), (''c'', Some ''a''), (''l'', Some ''b'')],
     pt_whitelist = [], pt_links = [] \<rparr>"

lemma visible_seed_order:
  "''c'' \<in> visible_labels_in_public_tree chain_tree [''r'', ''l'']"
  "''c'' \<notin> visible_labels_in_public_tree chain_tree [''l'', ''r'']"
  by (simp_all add: visible_labels_in_public_tree_def chain_tree_def add_child_def visible_from_maps_def see_seed_def
    walk_ancestors_def add_descendants_def grow_links.simps)

end
