(* ===== verification/TreePublish.thy ===== *)
theory TreePublish
  imports TreeVisible Keys
begin

text \<open>
  \<open>apply_public_tree\<close> and \<open>project_local\<close> of \<open>src/key_tree.rs\<close>: merge a published slice of a
  tree into this store, dropping the nodes the slice does not have, and keep only the part of a
  tree one person needs.
\<close>

section \<open>Statements on \<open>key_nodes\<close>\<close>

text \<open>
  \<open>ON DELETE CASCADE\<close>: the rows deleted with a set of rows, their descendants. As many rounds as
  there are rows reach them all.
\<close>

fun doomed :: "nat \<Rightarrow> node_row list \<Rightarrow> int set \<Rightarrow> int set" where
  "doomed 0 rows D = D"
| "doomed (Suc k) rows D =
     doomed k rows (D \<union> set (map n_id (filter (\<lambda>r. case n_parent r of None \<Rightarrow> False | Some p \<Rightarrow> p \<in> D) rows)))"

definition delete_nodes :: "(node_row \<Rightarrow> bool) \<Rightarrow> (store, unit) op" where
  "delete_nodes P = modify (\<lambda>s.
     let D = doomed (length (node_rows s)) (node_rows s) (set (map n_id (filter P (node_rows s)))) in
     s\<lparr>node_rows := filter (\<lambda>r. n_id r \<notin> D) (node_rows s),
       bridge_rows := filter (\<lambda>(i, _). i \<notin> D) (bridge_rows s),
       link_rows := filter (\<lambda>(i, j). i \<notin> D \<and> j \<notin> D) (link_rows s)\<rparr>)"

text \<open>An \<open>UPDATE\<close> of one row by id, checked as an insert is.\<close>

definition update_node :: "int \<Rightarrow> (node_row \<Rightarrow> node_row) \<Rightarrow> (store, unit) op" where
  "update_node i f = (\<lambda>s.
     if \<exists>r \<in> set (node_rows s). n_id r = i \<and> \<not> node_row_allowed s (f r) then (Err (Db ConstraintViolation), s)
     else (Ok (), s\<lparr>node_rows := map (\<lambda>r. if n_id r = i then f r else r) (node_rows s)\<rparr>))"

section \<open>Applying one node\<close>

definition public_hw :: "crates \<Rightarrow> public_node \<Rightarrow> (store, int option) op" where
  "public_hw C n =
     (case (pn_pk n, pn_fp n) of
        (Some hex_pk, expected) \<Rightarrow>
          bind (lift_result (ok_or InvalidPublicKey (hex_decode C hex_pk))) (\<lambda>pk.
          bind (get_or_register_encryption C (pn_label n) pk) (\<lambda>i.
          case expected of
            None \<Rightarrow> ret (Some i)
          | Some fp \<Rightarrow>
              bind (asks (\<lambda>s. get_key s i)) (\<lambda>k.
              if hw_fp k \<noteq> fp then fail InvalidPublicKey else ret (Some i))))
      | (None, Some fp) \<Rightarrow> bind (asks (\<lambda>s. get_key_by_fingerprint s fp)) (\<lambda>k. ret (Some (hw_id k)))
      | (None, None) \<Rightarrow> ret None)"

text \<open>
  The \<open>UPDATE\<close> with its two \<open>CASE\<close> expressions: another hardware key clears the share, and a
  leaf that holds a share does not lose its key.
\<close>

definition merge_row :: "int option \<Rightarrow> u8 option \<Rightarrow> int option \<Rightarrow> bool \<Rightarrow> node_row \<Rightarrow> node_row" where
  "merge_row parent threshold h active r = r\<lparr>
     n_parent := parent,
     n_threshold := map_option uint threshold,
     n_hw := (if n_wrapped r \<noteq> None \<and> h = None then n_hw r else h),
     n_wrapped := (if h \<noteq> None \<and> h \<noteq> n_hw r then None else n_wrapped r),
     n_active := active\<rparr>"

definition put_public_row :: "int \<Rightarrow> public_node \<Rightarrow> int option \<Rightarrow> int option \<Rightarrow> (store, unit) op" where
  "put_public_row key n parent h =
     bind (asks (\<lambda>s. Ok (node_row_for_label s key (pn_label n)))) (\<lambda>existing.
     case existing of
       Some r \<Rightarrow> update_node (n_id r) (merge_row parent (pn_threshold n) h (pn_active n))
     | None \<Rightarrow>
         bind (insert_node (\<lambda>i. \<lparr> n_id = i, n_key = key, n_parent = parent, n_label = pn_label n,
           n_threshold = map_option uint (pn_threshold n), n_hw = h, n_wrapped = None, n_active = pn_active n \<rparr>))
           (\<lambda>_. ret ()))"

definition apply_public_node :: "crates \<Rightarrow> int \<Rightarrow> public_node \<Rightarrow> (store, unit) op" where
  "apply_public_node C key n =
     bind (case pn_parent n of None \<Rightarrow> ret None
           | Some l \<Rightarrow> bind (asks (\<lambda>s. node_id_for_label s key l)) (\<lambda>i. ret (Some i))) (\<lambda>parent.
     bind (public_hw C n) (\<lambda>h.
     if pn_threshold n = None \<and> h = None then fail InvalidTreeSpec else put_public_row key n parent h))"

section \<open>Applying a slice\<close>

text \<open>
  One pass over the pending nodes: those whose parent is in the slice and not applied yet are
  kept for the next pass.
\<close>

fun apply_pass :: "crates \<Rightarrow> int \<Rightarrow> string set \<Rightarrow> public_node list \<Rightarrow> string set
    \<Rightarrow> (store, public_node list \<times> string set) op" where
  "apply_pass C key remaining [] ready = ret ([], ready)"
| "apply_pass C key remaining (n # ns) ready =
     (if (case pn_parent n of None \<Rightarrow> False | Some p \<Rightarrow> p \<in> remaining \<and> p \<notin> ready)
      then bind (apply_pass C key remaining ns ready) (\<lambda>(later, ready). ret (n # later, ready))
      else bind (apply_public_node C key n) (\<lambda>_. apply_pass C key remaining ns (insert (pn_label n) ready)))"

text \<open>A pass that leaves every node pending ends the loop, so one round per node is enough.\<close>

fun apply_passes :: "nat \<Rightarrow> crates \<Rightarrow> int \<Rightarrow> string set \<Rightarrow> public_node list \<Rightarrow> string set \<Rightarrow> (store, unit) op" where
  "apply_passes 0 C key remaining pending ready = ret ()"
| "apply_passes (Suc k) C key remaining pending ready =
     (if pending = [] then ret ()
      else bind (apply_pass C key remaining pending ready) (\<lambda>(later, ready).
        if length later = length pending then fail InvalidTreeSpec
        else apply_passes k C key remaining later ready))"

definition public_key_row :: "int option \<Rightarrow> string \<Rightarrow> (store, int) op" where
  "public_key_row key label =
     (case key of
        Some i \<Rightarrow>
          bind (asks (\<lambda>s. ok_or TreeNotFound (key_table.row_of s i))) (\<lambda>k.
          if k_label k \<noteq> label then fail InvalidTreeSpec else ret i)
      | None \<Rightarrow>
          bind (asks (\<lambda>s. Ok (find (\<lambda>k. k_label k = label) (key_rows s)))) (\<lambda>existing.
          case existing of
            Some k \<Rightarrow> ret (k_id k)
          | None \<Rightarrow> insert_key_row (\<lambda>i. \<lparr> k_id = i, k_label = label, k_generation = 1 \<rparr>)))"

definition drop_unlisted :: "int \<Rightarrow> string set \<Rightarrow> (store, unit) op" where
  "drop_unlisted key remaining =
     bind (asks (\<lambda>s. Ok (map n_label (key_node_rows s key)))) (\<lambda>labels.
     for_each (\<lambda>l. if l \<in> remaining then ret () else delete_nodes (\<lambda>r. n_key r = key \<and> n_label r = l)) labels)"

definition reset_bindings :: "int \<Rightarrow> (store, unit) op" where
  "reset_bindings key = modify (\<lambda>s.
     let ids = n_id ` set (key_node_rows s key); labels = n_label ` set (key_node_rows s key) in
     s\<lparr>bridge_rows := filter (\<lambda>(i, p). \<not> (i \<in> ids \<and> p \<in> labels)) (bridge_rows s),
       link_rows := filter (\<lambda>(i, j). \<not> (i \<in> ids \<and> j \<in> ids)) (link_rows s)\<rparr>)"

definition set_generation :: "int \<Rightarrow> u32 \<Rightarrow> (store, unit) op" where
  "set_generation key g = (\<lambda>s.
     if key \<in> k_id ` set (key_rows s) \<and> g = 0 then (Err (Db ConstraintViolation), s)
     else (Ok (), s\<lparr>key_rows := map (\<lambda>k. if k_id k = key then k\<lparr>k_generation := uint g\<rparr> else k) (key_rows s)\<rparr>))"

definition apply_public_tree_inner :: "crates \<Rightarrow> int option \<Rightarrow> public_tree \<Rightarrow> (store, int) op" where
  "apply_public_tree_inner C key snapshot =
     bind (public_key_row key (pt_label snapshot)) (\<lambda>key.
     bind (asks (\<lambda>s. query_row (map_option k_generation (key_table.row_of s key)))) (\<lambda>stored.
     bind (guard (\<not> uint (pt_generation snapshot) < stored) StalePublicTree) (\<lambda>_.
     let remaining = set (map pn_label (pt_nodes snapshot)) in
     bind (guard (card remaining = length (pt_nodes snapshot)) DuplicateNodeLabel) (\<lambda>_.
     bind (apply_passes (length (pt_nodes snapshot)) C key remaining (pt_nodes snapshot) {}) (\<lambda>_.
     bind (drop_unlisted key remaining) (\<lambda>_.
     bind (reset_bindings key) (\<lambda>_.
     bind (for_each (\<lambda>(a, b). allow_bridge key a b) (pt_whitelist snapshot)) (\<lambda>_.
     bind (for_each (\<lambda>(a, b). add_bridge key a b) (pt_links snapshot)) (\<lambda>_.
     bind (set_generation key (pt_generation snapshot)) (\<lambda>_. ret key))))))))))"

definition apply_public_tree :: "crates \<Rightarrow> int option \<Rightarrow> public_tree \<Rightarrow> (store, int) op" where
  "apply_public_tree C key snapshot =
     (if pt_nodes snapshot = [] then fail InvalidTreeSpec
      else with_immediate_transaction (apply_public_tree_inner C key snapshot))"

definition project_local :: "crates \<Rightarrow> int \<Rightarrow> string \<Rightarrow> (store, string set) op" where
  "project_local C key label =
     bind (asks (\<lambda>s. export_public_tree C s key)) (\<lambda>full.
     bind (asks (\<lambda>s. visible_labels s key label)) (\<lambda>visible.
     bind (apply_public_tree C (Some key) (filter_public_tree full visible)) (\<lambda>_. ret visible)))"

section \<open>Shares are kept\<close>

text \<open>What may happen to a row's share: it stays, or it is cleared with the row's hardware key.\<close>

definition keeps_share :: "node_row \<Rightarrow> node_row \<Rightarrow> bool" where
  "keeps_share r r' \<longleftrightarrow> n_key r' = n_key r \<and> n_label r' = n_label r
     \<and> (n_wrapped r' = n_wrapped r \<or> (n_wrapped r' = None \<and> n_hw r' \<noteq> n_hw r))"

text \<open>
  While the labels \<open>ready\<close> of tree \<open>key\<close> have been applied, a row of another label or tree is
  untouched, and a row that is there now either was there before or is new.
\<close>

definition merged :: "store \<Rightarrow> int \<Rightarrow> string set \<Rightarrow> store \<Rightarrow> bool" where
  "merged s key ready t \<longleftrightarrow> (\<forall>r \<in> set (node_rows s). \<forall>r' \<in> set (node_rows t). n_id r' = n_id r \<longrightarrow>
     (if n_key r = key \<and> n_label r \<in> ready then keeps_share r r' else r' = r))"

lemma keeps_share_refl: "keeps_share r r" by (simp add: keeps_share_def)

lemma keeps_share_merge: "keeps_share r (merge_row p t h a r)"
  by (auto simp: keeps_share_def merge_row_def)

lemma merged_refl:
  assumes "store_ids_ok s" shows "merged s key ready s"
  unfolding merged_def
proof (intro ballI impI)
  fix r r' assume "r \<in> set (node_rows s)" "r' \<in> set (node_rows s)" "n_id r' = n_id r"
  then have "r' = r" using ids_unique [OF assms] by blast
  then show "if n_key r = key \<and> n_label r \<in> ready then keeps_share r r' else r' = r" by (simp add: keeps_share_refl)
qed

lemma merged_subset:
  "merged s key ready t \<Longrightarrow> set (node_rows u) \<subseteq> set (node_rows t) \<Longrightarrow> merged s key ready u"
  by (auto simp: merged_def)

text \<open>Ids that were there stay, so an inserted row is new for \<open>s\<close> as well.\<close>

definition ids_from :: "store \<Rightarrow> store \<Rightarrow> bool" where
  "ids_from s t \<longleftrightarrow> n_id ` set (node_rows s) \<subseteq> n_id ` set (node_rows t) \<and> store_ids_ok t"

lemma update_node_cases:
  assumes "update_node i f t = (Ok (), u)"
  shows "u = t\<lparr>node_rows := map (\<lambda>r. if n_id r = i then f r else r) (node_rows t)\<rparr>"
  using assms by (auto simp: update_node_def split: if_splits)

lemma insert_node_new:
  assumes "insert_node mk t = (Ok i, u)" "n_id (mk i) = i"
  shows "\<forall>r \<in> set (node_rows t). n_id r \<noteq> i" "node_rows u = node_rows t @ [mk i]"
proof -
  have i: "i = next_rowid (map n_id (node_rows t))" "u = t\<lparr>node_rows := node_rows t @ [mk i]\<rparr>"
    using assms by (auto simp: insert_node_run Let_def split: if_splits)
  show "\<forall>r \<in> set (node_rows t). n_id r \<noteq> i"
    using next_rowid_greater [of _ "map n_id (node_rows t)"] unfolding i(1) by force
  show "node_rows u = node_rows t @ [mk i]" unfolding i(2) by simp
qed

lemma keeps_get_or_register:
  assumes "\<And>t h. P (t\<lparr>hw_rows := h\<rparr>) = P t"
  shows "keeps P (get_or_register_encryption C l pk)"
  unfolding get_or_register_encryption_def register_key_def insert_hw_def insert_row_def
  using assms by (auto simp: keeps_def Let_def split: sum.splits)

lemma keeps_public_hw:
  assumes "\<And>t h. P (t\<lparr>hw_rows := h\<rparr>) = P t"
  shows "keeps P (public_hw C n)"
  unfolding public_hw_def
  by (cases "pn_pk n"; cases "pn_fp n") (auto intro!: keeps_intros keeps_get_or_register [OF assms])

lemma public_hw_nodes: "public_hw C n t = (r, u) \<Longrightarrow> node_rows u = node_rows t"
  using keepsD [OF keeps_public_hw [of "\<lambda>v. node_rows v = node_rows t" C n], of t] by simp

lemma mergedD:
  assumes "merged s key ready t" "r \<in> set (node_rows s)" "r' \<in> set (node_rows t)" "n_id r' = n_id r"
  shows "n_key r' = n_key r" "n_label r' = n_label r" "keeps_share r r'"
    and "n_key r \<noteq> key \<or> n_label r \<notin> ready \<Longrightarrow> r' = r"
  using assms by (auto simp: merged_def keeps_share_def split: if_splits)

text \<open>Applying a node touches the row of its label only, and only once.\<close>

lemma put_row_merged:
  assumes run: "put_public_row key n parent h t = (Ok (), u)" and m: "merged s key ready t" "ids_from s t"
    and fresh: "pn_label n \<notin> ready"
  shows "merged s key (insert (pn_label n) ready) u \<and> ids_from s u"
proof (cases "node_row_for_label t key (pn_label n)")
  case (Some q)
  let ?g = "merge_row parent (pn_threshold n) h (pn_active n)"
  let ?f = "\<lambda>r. if n_id r = n_id q then ?g r else r"
  have q: "q \<in> set (node_rows t)" "n_key q = key" "n_label q = pn_label n"
    using Some by (auto simp: node_row_for_label_def find_Some_iff)
  have "update_node (n_id q) ?g t = (Ok (), u)" using run Some by (simp add: put_public_row_def bind_run)
  from update_node_cases [OF this] have u: "node_rows u = map ?f (node_rows t)" by simp
  have ids: "map n_id (node_rows u) = map n_id (node_rows t)" unfolding u by (simp add: merge_row_def)
  have "merged s key (insert (pn_label n) ready) u"
    unfolding merged_def u set_map
  proof (intro ballI impI, elim imageE)
    fix r r' x assume r: "r \<in> set (node_rows s)" and x: "x \<in> set (node_rows t)" "r' = ?f x" and eq: "n_id r' = n_id r"
    have id: "n_id x = n_id r" using eq x(2) by (simp add: merge_row_def split: if_splits)
    note x_r = mergedD [OF m(1) r x(1) id]
    show "if n_key r = key \<and> n_label r \<in> insert (pn_label n) ready then keeps_share r r' else r' = r"
    proof (cases "n_id x = n_id q")
      case True
      then have "x = q" using ids_unique [of t x q] m(2) x(1) q(1) by (simp add: ids_from_def)
      then have "n_key r = key" "n_label r = pn_label n" using x_r(1,2) q by simp_all
      moreover from this have "x = r" using x_r(4) fresh by simp
      ultimately show ?thesis using x(2) True keeps_share_merge by simp
    next
      case False
      then show ?thesis using x(2) x_r(3,4) by auto
    qed
  qed
  moreover have "ids_from s u" using m(2) ids unfolding ids_from_def store_ids_ok_def by (metis set_map)
  ultimately show ?thesis by blast
next
  case None
  let ?mk = "\<lambda>i. \<lparr> n_id = i, n_key = key, n_parent = parent, n_label = pn_label n,
    n_threshold = map_option uint (pn_threshold n), n_hw = h, n_wrapped = None, n_active = pn_active n \<rparr>"
  from run None obtain i where "insert_node ?mk t = (Ok i, u)"
    by (auto simp: put_public_row_def bind_run split: prod.splits sum.splits)
  from insert_node_new [OF this] have new: "\<forall>r \<in> set (node_rows t). n_id r \<noteq> i" "node_rows u = node_rows t @ [?mk i]" by simp_all
  have i: "\<forall>r \<in> set (node_rows s). n_id r \<noteq> i" using new(1) m(2) by (fastforce simp: ids_from_def)
  have "merged s key (insert (pn_label n) ready) u"
    unfolding merged_def new(2) set_append
  proof (intro ballI impI, elim UnE)
    fix r r' assume r: "r \<in> set (node_rows s)" "r' \<in> set (node_rows t)" "n_id r' = n_id r"
    show "if n_key r = key \<and> n_label r \<in> insert (pn_label n) ready then keeps_share r r' else r' = r"
      using mergedD(3,4) [OF m(1) r] by auto
  qed (use i in auto)
  moreover have "ids_from s u"
    using m(2) new by (auto simp: ids_from_def store_ids_ok_def)
  ultimately show ?thesis by blast
qed

lemma apply_node_merged:
  assumes run: "apply_public_node C key n t = (Ok (), u)" and m: "merged s key ready t" "ids_from s t"
    and fresh: "pn_label n \<notin> ready"
  shows "merged s key (insert (pn_label n) ready) u \<and> ids_from s u"
proof -
  from run obtain parent h v w where v: "node_rows v = node_rows t" "public_hw C n v = (Ok h, w)"
      and put: "put_public_row key n parent h w = (Ok (), u)"
    unfolding apply_public_node_def
    by (elim bind_Ok_elim) (auto split: option.splits if_splits elim!: bind_Ok_elim)
  have w: "node_rows w = node_rows t" using public_hw_nodes [OF v(2)] v(1) by simp
  have "merged s key ready w" "ids_from s w" using m w by (simp_all add: merged_def ids_from_def store_ids_ok_def)
  from put_row_merged [OF put this fresh] show ?thesis .
qed

section \<open>The topology that is stored\<close>

text \<open>A node of the slice as the tree \<open>key\<close> holds it: its own row, under its parent's row.\<close>

definition placed :: "store \<Rightarrow> int \<Rightarrow> public_node \<Rightarrow> bool" where
  "placed t key n \<longleftrightarrow> (\<exists>r. node_row_for_label t key (pn_label n) = Some r
     \<and> n_threshold r = map_option uint (pn_threshold n) \<and> n_active r = pn_active n
     \<and> (case pn_parent n of None \<Rightarrow> n_parent r = None
        | Some p \<Rightarrow> (\<exists>q. node_row_for_label t key p = Some q \<and> n_parent r = Some (n_id q))))"

lemma placed_cong:
  assumes "node_rows u = node_rows t" shows "placed u = placed t"
proof -
  have "node_row_for_label u = node_row_for_label t" by (simp add: node_row_for_label_def fun_eq_iff assms)
  then show ?thesis unfolding placed_def [abs_def] by (simp only:)
qed

lemma lookup_row:
  assumes "node_row_for_label t key l = Some r"
  shows "r \<in> set (node_rows t)" "n_key r = key" "n_label r = l"
  using assms by (auto simp: node_row_for_label_def find_Some_iff)

lemma put_row_lookup:
  assumes run: "put_public_row key n parent h t = (Ok (), u)" and ids: "store_ids_ok t"
  shows "\<exists>r. node_row_for_label u key (pn_label n) = Some r \<and> n_threshold r = map_option uint (pn_threshold n)
      \<and> n_active r = pn_active n \<and> n_parent r = parent"
    and "node_row_for_label t key l = Some r \<Longrightarrow> \<exists>r'. node_row_for_label u key l = Some r' \<and> n_id r' = n_id r"
    and "node_row_for_label t key l = Some r \<Longrightarrow> l \<noteq> pn_label n \<Longrightarrow> node_row_for_label u key l = Some r"
proof -
  have "(\<exists>r. node_row_for_label u key (pn_label n) = Some r \<and> n_threshold r = map_option uint (pn_threshold n)
      \<and> n_active r = pn_active n \<and> n_parent r = parent)
    \<and> (\<forall>l r. node_row_for_label t key l = Some r \<longrightarrow> (\<exists>r'. node_row_for_label u key l = Some r' \<and> n_id r' = n_id r)
        \<and> (l \<noteq> pn_label n \<longrightarrow> node_row_for_label u key l = Some r))"
  proof (cases "node_row_for_label t key (pn_label n)")
    case (Some q)
    let ?g = "merge_row parent (pn_threshold n) h (pn_active n)"
    let ?f = "\<lambda>r. if n_id r = n_id q then ?g r else r"
    note q = lookup_row [OF Some]
    have "update_node (n_id q) ?g t = (Ok (), u)" using run Some by (simp add: put_public_row_def bind_run)
    from update_node_cases [OF this] have u: "node_rows u = map ?f (node_rows t)" by simp
    have look: "node_row_for_label u key l = map_option ?f (node_row_for_label t key l)" for l
      unfolding node_row_for_label_def u by (rule find_cong_map) (simp add: merge_row_def)
    have "?f r = r" if "node_row_for_label t key l = Some r" "l \<noteq> pn_label n" for l r
    proof -
      have "r \<noteq> q" using lookup_row(3) [OF that(1)] q(3) that(2) by auto
      then have "n_id r \<noteq> n_id q" using ids_unique [OF ids lookup_row(1) [OF that(1)] q(1)] by blast
      then show ?thesis by simp
    qed
    then show ?thesis unfolding look by (auto simp: Some merge_row_def)
  next
    case None
    let ?mk = "\<lambda>i. \<lparr> n_id = i, n_key = key, n_parent = parent, n_label = pn_label n,
      n_threshold = map_option uint (pn_threshold n), n_hw = h, n_wrapped = None, n_active = pn_active n \<rparr>"
    from run None obtain i where "insert_node ?mk t = (Ok i, u)"
      by (auto simp: put_public_row_def bind_run split: prod.splits sum.splits)
    from insert_node_new [OF this] have u: "node_rows u = node_rows t @ [?mk i]" by simp
    have look: "node_row_for_label u key l = (case node_row_for_label t key l of Some r \<Rightarrow> Some r
        | None \<Rightarrow> if l = pn_label n then Some (?mk i) else None)" for l
      unfolding node_row_for_label_def u find_append by (auto split: option.splits)
    show ?thesis unfolding look by (auto simp: None)
  qed
  then show "\<exists>r. node_row_for_label u key (pn_label n) = Some r \<and> n_threshold r = map_option uint (pn_threshold n)
      \<and> n_active r = pn_active n \<and> n_parent r = parent"
    "node_row_for_label t key l = Some r \<Longrightarrow> \<exists>r'. node_row_for_label u key l = Some r' \<and> n_id r' = n_id r"
    "node_row_for_label t key l = Some r \<Longrightarrow> l \<noteq> pn_label n \<Longrightarrow> node_row_for_label u key l = Some r" by blast+
qed

lemma apply_node_placed:
  assumes run: "apply_public_node C key n t = (Ok (), u)" and ids: "store_ids_ok t"
  shows "placed u key n" and "placed t key m \<Longrightarrow> pn_label m \<noteq> pn_label n \<Longrightarrow> placed u key m"
proof -
  from run obtain parent h w where hw: "public_hw C n t = (Ok h, w)" and put: "put_public_row key n parent h w = (Ok (), u)"
    and parent: "case pn_parent n of None \<Rightarrow> parent = None
      | Some p \<Rightarrow> \<exists>q. node_row_for_label t key p = Some q \<and> parent = Some (n_id q)"
    unfolding apply_public_node_def
    by (elim bind_Ok_elim) (auto simp: node_id_for_label_def split: option.splits if_splits elim!: bind_Ok_elim)
  have w: "node_rows w = node_rows t" by (rule public_hw_nodes [OF hw])
  have look: "node_row_for_label w = node_row_for_label t" by (simp add: node_row_for_label_def w fun_eq_iff)
  have "store_ids_ok w" using ids w by (simp add: store_ids_ok_def)
  note put = put_row_lookup [OF put this, unfolded look]
  show "placed u key n"
    using put(1) parent put(2) unfolding placed_def by (fastforce split: option.splits)
  assume m: "placed t key m" "pn_label m \<noteq> pn_label n"
  then show "placed u key m"
    using put(2,3) unfolding placed_def by (fastforce split: option.splits)
qed

text \<open>One pass, then all of them.\<close>

lemma apply_pass_Ok:
  assumes "apply_pass C key remaining ns ready t = (Ok (later, ready'), u)"
    and "merged s key ready t" "ids_from s t" "distinct (map pn_label ns)" "pn_label ` set ns \<inter> ready = {}"
  shows "merged s key ready' u \<and> ids_from s u \<and> ready' = ready \<union> (pn_label ` set ns - pn_label ` set later)
    \<and> set later \<subseteq> set ns \<and> distinct (map pn_label later) \<and> pn_label ` set later \<inter> ready' = {} \<and> length later \<le> length ns
    \<and> (\<forall>m. placed t key m \<and> pn_label m \<notin> pn_label ` set ns \<longrightarrow> placed u key m) \<and> (\<forall>n \<in> set ns - set later. placed u key n)"
  using assms
proof (induction ns arbitrary: ready t later)
  case (Cons n ns)
  show ?case
  proof (cases "case pn_parent n of None \<Rightarrow> False | Some p \<Rightarrow> p \<in> remaining \<and> p \<notin> ready")
    case True
    from Cons.prems(1) True obtain later1 where run: "apply_pass C key remaining ns ready t = (Ok (later1, ready'), u)"
      and l: "later = n # later1" by (auto elim!: bind_Ok_elim split: prod.splits)
    have "distinct (map pn_label ns)" "pn_label ` set ns \<inter> ready = {}" using Cons.prems(4,5) by auto
    note IH = Cons.IH [OF run Cons.prems(2,3) this]
    have n: "pn_label n \<notin> pn_label ` set ns" "pn_label n \<notin> ready" using Cons.prems(4,5) by auto
    moreover have "pn_label ` set later1 \<subseteq> pn_label ` set ns" using IH by blast
    ultimately show ?thesis unfolding l using IH by (simp add: insert_Diff_if) blast
  next
    case False
    from Cons.prems(1) False obtain v where 1: "apply_public_node C key n t = (Ok (), v)"
      and run: "apply_pass C key remaining ns (insert (pn_label n) ready) v = (Ok (later, ready'), u)"
      by (auto elim!: bind_Ok_elim)
    have n: "pn_label n \<notin> pn_label ` set ns" "pn_label n \<notin> ready" using Cons.prems(4,5) by auto
    have t: "store_ids_ok t" using Cons.prems(3) by (simp add: ids_from_def)
    note m = apply_node_merged [OF 1 Cons.prems(2,3) n(2)] and pl = apply_node_placed [OF 1 t]
    have "distinct (map pn_label ns)" "pn_label ` set ns \<inter> insert (pn_label n) ready = {}" using Cons.prems(4,5) n by auto
    note IH = Cons.IH [OF run m [THEN conjunct1] m [THEN conjunct2] this]
    have "placed u key n" using IH pl(1) n(1) by blast
    moreover have "pn_label n \<notin> pn_label ` set later" using IH n(1) by blast
    moreover have "placed u key m" if "placed t key m" "pn_label m \<notin> pn_label ` set (n # ns)" for m
      using IH pl(2) [OF that(1)] that(2) by auto
    ultimately show ?thesis using IH by auto
  qed
qed auto

lemma apply_passes_Ok:
  assumes "apply_passes k C key remaining pending ready t = (Ok (), u)" "length pending \<le> k"
    and "merged s key ready t" "ids_from s t" "distinct (map pn_label pending)" "pn_label ` set pending \<inter> ready = {}"
  shows "merged s key (ready \<union> pn_label ` set pending) u \<and> ids_from s u \<and> (\<forall>n \<in> set pending. placed u key n)
    \<and> (\<forall>m. placed t key m \<and> pn_label m \<notin> pn_label ` set pending \<longrightarrow> placed u key m)"
  using assms
proof (induction k arbitrary: pending ready t)
  case (Suc k)
  show ?case
  proof (cases "pending = []")
    case False
    from Suc.prems(1) False obtain later ready' v where 1: "apply_pass C key remaining pending ready t = (Ok (later, ready'), v)"
      and ne: "length later \<noteq> length pending" and run: "apply_passes k C key remaining later ready' v = (Ok (), u)"
      by (auto elim!: bind_Ok_elim split: if_splits)
    note p = apply_pass_Ok [OF 1 Suc.prems(3-6)]
    have "length later \<le> k" using p ne Suc.prems(2) by linarith
    note IH = Suc.IH [OF run this p [THEN conjunct1] p [THEN conjunct2, THEN conjunct1]]
    have IH: "merged s key (ready' \<union> pn_label ` set later) u" "ids_from s u" "\<forall>n \<in> set later. placed u key n"
      "\<forall>m. placed v key m \<and> pn_label m \<notin> pn_label ` set later \<longrightarrow> placed u key m" using IH p by blast+
    have "ready' \<union> pn_label ` set later = ready \<union> pn_label ` set pending" using p by blast
    moreover have "placed u key n" if n: "n \<in> set pending" for n
    proof (cases "n \<in> set later")
      case False
      have "inj_on pn_label (set pending)" using Suc.prems(5) by (simp add: distinct_map)
      moreover have "set later \<subseteq> set pending" using p by blast
      ultimately have "pn_label n \<notin> pn_label ` set later"
        using inj_on_image_mem_iff [of pn_label "set pending" n "set later"] n False by blast
      then show ?thesis using IH(4) p n False by blast
    qed (use IH(3) in blast)
    moreover have "placed u key m" if "placed t key m" "pn_label m \<notin> pn_label ` set pending" for m
    proof -
      have "placed v key m" using p that by blast
      moreover have "pn_label m \<notin> pn_label ` set later" using p that(2) by blast
      ultimately show ?thesis using IH(4) by blast
    qed
    ultimately show ?thesis using IH(1,2) by simp
  qed (use Suc.prems in simp)
qed simp

section \<open>Dropping what the slice does not have\<close>

lemma doomed_mono: "D \<subseteq> doomed k rows D"
  by (induction k rows D rule: doomed.induct) auto

lemma doomed_avoids:
  assumes "\<And>r p. r \<in> set rows \<Longrightarrow> n_id r \<in> S \<Longrightarrow> n_parent r = Some p \<Longrightarrow> p \<in> S" "D \<inter> S = {}"
  shows "doomed k rows D \<inter> S = {}"
  using assms(2)
proof (induction k arbitrary: D)
  case (Suc k)
  have "set (map n_id (filter (\<lambda>r. case n_parent r of None \<Rightarrow> False | Some p \<Rightarrow> p \<in> D) rows)) \<inter> S = {}"
    using assms(1) Suc.prems by (auto split: option.splits)
  then show ?case using Suc.IH Suc.prems by (simp add: Int_Un_distrib2)
qed simp

lemma find_filter_Some: "find P xs = Some x \<Longrightarrow> Q x \<Longrightarrow> find P (filter Q xs) = Some x"
  by (induction xs) (auto split: if_splits)

text \<open>A slice that has the parents of its nodes is closed, and no deletion of another label reaches it.\<close>

definition parents_listed :: "public_node list \<Rightarrow> bool" where
  "parents_listed ns \<longleftrightarrow> (\<forall>n \<in> set ns. \<forall>p. pn_parent n = Some p \<longrightarrow> p \<in> pn_label ` set ns)"

lemma delete_nodes_rows:
  assumes "delete_nodes P t = (r, u)"
  shows "r = Ok ()" "\<exists>D. node_rows u = filter (\<lambda>r. n_id r \<notin> D) (node_rows t)
    \<and> D = doomed (length (node_rows t)) (node_rows t) (set (map n_id (filter P (node_rows t))))"
    "key_rows u = key_rows t"
  using assms by (auto simp: delete_nodes_def Let_def modify_def)

lemma delete_keeps_placed:
  assumes run: "delete_nodes (\<lambda>r. n_key r = key \<and> n_label r = l) t = (Ok (), u)"
    and ids: "store_ids_ok t" and ns: "parents_listed ns" "\<forall>n \<in> set ns. placed t key n" "l \<notin> pn_label ` set ns"
  shows "\<forall>n \<in> set ns. placed u key n"
proof
  define S where "S = {n_id r | r n. n \<in> set ns \<and> node_row_for_label t key (pn_label n) = Some r}"
  obtain D where u: "node_rows u = filter (\<lambda>r. n_id r \<notin> D) (node_rows t)"
    and D: "D = doomed (length (node_rows t)) (node_rows t) (set (map n_id (filter (\<lambda>r. n_key r = key \<and> n_label r = l) (node_rows t))))"
    using delete_nodes_rows(2) [OF run] by blast
  have own: "r = q" if "r \<in> set (node_rows t)" "node_row_for_label t key m = Some q" "n_id r = n_id q" for r q m
    using ids_unique [OF ids that(1) lookup_row(1) [OF that(2)] that(3)] .
  have "D \<inter> S = {}"
    unfolding D
  proof (rule doomed_avoids)
    fix r p assume r: "r \<in> set (node_rows t)" "n_id r \<in> S" "n_parent r = Some p"
    then obtain q n where q: "n \<in> set ns" "node_row_for_label t key (pn_label n) = Some q" "n_id r = n_id q"
      by (auto simp: S_def)
    have "r = q" by (rule own [OF r(1) q(2,3)])
    have "placed t key n" using ns(2) q(1) by blast
    then obtain pl q' where pl: "pn_parent n = Some pl" "node_row_for_label t key pl = Some q'" "p = n_id q'"
      using q(2) r(3) \<open>r = q\<close> by (auto simp: placed_def split: option.splits)
    then have "pl \<in> pn_label ` set ns" using ns(1) q(1) by (auto simp: parents_listed_def)
    then show "p \<in> S" using pl(2,3) by (auto simp: S_def)
  next
    have "x \<notin> S" if x: "x \<in> set (map n_id (filter (\<lambda>r. n_key r = key \<and> n_label r = l) (node_rows t)))" for x
    proof
      assume "x \<in> S"
      then obtain q n where q: "n \<in> set ns" "node_row_for_label t key (pn_label n) = Some q" "x = n_id q" by (auto simp: S_def)
      obtain r where r: "r \<in> set (node_rows t)" "n_label r = l" "n_id r = x" using x by auto
      have "r = q" by (rule own [OF r(1) q(2)]) (use r q in simp)
      then have "l = pn_label n" using r(2) lookup_row(3) [OF q(2)] by simp
      then show False using ns(3) q(1) by blast
    qed
    then show "set (map n_id (filter (\<lambda>r. n_key r = key \<and> n_label r = l) (node_rows t))) \<inter> S = {}" by blast
  qed
  then have look: "node_row_for_label u key (pn_label m) = Some q"
    if "m \<in> set ns" "node_row_for_label t key (pn_label m) = Some q" for m q
    using that find_filter_Some [of _ "node_rows t" q "\<lambda>r. n_id r \<notin> D"]
    by (auto simp: node_row_for_label_def u S_def)
  fix n assume n: "n \<in> set ns"
  have "placed t key n" using ns(2) n by blast
  then obtain r where r: "node_row_for_label t key (pn_label n) = Some r" "n_threshold r = map_option uint (pn_threshold n)"
    "n_active r = pn_active n" and par: "case pn_parent n of None \<Rightarrow> n_parent r = None
        | Some p \<Rightarrow> (\<exists>q. node_row_for_label t key p = Some q \<and> n_parent r = Some (n_id q))"
    by (auto simp: placed_def)
  have "case pn_parent n of None \<Rightarrow> n_parent r = None
        | Some p \<Rightarrow> (\<exists>q. node_row_for_label u key p = Some q \<and> n_parent r = Some (n_id q))"
  proof (cases "pn_parent n")
    case (Some p)
    then obtain q where q: "node_row_for_label t key p = Some q" "n_parent r = Some (n_id q)" using par by auto
    obtain m where "m \<in> set ns" "p = pn_label m" using ns(1) n Some by (auto simp: parents_listed_def)
    then show ?thesis using look q Some by auto
  qed (use par in simp)
  then show "placed u key n" using look [OF n r(1)] r(2,3) by (auto simp: placed_def)
qed

lemma delete_all_unlisted:
  assumes "for_each (\<lambda>l. if l \<in> remaining then ret () else delete_nodes (\<lambda>r. n_key r = key \<and> n_label r = l)) ls t = (Ok (), u)"
    and "store_ids_ok t"
  shows "set (node_rows u) \<subseteq> set (node_rows t) \<and> store_ids_ok u \<and> key_rows u = key_rows t
    \<and> (\<forall>r \<in> set (node_rows u). n_key r = key \<longrightarrow> n_label r \<in> set ls \<longrightarrow> n_label r \<in> remaining)
    \<and> (\<forall>ns. parents_listed ns \<and> pn_label ` set ns \<subseteq> remaining \<and> (\<forall>n \<in> set ns. placed t key n) \<longrightarrow> (\<forall>n \<in> set ns. placed u key n))"
  using assms
proof (induction ls arbitrary: t)
  case (Cons l ls)
  show ?case
  proof (cases "l \<in> remaining")
    case True
    then show ?thesis using Cons by auto
  next
    case False
    from Cons.prems(1) False obtain v where d: "delete_nodes (\<lambda>r. n_key r = key \<and> n_label r = l) t = (Ok (), v)"
      and rest: "for_each (\<lambda>l. if l \<in> remaining then ret () else delete_nodes (\<lambda>r. n_key r = key \<and> n_label r = l)) ls v = (Ok (), u)"
      by (auto elim!: bind_Ok_elim)
    obtain D where v: "node_rows v = filter (\<lambda>r. n_id r \<notin> D) (node_rows t)" "key_rows v = key_rows t"
      and D: "D = doomed (length (node_rows t)) (node_rows t) (set (map n_id (filter (\<lambda>r. n_key r = key \<and> n_label r = l) (node_rows t))))"
      using delete_nodes_rows(2,3) [OF d] by blast
    have gone: "\<not> (n_key r = key \<and> n_label r = l)" if "r \<in> set (node_rows v)" for r
      using that doomed_mono [of "set (map n_id (filter (\<lambda>r. n_key r = key \<and> n_label r = l) (node_rows t)))" "length (node_rows t)" "node_rows t"]
      unfolding v D by auto
    have ids: "store_ids_ok v" using Cons.prems(2) unfolding store_ids_ok_def v(1) by (simp add: distinct_map_filter)
    note IH = Cons.IH [OF rest ids]
    have "\<forall>n \<in> set ns. placed u key n" if "parents_listed ns" "pn_label ` set ns \<subseteq> remaining" "\<forall>n \<in> set ns. placed t key n" for ns
    proof -
      have "l \<notin> pn_label ` set ns" using that(2) False by blast
      from delete_keeps_placed [OF d Cons.prems(2) that(1,3) this] show ?thesis using IH that(1,2) by blast
    qed
    moreover have "set (node_rows u) \<subseteq> set (node_rows t)" using IH v(1) by auto
    moreover have "\<forall>r \<in> set (node_rows u). n_key r = key \<longrightarrow> n_label r \<in> set (l # ls) \<longrightarrow> n_label r \<in> remaining"
      using IH gone by auto
    moreover have "store_ids_ok u" "key_rows u = key_rows t" using IH v(2) by simp_all
    ultimately show ?thesis by blast
  qed
qed simp

section \<open>What applying a slice does\<close>

lemma keeps_put_public:
  assumes "\<And>t f. P (t\<lparr>node_rows := f\<rparr>) = P t"
  shows "keeps P (put_public_row key n parent h)"
  using assms
  by (auto simp: keeps_def put_public_row_def bind_run update_node_def insert_node_run Let_def
    split: option.splits prod.splits sum.splits)

lemma keeps_apply_passes:
  assumes "\<And>t f. P (t\<lparr>node_rows := f\<rparr>) = P t" "\<And>t f. P (t\<lparr>hw_rows := f\<rparr>) = P t"
  shows "keeps P (apply_passes k C key remaining pending ready)"
proof -
  have node: "keeps P (apply_public_node C key n)" for n
    unfolding apply_public_node_def
    by (intro keeps_intros keeps_put_public keeps_public_hw assms)
  have pass: "keeps P (apply_pass C key remaining ns ready)" for ns ready
    by (induction ns arbitrary: ready) (auto intro!: keeps_intros node split: prod.splits)
  show ?thesis
    by (induction k arbitrary: pending ready) (auto intro!: keeps_intros pass split: prod.splits)
qed

definition rows_same :: "store \<Rightarrow> store \<Rightarrow> bool" where
  "rows_same s t \<longleftrightarrow> node_rows t = node_rows s \<and> key_rows t = key_rows s"

lemma keeps_edges:
  "keeps (rows_same s) (reset_bindings key)" "keeps (rows_same s) (allow_bridge key a b)" "keeps (rows_same s) (add_bridge key a b)"
  unfolding reset_bindings_def allow_bridge_def add_bridge_def put_bridge_def put_link_def Let_def
  by (auto intro!: keeps_intros simp: rows_same_def split: prod.splits)

lemma public_key_row_Ok:
  assumes run: "public_key_row key0 l s = (Ok key, t)" and ids: "distinct (map k_id (key_rows s))"
  shows "node_rows t = node_rows s" "\<exists>k. key_table.row_of t key = Some k \<and> k_label k = l"
    and "key_table.row_of s key = Some k \<Longrightarrow> key_table.row_of t key = Some k"
proof -
  have "node_rows t = node_rows s \<and> (\<exists>k. key_table.row_of t key = Some k \<and> k_label k = l)
     \<and> (\<forall>k. key_table.row_of s key = Some k \<longrightarrow> key_table.row_of t key = Some k)"
  proof (cases key0)
    case (Some i)
    then show ?thesis using run by (auto simp: public_key_row_def elim!: bind_Ok_elim split: if_splits)
  next
    case None
    show ?thesis
    proof (cases "find (\<lambda>k. k_label k = l) (key_rows s)")
      case (Some k)
      then have "k \<in> set (key_rows s)" "k_label k = l" by (auto simp: find_Some_iff)
      moreover have "t = s" "key = k_id k" using run None Some by (auto simp: public_key_row_def bind_run)
      ultimately show ?thesis using find_unique [OF ids, of k] by (auto simp: key_table.row_of_def)
    next
      case none: None
      let ?mk = "\<lambda>i. \<lparr> k_id = i, k_label = l, k_generation = 1 \<rparr>"
      have ins: "insert_key_row ?mk s = (Ok key, t)" using run None none by (simp add: public_key_row_def bind_run)
      have "node_rows t = node_rows s" using ins by (auto simp: insert_key_row_run Let_def)
      moreover have "key_table.row_of t key = Some (?mk key)" by (rule key_table.row_of_new [OF ins]) simp
      moreover have "key_table.row_of s key \<noteq> Some k" for k
        using key_table.ins_fresh [OF ins, of k] key_table.row_of_SomeD [of s key k] by auto
      ultimately show ?thesis by auto
    qed
  qed
  then show "node_rows t = node_rows s" "\<exists>k. key_table.row_of t key = Some k \<and> k_label k = l"
    "key_table.row_of s key = Some k \<Longrightarrow> key_table.row_of t key = Some k" by blast+
qed

lemma drop_unlisted_ids: "drop_unlisted key remaining t = (Ok (), u) \<Longrightarrow> store_ids_ok t \<Longrightarrow> store_ids_ok u"
  using delete_all_unlisted [of remaining key "map n_label (key_node_rows t key)" t u]
  by (simp add: drop_unlisted_def bind_run)

lemma drop_unlisted_Ok:
  assumes "drop_unlisted key remaining t = (Ok (), u)" "store_ids_ok t"
  shows "set (node_rows u) \<subseteq> set (node_rows t)" "key_rows u = key_rows t"
    "n_label ` set (key_node_rows u key) \<subseteq> remaining"
    "parents_listed ns \<Longrightarrow> pn_label ` set ns \<subseteq> remaining \<Longrightarrow> \<forall>n \<in> set ns. placed t key n \<Longrightarrow> \<forall>n \<in> set ns. placed u key n"
proof -
  have "for_each (\<lambda>l. if l \<in> remaining then ret () else delete_nodes (\<lambda>r. n_key r = key \<and> n_label r = l))
      (map n_label (key_node_rows t key)) t = (Ok (), u)"
    using assms(1) by (simp add: drop_unlisted_def bind_run)
  note d = delete_all_unlisted [OF this assms(2)]
  then show sub: "set (node_rows u) \<subseteq> set (node_rows t)" and "key_rows u = key_rows t" by blast+
  show "n_label ` set (key_node_rows u key) \<subseteq> remaining"
    using d sub by (fastforce simp: key_node_rows_def)
  show "parents_listed ns \<Longrightarrow> pn_label ` set ns \<subseteq> remaining \<Longrightarrow> \<forall>n \<in> set ns. placed t key n \<Longrightarrow> \<forall>n \<in> set ns. placed u key n"
    using d by blast
qed

section \<open>What is left alone\<close>

text \<open>
  The nodes of the other trees, and everything a statement on one tree must leave as it is: the
  rows of the other trees, their whitelist and links, the other tree records, the tables that
  are not about trees. Hardware keys are only added.
\<close>

definition foreign_ids :: "store \<Rightarrow> int \<Rightarrow> int set" where
  "foreign_ids s key = n_id ` {r \<in> set (node_rows s). n_key r \<noteq> key}"

definition other_tables :: "store \<Rightarrow> store" where
  "other_tables s = s\<lparr>hw_rows := [], key_rows := [], node_rows := [], bridge_rows := [], link_rows := []\<rparr>"

definition same_nodes :: "store \<Rightarrow> int \<Rightarrow> store \<Rightarrow> bool" where
  "same_nodes s key t \<longleftrightarrow> filter (\<lambda>r. n_key r \<noteq> key) (node_rows t) = filter (\<lambda>r. n_key r \<noteq> key) (node_rows s)"

definition same_bindings :: "store \<Rightarrow> int \<Rightarrow> store \<Rightarrow> bool" where
  "same_bindings s key t \<longleftrightarrow>
     filter (\<lambda>(i, p). i \<in> foreign_ids s key) (bridge_rows t) = filter (\<lambda>(i, p). i \<in> foreign_ids s key) (bridge_rows s)
     \<and> filter (\<lambda>(i, j). i \<in> foreign_ids s key \<and> j \<in> foreign_ids s key) (link_rows t)
       = filter (\<lambda>(i, j). i \<in> foreign_ids s key \<and> j \<in> foreign_ids s key) (link_rows s)"

definition others_kept :: "store \<Rightarrow> int \<Rightarrow> store \<Rightarrow> bool" where
  "others_kept s key t \<longleftrightarrow> same_nodes s key t \<and> same_bindings s key t
     \<and> filter (\<lambda>k. k_id k \<noteq> key) (key_rows t) = filter (\<lambda>k. k_id k \<noteq> key) (key_rows s)
     \<and> (\<exists>h. hw_rows t = hw_rows s @ h) \<and> other_tables t = other_tables s"

text \<open>A node's parent is a row of its own tree; after a deletion, if it is a row at all.\<close>

definition parents_inside :: "store \<Rightarrow> bool" where
  "parents_inside s \<longleftrightarrow> (\<forall>r \<in> set (node_rows s). \<forall>p. n_parent r = Some p \<longrightarrow>
     (\<exists>q \<in> set (node_rows s). n_id q = p \<and> n_key q = n_key r))"

definition parents_apart :: "store \<Rightarrow> bool" where
  "parents_apart s \<longleftrightarrow> (\<forall>r \<in> set (node_rows s). \<forall>q \<in> set (node_rows s). n_parent r = Some (n_id q) \<longrightarrow> n_key q = n_key r)"

lemma parents_inside_apart: "store_ids_ok s \<Longrightarrow> parents_inside s \<Longrightarrow> parents_apart s"
  unfolding parents_inside_def parents_apart_def by (metis ids_unique)

lemma same_nodes_foreign: "same_nodes s key t \<Longrightarrow> foreign_ids t key = foreign_ids s key"
  unfolding same_nodes_def foreign_ids_def by (metis set_filter)

lemma foreign_not_own:
  assumes "store_ids_ok t" "r \<in> set (node_rows t)" "n_key r = key"
  shows "n_id r \<notin> foreign_ids t key"
  using ids_unique [OF assms(1,2)] assms(3) by (auto simp: foreign_ids_def)

subsection \<open>Applying the nodes\<close>

definition apart :: "store \<Rightarrow> int \<Rightarrow> store \<Rightarrow> bool" where
  "apart s key t \<longleftrightarrow> same_nodes s key t \<and> parents_inside t \<and> store_ids_ok t"

lemma apart_cong: "node_rows u = node_rows t \<Longrightarrow> apart s key u = apart s key t"
  by (simp add: apart_def same_nodes_def parents_inside_def store_ids_ok_def)

lemma keeps_put_apart:
  assumes t: "apart s key t" and par: "parent = None \<or> (\<exists>q \<in> set (node_rows t). parent = Some (n_id q) \<and> n_key q = key)"
  shows "apart s key (snd (put_public_row key n parent h t))"
proof (cases "put_public_row key n parent h t")
  case (Pair res u)
  show ?thesis
  proof (cases "u = t")
    case ne: False
    show ?thesis
    proof (cases "node_row_for_label t key (pn_label n)")
      case (Some q)
      let ?g = "merge_row parent (pn_threshold n) h (pn_active n)"
      let ?f = "\<lambda>r. if n_id r = n_id q then ?g r else r"
      note q = lookup_row [OF Some]
      have "update_node (n_id q) ?g t = (res, u)" using Pair Some by (simp add: put_public_row_def bind_run)
      then have u: "node_rows u = map ?f (node_rows t)" using ne by (auto simp: update_node_def split: if_splits)
      have own: "n_key r = key" if "r \<in> set (node_rows t)" "n_id r = n_id q" for r
        using ids_unique [of t r q] that t q by (auto simp: apart_def)
      have "filter (\<lambda>r. n_key r \<noteq> key) (map ?f rows) = filter (\<lambda>r. n_key r \<noteq> key) rows" if "set rows \<subseteq> set (node_rows t)" for rows
        using that by (induction rows) (auto simp: merge_row_def own)
      then have "same_nodes s key u" using t by (simp add: apart_def same_nodes_def u)
      moreover have "parents_inside u"
        unfolding parents_inside_def u set_map
      proof (intro ballI allI impI, elim imageE)
        fix r p x assume x: "x \<in> set (node_rows t)" "r = ?f x" and p: "n_parent r = Some p"
        have "\<exists>y \<in> set (node_rows t). n_id y = p \<and> n_key y = n_key r"
        proof (cases "n_id x = n_id q")
          case True
          then show ?thesis using x p par own [of x] by (auto simp: merge_row_def)
        next
          case False
          then show ?thesis using x p t by (auto simp: apart_def parents_inside_def)
        qed
        then obtain y where y: "y \<in> set (node_rows t)" "n_id y = p" "n_key y = n_key r" by blast
        then show "\<exists>y \<in> ?f ` set (node_rows t). n_id y = p \<and> n_key y = n_key r"
          by (intro bexI [of _ "?f y"] imageI) (auto simp: merge_row_def)
      qed
      moreover have "map n_id (node_rows u) = map n_id (node_rows t)" unfolding u by (simp add: merge_row_def)
      ultimately show ?thesis using t Pair by (simp add: apart_def store_ids_ok_def)
    next
      case None
      let ?mk = "\<lambda>i. \<lparr> n_id = i, n_key = key, n_parent = parent, n_label = pn_label n,
        n_threshold = map_option uint (pn_threshold n), n_hw = h, n_wrapped = None, n_active = pn_active n \<rparr>"
      from Pair None ne obtain i where "insert_node ?mk t = (Ok i, u)"
        by (auto simp: put_public_row_def bind_run insert_node_run Let_def split: prod.splits sum.splits if_splits)
      from insert_node_new [OF this] have new: "\<forall>r \<in> set (node_rows t). n_id r \<noteq> i" "node_rows u = node_rows t @ [?mk i]"
        by simp_all
      have "parents_inside u" using t par by (auto simp: apart_def parents_inside_def new(2))
      then show ?thesis using t new Pair by (auto simp: apart_def same_nodes_def store_ids_ok_def)
    qed
  qed (use t Pair in simp)
qed

lemma keeps_node_apart: "keeps (apart s key) (apply_public_node C key n)"
proof (rule keepsI)
  fix t assume t: "apart s key t"
  define A where "A = (case pn_parent n of None \<Rightarrow> ret None
           | Some l \<Rightarrow> bind (asks (\<lambda>s. node_id_for_label s key l)) (\<lambda>i. ret (Some i)))"
  have A: "A t = (fst (A t), t)" by (auto simp: A_def bind_run split: option.split sum.split)
  show "apart s key (snd (apply_public_node C key n t))"
  proof (cases "fst (A t)")
    case (Inr parent)
    have par: "parent = None \<or> (\<exists>q \<in> set (node_rows t). parent = Some (n_id q) \<and> n_key q = key)"
      using Inr by (auto simp: A_def bind_run split: option.splits sum.splits elim: node_id_for_label_OkD)
    obtain hr w where hw: "public_hw C n t = (hr, w)" by fastforce
    note w = public_hw_nodes [OF hw]
    have wa: "apart s key w" using t apart_cong [OF w] by simp
    have put: "apart s key (snd (put_public_row key n parent h w))" for h
      by (rule keeps_put_apart [OF wa]) (use par w in simp)
    have "apply_public_node C key n t = (case hr of Ok h \<Rightarrow>
         (if pn_threshold n = None \<and> h = None then fail InvalidTreeSpec else put_public_row key n parent h) w | Err e \<Rightarrow> (Err e, w))"
      using A Inr hw unfolding apply_public_node_def A_def [symmetric] by (auto simp: bind_run split: sum.splits)
    then show ?thesis using put wa by (auto split: sum.split)
  next
    case (Inl e)
    then have "apply_public_node C key n t = (Err e, t)"
      using A unfolding apply_public_node_def A_def [symmetric] by (auto simp: bind_run split: sum.splits)
    then show ?thesis using t by simp
  qed
qed

lemma keeps_passes:
  assumes "\<And>n. keeps P (apply_public_node C key n)"
  shows "keeps P (apply_passes k C key remaining pending ready)"
proof -
  have pass: "keeps P (apply_pass C key remaining ns ready)" for ns ready
    by (induction ns arbitrary: ready) (auto intro!: keeps_intros assms split: prod.splits)
  show ?thesis
    by (induction k arbitrary: pending ready) (auto intro!: keeps_intros pass split: prod.splits)
qed

lemma keeps_hw_appended: "keeps (\<lambda>t. \<exists>h. hw_rows t = hw @ h) (apply_public_node C key n)"
proof -
  have "keeps (\<lambda>t. \<exists>h. hw_rows t = hw @ h) (get_or_register_encryption C l pk)" for l pk
    by (auto simp: keeps_def get_or_register_encryption_def register_key_def insert_hw_def insert_row_def Let_def
        split: sum.splits)
  then have "keeps (\<lambda>t. \<exists>h. hw_rows t = hw @ h) (public_hw C n)"
    unfolding public_hw_def by (cases "pn_pk n"; cases "pn_fp n") (auto intro!: keeps_intros)
  then show ?thesis
    unfolding apply_public_node_def by (intro keeps_intros keeps_put_public) simp_all
qed

subsection \<open>Deleting\<close>

definition others_stored :: "store \<Rightarrow> int \<Rightarrow> store \<Rightarrow> bool" where
  "others_stored s key t \<longleftrightarrow> same_nodes s key t \<and> same_bindings s key t \<and> parents_apart t \<and> store_ids_ok t"

lemma filter_filter_absorb: "(\<And>x. x \<in> set xs \<Longrightarrow> P x \<Longrightarrow> Q x) \<Longrightarrow> filter P (filter Q xs) = filter P xs"
  by (induction xs) auto

text \<open>A deletion in one tree never cascades into another.\<close>

lemma keeps_delete_others: "keeps (others_stored s key) (delete_nodes (\<lambda>r. n_key r = key \<and> n_label r = l))"
proof (rule keepsI)
  fix t assume t: "others_stored s key t"
  let ?P = "\<lambda>r. n_key r = key \<and> n_label r = l" and ?F = "foreign_ids s key"
  define D where "D = doomed (length (node_rows t)) (node_rows t) (set (map n_id (filter ?P (node_rows t))))"
  define S where "S = foreign_ids t key \<union> - n_id ` set (node_rows t)"
  have ids: "store_ids_ok t" and apart: "parents_apart t" and F: "?F = foreign_ids t key"
    using t same_nodes_foreign [of s key t] by (simp_all add: others_stored_def)
  have "D \<inter> S = {}"
    unfolding D_def
  proof (rule doomed_avoids)
    fix r p assume r: "r \<in> set (node_rows t)" "n_id r \<in> S" "n_parent r = Some p"
    then have "n_key r \<noteq> key" using foreign_not_own [OF ids r(1)] by (auto simp: S_def)
    then show "p \<in> S" using r(1,3) apart by (fastforce simp: S_def parents_apart_def foreign_ids_def)
  next
    show "set (map n_id (filter ?P (node_rows t))) \<inter> S = {}"
      using foreign_not_own [OF ids, of _ key] by (auto simp: S_def)
  qed
  then have safe: "i \<notin> D" if "i \<in> ?F" for i using that by (auto simp: S_def F)
  have "n_id r \<in> ?F" if "r \<in> set (node_rows t)" "n_key r \<noteq> key" for r
    using that unfolding F by (auto simp: foreign_ids_def)
  then have rows: "filter (\<lambda>r. n_key r \<noteq> key) (filter (\<lambda>r. n_id r \<notin> D) (node_rows t)) = filter (\<lambda>r. n_key r \<noteq> key) (node_rows t)"
    by (intro filter_filter_absorb) (use safe in blast)
  have binds: "filter (\<lambda>(i, p). i \<in> ?F) (filter (\<lambda>(i, p). i \<notin> D) bs) = filter (\<lambda>(i, p). i \<in> ?F) bs" for bs :: "(int \<times> string) list"
    by (intro filter_filter_absorb) (use safe in auto)
  have links: "filter (\<lambda>(i, j). i \<in> ?F \<and> j \<in> ?F) (filter (\<lambda>(i, j). i \<notin> D \<and> j \<notin> D) ls) = filter (\<lambda>(i, j). i \<in> ?F \<and> j \<in> ?F) ls"
    for ls by (intro filter_filter_absorb) (use safe in auto)
  have "snd (delete_nodes ?P t) = t\<lparr>node_rows := filter (\<lambda>r. n_id r \<notin> D) (node_rows t),
       bridge_rows := filter (\<lambda>(i, _). i \<notin> D) (bridge_rows t), link_rows := filter (\<lambda>(i, j). i \<notin> D \<and> j \<notin> D) (link_rows t)\<rparr>"
    by (simp add: delete_nodes_def Let_def D_def modify_def)
  then show "others_stored s key (snd (delete_nodes ?P t))"
    using t by (simp add: others_stored_def same_nodes_def same_bindings_def rows binds links parents_apart_def store_ids_ok_def
        distinct_map_filter del: filter_filter)
qed

lemma keeps_drop_others: "keeps (others_stored s key) (drop_unlisted key remaining)"
  unfolding drop_unlisted_def by (intro keeps_intros keeps_delete_others)

subsection \<open>The whitelist and the links\<close>

lemma keeps_bindings_others:
  "keeps (others_stored s key) (reset_bindings key)"
  "keeps (others_stored s key) (allow_bridge key a b)"
  "keeps (others_stored s key) (add_bridge key a b)"
proof -
  have own: "n_id r \<notin> foreign_ids s key" if "others_stored s key t" "r \<in> set (node_rows t)" "n_key r = key" for t r
    using that foreign_not_own same_nodes_foreign unfolding others_stored_def by metis
  have frame: "others_stored s key (t\<lparr>bridge_rows := b, link_rows := l\<rparr>) \<longleftrightarrow> others_stored s key t"
    if "filter (\<lambda>(i, p). i \<in> foreign_ids s key) b = filter (\<lambda>(i, p). i \<in> foreign_ids s key) (bridge_rows t)"
      "filter (\<lambda>(i, j). i \<in> foreign_ids s key \<and> j \<in> foreign_ids s key) l
       = filter (\<lambda>(i, j). i \<in> foreign_ids s key \<and> j \<in> foreign_ids s key) (link_rows t)" for t b l
    using that by (simp add: others_stored_def same_nodes_def same_bindings_def parents_apart_def store_ids_ok_def)
  show "keeps (others_stored s key) (reset_bindings key)"
  proof (rule keepsI)
    fix t assume t: "others_stored s key t"
    let ?ids = "n_id ` set (key_node_rows t key)" and ?ls = "n_label ` set (key_node_rows t key)"
    have no: "i \<notin> ?ids" if "i \<in> foreign_ids s key" for i using own [OF t] that by (auto simp: key_node_rows_def)
    have "snd (reset_bindings key t) = t\<lparr>bridge_rows := filter (\<lambda>(i, p). \<not> (i \<in> ?ids \<and> p \<in> ?ls)) (bridge_rows t),
       link_rows := filter (\<lambda>(i, j). \<not> (i \<in> ?ids \<and> j \<in> ?ids)) (link_rows t)\<rparr>"
      by (simp add: reset_bindings_def Let_def modify_def)
    also have "others_stored s key \<dots> \<longleftrightarrow> others_stored s key t"
      by (rule frame; rule filter_filter_absorb) (use no in auto)
    finally show "others_stored s key (snd (reset_bindings key t))" using t by simp
  qed
  show "keeps (others_stored s key) (allow_bridge key a b)"
  proof (rule keepsI)
    fix t assume t: "others_stored s key t"
    show "others_stored s key (snd (allow_bridge key a b t))"
    proof (cases "snd (allow_bridge key a b t) = t")
      case False
      then obtain i where i: "node_id_for_label t key a = Ok i" and e: "snd (allow_bridge key a b t) = t\<lparr>bridge_rows := bridge_rows t @ [(i, b)]\<rparr>"
        by (auto simp: allow_bridge_def bind_run put_bridge_def modify_def split: sum.splits if_splits)
      have "i \<notin> foreign_ids s key" using i own [OF t] by (auto elim: node_id_for_label_OkD)
      then show ?thesis using frame [of "bridge_rows t @ [(i, b)]" t "link_rows t"] t e by simp
    qed (use t in simp)
  qed
  show "keeps (others_stored s key) (add_bridge key a b)"
  proof (rule keepsI)
    fix t assume t: "others_stored s key t"
    then have ids: "store_ids_ok t" by (simp add: others_stored_def)
    obtain res u where run: "add_bridge key a b t = (res, u)" by fastforce
    have "others_stored s key u"
    proof (cases "u = t")
      case False
      then obtain T i j lo hi where T: "load t key = Ok T" "index_by_label T a = Ok i"
        and p: "ordered_pair (kn_db (kt_nodes T ! i)) (kn_db (kt_nodes T ! j)) = Ok (lo, hi)"
        and put: "(res, u) = put_link lo hi t"
        using run by (auto simp: add_bridge_def bind_run Let_def split: sum.splits if_splits)
      have e: "u = t\<lparr>link_rows := link_rows t @ [(lo, hi)]\<rparr>"
        using put False by (simp add: put_link_def modify_def split: if_splits)
      obtain ra where ra: "ra \<in> set (node_rows t)" "n_key ra = key" "kn_db (kt_nodes T ! i) = n_id ra"
        by (rule index_by_label_row [OF T(1) ids T(2)])
      have "n_id ra \<in> {lo, hi}" using ordered_pair_OkD [OF p] ra(3) by simp
      then have "\<not> (lo \<in> foreign_ids s key \<and> hi \<in> foreign_ids s key)" using own [OF t ra(1,2)] by blast
      then show ?thesis using frame [of "bridge_rows t" t "link_rows t @ [(lo, hi)]"] t e by simp
    qed (use t in simp)
    then show "others_stored s key (snd (add_bridge key a b t))" by (simp add: run)
  qed
qed

subsection \<open>The tree's own whitelist and links\<close>

text \<open>The stored whitelist and links between nodes of one tree, as the queries of \<open>list_bridges\<close> give them.\<close>

definition own_pairs :: "store \<Rightarrow> int \<Rightarrow> (string \<times> string) set" where
  "own_pairs t key = {(a, p) \<in> set (list_allowed t key). p \<in> n_label ` set (key_node_rows t key)}"

definition own_links :: "store \<Rightarrow> int \<Rightarrow> string set set" where
  "own_links t key = (\<lambda>(a, b). {a, b}) ` set (list_established t key)"

lemma own_pairs_iff: "(a, p) \<in> own_pairs t key \<longleftrightarrow> p \<in> n_label ` set (key_node_rows t key)
    \<and> (\<exists>r \<in> set (key_node_rows t key). n_label r = a \<and> (n_id r, p) \<in> set (bridge_rows t))"
  unfolding own_pairs_def key_node_rows_def by (auto simp: list_allowed_iff)

lemma own_links_iff: "x \<in> own_links t key \<longleftrightarrow> (\<exists>ra \<in> set (key_node_rows t key). \<exists>rb \<in> set (key_node_rows t key).
    x = {n_label ra, n_label rb} \<and> (n_id ra, n_id rb) \<in> set (link_rows t))"
proof -
  have "x \<in> own_links t key \<longleftrightarrow> (\<exists>a b. x = {a, b} \<and> (a, b) \<in> set (list_established t key))"
    by (auto simp: own_links_def)
  then show ?thesis unfolding list_established_iff key_node_rows_def by auto
qed

lemma own_cong:
  "node_rows u = node_rows t \<Longrightarrow> bridge_rows u = bridge_rows t \<Longrightarrow> own_pairs u key = own_pairs t key"
  "node_rows u = node_rows t \<Longrightarrow> link_rows u = link_rows t \<Longrightarrow> own_links u key = own_links t key"
  by (simp_all add: own_pairs_def own_links_def list_allowed_def list_established_def key_node_rows_def)

lemma reset_own:
  assumes "reset_bindings key t = (r, u)"
  shows "own_pairs u key = {}" "own_links u key = {}"
proof -
  have u: "u = snd (reset_bindings key t)" by (simp add: assms)
  have "(a, p) \<notin> own_pairs u key" for a p
    by (auto simp: own_pairs_iff u reset_bindings_def modify_def Let_def key_node_rows_def)
  then show "own_pairs u key = {}" by auto
  show "own_links u key = {}"
    by (auto simp: set_eq_iff own_links_iff u reset_bindings_def modify_def Let_def key_node_rows_def)
qed

lemma own_row_unique:
  "store_ids_ok t \<Longrightarrow> r \<in> set (node_rows t) \<Longrightarrow> q \<in> set (key_node_rows t key) \<Longrightarrow> n_id q = n_id r \<Longrightarrow> q = r"
  using ids_unique [of t q r] by (simp add: key_node_rows_def)

lemma allow_own:
  assumes "allow_bridge key a b t = (Ok (), u)" "store_ids_ok t"
  shows "own_pairs u key = insert (a, b) (own_pairs t key)" "own_links u key = own_links t key" "node_rows u = node_rows t"
proof -
  obtain i j where i: "node_id_for_label t key a = Ok i" and j: "node_id_for_label t key b = Ok j" and put: "put_bridge i b t = (Ok (), u)"
    using assms(1) by (auto simp: allow_bridge_def bind_run split: sum.splits if_splits)
  obtain r where r: "r \<in> set (node_rows t)" "n_key r = key" "n_label r = a" "n_id r = i" by (rule node_id_for_label_OkD [OF i])
  obtain q where q: "q \<in> set (node_rows t)" "n_key q = key" "n_label q = b" by (rule node_id_for_label_OkD [OF j])
  have u: "node_rows u = node_rows t" "link_rows u = link_rows t" "set (bridge_rows u) = insert (i, b) (set (bridge_rows t))"
    using put by (auto simp: put_bridge_def modify_def split: if_splits)
  show "own_links u key = own_links t key" by (rule own_cong(2) [OF u(1,2)])
  show "node_rows u = node_rows t" by (rule u(1))
  have rows: "key_node_rows u key = key_node_rows t key" using u(1) by (simp add: key_node_rows_def)
  have ab: "r \<in> set (key_node_rows t key)" "b \<in> n_label ` set (key_node_rows t key)"
    using r q by (auto simp: key_node_rows_def)
  have "(c, p) \<in> own_pairs u key \<longleftrightarrow> (c, p) = (a, b) \<or> (c, p) \<in> own_pairs t key" for c p
  proof -
    have "(n_id q, p) = (i, b) \<longleftrightarrow> q = r \<and> p = b" if "q \<in> set (key_node_rows t key)" for q
      using own_row_unique [OF assms(2) r(1) that] r(4) by auto
    then have "(\<exists>q \<in> set (key_node_rows t key). n_label q = c \<and> (n_id q, p) \<in> insert (i, b) (set (bridge_rows t)))
        \<longleftrightarrow> (c = a \<and> p = b) \<or> (\<exists>q \<in> set (key_node_rows t key). n_label q = c \<and> (n_id q, p) \<in> set (bridge_rows t))"
      using ab(1) r(3) unfolding insert_iff by blast
    then show ?thesis unfolding own_pairs_iff rows u(3) using ab(2) by blast
  qed
  then show "own_pairs u key = insert (a, b) (own_pairs t key)" by auto
qed

lemma add_own:
  assumes "add_bridge key a b t = (Ok (), u)" "store_ids_ok t"
  shows "own_links u key = insert {a, b} (own_links t key)" "own_pairs u key = own_pairs t key" "node_rows u = node_rows t"
proof -
  obtain T i j lo hi where T: "load t key = Ok T" "index_by_label T a = Ok i" "index_by_label T b = Ok j"
    and p: "ordered_pair (kn_db (kt_nodes T ! i)) (kn_db (kt_nodes T ! j)) = Ok (lo, hi)"
    and put: "(Ok (), u) = put_link lo hi t"
    using assms(1) by (auto simp: add_bridge_def bind_run Let_def split: sum.splits if_splits)
  obtain ra where ra: "ra \<in> set (node_rows t)" "n_key ra = key" "n_label ra = a" "kn_db (kt_nodes T ! i) = n_id ra"
    by (rule index_by_label_row [OF T(1) assms(2) T(2)])
  obtain rb where rb: "rb \<in> set (node_rows t)" "n_key rb = key" "n_label rb = b" "kn_db (kt_nodes T ! j) = n_id rb"
    by (rule index_by_label_row [OF T(1) assms(2) T(3)])
  have lh: "{lo, hi} = {n_id ra, n_id rb}" using ordered_pair_OkD [OF p] ra(4) rb(4) by simp
  have u: "node_rows u = node_rows t" "bridge_rows u = bridge_rows t" "set (link_rows u) = insert (lo, hi) (set (link_rows t))"
    using put by (auto simp: put_link_def modify_def split: if_splits)
  show "own_pairs u key = own_pairs t key" by (rule own_cong(1) [OF u(1,2)])
  show "node_rows u = node_rows t" by (rule u(1))
  have rows: "key_node_rows u key = key_node_rows t key" using u(1) by (simp add: key_node_rows_def)
  have own: "ra \<in> set (key_node_rows t key)" "rb \<in> set (key_node_rows t key)" using ra rb by (auto simp: key_node_rows_def)
  have "\<exists>x \<in> set (key_node_rows t key). \<exists>y \<in> set (key_node_rows t key). {a, b} = {n_label x, n_label y} \<and> (n_id x, n_id y) = (lo, hi)"
    using lh own ra(3) rb(3) by (auto simp: doubleton_eq_iff)
  moreover have "{n_label x, n_label y} = {a, b}"
    if "x \<in> set (key_node_rows t key)" "y \<in> set (key_node_rows t key)" "(n_id x, n_id y) = (lo, hi)" for x y
  proof -
    have "n_id x = n_id ra \<and> n_id y = n_id rb \<or> n_id x = n_id rb \<and> n_id y = n_id ra"
      using that(3) lh by (auto simp: doubleton_eq_iff)
    then show ?thesis
      using own_row_unique [OF assms(2) ra(1)] own_row_unique [OF assms(2) rb(1)] that(1,2) ra(3) rb(3) by fastforce
  qed
  ultimately have "x \<in> own_links u key \<longleftrightarrow> x = {a, b} \<or> x \<in> own_links t key" for x
    unfolding own_links_iff rows u(3) by blast
  then show "own_links u key = insert {a, b} (own_links t key)" by auto
qed

lemma allow_all_own:
  assumes "for_each (\<lambda>(a, b). allow_bridge key a b) ws t = (Ok (), u)" "store_ids_ok t"
  shows "own_pairs u key = own_pairs t key \<union> set ws \<and> own_links u key = own_links t key \<and> node_rows u = node_rows t"
  using assms
proof (induction ws arbitrary: t)
  case (Cons w ws)
  obtain a b where w: "w = (a, b)" by fastforce
  from Cons.prems(1) w obtain v where 1: "allow_bridge key a b t = (Ok (), v)"
    and rest: "for_each (\<lambda>(a, b). allow_bridge key a b) ws v = (Ok (), u)" by (auto elim!: bind_Ok_elim)
  note v = allow_own [OF 1 Cons.prems(2)]
  have "store_ids_ok v" using Cons.prems(2) v(3) by (simp add: store_ids_ok_def)
  from Cons.IH [OF rest this] v show ?case by (simp add: w)
qed simp

lemma add_all_own:
  assumes "for_each (\<lambda>(a, b). add_bridge key a b) ls t = (Ok (), u)" "store_ids_ok t"
  shows "own_links u key = own_links t key \<union> (\<lambda>(a, b). {a, b}) ` set ls \<and> own_pairs u key = own_pairs t key \<and> node_rows u = node_rows t"
  using assms
proof (induction ls arbitrary: t)
  case (Cons w ls)
  obtain a b where w: "w = (a, b)" by fastforce
  from Cons.prems(1) w obtain v where 1: "add_bridge key a b t = (Ok (), v)"
    and rest: "for_each (\<lambda>(a, b). add_bridge key a b) ls v = (Ok (), u)" by (auto elim!: bind_Ok_elim)
  note v = add_own [OF 1 Cons.prems(2)]
  have "store_ids_ok v" using Cons.prems(2) v(3) by (simp add: store_ids_ok_def)
  from Cons.IH [OF rest this] v show ?case by (simp add: w)
qed simp

text \<open>What a successful application comes to, in the transaction.\<close>

definition applied :: "store \<Rightarrow> int \<Rightarrow> public_tree \<Rightarrow> store \<Rightarrow> bool" where
  "applied s key snapshot s' \<longleftrightarrow>
     (\<exists>k. key_table.row_of s' key = Some k \<and> k_label k = pt_label snapshot \<and> k_generation k = uint (pt_generation snapshot))
     \<and> (\<forall>k. key_table.row_of s key = Some k \<longrightarrow> k_generation k \<le> uint (pt_generation snapshot))
     \<and> n_label ` set (key_node_rows s' key) \<subseteq> pn_label ` set (pt_nodes snapshot)
     \<and> (\<forall>r \<in> set (node_rows s). \<forall>r' \<in> set (node_rows s'). n_id r' = n_id r \<longrightarrow>
          (if n_key r = key then keeps_share r r' else r' = r))
     \<and> own_pairs s' key = set (pt_whitelist snapshot)
     \<and> own_links s' key = (\<lambda>(a, b). {a, b}) ` set (pt_links snapshot)
     \<and> others_kept s key s'
     \<and> (parents_listed (pt_nodes snapshot) \<longrightarrow> (\<forall>n \<in> set (pt_nodes snapshot). placed s' key n))"

lemma public_key_row_frame:
  assumes "public_key_row key0 l s = (Ok key, t)"
  shows "filter (\<lambda>k. k_id k \<noteq> key) (key_rows t) = filter (\<lambda>k. k_id k \<noteq> key) (key_rows s)"
    "\<exists>ks. t = s\<lparr>key_rows := ks\<rparr>"
proof -
  have "filter (\<lambda>k. k_id k \<noteq> key) (key_rows t) = filter (\<lambda>k. k_id k \<noteq> key) (key_rows s) \<and> (\<exists>ks. t = s\<lparr>key_rows := ks\<rparr>)"
  proof (cases "t = s")
    case False
    then have "insert_key_row (\<lambda>i. \<lparr> k_id = i, k_label = l, k_generation = 1 \<rparr>) s = (Ok key, t)"
      using assms by (auto simp: public_key_row_def bind_run split: option.splits sum.splits if_splits)
    then show ?thesis by (auto simp: insert_key_row_run Let_def)
  qed (simp, rule exI [of _ "key_rows s"], simp)
  then show "filter (\<lambda>k. k_id k \<noteq> key) (key_rows t) = filter (\<lambda>k. k_id k \<noteq> key) (key_rows s)"
    "\<exists>ks. t = s\<lparr>key_rows := ks\<rparr>" by blast+
qed

text \<open>What only the first steps change: hardware keys are added, the tree's own record may be.\<close>

definition tables_kept :: "store \<Rightarrow> int \<Rightarrow> store \<Rightarrow> bool" where
  "tables_kept s key t \<longleftrightarrow> filter (\<lambda>k. k_id k \<noteq> key) (key_rows t) = filter (\<lambda>k. k_id k \<noteq> key) (key_rows s)
     \<and> (\<exists>h. hw_rows t = hw_rows s @ h) \<and> other_tables t = other_tables s"

lemma keeps_tables:
  "keeps (tables_kept s key) (apply_passes k C key remaining pending ready)"
  "keeps (tables_kept s key) (drop_unlisted key remaining)"
  "keeps (tables_kept s key) (reset_bindings key)"
  "keeps (tables_kept s key) (allow_bridge key a b)"
  "keeps (tables_kept s key) (add_bridge key a b)"
  "keeps (tables_kept s key) (set_generation key g)"
proof -
  have node: "keeps (\<lambda>t. filter (\<lambda>k. k_id k \<noteq> key) (key_rows t) = K \<and> other_tables t = B) (apply_public_node C key n)" for K B n
    unfolding apply_public_node_def
    by (intro keeps_intros keeps_put_public keeps_public_hw) (simp_all add: other_tables_def)
  show "keeps (tables_kept s key) (apply_passes k C key remaining pending ready)"
    by (rule keeps_passes) (use node keeps_hw_appended in \<open>force simp: keeps_def tables_kept_def\<close>)
  show "keeps (tables_kept s key) (drop_unlisted key remaining)" "keeps (tables_kept s key) (reset_bindings key)"
    "keeps (tables_kept s key) (allow_bridge key a b)" "keeps (tables_kept s key) (add_bridge key a b)"
    unfolding drop_unlisted_def delete_nodes_def reset_bindings_def allow_bridge_def add_bridge_def put_bridge_def put_link_def Let_def
    by (auto intro!: keeps_intros simp: tables_kept_def other_tables_def split: prod.splits)
  have "filter (\<lambda>k. k_id k \<noteq> key) (map (\<lambda>k. if k_id k = key then k\<lparr>k_generation := uint g\<rparr> else k) ks)
     = filter (\<lambda>k. k_id k \<noteq> key) ks" for ks :: "key_row list" by (induction ks) auto
  then show "keeps (tables_kept s key) (set_generation key g)"
    by (auto simp: keeps_def set_generation_def tables_kept_def other_tables_def simp del: filter_map)
qed

text \<open>The steps of a successful application, one state after the other.\<close>

lemma apply_inner_steps:
  assumes "apply_public_tree_inner C key0 snapshot s = (Ok key, s')"
  obtains s1 s2 s3 s4 s5 s6 k where "public_key_row key0 (pt_label snapshot) s = (Ok key, s1)"
    "key_table.row_of s1 key = Some k" "k_generation k \<le> uint (pt_generation snapshot)"
    "card (pn_label ` set (pt_nodes snapshot)) = length (pt_nodes snapshot)"
    "apply_passes (length (pt_nodes snapshot)) C key (pn_label ` set (pt_nodes snapshot)) (pt_nodes snapshot) {} s1 = (Ok (), s2)"
    "drop_unlisted key (pn_label ` set (pt_nodes snapshot)) s2 = (Ok (), s3)" "reset_bindings key s3 = (Ok (), s4)"
    "for_each (\<lambda>(a, b). allow_bridge key a b) (pt_whitelist snapshot) s4 = (Ok (), s5)"
    "for_each (\<lambda>(a, b). add_bridge key a b) (pt_links snapshot) s5 = (Ok (), s6)"
    "set_generation key (pt_generation snapshot) s6 = (Ok (), s')"
  using assms unfolding apply_public_tree_inner_def Let_def
  by (elim bind_Ok_elim) (auto simp: query_row_def split: if_splits)

lemma kept_run: "keeps P m \<Longrightarrow> m s = (r, t) \<Longrightarrow> P s \<Longrightarrow> P t"
  using keepsD [of P m s] by simp

lemma for_each_kept:
  assumes "\<And>a b. keeps P (f a b)" "for_each (\<lambda>(a, b). f a b) xs s = (r, t)" "P s"
  shows "P t"
  using keepsD [OF keeps_for_each [of P "\<lambda>(a, b). f a b" xs] assms(3)] assms(1,2) by (simp split: prod.splits)

lemma set_generation_rows:
  assumes "set_generation key g t = (Ok (), u)"
  shows "u = t\<lparr>key_rows := map (\<lambda>k. if k_id k = key then k\<lparr>k_generation := uint g\<rparr> else k) (key_rows t)\<rparr>"
  using assms by (auto simp: set_generation_def split: if_splits)

lemma apply_inner_others:
  assumes run: "apply_public_tree_inner C key0 snapshot s = (Ok key, s')"
    and ids: "store_ids_ok s" and inside: "parents_inside s"
  shows "others_kept s key s'"
proof (rule apply_inner_steps [OF run])
  fix s1 s2 s3 s4 s5 s6
  assume 1: "public_key_row key0 (pt_label snapshot) s = (Ok key, s1)"
    and 2: "apply_passes (length (pt_nodes snapshot)) C key (pn_label ` set (pt_nodes snapshot)) (pt_nodes snapshot) {} s1 = (Ok (), s2)"
    and 3: "drop_unlisted key (pn_label ` set (pt_nodes snapshot)) s2 = (Ok (), s3)" and 4: "reset_bindings key s3 = (Ok (), s4)"
    and 5: "for_each (\<lambda>(a, b). allow_bridge key a b) (pt_whitelist snapshot) s4 = (Ok (), s5)"
    and 6: "for_each (\<lambda>(a, b). add_bridge key a b) (pt_links snapshot) s5 = (Ok (), s6)"
    and 7: "set_generation key (pt_generation snapshot) s6 = (Ok (), s')"
  obtain ks where ks: "s1 = s\<lparr>key_rows := ks\<rparr>" using public_key_row_frame(2) [OF 1] by blast
  have "apart s key s1" using ids inside by (simp add: ks apart_def same_nodes_def parents_inside_def store_ids_ok_def)
  then have "apart s key s2" by (rule kept_run [OF keeps_passes [OF keeps_node_apart] 2])
  moreover have "same_bindings s key s2"
    by (rule kept_run [OF keeps_apply_passes 2]) (simp_all add: ks same_bindings_def)
  ultimately have "others_stored s key s2" using parents_inside_apart by (simp add: others_stored_def apart_def)
  then have "others_stored s key s4" by (intro kept_run [OF keeps_bindings_others(1) 4] kept_run [OF keeps_drop_others 3])
  note o6 = for_each_kept [OF keeps_bindings_others(3) 6 for_each_kept [OF keeps_bindings_others(2) 5 this]]
  have "tables_kept s key s1" using public_key_row_frame(1) [OF 1] by (simp add: tables_kept_def ks other_tables_def)
  then have "tables_kept s key s4"
    by (intro kept_run [OF keeps_tables(3) 4] kept_run [OF keeps_tables(2) 3] kept_run [OF keeps_tables(1) 2])
  then have "tables_kept s key s'"
    by (intro kept_run [OF keeps_tables(6) 7] for_each_kept [OF keeps_tables(5) 6] for_each_kept [OF keeps_tables(4) 5])
  then show ?thesis
    using o6 set_generation_rows [OF 7]
    by (simp add: others_kept_def tables_kept_def others_stored_def same_nodes_def same_bindings_def)
qed

lemma apply_inner_own:
  assumes run: "apply_public_tree_inner C key0 snapshot s = (Ok key, s')" and ids: "store_ids_ok s"
  shows "own_pairs s' key = set (pt_whitelist snapshot)" "own_links s' key = (\<lambda>(a, b). {a, b}) ` set (pt_links snapshot)"
proof -
  have "own_pairs s' key = set (pt_whitelist snapshot) \<and> own_links s' key = (\<lambda>(a, b). {a, b}) ` set (pt_links snapshot)"
  proof (rule apply_inner_steps [OF run])
    fix s1 s2 s3 s4 s5 s6 k
    let ?L = "pn_label ` set (pt_nodes snapshot)"
    assume 1: "public_key_row key0 (pt_label snapshot) s = (Ok key, s1)" and card: "card ?L = length (pt_nodes snapshot)"
      and 2: "apply_passes (length (pt_nodes snapshot)) C key ?L (pt_nodes snapshot) {} s1 = (Ok (), s2)"
      and 3: "drop_unlisted key ?L s2 = (Ok (), s3)" and 4: "reset_bindings key s3 = (Ok (), s4)"
      and 5: "for_each (\<lambda>(a, b). allow_bridge key a b) (pt_whitelist snapshot) s4 = (Ok (), s5)"
      and 6: "for_each (\<lambda>(a, b). add_bridge key a b) (pt_links snapshot) s5 = (Ok (), s6)"
      and 7: "set_generation key (pt_generation snapshot) s6 = (Ok (), s')"
    obtain ks where ks: "s1 = s\<lparr>key_rows := ks\<rparr>" using public_key_row_frame(2) [OF 1] by blast
    have "merged s1 key {} s1" "ids_from s1 s1" using merged_refl [of s1] ids by (simp_all add: ks ids_from_def store_ids_ok_def)
    moreover have "distinct (map pn_label (pt_nodes snapshot))" using card by (metis card_distinct length_map set_map)
    ultimately have "store_ids_ok s2" using apply_passes_Ok [OF 2 order_refl] by (simp add: ids_from_def)
    then have "store_ids_ok s3" by (rule drop_unlisted_ids [OF 3])
    moreover have "node_rows s4 = node_rows s3" using 4 by (auto simp: reset_bindings_def modify_def Let_def)
    ultimately have i4: "store_ids_ok s4" by (simp add: store_ids_ok_def)
    note a = allow_all_own [OF 5 i4]
    have "store_ids_ok s5" using i4 a by (simp add: store_ids_ok_def)
    note l = add_all_own [OF 6 this]
    have "own_pairs s' key = own_pairs s6 key" "own_links s' key = own_links s6 key"
      unfolding set_generation_rows [OF 7] by (rule own_cong, simp, simp)+
    then show ?thesis using a l reset_own [OF 4] by simp
  qed
  then show "own_pairs s' key = set (pt_whitelist snapshot)" "own_links s' key = (\<lambda>(a, b). {a, b}) ` set (pt_links snapshot)"
    by blast+
qed

lemma apply_inner_Ok:
  assumes run: "apply_public_tree_inner C key0 snapshot s = (Ok key, s')"
    and ids: "store_ids_ok s" "distinct (map k_id (key_rows s))" and inside: "parents_inside s"
  shows "applied s key snapshot s'"
proof (rule apply_inner_steps [OF run])
  let ?ns = "pt_nodes snapshot" and ?L = "pn_label ` set (pt_nodes snapshot)"
  fix s1 s2 s3 s4 s5 s6 k
  assume 1: "public_key_row key0 (pt_label snapshot) s = (Ok key, s1)"
    and k: "key_table.row_of s1 key = Some k" "k_generation k \<le> uint (pt_generation snapshot)"
    and card: "card ?L = length ?ns"
    and 2: "apply_passes (length ?ns) C key ?L ?ns {} s1 = (Ok (), s2)"
    and 3: "drop_unlisted key ?L s2 = (Ok (), s3)" and 4: "reset_bindings key s3 = (Ok (), s4)"
    and 5: "for_each (\<lambda>(a, b). allow_bridge key a b) (pt_whitelist snapshot) s4 = (Ok (), s5)"
    and 6: "for_each (\<lambda>(a, b). add_bridge key a b) (pt_links snapshot) s5 = (Ok (), s6)"
    and 7: "set_generation key (pt_generation snapshot) s6 = (Ok (), s')"
  note pk = public_key_row_Ok [OF 1 ids(2)]
  have s1: "merged s key {} s1" "ids_from s s1"
    using merged_subset [OF merged_refl [OF ids(1)], of s1] ids(1) pk(1) by (simp_all add: ids_from_def store_ids_ok_def)
  have "distinct (map pn_label ?ns)" using card by (metis card_distinct length_map set_map)
  from apply_passes_Ok [OF 2 order_refl s1 this] have
    m2: "merged s key ?L s2" "store_ids_ok s2" "\<forall>n \<in> set ?ns. placed s2 key n" by (simp_all add: ids_from_def)
  note d = drop_unlisted_Ok [OF 3 m2(2)]
  have "rows_same s3 s4" using keepsD [OF keeps_edges(1), of s3 s3 key] 4 by (simp add: rows_same_def)
  then have "rows_same s3 s6"
    using for_each_kept [OF keeps_edges(3) 6 for_each_kept [OF keeps_edges(2) 5]] by blast
  moreover have "key_rows s2 = key_rows s1"
    using keepsD [OF keeps_apply_passes [of "\<lambda>t. key_rows t = key_rows s1" "length ?ns" C key ?L ?ns "{}"], of s1] 2 by simp
  ultimately have s6: "node_rows s6 = node_rows s3" "key_rows s6 = key_rows s1" using d(2) by (simp_all add: rows_same_def)
  have s': "node_rows s' = node_rows s3"
      "key_rows s' = map (\<lambda>k. if k_id k = key then k\<lparr>k_generation := uint (pt_generation snapshot)\<rparr> else k) (key_rows s1)"
    using 7 s6 by (auto simp: set_generation_def split: if_splits)
  have "key_table.row_of s' key = map_option (\<lambda>k. if k_id k = key then k\<lparr>k_generation := uint (pt_generation snapshot)\<rparr> else k)
      (key_table.row_of s1 key)"
    unfolding key_table.row_of_def s'(2) by (rule find_cong_map) simp
  then have row: "\<exists>k. key_table.row_of s' key = Some k \<and> k_label k = pt_label snapshot \<and> k_generation k = uint (pt_generation snapshot)"
    using pk(2) key_table.row_of_SomeD by fastforce
  have "placed s' = placed s3" by (rule placed_cong) (rule s'(1))
  then have "\<forall>n \<in> set ?ns. placed s' key n" if "parents_listed ?ns" using d(4) [OF that _ m2(3)] by simp
  moreover have "if n_key r = key then keeps_share r r' else r' = r"
    if "r \<in> set (node_rows s)" "r' \<in> set (node_rows s')" "n_id r' = n_id r" for r r'
    using mergedD(3,4) [OF m2(1) that(1) _ that(3)] that(2) d(1) s'(1) by auto
  moreover have "n_label ` set (key_node_rows s' key) \<subseteq> ?L" using d(3) s'(1) by (simp add: key_node_rows_def)
  ultimately show ?thesis
    unfolding applied_def using row k pk(3) apply_inner_own [OF run ids(1)] apply_inner_others [OF run ids(1) inside] by auto
qed

lemma others_kept_tx: "\<not> in_tx s \<Longrightarrow> others_kept (s\<lparr>in_tx := True\<rparr>) key t \<Longrightarrow> others_kept s key (t\<lparr>in_tx := False\<rparr>)"
proof -
  assume h: "\<not> in_tx s" "others_kept (s\<lparr>in_tx := True\<rparr>) key t"
  then have "(other_tables t)\<lparr>in_tx := False\<rparr> = (other_tables (s\<lparr>in_tx := True\<rparr>))\<lparr>in_tx := False\<rparr>"
    by (simp add: others_kept_def)
  then have "other_tables (t\<lparr>in_tx := False\<rparr>) = other_tables (s\<lparr>in_tx := False\<rparr>)"
    by (cases t, cases s) (simp add: other_tables_def)
  moreover have "s\<lparr>in_tx := False\<rparr> = s" using h(1) by simp
  ultimately have "other_tables (t\<lparr>in_tx := False\<rparr>) = other_tables s" by simp
  then show ?thesis using h(2) by (simp add: others_kept_def same_nodes_def same_bindings_def foreign_ids_def)
qed

lemma applied_tx:
  assumes "\<not> in_tx s" "applied (s\<lparr>in_tx := True\<rparr>) key snapshot t" shows "applied s key snapshot (t\<lparr>in_tx := False\<rparr>)"
proof -
  have "placed (u\<lparr>in_tx := b\<rparr>) = placed u" for u b by (rule placed_cong) simp
  moreover have "key_table.row_of (u\<lparr>in_tx := b\<rparr>) = key_table.row_of u" for u b
    by (simp add: key_table.row_of_def fun_eq_iff)
  moreover have "own_pairs (u\<lparr>in_tx := b\<rparr>) key = own_pairs u key" "own_links (u\<lparr>in_tx := b\<rparr>) key = own_links u key" for u b
    by (rule own_cong, simp, simp)+
  ultimately show ?thesis using assms(2) others_kept_tx [OF assms(1)] unfolding applied_def by (simp add: key_node_rows_def)
qed


text \<open>Two trees that both have a node \<open>gone\<close>; the slice of the first does not have it.\<close>

definition demo_slice :: public_tree where
  "demo_slice = \<lparr> pt_label = ''vault'', pt_generation = 3,
     pt_nodes = [\<lparr> pn_label = ''ann'', pn_parent = Some ''root'', pn_threshold = None, pn_active = True,
                   pn_fp = None, pn_pk = Some (hex_encode toy (replicate 32 5)) \<rparr>,
                 \<lparr> pn_label = ''root'', pn_parent = None, pn_threshold = Some 1, pn_active = True, pn_fp = None, pn_pk = None \<rparr>],
     pt_whitelist = [(''ann'', ''root'')], pt_links = [] \<rparr>"

definition demo_group :: "int \<Rightarrow> int \<Rightarrow> int option \<Rightarrow> string \<Rightarrow> node_row" where
  "demo_group i key parent l = \<lparr> n_id = i, n_key = key, n_parent = parent, n_label = l, n_threshold = Some 1, n_hw = None,
     n_wrapped = None, n_active = True \<rparr>"

definition demo_trees :: store where
  "demo_trees = empty_store\<lparr>
     key_rows := [\<lparr> k_id = 1, k_label = ''vault'', k_generation = 2 \<rparr>, \<lparr> k_id = 2, k_label = ''other'', k_generation = 5 \<rparr>],
     node_rows := [demo_group 1 1 None ''root'', demo_group 2 1 (Some 1) ''gone'', demo_group 3 2 None ''gone''],
     bridge_rows := [(2, ''root''), (3, ''gone'')]\<rparr>"

lemmas row_of_code [code_unfold] = key_table.row_of_def hw.row_of_def

lemma demo_slice_run: "\<exists>s'. apply_public_tree toy None demo_slice demo_trees = (Ok 1, s')"
proof -
  have "fst (apply_public_tree toy None demo_slice demo_trees) = Ok 1" by code_simp
  then show ?thesis by (metis prod.collapse)
qed


end
