(* ===== verification/Pin.thy ===== *)
theory Pin
  imports Crypto
begin

text \<open>
  The PIN gate of \<open>src/pin.rs\<close>: setting, verifying, the lockout after eight wrong PINs, the
  window during which a verified PIN is not asked for again, and \<open>relock\<close>. PINs are byte
  strings; a wrong PIN is one whose hash under the stored salt differs from the stored hash.
\<close>

section \<open>Operations\<close>

definition MAX_ATTEMPTS :: int where "MAX_ATTEMPTS = 8"

definition is_four_digit_pin :: "string \<Rightarrow> bool" where
  "is_four_digit_pin pin \<longleftrightarrow> length pin = 4 \<and> list_all (\<lambda>c. CHR ''0'' \<le> c \<and> c \<le> CHR ''9'') pin"

definition pin_of :: "resource_type \<Rightarrow> int \<Rightarrow> pin_row \<Rightarrow> bool" where
  "pin_of t i r \<longleftrightarrow> p_type r = t \<and> p_resource r = i"

definition find_pin :: "store \<Rightarrow> resource_type \<Rightarrow> int \<Rightarrow> pin_row option" where
  "find_pin s t i = find (pin_of t i) (pin_rows s)"

definition get_pin_row :: "store \<Rightarrow> resource_type \<Rightarrow> int \<Rightarrow> pin_row result" where
  "get_pin_row s t i = ok_or PinNotSet (find_pin s t i)"

text \<open>\<open>UPDATE pins SET ... WHERE id = ?1\<close>.\<close>

definition update_pin :: "int \<Rightarrow> (pin_row \<Rightarrow> pin_row) \<Rightarrow> store \<Rightarrow> store" where
  "update_pin i f s = s\<lparr>pin_rows := map (\<lambda>r. if p_id r = i then f r else r) (pin_rows s)\<rparr>"

definition upsert_pin :: "resource_type \<Rightarrow> int \<Rightarrow> bytes \<Rightarrow> bytes \<Rightarrow> bool \<Rightarrow> int \<Rightarrow> (store, unit) op" where
  "upsert_pin t i hash salt every ttl = (\<lambda>s.
     if ttl \<le> 0 then (Err (Db ConstraintViolation), s)
     else case find_pin s t i of
       Some r \<Rightarrow> (Ok (), update_pin (p_id r) (\<lambda>r. r\<lparr>p_hash := hash, p_salt := salt, p_every_use := every,
                    p_ttl := ttl, p_attempts := 0, p_locked := None, p_until := None\<rparr>) s)
     | None \<Rightarrow> (Ok (), s\<lparr>pin_rows := pin_rows s @
         [\<lparr> p_id = next_rowid (map p_id (pin_rows s)), p_type = t, p_resource = i, p_hash = hash,
            p_salt = salt, p_every_use = every, p_ttl = ttl, p_attempts = 0, p_locked = None,
            p_until = None \<rparr>]\<rparr>))"

definition set_pin :: "crates \<Rightarrow> resource_type \<Rightarrow> int \<Rightarrow> string \<Rightarrow> bool \<Rightarrow> int \<Rightarrow> (store, unit) op" where
  "set_pin C t i pin every ttl =
     (if \<not> is_four_digit_pin pin then fail InvalidPin
      else bind (random_salt C) (\<lambda>salt.
           bind (lift_result (derive_key C pin salt)) (\<lambda>hash.
           upsert_pin t i hash salt every ttl)))"

definition has_pin :: "store \<Rightarrow> resource_type \<Rightarrow> int \<Rightarrow> bool result" where
  "has_pin s t i =
     (case get_pin_row s t i of Ok _ \<Rightarrow> Ok True | Err e \<Rightarrow> if e = PinNotSet then Ok False else Err e)"

definition verification_required :: "store \<Rightarrow> resource_type \<Rightarrow> int \<Rightarrow> bool result" where
  "verification_required s t i =
     (case get_pin_row s t i of
        Err e \<Rightarrow> if e = PinNotSet then Ok False else Err e
      | Ok r \<Rightarrow> if p_every_use r \<or> p_locked r \<noteq> None then Ok True
                else case p_until r of None \<Rightarrow> Ok True | Some u \<Rightarrow> Ok (u \<le> clock s))"

definition window_open :: "store \<Rightarrow> pin_row \<Rightarrow> bool" where
  "window_open s r \<longleftrightarrow> \<not> p_every_use r \<and> (case p_until r of None \<Rightarrow> False | Some u \<Rightarrow> u > clock s)"

text \<open>The wrong-PIN branch: count the attempt, read the count back, lock at the limit.\<close>

definition count_attempt :: "int \<Rightarrow> (store, unit) op" where
  "count_attempt pid =
     bind (modify (update_pin pid (\<lambda>r. r\<lparr>p_attempts := p_attempts r + 1\<rparr>))) (\<lambda>_.
     bind (asks (\<lambda>s. query_row (find (\<lambda>r. p_id r = pid) (pin_rows s)))) (\<lambda>r.
     bind (if p_attempts r \<ge> MAX_ATTEMPTS
           then modify (\<lambda>s. update_pin pid (\<lambda>r. r\<lparr>p_locked := Some (clock s)\<rparr>) s) else ret ()) (\<lambda>_.
     fail PinMismatch)))"

definition accept_pin :: "pin_row \<Rightarrow> (store, unit) op" where
  "accept_pin r =
     (if p_every_use r then modify (update_pin (p_id r) (\<lambda>r. r\<lparr>p_attempts := 0\<rparr>))
      else modify (\<lambda>s. update_pin (p_id r)
             (\<lambda>q. q\<lparr>p_attempts := 0, p_until := datetime_plus (clock s) (p_ttl r)\<rparr>) s))"

definition verify_pin :: "crates \<Rightarrow> resource_type \<Rightarrow> int \<Rightarrow> string \<Rightarrow> (store, unit) op" where
  "verify_pin C t i pin =
     bind (asks (\<lambda>s. get_pin_row s t i)) (\<lambda>r.
     if p_locked r \<noteq> None then fail PinLocked
     else bind (asks (\<lambda>s. Ok (window_open s r))) (\<lambda>still_valid.
       if still_valid then ret ()
       else bind (lift_result (derive_key C pin (p_salt r))) (\<lambda>candidate.
         if candidate \<noteq> p_hash r then count_attempt (p_id r) else accept_pin r)))"

definition relock :: "resource_type \<Rightarrow> int \<Rightarrow> (store, unit) op" where
  "relock t i = modify (\<lambda>s. s\<lparr>pin_rows :=
     map (\<lambda>r. if pin_of t i r then r\<lparr>p_until := None\<rparr> else r) (pin_rows s)\<rparr>)"

section \<open>The invariant\<close>

text \<open>Ids are unique, a resource has one PIN, and a PIN at the limit is locked.\<close>

definition pins_ok :: "store \<Rightarrow> bool" where
  "pins_ok s \<longleftrightarrow> distinct (map p_id (pin_rows s))
     \<and> distinct (map (\<lambda>r. (p_type r, p_resource r)) (pin_rows s))
     \<and> (\<forall>r \<in> set (pin_rows s). 0 \<le> p_attempts r \<and> 0 < p_ttl r
          \<and> (p_locked r = None \<longrightarrow> p_attempts r < MAX_ATTEMPTS))"

text \<open>An update that keeps the identifying columns changes exactly the row it names.\<close>

definition same_pin :: "(pin_row \<Rightarrow> pin_row) \<Rightarrow> bool" where
  "same_pin f \<longleftrightarrow> (\<forall>r. p_id (f r) = p_id r \<and> p_type (f r) = p_type r \<and> p_resource (f r) = p_resource r)"

lemma update_pin_ids:
  assumes "same_pin f"
  shows "map p_id (pin_rows (update_pin i f s)) = map p_id (pin_rows s)"
    "map (\<lambda>r. (p_type r, p_resource r)) (pin_rows (update_pin i f s)) =
     map (\<lambda>r. (p_type r, p_resource r)) (pin_rows s)"
  using assms by (simp_all add: update_pin_def same_pin_def)

lemma find_pin_mem: "find_pin s t i = Some r \<Longrightarrow> r \<in> set (pin_rows s) \<and> p_type r = t \<and> p_resource r = i"
  using find_SomeD [of "pin_of t i"] by (auto simp: find_pin_def pin_of_def)

lemma find_map_same:
  assumes "\<And>r. P (f r) = P r"
  shows "find P (map f rs) = map_option f (find P rs)"
  using assms by (induction rs) auto

lemma find_pin_update:
  assumes "same_pin f" "find_pin s t i = Some r"
  shows "find_pin (update_pin (p_id r) f s) t i = Some (f r)"
proof -
  have "find_pin (update_pin (p_id r) f s) t i =
      map_option (\<lambda>q. if p_id q = p_id r then f q else q) (find_pin s t i)"
    unfolding find_pin_def update_pin_def
    using assms(1) by (simp add: find_map_same pin_of_def same_pin_def)
  then show ?thesis using assms(2) by simp
qed

lemma find_id_update:
  assumes "same_pin f" "pins_ok s" "r \<in> set (pin_rows s)"
  shows "find (\<lambda>q. p_id q = p_id r) (pin_rows (update_pin (p_id r) f s)) = Some (f r)"
proof -
  have "find (\<lambda>q. p_id q = p_id r) (pin_rows s) = Some r"
    using assms(2,3) by (simp add: pins_ok_def find_unique)
  then show ?thesis
    using assms(1) by (simp add: update_pin_def find_map_same same_pin_def)
qed

lemma update_pin_simps [simp]:
  "clock (update_pin i f s) = clock s" "draws (update_pin i f s) = draws s"
  by (simp_all add: update_pin_def)

lemma update_pin_twice:
  "same_pin f \<Longrightarrow> update_pin i g (update_pin i f s) = update_pin i (\<lambda>r. g (f r)) s"
  by (auto simp: update_pin_def same_pin_def)

lemma pins_ok_update:
  assumes "pins_ok s" "same_pin f"
    and "\<And>r. r \<in> set (pin_rows s) \<Longrightarrow> p_id r = i \<Longrightarrow> 0 \<le> p_attempts (f r) \<and> 0 < p_ttl (f r)
          \<and> (p_locked (f r) = None \<longrightarrow> p_attempts (f r) < MAX_ATTEMPTS)"
  shows "pins_ok (update_pin i f s)"
proof -
  have "\<forall>r \<in> set (pin_rows (update_pin i f s)). 0 \<le> p_attempts r \<and> 0 < p_ttl r
          \<and> (p_locked r = None \<longrightarrow> p_attempts r < MAX_ATTEMPTS)"
    using assms(1,3) by (auto simp: update_pin_def pins_ok_def)
  then show ?thesis using assms(1) unfolding pins_ok_def update_pin_ids [OF assms(2)] by blast
qed

definition attempted :: "int \<Rightarrow> pin_row \<Rightarrow> pin_row" where
  "attempted now r = r\<lparr>p_attempts := p_attempts r + 1,
     p_locked := if p_attempts r + 1 \<ge> MAX_ATTEMPTS then Some now else p_locked r\<rparr>"

definition accepted :: "int \<Rightarrow> pin_row \<Rightarrow> pin_row" where
  "accepted now r = r\<lparr>p_attempts := 0,
     p_until := if p_every_use r then p_until r else datetime_plus now (p_ttl r)\<rparr>"

lemma same_pin_simps [simp]:
  "same_pin (attempted now)" "same_pin (accepted now)"
  "same_pin (\<lambda>r. r\<lparr>p_attempts := h r\<rparr>)"
  "same_pin (\<lambda>r. r\<lparr>p_locked := l\<rparr>)"
  "same_pin (\<lambda>r. r\<lparr>p_hash := a, p_salt := b, p_every_use := c, p_ttl := d, p_attempts := e, p_locked := g, p_until := u\<rparr>)"
  by (simp_all add: same_pin_def attempted_def accepted_def)

lemma update_pin_cong:
  assumes "pins_ok s" "r \<in> set (pin_rows s)" "f r = g r"
  shows "update_pin (p_id r) f s = update_pin (p_id r) g s"
proof -
  have "(if p_id q = p_id r then f q else q) = (if p_id q = p_id r then g q else q)" if "q \<in> set (pin_rows s)" for q
  proof (cases "p_id q = p_id r")
    case True
    have "inj_on p_id (set (pin_rows s))" using assms(1) by (simp add: pins_ok_def distinct_map)
    from inj_onD [OF this True that assms(2)] have "q = r" .
    then show ?thesis by (simp only: assms(3))
  qed simp
  then have "map (\<lambda>q. if p_id q = p_id r then f q else q) (pin_rows s)
      = map (\<lambda>q. if p_id q = p_id r then g q else q) (pin_rows s)" by (rule map_cong [OF refl])
  then show ?thesis unfolding update_pin_def by (rule arg_cong)
qed

lemma count_attempt_run:
  assumes "pins_ok s" "r \<in> set (pin_rows s)" "p_locked r = None"
  shows "count_attempt (p_id r) s = (Err PinMismatch, update_pin (p_id r) (attempted (clock s)) s)"
proof -
  let ?inc = "\<lambda>r. r\<lparr>p_attempts := p_attempts r + 1\<rparr>"
  let ?lock = "\<lambda>r. r\<lparr>p_locked := Some (clock s)\<rparr>"
  have f: "find (\<lambda>q. p_id q = p_id r) (pin_rows (update_pin (p_id r) ?inc s)) = Some (?inc r)"
    by (rule find_id_update) (use assms in simp_all)
  show ?thesis
  proof (cases "p_attempts r + 1 \<ge> MAX_ATTEMPTS")
    case True
    have "update_pin (p_id r) ?lock (update_pin (p_id r) ?inc s) = update_pin (p_id r) (attempted (clock s)) s"
      unfolding update_pin_twice [OF same_pin_simps(3)]
      by (rule update_pin_cong [OF assms(1,2)]) (use True in \<open>simp add: attempted_def\<close>)
    then show ?thesis using f True by (simp add: count_attempt_def)
  next
    case False
    have "update_pin (p_id r) ?inc s = update_pin (p_id r) (attempted (clock s)) s"
      by (rule update_pin_cong [OF assms(1,2)]) (use False assms(3) in \<open>simp add: attempted_def\<close>)
    then show ?thesis using f False by (simp add: count_attempt_def)
  qed
qed

text \<open>What \<open>verify_pin\<close> does on each of its branches.\<close>

lemma verify_pin_run:
  assumes "pins_ok s" "find_pin s t i = Some r"
  shows "verify_pin C t i pin s =
    (if p_locked r \<noteq> None then (Err PinLocked, s)
     else if window_open s r then (Ok (), s)
     else case argon2id C pin (p_salt r) of
       None \<Rightarrow> (Err KeyDerivationFailed, s)
     | Some h \<Rightarrow> if h \<noteq> p_hash r then (Err PinMismatch, update_pin (p_id r) (attempted (clock s)) s)
                 else (Ok (), update_pin (p_id r) (accepted (clock s)) s))"
proof -
  have r: "r \<in> set (pin_rows s)" using find_pin_mem [OF assms(2)] by blast
  have acc: "accept_pin r s = (Ok (), update_pin (p_id r) (accepted (clock s)) s)"
  proof (cases "p_every_use r")
    case True
    have "update_pin (p_id r) (\<lambda>r. r\<lparr>p_attempts := 0\<rparr>) s = update_pin (p_id r) (accepted (clock s)) s"
      by (rule update_pin_cong [OF assms(1) r]) (use True in \<open>simp add: accepted_def\<close>)
    then show ?thesis using True by (simp add: accept_pin_def)
  next
    case False
    have "update_pin (p_id r) (\<lambda>q. q\<lparr>p_attempts := 0, p_until := datetime_plus (clock s) (p_ttl r)\<rparr>) s
        = update_pin (p_id r) (accepted (clock s)) s"
      by (rule update_pin_cong [OF assms(1) r]) (use False in \<open>simp add: accepted_def\<close>)
    then show ?thesis using False by (simp add: accept_pin_def)
  qed
  show ?thesis
    using assms(2) acc count_attempt_run [OF assms(1) r]
    by (simp add: verify_pin_def get_pin_row_def derive_key_def split: option.split)
qed

lemma verify_pin_absent: "find_pin s t i = None \<Longrightarrow> verify_pin C t i pin s = (Err PinNotSet, s)"
  by (simp add: verify_pin_def get_pin_row_def)

lemma pins_ok_attempted: "pins_ok s \<Longrightarrow> pins_ok (update_pin i (attempted now) s)"
  by (rule pins_ok_update) (auto simp: attempted_def pins_ok_def)

lemma pins_ok_accepted: "pins_ok s \<Longrightarrow> pins_ok (update_pin i (accepted now) s)"
  by (rule pins_ok_update) (auto simp: accepted_def pins_ok_def MAX_ATTEMPTS_def)

lemma verify_pin_keeps: "keeps pins_ok (verify_pin C t i pin)"
proof (rule keepsI)
  fix s assume ok: "pins_ok s"
  show "pins_ok (snd (verify_pin C t i pin s))"
  proof (cases "find_pin s t i")
    case None
    then show ?thesis using ok by (simp add: verify_pin_absent)
  next
    case (Some r)
    then show ?thesis
      using ok pins_ok_attempted pins_ok_accepted
      by (simp add: verify_pin_run [OF ok Some] split: option.split)
  qed
qed

section \<open>Lockout\<close>

text \<open>Guesses in order, each after some seconds have passed.\<close>

definition wait :: "int \<Rightarrow> store \<Rightarrow> store" where
  "wait d s = s\<lparr>clock := clock s + d\<rparr>"

fun guess_run :: "crates \<Rightarrow> resource_type \<Rightarrow> int \<Rightarrow> (int \<times> string) list \<Rightarrow> store \<Rightarrow> unit result list \<times> store" where
  "guess_run C t i [] s = ([], s)"
| "guess_run C t i ((d, pin) # gs) s =
     (let (r, s1) = verify_pin C t i pin (wait d s); (rs, s2) = guess_run C t i gs s1 in (r # rs, s2))"

definition wrong_pin :: "crates \<Rightarrow> pin_row \<Rightarrow> string \<Rightarrow> bool" where
  "wrong_pin C r pin \<longleftrightarrow> (case argon2id C pin (p_salt r) of None \<Rightarrow> False | Some h \<Rightarrow> h \<noteq> p_hash r)"

lemma wait_simps [simp]:
  "pin_rows (wait d s) = pin_rows s" "find_pin (wait d s) t i = find_pin s t i"
  "pins_ok (wait d s) = pins_ok s" "clock (wait d s) = clock s + d"
  by (simp_all add: wait_def find_pin_def pins_ok_def)

lemma window_stays_closed: "\<not> window_open s r \<Longrightarrow> 0 \<le> d \<Longrightarrow> \<not> window_open (wait d s) r"
  by (auto simp: window_open_def split: option.splits)

lemma wrong_pin_attempted: "wrong_pin C (attempted now r) pin = wrong_pin C r pin"
  by (simp add: wrong_pin_def attempted_def split: option.split)

lemma verify_wrong:
  assumes "pins_ok s" "find_pin s t i = Some r" "p_locked r = None" "\<not> window_open s r" "wrong_pin C r pin"
  shows "verify_pin C t i pin s = (Err PinMismatch, update_pin (p_id r) (attempted (clock s)) s)"
  using assms(3-5) unfolding verify_pin_run [OF assms(1,2)] wrong_pin_def by (simp split: option.splits)

lemma locked_run:
  assumes "pins_ok s" "find_pin s t i = Some r" "p_locked r \<noteq> None"
  shows "fst (guess_run C t i gs s) = replicate (length gs) (Err PinLocked)
     \<and> find_pin (snd (guess_run C t i gs s)) t i = Some r \<and> pins_ok (snd (guess_run C t i gs s))"
  using assms
proof (induction gs arbitrary: s)
  case (Cons g gs)
  obtain d pin where g: "g = (d, pin)" by force
  have "verify_pin C t i pin (wait d s) = (Err PinLocked, wait d s)"
    using verify_pin_run [of "wait d s" t i r C pin] Cons.prems by simp
  moreover have "pins_ok (wait d s)" "find_pin (wait d s) t i = Some r" using Cons.prems by simp_all
  ultimately show ?case using Cons.IH [of "wait d s"] Cons.prems(3) by (auto simp: g split: prod.split)
qed simp

text \<open>
  C12: Wrong PINs are answered \<open>PinMismatch\<close> until the stored count reaches eight and
  \<open>PinLocked\<close> from then on, however long one waits between them; once that has happened no
  PIN is accepted any more, the right one included.
\<close>
theorem pin_lockout:
  assumes "pins_ok s" "find_pin s t i = Some r" "p_locked r = None" "\<not> window_open s r"
    and "\<forall>(d, pin) \<in> set gs. 0 \<le> d \<and> wrong_pin C r pin"
    and "left = nat (8 - p_attempts r)"
  shows "fst (guess_run C t i gs s) =
           replicate (min left (length gs)) (Err PinMismatch) @ replicate (length gs - left) (Err PinLocked)
     \<and> (left \<le> length gs \<longrightarrow> (\<forall>pin. fst (verify_pin C t i pin (snd (guess_run C t i gs s))) = Err PinLocked))"
  using assms
proof (induction gs arbitrary: s r left)
  case Nil
  have "p_attempts r < 8"
    using Nil.prems(1-3) find_pin_mem [OF Nil.prems(2)] by (auto simp: pins_ok_def MAX_ATTEMPTS_def)
  then show ?case using Nil.prems(6) by simp
next
  case (Cons g gs)
  obtain d pin where g: "g = (d, pin)" by force
  let ?t = "wait d s"
  let ?u = "update_pin (p_id r) (attempted (clock ?t)) ?t" and ?r = "attempted (clock ?t) r"
  have r: "r \<in> set (pin_rows s)" using find_pin_mem [OF Cons.prems(2)] by blast
  have lt: "0 \<le> p_attempts r" "p_attempts r < 8"
    using Cons.prems(1,3) r by (auto simp: pins_ok_def MAX_ATTEMPTS_def)
  have w: "0 \<le> d" "wrong_pin C r pin" and ws: "\<forall>(d, pin) \<in> set gs. 0 \<le> d \<and> wrong_pin C r pin"
    using Cons.prems(5) g by auto
  have cl: "\<not> window_open ?t r" by (rule window_stays_closed [OF Cons.prems(4) w(1)])
  have v: "verify_pin C t i pin ?t = (Err PinMismatch, ?u)"
    by (rule verify_wrong) (use Cons.prems(1-3) cl w(2) in simp_all)
  have run: "guess_run C t i (g # gs) s = (Err PinMismatch # fst (guess_run C t i gs ?u), snd (guess_run C t i gs ?u))"
    by (simp add: g v split: prod.split)
  have ok: "pins_ok ?u" using pins_ok_attempted Cons.prems(1) by simp
  have f: "find_pin ?u t i = Some ?r" by (rule find_pin_update) (use Cons.prems(2) in simp_all)
  have left: "left = Suc (nat (8 - p_attempts ?r))" using Cons.prems(6) lt by (simp add: attempted_def)
  show ?case
  proof (cases "p_locked ?r = None")
    case True
    have "\<not> window_open ?u ?r" using cl by (simp add: window_open_def attempted_def split: option.splits)
    moreover have "\<forall>(d, pin) \<in> set gs. 0 \<le> d \<and> wrong_pin C ?r pin"
      using ws by (simp add: wrong_pin_attempted)
    ultimately show ?thesis
      using Cons.IH [OF ok f True _ _ refl] unfolding run left by simp
  next
    case False
    then have "nat (8 - p_attempts ?r) = 0"
      using Cons.prems(3) by (simp add: attempted_def MAX_ATTEMPTS_def split: if_splits)
    moreover note lk = locked_run [OF ok f False, of C gs]
    moreover have "fst (verify_pin C t i p (snd (guess_run C t i gs ?u))) = Err PinLocked" for p
      using verify_pin_run [of "snd (guess_run C t i gs ?u)" t i ?r C p] lk False by simp
    ultimately show ?thesis unfolding run left by simp
  qed
qed

definition pin_store :: store where
  "pin_store = empty_store\<lparr>pin_rows := [\<lparr> p_id = 1, p_type = Credential, p_resource = 5,
     p_hash = take 32 (as_bytes ''1234'' @ [9] @ replicate 32 0), p_salt = [9], p_every_use = False,
     p_ttl = 60, p_attempts = 6, p_locked = None, p_until = None \<rparr>], clock := 1000\<rparr>"

theorem pin_lockout_witness:
  "fst (guess_run toy Credential 5 [(0, ''0000''), (3, ''1111''), (9, ''2222'')] pin_store) =
     [Err PinMismatch, Err PinMismatch, Err PinLocked]
   \<and> fst (verify_pin toy Credential 5 ''1234''
            (snd (guess_run toy Credential 5 [(0, ''0000''), (3, ''1111''), (9, ''2222'')] pin_store))) = Err PinLocked"
proof -
  let ?r = "hd (pin_rows pin_store)"
  have ok: "pins_ok pin_store" "find_pin pin_store Credential 5 = Some ?r" "p_locked ?r = None" "\<not> window_open pin_store ?r"
    by (simp_all add: pin_store_def pins_ok_def MAX_ATTEMPTS_def find_pin_def pin_of_def window_open_def)
  have "\<forall>(d, pin) \<in> set [(0 :: int, ''0000''), (3, ''1111''), (9, ''2222'')]. 0 \<le> d \<and> wrong_pin toy ?r pin"
    by (simp add: pin_store_def wrong_pin_def as_bytes_def)
  moreover have "Suc (Suc 0) = nat (8 - p_attempts ?r)" by (simp add: pin_store_def)
  note r = pin_lockout [OF ok _ this, of "[(0, ''0000''), (3, ''1111''), (9, ''2222'')]" toy]
  ultimately show ?thesis using r by (simp del: guess_run.simps)
qed

section \<open>The window\<close>

text \<open>
  \<open>verification_required\<close> and \<open>verify_pin\<close> agree: when no verification is required every
  PIN is waved through and nothing is written; when it is required, \<open>verify_pin\<close> succeeds
  for exactly the PINs whose hash is the stored one, on a PIN that is not locked.
\<close>
theorem required_agrees:
  assumes "pins_ok s" "find_pin s t i = Some r"
  shows "(verification_required s t i = Ok False \<longrightarrow> verify_pin C t i pin s = (Ok (), s))
     \<and> (verification_required s t i = Ok True \<longrightarrow>
          (fst (verify_pin C t i pin s) = Ok () \<longleftrightarrow> p_locked r = None \<and> argon2id C pin (p_salt r) = Some (p_hash r)))
     \<and> (\<exists>b. verification_required s t i = Ok b)"
  using assms(2) unfolding verify_pin_run [OF assms]
  by (auto simp: verification_required_def get_pin_row_def window_open_def split: option.splits)

theorem required_agrees_witness:
  "verification_required pin_store Credential 5 = Ok True
   \<and> fst (verify_pin toy Credential 5 ''1234'' pin_store) = Ok ()"
proof -
  let ?r = "hd (pin_rows pin_store)"
  have ok: "pins_ok pin_store" "find_pin pin_store Credential 5 = Some ?r"
    by (simp_all add: pin_store_def pins_ok_def MAX_ATTEMPTS_def find_pin_def pin_of_def)
  have "verification_required pin_store Credential 5 = Ok True"
    by (simp add: pin_store_def verification_required_def get_pin_row_def find_pin_def pin_of_def)
  moreover have "p_locked ?r = None" "argon2id toy ''1234'' (p_salt ?r) = Some (p_hash ?r)"
    by (simp_all add: pin_store_def as_bytes_def)
  ultimately show ?thesis using required_agrees [OF ok, of toy "''1234''"] by simp
qed

text \<open>
  A correct PIN clears the count, and a one-time PIN opens a window: for exactly
  \<open>ttl_seconds\<close> seconds no further verification is required, unless \<open>relock\<close> closes the window
  early. A PIN required for every use opens none.
\<close>
theorem verify_opens_window:
  assumes "pins_ok s" "find_pin s t i = Some r" "p_locked r = None" "\<not> window_open s r"
    and "argon2id C pin (p_salt r) = Some (p_hash r)" "datetime_plus (clock s) (p_ttl r) = Some u" "0 \<le> d"
  shows "\<exists>s'. verify_pin C t i pin s = (Ok (), s')
     \<and> (\<exists>q. find_pin s' t i = Some q \<and> p_attempts q = 0 \<and> p_hash q = p_hash r)
     \<and> verification_required (wait d s') t i = Ok (p_every_use r \<or> p_ttl r \<le> d)
     \<and> verification_required (wait d (snd (relock t i s'))) t i = Ok True"
proof -
  let ?s' = "update_pin (p_id r) (accepted (clock s)) s"
  have v: "verify_pin C t i pin s = (Ok (), ?s')"
    unfolding verify_pin_run [OF assms(1,2)] using assms(3-5) by simp
  have f: "find_pin ?s' t i = Some (accepted (clock s) r)"
    by (rule find_pin_update) (use assms(2) in simp_all)
  have "find_pin (snd (relock t i ?s')) t i
      = map_option (\<lambda>q. if pin_of t i q then q\<lparr>p_until := None\<rparr> else q) (find_pin ?s' t i)"
    unfolding find_pin_def relock_def by (simp add: find_map_same pin_of_def)
  then have g: "find_pin (snd (relock t i ?s')) t i = Some ((accepted (clock s) r)\<lparr>p_until := None\<rparr>)"
    using f find_pin_mem [OF f] by (simp add: pin_of_def)
  have "verification_required (wait d ?s') t i = Ok (p_every_use r \<or> p_ttl r \<le> d)"
    using f assms(3,6) datetime_plus_SomeD [OF assms(6)]
    by (auto simp: verification_required_def get_pin_row_def accepted_def)
  moreover have "verification_required (wait d (snd (relock t i ?s'))) t i = Ok True"
    using g by (simp add: verification_required_def get_pin_row_def)
  ultimately show ?thesis using v f by (auto simp: accepted_def)
qed

theorem verify_opens_window_witness:
  "\<exists>s'. verify_pin toy Credential 5 ''1234'' pin_store = (Ok (), s')
     \<and> verification_required (wait 59 s') Credential 5 = Ok False"
proof -
  let ?r = "hd (pin_rows pin_store)"
  have ok: "pins_ok pin_store" "find_pin pin_store Credential 5 = Some ?r" "p_locked ?r = None"
    "\<not> window_open pin_store ?r" "argon2id toy ''1234'' (p_salt ?r) = Some (p_hash ?r)"
    "datetime_plus (clock pin_store) (p_ttl ?r) = Some 1060"
    by (simp_all add: pin_store_def pins_ok_def MAX_ATTEMPTS_def find_pin_def pin_of_def window_open_def
        as_bytes_def datetime_plus_def SECOND_LIMIT_def TIME_MIN_def TIME_MAX_def)
  have "p_every_use ?r = False" "p_ttl ?r = 60" by (simp_all add: pin_store_def)
  then show ?thesis using verify_opens_window [OF ok, of 59] by auto
qed

section \<open>Setting a PIN\<close>

lemma find_pin_other:
  assumes "same_pin f" "pins_ok s" "find_pin s t i = Some r" "(t', i') \<noteq> (t, i)"
  shows "find_pin (update_pin (p_id r) f s) t' i' = find_pin s t' i'"
proof -
  have "find_pin (update_pin (p_id r) f s) t' i' =
      map_option (\<lambda>q. if p_id q = p_id r then f q else q) (find_pin s t' i')"
    unfolding find_pin_def update_pin_def
    using assms(1) by (simp add: find_map_same pin_of_def same_pin_def)
  also have "\<dots> = find_pin s t' i'"
  proof (cases "find_pin s t' i'")
    case (Some q)
    have "p_id q \<noteq> p_id r"
    proof
      assume "p_id q = p_id r"
      moreover have "inj_on p_id (set (pin_rows s))" using assms(2) by (simp add: pins_ok_def distinct_map)
      ultimately have "q = r"
        using find_pin_mem [OF Some] find_pin_mem [OF assms(3)] by (blast dest: inj_onD)
      then show False using find_pin_mem [OF Some] find_pin_mem [OF assms(3)] assms(4) by simp
    qed
    then show ?thesis using Some by simp
  qed simp
  finally show ?thesis .
qed

lemma upsert_pin_spec:
  assumes ok: "pins_ok s" and ttl: "0 < ttl"
  shows "\<exists>s'. upsert_pin t i hash salt every ttl s = (Ok (), s') \<and> pins_ok s'
     \<and> (\<exists>q. find_pin s' t i = Some q \<and> p_hash q = hash \<and> p_salt q = salt \<and> p_every_use q = every \<and> p_ttl q = ttl
            \<and> p_attempts q = 0 \<and> p_locked q = None \<and> p_until q = None)
     \<and> (\<forall>t' i'. (t', i') \<noteq> (t, i) \<longrightarrow> find_pin s' t' i' = find_pin s t' i')"
proof (cases "find_pin s t i")
  case (Some r)
  let ?f = "\<lambda>r. r\<lparr>p_hash := hash, p_salt := salt, p_every_use := every,
                    p_ttl := ttl, p_attempts := 0, p_locked := None, p_until := None\<rparr>"
  have "pins_ok (update_pin (p_id r) ?f s)"
    by (rule pins_ok_update [OF ok]) (use ttl in \<open>simp_all add: MAX_ATTEMPTS_def\<close>)
  moreover have "find_pin (update_pin (p_id r) ?f s) t i = Some (?f r)"
    by (rule find_pin_update [OF _ Some]) simp
  ultimately show ?thesis
    using Some ttl find_pin_other [OF _ ok Some, of ?f] by (simp add: upsert_pin_def)
next
  case None
  let ?q = "\<lparr> p_id = next_rowid (map p_id (pin_rows s)), p_type = t, p_resource = i, p_hash = hash,
            p_salt = salt, p_every_use = every, p_ttl = ttl, p_attempts = 0, p_locked = None,
            p_until = None \<rparr>"
  let ?s = "s\<lparr>pin_rows := pin_rows s @ [?q]\<rparr>"
  have "next_rowid (map p_id (pin_rows s)) \<notin> p_id ` set (pin_rows s)"
    using next_rowid_fresh [of "map p_id (pin_rows s)"] by simp
  moreover have "(p_type r, p_resource r) \<noteq> (t, i)" if "r \<in> set (pin_rows s)" for r
    using None that by (auto simp: find_pin_def find_None_iff_all pin_of_def)
  ultimately have "pins_ok ?s"
    using ok ttl unfolding pins_ok_def by (auto simp: MAX_ATTEMPTS_def)
  moreover have "find_pin ?s t i = Some ?q" using None by (simp add: find_pin_def find_append pin_of_def)
  moreover have "find_pin ?s t' i' = find_pin s t' i'" if "(t', i') \<noteq> (t, i)" for t' i'
    using that by (auto simp: find_pin_def find_append pin_of_def split: option.splits)
  ultimately show ?thesis using None ttl by (simp add: upsert_pin_def)
qed

text \<open>
  \<open>set_pin\<close> succeeds for exactly the four-digit PINs with a positive window (the hash
  permitting); it then stores the hash under a fresh salt with no attempts, lock or window
  left over, and no other resource's PIN changes. When it fails no PIN changes at all.
\<close>
theorem set_pin_resets:
  assumes "pins_ok s" "set_pin C t i pin every ttl s = (res, s')" "salt = os_bytes C (draws s) 16"
  shows "(res = Ok () \<longleftrightarrow> is_four_digit_pin pin \<and> argon2id C pin salt \<noteq> None \<and> 0 < ttl)
     \<and> pins_ok s' \<and> (res \<noteq> Ok () \<longrightarrow> pin_rows s' = pin_rows s)
     \<and> (res = Ok () \<longrightarrow> (\<exists>q. find_pin s' t i = Some q \<and> argon2id C pin (p_salt q) = Some (p_hash q)
          \<and> p_salt q = salt \<and> p_every_use q = every \<and> p_ttl q = ttl
          \<and> p_attempts q = 0 \<and> p_locked q = None \<and> p_until q = None)
        \<and> (\<forall>t' i'. (t', i') \<noteq> (t, i) \<longrightarrow> find_pin s' t' i' = find_pin s t' i'))"
proof (cases "is_four_digit_pin pin")
  case False
  then have "res = Err InvalidPin" "s' = s" using assms(2) by (simp_all add: set_pin_def)
  then show ?thesis using False assms(1) by simp
next
  case four: True
  let ?s = "s\<lparr>draws := Suc (draws s)\<rparr>"
  have ok: "pins_ok ?s" using assms(1) by (simp add: pins_ok_def)
  have fp: "find_pin ?s t' i' = find_pin s t' i'" for t' i' by (simp add: find_pin_def)
  show ?thesis
  proof (cases "argon2id C pin salt")
    case None
    then have "res = Err KeyDerivationFailed" "s' = ?s"
      using assms(2,3) four by (simp_all add: set_pin_def derive_key_def bind_run)
    then show ?thesis using None ok by simp
  next
    case (Some hash)
    then have run: "upsert_pin t i hash salt every ttl ?s = (res, s')"
      using assms(2,3) four by (simp add: set_pin_def derive_key_def)
    show ?thesis
    proof (cases "0 < ttl")
      case False
      then have "res = Err (Db ConstraintViolation)" "s' = ?s" using run by (simp_all add: upsert_pin_def)
      then show ?thesis using False ok by simp
    next
      case True
      from upsert_pin_spec [OF ok True, of t i hash salt every] run show ?thesis
        using four Some True by (auto simp: fp)
    qed
  qed
qed

theorem set_pin_resets_witness:
  "fst (set_pin toy Credential 5 ''4321'' True 30 pin_store) = Ok ()
   \<and> fst (set_pin toy Credential 5 ''43210'' True 30 pin_store) \<noteq> Ok ()"
proof -
  have ok: "pins_ok pin_store"
    by (simp add: pin_store_def pins_ok_def MAX_ATTEMPTS_def)
  have four: "is_four_digit_pin ''4321''" "\<not> is_four_digit_pin ''43210''"
    by (simp_all add: is_four_digit_pin_def)
  have "argon2id toy ''4321'' (os_bytes toy (draws pin_store) 16) \<noteq> None" by (simp add: toy_def)
  then show ?thesis
    using set_pin_resets [OF ok prod.collapse [symmetric] refl, of toy Credential 5 "''4321''" True 30]
      set_pin_resets [OF ok prod.collapse [symmetric] refl, of toy Credential 5 "''43210''" True 30] four
    by simp
qed

end
