(* ===== verification/Sharing.thy ===== *)
theory Sharing
  imports Crypto
begin

text \<open>
  The share links of \<open>src/sharing.rs\<close> over the tables \<open>credential_shares\<close> and
  \<open>file_shares\<close>: creation, redemption in one conditional update, the diagnosis of a refused
  redemption, and revocation.
\<close>

section \<open>The two tables\<close>

datatype share_table = CredentialShares | FileShares

fun share_rows :: "share_table \<Rightarrow> store \<Rightarrow> share_row list" where
  "share_rows CredentialShares s = cshare_rows s"
| "share_rows FileShares s = fshare_rows s"

fun put_shares :: "share_table \<Rightarrow> share_row list \<Rightarrow> store \<Rightarrow> store" where
  "put_shares CredentialShares rs s = s\<lparr>cshare_rows := rs\<rparr>"
| "put_shares FileShares rs s = s\<lparr>fshare_rows := rs\<rparr>"

fun resource_ids :: "share_table \<Rightarrow> store \<Rightarrow> int list" where
  "resource_ids CredentialShares s = map c_id (cred_rows s)"
| "resource_ids FileShares s = map l_id (locked_rows s)"

lemma share_table_simps [simp]:
  "share_rows t (put_shares t rs s) = rs"
  "resource_ids t (put_shares t rs s) = resource_ids t s"
  "clock (put_shares t rs s) = clock s"
  "draws (put_shares t rs s) = draws s"
  "share_rows t (s\<lparr>draws := d\<rparr>) = share_rows t s"
  "share_rows t (s\<lparr>clock := k\<rparr>) = share_rows t s"
  "resource_ids t (s\<lparr>draws := d\<rparr>) = resource_ids t s"
  by (cases t; simp)+

section \<open>Operations\<close>

record share =
  sh_id :: int
  sh_token :: string
  sh_expires :: int

definition TOKEN_LEN :: nat where "TOKEN_LEN = 32"

definition generate_token :: "crates \<Rightarrow> (store, string \<times> string) op" where
  "generate_token C = bind (random_bytes C TOKEN_LEN) (\<lambda>raw.
     ret (b64url_encode C raw, hex_encode C (sha256 C raw)))"

definition hash_token :: "crates \<Rightarrow> string \<Rightarrow> string result" where
  "hash_token C token =
     and_then (ok_or InvalidShareToken (b64url_decode C token)) (\<lambda>raw. Ok (hex_encode C (sha256 C raw)))"

definition share_by_hash :: "share_table \<Rightarrow> store \<Rightarrow> string \<Rightarrow> share_row option" where
  "share_by_hash t s h = find (\<lambda>r. s_hash r = h) (share_rows t s)"

definition share_id_for_token :: "crates \<Rightarrow> share_table \<Rightarrow> store \<Rightarrow> string \<Rightarrow> int result" where
  "share_id_for_token C t s token =
     and_then (hash_token C token) (\<lambda>h. ok_or InvalidShareToken (map_option s_id (share_by_hash t s h)))"

text \<open>The \<open>CHECK\<close>s, the \<open>UNIQUE\<close> hash, the foreign key and \<open>expires_at NOT NULL\<close>.\<close>

definition insert_share :: "share_table \<Rightarrow> int \<Rightarrow> string \<Rightarrow> int option \<Rightarrow> int option \<Rightarrow> (store, int) op" where
  "insert_share t resource hash expires max_uses = (\<lambda>s.
     if expires = None \<or> resource \<notin> set (resource_ids t s) \<or> share_by_hash t s hash \<noteq> None
        \<or> (case max_uses of None \<Rightarrow> False | Some m \<Rightarrow> m \<le> 0)
     then (Err (Db ConstraintViolation), s)
     else let i = next_rowid (map s_id (share_rows t s)) in
       (Ok i, put_shares t (share_rows t s @
          [\<lparr> s_id = i, s_resource = resource, s_hash = hash, s_expires = the expires, s_max = max_uses,
             s_uses = 0, s_revoked = None \<rparr>]) s))"

definition create_share :: "crates \<Rightarrow> share_table \<Rightarrow> int \<Rightarrow> int \<Rightarrow> int option \<Rightarrow> (store, share) op" where
  "create_share C t resource ttl max_uses =
     bind (generate_token C) (\<lambda>(token, hash).
     bind (\<lambda>s. insert_share t resource hash (datetime_plus (clock s) ttl) max_uses s) (\<lambda>i.
     bind (asks (\<lambda>s. query_row (map_option s_expires (find (\<lambda>r. s_id r = i) (share_rows t s))))) (\<lambda>e.
     ret \<lparr> sh_id = i, sh_token = token, sh_expires = e \<rparr>)))"

definition eligible :: "store \<Rightarrow> string \<Rightarrow> share_row \<Rightarrow> bool" where
  "eligible s h r \<longleftrightarrow> s_hash r = h \<and> s_revoked r = None \<and> s_expires r > clock s
     \<and> (case s_max r of None \<Rightarrow> True | Some m \<Rightarrow> s_uses r < m)"

text \<open>The conditional \<open>UPDATE\<close>, with the number of rows it changed.\<close>

definition claim_share :: "share_table \<Rightarrow> string \<Rightarrow> (store, nat) op" where
  "claim_share t h = (\<lambda>s.
     (Ok (length (filter (eligible s h) (share_rows t s))),
      put_shares t (map (\<lambda>r. if eligible s h r then r\<lparr>s_uses := s_uses r + 1\<rparr> else r) (share_rows t s)) s))"

definition refusal :: "store \<Rightarrow> share_row \<Rightarrow> error" where
  "refusal s r =
     (if s_revoked r \<noteq> None then ShareRevoked
      else if s_expires r \<le> clock s then ShareExpired
      else ShareExhausted)"

definition redeem_share :: "crates \<Rightarrow> share_table \<Rightarrow> string \<Rightarrow> (store, int) op" where
  "redeem_share C t token =
     bind (lift_result (hash_token C token)) (\<lambda>h.
     bind (claim_share t h) (\<lambda>claimed.
     if claimed = 1 then asks (\<lambda>s. query_row (map_option s_resource (share_by_hash t s h)))
     else bind (asks (\<lambda>s. Ok (share_by_hash t s h))) (\<lambda>row.
       case row of None \<Rightarrow> fail InvalidShareToken
       | Some r \<Rightarrow> bind (asks (\<lambda>s. Ok (refusal s r))) fail)))"

definition revoke_share :: "share_table \<Rightarrow> int \<Rightarrow> (store, unit) op" where
  "revoke_share t i = modify (\<lambda>s. put_shares t
     (map (\<lambda>r. if s_id r = i then r\<lparr>s_revoked := Some (clock s)\<rparr> else r) (share_rows t s)) s)"

definition credential_share_id_for_token :: "crates \<Rightarrow> store \<Rightarrow> string \<Rightarrow> int result" where
  "credential_share_id_for_token C s token = share_id_for_token C CredentialShares s token"

definition file_share_id_for_token :: "crates \<Rightarrow> store \<Rightarrow> string \<Rightarrow> int result" where
  "file_share_id_for_token C s token = share_id_for_token C FileShares s token"

definition create_credential_share :: "crates \<Rightarrow> int \<Rightarrow> int \<Rightarrow> int option \<Rightarrow> (store, share) op" where
  "create_credential_share C i ttl m = create_share C CredentialShares i ttl m"

definition redeem_credential_share :: "crates \<Rightarrow> string \<Rightarrow> (store, int) op" where
  "redeem_credential_share C token = redeem_share C CredentialShares token"

definition revoke_credential_share :: "int \<Rightarrow> (store, unit) op" where
  "revoke_credential_share i = revoke_share CredentialShares i"

definition create_file_share :: "crates \<Rightarrow> int \<Rightarrow> int \<Rightarrow> int option \<Rightarrow> (store, share) op" where
  "create_file_share C i ttl m = create_share C FileShares i ttl m"

definition redeem_file_share :: "crates \<Rightarrow> string \<Rightarrow> (store, int) op" where
  "redeem_file_share C token = redeem_share C FileShares token"

definition revoke_file_share :: "int \<Rightarrow> (store, unit) op" where
  "revoke_file_share i = revoke_share FileShares i"

section \<open>The invariant\<close>

definition shares_ok :: "share_table \<Rightarrow> store \<Rightarrow> bool" where
  "shares_ok t s \<longleftrightarrow> distinct (map s_id (share_rows t s)) \<and> distinct (map s_hash (share_rows t s))
     \<and> (\<forall>r \<in> set (share_rows t s). 0 \<le> s_uses r \<and> (\<forall>m. s_max r = Some m \<longrightarrow> s_uses r \<le> m))"

lemma share_by_hash_mem: "share_by_hash t s h = Some r \<Longrightarrow> r \<in> set (share_rows t s) \<and> s_hash r = h"
  using find_SomeD [of "\<lambda>r. s_hash r = h"] by (auto simp: share_by_hash_def)

lemma share_hash_unique:
  assumes "shares_ok t s" "r \<in> set (share_rows t s)" "r' \<in> set (share_rows t s)" "s_hash r = s_hash r'"
  shows "r = r'"
proof -
  have "inj_on s_hash (set (share_rows t s))" using assms(1) by (simp add: shares_ok_def distinct_map)
  from inj_onD [OF this assms(4,2,3)] show ?thesis .
qed

lemma find_share_map:
  assumes "\<And>r. s_hash (f r) = s_hash r"
  shows "find (\<lambda>r. s_hash r = h) (map f rs) = map_option f (find (\<lambda>r. s_hash r = h) rs)"
  using assms by (induction rs) auto

text \<open>What a redemption does on each branch.\<close>

lemma redeem_run:
  assumes ok: "shares_ok t s" and h: "hash_token C token = Ok h"
  shows "redeem_share C t token s =
    (case share_by_hash t s h of
       None \<Rightarrow> (Err InvalidShareToken, s)
     | Some r \<Rightarrow>
         if eligible s h r
         then (Ok (s_resource r), put_shares t
                (map (\<lambda>r. if eligible s h r then r\<lparr>s_uses := s_uses r + 1\<rparr> else r) (share_rows t s)) s)
         else (Err (refusal s r), s))"
proof -
  let ?el = "eligible s h"
  let ?f = "\<lambda>r. if ?el r then r\<lparr>s_uses := s_uses r + 1\<rparr> else r"
  let ?s = "put_shares t (map ?f (share_rows t s)) s"
  have c: "claim_share t h s = (Ok (length (filter ?el (share_rows t s))), ?s)" by (simp add: claim_share_def)
  have elig: "?el = (\<lambda>x. s_hash x = h \<and> (s_revoked x = None \<and> s_expires x > clock s
      \<and> (case s_max x of None \<Rightarrow> True | Some m \<Rightarrow> s_uses x < m)))"
    by (simp add: eligible_def [abs_def])
  have look: "share_by_hash t ?s h = map_option ?f (share_by_hash t s h)"
    unfolding share_by_hash_def share_table_simps by (rule find_share_map) simp
  have same: "?s = s" if "\<And>r. r \<in> set (share_rows t s) \<Longrightarrow> \<not> ?el r"
  proof -
    have "map ?f (share_rows t s) = share_rows t s" using that by (simp add: map_idI)
    then show ?thesis by (cases t) simp_all
  qed
  show ?thesis
  proof (cases "share_by_hash t s h")
    case None
    then have none: "\<not> ?el r" if "r \<in> set (share_rows t s)" for r
      using that by (auto simp: share_by_hash_def find_None_iff_all eligible_def)
    then have "filter ?el (share_rows t s) = []" by (simp add: filter_empty_conv)
    then show ?thesis
      using c h None look same [OF none] by (simp add: redeem_share_def)
  next
    case (Some r)
    have n: "length (filter ?el (share_rows t s)) = (if ?el r then 1 else 0)"
      using distinct_filter_one [of s_hash "share_rows t s" h r] ok Some share_by_hash_mem [OF Some]
      unfolding elig by (simp add: shares_ok_def share_by_hash_def)
    show ?thesis
    proof (cases "?el r")
      case True
      then show ?thesis using c h n look Some by (simp add: redeem_share_def)
    next
      case False
      then have none: "\<not> ?el q" if "q \<in> set (share_rows t s)" for q
        using share_hash_unique [OF ok that, of r] share_by_hash_mem [OF Some] by (auto simp: eligible_def)
      show ?thesis using c h n look Some False same [OF none] by (simp add: redeem_share_def)
    qed
  qed
qed

lemma redeem_bad_token: "hash_token C token = Err e \<Longrightarrow> redeem_share C t token s = (Err e, s)"
  by (simp add: redeem_share_def bind_run)

section \<open>Limits on redemption\<close>

datatype share_cmd = Redeem string | Revoke int | Wait nat

text \<open>
  One command and whether it redeemed the share whose token hashes to \<open>h\<close>; then the number
  of times a sequence does.
\<close>

fun share_step :: "crates \<Rightarrow> share_table \<Rightarrow> string \<Rightarrow> share_cmd \<Rightarrow> store \<Rightarrow> bool \<times> store" where
  "share_step C t h (Redeem token) s =
     (let (r, s') = redeem_share C t token s in (is_ok r \<and> hash_token C token = Ok h, s'))"
| "share_step C t h (Revoke i) s = (False, snd (revoke_share t i s))"
| "share_step C t h (Wait d) s = (False, s\<lparr>clock := clock s + int d\<rparr>)"

fun redemptions :: "crates \<Rightarrow> share_table \<Rightarrow> string \<Rightarrow> share_cmd list \<Rightarrow> store \<Rightarrow> nat" where
  "redemptions C t h [] s = 0"
| "redemptions C t h (c # cs) s =
     (let (b, s') = share_step C t h c s in (if b then 1 else 0) + redemptions C t h cs s')"

text \<open>The update of one row leaves the identifying columns alone.\<close>

lemma shares_ok_map:
  assumes "shares_ok t s" "\<And>r. s_id (f r) = s_id r \<and> s_hash (f r) = s_hash r \<and> s_max (f r) = s_max r"
    and "\<And>r. r \<in> set (share_rows t s) \<Longrightarrow> 0 \<le> s_uses (f r) \<and> (\<forall>m. s_max r = Some m \<longrightarrow> s_uses (f r) \<le> m)"
  shows "shares_ok t (put_shares t (map f (share_rows t s)) s)"
  using assms by (auto simp: shares_ok_def comp_def)

lemma share_step_spec:
  assumes ok: "shares_ok t s" and r: "share_by_hash t s h = Some r"
    and st: "share_step C t h c s = (b, s')"
  shows "shares_ok t s' \<and> clock s \<le> clock s'
    \<and> (\<exists>q. share_by_hash t s' h = Some q \<and> s_max q = s_max r \<and> s_expires q = s_expires r
         \<and> (s_revoked r \<noteq> None \<longrightarrow> s_revoked q \<noteq> None)
         \<and> s_uses q = s_uses r + (if b then 1 else 0) \<and> (b \<longrightarrow> eligible s h r))"
proof (cases c)
  case (Redeem token)
  show ?thesis
  proof (cases "hash_token C token")
    case (Inl e)
    then show ?thesis using st ok r Redeem by (simp add: redeem_bad_token)
  next
    case (Inr g)
    show ?thesis
    proof (cases "\<exists>q. share_by_hash t s g = Some q \<and> eligible s g q")
      case False
      then have "redeem_share C t token s = (fst (redeem_share C t token s), s) \<and> \<not> is_ok (fst (redeem_share C t token s))"
        unfolding redeem_run [OF ok Inr] by (auto split: option.split)
      then have "s' = s" "\<not> b" using st Redeem by (auto split: prod.splits)
      then show ?thesis using ok r by simp
    next
      case True
      then obtain q where q: "share_by_hash t s g = Some q" "eligible s g q" by blast
      let ?f = "\<lambda>r. if eligible s g r then r\<lparr>s_uses := s_uses r + 1\<rparr> else r"
      have s': "s' = put_shares t (map ?f (share_rows t s)) s" and b: "b = (g = h)"
        using st Redeem q Inr by (auto simp: redeem_run [OF ok Inr])
      have "shares_ok t s'"
        unfolding s' by (rule shares_ok_map [OF ok]) (use ok in \<open>auto simp: shares_ok_def eligible_def\<close>)
      moreover have "share_by_hash t s' h = Some (?f r)"
        unfolding s' share_by_hash_def share_table_simps
        using find_share_map [of ?f h "share_rows t s"] r by (simp add: share_by_hash_def)
      moreover have "eligible s g r = b"
      proof (cases "g = h")
        case True
        then have "q = r" using q(1) r by simp
        then show ?thesis using q(2) b True by simp
      next
        case False
        then have "\<not> eligible s g r" using share_by_hash_mem [OF r] by (simp add: eligible_def)
        then show ?thesis using b False by simp
      qed
      ultimately show ?thesis using b by (auto simp: s')
    qed
  qed
next
  case (Revoke i)
  let ?f = "\<lambda>r. if s_id r = i then r\<lparr>s_revoked := Some (clock s)\<rparr> else r"
  have s': "s' = put_shares t (map ?f (share_rows t s)) s" "\<not> b"
    using st Revoke by (auto simp: revoke_share_def)
  have "shares_ok t s'"
    unfolding s' by (rule shares_ok_map [OF ok]) (use ok in \<open>auto simp: shares_ok_def\<close>)
  moreover have "share_by_hash t s' h = Some (?f r)"
    unfolding s' share_by_hash_def share_table_simps
    using find_share_map [of ?f h "share_rows t s"] r by (simp add: share_by_hash_def)
  ultimately show ?thesis using s' by auto
next
  case (Wait d)
  then show ?thesis using st ok r by (auto simp: shares_ok_def share_by_hash_def)
qed

text \<open>
  C13: Whatever sequence of redemptions, revocations and waiting follows, a share is redeemed
  at most as often as its limit leaves room for, and never again once it is revoked or its
  time is over.
\<close>
theorem share_limits:
  assumes "shares_ok t s" "share_by_hash t s h = Some r"
  shows "(\<forall>m. s_max r = Some m \<longrightarrow> int (redemptions C t h cs s) \<le> m - s_uses r)
     \<and> (s_revoked r \<noteq> None \<or> s_expires r \<le> clock s \<longrightarrow> redemptions C t h cs s = 0)"
  using assms
proof (induction cs arbitrary: s r)
  case Nil
  have "r \<in> set (share_rows t s)" using share_by_hash_mem [OF Nil.prems(2)] by blast
  then show ?case using Nil.prems(1) by (simp add: shares_ok_def)
next
  case (Cons c cs)
  obtain b s' where st: "share_step C t h c s = (b, s')" by force
  from share_step_spec [OF Cons.prems st] obtain q where
    q: "shares_ok t s'" "clock s \<le> clock s'" "share_by_hash t s' h = Some q" "s_max q = s_max r"
      "s_expires q = s_expires r" "s_revoked r \<noteq> None \<longrightarrow> s_revoked q \<noteq> None"
      "s_uses q = s_uses r + (if b then 1 else 0)" "b \<longrightarrow> eligible s h r" by blast
  have n: "redemptions C t h (c # cs) s = (if b then 1 else 0) + redemptions C t h cs s'" by (simp add: st)
  note ih = Cons.IH [OF q(1,3)]
  have "int (redemptions C t h (c # cs) s) \<le> m - s_uses r" if "s_max r = Some m" for m
    using ih q(4,7) that unfolding n by (auto split: if_splits)
  moreover have "redemptions C t h (c # cs) s = 0" if "s_revoked r \<noteq> None \<or> s_expires r \<le> clock s"
  proof -
    have "\<not> b" using q(8) that by (auto simp: eligible_def)
    moreover have "s_revoked q \<noteq> None \<or> s_expires q \<le> clock s'" using that q(2,5,6) by auto
    ultimately show ?thesis using ih unfolding n by simp
  qed
  ultimately show ?case by blast
qed

definition share_store :: store where
  "share_store = empty_store\<lparr>cred_rows := [cred_row.make 7 ''mail'' None [] [] []],
     cshare_rows := [\<lparr> s_id = 1, s_resource = 7, s_hash = ''k'' @ replicate 31 (CHR 0x00), s_expires = 100,
       s_max = Some 1, s_uses = 0, s_revoked = None \<rparr>]\<rparr>"

lemma share_store_ok:
  "shares_ok CredentialShares share_store"
  "share_by_hash CredentialShares share_store (''k'' @ replicate 31 (CHR 0x00)) = Some (hd (cshare_rows share_store))"
  by (simp_all add: share_store_def shares_ok_def share_by_hash_def)

theorem share_limits_witness:
  "redemptions toy CredentialShares (''k'' @ replicate 31 (CHR 0x00)) [Redeem ''k'', Wait 5, Redeem ''k'', Redeem ''k''] share_store \<le> 1"
proof -
  have "s_max (hd (cshare_rows share_store)) = Some 1" "s_uses (hd (cshare_rows share_store)) = 0"
    by (simp_all add: share_store_def)
  then show ?thesis
    using share_limits [OF share_store_ok, of toy "[Redeem ''k'', Wait 5, Redeem ''k'', Redeem ''k'']"] by simp
qed

section \<open>Creating and redeeming\<close>

lemma hash_generated:
  "b64url_ok C \<Longrightarrow> hash_token C (b64url_encode C raw) = Ok (hex_encode C (sha256 C raw))"
  by (simp add: hash_token_def b64url_ok_def)

lemma create_share_spec:
  assumes "shares_ok t s" "create_share C t resource ttl max_uses s = (Ok sh, s')"
  obtains raw r where "sh_token sh = b64url_encode C raw"
    "shares_ok t s'" "share_by_hash t s' (hex_encode C (sha256 C raw)) = Some r"
    "s_id r = sh_id sh" "s_resource r = resource" "s_expires r = clock s + ttl" "s_max r = max_uses"
    "s_uses r = 0" "s_revoked r = None" "clock s' = clock s" "\<forall>m. max_uses = Some m \<longrightarrow> 0 < m"
    "sh_expires sh = clock s + ttl"
proof -
  let ?raw = "os_bytes C (draws s) TOKEN_LEN" and ?s = "s\<lparr>draws := Suc (draws s)\<rparr>"
  let ?h = "hex_encode C (sha256 C ?raw)"
  have gen: "generate_token C s = (Ok (b64url_encode C ?raw, ?h), ?s)" by (simp add: generate_token_def)
  let ?i = "next_rowid (map s_id (share_rows t s))"
  let ?row = "\<lambda>e. \<lparr> s_id = ?i, s_resource = resource, s_hash = ?h, s_expires = e, s_max = max_uses,
             s_uses = 0, s_revoked = None \<rparr>"
  from assms(2) gen obtain i t1 where ins: "insert_share t resource ?h (datetime_plus (clock s) ttl) max_uses ?s = (Ok i, t1)"
  proof (cases "insert_share t resource ?h (datetime_plus (clock s) ttl) max_uses ?s")
    case (Pair x t1)
    show thesis
    proof (cases x)
      case (Inl e)
      then show thesis using assms(2) gen Pair by (simp add: create_share_def)
    next
      case (Inr i)
      then show thesis using that [of i t1] Pair by simp
    qed
  qed
  then obtain e where e: "datetime_plus (clock s) ttl = Some e" and i: "i = ?i"
    and none: "share_by_hash t s ?h = None" and mx: "\<forall>m. max_uses = Some m \<longrightarrow> 0 < m"
    and t1: "t1 = put_shares t (share_rows t s @ [?row e]) ?s"
  proof (cases "datetime_plus (clock s) ttl")
    case None
    then show thesis using ins by (simp add: insert_share_def)
  next
    case (Some e)
    have ok: "share_by_hash t s ?h = None \<and> (\<forall>m. max_uses = Some m \<longrightarrow> 0 < m)"
    proof (rule ccontr)
      assume "\<not> ?thesis"
      then have "insert_share t resource ?h (Some e) max_uses ?s = (Err (Db ConstraintViolation), ?s)"
        by (auto simp: insert_share_def share_by_hash_def split: option.split)
      then show False using ins Some by simp
    qed
    then have it: "(Ok i, t1) = (Ok ?i, put_shares t (share_rows t s @ [?row e]) ?s)"
      using ins Some by (auto simp: insert_share_def Let_def split: if_splits)
    show thesis
      by (rule that [OF Some]) (use it ok in blast)+
  qed
  have ee: "e = clock s + ttl" by (rule datetime_plus_SomeD [OF e])
  have fresh: "s_id r \<noteq> ?i" if "r \<in> set (share_rows t s)" for r
    using next_rowid_greater [of "s_id r" "map s_id (share_rows t s)"] that by simp
  have find: "find (\<lambda>r. s_id r = ?i) (share_rows t t1) = Some (?row e)"
  proof -
    have "find (\<lambda>r. s_id r = ?i) (share_rows t s) = None" using fresh by (simp add: find_None_iff_all)
    then show ?thesis by (simp add: t1 find_append)
  qed
  have sh: "sh = \<lparr> sh_id = ?i, sh_token = b64url_encode C ?raw, sh_expires = e \<rparr>" and s': "s' = t1"
  proof -
    have "create_share C t resource ttl max_uses s = (Ok \<lparr> sh_id = ?i, sh_token = b64url_encode C ?raw, sh_expires = e \<rparr>, t1)"
      unfolding create_share_def bind_run gen using ins [unfolded i] find by simp
    then show "sh = \<lparr> sh_id = ?i, sh_token = b64url_encode C ?raw, sh_expires = e \<rparr>" "s' = t1"
      using assms(2) by simp_all
  qed
  have nh: "?h \<notin> s_hash ` set (share_rows t s)"
    using none unfolding share_by_hash_def by (rule find_None_image)
  have ni: "?i \<notin> s_id ` set (share_rows t s)"
    using next_rowid_fresh [of "map s_id (share_rows t s)"] by simp
  have ok': "shares_ok t s'"
    using assms(1) mx nh ni unfolding s' t1 shares_ok_def by (auto simp: less_imp_le)
  have f: "share_by_hash t s' ?h = Some (?row e)"
    using none by (simp add: s' t1 share_by_hash_def find_append)
  have ck: "clock s' = clock s" by (simp add: s' t1)
  show ?thesis
    by (rule that [of ?raw "?row e"]) (simp_all add: sh ee mx ok' f [unfolded ee] ck)
qed

text \<open>
  The token \<open>create_share\<close> hands out redeems to the resource it was made for during
  exactly the \<open>ttl\<close> seconds that follow, resolves to the share's own id, and is refused as
  revoked after \<open>revoke_share\<close>.
\<close>
theorem create_redeem:
  assumes "b64url_ok C" "shares_ok t s" "create_share C t resource ttl max_uses s = (Ok sh, s')" "0 \<le> d"
  shows "fst (redeem_share C t (sh_token sh) (s'\<lparr>clock := clock s + d\<rparr>)) =
           (if d < ttl then Ok resource else Err ShareExpired)
     \<and> share_id_for_token C t s' (sh_token sh) = Ok (sh_id sh)
     \<and> fst (redeem_share C t (sh_token sh) (snd (revoke_share t (sh_id sh) s'))) = Err ShareRevoked"
proof -
  obtain raw r where r: "sh_token sh = b64url_encode C raw"
    "shares_ok t s'" "share_by_hash t s' (hex_encode C (sha256 C raw)) = Some r"
    "s_id r = sh_id sh" "s_resource r = resource" "s_expires r = clock s + ttl" "s_max r = max_uses"
    "s_uses r = 0" "s_revoked r = None" "clock s' = clock s" "\<forall>m. max_uses = Some m \<longrightarrow> 0 < m"
    by (rule create_share_spec [OF assms(2,3)])
  let ?h = "hex_encode C (sha256 C raw)" and ?t = "s'\<lparr>clock := clock s + d\<rparr>"
  have h: "hash_token C (sh_token sh) = Ok ?h" unfolding r(1) by (rule hash_generated [OF assms(1)])
  have hr: "s_hash r = ?h" using share_by_hash_mem [OF r(3)] by blast
  have okt: "shares_ok t ?t" and ft: "share_by_hash t ?t ?h = Some r"
    using r(2,3) by (simp_all add: shares_ok_def share_by_hash_def)
  have "eligible ?t ?h r \<longleftrightarrow> d < ttl"
    using r(6-9,11) hr by (auto simp: eligible_def split: option.split)
  then have 1: "fst (redeem_share C t (sh_token sh) ?t) = (if d < ttl then Ok resource else Err ShareExpired)"
    unfolding redeem_run [OF okt h] using ft r(5,6,9) by (simp add: refusal_def)
  have 2: "share_id_for_token C t s' (sh_token sh) = Ok (sh_id sh)"
    using h r(3,4) by (simp add: share_id_for_token_def)
  let ?f = "\<lambda>r. if s_id r = sh_id sh then r\<lparr>s_revoked := Some (clock s')\<rparr> else r"
  have rv: "snd (revoke_share t (sh_id sh) s') = put_shares t (map ?f (share_rows t s')) s'"
    by (simp add: revoke_share_def)
  have ok: "shares_ok t (put_shares t (map ?f (share_rows t s')) s')"
    by (rule shares_ok_map [OF r(2)]) (use r(2) in \<open>auto simp: shares_ok_def\<close>)
  have "share_by_hash t (put_shares t (map ?f (share_rows t s')) s') ?h = Some (?f r)"
    using find_share_map [of ?f ?h "share_rows t s'"] r(3) by (simp add: share_by_hash_def)
  then have 3: "fst (redeem_share C t (sh_token sh) (snd (revoke_share t (sh_id sh) s'))) = Err ShareRevoked"
    unfolding rv redeem_run [OF ok h] using r(4) by (simp add: eligible_def refusal_def)
  from 1 2 3 show ?thesis by blast
qed

lemma replicate_32: "replicate 32 x = x # replicate 31 x"
  using replicate_Suc [of 31 x] by (simp del: replicate_Suc)

theorem create_redeem_witness:
  "\<exists>sh s'. create_share toy CredentialShares 7 60 (Some 2) share_store = (Ok sh, s')
     \<and> fst (redeem_share toy CredentialShares (sh_token sh) (s'\<lparr>clock := clock share_store + 59\<rparr>)) = Ok 7"
proof -
  let ?run = "create_share toy CredentialShares 7 60 (Some 2) share_store"
  have "is_ok (fst ?run)"
    by (simp add: share_store_def create_share_def generate_token_def insert_share_def Let_def cred_row.defs
        datetime_plus_def SECOND_LIMIT_def TIME_MIN_def TIME_MAX_def share_by_hash_def empty_store_def
        next_rowid_def TOKEN_LEN_def from_bytes_def toy_def bind_run replicate_32 char_of_def)
  then obtain sh s' where run: "?run = (Ok sh, s')" by (cases ?run) (auto simp: is_ok_iff)
  from create_redeem [OF toy_b64url_ok share_store_ok(1) run, of 59] run show ?thesis by auto
qed

end
