(* ===== verification/LockedFiles.thy ===== *)
theory LockedFiles
  imports Crypto Strings
begin

text \<open>
  The password manager of \<open>src/vault.rs\<close> and the password-locked files of
  \<open>src/locked_files.rs\<close>, with the file system they use: a map from paths to contents, and
  the set of paths at which a write starts but does not finish.
\<close>

section \<open>The vault\<close>

record credential =
  cr_id :: int
  cr_label :: string
  cr_username :: "string option"
  cr_password :: string

definition insert_cred :: "(int \<Rightarrow> cred_row) \<Rightarrow> (store, int) op" where
  "insert_cred mk = insert_row (\<lambda>s. True) (\<lambda>s. map c_id (cred_rows s))
     (\<lambda>i s. s\<lparr>cred_rows := cred_rows s @ [mk i]\<rparr>)"

interpretation cred: rowid_table cred_rows c_id insert_cred
  by unfold_locales (auto simp: insert_cred_def insert_row_def Let_def split: if_splits)

definition add_credential ::
  "crates \<Rightarrow> string \<Rightarrow> string option \<Rightarrow> string \<Rightarrow> string \<Rightarrow> (store, int) op" where
  "add_credential C label username password master =
     bind (random_salt C) (\<lambda>salt.
     bind (random_nonce C) (\<lambda>nonce.
     bind (lift_result (derive_key C master salt)) (\<lambda>key.
     insert_cred (\<lambda>i. \<lparr> c_id = i, c_label = label, c_username = username, c_salt = salt,
       c_nonce = nonce, c_text = encrypt C key nonce (as_bytes password) \<rparr>))))"

definition get_credential :: "crates \<Rightarrow> store \<Rightarrow> int \<Rightarrow> string \<Rightarrow> credential result" where
  "get_credential C s i master =
     and_then (query_row (cred.row_of s i)) (\<lambda>r.
     and_then (derive_key C master (c_salt r)) (\<lambda>key.
     and_then (nonce_array (c_nonce r)) (\<lambda>nonce.
     and_then (ok_or InvalidPassword (decrypt C key nonce (c_text r))) (\<lambda>plain.
     if utf8_valid plain
     then Ok \<lparr> cr_id = i, cr_label = c_label r, cr_username = c_username r, cr_password = from_bytes plain \<rparr>
     else Err IntegrityCheckFailed))))"

section \<open>Paths\<close>

text \<open>
  \<open>Path::file_name\<close>: the last component once empty and \<open>.\<close> components are dropped, none
  when that is \<open>..\<close> or there is no component.
\<close>

fun split_slash :: "string \<Rightarrow> string list" where
  "split_slash [] = [[]]"
| "split_slash (c # cs) =
     (if c = CHR ''/'' then [] # split_slash cs
      else case split_slash cs of w # ws \<Rightarrow> (c # w) # ws | [] \<Rightarrow> [[c]])"

definition file_name :: "string \<Rightarrow> string option" where
  "file_name p =
     (case rev (filter (\<lambda>w. w \<noteq> [] \<and> w \<noteq> ''.'') (split_slash p)) of
        [] \<Rightarrow> None
      | w # _ \<Rightarrow> if w = ''..'' then None else Some w)"

text \<open>\<open>to_string_lossy\<close>: each maximal ill-formed run of a UTF-8 text becomes U+FFFD.\<close>

definition REPLACEMENT :: bytes where "REPLACEMENT = [0xEF, 0xBF, 0xBD]"

fun lossy :: "bytes \<Rightarrow> bytes" where
  "lossy [] = []"
| "lossy (a # bs) =
     (if a \<le> 0x7F then a # lossy bs
      else if 0xC2 \<le> a \<and> a \<le> 0xDF then
        (case bs of b # r \<Rightarrow> if cont b then a # b # lossy r else REPLACEMENT @ lossy bs | [] \<Rightarrow> REPLACEMENT)
      else if 0xE0 \<le> a \<and> a \<le> 0xEF then
        (case bs of [] \<Rightarrow> REPLACEMENT
         | b # r \<Rightarrow>
             if (if a = 0xE0 then 0xA0 \<le> b \<and> b \<le> 0xBF
                 else if a = 0xED then 0x80 \<le> b \<and> b \<le> 0x9F else cont b)
             then (case r of [] \<Rightarrow> REPLACEMENT
                   | c # r' \<Rightarrow> if cont c then a # b # c # lossy r' else REPLACEMENT @ lossy r)
             else REPLACEMENT @ lossy bs)
      else if 0xF0 \<le> a \<and> a \<le> 0xF4 then
        (case bs of [] \<Rightarrow> REPLACEMENT
         | b # r \<Rightarrow>
             if (if a = 0xF0 then 0x90 \<le> b \<and> b \<le> 0xBF
                 else if a = 0xF4 then 0x80 \<le> b \<and> b \<le> 0x8F else cont b)
             then (case r of [] \<Rightarrow> REPLACEMENT
                   | c # r' \<Rightarrow>
                       if cont c
                       then (case r' of [] \<Rightarrow> REPLACEMENT
                             | d # r'' \<Rightarrow> if cont d then a # b # c # d # lossy r'' else REPLACEMENT @ lossy r')
                       else REPLACEMENT @ lossy r)
             else REPLACEMENT @ lossy bs)
      else REPLACEMENT @ lossy bs)"

definition file_label :: "string \<Rightarrow> string" where
  "file_label path = (case file_name path of None \<Rightarrow> [] | Some n \<Rightarrow> from_bytes (lossy (as_bytes n)))"

section \<open>Files\<close>

definition read_file :: "store \<Rightarrow> string \<Rightarrow> bytes result" where
  "read_file s p = ok_or (Io IoNotFound) (disk s p)"

definition remove_file :: "string \<Rightarrow> (store, unit) op" where
  "remove_file p = modify (\<lambda>s. s\<lparr>disk := (disk s)(p := None)\<rparr>)"

text \<open>
  \<open>create_new\<close> refuses an existing path. A write that fails half-way removes the file it had
  created.
\<close>

definition create_new :: "string \<Rightarrow> (store, unit) op" where
  "create_new p = (\<lambda>s. if disk s p \<noteq> None then (Err (Io IoAlreadyExists), s)
     else (Ok (), s\<lparr>disk := (disk s)(p \<mapsto> [])\<rparr>))"

definition write_all :: "string \<Rightarrow> bytes \<Rightarrow> (store, unit result) op" where
  "write_all p contents = (\<lambda>s. if p \<in> bad_paths s then (Ok (Err (Io IoFault)), s)
     else (Ok (Ok ()), s\<lparr>disk := (disk s)(p \<mapsto> contents)\<rparr>))"

definition write_owner_only :: "string \<Rightarrow> bytes \<Rightarrow> (store, unit) op" where
  "write_owner_only p contents =
     bind (create_new p) (\<lambda>_.
     bind (write_all p contents) (\<lambda>written.
     case written of
       Err e \<Rightarrow> bind (remove_file p) (\<lambda>_. fail e)
     | Ok _ \<Rightarrow> ret ()))"

section \<open>Password-locked files\<close>

definition insert_locked :: "(int \<Rightarrow> locked_row) \<Rightarrow> (store, int) op" where
  "insert_locked mk = (\<lambda>s. insert_row (\<lambda>s. l_path (mk 0) \<notin> l_path ` set (locked_rows s))
     (\<lambda>s. map l_id (locked_rows s)) (\<lambda>i s. s\<lparr>locked_rows := locked_rows s @ [mk i]\<rparr>) s)"

interpretation locked: rowid_table locked_rows l_id insert_locked
  by unfold_locales (auto simp: insert_locked_def insert_row_def Let_def split: if_splits)

text \<open>\<open>match insert { Ok(_) => ..., Err(e) => { let _ = fs::remove_file(..); Err(e) } }\<close>.\<close>

definition or_remove :: "string \<Rightarrow> (store, 'a) op \<Rightarrow> (store, 'a) op" where
  "or_remove p m = (\<lambda>s. case m s of
     (Ok a, s') \<Rightarrow> (Ok a, s')
   | (Err e, s') \<Rightarrow> (Err e, snd (remove_file p s')))"

definition lock_file :: "crates \<Rightarrow> string \<Rightarrow> string \<Rightarrow> string \<Rightarrow> (store, int) op" where
  "lock_file C source enc password =
     bind (guard (utf8_str enc) InvalidPath) (\<lambda>_.
     bind (asks (\<lambda>s. read_file s source)) (\<lambda>plain.
     bind (random_salt C) (\<lambda>salt.
     bind (random_nonce C) (\<lambda>nonce.
     bind (lift_result (derive_key C password salt)) (\<lambda>key.
     bind (write_owner_only enc (encrypt C key nonce plain)) (\<lambda>_.
     or_remove enc (insert_locked (\<lambda>i. \<lparr> l_id = i, l_name = file_label source, l_path = enc,
       l_salt = salt, l_nonce = nonce \<rparr>))))))))"

definition unlock_file :: "crates \<Rightarrow> store \<Rightarrow> int \<Rightarrow> string \<Rightarrow> bytes result" where
  "unlock_file C s i password =
     and_then (query_row (locked.row_of s i)) (\<lambda>r.
     and_then (read_file s (l_path r)) (\<lambda>ciphertext.
     and_then (derive_key C password (l_salt r)) (\<lambda>key.
     and_then (nonce_array (l_nonce r)) (\<lambda>nonce.
     ok_or InvalidPassword (decrypt C key nonce ciphertext)))))"

section \<open>What the operations do\<close>

lemma write_owner_only_run:
  "write_owner_only p d s =
     (if disk s p \<noteq> None then (Err (Io IoAlreadyExists), s)
      else if p \<in> bad_paths s then (Err (Io IoFault), s)
      else (Ok (), s\<lparr>disk := (disk s)(p \<mapsto> d)\<rparr>))"
proof -
  have "(disk s)(p := None) = disk s" if "disk s p = None"
    using that by (rule fun_upd_idem)
  then show ?thesis
    by (simp add: write_owner_only_def create_new_def write_all_def remove_file_def bind_run)
qed

lemma or_remove_run:
  "m s = (Ok a, s') \<Longrightarrow> or_remove p m s = (Ok a, s')"
  "m s = (Err e, s') \<Longrightarrow> or_remove p m s = (Err e, s'\<lparr>disk := (disk s')(p := None)\<rparr>)"
  by (simp_all add: or_remove_def remove_file_def)

lemma insert_cred_run: "insert_cred mk s = (let i = next_rowid (map c_id (cred_rows s)) in
     (Ok i, s\<lparr>cred_rows := cred_rows s @ [mk i]\<rparr>))"
  by (simp add: insert_cred_def insert_row_def Let_def)

lemma insert_locked_run:
  "insert_locked mk s = (if l_path (mk 0) \<in> l_path ` set (locked_rows s) then (Err (Db ConstraintViolation), s)
     else let i = next_rowid (map l_id (locked_rows s)) in
       (Ok i, s\<lparr>locked_rows := locked_rows s @ [mk i]\<rparr>))"
  by (simp add: insert_locked_def insert_row_def Let_def)

lemma cred_row_of_draws [simp]: "cred.row_of (s\<lparr>draws := d\<rparr>) i = cred.row_of s i"
  by (simp add: cred.row_of_def)

text \<open>\<open>lock_file\<close> branch by branch.\<close>

lemma lock_file_run:
  "lock_file C source enc password s =
    (let salt = os_bytes C (draws s) 16; nonce = os_bytes C (Suc (draws s)) 12;
         t = s\<lparr>draws := Suc (Suc (draws s))\<rparr> in
     if \<not> utf8_str enc then (Err InvalidPath, s)
     else case disk s source of
       None \<Rightarrow> (Err (Io IoNotFound), s)
     | Some plain \<Rightarrow>
         (case argon2id C password salt of
            None \<Rightarrow> (Err KeyDerivationFailed, t)
          | Some key \<Rightarrow>
              if disk s enc \<noteq> None then (Err (Io IoAlreadyExists), t)
              else if enc \<in> bad_paths s then (Err (Io IoFault), t)
              else if enc \<in> l_path ` set (locked_rows s) then (Err (Db ConstraintViolation), t)
              else let i = next_rowid (map l_id (locked_rows s)) in
                (Ok i, t\<lparr>disk := (disk s)(enc \<mapsto> encrypt C key nonce plain),
                         locked_rows := locked_rows s @ [\<lparr> l_id = i, l_name = file_label source,
                           l_path = enc, l_salt = salt, l_nonce = nonce \<rparr>]\<rparr>)))"
proof -
  have undo: "((disk s)(enc \<mapsto> d))(enc := None) = disk s" if "disk s enc = None" for d
    using that by (simp add: fun_upd_idem)
  show ?thesis
  proof (cases "disk s source")
    case None
    then show ?thesis by (simp add: lock_file_def read_file_def bind_run Let_def)
  next
    case (Some plain)
    show ?thesis
    proof (cases "argon2id C password (os_bytes C (draws s) 16)")
      case None
      then show ?thesis using Some by (simp add: lock_file_def read_file_def derive_key_def bind_run Let_def)
    next
      case (Some key)
      then show ?thesis using \<open>disk s source = Some plain\<close> undo
        by (simp add: lock_file_def read_file_def derive_key_def write_owner_only_run insert_locked_run
            or_remove_def remove_file_def bind_run Let_def)
    qed
  qed
qed

text \<open>
  C39: A credential added under a master password comes back under it, with its label, user
  name and password; adding it does not change what any other credential gives.
\<close>
theorem vault_round_trip:
  assumes "aes_ok C" "os_ok C" "utf8_str password"
    and "add_credential C label username password master s = (Ok i, s')"
  shows "get_credential C s' i master =
           Ok \<lparr> cr_id = i, cr_label = label, cr_username = username, cr_password = password \<rparr>
     \<and> (\<forall>j m. j \<noteq> i \<longrightarrow> get_credential C s' j m = get_credential C s j m)"
proof -
  let ?salt = "os_bytes C (draws s) 16" and ?nonce = "os_bytes C (Suc (draws s)) 12"
  let ?t = "s\<lparr>draws := Suc (Suc (draws s))\<rparr>"
  from assms(4) obtain key where key: "argon2id C master ?salt = Some key"
    by (cases "argon2id C master ?salt") (simp_all add: add_credential_def derive_key_def bind_run)
  let ?mk = "\<lambda>i. \<lparr> c_id = i, c_label = label, c_username = username, c_salt = ?salt,
       c_nonce = ?nonce, c_text = encrypt C key ?nonce (as_bytes password) \<rparr>"
  have ins: "insert_cred ?mk ?t = (Ok i, s')"
    using assms(4) key by (simp add: add_credential_def derive_key_def)
  have n: "length ?nonce = 12" using assms(2) by (simp add: os_ok_def)
  have "cred.row_of s' i = Some (?mk i)" by (rule cred.row_of_new [OF ins]) simp
  then have 1: "get_credential C s' i master =
           Ok \<lparr> cr_id = i, cr_label = label, cr_username = username, cr_password = password \<rparr>"
    using key n assms(1,3) by (simp add: get_credential_def derive_key_def utf8_str_def)
  have "cred.row_of s' j = cred.row_of s j" if "j \<noteq> i" for j
    using cred.row_of_old [OF ins _ that] by simp
  then have "get_credential C s' j m = get_credential C s j m" if "j \<noteq> i" for j m
    using that by (simp add: get_credential_def)
  with 1 show ?thesis by blast
qed

theorem vault_round_trip_witness:
  "\<exists>i s'. add_credential toy ''mail'' None ''pw'' ''m'' empty_store = (Ok i, s')
     \<and> get_credential toy s' i ''m'' = Ok \<lparr> cr_id = i, cr_label = ''mail'', cr_username = None, cr_password = ''pw'' \<rparr>"
proof -
  obtain i s' where run: "add_credential toy ''mail'' None ''pw'' ''m'' empty_store = (Ok i, s')"
    by (simp add: add_credential_def derive_key_def insert_cred_run Let_def)
  have "utf8_str ''pw''" by (simp add: utf8_str_def as_bytes_def)
  from vault_round_trip [OF toy_aes_ok toy_os_ok this run] run show ?thesis by blast
qed

text \<open>
  A file locked with a password unlocks with it to the bytes that were read, the new file
  appears at a path that held nothing, and no other file changes.
\<close>
theorem lock_unlock:
  assumes "aes_ok C" "os_ok C" "disk s source = Some plain"
    and "lock_file C source enc password s = (Ok i, s')"
  shows "unlock_file C s' i password = Ok plain \<and> disk s enc = None
     \<and> (\<forall>p. p \<noteq> enc \<longrightarrow> disk s' p = disk s p)"
proof -
  let ?salt = "os_bytes C (draws s) 16" and ?nonce = "os_bytes C (Suc (draws s)) 12"
  let ?t = "s\<lparr>draws := Suc (Suc (draws s))\<rparr>"
  from assms(4) obtain key where key: "argon2id C password ?salt = Some key" and free: "disk s enc = None"
    and i: "i = next_rowid (map l_id (locked_rows s))"
    and s': "s' = ?t\<lparr>disk := (disk s)(enc \<mapsto> encrypt C key ?nonce plain),
      locked_rows := locked_rows s @ [\<lparr> l_id = i, l_name = file_label source, l_path = enc,
        l_salt = ?salt, l_nonce = ?nonce \<rparr>]\<rparr>"
    using assms(3) by (auto simp: lock_file_run Let_def split: if_splits option.splits)
  have "find (\<lambda>r. l_id r = i) (locked_rows s) = None"
    using next_rowid_greater [of _ "map l_id (locked_rows s)"] i by (fastforce simp: find_None_iff_all)
  then have row: "locked.row_of s' i = Some \<lparr> l_id = i, l_name = file_label source, l_path = enc,
        l_salt = ?salt, l_nonce = ?nonce \<rparr>"
    by (simp add: s' locked.row_of_def find_append)
  have "length ?nonce = 12" using assms(2) by (simp add: os_ok_def)
  then have "unlock_file C s' i password = Ok plain"
    using row key assms(1) by (simp add: s' unlock_file_def read_file_def derive_key_def)
  then show ?thesis using free by (simp add: s')
qed

definition disk_store :: store where
  "disk_store = empty_store\<lparr>disk := [''a'' \<mapsto> [1, 2, 3]], bad_paths := {''bad''}\<rparr>"

theorem lock_unlock_witness:
  "\<exists>i s'. lock_file toy ''a'' ''b'' ''pw'' disk_store = (Ok i, s') \<and> unlock_file toy s' i ''pw'' = Ok [1, 2, 3]"
proof -
  have "utf8_str ''b''" by (simp add: utf8_str_def as_bytes_def)
  then obtain i s' where run: "lock_file toy ''a'' ''b'' ''pw'' disk_store = (Ok i, s')"
    by (simp add: lock_file_run Let_def disk_store_def empty_store_def)
  have "disk disk_store ''a'' = Some [1, 2, 3]" by (simp add: disk_store_def)
  from lock_unlock [OF toy_aes_ok toy_os_ok this run] run show ?thesis by blast
qed

text \<open>
  A \<open>lock_file\<close> that fails, wherever it fails, leaves the disk and the table as they were:
  it neither touches a file it did not create nor leaves one behind.
\<close>
theorem lock_file_clean:
  assumes "lock_file C source enc password s = (Err e, s')"
  shows "disk s' = disk s \<and> locked_rows s' = locked_rows s"
  using assms by (auto simp: lock_file_run Let_def split: if_splits option.splits)

theorem lock_file_clean_witness:
  "disk (snd (lock_file toy ''a'' ''bad'' ''pw'' disk_store)) ''bad'' = None"
proof -
  have "utf8_str ''bad''" by (simp add: utf8_str_def as_bytes_def)
  then have "fst (lock_file toy ''a'' ''bad'' ''pw'' disk_store) = Err (Io IoFault)"
    by (simp add: lock_file_run Let_def disk_store_def empty_store_def)
  then have "lock_file toy ''a'' ''bad'' ''pw'' disk_store = (Err (Io IoFault), snd (lock_file toy ''a'' ''bad'' ''pw'' disk_store))"
    by (metis prod.collapse)
  from lock_file_clean [OF this] show ?thesis by (simp add: disk_store_def)
qed

end
