(* ===== verification/Quorum.thy ===== *)
theory Quorum
  imports LockedFiles TreeOps
begin

text \<open>
  \<open>src/quorum.rs\<close>: a file encrypted under a random data key, and the key split over a tree of
  hardware keys. The shares presented are an association list from node ids to raw shares, as
  the code counts them.
\<close>

section \<open>Locking\<close>

definition insert_file :: "(int \<Rightarrow> file_row) \<Rightarrow> (store, int) op" where
  "insert_file mk = (\<lambda>s. insert_row
     (\<lambda>s. f_path (mk 0) \<notin> f_path ` set (file_rows s) \<and> f_key (mk 0) \<in> k_id ` set (key_rows s))
     (\<lambda>s. map f_id (file_rows s)) (\<lambda>i s. s\<lparr>file_rows := file_rows s @ [mk i]\<rparr>) s)"

interpretation qfile: rowid_table file_rows f_id insert_file
  by unfold_locales (auto simp: insert_file_def insert_row_def Let_def split: if_splits)

definition lock_file_tables ::
  "crates \<Rightarrow> string \<Rightarrow> string \<Rightarrow> bytes \<Rightarrow> bytes \<Rightarrow> node_spec \<Rightarrow> (store, int) op" where
  "lock_file_tables C name enc data_key nonce spec =
     transaction (bind (build_tree C name data_key spec) (\<lambda>key.
       insert_file (\<lambda>i. \<lparr> f_id = i, f_name = name, f_path = enc, f_key = key, f_nonce = nonce \<rparr>)))"

definition lock_file_quorum ::
  "crates \<Rightarrow> string \<Rightarrow> string \<Rightarrow> string option \<Rightarrow> node_spec \<Rightarrow> (store, int) op" where
  "lock_file_quorum C source enc name spec =
     bind (asks (\<lambda>s. validate s spec)) (\<lambda>_.
     bind (guard (utf8_str enc) InvalidPath) (\<lambda>_.
     bind (asks (\<lambda>s. read_file s source)) (\<lambda>plain.
     bind (random_key C) (\<lambda>data_key.
     bind (random_nonce C) (\<lambda>nonce.
     let name = (case name of Some n \<Rightarrow> n | None \<Rightarrow> file_label source) in
     bind (write_owner_only enc (encrypt C data_key nonce plain)) (\<lambda>_.
     or_remove enc (lock_file_tables C name enc data_key nonce spec)))))))"

section \<open>Unlocking\<close>

record file_status =
  fs_id :: int
  fs_name :: string
  fs_path :: string
  fs_tree :: tree_summary

definition status :: "store \<Rightarrow> int \<Rightarrow> file_status result option" where
  "status s i =
     (case query_row (qfile.row_of s i) of
        Err e \<Rightarrow> Some (Err e)
      | Ok r \<Rightarrow> map_option (\<lambda>d. and_then d (\<lambda>tree.
          Ok \<lparr> fs_id = i, fs_name = f_name r, fs_path = f_path r, fs_tree = tree \<rparr>)) (describe s (f_key r)))"

definition key_array :: "bytes \<Rightarrow> bytes result" where
  "key_array b = (if length b = KEY_LEN then Ok b else Err QuorumNotMet)"

definition reconstruct_and_decrypt ::
  "crates \<Rightarrow> store \<Rightarrow> int \<Rightarrow> string \<Rightarrow> bytes \<Rightarrow> (int \<times> bytes) list \<Rightarrow> bytes result option" where
  "reconstruct_and_decrypt C s key enc nonce raw =
     map_option (\<lambda>r. and_then r (\<lambda>secret. and_then (key_array secret) (\<lambda>data_key.
         and_then (nonce_array nonce) (\<lambda>n. and_then (read_file s enc) (\<lambda>ciphertext.
         ok_or IntegrityCheckFailed (decrypt C data_key n ciphertext))))))
       (reconstruct C s key (map_of raw))"

definition log_unlock :: "int \<Rightarrow> bool \<Rightarrow> nat \<Rightarrow> store \<Rightarrow> store" where
  "log_unlock i success n s = s\<lparr>event_rows := event_rows s @ [\<lparr> e_file = i, e_success = success, e_presented = n \<rparr>]\<rparr>"

definition unlock_file_quorum ::
  "crates \<Rightarrow> int \<Rightarrow> (int \<times> bytes) list \<Rightarrow> store \<Rightarrow> (bytes result \<times> store) option" where
  "unlock_file_quorum C i raw s =
     (case query_row (qfile.row_of s i) of
        Err e \<Rightarrow> Some (Err e, s)
      | Ok r \<Rightarrow> map_option (\<lambda>result. (result, log_unlock i (is_ok result) (length raw) s))
          (reconstruct_and_decrypt C s (f_key r) (f_path r) (f_nonce r) raw))"

section \<open>What locking does\<close>

lemma insert_file_run:
  "insert_file mk s = (if f_path (mk 0) \<notin> f_path ` set (file_rows s) \<and> f_key (mk 0) \<in> k_id ` set (key_rows s)
     then let i = next_rowid (map f_id (file_rows s)) in (Ok i, s\<lparr>file_rows := file_rows s @ [mk i]\<rparr>)
     else (Err (Db ConstraintViolation), s))"
  by (simp add: insert_file_def insert_row_def Let_def)

lemma lock_tables_disk:
  assumes "lock_file_tables C name enc k n spec s = (Err e, s')"
  shows "same_tables s s'"
  using assms transaction_atomic unfolding lock_file_tables_def by blast

lemma keeps_disk [keeps_intros]:
  "keeps (\<lambda>s. disk s = d) (insert_node mk)" "keeps (\<lambda>s. disk s = d) (insert_bridge i p)"
  "keeps (\<lambda>s. disk s = d) (insert_key_row kr)" "keeps (\<lambda>s. disk s = d) (insert_file fr)"
  "keeps (\<lambda>s. disk s = d) draw"
  by (simp_all add: keeps_def insert_node_run insert_bridge_def insert_key_row_run insert_file_run Let_def)

lemma keeps_disk_seal [keeps_intros]: "keeps (\<lambda>s. disk s = d) (seal_share C hk w)"
  unfolding seal_share_def by (intro keeps_intros)

lemma keeps_disk_split:
  "keeps (\<lambda>s. disk s = d) (split_node C key p v spec)"
  "keeps (\<lambda>s. disk s = d) (split_children C key p vs cs)"
proof (induction C key p v spec and C key p vs cs rule: split_node_split_children.induct)
  case (1 C key parent secret l h ab)
  show ?case unfolding split_node.simps insert_allowed_bridges_def by (intro keeps_intros)
next
  case (2 C key parent secret l t cs ab)
  have "keeps (\<lambda>s. disk s = d) (let shares = take (length cs) (shamir_deal C (unat t) secret coin) in
       if length shares \<noteq> length cs then fail InvalidQuorumThreshold
       else split_children C key (Some i) shares cs)" for i coin
    using 2 [OF refl, of coin i] by (simp add: Let_def)
  then show ?case unfolding split_node.simps insert_allowed_bridges_def by (intro keeps_intros)
next
  case (3 C key parent sh shs c cs)
  then show ?case unfolding split_children.simps by (intro keeps_intros)
qed (unfold split_children.simps, (intro keeps_intros)+)

lemma keeps_disk_tables: "keeps (\<lambda>s. disk s = d) (lock_file_tables C name enc k n spec)"
proof -
  have body: "keeps (\<lambda>s. disk s = d) (bind (build_tree C name k spec) (\<lambda>key.
       insert_file (\<lambda>i. \<lparr> f_id = i, f_name = name, f_path = enc, f_key = key, f_nonce = n \<rparr>)))"
    unfolding build_tree_def by (intro keeps_intros keeps_disk_split)
  show ?thesis
    unfolding lock_file_tables_def
  proof (rule keepsI)
    fix s :: store assume "disk s = d"
    then show "disk (snd (transaction (bind (build_tree C name k spec) (\<lambda>key.
       insert_file (\<lambda>i. \<lparr> f_id = i, f_name = name, f_path = enc, f_key = key, f_nonce = n \<rparr>))) s)) = d"
      using keepsD [OF body, of "s\<lparr>in_tx := True\<rparr>"]
      by (auto simp: transaction_def run_tx_def rollback_def split: prod.splits sum.splits)
  qed
qed

lemma lock_tables_run:
  assumes ok: "shamir_ok C" "tree_store_ok s" "valid_spec s spec" "bridges_distinct spec" "\<not> in_tx s"
    and path: "enc \<notin> f_path ` set (file_rows s)"
  shows "lock_file_tables C name enc k n spec s = (Ok (next_rowid (map f_id (file_rows s))),
     (split_store C name k spec s)\<lparr>file_rows := file_rows s @ [\<lparr> f_id = next_rowid (map f_id (file_rows s)),
        f_name = name, f_path = enc, f_key = next_rowid (map k_id (key_rows s)), f_nonce = n \<rparr>]\<rparr>)"
proof -
  let ?S = "split_store C name k spec s"
  have files: "file_rows ?S = file_rows s" and keys: "next_rowid (map k_id (key_rows s)) \<in> k_id ` set (key_rows ?S)"
    and tx: "in_tx ?S = in_tx s"
    by (simp_all add: split_store_def Let_def grow_def)
  from split_run [OF ok, of name k] obtain t where t: "build_tree C name k spec (s\<lparr>in_tx := True\<rparr>)
      = (Ok (next_rowid (map k_id (key_rows s))), t)" "?S = t\<lparr>in_tx := False\<rparr>"
    unfolding split_def using ok(5)
    by (auto simp: transaction_def run_tx_def split: prod.splits sum.splits)
  have "file_rows t = file_rows s" "next_rowid (map k_id (key_rows s)) \<in> k_id ` set (key_rows t)"
    using files keys unfolding t(2) by simp_all
  then show ?thesis
    using ok(5) path unfolding t(2)
    by (simp add: lock_file_tables_def transaction_def run_tx_def bind_run t(1) insert_file_run Let_def)
qed

lemma lock_quorum_Ok:
  assumes "lock_file_quorum C source enc name spec s = (Ok i, s')"
  obtains plain t where "valid_spec s spec" "disk s source = Some plain" "disk s enc = None"
    "t = s\<lparr>draws := draws s + 2, disk := (disk s)(enc \<mapsto> encrypt C (os_bytes C (draws s) 32) (os_bytes C (Suc (draws s)) 12) plain)\<rparr>"
    "lock_file_tables C (case name of Some n \<Rightarrow> n | None \<Rightarrow> file_label source) enc (os_bytes C (draws s) 32)
        (os_bytes C (Suc (draws s)) 12) spec t = (Ok i, s')"
  using assms
  by (auto simp: lock_file_quorum_def Let_def bind_run read_file_def write_owner_only_run or_remove_def validate_Ok_iff
      split: sum.splits prod.splits if_splits)

text \<open>A store with more draws and other files has the same tables.\<close>

lemma tables_of_disk:
  assumes "tree_store_ok s" "valid_spec s spec"
  shows "tree_store_ok (s\<lparr>draws := n, disk := d\<rparr>)" "valid_spec (s\<lparr>draws := n, disk := d\<rparr>) spec"
  using assms active_key_cong [of "s\<lparr>draws := n, disk := d\<rparr>" s]
  by (auto simp: tree_store_ok_def node_table.ids_ok_def key_table.ids_ok_def hw.ids_ok_def valid_spec_def)

lemma lock_tables_in_tx: "in_tx s \<Longrightarrow> lock_file_tables C name enc k n spec s = (Err (Db SqlFailure), s)"
  by (simp add: lock_file_tables_def transaction_def)

lemma lock_tables_path:
  assumes "lock_file_tables C name enc k n spec s = (Ok i, s')"
    "shamir_ok C" "tree_store_ok s" "valid_spec s spec" "bridges_distinct spec"
  shows "\<not> in_tx s \<and> enc \<notin> f_path ` set (file_rows s)"
proof -
  have tx: "\<not> in_tx s" using assms(1) lock_tables_in_tx [of s C name enc k n spec] by (cases "in_tx s") auto
  from split_run [OF assms(2-5) tx, of name k] obtain t where
    t: "build_tree C name k spec (s\<lparr>in_tx := True\<rparr>) = (Ok (next_rowid (map k_id (key_rows s))), t)"
      "split_store C name k spec s = t\<lparr>in_tx := False\<rparr>"
    unfolding split_def using tx by (auto simp: transaction_def run_tx_def split: prod.splits sum.splits)
  have "file_rows (t\<lparr>in_tx := False\<rparr>) = file_rows s"
    unfolding t(2) [symmetric] by (simp add: split_store_def Let_def grow_def)
  then show ?thesis
    using assms(1) tx by (auto simp: lock_file_tables_def transaction_def run_tx_def bind_run t(1) insert_file_run split: if_splits)
qed

text \<open>
  C24: A file locked under a quorum opens again. Present any raw shares that were unwrapped from
  the stored leaves: \<open>unlock_file\<close> returns the bytes \<open>lock_file\<close> read if those leaves meet the
  thresholds of the tree, and \<open>QuorumNotMet\<close> otherwise; either way it records the attempt,
  its outcome and the number of shares, and changes nothing else.
\<close>
theorem quorum_round_trip:
  assumes "shamir_ok C" "box_ok C" "aes_ok C" "os_ok C" "tree_store_ok s" "bridges_distinct spec"
    and "distinct (map f_id (file_rows s))"
    and "lock_file_quorum C source enc name spec s = (Ok i, s')"
    and "\<forall>(j, w) \<in> set raw. \<exists>sk. unwrap_leaf_share C s' j sk = Ok w"
  shows "\<exists>plain row r. disk s source = Some plain \<and> qfile.row_of s' i = Some row
    \<and> r = (if spec_sat (labels_hold (key_node_rows s' (f_key row)) (\<lambda>j. j \<in> fst ` set raw)) spec then Ok plain else Err QuorumNotMet)
    \<and> unlock_file_quorum C i raw s' = Some (r, log_unlock i (is_ok r) (length raw) s')"
proof (rule lock_quorum_Ok [OF assms(8)])
  fix plain t
  let ?k = "os_bytes C (draws s) 32" and ?n = "os_bytes C (Suc (draws s)) 12"
  let ?name = "case name of Some n \<Rightarrow> n | None \<Rightarrow> file_label source"
  let ?key = "next_rowid (map k_id (key_rows s))"
  assume plain: "disk s source = Some plain" and val: "valid_spec s spec"
    and t: "t = s\<lparr>draws := draws s + 2, disk := (disk s)(enc \<mapsto> encrypt C ?k ?n plain)\<rparr>"
    and run: "lock_file_tables C ?name enc ?k ?n spec t = (Ok i, s')"
  have ok: "tree_store_ok t" "valid_spec t spec" unfolding t using tables_of_disk [OF assms(5) val] by blast+
  note path = lock_tables_path [OF run assms(1) ok assms(6)]
  let ?row = "\<lparr> f_id = next_rowid (map f_id (file_rows s)), f_name = ?name, f_path = enc, f_key = ?key, f_nonce = ?n \<rparr>"
  have ft: "file_rows t = file_rows s" and kt: "key_rows t = key_rows s" by (simp_all add: t)
  have s': "s' = (split_store C ?name ?k spec t)\<lparr>file_rows := file_rows s @ [?row]\<rparr>"
    and i: "i = next_rowid (map f_id (file_rows s))"
    using lock_tables_run [OF assms(1) ok assms(6), of enc ?name ?k ?n] path run unfolding ft kt by simp_all
  have "i \<notin> f_id ` set (file_rows s)" using next_rowid_fresh [of "map f_id (file_rows s)"] i by simp
  then have "find (\<lambda>r. f_id r = i) (file_rows s) = None" by (auto simp: find_None_iff_all)
  then have row: "qfile.row_of s' i = Some ?row"
    by (simp add: qfile.row_of_def s' find_append i)
  have same: "node_rows s' = node_rows (split_store C ?name ?k spec t)" "hw_rows s' = hw_rows (split_store C ?name ?k spec t)"
    "bridge_rows s' = bridge_rows (split_store C ?name ?k spec t)"
    by (simp_all add: s')
  have keyt: "next_rowid (map k_id (key_rows t)) = ?key" by (simp add: t)
  have len: "length ?k = 32" "length ?n = 12" using assms(4) by (simp_all add: os_ok_def)
  then have ne: "?k \<noteq> []" by force
  have un: "\<forall>j w. map_of raw j = Some w \<longrightarrow> (\<exists>sk. unwrap_leaf_share C (split_store C ?name ?k spec t) j sk = Ok w)"
    using assms(9) unwrap_cong [OF same(1,2)] by (auto dest!: map_of_SomeD)
  have dom: "(\<lambda>j. map_of raw j \<noteq> None) = (\<lambda>j. j \<in> fst ` set raw)" by (simp add: map_of_eq_None_iff)
  have kr: "key_node_rows (split_store C ?name ?k spec t) ?key = key_node_rows s' ?key"
    by (simp add: key_node_rows_def same(1))
  have "reconstruct C (split_store C ?name ?k spec t) ?key (map_of raw) =
     Some (if spec_sat (labels_hold (key_node_rows s' ?key) (\<lambda>j. j \<in> fst ` set raw)) spec
           then Ok ?k else Err QuorumNotMet)"
    using split_store_reconstruct [OF assms(1,2) ok(1) ne ok(2) refl un] unfolding keyt kr dom .
  then have rec: "reconstruct C s' ?key (map_of raw) =
     Some (if spec_sat (labels_hold (key_node_rows s' ?key) (\<lambda>j. j \<in> fst ` set raw)) spec
           then Ok ?k else Err QuorumNotMet)"
    using reconstruct_cong [OF same(1,3), of C ?key "map_of raw"] by simp
  have "disk s' enc = Some (encrypt C ?k ?n plain)"
    by (simp add: s' split_store_def Let_def grow_def t)
  then have "reconstruct_and_decrypt C s' ?key enc ?n raw =
     Some (if spec_sat (labels_hold (key_node_rows s' ?key) (\<lambda>j. j \<in> fst ` set raw)) spec
           then Ok plain else Err QuorumNotMet)"
    using len assms(3) by (simp add: reconstruct_and_decrypt_def rec key_array_def KEY_LEN_def read_file_def)
  then show ?thesis
    using plain row by (intro exI [of _ plain] exI [of _ ?row]) (simp add: unlock_file_quorum_def)
qed

text \<open>
  A quorum \<open>lock_file\<close> that fails, wherever it fails, leaves the tables as they were and the
  disk as it was: the ciphertext it may have written is gone.
\<close>
theorem quorum_lock_clean:
  assumes "lock_file_quorum C source enc name spec s = (Err e, s')"
  shows "same_tables s s' \<and> disk s' = disk s"
proof -
  have tables: "same_tables s u \<and> (disk u)(enc := None) = disk s"
    if none: "disk s enc = None"
      and run: "lock_file_tables C nm enc k n spec (s\<lparr>draws := d, disk := (disk s)(enc \<mapsto> w)\<rparr>) = (Err e, u)" for u nm k n d w
  proof -
    let ?t = "s\<lparr>draws := d, disk := (disk s)(enc \<mapsto> w)\<rparr>"
    have "same_tables ?t u" by (rule lock_tables_disk [OF run])
    moreover have "disk u = (disk s)(enc \<mapsto> w)"
      using keepsD [OF keeps_disk_tables [of "disk ?t" C nm enc k n spec], of ?t] run by simp
    moreover have "((disk s)(enc \<mapsto> w))(enc := None) = disk s" using none by (simp add: fun_upd_idem)
    moreover have "same_tables s u" if "same_tables ?t u" for u
    proof -
      have "u\<lparr>draws := draws s, disk := disk s\<rparr> = (u\<lparr>draws := d, disk := (disk s)(enc \<mapsto> w)\<rparr>)\<lparr>draws := draws s, disk := disk s\<rparr>"
        by simp
      also have "u\<lparr>draws := d, disk := (disk s)(enc \<mapsto> w)\<rparr> = ?t" using that by (simp add: same_tables_def)
      finally show ?thesis by (simp add: same_tables_def)
    qed
    ultimately show ?thesis by simp
  qed
  have late: "same_tables s (u\<lparr>disk := (disk u)(enc := None)\<rparr>) \<and> (disk u)(enc := None) = disk s"
    if "lock_file_tables C nm enc k n spec (s\<lparr>draws := d, disk := (disk s)(enc \<mapsto> w)\<rparr>) = (Err e, u)" "disk s enc = None"
    for u nm k n d w
    using tables [OF that(2,1)] by (simp add: same_tables_def)
  show ?thesis
    using assms
    by (auto simp: lock_file_quorum_def Let_def bind_run read_file_def write_owner_only_run or_remove_def
        remove_file_def split: sum.splits prod.splits if_splits dest: late)
       (simp_all add: same_tables_def)
qed

section \<open>A concrete file\<close>

definition quorum_demo :: store where
  "quorum_demo = demo_store\<lparr> draws := 0, disk := [''a'' \<mapsto> [9, 9]] \<rparr>"

lemma quorum_demo_rows:
  "node_rows (split_store toy nm k demo_spec (demo_store\<lparr>draws := d, disk := x\<rparr>)) =
    [\<lparr> n_id = 1, n_key = 1, n_parent = None, n_label = ''root'', n_threshold = Some 2, n_hw = None,
       n_wrapped = None, n_active = True \<rparr>,
     \<lparr> n_id = 2, n_key = 1, n_parent = Some 1, n_label = ''ann'', n_threshold = None, n_hw = Some 1,
       n_wrapped = Some (replicate 32 1 @ 1 # k), n_active = True \<rparr>,
     \<lparr> n_id = 3, n_key = 1, n_parent = Some 1, n_label = ''dept'', n_threshold = Some 1, n_hw = None,
       n_wrapped = None, n_active = True \<rparr>,
     \<lparr> n_id = 4, n_key = 1, n_parent = Some 3, n_label = ''bob'', n_threshold = None, n_hw = Some 2,
       n_wrapped = Some (replicate 32 2 @ 1 # 2 # k), n_active = True \<rparr>,
     \<lparr> n_id = 5, n_key = 1, n_parent = Some 3, n_label = ''cyd'', n_threshold = None, n_hw = Some 2,
       n_wrapped = Some (replicate 32 2 @ 2 # 2 # k), n_active = True \<rparr>]"
  by (simp add: split_store_fields demo_store_def demo_spec_def demo_key_def empty_store_def dealt_def
      toy_take next_rowid_def leaf_key_def get_key_def upt_rec)

theorem quorum_round_trip_witness:
  "\<exists>i s'. lock_file_quorum toy ''a'' ''b'' None demo_spec quorum_demo = (Ok i, s')
     \<and> unlock_file_quorum toy i [(2, 1 # os_bytes toy 0 32), (4, 1 # 2 # os_bytes toy 0 32)] s'
       = Some (Ok [9, 9], log_unlock i True 2 s')"
proof -
  let ?k = "os_bytes toy 0 32" and ?n = "os_bytes toy (Suc 0) 12"
  let ?t = "demo_store\<lparr>draws := 2, disk := [''a'' \<mapsto> [9, 9], ''b'' \<mapsto> encrypt toy ?k ?n [9, 9]]\<rparr>"
  let ?raw = "[(2, 1 # ?k), (4, 1 # 2 # ?k)] :: (int \<times> bytes) list"
  have d0: "draws demo_store = 0" "file_rows demo_store = []" "bad_paths demo_store = {}" "\<not> in_tx demo_store" "key_rows demo_store = []"
    by (simp_all add: demo_store_def empty_store_def)
  have t: "tree_store_ok ?t" "valid_spec ?t demo_spec" using tables_of_disk demo_ok(1,3) by blast+
  let ?row = "\<lparr> f_id = 1, f_name = ''a'', f_path = ''b'', f_key = 1, f_nonce = ?n \<rparr>"
  have "\<exists>s'. lock_file_tables toy ''a'' ''b'' ?k ?n demo_spec ?t = (Ok 1, s') \<and> file_rows s' = [?row]
      \<and> node_rows s' = node_rows (split_store toy ''a'' ?k demo_spec ?t) \<and> hw_rows s' = hw_rows demo_store"
    using lock_tables_run [OF toy_shamir_ok t demo_ok(4), of "''b''" "''a''" ?k ?n]
    by (simp add: d0 next_rowid_def split_store_fields)
  then obtain s' where s': "lock_file_tables toy ''a'' ''b'' ?k ?n demo_spec ?t = (Ok 1, s')" "file_rows s' = [?row]"
    "node_rows s' = node_rows (split_store toy ''a'' ?k demo_spec ?t)" "hw_rows s' = hw_rows demo_store" by blast
  note rows = s'(3) [unfolded quorum_demo_rows]
  have "valid_spec quorum_demo demo_spec" and ts: "tree_store_ok quorum_demo"
    using tables_of_disk [OF demo_ok(1,3)] unfolding quorum_demo_def by blast+
  then have "validate quorum_demo demo_spec = Ok ()" by (simp add: validate_Ok_iff)
  moreover have "utf8_str ''b''" by (simp add: utf8_str_def as_bytes_def)
  moreover have "(case file_name ''a'' of None \<Rightarrow> [] | Some n \<Rightarrow> from_bytes (lossy (as_bytes n))) = ''a''"
    by (simp add: file_name_def as_bytes_def from_bytes_def char_of_def bit_Suc bit_0)
  ultimately have run: "lock_file_quorum toy ''a'' ''b'' None demo_spec quorum_demo = (Ok 1, s')"
    using s'(1) by (simp add: lock_file_quorum_def Let_def bind_run read_file_def write_owner_only_run or_remove_def
        quorum_demo_def d0 file_label_def numeral_2_eq_2)
  have un: "\<forall>(j, w) \<in> set ?raw. \<exists>sk. unwrap_leaf_share toy s' j sk = Ok w"
  proof -
    have "unwrap_leaf_share toy s' 2 (replicate 32 1) = Ok (1 # ?k)" "unwrap_leaf_share toy s' 4 (replicate 32 2) = Ok (1 # 2 # ?k)"
      by (simp_all add: unwrap_leaf_share_def node_table.row_of_def rows get_key_def s'(4) demo_store_def demo_key_def)
    then show ?thesis by auto
  qed
  have "distinct (map f_id (file_rows quorum_demo))" by (simp add: quorum_demo_def d0)
  from quorum_round_trip [OF toy_shamir_ok toy_box_ok toy_aes_ok toy_os_ok ts demo_ok(4) this run un]
  obtain plain row r where r: "disk quorum_demo ''a'' = Some plain" "qfile.row_of s' 1 = Some row"
    "r = (if spec_sat (labels_hold (key_node_rows s' (f_key row)) (\<lambda>j. j \<in> fst ` set ?raw)) demo_spec then Ok plain else Err QuorumNotMet)"
    "unlock_file_quorum toy 1 ?raw s' = Some (r, log_unlock 1 (is_ok r) (length ?raw) s')" by blast
  have "f_key row = 1" using r(2) by (auto simp: qfile.row_of_def s'(2))
  then have "spec_sat (labels_hold (key_node_rows s' (f_key row)) (\<lambda>j. j \<in> fst ` set ?raw)) demo_spec"
    by (simp add: labels_hold_def key_node_rows_def rows demo_spec_def)
  then have "r = Ok [9, 9]" using r(1,3) by (simp add: quorum_demo_def)
  then show ?thesis using run r(4) by (intro exI [of _ 1] exI [of _ s']) (simp add: numeral_2_eq_2)
qed

theorem quorum_lock_clean_witness:
  "disk (snd (lock_file_quorum toy ''a'' ''a'' None demo_spec quorum_demo)) = disk quorum_demo"
proof -
  let ?run = "lock_file_quorum toy ''a'' ''a'' None demo_spec quorum_demo"
  have "valid_spec quorum_demo demo_spec"
    using tables_of_disk [OF demo_ok(1,3)] unfolding quorum_demo_def by blast
  then have "validate quorum_demo demo_spec = Ok ()" by (simp add: validate_Ok_iff)
  moreover have "utf8_str ''a''" by (simp add: utf8_str_def as_bytes_def)
  ultimately have "?run = (Err (Io IoAlreadyExists), snd ?run)"
    by (simp add: lock_file_quorum_def Let_def bind_run read_file_def write_owner_only_run quorum_demo_def)
  from quorum_lock_clean [OF this] show ?thesis by blast
qed

end
