(* ===== verification/Export.thy ===== *)
theory Export
  imports LockedFiles Wire
begin

text \<open>
  \<open>src/export.rs\<close>: credentials and password-locked files sealed to a recipient's public key in
  a \<open>KQXB\<close> bundle. The repository has no reader of bundles yet; \<open>read_bundle\<close> is the reader its
  layout comment describes, and serves as the specification of the writer.
\<close>

section \<open>Writing\<close>

definition MAGIC :: bytes where "MAGIC = as_bytes ''KQXB''"
definition FORMAT_VERSION :: u8 where "FORMAT_VERSION = 1"
definition BUNDLE_TYPE_CREDENTIAL :: u8 where "BUNDLE_TYPE_CREDENTIAL = 1"
definition BUNDLE_TYPE_FILE :: u8 where "BUNDLE_TYPE_FILE = 2"

definition encode_len_prefixed :: "bytes \<Rightarrow> bytes \<Rightarrow> bytes result" where
  "encode_len_prefixed out b =
     (if length b < 65536 then Ok (out @ be_bytes 2 (length b) @ b) else Err BundleFieldTooLarge)"

definition is_weak_x25519_public_key :: "crates \<Rightarrow> bytes \<Rightarrow> bool" where
  "is_weak_x25519_public_key C pk = x25519_weak C pk"

definition encode_bundle :: "crates \<Rightarrow> u8 \<Rightarrow> bytes \<Rightarrow> bytes \<Rightarrow> (store, bytes) op" where
  "encode_bundle C ty pk plain =
     (if is_weak_x25519_public_key C pk then fail InvalidPublicKey
      else bind draw (\<lambda>coin.
        let payload = box_seal C pk coin plain in
        if length payload < 2 ^ 32
        then ret (MAGIC @ [FORMAT_VERSION] @ [ty] @ pk @ be_bytes 4 (length payload) @ payload)
        else fail BundleFieldTooLarge))"

definition credential_payload :: "credential \<Rightarrow> bytes result" where
  "credential_payload c =
     and_then (encode_len_prefixed [] (as_bytes (cr_label c))) (\<lambda>p.
     and_then (encode_len_prefixed p (as_bytes (case cr_username c of None \<Rightarrow> [] | Some u \<Rightarrow> u))) (\<lambda>p.
     encode_len_prefixed p (as_bytes (cr_password c))))"

definition export_credential :: "crates \<Rightarrow> int \<Rightarrow> string \<Rightarrow> bytes \<Rightarrow> (store, bytes) op" where
  "export_credential C i master pk =
     bind (asks (\<lambda>s. get_credential C s i master)) (\<lambda>c.
     bind (lift_result (credential_payload c)) (\<lambda>payload.
     encode_bundle C BUNDLE_TYPE_CREDENTIAL pk payload))"

definition export_file :: "crates \<Rightarrow> int \<Rightarrow> string \<Rightarrow> bytes \<Rightarrow> (store, bytes) op" where
  "export_file C i password pk =
     bind (asks (\<lambda>s. query_row (map_option l_name (locked.row_of s i)))) (\<lambda>name.
     bind (asks (\<lambda>s. unlock_file C s i password)) (\<lambda>plain.
     bind (lift_result (encode_len_prefixed [] (as_bytes name))) (\<lambda>p.
     encode_bundle C BUNDLE_TYPE_FILE pk (p @ plain))))"

section \<open>Reading, as the layout comment has it\<close>

datatype opened = CredentialBundle bytes bytes bytes | FileBundle bytes bytes

definition read_payload :: "u8 \<Rightarrow> bytes \<Rightarrow> opened result" where
  "read_payload ty plain =
     (if ty = 1 then
        and_then (take_len_prefixed plain) (\<lambda>(l, d).
        and_then (take_len_prefixed d) (\<lambda>(u, d).
        and_then (take_len_prefixed d) (\<lambda>(p, d).
        if d = [] then Ok (CredentialBundle l u p) else Err InvalidBridgePackage)))
      else if ty = 2 then and_then (take_len_prefixed plain) (\<lambda>(n, d). Ok (FileBundle n d))
      else Err InvalidBridgePackage)"

definition read_bundle :: "crates \<Rightarrow> bytes \<Rightarrow> bytes \<Rightarrow> opened result" where
  "read_bundle C sk data =
     and_then (take_n data 4) (\<lambda>(magic, d). if magic \<noteq> MAGIC then Err InvalidBridgePackage else
     and_then (take_u8 d) (\<lambda>(version, d). if version \<noteq> 1 then Err InvalidBridgePackage else
     and_then (take_u8 d) (\<lambda>(ty, d).
     and_then (take_n d 32) (\<lambda>(pk, d). if pk \<noteq> x25519_public C sk then Err InvalidPublicKey else
     and_then (take_n d 4) (\<lambda>(len, d).
     if length d \<noteq> be_value len then Err InvalidBridgePackage
     else and_then (ok_or IntegrityCheckFailed (box_unseal C sk d)) (read_payload ty))))))"

section \<open>Properties\<close>

lemma encode_len_prefixed_Ok [simp]:
  "encode_len_prefixed out b = Ok r \<longleftrightarrow> length b < 65536 \<and> r = out @ len_prefixed b"
  by (auto simp: encode_len_prefixed_def len_prefixed_def)

lemma bundle_opens:
  assumes "box_ok C" "length sk = 32" "length (x25519_public C sk) = 32"
    and "encode_bundle C ty (x25519_public C sk) plain s = (Ok b, s')"
  shows "read_bundle C sk b = read_payload ty plain"
proof -
  from assms(4) obtain coin where coin: "length (box_seal C (x25519_public C sk) coin plain) < 2 ^ 32"
    and b: "b = MAGIC @ [1] @ [ty] @ x25519_public C sk @ be_bytes 4 (length (box_seal C (x25519_public C sk) coin plain))
          @ box_seal C (x25519_public C sk) coin plain"
    by (auto simp: encode_bundle_def Let_def FORMAT_VERSION_def split: if_splits)
  have "be_value (be_bytes 4 n) = n" if "n < 2 ^ 32" for n using that by (simp add: be_value_be_bytes)
  then show ?thesis
    using coin box_unseal_seal [OF assms(1,2) refl] assms(3)
    unfolding read_bundle_def b
    by (simp add: MAGIC_def take_n_def take_u8_def and_then_def)
qed

lemma read_payload_fields:
  "length l < 65536 \<Longrightarrow> length u < 65536 \<Longrightarrow> length p < 65536 \<Longrightarrow>
     read_payload 1 (len_prefixed l @ len_prefixed u @ len_prefixed p) = Ok (CredentialBundle l u p)"
  "length n < 65536 \<Longrightarrow> read_payload 2 (len_prefixed n @ d) = Ok (FileBundle n d)"
  using field.dec_enc [of p "[]"] by (simp_all add: read_payload_def field.dec_enc)

text \<open>The fields a bundle is made of, each with a two-byte length before it.\<close>

definition credential_fields :: "credential \<Rightarrow> string list" where
  "credential_fields c = [cr_label c, case cr_username c of None \<Rightarrow> [] | Some u \<Rightarrow> u, cr_password c]"

definition fits :: "string \<Rightarrow> bool" where
  "fits f \<longleftrightarrow> length f < 65536"

lemma credential_payload_run:
  "credential_payload c = (if list_all fits (credential_fields c)
     then Ok (concat (map (\<lambda>f. len_prefixed (as_bytes f)) (credential_fields c))) else Err BundleFieldTooLarge)"
  by (simp add: credential_payload_def credential_fields_def fits_def encode_len_prefixed_def len_prefixed_def)

lemma encode_bundle_run:
  "fst (encode_bundle C ty pk plain s) = (if is_weak_x25519_public_key C pk then Err InvalidPublicKey
     else if 2 ^ 32 \<le> length (box_seal C pk (draws s) plain) then Err BundleFieldTooLarge
     else Ok (MAGIC @ [FORMAT_VERSION] @ [ty] @ pk @ be_bytes 4 (length (box_seal C pk (draws s) plain))
       @ box_seal C pk (draws s) plain))"
  by (simp add: encode_bundle_def Let_def bind_run)

lemma export_credential_run:
  "fst (export_credential C i master pk s) = and_then (get_credential C s i master) (\<lambda>c.
     if \<not> list_all fits (credential_fields c) then Err BundleFieldTooLarge
     else fst (encode_bundle C BUNDLE_TYPE_CREDENTIAL pk
       (concat (map (\<lambda>f. len_prefixed (as_bytes f)) (credential_fields c))) s))"
  by (cases "get_credential C s i master") (simp_all add: export_credential_def bind_run credential_payload_run)

lemma export_file_run:
  "fst (export_file C i password pk s) = and_then (query_row (map_option l_name (locked.row_of s i))) (\<lambda>name.
     and_then (unlock_file C s i password) (\<lambda>plain.
     if \<not> fits name then Err BundleFieldTooLarge
     else fst (encode_bundle C BUNDLE_TYPE_FILE pk (len_prefixed (as_bytes name) @ plain) s)))"
  by (cases "locked.row_of s i"; cases "unlock_file C s i password")
     (simp_all add: export_file_def bind_run fits_def encode_len_prefixed_def len_prefixed_def)

lemma bundle_ok_opens:
  assumes "box_ok C" "length sk = 32" "length (x25519_public C sk) = 32"
    and "fst (encode_bundle C ty (x25519_public C sk) plain s) = Ok b"
  shows "read_bundle C sk b = read_payload ty plain"
  by (rule bundle_opens [OF assms(1-3)]) (use assms(4) in \<open>simp add: prod_eq_iff\<close>)

text \<open>
  C31: A bundle opens with the recipient's secret key to what was exported: the label, user
  name (empty for none) and password of the credential the master password decrypts, or the
  name and the bytes of the file its password unlocks. Whatever the recipient key, the export
  fails when the entry does not open, with its error; then with \<open>BundleFieldTooLarge\<close> when the
  label, the user name, the password or the file name has more than 65535 bytes; and then with
  \<open>InvalidPublicKey\<close> when the key is weak.
\<close>
theorem export_opens:
  assumes "box_ok C" "length sk = 32" "length (x25519_public C sk) = 32"
  shows "(\<forall>b. fst (export_credential C i master (x25519_public C sk) s) = Ok b \<longrightarrow>
      (\<exists>c. get_credential C s i master = Ok c
         \<and> read_bundle C sk b = Ok (CredentialBundle (as_bytes (cr_label c))
              (as_bytes (case cr_username c of None \<Rightarrow> [] | Some u \<Rightarrow> u)) (as_bytes (cr_password c)))))
    \<and> (\<forall>b. fst (export_file C i password (x25519_public C sk) s) = Ok b \<longrightarrow>
      (\<exists>r plain. locked.row_of s i = Some r \<and> unlock_file C s i password = Ok plain
         \<and> read_bundle C sk b = Ok (FileBundle (as_bytes (l_name r)) plain)))
    \<and> (\<forall>pk. case get_credential C s i master of
         Err e \<Rightarrow> fst (export_credential C i master pk s) = Err e
       | Ok c \<Rightarrow> if 65536 \<le> length (cr_label c) \<or> 65536 \<le> length (cr_password c)
              \<or> (\<exists>u. cr_username c = Some u \<and> 65536 \<le> length u)
           then fst (export_credential C i master pk s) = Err BundleFieldTooLarge
           else x25519_weak C pk \<longrightarrow> fst (export_credential C i master pk s) = Err InvalidPublicKey)
    \<and> (\<forall>pk. case locked.row_of s i of
         None \<Rightarrow> fst (export_file C i password pk s) = Err (Db QueryReturnedNoRows)
       | Some r \<Rightarrow> (case unlock_file C s i password of
           Err e \<Rightarrow> fst (export_file C i password pk s) = Err e
         | Ok plain \<Rightarrow> if 65536 \<le> length (l_name r)
             then fst (export_file C i password pk s) = Err BundleFieldTooLarge
             else x25519_weak C pk \<longrightarrow> fst (export_file C i password pk s) = Err InvalidPublicKey))"
proof (intro conjI allI impI)
  fix b assume "fst (export_credential C i master (x25519_public C sk) s) = Ok b"
  then obtain c where c: "get_credential C s i master = Ok c" "list_all fits (credential_fields c)"
    and e: "fst (encode_bundle C BUNDLE_TYPE_CREDENTIAL (x25519_public C sk)
       (concat (map (\<lambda>f. len_prefixed (as_bytes f)) (credential_fields c))) s) = Ok b"
    by (auto simp: export_credential_run and_then_Ok_iff split: if_splits)
  have "read_bundle C sk b = Ok (CredentialBundle (as_bytes (cr_label c))
      (as_bytes (case cr_username c of None \<Rightarrow> [] | Some u \<Rightarrow> u)) (as_bytes (cr_password c)))"
    using bundle_ok_opens [OF assms e] c(2) by (simp add: BUNDLE_TYPE_CREDENTIAL_def credential_fields_def fits_def read_payload_fields)
  then show "\<exists>c. get_credential C s i master = Ok c
         \<and> read_bundle C sk b = Ok (CredentialBundle (as_bytes (cr_label c))
              (as_bytes (case cr_username c of None \<Rightarrow> [] | Some u \<Rightarrow> u)) (as_bytes (cr_password c)))"
    using c(1) by blast
next
  fix b assume "fst (export_file C i password (x25519_public C sk) s) = Ok b"
  then obtain r plain where r: "locked.row_of s i = Some r" "unlock_file C s i password = Ok plain" "fits (l_name r)"
    and e: "fst (encode_bundle C BUNDLE_TYPE_FILE (x25519_public C sk) (len_prefixed (as_bytes (l_name r)) @ plain) s) = Ok b"
    by (auto simp: export_file_run and_then_Ok_iff split: if_splits)
  have "read_bundle C sk b = Ok (FileBundle (as_bytes (l_name r)) plain)"
    using bundle_ok_opens [OF assms e] r(3) by (simp add: BUNDLE_TYPE_FILE_def fits_def read_payload_fields)
  then show "\<exists>r plain. locked.row_of s i = Some r \<and> unlock_file C s i password = Ok plain
         \<and> read_bundle C sk b = Ok (FileBundle (as_bytes (l_name r)) plain)"
    using r by blast
next
  fix pk
  show "case get_credential C s i master of
         Err e \<Rightarrow> fst (export_credential C i master pk s) = Err e
       | Ok c \<Rightarrow> if 65536 \<le> length (cr_label c) \<or> 65536 \<le> length (cr_password c)
              \<or> (\<exists>u. cr_username c = Some u \<and> 65536 \<le> length u)
           then fst (export_credential C i master pk s) = Err BundleFieldTooLarge
           else x25519_weak C pk \<longrightarrow> fst (export_credential C i master pk s) = Err InvalidPublicKey"
    by (auto simp: export_credential_run credential_fields_def fits_def encode_bundle_run is_weak_x25519_public_key_def
        split: sum.split option.split)
  show "case locked.row_of s i of
         None \<Rightarrow> fst (export_file C i password pk s) = Err (Db QueryReturnedNoRows)
       | Some r \<Rightarrow> (case unlock_file C s i password of
           Err e \<Rightarrow> fst (export_file C i password pk s) = Err e
         | Ok plain \<Rightarrow> if 65536 \<le> length (l_name r)
             then fst (export_file C i password pk s) = Err BundleFieldTooLarge
             else x25519_weak C pk \<longrightarrow> fst (export_file C i password pk s) = Err InvalidPublicKey)"
    by (auto simp: export_file_run fits_def encode_bundle_run is_weak_x25519_public_key_def split: sum.split option.split)
qed

theorem export_opens_witness:
  "\<exists>i s b t. add_credential toy ''l'' None ''p'' ''m'' empty_store = (Ok i, s)
     \<and> export_credential toy i ''m'' (replicate 32 5) s = (Ok b, t)
     \<and> read_bundle toy (replicate 32 5) b = Ok (CredentialBundle (as_bytes ''l'') [] (as_bytes ''p''))
     \<and> fst (export_credential toy i ''m'' (replicate 32 0) s) = Err InvalidPublicKey"
proof -
  have p: "utf8_valid (as_bytes ''p'')" "from_bytes (as_bytes ''p'') = ''p''" by (simp add: as_bytes_def, rule from_bytes_as_bytes)
  obtain i s where add: "add_credential toy ''l'' None ''p'' ''m'' empty_store = (Ok i, s)"
      and get: "get_credential toy s i ''m'' = Ok \<lparr> cr_id = i, cr_label = ''l'', cr_username = None, cr_password = ''p'' \<rparr>"
    using p by (simp add: add_credential_def insert_cred_run get_credential_def bind_run Let_def empty_store_def
        derive_key_def cred.row_of_def nonce_array_def NONCE_LEN_def encrypt_def decrypt_def)
  obtain b t where e: "export_credential toy i ''m'' (replicate 32 5) s = (Ok b, t)"
    by (simp add: export_credential_def bind_run get credential_payload_def encode_len_prefixed_def encode_bundle_def
        is_weak_x25519_public_key_def Let_def as_bytes_def)
  have "length (replicate 32 5 :: bytes) = 32" "length (x25519_public toy (replicate 32 5)) = 32" by simp_all
  note ex = export_opens [OF toy_box_ok this, of i "''m''" s]
  have "read_bundle toy (replicate 32 5) b = Ok (CredentialBundle (as_bytes ''l'') [] (as_bytes ''p''))"
    using ex e get by (simp add: as_bytes_def)
  moreover have "x25519_weak toy (replicate 32 0)" by (simp add: toy_def)
  then have "fst (export_credential toy i ''m'' (replicate 32 0) s) = Err InvalidPublicKey" using ex get by simp
  ultimately show ?thesis using add e by blast
qed

end
