(* ===== verification/BridgeFacts.thy ===== *)
theory BridgeFacts
  imports BridgeOps
begin

text \<open>
  What the writes of \<open>BridgeStore\<close> and the operations of \<open>BridgeOps\<close> do to the four tables when
  they succeed, and the well-formedness of those tables.
\<close>

section \<open>Transactions at the top level\<close>

lemma immediate_cases:
  assumes "with_immediate_transaction m s = (r, s')" "\<not> in_tx s"
  obtains (failed) e where "r = Err e" "same_tables s s'"
    | (succeeded) a t where "r = Ok a" "m (s\<lparr>in_tx := True\<rparr>) = (Ok a, t)" "s' = t\<lparr>in_tx := False\<rparr>"
proof (cases "m (s\<lparr>in_tx := True\<rparr>)")
  case (Pair q t)
  then show thesis using assms that
    by (cases q) (auto simp: with_immediate_transaction_def run_tx_def)
qed

lemma immediate_Ok:
  "\<not> in_tx s \<Longrightarrow> m (s\<lparr>in_tx := True\<rparr>) = (Ok a, t) \<Longrightarrow> with_immediate_transaction m s = (Ok a, t\<lparr>in_tx := False\<rparr>)"
  by (simp add: with_immediate_transaction_def run_tx_def)

section \<open>Writes\<close>

lemma insert_pb_run:
  "insert_pb mk s = (let i = next_rowid (map b_id (pb_rows s)) in
     if b_uid (mk i) \<notin> b_uid ` set (pb_rows s) \<and> 0 < b_generation (mk i)
        \<and> (case b_key (mk i) of None \<Rightarrow> True | Some k \<Rightarrow> k \<in> k_id ` set (key_rows s))
     then (Ok i, s\<lparr>pb_rows := pb_rows s @ [mk i]\<rparr>) else (Err (Db ConstraintViolation), s))"
  by (simp add: insert_pb_def insert_row_def Let_def)

interpretation pb: rowid_table pb_rows b_id insert_pb
  by unfold_locales (auto simp: insert_pb_run Let_def split: if_splits)

lemma insert_pbevent_run:
  "insert_pbevent mk s = (if pe_bridge (mk 0) \<in> b_id ` set (pb_rows s)
     then let i = next_rowid (map pe_id (pbevent_rows s)) in
       (Ok i, s\<lparr>pbevent_rows := pbevent_rows s @ [mk i]\<rparr>) else (Err (Db ConstraintViolation), s))"
  by (simp add: insert_pbevent_def insert_row_def Let_def)

interpretation pbevent: rowid_table pbevent_rows pe_id insert_pbevent
  by unfold_locales (auto simp: insert_pbevent_run Let_def split: if_splits)

lemma insert_event_Ok:
  assumes "insert_event b t d s = (Ok u, s')"
  shows "\<exists>es. s' = s\<lparr>pbevent_rows := es\<rparr>"
  using assms unfolding insert_event_def
  by (elim bind_Ok_elim) (auto simp: insert_pbevent_run Let_def split: if_splits)

lemma insert_event_run:
  "b \<in> b_id ` set (pb_rows s) \<Longrightarrow> \<exists>es. insert_event b t d s = (Ok (), s\<lparr>pbevent_rows := es\<rparr>)"
  by (simp add: insert_event_def insert_pbevent_run Let_def bind_run) blast

lemma for_each_map: "for_each f (map g xs) = for_each (\<lambda>x. f (g x)) xs"
  by (induction xs) simp_all

lemma for_each_append: "for_each f (xs @ ys) s = bind (for_each f xs) (\<lambda>_. for_each f ys) s"
proof (induction xs arbitrary: s)
  case (Cons x xs)
  show ?case
    by (cases "f x s") (auto simp: bind_run Cons split: sum.splits prod.splits)
qed (simp add: bind_run)

definition parties_ok :: "store \<Rightarrow> member_row list \<Rightarrow> bool" where
  "parties_ok s rs \<longleftrightarrow> (\<forall>r \<in> set rs. m_bridge r \<in> b_id ` set (pb_rows s) \<and> role_check r)
     \<and> distinct (map member_key rs) \<and> member_key ` set rs \<inter> member_key ` set (member_rows s) = {}"

lemma insert_members_iff:
  "for_each insert_member rs s = (Ok u, s') \<longleftrightarrow> parties_ok s rs \<and> s' = s\<lparr>member_rows := member_rows s @ rs\<rparr>"
proof (induction rs arbitrary: s)
  case (Cons r rs)
  let ?s = "s\<lparr>member_rows := member_rows s @ [r]\<rparr>"
  let ?c = "m_bridge r \<in> b_id ` set (pb_rows s) \<and> member_key r \<notin> member_key ` set (member_rows s) \<and> role_check r"
  have "for_each insert_member (r # rs) s = (Ok u, s')
     \<longleftrightarrow> ?c \<and> for_each insert_member rs ?s = (Ok u, s')"
    by (auto simp: insert_member_def bind_run)
  moreover have "?c \<and> parties_ok ?s rs \<longleftrightarrow> parties_ok s (r # rs)"
    by (auto simp: parties_ok_def)
  ultimately show ?case using Cons [of ?s] by auto
qed (auto simp: parties_ok_def)

definition party_rows ::
  "int \<Rightarrow> member_keys smap \<Rightarrow> bytes smap \<Rightarrow> string option \<Rightarrow> member_row list" where
  "party_rows b members supervisors loc =
     map (\<lambda>(l, k). \<lparr> m_bridge = b, m_label = l, m_encryption = mk_encryption k,
       m_signing = Some (mk_signing k), m_role = Member, m_local = (loc = Some l) \<rparr>) members
     @ map (\<lambda>(l, pk). \<lparr> m_bridge = b, m_label = l, m_encryption = pk,
       m_signing = None, m_role = Supervisor, m_local = (loc = Some l) \<rparr>) supervisors"

lemma write_roster:
  "bind (insert_member_parties b ms loc) (\<lambda>_. bind (insert_supervisor_parties b ss loc) k) s
   = bind (for_each insert_member (party_rows b ms ss loc)) k s"
  unfolding bind_run party_rows_def for_each_append
  by (auto simp: insert_member_parties_def insert_supervisor_parties_def for_each_map bind_run case_prod_beta'
      split: prod.splits sum.splits)

lemma update_pb_Ok:
  assumes "update_pb P f s = (Ok n, s')"
  shows "n = length (filter P (pb_rows s))" "s' = s\<lparr>pb_rows := map (\<lambda>r. if P r then f r else r) (pb_rows s)\<rparr>"
    "\<And>r. r \<in> set (pb_rows s) \<Longrightarrow> P r \<Longrightarrow> 0 < b_generation (f r)"
  using assms by (auto simp: update_pb_def split: if_splits)

lemma seal_secret_Ok:
  assumes "seal_secret C pk w secret s = (Ok c, s')"
  shows "\<not> x25519_weak C pk" "c = box_seal C pk (draws s) (w @ secret)" "s' = s\<lparr>draws := Suc (draws s)\<rparr>"
  using assms by (auto simp: seal_secret_def pb_is_weak_x25519_public_key_def bind_run split: if_splits)

lemma insert_sealed_Ok:
  assumes "insert_sealed r s = (Ok u, s')"
  shows "sealed_key r \<in> member_key ` set (member_rows s)" "sealed_key r \<notin> sealed_key ` set (sealed_rows s)"
    "s' = s\<lparr>sealed_rows := sealed_rows s @ [r]\<rparr>"
  using assms by (auto simp: insert_sealed_def split: if_splits)

section \<open>Well-formed tables\<close>

definition bridges_ok :: "store \<Rightarrow> bool" where
  "bridges_ok s \<longleftrightarrow> pb.ids_ok s \<and> distinct (map b_uid (pb_rows s))
     \<and> (\<forall>r \<in> set (pb_rows s). 0 < b_generation r \<and> b_generation r < 2 ^ 32 \<and> length (b_public r) = 32 \<and> length (b_salt r) = 16)
     \<and> (\<forall>m \<in> set (member_rows s). m_bridge m \<in> b_id ` set (pb_rows s) \<and> role_check m \<and> length (m_encryption m) = 32)
     \<and> distinct (map member_key (member_rows s))
     \<and> (\<forall>k \<in> set (sealed_rows s). length (sk_salt k) = 16
          \<and> (\<exists>m \<in> set (member_rows s). member_key m = sealed_key k \<and> m_role m = Member \<and> m_local m))
     \<and> distinct (map sk_bridge (sealed_rows s))
     \<and> (\<forall>r \<in> set (pb_rows s). b_destroyed r \<noteq> None \<longrightarrow> b_id r \<notin> sk_bridge ` set (sealed_rows s))"

text \<open>Only the four tables matter.\<close>

definition same_bridges :: "store \<Rightarrow> store \<Rightarrow> bool" where
  "same_bridges s s' \<longleftrightarrow> pb_rows s' = pb_rows s \<and> member_rows s' = member_rows s \<and> sealed_rows s' = sealed_rows s"

lemma bridges_ok_cong: "same_bridges s s' \<Longrightarrow> bridges_ok s' = bridges_ok s"
  by (simp add: same_bridges_def bridges_ok_def pb.ids_ok_def)

lemma same_tables_bridges: "same_tables s s' \<Longrightarrow> same_bridges s s'"
proof -
  assume "same_tables s s'"
  then have s: "s'\<lparr>draws := draws s, disk := disk s\<rparr> = s" by (simp add: same_tables_def)
  have "pb_rows (s'\<lparr>draws := draws s, disk := disk s\<rparr>) = pb_rows s'"
    "member_rows (s'\<lparr>draws := draws s, disk := disk s\<rparr>) = member_rows s'"
    "sealed_rows (s'\<lparr>draws := draws s, disk := disk s\<rparr>) = sealed_rows s'" by simp_all
  then show "same_bridges s s'" unfolding s same_bridges_def by simp
qed

lemma bridge_uid_unique:
  "bridges_ok s \<Longrightarrow> r \<in> set (pb_rows s) \<Longrightarrow> q \<in> set (pb_rows s) \<Longrightarrow> b_uid r = b_uid q \<Longrightarrow> r = q"
  by (auto simp: bridges_ok_def distinct_map dest: inj_onD)

lemma bridge_id_unique:
  "bridges_ok s \<Longrightarrow> r \<in> set (pb_rows s) \<Longrightarrow> q \<in> set (pb_rows s) \<Longrightarrow> b_id r = b_id q \<Longrightarrow> r = q"
  using pb.ids_ok_distinct by (auto simp: bridges_ok_def distinct_map dest: inj_onD)

lemma last_bridge_id_Ok:
  "last_bridge_id s uid = Ok b \<Longrightarrow> \<exists>r \<in> set (pb_rows s). b_uid r = uid \<and> b_id r = b"
  by (auto simp: last_bridge_id_def get_optional_def dest: find_SomeD)

lemma last_bridge_id_row:
  assumes "bridges_ok s" "r \<in> set (pb_rows s)"
  shows "last_bridge_id s (b_uid r) = Ok (b_id r)"
  using find_unique [of b_uid "pb_rows s" r "b_uid r"] assms
  by (simp add: last_bridge_id_def get_optional_def bridges_ok_def)

section \<open>Histories\<close>

text \<open>
  How a bridge may move on from \<open>r\<close>: it keeps its identity; a destroyed one is frozen; a live
  one keeps its generation, key and salt, or takes the next generation with new ones.
\<close>

definition moves_on :: "pb_row \<Rightarrow> pb_row \<Rightarrow> bool" where
  "moves_on r q \<longleftrightarrow> b_id q = b_id r \<and> b_uid q = b_uid r
     \<and> (if b_destroyed r \<noteq> None then q = r
        else b_generation r < b_generation q
           \<or> b_generation q = b_generation r \<and> b_public q = b_public r \<and> b_salt q = b_salt r)"

definition later :: "store \<Rightarrow> store \<Rightarrow> bool" where
  "later s s' \<longleftrightarrow> (\<exists>qs new. pb_rows s' = qs @ new \<and> list_all2 moves_on (pb_rows s) qs)"

lemma moves_on_refl [simp]: "moves_on r r"
  by (simp add: moves_on_def)

lemma moves_on_trans: "moves_on r q \<Longrightarrow> moves_on q p \<Longrightarrow> moves_on r p"
  by (auto simp: moves_on_def split: if_splits)

lemma later_refl: "same_bridges s s' \<Longrightarrow> later s s'"
  unfolding later_def by (rule exI [of _ "pb_rows s"]) (auto simp: same_bridges_def intro: list_all2_refl)

lemma later_map: "pb_rows s' = map f (pb_rows s) \<Longrightarrow> (\<And>r. r \<in> set (pb_rows s) \<Longrightarrow> moves_on r (f r)) \<Longrightarrow> later s s'"
  unfolding later_def by (rule exI [of _ "map f (pb_rows s)"]) (simp add: list_all2_conv_all_nth)

lemma later_new: "pb_rows s' = pb_rows s @ [r] \<Longrightarrow> later s s'"
  unfolding later_def by (rule exI [of _ "pb_rows s"]) (auto intro: list_all2_refl)

lemma later_trans: "later s s' \<Longrightarrow> later s' t \<Longrightarrow> later s t"
  unfolding later_def
proof (elim exE conjE)
  fix qs new ps new'
  assume a: "pb_rows s' = qs @ new" "list_all2 moves_on (pb_rows s) qs"
    and b: "pb_rows t = ps @ new'" "list_all2 moves_on (pb_rows s') ps"
  from b(2) a(1) obtain us vs where ps: "ps = us @ vs" and us: "list_all2 moves_on qs us"
    by (auto simp: list_all2_append1)
  have "list_all2 moves_on (pb_rows s) us"
    using list_all2_trans [OF _ a(2) us] moves_on_trans by blast
  then show "\<exists>qs new. pb_rows t = qs @ new \<and> list_all2 moves_on (pb_rows s) qs"
    using b(1) ps by (intro exI [of _ us] exI [of _ "vs @ new'"]) simp
qed

lemma later_row:
  assumes "later s s'" "r \<in> set (pb_rows s)"
  shows "\<exists>q \<in> set (pb_rows s'). moves_on r q"
proof -
  obtain qs new where q: "pb_rows s' = qs @ new" "list_all2 moves_on (pb_rows s) qs"
    using assms(1) by (auto simp: later_def)
  obtain i where i: "i < length (pb_rows s)" "r = pb_rows s ! i" using assms(2) by (auto simp: in_set_conv_nth)
  have "moves_on r (qs ! i)" "i < length qs" using q(2) i by (auto simp: list_all2_conv_all_nth)
  then show ?thesis using q(1) by (intro bexI [of _ "qs ! i"]) simp_all
qed

section \<open>A new roster\<close>

definition sealed_for :: "crates \<Rightarrow> bytes \<Rightarrow> bytes \<Rightarrow> sealed_row \<Rightarrow> bool" where
  "sealed_for C pk secret k \<longleftrightarrow> length (sk_salt k) = 16 \<and> (\<exists>coin. sk_secret k = box_seal C pk coin (sk_salt k @ secret))"

text \<open>The bridge \<open>b\<close> has new parties \<open>rs\<close> and sealed copies \<open>ks\<close>; nothing else changed.\<close>

definition new_roster :: "int \<Rightarrow> member_row list \<Rightarrow> sealed_row list \<Rightarrow> store \<Rightarrow> store \<Rightarrow> bool" where
  "new_roster b rs ks s s' \<longleftrightarrow>
     member_rows s' = filter (\<lambda>m. m_bridge m \<noteq> b) (member_rows s) @ rs
     \<and> sealed_rows s' = filter (\<lambda>k. sk_bridge k \<noteq> b) (sealed_rows s) @ ks
     \<and> (\<forall>m \<in> set rs. m_bridge m = b \<and> role_check m) \<and> distinct (map m_label rs)
     \<and> length ks \<le> 1 \<and> (\<forall>k \<in> set ks. sk_bridge k = b \<and> length (sk_salt k) = 16
          \<and> (\<exists>m \<in> set rs. m_label m = sk_label k \<and> m_role m = Member \<and> m_local m))"

definition roster_32 :: "member_keys smap \<Rightarrow> bytes smap \<Rightarrow> bool" where
  "roster_32 ms ss \<longleftrightarrow> (\<forall>(l, k) \<in> set ms. length (mk_encryption k) = 32) \<and> (\<forall>(l, pk) \<in> set ss. length pk = 32)"

lemma party_rows_32: "roster_32 ms ss \<Longrightarrow> m \<in> set (party_rows b ms ss loc) \<Longrightarrow> length (m_encryption m) = 32"
  by (auto simp: party_rows_def roster_32_def)

lemma party_rows_bridge: "m \<in> set (party_rows b ms ss loc) \<Longrightarrow> m_bridge m = b"
  by (auto simp: party_rows_def)

lemma member_key_bridge:
  "(\<forall>m \<in> set rs. m_bridge m = b) \<Longrightarrow> distinct (map member_key rs) = distinct (map m_label rs)"
  by (induction rs) (auto simp: member_key_def image_iff)

lemma new_roster_ok:
  assumes ok: "bridges_ok s" and n: "new_roster b rs ks s s'" and l: "\<forall>m \<in> set rs. length (m_encryption m) = 32"
    and p: "pb.ids_ok s'" "distinct (map b_uid (pb_rows s'))"
      "\<forall>r \<in> set (pb_rows s'). 0 < b_generation r \<and> b_generation r < 2 ^ 32 \<and> length (b_public r) = 32 \<and> length (b_salt r) = 16"
    and i: "b_id ` set (pb_rows s) \<subseteq> b_id ` set (pb_rows s')" "b \<in> b_id ` set (pb_rows s')"
    and d: "\<forall>r \<in> set (pb_rows s'). b_destroyed r \<noteq> None \<longrightarrow> b_id r \<noteq> b \<and> r \<in> set (pb_rows s)"
  shows "bridges_ok s'"
proof -
  let ?old = "filter (\<lambda>m. m_bridge m \<noteq> b) (member_rows s)" and ?ks = "filter (\<lambda>k. sk_bridge k \<noteq> b) (sealed_rows s)"
  have mem: "member_rows s' = ?old @ rs" and sea: "sealed_rows s' = ?ks @ ks"
    using n by (simp_all add: new_roster_def)
  have rs: "\<forall>m \<in> set rs. m_bridge m = b" using n by (simp add: new_roster_def)
  have 1: "\<forall>m \<in> set (member_rows s'). m_bridge m \<in> b_id ` set (pb_rows s') \<and> role_check m \<and> length (m_encryption m) = 32"
    using ok n l i unfolding mem by (auto simp: bridges_ok_def new_roster_def)
  have "distinct (map member_key rs)" using n rs member_key_bridge by (auto simp: new_roster_def)
  moreover have "distinct (map member_key ?old)" using ok by (simp add: bridges_ok_def distinct_map_filter)
  moreover have "member_key ` set ?old \<inter> member_key ` set rs = {}" using rs by (auto simp: member_key_def)
  ultimately have 2: "distinct (map member_key (member_rows s'))" unfolding mem by simp
  have 3: "length (sk_salt k) = 16 \<and> (\<exists>m \<in> set (member_rows s'). member_key m = sealed_key k \<and> m_role m = Member \<and> m_local m)"
    if "k \<in> set (sealed_rows s')" for k
  proof (cases "k \<in> set ?ks")
    case True
    then obtain m where m: "m \<in> set (member_rows s)" "member_key m = sealed_key k" "m_role m = Member" "m_local m"
      and "length (sk_salt k) = 16" "sk_bridge k \<noteq> b"
      using ok by (auto simp: bridges_ok_def)
    then show ?thesis unfolding mem by (auto simp: member_key_def sealed_key_def)
  next
    case False
    then have "k \<in> set ks" using that unfolding sea by auto
    then have k: "sk_bridge k = b" "length (sk_salt k) = 16" "\<exists>m \<in> set rs. m_label m = sk_label k \<and> m_role m = Member \<and> m_local m"
      using n by (simp_all add: new_roster_def)
    then show ?thesis unfolding mem using rs by (fastforce simp: member_key_def sealed_key_def)
  qed
  have "distinct (map sk_bridge ?ks)" using ok by (simp add: bridges_ok_def distinct_map_filter)
  moreover have "distinct (map sk_bridge ks)" using n by (cases ks) (auto simp: new_roster_def)
  moreover have "sk_bridge ` set ?ks \<inter> sk_bridge ` set ks = {}" using n by (auto simp: new_roster_def)
  ultimately have 4: "distinct (map sk_bridge (sealed_rows s'))" unfolding sea by simp
  have 5: "b_id r \<notin> sk_bridge ` set (sealed_rows s')" if "r \<in> set (pb_rows s')" "b_destroyed r \<noteq> None" for r
  proof -
    have "b_id r \<noteq> b" "r \<in> set (pb_rows s)" using d that by blast+
    then have "b_id r \<notin> sk_bridge ` set (sealed_rows s)" using ok that(2) by (simp add: bridges_ok_def)
    moreover have "sk_bridge ` set ks \<subseteq> {b}" using n by (auto simp: new_roster_def)
    ultimately show ?thesis using \<open>b_id r \<noteq> b\<close> unfolding sea by auto
  qed
  show ?thesis unfolding bridges_ok_def using p 1 2 3 4 5 by blast
qed

text \<open>What the two ways of writing a roster do.\<close>

lemma write_roster_Ok:
  assumes "bind (insert_member_parties b ms loc) (\<lambda>_. bind (insert_supervisor_parties b ss loc) k) s = (Ok u, s')"
  shows "parties_ok s (party_rows b ms ss loc)"
    "k () (s\<lparr>member_rows := member_rows s @ party_rows b ms ss loc\<rparr>) = (Ok u, s')"
  using assms unfolding write_roster by (elim bind_Ok_elim; simp add: insert_members_iff)+

lemma seal_insert_Ok:
  assumes "bind (seal_secret C pk w secret) (\<lambda>c. insert_sealed \<lparr> sk_bridge = b, sk_label = l, sk_salt = w, sk_secret = c \<rparr>) s = (Ok u, s')"
  shows "\<not> x25519_weak C pk"
    "s' = s\<lparr>draws := Suc (draws s), sealed_rows := sealed_rows s @
       [\<lparr> sk_bridge = b, sk_label = l, sk_salt = w, sk_secret = box_seal C pk (draws s) (w @ secret) \<rparr>]\<rparr>"
  using assms
  by (simp_all add: seal_secret_def pb_is_weak_x25519_public_key_def insert_sealed_def bind_run split: if_splits)

lemma seal_local_Ok:
  assumes "seal_local_if_member C b l ms secret s = (Ok u, s')" "os_ok C"
  obtains d ks where "s' = s\<lparr>draws := d, sealed_rows := sealed_rows s @ ks\<rparr>"
    "case map_of ms l of None \<Rightarrow> ks = []
     | Some k \<Rightarrow> \<exists>r. ks = [r] \<and> sk_bridge r = b \<and> sk_label r = l \<and> sealed_for C (mk_encryption k) secret r
                  \<and> \<not> x25519_weak C (mk_encryption k)"
proof (cases "map_of ms l")
  case None
  then show thesis using assms that [of "[]" "draws s"] by (simp add: seal_local_if_member_def)
next
  case (Some k)
  let ?w = "os_bytes C (draws s) SALT_LEN"
  have "bind (seal_secret C (mk_encryption k) ?w secret) (\<lambda>c. insert_sealed \<lparr> sk_bridge = b, sk_label = l,
      sk_salt = ?w, sk_secret = c \<rparr>) (s\<lparr>draws := Suc (draws s)\<rparr>) = (Ok u, s')"
    using assms(1) Some by (simp add: seal_local_if_member_def SALT_LEN_def)
  note k = seal_insert_Ok [OF this]
  have "length ?w = 16" using assms(2) by (simp add: os_ok_def SALT_LEN_def)
  then show thesis using Some k(1)
    by (intro that [where d = "Suc (Suc (draws s))", unfolded Some option.case])
       (simp add: k(2), fastforce simp: sealed_for_def)
qed

lemma replace_roster_Ok:
  assumes "replace_roster_and_secret C b d s = (Ok u, s')"
  obtains n ks where "parties_ok s (party_rows b (dc_members d) (dc_supervisors d) (Some (dc_recipient d)))"
    "s' = s\<lparr>member_rows := member_rows s @ party_rows b (dc_members d) (dc_supervisors d) (Some (dc_recipient d)),
        draws := n, sealed_rows := sealed_rows s @ ks\<rparr>"
    "case (dc_wrap_salt d, dc_secret d, dc_role d) of
       (Some w, Some secret, Member) \<Rightarrow> (\<exists>coin. ks = [\<lparr> sk_bridge = b, sk_label = dc_recipient d, sk_salt = w,
          sk_secret = box_seal C (dc_recipient_key d) coin (w @ secret) \<rparr>])
     | _ \<Rightarrow> ks = []"
proof -
  let ?rs = "party_rows b (dc_members d) (dc_supervisors d) (Some (dc_recipient d))"
  let ?s = "s\<lparr>member_rows := member_rows s @ ?rs\<rparr>"
  note w = write_roster_Ok [OF assms [unfolded replace_roster_and_secret_def]]
  show thesis
  proof (cases "\<exists>w secret. dc_wrap_salt d = Some w \<and> dc_secret d = Some secret \<and> dc_role d = Member")
    case False
    then have "s' = ?s"
      using w(2) by (cases "dc_wrap_salt d"; cases "dc_secret d"; cases "dc_role d") simp_all
    then have "s' = ?s\<lparr>draws := draws s, sealed_rows := sealed_rows s @ []\<rparr>" by (cases s) simp
    moreover have "case (dc_wrap_salt d, dc_secret d, dc_role d) of
       (Some w, Some secret, Member) \<Rightarrow> (\<exists>coin. [] = [\<lparr> sk_bridge = b, sk_label = dc_recipient d, sk_salt = w,
          sk_secret = box_seal C (dc_recipient_key d) coin (w @ secret) \<rparr>])
     | _ \<Rightarrow> ([] :: sealed_row list) = []"
      using False by (cases "dc_wrap_salt d"; cases "dc_secret d"; cases "dc_role d") simp_all
    ultimately show thesis by (rule that [OF w(1)])
  next
    case True
    then obtain x secret where x: "dc_wrap_salt d = Some x" "dc_secret d = Some secret" "dc_role d = Member" by blast
    have "bind (seal_secret C (dc_recipient_key d) x secret) (\<lambda>c. insert_sealed \<lparr> sk_bridge = b,
       sk_label = dc_recipient d, sk_salt = x, sk_secret = c \<rparr>) ?s = (Ok u, s')"
      using w(2) x by simp
    note e = seal_insert_Ok(2) [OF this]
    show thesis
    proof (rule that [OF w(1)])
      show "s' = s\<lparr>member_rows := member_rows s @ ?rs, draws := Suc (draws s),
         sealed_rows := sealed_rows s @ [\<lparr> sk_bridge = b, sk_label = dc_recipient d, sk_salt = x,
           sk_secret = box_seal C (dc_recipient_key d) (draws s) (x @ secret) \<rparr>]\<rparr>"
        unfolding e by simp
    qed (simp add: x, blast)
  qed
qed

section \<open>The three ways the tables change\<close>

lemma fresh_bridge:
  assumes "bridges_ok s" "b = next_rowid (map b_id (pb_rows s))"
  shows "filter (\<lambda>m. m_bridge m \<noteq> b) (member_rows s) = member_rows s"
    "filter (\<lambda>k. sk_bridge k \<noteq> b) (sealed_rows s) = sealed_rows s"
proof -
  have b: "b \<notin> b_id ` set (pb_rows s)" using next_rowid_fresh [of "map b_id (pb_rows s)"] assms(2) by simp
  then have m: "m_bridge m \<noteq> b" if "m \<in> set (member_rows s)" for m
    using assms(1) that by (auto simp: bridges_ok_def)
  then show "filter (\<lambda>m. m_bridge m \<noteq> b) (member_rows s) = member_rows s" by (simp add: filter_id_conv)
  have "sk_bridge k \<noteq> b" if k: "k \<in> set (sealed_rows s)" for k
  proof -
    obtain x where "x \<in> set (member_rows s)" "member_key x = sealed_key k"
      using assms(1) k unfolding bridges_ok_def by blast
    then show ?thesis using m [of x] by (simp add: member_key_def sealed_key_def)
  qed
  then show "filter (\<lambda>k. sk_bridge k \<noteq> b) (sealed_rows s) = sealed_rows s" by (simp add: filter_id_conv)
qed

lemma cascade:
  assumes "bridges_ok s"
  shows "filter (\<lambda>k. sealed_key k \<notin> member_key ` set (filter (\<lambda>r. m_bridge r = b) (member_rows s))) (sealed_rows s)
     = filter (\<lambda>k. sk_bridge k \<noteq> b) (sealed_rows s)"
proof (rule filter_cong [OF refl])
  fix k assume "k \<in> set (sealed_rows s)"
  then obtain m where m: "m \<in> set (member_rows s)" "member_key m = sealed_key k"
    using assms unfolding bridges_ok_def by blast
  then show "(sealed_key k \<notin> member_key ` set (filter (\<lambda>r. m_bridge r = b) (member_rows s))) = (sk_bridge k \<noteq> b)"
    by (auto simp: member_key_def sealed_key_def image_iff)
qed

text \<open>A new bridge.\<close>

lemma added_ok:
  assumes ok: "bridges_ok s" and b: "b = next_rowid (map b_id (pb_rows s))" "b_id r = b"
    and r: "b_uid r \<notin> b_uid ` set (pb_rows s)" "0 < b_generation r" "b_generation r < 2 ^ 32" "length (b_public r) = 32"
      "length (b_salt r) = 16" "b_destroyed r = None"
    and s': "pb_rows s' = pb_rows s @ [r]" and n: "new_roster b rs ks s s'" "\<forall>m \<in> set rs. length (m_encryption m) = 32"
  shows "bridges_ok s' \<and> later s s'"
proof
  have "0 < b" "\<forall>q \<in> set (pb_rows s). b_id q < b"
    using b next_rowid_pos next_rowid_greater [of _ "map b_id (pb_rows s)"] by auto
  then have "pb.ids_ok s'" using ok b(2) s' by (auto simp: bridges_ok_def pb.ids_ok_def sorted_wrt_append)
  then show "bridges_ok s'"
    by (rule new_roster_ok [OF ok n]) (use ok r s' b(2) \<open>\<forall>q \<in> set (pb_rows s). b_id q < b\<close> in \<open>auto simp: bridges_ok_def\<close>)
  show "later s s'" by (rule later_new [OF s'])
qed

lemma uint_next: "0 < uint (g + 1 :: u32) \<Longrightarrow> uint (g + 1) = uint g + 1"
proof -
  assume h: "0 < uint (g + 1 :: u32)"
  have e: "uint (g + 1) = (uint g + 1) mod 2 ^ 32" by (simp add: uint_word_ariths)
  have "0 \<le> uint g" "uint g < 2 ^ 32" using uint_bounded [of g] by simp_all
  then have "uint g + 1 < 2 ^ 32 \<or> uint g + 1 = 2 ^ 32" by linarith
  then show ?thesis using h e \<open>0 \<le> uint g\<close> by auto
qed

lemma uint_lt_32: "uint (g :: u32) < 2 ^ 32"
  using uint_bounded [of g] by simp

text \<open>A rotation.\<close>

lemma rotated_ok:
  assumes ok: "bridges_ok s" and r0: "r0 \<in> set (pb_rows s)" "b_uid r0 = uid" "b_id r0 = b"
    and s': "pb_rows s' = map (\<lambda>r. if P r then f r else r) (pb_rows s)"
    and P: "\<And>r. P r \<longleftrightarrow> b_uid r = uid \<and> b_generation r = uint (g :: u32) \<and> b_destroyed r = None"
    and one: "length (filter P (pb_rows s)) = 1"
    and f: "\<And>r. b_id (f r) = b_id r \<and> b_uid (f r) = b_uid r \<and> b_destroyed (f r) = b_destroyed r
        \<and> b_generation (f r) = uint (g + 1) \<and> length (b_public (f r)) = 32 \<and> length (b_salt (f r)) = 16"
    and pos: "\<And>r. r \<in> set (pb_rows s) \<Longrightarrow> P r \<Longrightarrow> 0 < b_generation (f r)"
    and n: "new_roster b rs ks s s'" "\<forall>m \<in> set rs. length (m_encryption m) = 32"
  shows "bridges_ok s' \<and> later s s'"
proof -
  let ?f = "\<lambda>r. if P r then f r else r"
  obtain q where q: "q \<in> set (pb_rows s)" "P q" using one by (metis length_0_conv zero_neq_one filter_empty_conv)
  then have "q = r0" using bridge_uid_unique [OF ok q(1) r0(1)] P r0(2) by simp
  then have live: "P r0" "b_destroyed r0 = None" using q(2) P by simp_all
  have g: "uint (g + 1) = uint g + 1" using pos [OF q] f by (simp add: uint_next)
  have ids: "map b_id (pb_rows s') = map b_id (pb_rows s)" "map b_uid (pb_rows s') = map b_uid (pb_rows s)"
    unfolding s' by (simp_all add: f)
  have "sorted_wrt (<) (map b_id (pb_rows s'))" "\<forall>i \<in> set (map b_id (pb_rows s')). 0 < i"
    unfolding ids(1) using ok by (auto simp: bridges_ok_def pb.ids_ok_def)
  then have p: "pb.ids_ok s'" by (simp add: pb.ids_ok_def)
  have u: "distinct (map b_uid (pb_rows s'))" using ok ids(2) by (simp add: bridges_ok_def)
  have v: "\<forall>r \<in> set (pb_rows s'). 0 < b_generation r \<and> b_generation r < 2 ^ 32 \<and> length (b_public r) = 32 \<and> length (b_salt r) = 16"
    using ok pos uint_lt_32 [of "g + 1"] unfolding s' by (auto simp: bridges_ok_def f)
  have i: "b_id ` set (pb_rows s) = b_id ` set (pb_rows s')" using ids(1) by (metis set_map)
  have d: "\<forall>r \<in> set (pb_rows s'). b_destroyed r \<noteq> None \<longrightarrow> b_id r \<noteq> b \<and> r \<in> set (pb_rows s)"
  proof (intro ballI impI)
    fix r assume "r \<in> set (pb_rows s')" "b_destroyed r \<noteq> None"
    then obtain q where q: "q \<in> set (pb_rows s)" "r = ?f q" unfolding s' by auto
    then have "\<not> P q" using P [of q] \<open>b_destroyed r \<noteq> None\<close> f [of q] by (cases "P q") simp_all
    then show "b_id r \<noteq> b \<and> r \<in> set (pb_rows s)"
      using q bridge_id_unique [OF ok q(1) r0(1)] r0(3) live by auto
  qed
  have "b \<in> b_id ` set (pb_rows s')" using r0 i by blast
  then have "bridges_ok s'" by (rule new_roster_ok [OF ok n p u v equalityD1 [OF i] _ d])
  moreover have "later s s'"
    by (rule later_map [OF s']) (use P f g in \<open>auto simp: moves_on_def\<close>)
  ultimately show ?thesis ..
qed

text \<open>Members or sealed copies go, or a live bridge is marked destroyed.\<close>

lemma shrunk_ok:
  assumes ok: "bridges_ok s"
    and s': "pb_rows s' = map f (pb_rows s)" "member_rows s' = filter Q (member_rows s)" "sealed_rows s' = filter K (sealed_rows s)"
    and f: "\<And>r. r \<in> set (pb_rows s) \<Longrightarrow> f r = r \<or> b_destroyed r = None \<and> f r = r\<lparr>b_destroyed := Some t\<rparr>
        \<and> (\<forall>k \<in> set (sealed_rows s). K k \<longrightarrow> sk_bridge k \<noteq> b_id r)"
    and K: "\<And>k m. k \<in> set (sealed_rows s) \<Longrightarrow> K k \<Longrightarrow> m \<in> set (member_rows s) \<Longrightarrow> member_key m = sealed_key k \<Longrightarrow> Q m"
  shows "bridges_ok s' \<and> later s s'"
proof
  have same: "b_id (f r) = b_id r \<and> b_uid (f r) = b_uid r \<and> b_generation (f r) = b_generation r
      \<and> b_public (f r) = b_public r \<and> b_salt (f r) = b_salt r" if "r \<in> set (pb_rows s)" for r
    using f [OF that] by auto
  have ids: "map b_id (pb_rows s') = map b_id (pb_rows s)" "map b_uid (pb_rows s') = map b_uid (pb_rows s)"
    unfolding s' using same by simp_all
  then have i: "b_id ` set (pb_rows s') = b_id ` set (pb_rows s)" by (metis set_map)
  have "sorted_wrt (<) (map b_id (pb_rows s'))" "\<forall>i \<in> set (map b_id (pb_rows s')). 0 < i"
    unfolding ids(1) using ok by (auto simp: bridges_ok_def pb.ids_ok_def)
  then have p: "pb.ids_ok s'" by (simp add: pb.ids_ok_def)
  have v: "\<forall>r \<in> set (pb_rows s'). 0 < b_generation r \<and> b_generation r < 2 ^ 32 \<and> length (b_public r) = 32 \<and> length (b_salt r) = 16"
    using ok same unfolding s'(1) by (auto simp: bridges_ok_def)
  have m: "\<forall>m \<in> set (member_rows s'). m_bridge m \<in> b_id ` set (pb_rows s') \<and> role_check m \<and> length (m_encryption m) = 32"
    using ok unfolding i s'(2) by (auto simp: bridges_ok_def)
  have k: "\<forall>k \<in> set (sealed_rows s'). length (sk_salt k) = 16
      \<and> (\<exists>m \<in> set (member_rows s'). member_key m = sealed_key k \<and> m_role m = Member \<and> m_local m)"
  proof
    fix k assume "k \<in> set (sealed_rows s')"
    then have k: "k \<in> set (sealed_rows s)" "K k" unfolding s'(3) by auto
    then obtain m where "m \<in> set (member_rows s)" "member_key m = sealed_key k" "m_role m = Member" "m_local m"
      "length (sk_salt k) = 16" using ok unfolding bridges_ok_def by blast
    then show "length (sk_salt k) = 16
      \<and> (\<exists>m \<in> set (member_rows s'). member_key m = sealed_key k \<and> m_role m = Member \<and> m_local m)"
      using K [OF k] unfolding s'(2) by auto
  qed
  have d: "\<forall>r \<in> set (pb_rows s'). b_destroyed r \<noteq> None \<longrightarrow> b_id r \<notin> sk_bridge ` set (sealed_rows s')"
  proof (intro ballI impI)
    fix r assume r: "r \<in> set (pb_rows s')" "b_destroyed r \<noteq> None"
    then obtain q where q: "q \<in> set (pb_rows s)" "r = f q" unfolding s'(1) by auto
    show "b_id r \<notin> sk_bridge ` set (sealed_rows s')"
    proof (cases "f q = q")
      case True
      then have "b_id r \<notin> sk_bridge ` set (sealed_rows s)" using ok q r by (simp add: bridges_ok_def)
      then show ?thesis unfolding s'(3) by auto
    next
      case False
      then show ?thesis using f [OF q(1)] q unfolding s'(3) by auto
    qed
  qed
  have "distinct (map b_uid (pb_rows s'))" "distinct (map member_key (member_rows s'))" "distinct (map sk_bridge (sealed_rows s'))"
    using ok ids(2) by (simp_all add: bridges_ok_def s'(2,3) distinct_map_filter)
  then show "bridges_ok s'" unfolding bridges_ok_def using p v m k d by blast
  show "later s s'"
  proof (rule later_map [OF s'(1)])
    fix r assume "r \<in> set (pb_rows s)"
    then show "moves_on r (f r)" using f [of r] by (auto simp: moves_on_def)
  qed
qed

end
