(* ===== verification/BridgeHistory.thy ===== *)
theory BridgeHistory
  imports BridgeFacts
begin

text \<open>
  What each operation on private bridges does to the tables, branch by branch, and two
  properties of every run of them: the tables stay well formed, and a bridge only moves on.
\<close>

section \<open>Rosters that callers and packages give\<close>

lemma set_sm_insert: "set (sm_insert k v m) \<subseteq> insert (k, v) (set m)"
  by (induction k v m rule: sm_insert.induct) auto

lemma unique_members_from_Ok:
  assumes "unique_members_from C m ps = Ok ms" "sm_ok m"
  shows "sm_ok ms \<and> fst ` set ms = fst ` set m \<union> pi_label ` set ps
    \<and> (\<forall>(l, k) \<in> set ms. (l, k) \<in> set m \<or> l \<noteq> [] \<and> \<not> x25519_weak C (mk_encryption k) \<and> ed_valid_key C (mk_signing k)
         \<and> (\<exists>p \<in> set ps. pi_label p = l \<and> pi_encryption p = mk_encryption k \<and> pi_signing p = Some (mk_signing k)))"
  using assms
proof (induction ps arbitrary: m)
  case (Cons p ps)
  obtain sg where p: "pi_label p \<noteq> []" "\<not> x25519_weak C (pi_encryption p)" "pi_signing p = Some sg" "ed_valid_key C sg"
    and rec: "unique_members_from C (sm_insert (pi_label p) \<lparr> mk_encryption = pi_encryption p, mk_signing = sg \<rparr> m) ps = Ok ms"
    using Cons.prems(1) by (auto simp: and_then_Ok_iff pb_is_weak_x25519_public_key_def split: if_splits)
  note IH = Cons.IH [OF rec sm_insert_ok [OF Cons.prems(2)]]
  show ?case
  proof (intro conjI ballI)
    show "sm_ok ms" using IH by blast
    show "fst ` set ms = fst ` set m \<union> pi_label ` set (p # ps)" using IH by auto
    fix x assume "x \<in> set ms"
    then show "case x of (l, k) \<Rightarrow> (l, k) \<in> set m \<or> l \<noteq> [] \<and> \<not> x25519_weak C (mk_encryption k) \<and> ed_valid_key C (mk_signing k)
         \<and> (\<exists>p \<in> set (p # ps). pi_label p = l \<and> pi_encryption p = mk_encryption k \<and> pi_signing p = Some (mk_signing k))"
      using IH p set_sm_insert [of "pi_label p" "\<lparr> mk_encryption = pi_encryption p, mk_signing = sg \<rparr>" m] by fastforce
  qed
qed simp

lemma unique_supervisors_from_Ok:
  assumes "unique_supervisors_from C m ps = Ok ss" "sm_ok m"
  shows "sm_ok ss \<and> fst ` set ss = fst ` set m \<union> pi_label ` set ps
    \<and> (\<forall>(l, k) \<in> set ss. (l, k) \<in> set m \<or> l \<noteq> [] \<and> \<not> x25519_weak C k \<and> (\<exists>p \<in> set ps. pi_label p = l \<and> pi_encryption p = k))"
  using assms
proof (induction ps arbitrary: m)
  case (Cons p ps)
  have p: "pi_label p \<noteq> []" "\<not> x25519_weak C (pi_encryption p)"
    and rec: "unique_supervisors_from C (sm_insert (pi_label p) (pi_encryption p) m) ps = Ok ss"
    using Cons.prems(1) by (auto simp: pb_is_weak_x25519_public_key_def split: if_splits)
  note IH = Cons.IH [OF rec sm_insert_ok [OF Cons.prems(2)]]
  show ?case
  proof (intro conjI ballI)
    show "sm_ok ss" using IH by blast
    show "fst ` set ss = fst ` set m \<union> pi_label ` set (p # ps)" using IH by auto
    fix x assume "x \<in> set ss"
    then show "case x of (l, k) \<Rightarrow> (l, k) \<in> set m \<or> l \<noteq> [] \<and> \<not> x25519_weak C k
         \<and> (\<exists>p \<in> set (p # ps). pi_label p = l \<and> pi_encryption p = k)"
      using IH p set_sm_insert [of "pi_label p" "pi_encryption p" m] by fastforce
  qed
qed simp

text \<open>A roster the program holds: ordered, disjoint, with keys of the right length, no empty label.\<close>

definition inputs_32 :: "party_input list \<Rightarrow> bool" where
  "inputs_32 ps \<longleftrightarrow> (\<forall>p \<in> set ps. length (pi_encryption p) = 32 \<and> (\<forall>k. pi_signing p = Some k \<longrightarrow> length k = 32))"

definition live_roster :: "crates \<Rightarrow> member_keys smap \<Rightarrow> bytes smap \<Rightarrow> bool" where
  "live_roster C ms ss \<longleftrightarrow> sm_ok ms \<and> sm_ok ss \<and> fst ` set ms \<inter> fst ` set ss = {} \<and> [] \<notin> fst ` set ms \<union> fst ` set ss
     \<and> (\<forall>(l, k) \<in> set ms. length (mk_encryption k) = 32 \<and> length (mk_signing k) = 32 \<and> ed_valid_key C (mk_signing k)
          \<and> \<not> x25519_weak C (mk_encryption k))
     \<and> (\<forall>(l, k) \<in> set ss. length k = 32 \<and> \<not> x25519_weak C k)"

lemma live_roster_32: "live_roster C ms ss \<Longrightarrow> roster_32 ms ss"
  by (auto simp: live_roster_def roster_32_def)

lemma planned_roster:
  assumes "unique_members C mps = Ok ms" "unique_supervisors C sps = Ok ss0" "fill_implied_supervisors ms ss0 = Ok ss"
    "inputs_32 mps" "inputs_32 sps"
  shows "live_roster C ms ss"
proof -
  have m: "sm_ok ms" "\<forall>(l, k) \<in> set ms. l \<noteq> [] \<and> \<not> x25519_weak C (mk_encryption k) \<and> ed_valid_key C (mk_signing k)
         \<and> (\<exists>p \<in> set mps. pi_label p = l \<and> pi_encryption p = mk_encryption k \<and> pi_signing p = Some (mk_signing k))"
    using unique_members_from_Ok [OF assms(1) [unfolded unique_members_def]] by auto
  have s: "sm_ok ss0" "\<forall>(l, k) \<in> set ss0. l \<noteq> [] \<and> \<not> x25519_weak C k \<and> (\<exists>p \<in> set sps. pi_label p = l \<and> pi_encryption p = k)"
    using unique_supervisors_from_Ok [OF assms(2) [unfolded unique_supervisors_def]] by auto
  have ss: "ss = filter (\<lambda>(l, _). \<not> sm_has ms l) ss0"
    using assms(3) by (simp add: fill_implied_supervisors_def split: if_splits)
  have "sm_ok ss" unfolding ss by (rule sm_filter [OF s(1)])
  moreover have "fst ` set ms \<inter> fst ` set ss = {}" unfolding ss by (auto simp: sm_has_iff image_iff)
  moreover have "\<forall>(l, k) \<in> set ms. length (mk_encryption k) = 32 \<and> length (mk_signing k) = 32"
    using m(2) assms(4) unfolding inputs_32_def by fastforce
  moreover have "\<forall>(l, k) \<in> set ss. length k = 32 \<and> \<not> x25519_weak C k \<and> l \<noteq> []"
    using s(2) assms(5) unfolding inputs_32_def ss by fastforce
  ultimately show ?thesis using m unfolding live_roster_def by force
qed

lemma party_rows_member:
  "(l, k) \<in> set ms \<Longrightarrow> \<lparr> m_bridge = b, m_label = l, m_encryption = mk_encryption k,
     m_signing = Some (mk_signing k), m_role = Member, m_local = (loc = Some l) \<rparr> \<in> set (party_rows b ms ss loc)"
  by (force simp: party_rows_def)

lemma new_rosterI:
  assumes "member_rows s' = filter (\<lambda>m. m_bridge m \<noteq> b) (member_rows s) @ party_rows b ms ss loc"
    "sealed_rows s' = filter (\<lambda>k. sk_bridge k \<noteq> b) (sealed_rows s) @ ks"
    "parties_ok t (party_rows b ms ss loc)"
    "ks = [] \<or> (\<exists>r l. ks = [r] \<and> sk_bridge r = b \<and> sk_label r = l \<and> length (sk_salt r) = 16 \<and> l \<in> fst ` set ms \<and> loc = Some l)"
  shows "new_roster b (party_rows b ms ss loc) ks s s'"
proof -
  let ?rs = "party_rows b ms ss loc"
  have rs: "\<forall>m \<in> set ?rs. m_bridge m = b \<and> role_check m"
    using assms(3) party_rows_bridge by (auto simp: parties_ok_def)
  have "distinct (map m_label ?rs)"
    using assms(3) rs member_key_bridge [of ?rs b] by (auto simp: parties_ok_def)
  moreover have "length ks \<le> 1 \<and> (\<forall>k \<in> set ks. sk_bridge k = b \<and> length (sk_salt k) = 16
          \<and> (\<exists>m \<in> set ?rs. m_label m = sk_label k \<and> m_role m = Member \<and> m_local m))"
    using assms(4)
  proof (elim disjE exE conjE)
    fix r l assume r: "ks = [r]" "sk_bridge r = b" "sk_label r = l" "length (sk_salt r) = 16" "loc = Some l" "l \<in> fst ` set ms"
    then obtain k where "(l, k) \<in> set ms" by auto
    from party_rows_member [OF this, of b loc ss] r show ?thesis by (auto intro!: bexI)
  qed simp
  ultimately show ?thesis unfolding new_roster_def using assms(1,2) rs by blast
qed
section \<open>The operations\<close>

text \<open>What every call leaves behind: well-formed tables in which each bridge has only moved on.\<close>

definition sound_step :: "store \<Rightarrow> store \<Rightarrow> bool" where
  "sound_step s s' \<longleftrightarrow> bridges_ok s' \<and> later s s' \<and> \<not> in_tx s'"

lemma sound_same: "bridges_ok s \<Longrightarrow> \<not> in_tx s \<Longrightarrow> same_bridges s s' \<Longrightarrow> in_tx s' = in_tx s \<Longrightarrow> sound_step s s'"
  by (simp add: sound_step_def bridges_ok_cong later_refl)

lemma same_tables_in_tx: "same_tables s s' \<Longrightarrow> in_tx s' = in_tx s"
proof -
  assume "same_tables s s'"
  then have s: "s'\<lparr>draws := draws s, disk := disk s\<rparr> = s" by (simp add: same_tables_def)
  have "in_tx (s'\<lparr>draws := draws s, disk := disk s\<rparr>) = in_tx s'" by simp
  then show ?thesis unfolding s by simp
qed

lemma sound_failed: "bridges_ok s \<Longrightarrow> \<not> in_tx s \<Longrightarrow> same_tables s s' \<Longrightarrow> sound_step s s'"
  by (rule sound_same) (simp_all add: same_tables_bridges same_tables_in_tx)

lemma sound_trans: "sound_step s s' \<Longrightarrow> sound_step s' t \<Longrightarrow> sound_step s t"
  using later_trans by (auto simp: sound_step_def)

text \<open>A new bridge of this store.\<close>

lemma commit_creation_Ok:
  assumes "commit_planned_creation C p s = (Ok u, s')" "\<not> in_tx s" "bridges_ok s" "os_ok C"
    and "pc_local p = None \<longrightarrow> [] \<notin> fst ` set (pc_members p)"
  obtains b ks where "b = next_rowid (map b_id (pb_rows s))" "cb_uid (pc_created p) \<notin> b_uid ` set (pb_rows s)"
    "0 < uint (cb_generation (pc_created p))"
    "pb_rows s' = pb_rows s @ [\<lparr> b_id = b, b_uid = cb_uid (pc_created p), b_key = pc_key p, b_label = pc_label p,
       b_generation = uint (cb_generation (pc_created p)), b_public = cb_public (pc_created p),
       b_salt = cb_salt (pc_created p), b_destroyed = None \<rparr>]"
    "new_roster b (party_rows b (pc_members p) (pc_supervisors p) (pc_local p)) ks s s'" "\<not> in_tx s'"
  using assms(1,2) unfolding commit_planned_creation_def Let_def
proof (cases rule: immediate_cases)
  case (succeeded a t)
  let ?c = "pc_created p" and ?l = "case pc_local p of None \<Rightarrow> [] | Some l \<Rightarrow> l"
  let ?row = "\<lambda>b. \<lparr> b_id = b, b_uid = cb_uid ?c, b_key = pc_key p, b_label = pc_label p,
       b_generation = uint (cb_generation ?c), b_public = cb_public ?c, b_salt = cb_salt ?c, b_destroyed = None \<rparr>"
  define b where "b = next_rowid (map b_id (pb_rows s))"
  let ?rs = "party_rows b (pc_members p) (pc_supervisors p) (pc_local p)"
  let ?s = "s\<lparr>in_tx := True, pb_rows := pb_rows s @ [?row b]\<rparr>"
  obtain v t1 where t1: "persist_new_bridge C (cb_uid ?c) (pc_key p) (pc_label p) (cb_generation ?c) (cb_public ?c)
      (cb_salt ?c) (pc_members p) (pc_supervisors p) (pc_local p) (pc_secret p) (s\<lparr>in_tx := True\<rparr>) = (Ok v, t1)"
    and ev: "\<exists>es. t = t1\<lparr>pbevent_rows := es\<rparr>"
    using succeeded(2) by (elim bind_Ok_elim) (auto dest: insert_event_Ok)
  then obtain es where t: "t = t1\<lparr>pbevent_rows := es\<rparr>" by blast
  have new: "cb_uid ?c \<notin> b_uid ` set (pb_rows s)" "0 < uint (cb_generation ?c)"
    and t1': "bind (insert_member_parties b (pc_members p) (pc_local p)) (\<lambda>_. bind (insert_supervisor_parties b (pc_supervisors p) (pc_local p))
       (\<lambda>_. seal_local_if_member C b ?l (pc_members p) (pc_secret p))) ?s = (Ok v, t1)"
    using t1 unfolding persist_new_bridge_def
    by (auto elim!: bind_Ok_elim [of "insert_pb m" for m] simp: insert_pb_run Let_def b_def split: if_splits)
  note w = write_roster_Ok [OF t1']
  obtain d ks where t1eq: "t1 = ?s\<lparr>member_rows := member_rows s @ ?rs, draws := d, sealed_rows := sealed_rows s @ ks\<rparr>"
    and ks: "case map_of (pc_members p) ?l of None \<Rightarrow> ks = []
     | Some k \<Rightarrow> \<exists>r. ks = [r] \<and> sk_bridge r = b \<and> sk_label r = ?l \<and> sealed_for C (mk_encryption k) (pc_secret p) r
                  \<and> \<not> x25519_weak C (mk_encryption k)"
    by (rule seal_local_Ok [OF w(2) assms(4)], rule that) simp_all
  have s': "s' = ?s\<lparr>member_rows := member_rows s @ ?rs, draws := d, sealed_rows := sealed_rows s @ ks, pbevent_rows := es, in_tx := False\<rparr>"
    unfolding succeeded(3) t t1eq by simp
  have "ks = [] \<or> (\<exists>r l. ks = [r] \<and> sk_bridge r = b \<and> sk_label r = l \<and> length (sk_salt r) = 16
      \<and> l \<in> fst ` set (pc_members p) \<and> pc_local p = Some l)"
  proof (cases "map_of (pc_members p) ?l")
    case (Some k)
    then have "?l \<in> fst ` set (pc_members p)" by (auto dest: map_of_SomeD simp: rev_image_eqI)
    moreover have "pc_local p = Some ?l"
      using calculation assms(5) by (cases "pc_local p") auto
    moreover obtain r where "ks = [r]" "sk_bridge r = b" "sk_label r = ?l" "length (sk_salt r) = 16"
      using ks Some by (auto simp: sealed_for_def)
    ultimately show ?thesis by blast
  qed (use ks in simp)
  then have "new_roster b ?rs ks s s'"
    using w(1) fresh_bridge [OF assms(3) b_def] by (intro new_rosterI) (simp_all add: s')
  then show thesis using new by (intro that [OF b_def new]) (simp_all add: s')
qed simp

text \<open>A bridge an invitation brings.\<close>

definition seal_of :: "decoded_package \<Rightarrow> bool" where
  "seal_of d \<longleftrightarrow> dc_wrap_salt d \<noteq> None \<and> dc_secret d \<noteq> None \<and> dc_role d = Member"

lemma validated_member:
  "validate_decoded_recipient d = Ok () \<Longrightarrow> dc_role d = Member \<Longrightarrow>
     \<exists>k. map_of (dc_members d) (dc_recipient d) = Some k \<and> mk_encryption k = dc_recipient_key d"
  by (auto simp: validate_decoded_recipient_def and_then_Ok_iff split: if_splits)

lemma replaced_roster:
  assumes "replace_roster_and_secret C b d s = (Ok u, s')" "validate_decoded_recipient d = Ok ()"
    "\<forall>w. dc_wrap_salt d = Some w \<longrightarrow> length w = 16"
    and old: "member_rows s = filter (\<lambda>m. m_bridge m \<noteq> b) (member_rows s0)" "sealed_rows s = filter (\<lambda>k. sk_bridge k \<noteq> b) (sealed_rows s0)"
  obtains n ks where "new_roster b (party_rows b (dc_members d) (dc_supervisors d) (Some (dc_recipient d))) ks s0 s'"
    "s' = s\<lparr>member_rows := member_rows s @ party_rows b (dc_members d) (dc_supervisors d) (Some (dc_recipient d)),
        draws := n, sealed_rows := sealed_rows s @ ks\<rparr>"
    "\<forall>w sk. dc_wrap_salt d = Some w \<and> dc_secret d = Some sk \<and> dc_role d = Member \<longrightarrow>
       (\<exists>r. ks = [r] \<and> sk_label r = dc_recipient d \<and> sealed_for C (dc_recipient_key d) sk r)"
proof -
  let ?rs = "party_rows b (dc_members d) (dc_supervisors d) (Some (dc_recipient d))"
  obtain n ks where p: "parties_ok s ?rs"
    and s': "s' = s\<lparr>member_rows := member_rows s @ ?rs, draws := n, sealed_rows := sealed_rows s @ ks\<rparr>"
    and ks: "case (dc_wrap_salt d, dc_secret d, dc_role d) of
       (Some w, Some secret, Member) \<Rightarrow> (\<exists>coin. ks = [\<lparr> sk_bridge = b, sk_label = dc_recipient d, sk_salt = w,
          sk_secret = box_seal C (dc_recipient_key d) coin (w @ secret) \<rparr>])
     | _ \<Rightarrow> ks = []"
    by (rule replace_roster_Ok [OF assms(1)])
  have one: "ks = [] \<or> (\<exists>r l. ks = [r] \<and> sk_bridge r = b \<and> sk_label r = l \<and> length (sk_salt r) = 16
      \<and> l \<in> fst ` set (dc_members d) \<and> Some (dc_recipient d) = Some l)"
  proof (cases "seal_of d")
    case True
    then obtain w sk where w: "dc_wrap_salt d = Some w" "dc_secret d = Some sk" "dc_role d = Member"
      by (auto simp: seal_of_def)
    have "dc_recipient d \<in> fst ` set (dc_members d)"
      using validated_member [OF assms(2) w(3)] by (auto dest: map_of_SomeD simp: rev_image_eqI)
    moreover obtain coin where "ks = [\<lparr> sk_bridge = b, sk_label = dc_recipient d, sk_salt = w,
        sk_secret = box_seal C (dc_recipient_key d) coin (w @ sk) \<rparr>]"
      using ks w by auto
    moreover have "length w = 16" using assms(3) w(1) by blast
    ultimately show ?thesis by simp
  next
    case False
    then show ?thesis
      using ks by (cases "dc_wrap_salt d"; cases "dc_secret d"; cases "dc_role d") (simp_all add: seal_of_def)
  qed
  have "new_roster b ?rs ks s0 s'" by (rule new_rosterI [OF _ _ p one]) (simp_all add: s' old)
  moreover have "\<forall>w sk. dc_wrap_salt d = Some w \<and> dc_secret d = Some sk \<and> dc_role d = Member \<longrightarrow>
       (\<exists>r. ks = [r] \<and> sk_label r = dc_recipient d \<and> sealed_for C (dc_recipient_key d) sk r)"
    using ks assms(3) by (fastforce simp: sealed_for_def)
  ultimately show thesis using s' that by blast
qed

definition decoded_ok :: "crates \<Rightarrow> decoded_package \<Rightarrow> bool" where
  "decoded_ok C d \<longleftrightarrow> length (dc_public d) = 32 \<and> length (dc_salt d) = 16 \<and> roster_32 (dc_members d) (dc_supervisors d)
     \<and> (\<forall>w. dc_wrap_salt d = Some w \<longrightarrow> length w = 16)"

lemma take_entries_values:
  assumes "take_entries rd n m d = Ok (m', d')" "\<And>d v r. rd d = Ok (v, r) \<Longrightarrow> P v" "\<forall>(l, v) \<in> set m. P v"
  shows "\<forall>(l, v) \<in> set m'. P v"
  using assms(1,3)
proof (induction n arbitrary: m d)
  case (Suc n)
  then obtain l r v q where "rd r = Ok (v, q)" and rec: "take_entries rd n (sm_insert l v m) q = Ok (m', d')"
    by (auto simp: and_then_Ok_iff)
  then have "P v" using assms(2) by blast
  then have "\<forall>(l, v) \<in> set (sm_insert l v m). P v" using Suc.prems(2) set_sm_insert [of l v m] by blast
  then show ?case by (rule Suc.IH [OF rec])
qed simp

lemma decode_package_ok: "decode_package C data sk = Ok d \<Longrightarrow> decoded_ok C d"
proof -
  assume "decode_package C data sk = Ok d"
  then obtain kind pk p where p: "decode_payload C kind pk p = Ok d" by (auto simp: decode_package_def and_then_Ok_iff)
  have m: "\<forall>(l, k) \<in> set ms. length (mk_encryption k) = 32" if "take_member_map C x = Ok (ms, y)" for ms x y
  proof -
    obtain n z where "take_entries (take_member C) n [] z = Ok (ms, y)"
      using \<open>take_member_map C x = Ok (ms, y)\<close> by (auto simp: take_member_map_def and_then_Ok_iff)
    then show ?thesis
      by (rule take_entries_values) (auto simp: take_member_def and_then_Ok_iff take_n_Ok_iff split: if_splits)
  qed
  have s: "\<forall>(l, k) \<in> set ss. length k = 32" if "take_party_map x = Ok (ss, y)" for ss x y
  proof -
    obtain n z where "take_entries (\<lambda>d. take_n d 32) n [] z = Ok (ss, y)"
      using \<open>take_party_map x = Ok (ss, y)\<close> by (auto simp: take_party_map_def and_then_Ok_iff)
    then show ?thesis by (rule take_entries_values) (auto simp: take_n_Ok_iff)
  qed
  have w: "\<forall>x. w = Some x \<longrightarrow> length x = 16" if "take_secret x = Ok ((w, z), y)" for w z x y
    using that by (auto simp: take_secret_def and_then_Ok_iff take_Ok_iffs SALT_LEN_def split: if_splits)
  show "decoded_ok C d"
    using p unfolding decode_payload_def decoded_ok_def roster_32_def
    by (auto simp: and_then_Ok_iff take_n_Ok_iff SALT_LEN_def split: if_splits prod.splits dest!: m s w)
qed

lemma invite_Ok:
  assumes "insert_from_invite C d s = (Ok u, s')" "\<not> in_tx s" "bridges_ok s" "decoded_ok C d"
  obtains b ks where "validate_decoded_recipient d = Ok ()" "b = next_rowid (map b_id (pb_rows s))"
    "dc_uid d \<notin> b_uid ` set (pb_rows s)" "0 < uint (dc_generation d)"
    "pb_rows s' = pb_rows s @ [\<lparr> b_id = b, b_uid = dc_uid d, b_key = None, b_label = empty_to_none (dc_bridge_label d),
       b_generation = uint (dc_generation d), b_public = dc_public d, b_salt = dc_salt d, b_destroyed = None \<rparr>]"
    "new_roster b (party_rows b (dc_members d) (dc_supervisors d) (Some (dc_recipient d))) ks s s'"
    "\<forall>w sk. dc_wrap_salt d = Some w \<and> dc_secret d = Some sk \<and> dc_role d = Member \<longrightarrow>
       (\<exists>r. ks = [r] \<and> sk_label r = dc_recipient d \<and> sealed_for C (dc_recipient_key d) sk r)"
    "hw_rows s' = hw_rows s" "\<not> in_tx s'"
proof -
  let ?row = "\<lambda>b. \<lparr> b_id = b, b_uid = dc_uid d, b_key = None, b_label = empty_to_none (dc_bridge_label d),
       b_generation = uint (dc_generation d), b_public = dc_public d, b_salt = dc_salt d, b_destroyed = None \<rparr>"
  let ?m = "bind (insert_pb ?row) (\<lambda>b. bind (replace_roster_and_secret C b d) (\<lambda>_.
        insert_event b Imported (ImportedDetail (dc_uid d) (dc_role d) (dc_recipient d) (dc_generation d))))"
  define b where "b = next_rowid (map b_id (pb_rows s))"
  have v: "validate_decoded_recipient d = Ok ()" and run: "with_immediate_transaction ?m s = (Ok u, s')"
    using assms(1) unfolding insert_from_invite_def by (auto elim!: bind_Ok_elim split: if_splits)
  from run assms(2) obtain t where t: "?m (s\<lparr>in_tx := True\<rparr>) = (Ok u, t)" and s': "s' = t\<lparr>in_tx := False\<rparr>"
    by (cases rule: immediate_cases) simp_all
  let ?s = "s\<lparr>in_tx := True, pb_rows := pb_rows s @ [?row b]\<rparr>"
  have new: "dc_uid d \<notin> b_uid ` set (pb_rows s)" "0 < uint (dc_generation d)"
    and rest: "bind (replace_roster_and_secret C b d) (\<lambda>_.
        insert_event b Imported (ImportedDetail (dc_uid d) (dc_role d) (dc_recipient d) (dc_generation d))) ?s = (Ok u, t)"
    using t by (auto elim!: bind_Ok_elim [of "insert_pb m" for m] simp: insert_pb_run Let_def b_def split: if_splits)
  from rest obtain v t1 where r: "replace_roster_and_secret C b d ?s = (Ok v, t1)" and "\<exists>es. t = t1\<lparr>pbevent_rows := es\<rparr>"
    by (elim bind_Ok_elim) (auto dest: insert_event_Ok)
  then obtain es where t1: "t = t1\<lparr>pbevent_rows := es\<rparr>" by blast
  have w: "\<forall>w. dc_wrap_salt d = Some w \<longrightarrow> length w = 16" using assms(4) by (simp add: decoded_ok_def)
  have old: "member_rows ?s = filter (\<lambda>m. m_bridge m \<noteq> b) (member_rows s)" "sealed_rows ?s = filter (\<lambda>k. sk_bridge k \<noteq> b) (sealed_rows s)"
    using fresh_bridge [OF assms(3) b_def] by simp_all
  let ?rs = "party_rows b (dc_members d) (dc_supervisors d) (Some (dc_recipient d))"
  obtain n ks where k: "new_roster b ?rs ks s t1"
      "t1 = ?s\<lparr>member_rows := member_rows ?s @ ?rs, draws := n, sealed_rows := sealed_rows ?s @ ks\<rparr>"
      "\<forall>w sk. dc_wrap_salt d = Some w \<and> dc_secret d = Some sk \<and> dc_role d = Member \<longrightarrow>
       (\<exists>r. ks = [r] \<and> sk_label r = dc_recipient d \<and> sealed_for C (dc_recipient_key d) sk r)"
    by (rule replaced_roster [OF r v w old])
  have fields: "pb_rows s' = pb_rows s @ [?row b]" "hw_rows s' = hw_rows s" "\<not> in_tx s'"
    unfolding s' t1 k(2) by simp_all
  have "member_rows s' = member_rows t1" "sealed_rows s' = sealed_rows t1" unfolding s' t1 by simp_all
  then have "new_roster b ?rs ks s s'" using k(1) by (simp add: new_roster_def)
  then show thesis using that [OF v b_def new fields(1) _ k(3) fields(2,3)] by blast
qed

text \<open>Both rotations: the member who removes another, and the stores that follow.\<close>

lemma get_row:
  assumes "get s uid = Ok g"
  obtains r where "r \<in> set (pb_rows s)" "b_uid r = uid" "uint (bg_generation g) = b_generation r"
    "bg_public g = b_public r" "bg_salt g = b_salt r" "bg_destroyed g = (b_destroyed r \<noteq> None)" "bg_label g = b_label r"
    "try_all (party_of s) (roster s (b_id r)) = Ok (bg_parties g)" "bg_uid g = uid"
proof -
  obtain r ps w where r: "find (\<lambda>r. b_uid r = uid) (pb_rows s) = Some r"
    and ps: "try_all (party_of s) (roster s (b_id r)) = Ok ps" and w: "u32_try_from (b_generation r) = Ok w"
    and g: "vec_to_32 (b_public r) = Ok (bg_public g)" "vec_to_salt (b_salt r) = Ok (bg_salt g)"
      "bg_generation g = w" "bg_destroyed g = (b_destroyed r \<noteq> None)" "bg_parties g = ps" "bg_uid g = uid" "bg_label g = b_label r"
    using assms unfolding get_def by (auto simp: and_then_Ok_iff)
  have "uint w = b_generation r"
    using w by (auto simp: u32_try_from_def uint_word_of_int split: if_splits)
  moreover have "bg_public g = b_public r" "bg_salt g = b_salt r"
    using g(1,2) by (auto simp: vec_to_32_def vec_to_salt_def split: if_splits)
  moreover have "r \<in> set (pb_rows s)" "b_uid r = uid" using find_SomeD [OF r] by simp_all
  ultimately show thesis using that g ps by blast
qed

lemma update_one:
  assumes "bind (update_pb P f) (\<lambda>n. bind (guard (n = 1) e) (\<lambda>_. k)) s = (Ok u, s')"
  shows "length (filter P (pb_rows s)) = 1" "\<And>r. r \<in> set (pb_rows s) \<Longrightarrow> P r \<Longrightarrow> 0 < b_generation (f r)"
    "k (s\<lparr>pb_rows := map (\<lambda>r. if P r then f r else r) (pb_rows s)\<rparr>) = (Ok u, s')"
  using assms by (auto elim!: bind_Ok_elim dest: update_pb_Ok split: if_splits)

lemma cleared:
  assumes "bridges_ok s" "member_rows t = member_rows s" "sealed_rows t = sealed_rows s"
  shows "delete_parties (\<lambda>r. m_bridge r = b) t = (Ok (), t\<lparr>member_rows := filter (\<lambda>m. m_bridge m \<noteq> b) (member_rows s),
      sealed_rows := filter (\<lambda>k. sk_bridge k \<noteq> b) (sealed_rows s)\<rparr>)"
  using cascade [OF assms(1), of b] assms(2,3) by (simp add: delete_parties_def)

lemma cleared_again:
  "delete_sealed b t = (Ok (), t\<lparr>sealed_rows := filter (\<lambda>k. sk_bridge k \<noteq> b) (sealed_rows t)\<rparr>)"
  by (simp add: delete_sealed_def)

text \<open>The one row an update of the live generation finds.\<close>

lemma the_row:
  assumes "bridges_ok s" "r \<in> set (pb_rows s)"
    and one: "length (filter (\<lambda>q. b_uid q = b_uid r \<and> b_generation q = g \<and> b_destroyed q = None) (pb_rows s)) = 1"
  shows "b_generation r = g" "b_destroyed r = None"
    "map (\<lambda>q. if b_uid q = b_uid r \<and> b_generation q = g \<and> b_destroyed q = None then f q else q) (pb_rows s)
     = map (\<lambda>q. if q = r then f r else q) (pb_rows s)"
proof -
  let ?P = "\<lambda>q. b_uid q = b_uid r \<and> b_generation q = g \<and> b_destroyed q = None"
  obtain q where "q \<in> set (pb_rows s)" "?P q" using one by (metis (mono_tags, lifting) filter_empty_conv length_0_conv zero_neq_one)
  then have "?P r" using bridge_uid_unique [OF assms(1) _ assms(2)] by blast
  then show "b_generation r = g" "b_destroyed r = None" by simp_all
  have "?P q \<longleftrightarrow> q = r" if "q \<in> set (pb_rows s)" for q
    using bridge_uid_unique [OF assms(1) that assms(2)] \<open>?P r\<close> by auto
  then show "map (\<lambda>q. if ?P q then f q else q) (pb_rows s) = map (\<lambda>q. if q = r then f r else q) (pb_rows s)"
    by (intro map_cong) auto
qed

lemma follow_Ok:
  assumes "apply_rotate C d s = (Ok u, s')" "\<not> in_tx s" "bridges_ok s" "decoded_ok C d"
  obtains r ks where "validate_decoded_recipient d = Ok ()" "r \<in> set (pb_rows s)" "b_uid r = dc_uid d" "b_destroyed r = None"
    "uint (dc_generation d) = b_generation r + 1" "verify_update_auth C d (b_public r) = Ok ()"
    "pb_rows s' = map (\<lambda>q. if q = r then r\<lparr>b_generation := uint (dc_generation d), b_public := dc_public d, b_salt := dc_salt d,
         b_label := (case empty_to_none (dc_bridge_label d) of None \<Rightarrow> b_label r | Some l \<Rightarrow> Some l)\<rparr> else q) (pb_rows s)"
    "new_roster (b_id r) (party_rows (b_id r) (dc_members d) (dc_supervisors d) (Some (dc_recipient d))) ks s s'"
    "\<forall>w sk. dc_wrap_salt d = Some w \<and> dc_secret d = Some sk \<and> dc_role d = Member \<longrightarrow>
       (\<exists>k. ks = [k] \<and> sk_label k = dc_recipient d \<and> sealed_for C (dc_recipient_key d) sk k)"
    "sound_step s s'"
proof -
  let ?f = "\<lambda>r. r\<lparr>b_generation := uint (dc_generation d), b_public := dc_public d, b_salt := dc_salt d,
         b_label := (case empty_to_none (dc_bridge_label d) of None \<Rightarrow> b_label r | Some l \<Rightarrow> Some l)\<rparr>"
  let ?ev = "\<lambda>b. insert_event b Rotated (FollowedDetail (dc_uid d) (dc_generation d) (dc_recipient d))"
  let ?k = "\<lambda>b. bind (delete_parties (\<lambda>r. m_bridge r = b)) (\<lambda>_. bind (delete_sealed b) (\<lambda>_.
        bind (replace_roster_and_secret C b d) (\<lambda>_. ?ev b)))"
  obtain g b where v: "validate_decoded_recipient d = Ok ()" and g: "get s (dc_uid d) = Ok g" "\<not> bg_destroyed g"
      "dc_generation d = bg_generation g + 1" "verify_update_auth C d (bg_public g) = Ok ()" "last_bridge_id s (dc_uid d) = Ok b"
    and run: "with_immediate_transaction (bind (update_pb (\<lambda>r. b_uid r = dc_uid d \<and> b_generation r = uint (bg_generation g)
        \<and> b_destroyed r = None) ?f) (\<lambda>n. bind (guard (n = 1) BridgeGenerationMismatch) (\<lambda>_. ?k b))) s = (Ok u, s')"
    using assms(1) unfolding apply_rotate_def by (auto elim!: bind_Ok_elim split: if_splits)
  obtain r where r: "r \<in> set (pb_rows s)" "b_uid r = dc_uid d" "uint (bg_generation g) = b_generation r" "bg_public g = b_public r"
    by (rule get_row [OF g(1)])
  have b: "b = b_id r" using last_bridge_id_row [OF assms(3) r(1)] g(5) r(2) by simp
  let ?P = "\<lambda>q. b_uid q = b_uid r \<and> b_generation q = uint (bg_generation g) \<and> b_destroyed q = None"
  from run assms(2) obtain t where t: "bind (update_pb ?P ?f) (\<lambda>n. bind (guard (n = 1) BridgeGenerationMismatch) (\<lambda>_. ?k b))
      (s\<lparr>in_tx := True\<rparr>) = (Ok u, t)" and s': "s' = t\<lparr>in_tx := False\<rparr>"
    unfolding r(2) by (cases rule: immediate_cases) simp_all
  note up = update_one [OF t, simplified]
  let ?pbs = "map (\<lambda>q. if ?P q then ?f q else q) (pb_rows s)"
  let ?s = "s\<lparr>in_tx := True, pb_rows := ?pbs\<rparr>"
  let ?c = "?s\<lparr>member_rows := filter (\<lambda>m. m_bridge m \<noteq> b) (member_rows s), sealed_rows := filter (\<lambda>k. sk_bridge k \<noteq> b) (sealed_rows s)\<rparr>"
  have one: "length (filter ?P (pb_rows s)) = 1" using up(1) by simp
  note row = the_row [OF assms(3) r(1) one]
  have "bind (replace_roster_and_secret C b d) (\<lambda>_. ?ev b) ?c = (Ok u, t)"
    using up(3) cleared [OF assms(3), of ?s b] by (simp add: cleared_again)
  then obtain v t1 where rep: "replace_roster_and_secret C b d ?c = (Ok v, t1)" and "\<exists>es. t = t1\<lparr>pbevent_rows := es\<rparr>"
    by (elim bind_Ok_elim) (auto dest: insert_event_Ok)
  then obtain es where t1: "t = t1\<lparr>pbevent_rows := es\<rparr>" by blast
  have w: "\<forall>w. dc_wrap_salt d = Some w \<longrightarrow> length w = 16" using assms(4) by (simp add: decoded_ok_def)
  have old: "member_rows ?c = filter (\<lambda>m. m_bridge m \<noteq> b) (member_rows s)" "sealed_rows ?c = filter (\<lambda>k. sk_bridge k \<noteq> b) (sealed_rows s)"
    by simp_all
  let ?rs = "party_rows b (dc_members d) (dc_supervisors d) (Some (dc_recipient d))"
  obtain n ks where k: "new_roster b ?rs ks s t1"
      "t1 = ?c\<lparr>member_rows := member_rows ?c @ ?rs, draws := n, sealed_rows := sealed_rows ?c @ ks\<rparr>"
      "\<forall>w sk. dc_wrap_salt d = Some w \<and> dc_secret d = Some sk \<and> dc_role d = Member \<longrightarrow>
       (\<exists>k. ks = [k] \<and> sk_label k = dc_recipient d \<and> sealed_for C (dc_recipient_key d) sk k)"
    by (rule replaced_roster [OF rep v w old])
  have fields: "pb_rows s' = ?pbs" "\<not> in_tx s'" unfolding s' t1 k(2) by simp_all
  have "member_rows s' = member_rows t1" "sealed_rows s' = sealed_rows t1" unfolding s' t1 by simp_all
  then have nr: "new_roster b ?rs ks s s'" using k(1) by (simp add: new_roster_def)
  have l: "\<forall>m \<in> set ?rs. length (m_encryption m) = 32"
    using assms(4) party_rows_32 by (auto simp: decoded_ok_def)
  have F: "b_id (?f q) = b_id q \<and> b_uid (?f q) = b_uid q \<and> b_destroyed (?f q) = b_destroyed q
      \<and> b_generation (?f q) = uint (bg_generation g + 1) \<and> length (b_public (?f q)) = 32 \<and> length (b_salt (?f q)) = 16" for q
    using assms(4) g(3) by (simp add: decoded_ok_def)
  have pos: "0 < b_generation (?f q)" if "q \<in> set (pb_rows s)" "?P q" for q
    using up(2) [of q] that by simp
  have "bridges_ok s' \<and> later s s'"
    by (rule rotated_ok [OF assms(3) r(1) refl b [symmetric] fields(1) refl one F pos nr l])
  then have "sound_step s s'" using fields(2) by (simp add: sound_step_def)
  have "0 < uint (dc_generation d)" using up(2) [of r] r(1) row(1,2) by simp
  then have g1: "uint (dc_generation d) = b_generation r + 1" using uint_next [of "bg_generation g"] r(3) g(3) by simp
  have au: "verify_update_auth C d (b_public r) = Ok ()" using g(4) r(4) by simp
  have pbs: "pb_rows s' = map (\<lambda>q. if q = r then ?f r else q) (pb_rows s)"
    unfolding fields(1) by (rule row(3))
  show thesis by (rule that [OF v r(1,2) row(2) g1 au pbs nr [unfolded b] k(3) \<open>sound_step s s'\<close>])
qed

lemma commit_rotation_Ok:
  assumes "commit_planned_removal C p s = (Ok u, s')" "pr_kind p = RotateKind q" "\<not> in_tx s" "bridges_ok s" "os_ok C"
    and r: "r \<in> set (pb_rows s)" "b_uid r = rp_uid q" "b_id r = rp_bridge q"
    and q: "rp_generation q = rp_expected q + 1" "length (rp_public q) = 32" "length (rp_salt q) = 16"
      "roster_32 (rp_members q) (rp_supervisors q)"
  obtains ks where "b_destroyed r = None" "b_generation r = uint (rp_expected q)"
    "pb_rows s' = map (\<lambda>x. if x = r then r\<lparr>b_generation := uint (rp_generation q), b_public := rp_public q, b_salt := rp_salt q\<rparr> else x) (pb_rows s)"
    "new_roster (b_id r) (party_rows (b_id r) (rp_members q) (rp_supervisors q) (Some (rp_local q))) ks s s'"
    "case map_of (rp_members q) (rp_local q) of None \<Rightarrow> ks = []
     | Some k \<Rightarrow> \<exists>x. ks = [x] \<and> sk_label x = rp_local q \<and> sealed_for C (mk_encryption k) (rp_secret q) x"
    "sound_step s s'"
proof -
  let ?f = "\<lambda>r. r\<lparr>b_generation := uint (rp_generation q), b_public := rp_public q, b_salt := rp_salt q\<rparr>"
  let ?P = "\<lambda>x. b_uid x = b_uid r \<and> b_generation x = uint (rp_expected q) \<and> b_destroyed x = None"
  let ?b = "b_id r" and ?ms = "rp_members q" and ?ss = "rp_supervisors q" and ?l = "rp_local q"
  let ?rs = "party_rows ?b ?ms ?ss (Some ?l)"
  let ?seal = "bind (delete_sealed ?b) (\<lambda>_. seal_local_if_member C ?b ?l ?ms (rp_secret q))"
  let ?k = "bind (delete_parties (\<lambda>r. m_bridge r = ?b)) (\<lambda>_. bind (insert_member_parties ?b ?ms (Some ?l)) (\<lambda>_.
      bind (insert_supervisor_parties ?b ?ss (Some ?l)) (\<lambda>_. ?seal)))"
  from assms(1,3) obtain t where t: "commit_kind C (RotateKind q) (s\<lparr>in_tx := True\<rparr>) = (Ok u, t)" and s': "s' = t\<lparr>in_tx := False\<rparr>"
    unfolding commit_planned_removal_def assms(2) by (cases rule: immediate_cases) simp_all
  have ev: "\<exists>es. t = y\<lparr>pbevent_rows := es\<rparr>"
    if "bind (insert_event b e d) (\<lambda>_. insert_event b' e' d') y = (Ok u, t)" for y b e d b' e' d'
    using that by (elim bind_Ok_elim) (fastforce dest!: insert_event_Ok)
  from t obtain v t1 where per: "bind (update_pb ?P ?f) (\<lambda>n. bind (guard (n = 1) BridgeGenerationMismatch) (\<lambda>_. ?k))
      (s\<lparr>in_tx := True\<rparr>) = (Ok v, t1)" and "\<exists>es. t = t1\<lparr>pbevent_rows := es\<rparr>"
    unfolding commit_kind.simps persist_rotation_def r(2,3) [symmetric]
    by (rule bind_Ok_elim) (rule that, assumption, rule ev)
  then obtain es where t1: "t = t1\<lparr>pbevent_rows := es\<rparr>" by blast
  note up = update_one [OF per, simplified]
  let ?pbs = "map (\<lambda>x. if ?P x then ?f x else x) (pb_rows s)"
  let ?s = "s\<lparr>in_tx := True, pb_rows := ?pbs\<rparr>"
  let ?c = "?s\<lparr>member_rows := filter (\<lambda>m. m_bridge m \<noteq> ?b) (member_rows s), sealed_rows := filter (\<lambda>k. sk_bridge k \<noteq> ?b) (sealed_rows s)\<rparr>"
  have one: "length (filter ?P (pb_rows s)) = 1" using up(1) by simp
  note row = the_row [OF assms(4) r(1) one]
  have "bind (insert_member_parties ?b ?ms (Some ?l)) (\<lambda>_. bind (insert_supervisor_parties ?b ?ss (Some ?l)) (\<lambda>_. ?seal)) ?c = (Ok v, t1)"
    using up(3) cleared [OF assms(4), of ?s ?b] by simp
  note w = write_roster_Ok [OF this]
  let ?d = "?s\<lparr>member_rows := filter (\<lambda>m. m_bridge m \<noteq> ?b) (member_rows s) @ ?rs,
      sealed_rows := filter (\<lambda>k. sk_bridge k \<noteq> ?b) (sealed_rows s)\<rparr>"
  have "seal_local_if_member C ?b ?l ?ms (rp_secret q) ?d = (Ok v, t1)"
    using w(2) by (simp add: cleared_again)
  then obtain n ks where t1eq: "t1 = ?d\<lparr>draws := n, sealed_rows := sealed_rows ?d @ ks\<rparr>"
    and ks: "case map_of ?ms ?l of None \<Rightarrow> ks = []
     | Some k \<Rightarrow> \<exists>r. ks = [r] \<and> sk_bridge r = ?b \<and> sk_label r = ?l \<and> sealed_for C (mk_encryption k) (rp_secret q) r
                  \<and> \<not> x25519_weak C (mk_encryption k)"
    by (rule seal_local_Ok [OF _ assms(5)])
  have fields: "pb_rows s' = ?pbs" "\<not> in_tx s'" unfolding s' t1 t1eq by simp_all
  have tabs: "member_rows s' = filter (\<lambda>m. m_bridge m \<noteq> ?b) (member_rows s) @ ?rs"
    "sealed_rows s' = filter (\<lambda>k. sk_bridge k \<noteq> ?b) (sealed_rows s) @ ks" unfolding s' t1 t1eq by simp_all
  have ks1: "ks = [] \<or> (\<exists>x l. ks = [x] \<and> sk_bridge x = ?b \<and> sk_label x = l \<and> length (sk_salt x) = 16 \<and> l \<in> fst ` set ?ms \<and> Some ?l = Some l)"
  proof (cases "map_of ?ms ?l")
    case (Some k)
    then have "?l \<in> fst ` set ?ms" by (auto dest: map_of_SomeD simp: rev_image_eqI)
    moreover obtain x where "ks = [x]" "sk_bridge x = ?b" "sk_label x = ?l" "length (sk_salt x) = 16"
      using ks Some by (auto simp: sealed_for_def)
    ultimately show ?thesis by blast
  qed (use ks in simp)
  have nr: "new_roster ?b ?rs ks s s'" by (rule new_rosterI [OF tabs w(1) ks1])
  have l: "\<forall>m \<in> set ?rs. length (m_encryption m) = 32" using q(4) party_rows_32 by blast
  have F: "b_id (?f x) = b_id x \<and> b_uid (?f x) = b_uid x \<and> b_destroyed (?f x) = b_destroyed x
      \<and> b_generation (?f x) = uint (rp_expected q + 1) \<and> length (b_public (?f x)) = 32 \<and> length (b_salt (?f x)) = 16" for x
    using q by simp
  have pos: "0 < b_generation (?f x)" if "x \<in> set (pb_rows s)" "?P x" for x
    using up(2) [of x] that by simp
  have "bridges_ok s' \<and> later s s'"
    by (rule rotated_ok [OF assms(4) r(1) refl refl fields(1) refl one F pos nr l])
  then have sound: "sound_step s s'" using fields(2) by (simp add: sound_step_def)
  have pbs: "pb_rows s' = map (\<lambda>x. if x = r then ?f r else x) (pb_rows s)" unfolding fields(1) by (rule row(3))
  have ks2: "case map_of ?ms ?l of None \<Rightarrow> ks = []
     | Some k \<Rightarrow> \<exists>x. ks = [x] \<and> sk_label x = ?l \<and> sealed_for C (mk_encryption k) (rp_secret q) x"
    using ks by (auto split: option.splits)
  show thesis by (rule that [OF row(2,1) pbs nr ks2 sound])
qed

text \<open>Marking destroyed, from a package, by a plan, or by the coordinator.\<close>

lemma destroyed_sound:
  assumes "bridges_ok s" "r \<in> set (pb_rows s)" "b_destroyed r = None"
    and "pb_rows s' = map (\<lambda>x. if x = r then r\<lparr>b_destroyed := Some t\<rparr> else x) (pb_rows s)"
    "member_rows s' = filter Q (member_rows s)" "sealed_rows s' = filter (\<lambda>k. sk_bridge k \<noteq> b_id r) (sealed_rows s)"
    "\<And>m. \<not> Q m \<Longrightarrow> m_bridge m = b_id r" "\<not> in_tx s'"
  shows "sound_step s s'"
proof -
  have "bridges_ok s' \<and> later s s'"
  proof (rule shrunk_ok [OF assms(1,4,5,6)])
    fix x show "(if x = r then r\<lparr>b_destroyed := Some t\<rparr> else x) = x \<or> b_destroyed x = None
        \<and> (if x = r then r\<lparr>b_destroyed := Some t\<rparr> else x) = x\<lparr>b_destroyed := Some t\<rparr>
        \<and> (\<forall>k \<in> set (sealed_rows s). sk_bridge k \<noteq> b_id r \<longrightarrow> sk_bridge k \<noteq> b_id x)"
      using assms(3) by (cases "x = r") simp_all
  next
    fix k m assume "sk_bridge k \<noteq> b_id r" "member_key m = sealed_key k"
    then show "Q m" using assms(7) [of m] by (auto simp: member_key_def sealed_key_def)
  qed
  then show ?thesis using assms(8) by (simp add: sound_step_def)
qed

text \<open>An update by uid touches the one row with that uid.\<close>

lemma update_uid:
  assumes "bridges_ok s" "r \<in> set (pb_rows s)" "\<And>x. x \<in> set (pb_rows s) \<Longrightarrow> P x \<longleftrightarrow> x = r"
  shows "map (\<lambda>x. if P x then f x else x) (pb_rows s) = map (\<lambda>x. if x = r then f r else x) (pb_rows s)"
  using assms(3) by (intro map_cong) auto

end
