(* ===== verification/BridgeRuns.thy ===== *)
theory BridgeRuns
  imports BridgeHistory
begin

text \<open>
  Every operation on private bridges as a step of one relation on stores, and what holds along
  any run of such steps: the tables stay well formed and each bridge only moves on.
\<close>

section \<open>Operations that only draw\<close>

definition draws_only :: "(store, 'a) op \<Rightarrow> bool" where
  "draws_only m \<longleftrightarrow> (\<forall>s. \<exists>d. snd (m s) = s\<lparr>draws := d\<rparr>)"

lemma draws_onlyD: "draws_only m \<Longrightarrow> m s = (r, s') \<Longrightarrow> \<exists>d. s' = s\<lparr>draws := d\<rparr>"
  unfolding draws_only_def by (metis snd_conv)

lemma draws_only_same: "(\<And>s. snd (m s) = s) \<Longrightarrow> draws_only m"
  unfolding draws_only_def by (metis store.surjective store.update_convs(18))

lemma draws_only_prims [quiet_intros]:
  "draws_only (ret a)" "draws_only (fail e)" "draws_only (asks q)" "draws_only (lift_result x)" "draws_only (guard b e)"
  by (rule draws_only_same, simp)+

lemma draws_only_draw [quiet_intros]: "draws_only draw" "draws_only (random_bytes C n)" "draws_only (random_salt C)"
  unfolding draws_only_def by (auto simp: random_bytes_def bind_run)

lemma draws_only_bind [quiet_intros]:
  assumes "draws_only m" "\<And>a. draws_only (f a)"
  shows "draws_only (bind m f)"
  unfolding draws_only_def
proof
  fix s
  obtain r s1 where m: "m s = (r, s1)" by fastforce
  then obtain d where s1: "s1 = s\<lparr>draws := d\<rparr>" using draws_onlyD [OF assms(1)] by blast
  show "\<exists>d. snd (bind m f s) = s\<lparr>draws := d\<rparr>"
  proof (cases r)
    case (Inr a)
    obtain q s2 where f: "f a s1 = (q, s2)" by fastforce
    then obtain e where s2: "s2 = s1\<lparr>draws := e\<rparr>" using draws_onlyD [OF assms(2)] by blast
    have "snd (bind m f s) = s2" using m f Inr by simp
    then show ?thesis unfolding s2 s1 by (intro exI [of _ e]) simp
  next
    case (Inl e)
    then have "snd (bind m f s) = s1" using m by simp
    then show ?thesis using s1 by blast
  qed
qed

lemma draws_only_collect [quiet_intros]: "(\<And>x. draws_only (f x)) \<Longrightarrow> draws_only (collect f xs)"
  by (induction xs) (auto intro: quiet_intros)

lemma draws_only_cases [quiet_intros]:
  "draws_only m \<Longrightarrow> draws_only n \<Longrightarrow> draws_only (if b then m else n)"
  "(\<And>x y. draws_only (g x y)) \<Longrightarrow> draws_only (case p of (x, y) \<Rightarrow> g x y)"
  "draws_only m \<Longrightarrow> (\<And>a. draws_only (h a)) \<Longrightarrow> draws_only (case z of None \<Rightarrow> m | Some a \<Rightarrow> h a)"
  by (simp, cases p, simp, cases z, simp_all)

lemma draws_only_packages [quiet_intros]:
  "draws_only (encode_package C f)"
  "draws_only (generate_signing_keypair C)"
  "draws_only (packages_for_roster C mk sk uid g l pk salt ms ss rm sec old)"
  "draws_only (destroy_package_for C uid g l pk salt ms ss rm rc key role olds)"
  unfolding encode_package_def generate_signing_keypair_def packages_for_roster_def destroy_package_for_def Let_def
  by (intro quiet_intros)+

lemma draws_only_plans [quiet_intros]:
  "draws_only (plan_create C key label mps sps loc)"
  "draws_only (plan_remove_member C uid removed l sk)"
  unfolding plan_create_def plan_remove_member_def destroy_for_def Let_def by (intro quiet_intros)+

lemma same_bridges_draws [simp]: "same_bridges s (s\<lparr>draws := d\<rparr>)"
  by (simp add: same_bridges_def)

lemma sound_draws: "bridges_ok s \<Longrightarrow> \<not> in_tx s \<Longrightarrow> sound_step s (s\<lparr>draws := d\<rparr>)"
  by (rule sound_same) simp_all

section \<open>Creation\<close>

text \<open>The plan, with the draws it is made of.\<close>

lemma plan_create_run:
  assumes "plan_create C key label mps sps loc s = (Ok p, s')"
  obtains ms ss0 ss packages where "unique_members C mps = Ok ms" "unique_supervisors C sps = Ok ss0"
    "fill_implied_supervisors ms ss0 = Ok ss" "2 \<le> length ms"
    "case loc of None \<Rightarrow> True | Some l \<Rightarrow> sm_has ms l \<or> sm_has ss l"
    "packages_for_roster C KIND_INVITE KIND_SUPERVISOR (hex_encode C (os_bytes C (draws s) 16)) 1 (unwrap_or_empty label)
       (ed_public C (os_bytes C (Suc (Suc (draws s))) 32)) (os_bytes C (Suc (draws s)) 16) ms ss []
       (Some (os_bytes C (Suc (Suc (draws s))) 32)) None (s\<lparr>draws := Suc (Suc (Suc (draws s)))\<rparr>) = (Ok packages, s')"
    "p = \<lparr> pc_created = \<lparr> cb_uid = hex_encode C (os_bytes C (draws s) 16), cb_generation = 1,
         cb_public = ed_public C (os_bytes C (Suc (Suc (draws s))) 32), cb_salt = os_bytes C (Suc (draws s)) 16,
         cb_packages = packages \<rparr>, pc_key = key, pc_label = label, pc_members = ms, pc_supervisors = ss,
       pc_local = loc, pc_secret = os_bytes C (Suc (Suc (draws s))) 32 \<rparr>"
  using assms unfolding plan_create_def Let_def generate_signing_keypair_def
  by (elim bind_Ok_elim) (auto split: if_splits elim!: bind_Ok_elim)

lemma planned_creation_ok:
  assumes "plan_create C key label mps sps loc s = (Ok p, s')" "inputs_32 mps" "inputs_32 sps" "os_ok C" "ed_ok C"
  shows "live_roster C (pc_members p) (pc_supervisors p)"
    "length (cb_public (pc_created p)) = 32" "length (cb_salt (pc_created p)) = 16"
proof -
  obtain ms ss0 ss ps where u: "unique_members C mps = Ok ms" "unique_supervisors C sps = Ok ss0"
      "fill_implied_supervisors ms ss0 = Ok ss"
    and p: "p = \<lparr> pc_created = \<lparr> cb_uid = hex_encode C (os_bytes C (draws s) 16), cb_generation = 1,
         cb_public = ed_public C (os_bytes C (Suc (Suc (draws s))) 32), cb_salt = os_bytes C (Suc (draws s)) 16,
         cb_packages = ps \<rparr>, pc_key = key, pc_label = label, pc_members = ms, pc_supervisors = ss,
       pc_local = loc, pc_secret = os_bytes C (Suc (Suc (draws s))) 32 \<rparr>"
    by (rule plan_create_run [OF assms(1)])
  show "live_roster C (pc_members p) (pc_supervisors p)"
    unfolding p using planned_roster [OF u assms(2,3)] by simp
  show "length (cb_public (pc_created p)) = 32" "length (cb_salt (pc_created p)) = 16"
    unfolding p using assms(4,5) by (simp_all add: os_ok_def ed_ok_def)
qed

lemma create_sound:
  assumes "bridges_ok s" "\<not> in_tx s" "inputs_32 mps" "inputs_32 sps" "os_ok C" "ed_ok C"
    and "create C key label mps sps loc s = (r, s')"
  shows "sound_step s s'"
proof (cases "plan_create C key label mps sps loc s")
  case (Pair q s1)
  then obtain d where s1: "s1 = s\<lparr>draws := d\<rparr>" using draws_onlyD [OF draws_only_plans(1)] by blast
  then have ok: "bridges_ok s1" "\<not> in_tx s1" "sound_step s s1"
    using assms(1,2) by (simp_all add: sound_draws bridges_ok_cong [OF same_bridges_draws])
  show ?thesis
  proof (cases q)
    case (Inl e)
    then show ?thesis using assms(7) Pair ok(3) by (simp add: create_def)
  next
    case (Inr p)
    note P = planned_creation_ok [OF Pair [unfolded Inr] assms(3-6)]
    obtain q2 s2 where c: "commit_planned_creation C p s1 = (q2, s2)" by fastforce
    have "s' = s2"
      using assms(7) Pair Inr c by (cases q2) (simp_all add: create_def)
    moreover have "sound_step s1 s2"
    proof (cases q2)
      case (Inl e)
      then have "same_tables s1 s2"
        using c ok(2) unfolding commit_planned_creation_def Let_def by (elim immediate_cases) auto
      then show ?thesis by (rule sound_failed [OF ok(1,2)])
    next
      case (Inr u)
      have "[] \<notin> fst ` set (pc_members p)" using P(1) by (simp add: live_roster_def)
      then obtain b ks where b: "b = next_rowid (map b_id (pb_rows s1))" "cb_uid (pc_created p) \<notin> b_uid ` set (pb_rows s1)"
          "0 < uint (cb_generation (pc_created p))"
        and pbs: "pb_rows s2 = pb_rows s1 @ [\<lparr> b_id = b, b_uid = cb_uid (pc_created p), b_key = pc_key p, b_label = pc_label p,
           b_generation = uint (cb_generation (pc_created p)), b_public = cb_public (pc_created p),
           b_salt = cb_salt (pc_created p), b_destroyed = None \<rparr>]"
        and n: "new_roster b (party_rows b (pc_members p) (pc_supervisors p) (pc_local p)) ks s1 s2" "\<not> in_tx s2"
        using commit_creation_Ok [OF c [unfolded Inr] ok(2,1) assms(5)] by blast
      have "\<forall>m \<in> set (party_rows b (pc_members p) (pc_supervisors p) (pc_local p)). length (m_encryption m) = 32"
        using party_rows_32 [OF live_roster_32 [OF P(1)]] by blast
      then have "bridges_ok s2 \<and> later s1 s2"
        using b P(2,3) uint_lt_32 by (intro added_ok [OF ok(1) b(1) _ _ _ _ _ _ _ pbs n(1)]) simp_all
      then show ?thesis using n(2) by (simp add: sound_step_def)
    qed
    ultimately show ?thesis using sound_trans [OF ok(3)] by simp
  qed
qed

section \<open>Import\<close>

lemma immediate_failed: "with_immediate_transaction m s = (Err e, s') \<Longrightarrow> \<not> in_tx s \<Longrightarrow> same_tables s s'"
  by (elim immediate_cases) auto

lemma invite_failed: "insert_from_invite C d s = (Err e, s') \<Longrightarrow> \<not> in_tx s \<Longrightarrow> same_tables s s'"
  unfolding insert_from_invite_def
  by (auto simp: bind_run split: sum.splits prod.splits if_splits dest: immediate_failed)

lemma invite_sound:
  assumes "bridges_ok s" "\<not> in_tx s" "decoded_ok C d" "insert_from_invite C d s = (r, s')"
  shows "sound_step s s'"
proof (cases r)
  case (Inl e)
  then show ?thesis using assms invite_failed sound_failed by blast
next
  case (Inr u)
  obtain b ks where b: "b = next_rowid (map b_id (pb_rows s))" "dc_uid d \<notin> b_uid ` set (pb_rows s)" "0 < uint (dc_generation d)"
    and pbs: "pb_rows s' = pb_rows s @ [\<lparr> b_id = b, b_uid = dc_uid d, b_key = None, b_label = empty_to_none (dc_bridge_label d),
       b_generation = uint (dc_generation d), b_public = dc_public d, b_salt = dc_salt d, b_destroyed = None \<rparr>]"
    and n: "new_roster b (party_rows b (dc_members d) (dc_supervisors d) (Some (dc_recipient d))) ks s s'" "\<not> in_tx s'"
    by (rule invite_Ok [OF assms(4) [unfolded Inr] assms(2,1,3)])
  have "\<forall>m \<in> set (party_rows b (dc_members d) (dc_supervisors d) (Some (dc_recipient d))). length (m_encryption m) = 32"
    using party_rows_32 assms(3) by (auto simp: decoded_ok_def)
  then have "bridges_ok s' \<and> later s s'"
    using b assms(3) uint_lt_32 by (intro added_ok [OF assms(1) b(1) _ _ _ _ _ _ _ pbs n(1)]) (simp_all add: decoded_ok_def)
  then show ?thesis using n(2) by (simp add: sound_step_def)
qed

lemma rotate_sound:
  assumes "bridges_ok s" "\<not> in_tx s" "decoded_ok C d" "apply_rotate C d s = (r, s')"
  shows "sound_step s s'"
proof (cases r)
  case (Inl e)
  then have "same_tables s s'"
    using assms(2,4) unfolding apply_rotate_def
    by (auto simp: bind_run split: sum.splits prod.splits if_splits dest: immediate_failed)
  then show ?thesis by (rule sound_failed [OF assms(1,2)])
next
  case (Inr u)
  show ?thesis by (rule follow_Ok [OF assms(4) [unfolded Inr] assms(2,1,3)])
qed

lemma update_pb_run:
  "(\<And>r. r \<in> set (pb_rows s) \<Longrightarrow> P r \<Longrightarrow> 0 < b_generation (f r)) \<Longrightarrow>
     update_pb P f s = (Ok (length (filter P (pb_rows s))), s\<lparr>pb_rows := map (\<lambda>r. if P r then f r else r) (pb_rows s)\<rparr>)"
  by (force simp: update_pb_def)

text \<open>The body of a destruction, in the three places it occurs.\<close>

lemma destroy_tables:
  assumes "bridges_ok s" "r \<in> set (pb_rows s)" "b_destroyed r = None" "\<And>x. x \<in> set (pb_rows s) \<Longrightarrow> P x \<longleftrightarrow> x = r"
    and t: "t = s\<lparr>in_tx := True, member_rows := filter Q (member_rows s), sealed_rows := filter K (sealed_rows s)\<rparr>"
    and K: "\<And>k. K k \<or> sk_bridge k = b_id r" and Q: "\<And>m. \<not> Q m \<Longrightarrow> m_bridge m = b_id r"
    and run: "bind (\<lambda>s. update_pb P (\<lambda>r. r\<lparr>b_destroyed := Some (clock s)\<rparr>) s) (\<lambda>n. bind (guard (c n) e) (\<lambda>_.
        bind (delete_sealed (b_id r)) (\<lambda>_. insert_event b ty dt))) t = (Ok u, t')"
    and s': "s' = t'\<lparr>in_tx := False\<rparr>"
  shows "sound_step s s'" "pb_rows s' = map (\<lambda>x. if x = r then r\<lparr>b_destroyed := Some (clock s)\<rparr> else x) (pb_rows s)"
    "member_rows s' = filter Q (member_rows s)" "sealed_rows s' = filter (\<lambda>k. sk_bridge k \<noteq> b_id r) (sealed_rows s)"
proof -
  have pos: "0 < b_generation x" if "x \<in> set (pb_rows s)" for x using assms(1) that by (simp add: bridges_ok_def)
  let ?t = "t\<lparr>pb_rows := map (\<lambda>x. if P x then x\<lparr>b_destroyed := Some (clock s)\<rparr> else x) (pb_rows s)\<rparr>"
  have "update_pb P (\<lambda>r. r\<lparr>b_destroyed := Some (clock t)\<rparr>) t = (Ok (length (filter P (pb_rows s))), ?t)"
    using pos by (subst update_pb_run) (simp_all add: t)
  then have "bind (delete_sealed (b_id r)) (\<lambda>_. insert_event b ty dt) ?t = (Ok u, t')"
    using run by (auto split: if_splits elim!: bind_Ok_elim)
  then obtain es where t': "t' = ?t\<lparr>sealed_rows := filter (\<lambda>k. sk_bridge k \<noteq> b_id r) (sealed_rows ?t), pbevent_rows := es\<rparr>"
    by (auto simp: cleared_again dest!: insert_event_Ok)
  have "pb_rows s' = map (\<lambda>x. if P x then x\<lparr>b_destroyed := Some (clock s)\<rparr> else x) (pb_rows s)" unfolding s' t' by simp
  then show pbs: "pb_rows s' = map (\<lambda>x. if x = r then r\<lparr>b_destroyed := Some (clock s)\<rparr> else x) (pb_rows s)"
    using update_uid [OF assms(1,2,4)] by simp
  have "sealed_rows s' = filter (\<lambda>k. sk_bridge k \<noteq> b_id r) (filter K (sealed_rows s))" unfolding s' t' t by simp
  also have "\<dots> = filter (\<lambda>k. sk_bridge k \<noteq> b_id r) (sealed_rows s)"
    unfolding filter_filter using K by (intro filter_cong) auto
  finally show sea: "sealed_rows s' = filter (\<lambda>k. sk_bridge k \<noteq> b_id r) (sealed_rows s)" .
  show mem: "member_rows s' = filter Q (member_rows s)" unfolding s' t' t by simp
  have tx: "\<not> in_tx s'" unfolding s' t' t by simp
  show "sound_step s s'" by (rule destroyed_sound [OF assms(1-3) pbs mem sea Q tx])
qed

lemma bind_guard_True: "bind (guard True e) f = f ()"
  by (simp add: guard_def)

lemma apply_destroy_cases:
  assumes "bridges_ok s" "\<not> in_tx s" "apply_destroy C d s = (r, s')"
  obtains (failed) "same_tables s s'"
  | (destroyed) q where "q \<in> set (pb_rows s)" "b_uid q = dc_uid d" "b_destroyed q = None" "verify_update_auth C d (b_public q) = Ok ()"
      "sound_step s s'" "pb_rows s' = map (\<lambda>x. if x = q then q\<lparr>b_destroyed := Some (clock s)\<rparr> else x) (pb_rows s)"
      "member_rows s' = member_rows s" "sealed_rows s' = filter (\<lambda>k. sk_bridge k \<noteq> b_id q) (sealed_rows s)"
proof (cases "same_tables s s'")
  case True
  then show thesis by (rule failed)
next
  case False
  let ?body = "\<lambda>b. bind (\<lambda>s. update_pb (\<lambda>r. b_uid r = dc_uid d \<and> b_destroyed r = None) (\<lambda>r. r\<lparr>b_destroyed := Some (clock s)\<rparr>) s)
      (\<lambda>_. bind (delete_sealed b) (\<lambda>_. insert_event b Destroyed (DestroyedDetail (dc_uid d) (dc_recipient d))))"
  from False obtain g b where g: "get s (dc_uid d) = Ok g" "\<not> bg_destroyed g" "last_bridge_id s (dc_uid d) = Ok b"
      "verify_update_auth C d (bg_public g) = Ok ()"
    and run: "with_immediate_transaction (?body b) s = (r, s')"
    using assms(3) unfolding apply_destroy_def
    by (auto simp: bind_run split: sum.splits prod.splits if_splits)
  obtain q where q: "q \<in> set (pb_rows s)" "b_uid q = dc_uid d" "bg_destroyed g = (b_destroyed q \<noteq> None)" "bg_public g = b_public q"
    by (rule get_row [OF g(1)])
  have b: "b = b_id q" using last_bridge_id_row [OF assms(1) q(1)] g(3) q(2) by simp
  have live: "b_destroyed q = None" using q(3) g(2) by simp
  have auth: "verify_update_auth C d (b_public q) = Ok ()" using g(4) q(4) by simp
  from run assms(2) show thesis
  proof (cases rule: immediate_cases)
    case (failed e)
    then show thesis using False by simp
  next
    case (succeeded u t)
    have one: "b_uid x = dc_uid d \<and> b_destroyed x = None \<longleftrightarrow> x = q" if "x \<in> set (pb_rows s)" for x
      using bridge_uid_unique [OF assms(1) that q(1)] q(2) live by auto
    have r: "bind (\<lambda>s. update_pb (\<lambda>r. b_uid r = dc_uid d \<and> b_destroyed r = None) (\<lambda>r. r\<lparr>b_destroyed := Some (clock s)\<rparr>) s)
      (\<lambda>_. bind (guard True BridgeNotFound) (\<lambda>_. bind (delete_sealed (b_id q)) (\<lambda>_.
        insert_event b Destroyed (DestroyedDetail (dc_uid d) (dc_recipient d))))) (s\<lparr>in_tx := True\<rparr>) = (Ok u, t)"
      using succeeded(2) b by (simp add: bind_guard_True)
    have same: "s\<lparr>in_tx := True\<rparr> = s\<lparr>in_tx := True, member_rows := filter (\<lambda>_. True) (member_rows s),
        sealed_rows := filter (\<lambda>_. True) (sealed_rows s)\<rparr>" by simp
    note D = destroy_tables [OF assms(1) q(1) live one same _ _ r succeeded(3)]
    show thesis by (rule destroyed [OF q(1,2) live auth]) (use D in simp_all)
  qed
qed

lemma destroy_sound:
  assumes "bridges_ok s" "\<not> in_tx s" "apply_destroy C d s = (r, s')"
  shows "sound_step s s'"
  using sound_failed [OF assms(1,2)] by (rule apply_destroy_cases [OF assms]) simp_all

lemma import_sound:
  assumes "bridges_ok s" "\<not> in_tx s" "import_package C data sk s = (r, s')"
  shows "sound_step s s'"
proof -
  have refl: "sound_step s s" by (rule sound_same [OF assms(1,2)]) (simp_all add: same_bridges_def)
  show ?thesis
  proof (cases "decode_package C data sk")
    case (Inl e)
    then show ?thesis using assms(3) refl by (simp add: import_package_def bind_run)
  next
    case (Inr d)
    then have "decoded_ok C d" by (rule decode_package_ok)
    then have "sound_step s s'" if "bind m (\<lambda>_. asks (\<lambda>s. get s (dc_uid d))) s = (r, s')"
      "m \<in> {insert_from_invite C d, apply_rotate C d, apply_destroy C d, fail InvalidBridgePackage}" for m
      using that refl invite_sound [OF assms(1,2)] rotate_sound [OF assms(1,2)] destroy_sound [OF assms(1,2)]
      by (cases "m s") (auto simp: bind_run split: sum.splits)
    then show ?thesis
      using assms(3) Inr refl unfolding import_package_def
      by (auto simp: bind_run split: if_splits)
  qed
qed

section \<open>Removal\<close>

lemma try_all_nth: "try_all f xs = Ok ys \<Longrightarrow> i < length xs \<Longrightarrow> f (xs ! i) = Ok (ys ! i)"
  by (induction xs arbitrary: ys i) (auto simp: and_then_Ok_iff nth_Cons split: nat.split)

lemma try_all_mem: "try_all f xs = Ok ys \<Longrightarrow> y \<in> set ys \<Longrightarrow> \<exists>x \<in> set xs. f x = Ok y"
  by (induction xs arbitrary: ys) (auto simp: and_then_Ok_iff)

lemma set_roster: "set (roster s b) = {m \<in> set (member_rows s). m_bridge m = b}"
  using member_role.exhaust by (auto simp: roster_def Let_def)

lemma party_of_Ok:
  "party_of s m = Ok p \<Longrightarrow> bp_label p = m_label m \<and> bp_encryption p = m_encryption m \<and> bp_signing p = m_signing m
     \<and> bp_role p = m_role m \<and> bp_local p = m_local m \<and> bp_sealed p = has_sealed s (m_bridge m) (m_label m)
     \<and> length (m_encryption m) = 32"
  by (auto simp: party_of_def and_then_Ok_iff vec_to_32_def split: if_splits option.splits)

lemma get_party:
  assumes "get s uid = Ok g" "p \<in> set (bg_parties g)"
  obtains r m where "r \<in> set (pb_rows s)" "b_uid r = uid" "m \<in> set (member_rows s)" "m_bridge m = b_id r" "party_of s m = Ok p"
proof -
  obtain r where r: "r \<in> set (pb_rows s)" "b_uid r = uid" "try_all (party_of s) (roster s (b_id r)) = Ok (bg_parties g)"
    by (rule get_row [OF assms(1)])
  from try_all_mem [OF r(3) assms(2)] obtain m where "m \<in> set (roster s (b_id r))" "party_of s m = Ok p" by blast
  then show thesis using that r(1,2) by (auto simp: set_roster)
qed

lemma remaining_from_Ok:
  assumes "remaining_from rm m ps = Ok ms" "sm_ok m"
  shows "sm_ok ms \<and> fst ` set ms = fst ` set m \<union> {l. \<exists>p \<in> set ps. bp_role p = Member \<and> bp_label p \<noteq> rm \<and> l = bp_label p}
    \<and> (\<forall>(l, k) \<in> set ms. (l, k) \<in> set m \<or> (\<exists>p \<in> set ps. bp_role p = Member \<and> bp_label p = l \<and> l \<noteq> rm
         \<and> bp_encryption p = mk_encryption k \<and> bp_signing p = Some (mk_signing k)))"
  using assms
proof (induction ps arbitrary: m)
  case (Cons p ps)
  show ?case
  proof (cases "bp_role p \<noteq> Member \<or> bp_label p = rm")
    case True
    then have "remaining_from rm m ps = Ok ms" using Cons.prems(1) by auto
    note IH = Cons.IH [OF this Cons.prems(2)]
    have e: "{l. \<exists>q \<in> set (p # ps). bp_role q = Member \<and> bp_label q \<noteq> rm \<and> l = bp_label q}
        = {l. \<exists>q \<in> set ps. bp_role q = Member \<and> bp_label q \<noteq> rm \<and> l = bp_label q}"
      using True by auto
    show ?thesis
    proof (intro conjI ballI)
      show "sm_ok ms" using IH by blast
      show "fst ` set ms = fst ` set m \<union> {l. \<exists>p \<in> set (p # ps). bp_role p = Member \<and> bp_label p \<noteq> rm \<and> l = bp_label p}"
        unfolding e using IH by blast
      fix x assume "x \<in> set ms"
      then have "case x of (l, k) \<Rightarrow> (l, k) \<in> set m \<or> (\<exists>p \<in> set ps. bp_role p = Member \<and> bp_label p = l \<and> l \<noteq> rm
         \<and> bp_encryption p = mk_encryption k \<and> bp_signing p = Some (mk_signing k))" using IH by blast
      then show "case x of (l, k) \<Rightarrow> (l, k) \<in> set m \<or> (\<exists>p \<in> set (p # ps). bp_role p = Member \<and> bp_label p = l \<and> l \<noteq> rm
         \<and> bp_encryption p = mk_encryption k \<and> bp_signing p = Some (mk_signing k))" by (cases x) auto
    qed
  next
    case False
    then obtain sg where p: "bp_role p = Member" "bp_label p \<noteq> rm" "bp_signing p = Some sg"
      and rec: "remaining_from rm (sm_insert (bp_label p) \<lparr> mk_encryption = bp_encryption p, mk_signing = sg \<rparr> m) ps = Ok ms"
      using Cons.prems(1) by (auto simp: and_then_Ok_iff)
    note IH = Cons.IH [OF rec sm_insert_ok [OF Cons.prems(2)]]
    show ?thesis
    proof (intro conjI ballI)
      show "sm_ok ms" using IH by blast
      show "fst ` set ms = fst ` set m \<union> {l. \<exists>p \<in> set (p # ps). bp_role p = Member \<and> bp_label p \<noteq> rm \<and> l = bp_label p}"
        using IH p by auto
      fix x assume "x \<in> set ms"
      then show "case x of (l, k) \<Rightarrow> (l, k) \<in> set m \<or> (\<exists>p \<in> set (p # ps). bp_role p = Member \<and> bp_label p = l \<and> l \<noteq> rm
         \<and> bp_encryption p = mk_encryption k \<and> bp_signing p = Some (mk_signing k))"
        using IH p set_sm_insert [of "bp_label p" "\<lparr> mk_encryption = bp_encryption p, mk_signing = sg \<rparr>" m] by fastforce
    qed
  qed
qed auto

lemma supervisor_pubs_aux:
  assumes "sm_ok m"
  shows "let ss = foldl (\<lambda>m p. if bp_label p \<in> set (implied_parents ms) then sm_insert (bp_label p) (bp_encryption p) m else m) m ps in
    sm_ok ss \<and> fst ` set ss = fst ` set m \<union> {l \<in> bp_label ` set ps. l \<in> set (implied_parents ms)}
    \<and> (\<forall>(l, k) \<in> set ss. (l, k) \<in> set m \<or> (\<exists>p \<in> set ps. bp_label p = l \<and> bp_encryption p = k))"
  using assms
proof (induction ps arbitrary: m)
  case (Cons p ps)
  let ?m = "if bp_label p \<in> set (implied_parents ms) then sm_insert (bp_label p) (bp_encryption p) m else m"
  let ?ss = "foldl (\<lambda>m p. if bp_label p \<in> set (implied_parents ms) then sm_insert (bp_label p) (bp_encryption p) m else m) ?m ps"
  have "sm_ok ?m" using Cons.prems by (simp add: sm_insert_ok)
  note IH = Cons.IH [OF this, unfolded Let_def]
  have k: "fst ` set ?m = fst ` set m \<union> {l \<in> {bp_label p}. l \<in> set (implied_parents ms)}" by auto
  have v: "\<forall>x \<in> set ?m. x \<in> set m \<or> x = (bp_label p, bp_encryption p)"
    using set_sm_insert [of "bp_label p" "bp_encryption p" m] by auto
  show ?case
    unfolding Let_def foldl_Cons
  proof (intro conjI ballI)
    show "sm_ok ?ss" using IH by blast
    show "fst ` set ?ss = fst ` set m \<union> {l \<in> bp_label ` set (p # ps). l \<in> set (implied_parents ms)}" using IH k by auto
    fix x assume "x \<in> set ?ss"
    then show "case x of (l, k) \<Rightarrow> (l, k) \<in> set m \<or> (\<exists>q \<in> set (p # ps). bp_label q = l \<and> bp_encryption q = k)"
      using IH v by fastforce
  qed
qed auto

lemma supervisor_pubs_Ok:
  "sm_ok (supervisor_pubs_for ms ps)"
  "fst ` set (supervisor_pubs_for ms ps) = {l \<in> bp_label ` set ps. l \<in> set (implied_parents ms)}"
  "(l, k) \<in> set (supervisor_pubs_for ms ps) \<Longrightarrow> \<exists>p \<in> set ps. bp_label p = l \<and> bp_encryption p = k"
  using supervisor_pubs_aux [of "[]" ms ps] by (auto simp: supervisor_pubs_for_def Let_def)

lemma removal_checks_Ok:
  assumes "removal_checks C s uid removed l sk = Ok (g, secret, ms, b)"
  shows "get s uid = Ok g" "\<not> bg_destroyed g" "l \<noteq> removed" "removed \<in> set (member_labels g)"
    "unseal_local_secret C s uid l sk = Ok secret" "remaining_members g removed = Ok ms" "last_bridge_id s uid = Ok b"
  using assms by (auto simp: removal_checks_def and_then_Ok_iff split: if_splits)

lemma plan_remove_run:
  assumes "plan_remove_member C uid removed l sk s = (Ok p, s')"
  obtains (destroy) g secret ms b packages where "removal_checks C s uid removed l sk = Ok (g, secret, ms, b)" "length ms < 2"
      "collect (destroy_for C g ms (supervisor_pubs_for ms (bg_parties g)) removed secret) (bg_parties g) s = (Ok packages, s')"
      "p = \<lparr> pr_outcome = \<lparr> ro_uid = uid, ro_destroyed = True, ro_remaining = sm_keys ms, ro_packages = packages \<rparr>,
         pr_kind = DestroyKind \<lparr> dl_uid = uid, dl_bridge = b, dl_removed = removed,
           dl_notify = notify_labels (member_labels g), dl_expected = bg_generation g \<rparr> \<rparr>"
  | (rotate) g secret ms b packages notices s2 where "removal_checks C s uid removed l sk = Ok (g, secret, ms, b)" "2 \<le> length ms"
      "packages_for_roster C KIND_ROTATE KIND_SUPERVISOR uid (bg_generation g + 1) (unwrap_or_empty (bg_label g))
         (ed_public C (os_bytes C (Suc (draws s)) 32)) (os_bytes C (draws s) 16) ms (supervisor_pubs_for ms (bg_parties g)) removed
         (Some (os_bytes C (Suc (draws s)) 32)) (Some secret) (s\<lparr>draws := Suc (Suc (draws s))\<rparr>) = (Ok packages, s2)"
      "collect (destroy_for C g ms (supervisor_pubs_for ms (bg_parties g)) removed secret)
         (filter (\<lambda>p. \<not> (sm_has ms (bp_label p) \<or> sm_has (supervisor_pubs_for ms (bg_parties g)) (bp_label p))) (bg_parties g)) s2
         = (Ok notices, s')"
      "p = \<lparr> pr_outcome = \<lparr> ro_uid = uid, ro_destroyed = False, ro_remaining = sm_keys ms, ro_packages = packages @ notices \<rparr>,
         pr_kind = RotateKind \<lparr> rp_uid = uid, rp_bridge = b, rp_removed = removed,
           rp_notify = notify_labels (member_labels g), rp_local = l, rp_expected = bg_generation g,
           rp_generation = bg_generation g + 1, rp_public = ed_public C (os_bytes C (Suc (draws s)) 32),
           rp_salt = os_bytes C (draws s) 16, rp_members = ms, rp_supervisors = supervisor_pubs_for ms (bg_parties g),
           rp_secret = os_bytes C (Suc (draws s)) 32 \<rparr> \<rparr>"
proof -
  obtain g secret ms b where c: "removal_checks C s uid removed l sk = Ok (g, secret, ms, b)"
    using assms by (auto simp: plan_remove_member_def elim!: bind_Ok_elim)
  show thesis
  proof (cases "length ms < 2")
    case True
    then show thesis
      using assms c by (auto simp: plan_remove_member_def Let_def elim!: bind_Ok_elim intro: destroy)
  next
    case False
    let ?ss = "supervisor_pubs_for ms (bg_parties g)" and ?sk = "os_bytes C (Suc (draws s)) 32"
    from assms c False obtain packages s2 where ps: "packages_for_roster C KIND_ROTATE KIND_SUPERVISOR uid (bg_generation g + 1)
         (unwrap_or_empty (bg_label g)) (ed_public C ?sk) (os_bytes C (draws s) 16) ms ?ss removed
         (Some ?sk) (Some secret) (s\<lparr>draws := Suc (Suc (draws s))\<rparr>) = (Ok packages, s2)"
      and rest: "bind (collect (destroy_for C g ms ?ss removed secret)
           (filter (\<lambda>p. \<not> (sm_has ms (bp_label p) \<or> sm_has ?ss (bp_label p))) (bg_parties g))) (\<lambda>notices.
         ret \<lparr> pr_outcome = \<lparr> ro_uid = uid, ro_destroyed = False, ro_remaining = sm_keys ms, ro_packages = packages @ notices \<rparr>,
         pr_kind = RotateKind \<lparr> rp_uid = uid, rp_bridge = b, rp_removed = removed,
           rp_notify = notify_labels (member_labels g), rp_local = l, rp_expected = bg_generation g,
           rp_generation = bg_generation g + 1, rp_public = ed_public C ?sk,
           rp_salt = os_bytes C (draws s) 16, rp_members = ms, rp_supervisors = ?ss,
           rp_secret = ?sk \<rparr> \<rparr>) s2 = (Ok p, s')"
      by (auto simp: plan_remove_member_def generate_signing_keypair_def Let_def elim!: bind_Ok_elim)
    from rest obtain notices where "collect (destroy_for C g ms ?ss removed secret)
           (filter (\<lambda>p. \<not> (sm_has ms (bp_label p) \<or> sm_has ?ss (bp_label p))) (bg_parties g)) s2 = (Ok notices, s')"
      and "p = \<lparr> pr_outcome = \<lparr> ro_uid = uid, ro_destroyed = False, ro_remaining = sm_keys ms, ro_packages = packages @ notices \<rparr>,
         pr_kind = RotateKind \<lparr> rp_uid = uid, rp_bridge = b, rp_removed = removed,
           rp_notify = notify_labels (member_labels g), rp_local = l, rp_expected = bg_generation g,
           rp_generation = bg_generation g + 1, rp_public = ed_public C ?sk,
           rp_salt = os_bytes C (draws s) 16, rp_members = ms, rp_supervisors = ?ss,
           rp_secret = ?sk \<rparr> \<rparr>"
      by (elim bind_Ok_elim) simp
    then show thesis using rotate [OF c _ ps] False by (simp add: not_less)
  qed
qed

lemma removal_roster_32:
  assumes "get s uid = Ok g" "remaining_members g removed = Ok ms"
  shows "roster_32 ms (supervisor_pubs_for ms (bg_parties g))"
proof -
  have p: "length (bp_encryption p) = 32" if "p \<in> set (bg_parties g)" for p
    using get_party [OF assms(1) that] party_of_Ok by metis
  have "length (mk_encryption k) = 32" if "(l, k) \<in> set ms" for l k
    using remaining_from_Ok [OF assms(2) [unfolded remaining_members_def]] that p by fastforce
  moreover have "length k = 32" if "(l, k) \<in> set (supervisor_pubs_for ms (bg_parties g))" for l k
    using supervisor_pubs_Ok(3) [OF that] p by blast
  ultimately show ?thesis by (auto simp: roster_32_def)
qed

lemma remove_sound:
  assumes "bridges_ok s" "\<not> in_tx s" "os_ok C" "ed_ok C" "remove_member C uid removed l sk s = (r, s')"
  shows "sound_step s s'"
proof (cases "plan_remove_member C uid removed l sk s")
  case (Pair q s1)
  then obtain d where s1: "s1 = s\<lparr>draws := d\<rparr>" using draws_onlyD [OF draws_only_plans(2)] by blast
  have ok: "bridges_ok s1" "\<not> in_tx s1" "sound_step s s1"
    using assms(1,2) by (simp_all add: s1 sound_draws bridges_ok_cong [OF same_bridges_draws])
  have pbs: "pb_rows s1 = pb_rows s" by (simp add: s1)
  show ?thesis
  proof (cases q)
    case (Inl e)
    then show ?thesis using assms(5) Pair ok(3) by (simp add: remove_member_def)
  next
    case (Inr p)
    obtain q2 s2 where c: "commit_planned_removal C p s1 = (q2, s2)" by fastforce
    have "s' = s2" using assms(5) Pair Inr c by (cases q2) (simp_all add: remove_member_def)
    moreover have "sound_step s1 s2"
    proof (cases q2)
      case (Inl e)
      then have "same_tables s1 s2"
        using c ok(2) unfolding commit_planned_removal_def by (elim immediate_cases) auto
      then show ?thesis by (rule sound_failed [OF ok(1,2)])
    next
      case (Inr u)
      have row: "\<exists>x \<in> set (pb_rows s1). b_uid x = uid \<and> b_id x = b"
        if "removal_checks C s uid removed l sk = Ok (g, secret, ms, b)" for g secret ms b
        using last_bridge_id_Ok [OF removal_checks_Ok(7) [OF that]] unfolding pbs .
      from Pair [unfolded \<open>q = Ok p\<close>] show ?thesis
      proof (cases rule: plan_remove_run)
        case (rotate g secret ms b packages notices s3)
        note R = removal_checks_Ok [OF rotate(1)]
        obtain x where x: "x \<in> set (pb_rows s1)" "b_uid x = uid" "b_id x = b" using row [OF rotate(1)] by blast
        let ?q = "\<lparr> rp_uid = uid, rp_bridge = b, rp_removed = removed,
           rp_notify = notify_labels (member_labels g), rp_local = l, rp_expected = bg_generation g,
           rp_generation = bg_generation g + 1, rp_public = ed_public C (os_bytes C (Suc (draws s)) 32),
           rp_salt = os_bytes C (draws s) 16, rp_members = ms, rp_supervisors = supervisor_pubs_for ms (bg_parties g),
           rp_secret = os_bytes C (Suc (draws s)) 32 \<rparr>"
        have kind: "pr_kind p = RotateKind ?q" by (simp add: rotate(5))
        have q: "b_uid x = rp_uid ?q" "b_id x = rp_bridge ?q" "rp_generation ?q = rp_expected ?q + 1"
          "length (rp_public ?q) = 32" "length (rp_salt ?q) = 16" "roster_32 (rp_members ?q) (rp_supervisors ?q)"
          using x(2,3) assms(3,4) removal_roster_32 [OF R(1,6)] by (simp_all add: os_ok_def ed_ok_def)
        show ?thesis by (rule commit_rotation_Ok [OF c [unfolded Inr] kind ok(2,1) assms(3) x(1) q])
      next
        case (destroy g secret ms b packages)
        obtain x where x: "x \<in> set (pb_rows s1)" "b_uid x = uid" "b_id x = b" using row [OF destroy(1)] by blast
        let ?P = "\<lambda>y. b_uid y = b_uid x \<and> b_generation y = uint (bg_generation g) \<and> b_destroyed y = None"
        from c [unfolded Inr] ok(2) obtain t where t: "commit_kind C (pr_kind p) (s1\<lparr>in_tx := True\<rparr>) = (Ok u, t)" "s2 = t\<lparr>in_tx := False\<rparr>"
          unfolding commit_planned_removal_def by (elim immediate_cases) simp_all
        then have run: "bind (\<lambda>s. update_pb ?P (\<lambda>r. r\<lparr>b_destroyed := Some (clock s)\<rparr>) s) (\<lambda>n. bind (guard (n = 1) BridgeGenerationMismatch) (\<lambda>_.
            bind (delete_sealed (b_id x)) (\<lambda>_. insert_event b Destroyed (RemovedDetail uid removed (notify_labels (member_labels g))))))
            (s1\<lparr>in_tx := True\<rparr>) = (Ok u, t)"
          using x(2,3) by (simp add: destroy(4))
        then obtain n where "n = 1" "n = length (filter ?P (pb_rows s1))"
          by (auto elim!: bind_Ok_elim dest!: update_pb_Ok(1) split: if_splits)
        then have one: "length (filter ?P (pb_rows s1)) = 1" by simp
        note w = the_row [OF ok(1) x(1) one]
        have P: "?P y \<longleftrightarrow> y = x" if "y \<in> set (pb_rows s1)" for y
          using bridge_uid_unique [OF ok(1) that x(1)] w(1,2) by auto
        have same: "s1\<lparr>in_tx := True\<rparr> = s1\<lparr>in_tx := True, member_rows := filter (\<lambda>_. True) (member_rows s1),
            sealed_rows := filter (\<lambda>_. True) (sealed_rows s1)\<rparr>" by simp
        show ?thesis by (rule destroy_tables(1) [OF ok(1) x(1) w(2) P same _ _ run t(2)]) simp_all
      qed
    qed
    ultimately show ?thesis using sound_trans [OF ok(3)] by simp
  qed
qed

section \<open>The coordinator\<close>

lemma delete_party_run:
  assumes "bridges_ok s" "member_rows t = member_rows s" "sealed_rows t = sealed_rows s"
  shows "delete_parties (\<lambda>r. m_bridge r = b \<and> m_label r = l) t = (Ok (), t\<lparr>
      member_rows := filter (\<lambda>m. \<not> (m_bridge m = b \<and> m_label m = l)) (member_rows s),
      sealed_rows := filter (\<lambda>k. \<not> (sk_bridge k = b \<and> sk_label k = l)) (sealed_rows s)\<rparr>)"
proof -
  have "filter (\<lambda>k. sealed_key k \<notin> member_key ` set (filter (\<lambda>r. m_bridge r = b \<and> m_label r = l) (member_rows s))) (sealed_rows s)
      = filter (\<lambda>k. \<not> (sk_bridge k = b \<and> sk_label k = l)) (sealed_rows s)"
  proof (rule filter_cong [OF refl])
    fix k assume "k \<in> set (sealed_rows s)"
    then obtain m where "m \<in> set (member_rows s)" "member_key m = sealed_key k"
      using assms(1) unfolding bridges_ok_def by blast
    then show "(sealed_key k \<notin> member_key ` set (filter (\<lambda>r. m_bridge r = b \<and> m_label r = l) (member_rows s)))
        = (\<not> (sk_bridge k = b \<and> sk_label k = l))"
      by (auto simp: member_key_def sealed_key_def image_iff)
  qed
  then show ?thesis using assms(2,3) by (simp add: delete_parties_def)
qed

lemma drop_tx_sound:
  assumes "bridges_ok s" "\<not> in_tx s" "x \<in> set (pb_rows s)" "b_uid x = uid" "b_id x = b" "b_destroyed x = None"
    and run: "drop_tx uid b l notify kind s = (r, s')"
  shows "sound_step s s'"
  using run assms(2) unfolding drop_tx_def
proof (cases rule: immediate_cases)
  case (failed e)
  then show ?thesis using sound_failed [OF assms(1,2)] by simp
next
  case (succeeded u t)
  let ?Q = "\<lambda>m. \<not> (m_bridge m = b \<and> m_label m = l)" and ?K = "\<lambda>k. \<not> (sk_bridge k = b \<and> sk_label k = l)"
  let ?c = "s\<lparr>in_tx := True, member_rows := filter ?Q (member_rows s), sealed_rows := filter ?K (sealed_rows s)\<rparr>"
  have del: "delete_parties (\<lambda>r. m_bridge r = b \<and> m_label r = l) (s\<lparr>in_tx := True\<rparr>) = (Ok (), ?c)"
    using delete_party_run [OF assms(1), of "s\<lparr>in_tx := True\<rparr>" b l] by simp
  show ?thesis
  proof (cases "kind = ChangeDestroyed")
    case True
    have "bind (\<lambda>s. update_pb (\<lambda>r. b_uid r = uid) (\<lambda>r. r\<lparr>b_destroyed := Some (clock s)\<rparr>) s) (\<lambda>_. bind (guard True BridgeNotFound) (\<lambda>_.
        bind (delete_sealed (b_id x)) (\<lambda>_. insert_event b Destroyed (RemovedDetail uid l notify)))) ?c = (Ok u, t)"
      using succeeded(2) del True assms(5) by (simp add: bind_guard_True)
    note run = this
    have one: "b_uid y = uid \<longleftrightarrow> y = x" if "y \<in> set (pb_rows s)" for y
      using bridge_uid_unique [OF assms(1) that assms(3)] assms(4) by auto
    show ?thesis
      by (rule destroy_tables(1) [OF assms(1,3,6) one refl _ _ run succeeded(3)]) (use assms(5) in auto)
  next
    case False
    then have "insert_event b MemberRemoved (RemovedDetail uid l notify) ?c = (Ok u, t)" using succeeded(2) del by simp
    from insert_event_Ok [OF this] obtain es where "t = ?c\<lparr>pbevent_rows := es\<rparr>" by blast
    then have s': "s' = ?c\<lparr>pbevent_rows := es, in_tx := False\<rparr>" using succeeded(3) by simp
    have f: "pb_rows s' = map (\<lambda>x. x) (pb_rows s)" "member_rows s' = filter ?Q (member_rows s)"
      "sealed_rows s' = filter ?K (sealed_rows s)" and tx: "\<not> in_tx s'" unfolding s' by simp_all
    have "bridges_ok s' \<and> later s s'"
    proof (rule shrunk_ok [OF assms(1) f])
      fix k m assume "?K k" "member_key m = sealed_key k"
      then show "?Q m" by (auto simp: member_key_def sealed_key_def)
    qed simp
    then show ?thesis using tx by (simp add: sound_step_def)
  qed
qed

lemma drop_sound:
  assumes "bridges_ok s" "\<not> in_tx s" "drop_member_on_coordinator uid l s = (r, s')"
  shows "sound_step s s'"
proof -
  have refl: "sound_step s s" by (rule sound_same [OF assms(1,2)]) (simp_all add: same_bridges_def)
  show ?thesis
  proof (cases "s' = s")
    case False
    have s': "s' = snd (drop_member_on_coordinator uid l s)" by (simp add: assms(3))
    obtain g where g: "get s uid = Ok g"
      using False s' by (cases "get s uid") (simp_all add: drop_member_on_coordinator_def bind_run)
    have g2: "\<not> bg_destroyed g" using False s' g by (auto simp: drop_member_on_coordinator_def)
    obtain b where b: "last_bridge_id s uid = Ok b"
      using False s' g g2 by (cases "last_bridge_id s uid") (simp_all add: drop_member_on_coordinator_def bind_run Let_def)
    define kind where "kind = (if length (filter (\<lambda>x. x \<noteq> l) (member_labels g)) < 2 then ChangeDestroyed else NeedsMemberRotate)"
    define notify where "notify = notify_labels (member_labels g)"
    obtain q t where d: "drop_tx uid b l notify kind s = (q, t)" by fastforce
    have "s' = t"
      using s' g g2 b d unfolding drop_member_on_coordinator_def Let_def kind_def [symmetric] notify_def [symmetric]
      by (cases q) (simp_all add: bind_run kind_def [symmetric] notify_def [symmetric] split: sum.split)
    obtain x where x: "x \<in> set (pb_rows s)" "b_uid x = uid" "bg_destroyed g = (b_destroyed x \<noteq> None)" by (rule get_row [OF g])
    have "b_id x = b" using last_bridge_id_row [OF assms(1) x(1)] b x(2) by simp
    then have "sound_step s t" using drop_tx_sound [OF assms(1,2) x(1,2) _ _ d] x(3) g2 by simp
    then show ?thesis using \<open>s' = t\<close> by simp
  qed (use refl in simp)
qed

lemma drop_each_sound:
  "bridges_ok s \<Longrightarrow> \<not> in_tx s \<Longrightarrow> drop_each l us s = (r, s') \<Longrightarrow> sound_step s s'"
proof (induction us arbitrary: s r s')
  case Nil
  then show ?case using sound_same [OF Nil(1,2), of s] by (simp add: same_bridges_def)
next
  case (Cons u us)
  obtain q t where d: "drop_member_on_coordinator u l s = (q, t)" by fastforce
  then have st: "sound_step s t" using drop_sound Cons.prems by blast
  show ?case
  proof (cases q)
    case (Inl e)
    then show ?thesis using Cons.prems(3) d st by simp
  next
    case (Inr c)
    obtain q2 t2 where e: "drop_each l us t = (q2, t2)" by fastforce
    have "sound_step t t2" using Cons.IH [OF _ _ e] st by (simp add: sound_step_def)
    moreover have "s' = t2" using Cons.prems(3) d e Inr by (cases q2) simp_all
    ultimately show ?thesis using sound_trans [OF st] by simp
  qed
qed

section \<open>Runs\<close>

text \<open>
  A call on private bridges, with inputs of the types the code takes, or anything else the
  program does: other code reads and writes other tables.
\<close>

datatype bridge_call =
    CreateCall "int option" "string option" "party_input list" "party_input list" "string option"
  | ImportCall bytes bytes
  | RemoveCall string string string bytes
  | LeafRemovedCall int string
  | MemberRevokedCall string

fun call_op :: "crates \<Rightarrow> bridge_call \<Rightarrow> store \<Rightarrow> store" where
  "call_op C (CreateCall key label mps sps loc) s = snd (create C key label mps sps loc s)"
| "call_op C (ImportCall data sk) s = snd (import_package C data sk s)"
| "call_op C (RemoveCall uid removed l sk) s = snd (remove_member C uid removed l sk s)"
| "call_op C (LeafRemovedCall key l) s = snd (on_leaf_removed key l s)"
| "call_op C (MemberRevokedCall l) s = snd (on_member_revoked l s)"

fun call_ok :: "bridge_call \<Rightarrow> bool" where
  "call_ok (CreateCall key label mps sps loc) = (inputs_32 mps \<and> inputs_32 sps)"
| "call_ok _ = True"

inductive bridge_run :: "crates \<Rightarrow> store \<Rightarrow> store \<Rightarrow> bool" for C where
  run_start: "bridge_run C s s"
| run_call: "bridge_run C s t \<Longrightarrow> call_ok c \<Longrightarrow> bridge_run C s (call_op C c t)"
| run_other: "bridge_run C s t \<Longrightarrow> same_bridges t t' \<Longrightarrow> in_tx t' = in_tx t \<Longrightarrow> bridge_run C s t'"

lemma call_sound:
  assumes "os_ok C" "ed_ok C" "bridges_ok s" "\<not> in_tx s" "call_ok c"
  shows "sound_step s (call_op C c s)"
proof (cases c)
  case (CreateCall key label mps sps loc)
  then show ?thesis
    using create_sound [OF assms(3,4) _ _ assms(1,2) surjective_pairing] assms(5) by simp
next
  case (ImportCall data sk)
  then show ?thesis using import_sound [OF assms(3,4) surjective_pairing] by simp
next
  case (RemoveCall uid removed l sk)
  then show ?thesis using remove_sound [OF assms(3,4,1,2) surjective_pairing] by simp
next
  case (LeafRemovedCall key l)
  then show ?thesis using drop_each_sound [OF assms(3,4) surjective_pairing] by (simp add: on_leaf_removed_def)
next
  case (MemberRevokedCall l)
  then show ?thesis using drop_each_sound [OF assms(3,4) surjective_pairing] by (simp add: on_member_revoked_def)
qed

lemma run_sound:
  "bridge_run C s s' \<Longrightarrow> os_ok C \<Longrightarrow> ed_ok C \<Longrightarrow> bridges_ok s \<Longrightarrow> \<not> in_tx s \<Longrightarrow> sound_step s s'"
proof (induction rule: bridge_run.induct)
  case (run_start s)
  then show ?case by (intro sound_same) (simp_all add: same_bridges_def)
next
  case (run_call s t c)
  then have st: "sound_step s t" by blast
  then have "sound_step t (call_op C c t)" using call_sound run_call by (simp add: sound_step_def)
  then show ?case by (rule sound_trans [OF st])
next
  case (run_other s t t')
  then have st: "sound_step s t" by blast
  then have "sound_step t t'" using run_other by (intro sound_same) (simp_all add: sound_step_def)
  then show ?case by (rule sound_trans [OF st])
qed

section \<open>What an import leaves alone\<close>

definition untouched :: "pb_row \<Rightarrow> store \<Rightarrow> store \<Rightarrow> bool" where
  "untouched q s s' \<longleftrightarrow> q \<in> set (pb_rows s')
     \<and> filter (\<lambda>m. m_bridge m = b_id q) (member_rows s') = filter (\<lambda>m. m_bridge m = b_id q) (member_rows s)
     \<and> filter (\<lambda>k. sk_bridge k = b_id q) (sealed_rows s') = filter (\<lambda>k. sk_bridge k = b_id q) (sealed_rows s)"

definition signed_update :: "crates \<Rightarrow> decoded_package \<Rightarrow> bytes \<Rightarrow> bool" where
  "signed_update C d pk \<longleftrightarrow> (\<exists>sg pre. dc_auth d = Some sg
     \<and> update_auth_preimage C (dc_uid d) (dc_generation d) (dc_kind d) (dc_public d) (dc_salt d) (dc_recipient d)
         (dc_members d) (dc_supervisors d) (dc_removed d) = Ok pre
     \<and> ed_verify C pk pre sg)"

lemma verify_update_signed: "verify_update_auth C d pk = Ok () \<Longrightarrow> signed_update C d pk"
  by (auto simp: verify_update_auth_def signed_update_def and_then_Ok_iff verify_signature_Ok_iff)

lemma untouched_same: "same_bridges s s' \<Longrightarrow> q \<in> set (pb_rows s) \<Longrightarrow> untouched q s s'"
  by (simp add: untouched_def same_bridges_def)

lemma untouched_roster:
  assumes "new_roster b rs ks s s'" "b_id q \<noteq> b" "q \<in> set (pb_rows s')"
  shows "untouched q s s'"
proof -
  have "filter (\<lambda>m. m_bridge m = b_id q) rs = []" "filter (\<lambda>k. sk_bridge k = b_id q) ks = []"
    using assms(1,2) by (auto simp: new_roster_def filter_empty_conv)
  moreover have "filter (\<lambda>m. m_bridge m = b_id q) (filter (\<lambda>m. m_bridge m \<noteq> b) ms) = filter (\<lambda>m. m_bridge m = b_id q) ms"
    for ms :: "member_row list" unfolding filter_filter using assms(2) by (intro filter_cong) auto
  moreover have "filter (\<lambda>k. sk_bridge k = b_id q) (filter (\<lambda>k. sk_bridge k \<noteq> b) xs) = filter (\<lambda>k. sk_bridge k = b_id q) xs"
    for xs :: "sealed_row list" unfolding filter_filter using assms(2) by (intro filter_cong) auto
  ultimately show ?thesis using assms(1,3) by (simp add: untouched_def new_roster_def)
qed

text \<open>What the code that runs for a decoded package may do to a bridge the store already has.\<close>

definition allowed_change :: "crates \<Rightarrow> decoded_package \<Rightarrow> pb_row \<Rightarrow> store \<Rightarrow> store \<Rightarrow> bool" where
  "allowed_change C d q s s' \<longleftrightarrow> dc_uid d = b_uid q \<and> signed_update C d (b_public q) \<and> b_destroyed q = None
     \<and> (\<exists>q' \<in> set (pb_rows s'). b_id q' = b_id q
          \<and> (if dc_kind d = KIND_DESTROY then q' = q\<lparr>b_destroyed := Some (clock s)\<rparr>
             else b_generation q' = b_generation q + 1 \<and> b_public q' = dc_public d \<and> b_salt q' = dc_salt d))"

lemma invite_untouched:
  assumes "bridges_ok s" "\<not> in_tx s" "decoded_ok C d" "insert_from_invite C d s = (r, s')" "q \<in> set (pb_rows s)"
  shows "untouched q s s'"
proof (cases r)
  case (Inl e)
  then have "same_bridges s s'" using invite_failed assms(2,4) same_tables_bridges by blast
  then show ?thesis using assms(5) by (rule untouched_same)
next
  case (Inr u)
  obtain b ks where b: "b = next_rowid (map b_id (pb_rows s))"
    and pbs: "pb_rows s' = pb_rows s @ [\<lparr> b_id = b, b_uid = dc_uid d, b_key = None, b_label = empty_to_none (dc_bridge_label d),
       b_generation = uint (dc_generation d), b_public = dc_public d, b_salt = dc_salt d, b_destroyed = None \<rparr>]"
    and n: "new_roster b (party_rows b (dc_members d) (dc_supervisors d) (Some (dc_recipient d))) ks s s'"
    by (rule invite_Ok [OF assms(4) [unfolded Inr] assms(2,1,3)])
  have "b_id q \<noteq> b" using next_rowid_fresh [of "map b_id (pb_rows s)"] assms(5) b by (metis imageI set_map)
  then show ?thesis using untouched_roster [OF n] pbs assms(5) by simp
qed

lemma rotate_change:
  assumes "bridges_ok s" "\<not> in_tx s" "decoded_ok C d" "apply_rotate C d s = (r, s')" "q \<in> set (pb_rows s)"
    "dc_kind d \<noteq> KIND_DESTROY"
  shows "untouched q s s' \<or> allowed_change C d q s s'"
proof (cases r)
  case (Inl e)
  then have "same_tables s s'"
    using assms(2,4) unfolding apply_rotate_def
    by (auto simp: bind_run split: sum.splits prod.splits if_splits dest: immediate_failed)
  then show ?thesis using untouched_same assms(5) same_tables_bridges by blast
next
  case (Inr u)
  obtain x ks where x: "x \<in> set (pb_rows s)" "b_uid x = dc_uid d" "b_destroyed x = None"
      "uint (dc_generation d) = b_generation x + 1" "verify_update_auth C d (b_public x) = Ok ()"
    and pbs: "pb_rows s' = map (\<lambda>q. if q = x then x\<lparr>b_generation := uint (dc_generation d), b_public := dc_public d, b_salt := dc_salt d,
         b_label := (case empty_to_none (dc_bridge_label d) of None \<Rightarrow> b_label x | Some l \<Rightarrow> Some l)\<rparr> else q) (pb_rows s)"
    and n: "new_roster (b_id x) (party_rows (b_id x) (dc_members d) (dc_supervisors d) (Some (dc_recipient d))) ks s s'"
    by (rule follow_Ok [OF assms(4) [unfolded Inr] assms(2,1,3)])
  show ?thesis
  proof (cases "q = x")
    case True
    let ?x = "x\<lparr>b_generation := uint (dc_generation d), b_public := dc_public d, b_salt := dc_salt d,
         b_label := (case empty_to_none (dc_bridge_label d) of None \<Rightarrow> b_label x | Some l \<Rightarrow> Some l)\<rparr>"
    have "?x \<in> set (pb_rows s')" unfolding pbs using x(1) by force
    then have "\<exists>q' \<in> set (pb_rows s'). b_id q' = b_id x \<and> b_generation q' = b_generation x + 1 \<and> b_public q' = dc_public d
        \<and> b_salt q' = dc_salt d" by (rule bexI [rotated]) (simp add: x(4))
    then show ?thesis using x verify_update_signed assms(6) True by (simp add: allowed_change_def)
  next
    case False
    then have "b_id q \<noteq> b_id x" using bridge_id_unique [OF assms(1,5) x(1)] by blast
    moreover have "q \<in> set (pb_rows s')" unfolding pbs using False assms(5) by force
    ultimately show ?thesis using untouched_roster [OF n] by blast
  qed
qed

lemma destroy_change:
  assumes "bridges_ok s" "\<not> in_tx s" "apply_destroy C d s = (r, s')" "q \<in> set (pb_rows s)" "dc_kind d = KIND_DESTROY"
  shows "untouched q s s' \<or> allowed_change C d q s s'"
  using assms(1-3)
proof (cases rule: apply_destroy_cases)
  case failed
  then show ?thesis using untouched_same assms(4) same_tables_bridges by blast
next
  case (destroyed x)
  show ?thesis
  proof (cases "q = x")
    case True
    have "x\<lparr>b_destroyed := Some (clock s)\<rparr> \<in> set (pb_rows s')" unfolding destroyed(6) using destroyed(1) by force
    then have "\<exists>q' \<in> set (pb_rows s'). b_id q' = b_id x \<and> q' = x\<lparr>b_destroyed := Some (clock s)\<rparr>"
      by (rule bexI [rotated]) simp
    then show ?thesis using destroyed verify_update_signed assms(5) True by (simp add: allowed_change_def)
  next
    case False
    then have "b_id q \<noteq> b_id x" using bridge_id_unique [OF assms(1,4) destroyed(1)] by blast
    then have "filter (\<lambda>k. sk_bridge k = b_id q) (sealed_rows s') = filter (\<lambda>k. sk_bridge k = b_id q) (sealed_rows s)"
      unfolding destroyed(8) filter_filter by (intro filter_cong) auto
    moreover have "q \<in> set (pb_rows s')" unfolding destroyed(6) using False assms(4) by force
    ultimately show ?thesis by (simp add: untouched_def destroyed(7))
  qed
qed

section \<open>Properties\<close>

definition demo_member :: "string \<Rightarrow> u8 \<Rightarrow> party_input" where
  "demo_member l x = \<lparr> pi_label = l, pi_encryption = replicate 32 x, pi_signing = Some (replicate 32 x) \<rparr>"

lemma empty_bridges_ok: "bridges_ok empty_store" "\<not> in_tx empty_store"
  by (simp_all add: bridges_ok_def empty_store_def pb.ids_ok_def)

text \<open>
  C6: Whatever calls are made, in whatever order and whether they succeed or fail, the tables
  of private bridges stay well formed: uids and roster labels are unique, every party belongs
  to a bridge and has the keys its role needs, a store holds at most one sealed secret per
  bridge, and that one belongs to its own local member; a destroyed bridge has none.
\<close>
theorem bridge_invariant:
  assumes "bridge_run C s s'" "os_ok C" "ed_ok C" "bridges_ok s" "\<not> in_tx s"
  shows "bridges_ok s' \<and> distinct (map b_uid (pb_rows s')) \<and> distinct (map member_key (member_rows s'))
     \<and> distinct (map sk_bridge (sealed_rows s'))
     \<and> (\<forall>k \<in> set (sealed_rows s'). \<exists>m \<in> set (member_rows s'). member_key m = sealed_key k \<and> m_role m = Member \<and> m_local m)
     \<and> (\<forall>r \<in> set (pb_rows s'). b_destroyed r \<noteq> None \<longrightarrow> \<not> has_sealed s' (b_id r) l)"
proof -
  have ok: "bridges_ok s'" using run_sound [OF assms] by (simp add: sound_step_def)
  have "\<not> has_sealed s' (b_id r) l" if "r \<in> set (pb_rows s')" "b_destroyed r \<noteq> None" for r
  proof -
    have "b_id r \<notin> sk_bridge ` set (sealed_rows s')" using ok that by (simp add: bridges_ok_def)
    then show ?thesis by (auto simp: has_sealed_def sealed_key_def)
  qed
  then show ?thesis using ok unfolding bridges_ok_def by blast
qed

theorem bridge_invariant_witness:
  "bridges_ok (call_op toy (CreateCall None None [demo_member ''A'' 1, demo_member ''B'' 2] [] (Some ''A'')) empty_store)"
proof -
  have "bridge_run toy empty_store (call_op toy (CreateCall None None [demo_member ''A'' 1, demo_member ''B'' 2] [] (Some ''A'')) empty_store)"
    by (rule run_call [OF run_start]) (simp add: inputs_32_def demo_member_def)
  from bridge_invariant [OF this toy_os_ok toy_ed_ok empty_bridges_ok] show ?thesis by blast
qed

text \<open>
  C14: Along any run a bridge keeps its uid; its generation never goes down; while the generation
  is the same, so are its public key and salt; and a destroyed bridge never changes again.
\<close>
theorem bridge_history:
  assumes "bridge_run C s s'" "os_ok C" "ed_ok C" "bridges_ok s" "\<not> in_tx s" "r \<in> set (pb_rows s)"
  shows "\<exists>q \<in> set (pb_rows s'). b_id q = b_id r \<and> b_uid q = b_uid r \<and> b_generation r \<le> b_generation q
     \<and> (b_generation q = b_generation r \<longrightarrow> b_public q = b_public r \<and> b_salt q = b_salt r)
     \<and> (b_destroyed r \<noteq> None \<longrightarrow> q = r)"
proof -
  have "later s s'" using run_sound [OF assms(1-5)] by (simp add: sound_step_def)
  from later_row [OF this assms(6)] show ?thesis by (force simp: moves_on_def split: if_splits)
qed

definition dead_bridge :: pb_row where
  "dead_bridge = \<lparr> b_id = 1, b_uid = ''u'', b_key = None, b_label = None, b_generation = 3, b_public = replicate 32 1,
     b_salt = replicate 16 2, b_destroyed = Some 5 \<rparr>"

theorem bridge_history_witness:
  "dead_bridge \<in> set (pb_rows (call_op toy (MemberRevokedCall ''A'') (empty_store\<lparr>pb_rows := [dead_bridge]\<rparr>)))"
proof -
  let ?s = "empty_store\<lparr>pb_rows := [dead_bridge]\<rparr>"
  have run: "bridge_run toy ?s (call_op toy (MemberRevokedCall ''A'') ?s)" by (rule run_call [OF run_start]) simp
  have "bridges_ok ?s" "\<not> in_tx ?s" "dead_bridge \<in> set (pb_rows ?s)"
    by (simp_all add: bridges_ok_def empty_store_def pb.ids_ok_def dead_bridge_def)
  from bridge_history [OF run toy_os_ok toy_ed_ok this] show ?thesis by (auto simp: dead_bridge_def)
qed

text \<open>
  C7: A delivery package changes a bridge this store already has only when it is signed under
  that bridge's current key: then it destroys it or moves it to the next generation with the
  package's key. Any other package, and any failure, leaves the bridge, its roster and its
  sealed secret as they are.
\<close>
theorem import_authentic:
  assumes "bridges_ok s" "\<not> in_tx s" "import_package C data sk s = (res, s')" "q \<in> set (pb_rows s)"
  shows "untouched q s s' \<or> (\<exists>d. decode_package C data sk = Ok d \<and> allowed_change C d q s s')"
proof (cases "decode_package C data sk")
  case (Inl e)
  then show ?thesis using assms(3,4) by (simp add: import_package_def bind_run untouched_def)
next
  case (Inr d)
  then have ok: "decoded_ok C d" by (rule decode_package_ok)
  let ?m = "if dc_kind d = KIND_INVITE then insert_from_invite C d
           else if dc_kind d = KIND_SUPERVISOR \<and> dc_generation d = 1 \<and> dc_auth d = None then insert_from_invite C d
           else if dc_kind d = KIND_ROTATE \<or> dc_kind d = KIND_SUPERVISOR then apply_rotate C d
           else if dc_kind d = KIND_DESTROY then apply_destroy C d
           else fail InvalidBridgePackage"
  have kinds: "KIND_ROTATE \<noteq> KIND_DESTROY" "KIND_SUPERVISOR \<noteq> KIND_DESTROY"
    by (simp_all add: KIND_ROTATE_def KIND_DESTROY_def KIND_SUPERVISOR_def)
  show ?thesis
  proof (cases "dc_recipient_key d = encryption_public_from_secret C sk")
    case False
    then show ?thesis using assms(3,4) Inr by (simp add: import_package_def bind_run untouched_def)
  next
    case True
    obtain r t where t: "?m s = (r, t)" by fastforce
    have "s' = t" using assms(3) Inr True t by (cases r) (simp_all add: import_package_def bind_run)
    moreover have "untouched q s t \<or> allowed_change C d q s t"
      using t invite_untouched [OF assms(1,2) ok _ assms(4)] rotate_change [OF assms(1,2) ok _ assms(4)]
        destroy_change [OF assms(1,2) _ assms(4)] kinds assms(4)
      by (auto simp: untouched_def split: if_splits)
    ultimately show ?thesis using Inr by blast
  qed
qed

theorem import_authentic_witness:
  "dead_bridge \<in> set (pb_rows (snd (import_package toy [1, 2, 3] (replicate 32 1) (empty_store\<lparr>pb_rows := [dead_bridge]\<rparr>))))"
proof -
  let ?s = "empty_store\<lparr>pb_rows := [dead_bridge]\<rparr>"
  have "bridges_ok ?s" "\<not> in_tx ?s" "dead_bridge \<in> set (pb_rows ?s)"
    by (simp_all add: bridges_ok_def empty_store_def pb.ids_ok_def dead_bridge_def)
  from import_authentic [OF this(1,2) surjective_pairing this(3), of toy "[1, 2, 3]" "replicate 32 1"]
  show ?thesis by (auto simp: untouched_def allowed_change_def dead_bridge_def)
qed

end
