(* ===== verification/RelayKeys.thy ===== *)
theory RelayKeys
  imports Crypto Strings
begin

text \<open>
  The relay's own database (\<open>src/relay/schema.sql\<close>) and its API keys (\<open>src/relay/api_key.rs\<close>):
  minting, listing, revoking and rotating a key, authentication of a bearer for a scope in one
  conditional update, the liveness check of \<open>POST /keycheck\<close>, and the licensee issuer. The
  relay is another process with another store, so its state is a record of its own. A document
  of \<open>org_tree_docs\<close> is the value \<open>serde_json\<close> reads back; its type is a parameter here.
\<close>

section \<open>The database\<close>

record api_row =
  a_id :: int
  a_hash :: string
  a_scope :: string
  a_fp :: "string option"
  a_label :: "string option"
  a_created :: int
  a_expires :: "int option"
  a_revoked :: "int option"
  a_used :: "int option"

record mail_row =
  ml_id :: int
  ml_fp :: string
  ml_envelope :: bytes
  ml_hash :: string

record 'd relay =
  issuer :: "string option"
  api_rows :: "api_row list"
  mail_rows :: "mail_row list"
  doc_rows :: "(string \<times> int \<times> 'd) list"
  rl_draws :: nat
  rl_clock :: int
  rl_tx :: bool

definition empty_relay :: "'d relay" where
  "empty_relay = \<lparr> issuer = None, api_rows = [], mail_rows = [], doc_rows = [],
     rl_draws = 0, rl_clock = 0, rl_tx = False \<rparr>"

definition relay_draw :: "('d relay, nat) op" where
  "relay_draw = (\<lambda>r. (Ok (rl_draws r), r\<lparr>rl_draws := Suc (rl_draws r)\<rparr>))"

lemma relay_draw_run [simp, op_simps]: "relay_draw r = (Ok (rl_draws r), r\<lparr>rl_draws := Suc (rl_draws r)\<rparr>)"
  by (simp add: relay_draw_def)

text \<open>\<open>with_immediate_transaction\<close> of \<open>src/db/mod.rs\<close> on the relay's connection.\<close>

definition relay_rollback :: "'d relay \<Rightarrow> 'd relay \<Rightarrow> 'd relay" where
  "relay_rollback r r' = r\<lparr>rl_draws := rl_draws r'\<rparr>"

definition relay_immediate :: "('d relay, 'a) op \<Rightarrow> ('d relay, 'a) op" where
  "relay_immediate m = (\<lambda>r.
     if rl_tx r then m r
     else case m (r\<lparr>rl_tx := True\<rparr>) of
            (Ok a, r') \<Rightarrow> (Ok a, r'\<lparr>rl_tx := False\<rparr>)
          | (Err e, r') \<Rightarrow> (Err e, relay_rollback r r'))"

lemma relay_immediate_Err: "relay_immediate m r = (Err e, r') \<Longrightarrow> \<not> rl_tx r \<Longrightarrow> r' = r\<lparr>rl_draws := rl_draws r'\<rparr>"
  by (auto simp: relay_immediate_def relay_rollback_def split: prod.splits sum.splits if_splits)

lemma relay_immediate_Ok_elim:
  assumes "relay_immediate m r = (Ok a, r')" "\<not> rl_tx r"
  obtains t where "m (r\<lparr>rl_tx := True\<rparr>) = (Ok a, t)" "r' = t\<lparr>rl_tx := False\<rparr>"
  using assms by (auto simp: relay_immediate_def split: if_splits prod.splits sum.splits)

lemma relay_immediate_Ok:
  "\<not> rl_tx r \<Longrightarrow> m (r\<lparr>rl_tx := True\<rparr>) = (Ok a, t) \<Longrightarrow> relay_immediate m r = (Ok a, t\<lparr>rl_tx := False\<rparr>)"
  by (simp add: relay_immediate_def)

definition relay_tables_only :: "('d relay \<Rightarrow> bool) \<Rightarrow> bool" where
  "relay_tables_only P \<longleftrightarrow> (\<forall>r d b. P (r\<lparr>rl_draws := d, rl_tx := b\<rparr>) = P r)"

lemma relay_tables_only_tx: "relay_tables_only P \<Longrightarrow> P (r\<lparr>rl_tx := b\<rparr>) = P r"
  unfolding relay_tables_only_def by (metis relay.surjective relay.update_convs(5,7))

lemma relay_tables_only_draws: "relay_tables_only P \<Longrightarrow> P (r\<lparr>rl_draws := d\<rparr>) = P r"
  unfolding relay_tables_only_def by (metis relay.surjective relay.update_convs(5,7))

lemma keeps_relay_immediate [keeps_intros]:
  assumes "relay_tables_only P" "keeps P m"
  shows "keeps P (relay_immediate m)"
proof (rule keepsI)
  fix r assume "P r"
  then have "P (snd (m (r\<lparr>rl_tx := True\<rparr>)))" "P (snd (m r))"
    using assms by (simp_all add: keeps_def relay_tables_only_tx)
  then show "P (snd (relay_immediate m r))"
    using \<open>P r\<close> assms(1)
    by (auto simp: relay_immediate_def relay_rollback_def relay_tables_only_tx relay_tables_only_draws
      split: prod.splits sum.splits)
qed

lemma keeps_relay_draw [keeps_intros]: "relay_tables_only P \<Longrightarrow> keeps P relay_draw"
  by (simp add: keeps_def relay_tables_only_draws)

section \<open>Scopes, bearers and bindings\<close>

datatype api_key_scope = InboxPush | InboxPull | Admin

fun scope_str :: "api_key_scope \<Rightarrow> string" where
  "scope_str InboxPush = ''inbox.push''"
| "scope_str InboxPull = ''inbox.pull''"
| "scope_str Admin = ''admin''"

definition parse_scope :: "string \<Rightarrow> api_key_scope result" where
  "parse_scope s =
     (if s = ''inbox.push'' then Ok InboxPush
      else if s = ''inbox.pull'' then Ok InboxPull
      else if s = ''admin'' then Ok Admin
      else Err InvalidApiKeyRequest)"

lemma parse_scope_str [simp]: "parse_scope (scope_str sc) = Ok sc"
  by (cases sc) (simp_all add: parse_scope_def)

lemma parse_scope_iff: "parse_scope s = Ok sc \<longleftrightarrow> s = scope_str sc"
  by (cases sc) (auto simp: parse_scope_def)

lemma scope_str_inj [simp]: "scope_str a = scope_str b \<longleftrightarrow> a = b"
  by (cases a; cases b) simp_all

definition BEARER_LEN :: nat where "BEARER_LEN = 32"
definition TOKEN_PREFIX :: string where "TOKEN_PREFIX = ''kq_''"
definition LICENSEE_PREFIX :: string where "LICENSEE_PREFIX = ''kql_''"

definition generate_prefixed_bearer :: "crates \<Rightarrow> string \<Rightarrow> ('d relay, string \<times> string) op" where
  "generate_prefixed_bearer C prefix = bind relay_draw (\<lambda>c.
     let raw = os_bytes C c BEARER_LEN in
     ret (prefix @ b64url_encode C raw, hex_encode C (sha256 C raw)))"

definition generate_bearer :: "crates \<Rightarrow> ('d relay, string \<times> string) op" where
  "generate_bearer C = generate_prefixed_bearer C TOKEN_PREFIX"

definition hash_prefixed :: "crates \<Rightarrow> string \<Rightarrow> string \<Rightarrow> string result" where
  "hash_prefixed C token prefix =
     and_then (ok_or InvalidApiKey (strip_prefix prefix token)) (\<lambda>rest.
     and_then (ok_or InvalidApiKey (b64url_decode C rest)) (\<lambda>raw.
     if length raw \<noteq> BEARER_LEN then Err InvalidApiKey else Ok (hex_encode C (sha256 C raw))))"

definition hash_bearer :: "crates \<Rightarrow> string \<Rightarrow> string result" where
  "hash_bearer C token = hash_prefixed C token TOKEN_PREFIX"

definition is_ascii_hexdigit :: "char \<Rightarrow> bool" where
  "is_ascii_hexdigit c \<longleftrightarrow>
     (let n = of_char c :: nat in 48 \<le> n \<and> n \<le> 57 \<or> 65 \<le> n \<and> n \<le> 70 \<or> 97 \<le> n \<and> n \<le> 102)"

definition to_ascii_lowercase :: "string \<Rightarrow> string" where
  "to_ascii_lowercase s =
     map (\<lambda>c. let n = of_char c :: nat in if 65 \<le> n \<and> n \<le> 90 then char_of (n + 32) else c) s"

definition hex64 :: "string \<Rightarrow> bool" where
  "hex64 s \<longleftrightarrow> length s = 64 \<and> list_all is_ascii_hexdigit s"

definition normalize_fingerprint :: "string \<Rightarrow> string result" where
  "normalize_fingerprint fp =
     (if \<not> hex64 fp then Err InvalidApiKeyRequest else Ok (to_ascii_lowercase fp))"

text \<open>Every error of these helpers says no more than that the key is not one.\<close>

lemma hash_prefixed_error: "only_fails InvalidApiKey (hash_prefixed C token prefix)"
  unfolding hash_prefixed_def
  by (intro only_fails_and_then only_fails_if only_failsI) auto

lemma generate_prefixed_run [simp, op_simps]:
  "generate_prefixed_bearer C prefix r =
     (Ok (prefix @ b64url_encode C (os_bytes C (rl_draws r) 32),
          hex_encode C (sha256 C (os_bytes C (rl_draws r) 32))),
      r\<lparr>rl_draws := Suc (rl_draws r)\<rparr>)"
  by (simp add: generate_prefixed_bearer_def BEARER_LEN_def Let_def)

lemma hash_prefixed_own:
  "b64url_ok C \<Longrightarrow> os_ok C \<Longrightarrow>
     hash_prefixed C (prefix @ b64url_encode C (os_bytes C c 32)) prefix
       = Ok (hex_encode C (sha256 C (os_bytes C c 32)))"
  by (simp add: hash_prefixed_def strip_prefix_def b64url_ok_def os_ok_def BEARER_LEN_def)

section \<open>Operations\<close>

record api_key_info =
  ai_id :: int
  ai_scope :: string
  ai_fp :: "string option"
  ai_label :: "string option"
  ai_created :: int
  ai_expires :: "int option"
  ai_revoked :: "int option"
  ai_used :: "int option"

record created_api_key =
  ck_info :: api_key_info
  ck_token :: string

record new_api_key =
  nk_scope :: api_key_scope
  nk_fp :: "string option"
  nk_label :: "string option"
  nk_ttl :: "int option"

record authed_key =
  au_id :: int
  au_scope :: api_key_scope
  au_fp :: "string option"

definition row_to_info :: "api_row \<Rightarrow> api_key_info" where
  "row_to_info k = \<lparr> ai_id = a_id k, ai_scope = a_scope k, ai_fp = a_fp k, ai_label = a_label k,
     ai_created = a_created k, ai_expires = a_expires k, ai_revoked = a_revoked k, ai_used = a_used k \<rparr>"

definition api_by_id :: "'d relay \<Rightarrow> int \<Rightarrow> api_row option" where
  "api_by_id r i = find (\<lambda>k. a_id k = i) (api_rows r)"

definition api_by_hash :: "'d relay \<Rightarrow> string \<Rightarrow> api_row option" where
  "api_by_hash r h = find (\<lambda>k. a_hash k = h) (api_rows r)"

definition load_info :: "int \<Rightarrow> 'd relay \<Rightarrow> api_key_info result" where
  "load_info i r = and_then (ok_or ApiKeyNotFound (api_by_id r i)) (\<lambda>k. Ok (row_to_info k))"

text \<open>\<open>datetime('now', '+N seconds')\<close>; NULL would make the key eternal and is refused.\<close>

definition expiry_from_ttl :: "int \<Rightarrow> 'd relay \<Rightarrow> int result" where
  "expiry_from_ttl ttl r =
     (if ttl = 0 then Err InvalidApiKeyRequest
      else ok_or InvalidApiKeyRequest (datetime_plus (rl_clock r) ttl))"

text \<open>The \<open>INSERT\<close> with the \<open>UNIQUE\<close> hash and the two \<open>CHECK\<close>s.\<close>

definition api_row_ok :: "api_row \<Rightarrow> bool" where
  "api_row_ok k \<longleftrightarrow> a_scope k \<in> {''inbox.push'', ''inbox.pull'', ''admin''}
     \<and> (a_scope k = ''inbox.pull'' \<and> a_fp k \<noteq> None \<or> a_scope k \<noteq> ''inbox.pull'' \<and> a_fp k = None)"

definition insert_api :: "(int \<Rightarrow> api_row) \<Rightarrow> ('d relay, int) op" where
  "insert_api mk = (\<lambda>r. insert_row
     (\<lambda>r. let k = mk (next_rowid (map a_id (api_rows r))) in api_by_hash r (a_hash k) = None \<and> api_row_ok k)
     (\<lambda>r. map a_id (api_rows r))
     (\<lambda>i r. r\<lparr>api_rows := api_rows r @ [mk i]\<rparr>) r)"

definition binding_of :: "new_api_key \<Rightarrow> string option result" where
  "binding_of new =
     (case (nk_scope new, nk_fp new) of
        (InboxPull, Some fp) \<Rightarrow> and_then (normalize_fingerprint fp) (\<lambda>n. Ok (Some n))
      | (InboxPull, None) \<Rightarrow> Err InvalidApiKeyRequest
      | (_, Some _) \<Rightarrow> Err InvalidApiKeyRequest
      | (_, None) \<Rightarrow> Ok None)"

definition new_row :: "string \<Rightarrow> new_api_key \<Rightarrow> string option \<Rightarrow> int option \<Rightarrow> int \<Rightarrow> int \<Rightarrow> api_row" where
  "new_row hash new fp expires now i =
     \<lparr> a_id = i, a_hash = hash, a_scope = scope_str (nk_scope new), a_fp = fp, a_label = nk_label new,
       a_created = now, a_expires = expires, a_revoked = None, a_used = None \<rparr>"

definition create_api_key :: "crates \<Rightarrow> new_api_key \<Rightarrow> ('d relay, created_api_key) op" where
  "create_api_key C new =
     bind (lift_result (binding_of new)) (\<lambda>fp.
     bind (generate_bearer C) (\<lambda>(token, hash).
     bind (case nk_ttl new of None \<Rightarrow> ret None
           | Some ttl \<Rightarrow> bind (asks (expiry_from_ttl ttl)) (\<lambda>e. ret (Some e))) (\<lambda>expires.
     bind (\<lambda>r. insert_api (new_row hash new fp expires (rl_clock r)) r) (\<lambda>i.
     bind (asks (load_info i)) (\<lambda>info.
     ret \<lparr> ck_info = info, ck_token = token \<rparr>)))))"

definition list_api_keys :: "'d relay \<Rightarrow> api_key_info list" where
  "list_api_keys r = map row_to_info (api_rows r)"

definition mark_revoked :: "int \<Rightarrow> int \<Rightarrow> api_row \<Rightarrow> api_row" where
  "mark_revoked now i k = (if a_id k = i \<and> a_revoked k = None then k\<lparr>a_revoked := Some now\<rparr> else k)"

definition revoke_api_key :: "int \<Rightarrow> ('d relay, unit) op" where
  "revoke_api_key i = (\<lambda>r.
     let n = length (filter (\<lambda>k. a_id k = i \<and> a_revoked k = None) (api_rows r));
         r' = r\<lparr>api_rows := map (mark_revoked (rl_clock r) i) (api_rows r)\<rparr>
     in if n = 1 then (Ok (), r')
        else if api_by_id r' i \<noteq> None then (Ok (), r') else (Err ApiKeyNotFound, r'))"

definition set_expiry :: "int \<Rightarrow> int option \<Rightarrow> api_row \<Rightarrow> api_row" where
  "set_expiry i e k = (if a_id k = i then k\<lparr>a_expires := e\<rparr> else k)"

definition rotate_body :: "crates \<Rightarrow> int \<Rightarrow> ('d relay, created_api_key) op" where
  "rotate_body C i =
     bind (asks (load_info i)) (\<lambda>info.
     if ai_revoked info \<noteq> None then fail ApiKeyRevoked
     else bind (lift_result (parse_scope (ai_scope info))) (\<lambda>scope.
       bind (create_api_key C \<lparr> nk_scope = scope, nk_fp = ai_fp info, nk_label = ai_label info, nk_ttl = None \<rparr>) (\<lambda>created.
       bind (case ai_expires info of None \<Rightarrow> ret ()
             | Some e \<Rightarrow> modify (\<lambda>r. r\<lparr>api_rows := map (set_expiry (ai_id (ck_info created)) (Some e)) (api_rows r)\<rparr>)) (\<lambda>_.
       bind (revoke_api_key i) (\<lambda>_.
       bind (asks (load_info (ai_id (ck_info created)))) (\<lambda>info'.
       ret \<lparr> ck_info = info', ck_token = ck_token created \<rparr>))))))"

definition rotate_api_key :: "crates \<Rightarrow> int \<Rightarrow> ('d relay, created_api_key) op" where
  "rotate_api_key C i = relay_immediate (rotate_body C i)"

section \<open>Authentication\<close>

definition unexpired :: "'d relay \<Rightarrow> api_row \<Rightarrow> bool" where
  "unexpired r k \<longleftrightarrow> (case a_expires k of None \<Rightarrow> True | Some t \<Rightarrow> rl_clock r < t)"

definition live_for :: "'d relay \<Rightarrow> string \<Rightarrow> string \<Rightarrow> api_row \<Rightarrow> bool" where
  "live_for r h scope k \<longleftrightarrow> a_hash k = h \<and> a_revoked k = None \<and> unexpired r k \<and> a_scope k = scope"

definition stamp_used :: "string \<Rightarrow> string \<Rightarrow> ('d relay, nat) op" where
  "stamp_used h scope = (\<lambda>r.
     (Ok (length (filter (live_for r h scope) (api_rows r))),
      r\<lparr>api_rows := map (\<lambda>k. if live_for r h scope k then k\<lparr>a_used := Some (rl_clock r)\<rparr> else k) (api_rows r)\<rparr>))"

definition auth_refusal :: "'d relay \<Rightarrow> string \<Rightarrow> api_row \<Rightarrow> error" where
  "auth_refusal r scope k =
     (if a_revoked k \<noteq> None then ApiKeyRevoked
      else if \<not> unexpired r k then ApiKeyExpired
      else if a_scope k \<noteq> scope then ApiKeyScopeDenied
      else InvalidApiKey)"

definition authenticate :: "crates \<Rightarrow> string \<Rightarrow> api_key_scope \<Rightarrow> ('d relay, authed_key) op" where
  "authenticate C token required =
     bind (lift_result (hash_bearer C token)) (\<lambda>h.
     bind (stamp_used h (scope_str required)) (\<lambda>claimed.
     if claimed = 1
     then asks (\<lambda>r. and_then (query_row (api_by_hash r h)) (\<lambda>k.
            Ok \<lparr> au_id = a_id k, au_scope = required, au_fp = a_fp k \<rparr>))
     else bind (asks (\<lambda>r. Ok (api_by_hash r h))) (\<lambda>row.
            case row of None \<Rightarrow> fail InvalidApiKey
            | Some k \<Rightarrow> asks (\<lambda>r. Err (auth_refusal r (scope_str required) k)))))"

record key_check =
  kc_valid :: bool
  kc_id :: "int option"
  kc_scope :: "string option"
  kc_label :: "string option"
  kc_fp :: "string option"

definition invalid_check :: key_check where
  "invalid_check = \<lparr> kc_valid = False, kc_id = None, kc_scope = None, kc_label = None, kc_fp = None \<rparr>"

definition check_hash :: "string \<Rightarrow> 'd relay \<Rightarrow> key_check" where
  "check_hash key_hash r =
     (if \<not> hex64 key_hash then invalid_check
      else case api_by_hash r (to_ascii_lowercase key_hash) of
             None \<Rightarrow> invalid_check
           | Some k \<Rightarrow>
               if a_revoked k \<noteq> None \<or> \<not> unexpired r k then invalid_check
               else \<lparr> kc_valid = True, kc_id = Some (a_id k), kc_scope = Some (a_scope k),
                      kc_label = a_label k, kc_fp = a_fp k \<rparr>)"

definition check_token :: "crates \<Rightarrow> string \<Rightarrow> 'd relay \<Rightarrow> key_check" where
  "check_token C token r = (case hash_bearer C token of Ok h \<Rightarrow> check_hash h r | Err _ \<Rightarrow> invalid_check)"

section \<open>The licensee issuer\<close>

definition authenticate_licensee :: "crates \<Rightarrow> string \<Rightarrow> 'd relay \<Rightarrow> unit result" where
  "authenticate_licensee C token r =
     (case hash_prefixed C token LICENSEE_PREFIX of
        Err _ \<Rightarrow> Err InvalidLicenseeKey
      | Ok h \<Rightarrow> if issuer r = Some h then Ok () else Err InvalidLicenseeKey)"

definition bootstrap_licensee_if_empty :: "crates \<Rightarrow> ('d relay, string option) op" where
  "bootstrap_licensee_if_empty C = (\<lambda>r.
     if issuer r = None
     then bind (generate_prefixed_bearer C LICENSEE_PREFIX) (\<lambda>(token, hash).
            bind (modify (\<lambda>r. r\<lparr>issuer := Some hash\<rparr>)) (\<lambda>_. ret (Some token))) r
     else (Ok None, r))"

definition authorize_licensee_or_bootstrap :: "crates \<Rightarrow> string option \<Rightarrow> ('d relay, string option) op" where
  "authorize_licensee_or_bootstrap C supplied =
     (case supplied of
        Some key \<Rightarrow>
          if key = [] then fail InvalidLicenseeKey
          else bind (asks (authenticate_licensee C key)) (\<lambda>_. ret None)
      | None \<Rightarrow> bootstrap_licensee_if_empty C)"

section \<open>The invariant\<close>

definition api_keys_ok :: "'d relay \<Rightarrow> bool" where
  "api_keys_ok r \<longleftrightarrow> distinct (map a_id (api_rows r)) \<and> distinct (map a_hash (api_rows r))
     \<and> list_all api_row_ok (api_rows r)
     \<and> (\<forall>k \<in> set (api_rows r). \<forall>fp. a_fp k = Some fp \<longrightarrow> normalize_fingerprint fp = Ok fp)"

interpretation api_table: rowid_table api_rows a_id insert_api
  by unfold_locales (auto simp: insert_api_def insert_row_def Let_def split: if_splits)

lemma api_by_hash_mem: "api_by_hash r h = Some k \<Longrightarrow> k \<in> set (api_rows r) \<and> a_hash k = h"
  using find_SomeD [of "\<lambda>k. a_hash k = h"] by (auto simp: api_by_hash_def)

lemma api_by_id_mem: "api_by_id r i = Some k \<Longrightarrow> k \<in> set (api_rows r) \<and> a_id k = i"
  using find_SomeD [of "\<lambda>k. a_id k = i"] by (auto simp: api_by_id_def)

lemma api_by_hash_unique: "api_keys_ok r \<Longrightarrow> k \<in> set (api_rows r) \<Longrightarrow> api_by_hash r (a_hash k) = Some k"
  unfolding api_by_hash_def api_keys_ok_def by (auto intro: find_unique)

lemma api_by_id_unique: "api_keys_ok r \<Longrightarrow> k \<in> set (api_rows r) \<Longrightarrow> api_by_id r (a_id k) = Some k"
  unfolding api_by_id_def api_keys_ok_def by (auto intro: find_unique)

text \<open>An update of some rows that leaves their identity and binding alone.\<close>

definition same_key :: "api_row \<Rightarrow> api_row \<Rightarrow> bool" where
  "same_key k k' \<longleftrightarrow> a_id k' = a_id k \<and> a_hash k' = a_hash k \<and> a_scope k' = a_scope k \<and> a_fp k' = a_fp k
     \<and> a_label k' = a_label k \<and> a_created k' = a_created k"

lemma same_keyD:
  "same_key k k' \<Longrightarrow> a_id k' = a_id k" "same_key k k' \<Longrightarrow> a_hash k' = a_hash k"
  "same_key k k' \<Longrightarrow> a_scope k' = a_scope k" "same_key k k' \<Longrightarrow> a_fp k' = a_fp k"
  "same_key k k' \<Longrightarrow> a_label k' = a_label k" "same_key k k' \<Longrightarrow> a_created k' = a_created k"
  by (simp_all add: same_key_def)

lemma same_key_simps [simp]:
  "same_key k k" "same_key k (mark_revoked now i k)" "same_key k (set_expiry i e k)"
  "same_key k (k\<lparr>a_used := u\<rparr>)"
  by (simp_all add: same_key_def mark_revoked_def set_expiry_def)

lemma same_key_trans: "same_key a b \<Longrightarrow> same_key b c \<Longrightarrow> same_key a c"
  by (simp add: same_key_def)

lemma api_update:
  assumes "\<And>k. same_key k (f k)"
  shows "api_by_hash (r\<lparr>api_rows := map f (api_rows r)\<rparr>) h = map_option f (api_by_hash r h)"
    and "api_by_id (r\<lparr>api_rows := map f (api_rows r)\<rparr>) i = map_option f (api_by_id r i)"
    and "api_keys_ok (r\<lparr>api_rows := map f (api_rows r)\<rparr>) = api_keys_ok r"
  using assms
  by (auto simp: api_by_hash_def api_by_id_def find_cong_map api_keys_ok_def comp_def same_key_def api_row_ok_def
        list_all_iff)

lemma insert_api_Ok:
  assumes "insert_api mk r = (Ok i, r')"
  shows "i = next_rowid (map a_id (api_rows r))" "r' = r\<lparr>api_rows := api_rows r @ [mk i]\<rparr>"
    "api_by_hash r (a_hash (mk i)) = None" "api_row_ok (mk i)"
  using assms by (auto simp: insert_api_def insert_row_def Let_def split: if_splits)

lemma insert_api_ok:
  assumes run: "insert_api mk r = (Ok i, r')" and k: "a_id (mk i) = i" and ok: "api_keys_ok r"
    and fp: "\<And>fp. a_fp (mk i) = Some fp \<Longrightarrow> normalize_fingerprint fp = Ok fp"
  shows "api_keys_ok r'"
proof -
  note i = insert_api_Ok [OF run]
  have "i \<notin> a_id ` set (api_rows r)" using next_rowid_fresh [of "map a_id (api_rows r)"] i(1) by simp
  moreover have "a_hash (mk i) \<notin> a_hash ` set (api_rows r)"
    using i(3) by (auto simp: api_by_hash_def find_None_iff_all)
  ultimately show ?thesis using ok i(2,4) k fp by (simp add: api_keys_ok_def)
qed

lemma api_keys_ok_tables [simp]: "relay_tables_only api_keys_ok"
  by (simp add: relay_tables_only_def api_keys_ok_def)

subsection \<open>What authentication does on each branch\<close>

definition stamped :: "string \<Rightarrow> 'd relay \<Rightarrow> 'd relay" where
  "stamped h r = r\<lparr>api_rows :=
     map (\<lambda>k. if a_hash k = h then k\<lparr>a_used := Some (rl_clock r)\<rparr> else k) (api_rows r)\<rparr>"

lemma authenticate_run:
  assumes ok: "api_keys_ok r" and h: "hash_bearer C token = Ok h"
  shows "authenticate C token required r =
    (case api_by_hash r h of
       None \<Rightarrow> (Err InvalidApiKey, r)
     | Some k \<Rightarrow>
         if a_revoked k = None \<and> unexpired r k \<and> a_scope k = scope_str required
         then (Ok \<lparr> au_id = a_id k, au_scope = required, au_fp = a_fp k \<rparr>, stamped h r)
         else (Err (auth_refusal r (scope_str required) k), r))"
proof -
  let ?live = "live_for r h (scope_str required)"
  let ?f = "\<lambda>k. if ?live k then k\<lparr>a_used := Some (rl_clock r)\<rparr> else k"
  let ?r = "r\<lparr>api_rows := map ?f (api_rows r)\<rparr>"
  have st: "stamp_used h (scope_str required) r = (Ok (length (filter ?live (api_rows r))), ?r)"
    by (simp add: stamp_used_def)
  have look: "api_by_hash ?r h = map_option ?f (api_by_hash r h)"
    by (rule api_update) simp
  have none: "?r = r" "filter ?live (api_rows r) = []" if "\<And>k. k \<in> set (api_rows r) \<Longrightarrow> \<not> ?live k"
    using that by (simp_all add: map_idI filter_empty_conv)
  show ?thesis
  proof (cases "api_by_hash r h")
    case None
    then have "\<And>k. k \<in> set (api_rows r) \<Longrightarrow> \<not> ?live k"
      by (auto simp: api_by_hash_def find_None_iff_all live_for_def)
    from none [OF this] show ?thesis using st h look None by (simp add: authenticate_def)
  next
    case (Some k)
    have k: "k \<in> set (api_rows r)" "a_hash k = h" using api_by_hash_mem [OF Some] by simp_all
    have only: "q = k" if "q \<in> set (api_rows r)" "a_hash q = h" for q
      using api_by_hash_unique [OF ok that(1)] that(2) Some by simp
    show ?thesis
    proof (cases "?live k")
      case True
      have "length (filter ?live (api_rows r)) = 1"
        using distinct_filter_one [of a_hash "api_rows r" h k] ok Some True k(2)
        unfolding live_for_def api_keys_ok_def api_by_hash_def by simp
      moreover have "?live q = (a_hash q = h)" if "q \<in> set (api_rows r)" for q
        using only [OF that] True by (auto simp: live_for_def)
      then have "map ?f (api_rows r) = map (\<lambda>k. if a_hash k = h then k\<lparr>a_used := Some (rl_clock r)\<rparr> else k) (api_rows r)"
        by (intro map_cong refl) simp
      then have "?r = stamped h r" by (simp only: stamped_def)
      ultimately show ?thesis using st h look Some True by (simp add: authenticate_def live_for_def)
    next
      case False
      then have "\<And>q. q \<in> set (api_rows r) \<Longrightarrow> \<not> ?live q" using only by (auto simp: live_for_def)
      from none [OF this] show ?thesis using st h look Some False k(2)
        by (auto simp: authenticate_def live_for_def auth_refusal_def unexpired_def)
    qed
  qed
qed

lemma authenticate_bad: "hash_bearer C token = Err e \<Longrightarrow> authenticate C token required r = (Err e, r)"
  by (simp add: authenticate_def)

lemma authenticate_keys_ok: "api_keys_ok r \<Longrightarrow> api_keys_ok (snd (authenticate C token required r))"
proof (cases "hash_bearer C token")
  case (Inr h)
  assume ok: "api_keys_ok r"
  have "api_keys_ok (stamped h r)" unfolding stamped_def by (subst api_update) (simp_all add: ok)
  then show ?thesis using ok by (simp add: authenticate_run [OF ok Inr] split: option.split)
qed (simp add: authenticate_bad)

subsection \<open>Bindings are normalised\<close>

lemma lowercase_hexdigit:
  assumes "is_ascii_hexdigit c"
  defines "d \<equiv> (let n = of_char c :: nat in if 65 \<le> n \<and> n \<le> 90 then char_of (n + 32) else c)"
  shows "is_ascii_hexdigit d" "\<not> (65 \<le> (of_char d :: nat) \<and> of_char d \<le> (90 :: nat))"
  using assms by (auto simp: is_ascii_hexdigit_def Let_def)

lemma normalize_idem:
  assumes "normalize_fingerprint fp = Ok n" shows "normalize_fingerprint n = Ok n"
proof -
  have fp: "length fp = 64" "list_all is_ascii_hexdigit fp" "n = to_ascii_lowercase fp"
    using assms by (auto simp: normalize_fingerprint_def hex64_def split: if_splits)
  then have n: "length n = 64" "list_all is_ascii_hexdigit n"
    using lowercase_hexdigit(1) by (auto simp: to_ascii_lowercase_def list_all_iff)
  have "to_ascii_lowercase n = n"
    unfolding fp(3) using fp(2) lowercase_hexdigit(2)
    by (auto simp: to_ascii_lowercase_def list_all_iff Let_def)
  then show ?thesis using n by (simp add: normalize_fingerprint_def hex64_def)
qed

lemma binding_of_Ok:
  assumes "binding_of new = Ok fp"
  shows "nk_scope new = InboxPull \<longleftrightarrow> fp \<noteq> None" "fp = Some n \<Longrightarrow> normalize_fingerprint n = Ok n"
  using assms normalize_idem
  by (auto simp: binding_of_def and_then_Ok_iff split: api_key_scope.splits option.splits)

subsection \<open>What creation and rotation do on each branch\<close>

definition fresh_hash :: "crates \<Rightarrow> 'd relay \<Rightarrow> string" where
  "fresh_hash C r = hex_encode C (sha256 C (os_bytes C (rl_draws r) 32))"

definition fresh_bearer :: "crates \<Rightarrow> 'd relay \<Rightarrow> string" where
  "fresh_bearer C r = TOKEN_PREFIX @ b64url_encode C (os_bytes C (rl_draws r) 32)"

definition expiry_of :: "new_api_key \<Rightarrow> 'd relay \<Rightarrow> int option result" where
  "expiry_of new r = (case nk_ttl new of None \<Rightarrow> Ok None
     | Some ttl \<Rightarrow> and_then (expiry_from_ttl ttl r) (\<lambda>e. Ok (Some e)))"

definition minted :: "crates \<Rightarrow> new_api_key \<Rightarrow> string option \<Rightarrow> int option \<Rightarrow> 'd relay \<Rightarrow> api_row" where
  "minted C new fp ex r = new_row (fresh_hash C r) new fp ex (rl_clock r) (next_rowid (map a_id (api_rows r)))"

lemma fresh_bearer_hash: "b64url_ok C \<Longrightarrow> os_ok C \<Longrightarrow> hash_bearer C (fresh_bearer C r) = Ok (fresh_hash C r)"
  by (simp add: hash_bearer_def fresh_bearer_def fresh_hash_def hash_prefixed_own)

lemma new_row_simps [simp]:
  "a_id (new_row h new fp ex now i) = i" "a_hash (new_row h new fp ex now i) = h"
  "a_scope (new_row h new fp ex now i) = scope_str (nk_scope new)" "a_fp (new_row h new fp ex now i) = fp"
  "a_label (new_row h new fp ex now i) = nk_label new" "a_expires (new_row h new fp ex now i) = ex"
  "a_revoked (new_row h new fp ex now i) = None" "a_created (new_row h new fp ex now i) = now"
  by (simp_all add: new_row_def)

lemma new_row_ok: "binding_of new = Ok fp \<Longrightarrow> api_row_ok (new_row h new fp ex now i)"
  using binding_of_Ok(1) [of new fp] by (cases "nk_scope new") (auto simp: api_row_ok_def)

lemma create_run:
  "create_api_key C new r =
     (case binding_of new of Err e \<Rightarrow> (Err e, r) | Ok fp \<Rightarrow>
       (case expiry_of new r of Err e \<Rightarrow> (Err e, r\<lparr>rl_draws := Suc (rl_draws r)\<rparr>) | Ok ex \<Rightarrow>
          if api_by_hash r (fresh_hash C r) \<noteq> None
          then (Err (Db ConstraintViolation), r\<lparr>rl_draws := Suc (rl_draws r)\<rparr>)
          else (Ok \<lparr> ck_info = row_to_info (minted C new fp ex r), ck_token = fresh_bearer C r \<rparr>,
                r\<lparr>rl_draws := Suc (rl_draws r), api_rows := api_rows r @ [minted C new fp ex r]\<rparr>)))"
proof (cases "binding_of new")
  case (Inr fp)
  let ?r = "r\<lparr>rl_draws := Suc (rl_draws r)\<rparr>"
  have ex: "(case nk_ttl new of None \<Rightarrow> ret None | Some ttl \<Rightarrow> bind (asks (expiry_from_ttl ttl)) (\<lambda>e. ret (Some e))) ?r
      = (expiry_of new r, ?r)"
    by (auto simp: expiry_of_def expiry_from_ttl_def bind_run and_then_def split: option.splits sum.splits)
  show ?thesis
  proof (cases "expiry_of new r")
    case (Inl e)
    then show ?thesis using Inr ex
      by (simp add: create_api_key_def generate_bearer_def bind_run fresh_hash_def)
  next
    case (Inr e)
    note exp = Inr and bound = \<open>binding_of new = Ok fp\<close>
    let ?mk = "new_row (fresh_hash C r) new fp e (rl_clock r)"
    have ins: "insert_api ?mk ?r =
        (if api_by_hash r (fresh_hash C r) \<noteq> None then (Err (Db ConstraintViolation), ?r)
         else (Ok (next_rowid (map a_id (api_rows r))), ?r\<lparr>api_rows := api_rows r @ [minted C new fp e r]\<rparr>))"
      using new_row_ok [OF bound] by (simp add: insert_api_def insert_row_def Let_def minted_def api_by_hash_def)
    have "load_info (next_rowid (map a_id (api_rows r))) (?r\<lparr>api_rows := api_rows r @ [minted C new fp e r]\<rparr>)
        = Ok (row_to_info (minted C new fp e r))" if "api_by_hash r (fresh_hash C r) = None"
    proof -
      have "insert_api ?mk ?r = (Ok (next_rowid (map a_id (api_rows r))), ?r\<lparr>api_rows := api_rows r @ [minted C new fp e r]\<rparr>)"
        using ins that by simp
      from api_table.row_of_new [OF this] show ?thesis
        by (simp add: load_info_def api_by_id_def api_table.row_of_def minted_def)
    qed
    then show ?thesis using bound exp ex ins
      by (simp add: create_api_key_def generate_bearer_def bind_run fresh_hash_def fresh_bearer_def)
  qed
qed (simp add: create_api_key_def)

lemma keys_ok_minted:
  assumes ok: "api_keys_ok r" and b: "binding_of new = Ok fp" and f: "api_by_hash r (fresh_hash C r) = None"
  shows "api_keys_ok (r\<lparr>rl_draws := n, api_rows := api_rows r @ [minted C new fp ex r]\<rparr>)"
proof -
  have ins: "insert_api (new_row (fresh_hash C r) new fp ex (rl_clock r)) (r\<lparr>rl_draws := n\<rparr>)
      = (Ok (next_rowid (map a_id (api_rows r))), r\<lparr>rl_draws := n, api_rows := api_rows r @ [minted C new fp ex r]\<rparr>)"
    using new_row_ok [OF b] f by (simp add: insert_api_def insert_row_def Let_def minted_def api_by_hash_def)
  have "api_keys_ok (r\<lparr>rl_draws := n\<rparr>)" using ok by (simp add: api_keys_ok_def)
  from insert_api_ok [OF ins _ this] show ?thesis using binding_of_Ok(2) [OF b] by simp
qed

lemma create_keys_ok:
  assumes "api_keys_ok r" shows "api_keys_ok (snd (create_api_key C new r))"
proof -
  have "api_keys_ok (r\<lparr>rl_draws := n\<rparr>)" for n using assms by (simp add: api_keys_ok_def)
  then show ?thesis using assms by (auto simp: create_run keys_ok_minted split: sum.split)
qed

lemma revoke_run:
  assumes "api_keys_ok r"
  shows "revoke_api_key i r =
    (if api_by_id r i = None then (Err ApiKeyNotFound, r)
     else (Ok (), r\<lparr>api_rows := map (mark_revoked (rl_clock r) i) (api_rows r)\<rparr>))"
proof (cases "api_by_id r i")
  case None
  then have none: "a_id k \<noteq> i" if "k \<in> set (api_rows r)" for k
    using that by (auto simp: api_by_id_def find_None_iff_all)
  then have "map (mark_revoked (rl_clock r) i) (api_rows r) = api_rows r" "filter (\<lambda>k. a_id k = i \<and> a_revoked k = None) (api_rows r) = []"
    by (simp_all add: map_idI mark_revoked_def filter_empty_conv)
  then show ?thesis using None by (simp add: revoke_api_key_def)
next
  case (Some k)
  then have "api_by_id (r\<lparr>api_rows := map (mark_revoked (rl_clock r) i) (api_rows r)\<rparr>) i \<noteq> None"
    by (subst api_update) simp_all
  then show ?thesis using Some by (simp add: revoke_api_key_def Let_def)
qed

definition replacement :: "api_row \<Rightarrow> new_api_key" where
  "replacement k = \<lparr> nk_scope = (case parse_scope (a_scope k) of Ok sc \<Rightarrow> sc | Err _ \<Rightarrow> Admin),
     nk_fp = a_fp k, nk_label = a_label k, nk_ttl = None \<rparr>"

definition replaced :: "crates \<Rightarrow> api_row \<Rightarrow> 'd relay \<Rightarrow> api_row" where
  "replaced C k r = minted C (replacement k) (a_fp k) (a_expires k) r"

lemma stored_scope: "api_row_ok k \<Longrightarrow> \<exists>sc. a_scope k = scope_str sc"
  unfolding api_row_ok_def by (metis scope_str.simps insert_iff singletonD)

lemma replacement_binding:
  assumes "api_keys_ok r" "k \<in> set (api_rows r)"
  shows "binding_of (replacement k) = Ok (a_fp k)" "scope_str (nk_scope (replacement k)) = a_scope k"
proof -
  have k: "api_row_ok k" "\<And>fp. a_fp k = Some fp \<Longrightarrow> normalize_fingerprint fp = Ok fp"
    using assms by (auto simp: api_keys_ok_def list_all_iff)
  obtain sc where sc: "a_scope k = scope_str sc" using stored_scope [OF k(1)] by blast
  then show "scope_str (nk_scope (replacement k)) = a_scope k" by (simp add: replacement_def)
  show "binding_of (replacement k) = Ok (a_fp k)"
    using k sc by (cases sc) (auto simp: binding_of_def replacement_def parse_scope_def api_row_ok_def split: option.split)
qed

lemma rotate_run:
  assumes ok: "api_keys_ok r" and tx: "\<not> rl_tx r"
  shows "rotate_api_key C i r =
    (case api_by_id r i of
       None \<Rightarrow> (Err ApiKeyNotFound, r)
     | Some k \<Rightarrow>
         if a_revoked k \<noteq> None then (Err ApiKeyRevoked, r)
         else if api_by_hash r (fresh_hash C r) \<noteq> None
         then (Err (Db ConstraintViolation), r\<lparr>rl_draws := Suc (rl_draws r)\<rparr>)
         else (Ok \<lparr> ck_info = row_to_info (replaced C k r), ck_token = fresh_bearer C r \<rparr>,
               r\<lparr>rl_draws := Suc (rl_draws r),
                 api_rows := map (mark_revoked (rl_clock r) i) (api_rows r) @ [replaced C k r]\<rparr>))"
proof (cases "api_by_id r i")
  case None
  then show ?thesis using tx
    by (simp add: rotate_api_key_def relay_immediate_def rotate_body_def load_info_def api_by_id_def relay_rollback_def bind_run)
next
  case (Some k)
  let ?t = "r\<lparr>rl_tx := True\<rparr>"
  have k: "k \<in> set (api_rows r)" "a_id k = i" using api_by_id_mem [OF Some] by simp_all
  have info: "load_info i ?t = Ok (row_to_info k)" using Some by (simp add: load_info_def api_by_id_def)
  show ?thesis
  proof (cases "a_revoked k = None")
    case False
    then show ?thesis using tx info Some
      by (simp add: rotate_api_key_def relay_immediate_def rotate_body_def relay_rollback_def bind_run row_to_info_def)
  next
    case True
    note b = replacement_binding [OF ok k(1)]
    obtain sc where sc: "a_scope k = scope_str sc" using b(2) by metis
    let ?new = "\<lparr> nk_scope = sc, nk_fp = a_fp k, nk_label = a_label k, nk_ttl = None \<rparr>"
    have new: "replacement k = ?new" using sc by (simp add: replacement_def)
    have fh: "fresh_hash C ?t = fresh_hash C r" "fresh_bearer C ?t = fresh_bearer C r"
      "api_by_hash ?t h = api_by_hash r h" "expiry_of ?new ?t = Ok None"
      "minted C ?new (a_fp k) e ?t = minted C ?new (a_fp k) e r" for h e
      by (simp_all add: fresh_hash_def fresh_bearer_def api_by_hash_def expiry_of_def minted_def)
    note cr = create_run [of C ?new ?t, folded new, unfolded b(1), unfolded new fh, simplified]
    show ?thesis
    proof (cases "api_by_hash r (fresh_hash C r)")
      case hit: (Some q)
      then show ?thesis using tx info Some True cr sc
        by (simp add: rotate_api_key_def relay_immediate_def rotate_body_def relay_rollback_def bind_run row_to_info_def)
    next
      case fresh: None
      let ?k' = "minted C ?new (a_fp k) None r" and ?j = "next_rowid (map a_id (api_rows r))"
      let ?r1 = "?t\<lparr>rl_draws := Suc (rl_draws r), api_rows := api_rows r @ [?k']\<rparr>"
      let ?r2 = "?t\<lparr>rl_draws := Suc (rl_draws r), api_rows := api_rows r @ [replaced C k r]\<rparr>"
      have j: "a_id q \<noteq> ?j" if "q \<in> set (api_rows r)" for q
        using next_rowid_greater [of "a_id q" "map a_id (api_rows r)"] that by force
      have ij: "i \<noteq> ?j" using j k by blast
      have k': "a_id ?k' = ?j" "set_expiry ?j (a_expires k) ?k' = replaced C k r"
        by (simp_all add: minted_def set_expiry_def replaced_def new new_row_def)
      have create: "create_api_key C ?new ?t
          = (Ok \<lparr> ck_info = row_to_info ?k', ck_token = fresh_bearer C r \<rparr>, ?r1)"
        using cr fresh by (simp add: fh)
      have expire: "(case a_expires k of None \<Rightarrow> ret () | Some e \<Rightarrow>
            modify (\<lambda>r. r\<lparr>api_rows := map (set_expiry ?j (Some e)) (api_rows r)\<rparr>)) ?r1 = (Ok (), ?r2)"
      proof (cases "a_expires k")
        case None
        then show ?thesis by (simp add: replaced_def new)
      next
        case (Some e)
        have "map (set_expiry ?j (Some e)) (api_rows r) = api_rows r"
          using j by (simp add: map_idI set_expiry_def)
        then show ?thesis using Some k' by simp
      qed
      have ok2: "api_keys_ok ?r2"
        using keys_ok_minted [OF ok b(1) fresh] by (simp add: api_keys_ok_def replaced_def)
      have new_id: "a_id (replaced C k r) = ?j" by (simp add: replaced_def minted_def)
      have "api_by_id ?r2 i = Some k" using Some by (simp add: api_by_id_def find_append)
      then have revoke: "revoke_api_key i ?r2 = (Ok (), ?r2\<lparr>api_rows :=
          map (mark_revoked (rl_clock r) i) (api_rows r) @ [replaced C k r]\<rparr>)"
        using revoke_run [OF ok2, of i] ij new_id by (simp add: mark_revoked_def)
      have "find (\<lambda>q. a_id q = ?j) (map (mark_revoked (rl_clock r) i) (api_rows r)) = None"
        using j by (auto simp: find_None_iff_all mark_revoked_def)
      then have load: "load_info ?j (?r2\<lparr>api_rows := map (mark_revoked (rl_clock r) i) (api_rows r) @ [replaced C k r]\<rparr>)
          = Ok (row_to_info (replaced C k r))"
        using new_id by (simp add: load_info_def api_by_id_def find_append)
      have parts: "ai_revoked (row_to_info k) = None" "parse_scope (ai_scope (row_to_info k)) = Ok sc"
        "ai_fp (row_to_info k) = a_fp k" "ai_label (row_to_info k) = a_label k"
        "ai_expires (row_to_info k) = a_expires k" "ai_id (row_to_info ?k') = ?j"
        using True sc k'(1) by (simp_all add: row_to_info_def)
      let ?r3 = "?r2\<lparr>api_rows := map (mark_revoked (rl_clock r) i) (api_rows r) @ [replaced C k r]\<rparr>"
      have "rotate_body C i ?t = (Ok \<lparr> ck_info = row_to_info (replaced C k r), ck_token = fresh_bearer C r \<rparr>, ?r3)"
        by (simp only: rotate_body_def bind_run asks_run info create parts revoke load expire lift_run ret_run
            prod.case sum.case created_api_key.select_convs not_True_eq_False simp_thms if_False)
      then show ?thesis using tx Some True fresh
        by (simp add: rotate_api_key_def relay_immediate_def)
    qed
  qed
qed

section \<open>The life of a key\<close>

text \<open>What can happen to the keys, by anyone with any bearer.\<close>

datatype api_cmd =
    CreateKey new_api_key
  | RevokeKey int
  | RotateKey int
  | UseKey string api_key_scope
  | Bootstrap "string option"
  | Elapse nat

fun api_step :: "crates \<Rightarrow> api_cmd \<Rightarrow> 'd relay \<Rightarrow> 'd relay" where
  "api_step C (CreateKey new) r = snd (create_api_key C new r)"
| "api_step C (RevokeKey i) r = snd (revoke_api_key i r)"
| "api_step C (RotateKey i) r = snd (rotate_api_key C i r)"
| "api_step C (UseKey token sc) r = snd (authenticate C token sc r)"
| "api_step C (Bootstrap key) r = snd (authorize_licensee_or_bootstrap C key r)"
| "api_step C (Elapse d) r = r\<lparr>rl_clock := rl_clock r + int d\<rparr>"

definition api_steps :: "crates \<Rightarrow> api_cmd list \<Rightarrow> 'd relay \<Rightarrow> 'd relay" where
  "api_steps C cs r = fold (api_step C) cs r"

text \<open>The row of a hash only ages: it keeps its identity, and a revocation is final.\<close>

definition aged :: "api_row \<Rightarrow> api_row \<Rightarrow> bool" where
  "aged k k' \<longleftrightarrow> same_key k k' \<and> a_expires k' = a_expires k \<and> (a_revoked k \<noteq> None \<longrightarrow> a_revoked k' = a_revoked k)"

definition ages :: "string \<Rightarrow> 'd relay \<Rightarrow> 'd relay \<Rightarrow> bool" where
  "ages h r r' \<longleftrightarrow> api_keys_ok r' \<and> rl_tx r' = rl_tx r \<and> rl_clock r \<le> rl_clock r'
     \<and> (\<forall>k. api_by_hash r h = Some k \<longrightarrow> (\<exists>k'. api_by_hash r' h = Some k' \<and> aged k k'))"

lemma aged_refl [simp]: "aged k k"
  by (simp add: aged_def)

lemma aged_trans: "aged a b \<Longrightarrow> aged b c \<Longrightarrow> aged a c"
  by (simp add: aged_def same_key_def)

lemma ages_refl: "api_keys_ok r \<Longrightarrow> ages h r r"
  by (simp add: ages_def)

lemma ages_trans: "ages h r r' \<Longrightarrow> ages h r' r'' \<Longrightarrow> ages h r r''"
  unfolding ages_def by (elim conjE, intro conjI) (simp_all, blast intro: aged_trans)

lemma ages_update:
  assumes "api_keys_ok r" "\<And>k. aged k (f k)"
  shows "ages h r (r\<lparr>api_rows := map f (api_rows r)\<rparr>)"
  using assms api_update [of f r] unfolding ages_def aged_def by simp

lemma ages_append:
  assumes "api_keys_ok (r\<lparr>rl_draws := n, api_rows := api_rows r @ ks\<rparr>)"
  shows "ages h r (r\<lparr>rl_draws := n, api_rows := api_rows r @ ks\<rparr>)"
  using assms by (simp add: ages_def api_by_hash_def find_append)

lemma ages_draws: "api_keys_ok r \<Longrightarrow> ages h r (r\<lparr>rl_draws := n\<rparr>)"
  by (simp add: ages_def api_keys_ok_def api_by_hash_def)

lemma create_ages: "api_keys_ok r \<Longrightarrow> ages h r (snd (create_api_key C new r))"
  unfolding create_run
  by (simp add: ages_refl ages_draws ages_append keys_ok_minted split: sum.split)

lemma aged_marked [simp]: "aged k (mark_revoked now i k)" "aged k (k\<lparr>a_used := u\<rparr>)"
  by (simp_all add: aged_def same_key_def mark_revoked_def)

lemma revoke_ages: "api_keys_ok r \<Longrightarrow> ages h r (snd (revoke_api_key i r))"
  by (simp add: revoke_run ages_refl ages_update)

lemma rotate_ages:
  assumes "api_keys_ok r" "\<not> rl_tx r" shows "ages h r (snd (rotate_api_key C i r))"
proof -
  let ?f = "mark_revoked (rl_clock r) i"
  have "ages h r (r\<lparr>rl_draws := n, api_rows := map ?f (api_rows r) @ [replaced C k r]\<rparr>)"
    if k: "api_by_id r i = Some k" and fresh: "api_by_hash r (fresh_hash C r) = None" for n k
  proof -
    let ?r = "r\<lparr>api_rows := map ?f (api_rows r)\<rparr>"
    have a: "ages h r ?r" using assms(1) by (simp add: ages_update)
    have ids: "map a_id (map ?f (api_rows r)) = map a_id (api_rows r)" by (simp add: mark_revoked_def comp_def)
    have m: "minted C new fp ex ?r = minted C new fp ex r" for new fp ex
      using ids by (simp add: minted_def fresh_hash_def del: map_map)
    have "binding_of (replacement k) = Ok (a_fp k)"
      using replacement_binding(1) [OF assms(1)] api_by_id_mem [OF k] by blast
    moreover have "api_by_hash ?r (fresh_hash C ?r) = None"
      using fresh api_update(1) [of ?f r "fresh_hash C r"] by (simp add: fresh_hash_def)
    ultimately have "api_keys_ok (?r\<lparr>rl_draws := n, api_rows := api_rows ?r @ [replaced C k r]\<rparr>)"
      using keys_ok_minted [of ?r "replacement k" "a_fp k" C "a_expires k" n] a m
      by (simp add: ages_def replaced_def)
    from ages_append [OF this, of h] show ?thesis using ages_trans [OF a] by simp
  qed
  then show ?thesis unfolding rotate_run [OF assms]
    using assms(1) by (simp add: ages_refl ages_draws split: option.split)
qed

lemma use_ages:
  assumes "api_keys_ok r" shows "ages h r (snd (authenticate C token sc r))"
proof (cases "hash_bearer C token")
  case (Inr g)
  have "ages h r (stamped g r)" unfolding stamped_def by (rule ages_update [OF assms]) simp
  then show ?thesis using assms by (simp add: authenticate_run [OF assms Inr] ages_refl split: option.split)
qed (simp add: authenticate_bad ages_refl assms)

lemma bootstrap_ages: "api_keys_ok r \<Longrightarrow> ages h r (snd (authorize_licensee_or_bootstrap C key r))"
  by (auto simp: authorize_licensee_or_bootstrap_def bootstrap_licensee_if_empty_def bind_run ages_def
      api_keys_ok_def api_by_hash_def split: option.split sum.split)

lemma api_step_ages:
  assumes "api_keys_ok r" "\<not> rl_tx r" shows "ages h r (api_step C c r)"
proof (cases c)
  case (Elapse d)
  then show ?thesis using assms by (simp add: ages_def api_keys_ok_def api_by_hash_def)
qed (simp_all add: assms create_ages revoke_ages rotate_ages use_ages bootstrap_ages)

lemma api_steps_ages: "api_keys_ok r \<Longrightarrow> \<not> rl_tx r \<Longrightarrow> ages h r (api_steps C cs r)"
proof (induction cs arbitrary: r)
  case (Cons c cs)
  have a: "ages h r (api_step C c r)" by (rule api_step_ages [OF Cons.prems])
  then have "ages h (api_step C c r) (api_steps C cs (api_step C c r))"
    using Cons by (simp add: ages_def)
  from ages_trans [OF a this] show ?case by (simp add: api_steps_def)
qed (simp add: api_steps_def ages_refl)

text \<open>
  C18: Whatever the holders of any bearers and the host do with the keys, a bearer authenticates
  only as the key it was minted for, with that key's id, scope and bound fingerprint, and only
  if that key was neither revoked nor expired to begin with; any other attempt is refused with
  the reason and writes nothing.
\<close>
theorem key_lifetime:
  assumes "api_keys_ok r" "\<not> rl_tx r" "hash_bearer C token = Ok h" "api_by_hash r h = Some k"
    and "authenticate C token sc (api_steps C cs r) = (res, r')"
  shows "case res of
      Ok a \<Rightarrow> au_id a = a_id k \<and> au_fp a = a_fp k \<and> au_scope a = sc \<and> a_scope k = scope_str sc
            \<and> a_revoked k = None \<and> unexpired r k
    | Err e \<Rightarrow> r' = api_steps C cs r
            \<and> (e = ApiKeyRevoked \<or> e = ApiKeyExpired \<or> (e = ApiKeyScopeDenied \<and> a_scope k \<noteq> scope_str sc))"
proof -
  have "ages h r (api_steps C cs r)" by (rule api_steps_ages [OF assms(1,2)])
  then obtain k' where ok: "api_keys_ok (api_steps C cs r)" and k': "api_by_hash (api_steps C cs r) h = Some k'" "aged k k'"
    and clock: "rl_clock r \<le> rl_clock (api_steps C cs r)"
    using assms(4) by (auto simp: ages_def)
  have "unexpired r k" if "unexpired (api_steps C cs r) k'"
    using that k'(2) clock by (auto simp: unexpired_def aged_def split: option.splits)
  moreover have "a_revoked k = None" if "a_revoked k' = None"
    using that k'(2) unfolding aged_def by (cases "a_revoked k") simp_all
  ultimately show ?thesis
    using assms(5) k' unfolding authenticate_run [OF ok assms(3)]
    by (auto simp: auth_refusal_def aged_def same_key_def split: if_splits)
qed

text \<open>Two keys of a relay: a push key, and a pull key bound to a fingerprint.\<close>

definition demo_fp :: string where "demo_fp = replicate 64 (CHR ''a'')"

definition demo_hash :: "u8 \<Rightarrow> string" where "demo_hash n = from_bytes (replicate 32 n)"

definition demo_push :: api_row where
  "demo_push = \<lparr> a_id = 1, a_hash = demo_hash 1, a_scope = ''inbox.push'', a_fp = None, a_label = None,
     a_created = 0, a_expires = None, a_revoked = None, a_used = None \<rparr>"

definition demo_pull :: api_row where
  "demo_pull = \<lparr> a_id = 2, a_hash = demo_hash 2, a_scope = ''inbox.pull'', a_fp = Some demo_fp, a_label = None,
     a_created = 0, a_expires = Some 60, a_revoked = None, a_used = None \<rparr>"

definition demo_relay :: "unit relay" where
  "demo_relay = empty_relay\<lparr>api_rows := [demo_push, demo_pull], rl_draws := 3\<rparr>"

lemma demo_hash_inj: "demo_hash m = demo_hash n \<longleftrightarrow> m = n"
proof
  assume "demo_hash m = demo_hash n"
  then have "as_bytes (demo_hash m) = as_bytes (demo_hash n)" by simp
  then show "m = n" by (simp add: demo_hash_def)
qed simp

lemma demo_hash_length [simp]: "length (demo_hash n) = 32"
  by (simp add: demo_hash_def from_bytes_def)

lemma demo_bearer: "hash_bearer toy (''kq_'' @ demo_hash n) = Ok (demo_hash n)"
  using demo_hash_length [of n] by (simp add: hash_bearer_def hash_prefixed_def TOKEN_PREFIX_def strip_prefix_def starts_with_def BEARER_LEN_def)

lemma demo_fp_normal: "normalize_fingerprint demo_fp = Ok demo_fp"
  by code_simp

lemma demo_relay_ok: "api_keys_ok demo_relay" "\<not> rl_tx demo_relay" "rl_clock demo_relay = 0"
  using demo_fp_normal
  by (simp_all add: api_keys_ok_def demo_relay_def empty_relay_def demo_push_def demo_pull_def demo_hash_inj api_row_ok_def)

lemma demo_look:
  "api_by_hash demo_relay (demo_hash 2) = Some demo_pull" "api_by_hash demo_relay (demo_hash 1) = Some demo_push"
  "api_by_id demo_relay 2 = Some demo_pull" "api_by_id demo_relay 1 = Some demo_push"
  by (simp_all add: demo_relay_def demo_push_def demo_pull_def demo_hash_inj api_by_hash_def api_by_id_def)

theorem key_lifetime_witness:
  "fst (authenticate toy (''kq_'' @ demo_hash 2) InboxPush (api_steps toy [RevokeKey 1, Elapse 30] demo_relay))
     \<in> {Err ApiKeyRevoked, Err ApiKeyExpired, Err ApiKeyScopeDenied}"
proof -
  let ?res = "fst (authenticate toy (''kq_'' @ demo_hash 2) InboxPush (api_steps toy [RevokeKey 1, Elapse 30] demo_relay))"
  show ?thesis
    using key_lifetime [where sc = InboxPush and cs = "[RevokeKey 1, Elapse 30]",
        OF demo_relay_ok(1,2) demo_bearer demo_look(1) prod.collapse [symmetric]]
    by (cases ?res) (auto simp: demo_pull_def)
qed

text \<open>Where the rows are after a rotation.\<close>

lemma rotated_lookup:
  assumes ok: "api_keys_ok r" and k: "api_by_id r i = Some k" "a_revoked k = None"
    and fresh: "api_by_hash r (fresh_hash C r) = None"
    and r': "r' = r\<lparr>rl_draws := Suc (rl_draws r),
        api_rows := map (mark_revoked (rl_clock r) i) (api_rows r) @ [replaced C k r]\<rparr>"
  shows "api_by_hash r' (a_hash k) = Some (k\<lparr>a_revoked := Some (rl_clock r)\<rparr>)"
    and "api_by_hash r' (fresh_hash C r) = Some (replaced C k r)"
    and "j \<noteq> i \<Longrightarrow> j \<noteq> a_id (replaced C k r) \<Longrightarrow> api_by_id r' j = api_by_id r j"
proof -
  let ?f = "mark_revoked (rl_clock r) i"
  have ki: "k \<in> set (api_rows r)" "a_id k = i" using api_by_id_mem [OF k(1)] by simp_all
  have mark: "find (\<lambda>q. a_hash q = h) (map ?f (api_rows r)) = map_option ?f (api_by_hash r h)" for h
    unfolding api_by_hash_def by (rule find_cong_map) (simp add: mark_revoked_def)
  show "api_by_hash r' (a_hash k) = Some (k\<lparr>a_revoked := Some (rl_clock r)\<rparr>)"
    using mark [of "a_hash k"] api_by_hash_unique [OF ok ki(1)] ki(2) k(2)
    by (simp add: api_by_hash_def r' find_append mark_revoked_def)
  show "api_by_hash r' (fresh_hash C r) = Some (replaced C k r)"
    using mark [of "fresh_hash C r"] fresh by (simp add: api_by_hash_def r' find_append replaced_def minted_def)
  assume j: "j \<noteq> i" "j \<noteq> a_id (replaced C k r)"
  have "find (\<lambda>q. a_id q = j) (map ?f (api_rows r)) = map_option ?f (api_by_id r j)"
    unfolding api_by_id_def by (rule find_cong_map) (simp add: mark_revoked_def)
  moreover have "map_option ?f (api_by_id r j) = api_by_id r j"
    using j(1) api_by_id_mem [of r j] by (cases "api_by_id r j") (simp_all add: mark_revoked_def)
  ultimately show "api_by_id r' j = api_by_id r j"
    using j(2) by (simp add: api_by_id_def r' find_append split: option.split)
qed

text \<open>
  Rotation replaces a live key by one with a new bearer and the same scope, binding, label
  and expiry: from then on the old bearer is refused as revoked for every scope, the new one
  authenticates exactly for that scope while it has not expired, and no other key changed. A
  rotation that fails says why and leaves the keys as they were.
\<close>
theorem rotate_replaces:
  assumes "b64url_ok C" "os_ok C" "api_keys_ok r" "\<not> rl_tx r" "rotate_api_key C i r = (res, r')"
  shows "case res of
      Ok c \<Rightarrow> (\<exists>k. api_by_id r i = Some k \<and> a_revoked k = None \<and> ai_label (ck_info c) = a_label k
        \<and> (\<forall>token sc. hash_bearer C token = Ok (a_hash k) \<longrightarrow> authenticate C token sc r' = (Err ApiKeyRevoked, r'))
        \<and> (\<forall>sc. fst (authenticate C (ck_token c) sc r') =
             (if \<not> unexpired r k then Err ApiKeyExpired
              else if a_scope k \<noteq> scope_str sc then Err ApiKeyScopeDenied
              else Ok \<lparr> au_id = ai_id (ck_info c), au_scope = sc, au_fp = a_fp k \<rparr>))
        \<and> (\<forall>j. j \<noteq> i \<and> j \<noteq> ai_id (ck_info c) \<longrightarrow> api_by_id r' j = api_by_id r j))
    | Err e \<Rightarrow> r' = r\<lparr>rl_draws := rl_draws r'\<rparr>
        \<and> (e = ApiKeyNotFound \<and> api_by_id r i = None
           \<or> e = ApiKeyRevoked \<and> (\<exists>k. api_by_id r i = Some k \<and> a_revoked k \<noteq> None)
           \<or> e = Db ConstraintViolation \<and> api_by_hash r (fresh_hash C r) \<noteq> None)"
proof (cases res)
  case (Inl e)
  then show ?thesis using assms(5) unfolding rotate_run [OF assms(3,4)]
    by (auto split: option.splits if_splits)
next
  case (Inr c)
  obtain k where k: "api_by_id r i = Some k" "a_revoked k = None" and fresh: "api_by_hash r (fresh_hash C r) = None"
    and c: "c = \<lparr> ck_info = row_to_info (replaced C k r), ck_token = fresh_bearer C r \<rparr>"
    and r': "r' = r\<lparr>rl_draws := Suc (rl_draws r),
        api_rows := map (mark_revoked (rl_clock r) i) (api_rows r) @ [replaced C k r]\<rparr>"
    using assms(5) Inr unfolding rotate_run [OF assms(3,4)] by (auto split: option.splits if_splits)
  have ki: "k \<in> set (api_rows r)" "a_id k = i" using api_by_id_mem [OF k(1)] by simp_all
  have ok': "api_keys_ok r'"
    using rotate_ages [OF assms(3,4), of "[]" C i] assms(5) by (simp add: ages_def)
  note look = rotated_lookup [OF assms(3) k fresh r']
  have scope: "a_scope (replaced C k r) = a_scope k" "a_fp (replaced C k r) = a_fp k" "a_label (replaced C k r) = a_label k"
    "a_revoked (replaced C k r) = None" "a_expires (replaced C k r) = a_expires k"
    using replacement_binding(2) [OF assms(3) ki(1)] by (simp_all add: replaced_def minted_def replacement_def)
  have "unexpired r' (replaced C k r) = unexpired r k"
    by (simp add: unexpired_def scope r' split: option.split)
  then have "fst (authenticate C (fresh_bearer C r) sc r') =
             (if \<not> unexpired r k then Err ApiKeyExpired
              else if a_scope k \<noteq> scope_str sc then Err ApiKeyScopeDenied
              else Ok \<lparr> au_id = a_id (replaced C k r), au_scope = sc, au_fp = a_fp k \<rparr>)" for sc
    using authenticate_run [OF ok' fresh_bearer_hash [OF assms(1,2), of r], of sc] look(2) scope by (simp add: auth_refusal_def)
  moreover have "authenticate C token sc r' = (Err ApiKeyRevoked, r')" if "hash_bearer C token = Ok (a_hash k)" for token sc
    using authenticate_run [OF ok' that] look(1) by (simp add: auth_refusal_def)
  ultimately show ?thesis using Inr c k look(3) scope by (simp add: row_to_info_def)
qed

theorem rotate_replaces_witness:
  "\<exists>c r'. rotate_api_key toy 2 demo_relay = (Ok c, r')
     \<and> authenticate toy (''kq_'' @ demo_hash 2) InboxPull r' = (Err ApiKeyRevoked, r')
     \<and> fst (authenticate toy (ck_token c) InboxPull r')
         = Ok \<lparr> au_id = ai_id (ck_info c), au_scope = InboxPull, au_fp = Some demo_fp \<rparr>"
proof -
  have "fresh_hash toy demo_relay = demo_hash 3"
    by (simp add: fresh_hash_def demo_relay_def demo_hash_def)
  moreover have "api_by_hash demo_relay (demo_hash 3) = None"
    by (simp add: api_by_hash_def demo_relay_def demo_push_def demo_pull_def demo_hash_inj)
  ultimately obtain c r' where run: "rotate_api_key toy 2 demo_relay = (Ok c, r')"
    using rotate_run [OF demo_relay_ok(1,2), of toy 2] demo_look(3) by (auto simp: demo_pull_def)
  have "unexpired demo_relay demo_pull" by (simp add: unexpired_def demo_relay_ok demo_pull_def)
  then have "authenticate toy (''kq_'' @ demo_hash 2) InboxPull r' = (Err ApiKeyRevoked, r')"
    "fst (authenticate toy (ck_token c) InboxPull r')
         = Ok \<lparr> au_id = ai_id (ck_info c), au_scope = InboxPull, au_fp = Some demo_fp \<rparr>"
    using rotate_replaces [OF toy_b64url_ok toy_os_ok demo_relay_ok(1,2) run] demo_look(3) demo_bearer [of 2]
    by (simp_all add: demo_pull_def)
  then show ?thesis using run by blast
qed

end
