(* ===== verification/RelayTrees.thy ===== *)
theory RelayTrees
  imports RelayKeys TreePublish
begin

text \<open>
  The canonical public trees of the relay (\<open>src/relay/org_tree.rs\<close>): validation of a published
  tree, the two ways to store one (replace, or merge into the document that is there), and the
  slices a fingerprint may see. A document is the \<open>PublicTree\<close> value; \<open>serde_json\<close> reads back what
  it wrote.
\<close>

type_synonym relay_db = "public_tree relay"

section \<open>Validation\<close>

text \<open>The match on threshold, fingerprint and public key.\<close>

definition check_node_kind :: "crates \<Rightarrow> public_node \<Rightarrow> unit result" where
  "check_node_kind C n =
     (case (pn_threshold n, pn_fp n, pn_pk n) of
        (Some t, None, None) \<Rightarrow> if 0 < t then Ok () else Err InvalidTreeSpec
      | (None, Some _, Some pk) \<Rightarrow>
          and_then (ok_or InvalidPublicKey (hex_decode C pk)) (\<lambda>raw.
            if length raw \<noteq> 32 then Err InvalidPublicKey else Ok ())
      | _ \<Rightarrow> Err InvalidTreeSpec)"

text \<open>The loop over the nodes: the labels seen and the number of roots.\<close>

fun check_public_nodes :: "crates \<Rightarrow> string set \<Rightarrow> nat \<Rightarrow> public_node list \<Rightarrow> (string set \<times> nat) result" where
  "check_public_nodes C labels roots [] = Ok (labels, roots)"
| "check_public_nodes C labels roots (n # ns) =
     (if pn_label n = [] \<or> pn_label n \<in> labels then Err DuplicateNodeLabel
      else and_then (check_node_kind C n) (\<lambda>_.
        check_public_nodes C (insert (pn_label n) labels) (if pn_parent n = None then Suc roots else roots) ns))"

definition check_edge :: "string set \<Rightarrow> string \<times> string \<Rightarrow> unit result" where
  "check_edge labels e =
     (if fst e = snd e \<or> fst e \<notin> labels \<or> snd e \<notin> labels then Err InvalidBridge else Ok ())"

fun check_all :: "('a \<Rightarrow> unit result) \<Rightarrow> 'a list \<Rightarrow> unit result" where
  "check_all f [] = Ok ()"
| "check_all f (x # xs) = and_then (f x) (\<lambda>_. check_all f xs)"

fun check_whitelist :: "(string \<times> string) set \<Rightarrow> (string \<times> string) list \<Rightarrow> unit result" where
  "check_whitelist seen [] = Ok ()"
| "check_whitelist seen (e # es) =
     (if e \<in> seen then Err InvalidBridge else check_whitelist (insert e seen) es)"

fun check_links :: "(string \<times> string) list \<Rightarrow> (string \<times> string) set \<Rightarrow> (string \<times> string) list \<Rightarrow> unit result" where
  "check_links whitelist seen [] = Ok ()"
| "check_links whitelist seen (e # es) =
     (if e \<in> seen then Err InvalidBridge
      else if \<not> list_ex (\<lambda>a. a = e \<or> a = (snd e, fst e)) whitelist then Err InvalidBridge
      else check_links whitelist (insert e seen) es)"

text \<open>The two maps of the last part, then the walk to the root.\<close>

definition parents_of :: "public_node list \<Rightarrow> parent_map" where
  "parents_of ns = fold (\<lambda>n m. AList.update (pn_label n) (pn_parent n) m) ns []"

definition root_of :: "public_node list \<Rightarrow> string option" where
  "root_of ns = fold (\<lambda>n r. if pn_parent n = None then Some (pn_label n) else r) ns None"

function climbs :: "parent_map \<Rightarrow> string \<Rightarrow> string \<Rightarrow> string set \<Rightarrow> bool" where
  "climbs P l root seen =
     (if l \<in> seen then False
      else if l = root then True
      else case map_of P l of
             Some (Some p) \<Rightarrow> climbs P p root (insert l seen)
           | _ \<Rightarrow> False)"
  by pat_completeness auto

termination
proof (relation "measure (\<lambda>(P, l, root, seen). card (fst ` set P - seen))")
  fix P :: parent_map and l root and seen :: "string set" and v p
  assume "l \<notin> seen" "map_of P l = Some v" "v = Some p"
  then have "l \<in> fst ` set P - seen" by (force dest: map_of_SomeD)
  then have "fst ` set P - insert l seen \<subset> fst ` set P - seen" by blast
  then show "((P, p, root, insert l seen), P, l, root, seen) \<in> measure (\<lambda>(P, l, root, seen). card (fst ` set P - seen))"
    by (simp add: psubset_card_mono)
qed simp

declare climbs.simps [simp del]

definition reaches_root :: "parent_map \<Rightarrow> string \<Rightarrow> string \<Rightarrow> bool" where
  "reaches_root P start root = climbs P start root {}"

definition validate_public_tree :: "crates \<Rightarrow> public_tree \<Rightarrow> unit result" where
  "validate_public_tree C t =
     (if pt_label t = [] \<or> pt_nodes t = [] then Err InvalidTreeSpec
      else and_then (check_public_nodes C {} 0 (pt_nodes t)) (\<lambda>(labels, roots).
        if roots \<noteq> 1 then Err InvalidTreeSpec
        else and_then (check_all (\<lambda>n. case pn_parent n of None \<Rightarrow> Ok ()
               | Some p \<Rightarrow> if p \<notin> labels then Err InvalidTreeSpec else Ok ()) (pt_nodes t)) (\<lambda>_.
        and_then (check_all (check_edge labels) (pt_whitelist t @ pt_links t)) (\<lambda>_.
        and_then (check_whitelist {} (pt_whitelist t)) (\<lambda>_.
        and_then (check_links (pt_whitelist t) {} (pt_links t)) (\<lambda>_.
        and_then (ok_or InvalidTreeSpec (root_of (pt_nodes t))) (\<lambda>root.
        check_all (\<lambda>n. if reaches_root (parents_of (pt_nodes t)) (pn_label n) root then Ok ()
                       else Err InvalidTreeSpec) (pt_nodes t))))))))"

section \<open>Storing a tree\<close>

definition doc_of :: "relay_db \<Rightarrow> string \<Rightarrow> (string \<times> int \<times> public_tree) option" where
  "doc_of r label = find (\<lambda>d. fst d = label) (doc_rows r)"

definition get_public_tree :: "string \<Rightarrow> relay_db \<Rightarrow> public_tree result" where
  "get_public_tree label r = and_then (ok_or TreeNotFound (doc_of r label)) (\<lambda>(_, _, t). Ok t)"

definition saturating_succ :: "int \<Rightarrow> int" where
  "saturating_succ g = min (g + 1) (2 ^ 63 - 1)"

definition u32_or_max :: "int \<Rightarrow> u32" where
  "u32_or_max g = (if 0 \<le> g \<and> g < 2 ^ 32 then word_of_int g else - 1)"

text \<open>\<open>INSERT ... ON CONFLICT(label) DO UPDATE\<close>, with \<open>CHECK (generation > 0)\<close>.\<close>

definition upsert_doc :: "string \<Rightarrow> int \<Rightarrow> public_tree \<Rightarrow> (relay_db, unit) op" where
  "upsert_doc label g t = (\<lambda>r.
     if g \<le> 0 then (Err (Db ConstraintViolation), r)
     else (Ok (), r\<lparr>doc_rows :=
       (if doc_of r label = None then doc_rows r @ [(label, g, t)]
        else map (\<lambda>d. if fst d = label then (label, g, t) else d) (doc_rows r))\<rparr>))"

definition persist_public_tree :: "public_tree \<Rightarrow> (relay_db, public_tree) op" where
  "persist_public_tree snapshot =
     bind (asks (\<lambda>r. Ok (doc_of r (pt_label snapshot)))) (\<lambda>existing.
     let g = (case existing of None \<Rightarrow> 1 | Some (_, g, _) \<Rightarrow> saturating_succ g);
         stored = snapshot\<lparr>pt_generation := u32_or_max g\<rparr> in
     bind (upsert_doc (pt_label stored) g stored) (\<lambda>_. ret stored))"

definition put_public_tree :: "crates \<Rightarrow> public_tree \<Rightarrow> (relay_db, public_tree) op" where
  "put_public_tree C snapshot =
     bind (lift_result (validate_public_tree C snapshot)) (\<lambda>_.
     relay_immediate (persist_public_tree snapshot))"

text \<open>The edges of the document that the incoming tree does not speak about.\<close>

definition keep_edges :: "string set \<Rightarrow> (string \<times> string) list \<Rightarrow> (string \<times> string) list \<Rightarrow> (string \<times> string) list" where
  "keep_edges mentioned incoming existing =
     fold (\<lambda>e kept. if fst e \<in> mentioned \<and> snd e \<in> mentioned then kept
                    else if list_ex (\<lambda>k. k = e) kept then kept else kept @ [e]) existing incoming"

definition merge_into_existing :: "crates \<Rightarrow> public_tree \<Rightarrow> public_tree \<Rightarrow> public_tree result" where
  "merge_into_existing C existing incoming =
     (let mentioned = pn_label ` set (pt_nodes incoming);
          merged = \<lparr> pt_label = pt_label incoming, pt_generation = pt_generation existing,
            pt_nodes = pt_nodes incoming @ filter (\<lambda>n. pn_label n \<notin> mentioned) (pt_nodes existing),
            pt_whitelist = keep_edges mentioned (pt_whitelist incoming) (pt_whitelist existing),
            pt_links = keep_edges mentioned (pt_links incoming) (pt_links existing) \<rparr>
      in and_then (validate_public_tree C merged) (\<lambda>_. Ok merged))"

definition merge_public_tree :: "crates \<Rightarrow> public_tree \<Rightarrow> (relay_db, public_tree) op" where
  "merge_public_tree C snapshot =
     bind (lift_result (validate_public_tree C snapshot)) (\<lambda>_.
     relay_immediate (
       bind (asks (\<lambda>r. case get_public_tree (pt_label snapshot) r of
               Ok existing \<Rightarrow> merge_into_existing C existing snapshot
             | Err e \<Rightarrow> if e = TreeNotFound then Ok snapshot else Err e)) (\<lambda>merged.
       persist_public_tree merged)))"

section \<open>Slices\<close>

text \<open>\<open>ORDER BY label\<close> compares bytes.\<close>

definition list_public_trees :: "relay_db \<Rightarrow> public_tree list" where
  "list_public_trees r = map (\<lambda>(_, _, t). t) (sort_key fst (doc_rows r))"

definition slice_for_fingerprint :: "public_tree \<Rightarrow> string \<Rightarrow> public_tree option" where
  "slice_for_fingerprint full fp =
     (let seeds = map pn_label (filter (\<lambda>n. pn_fp n = Some fp) (pt_nodes full)) in
      if seeds = [] then None
      else Some (filter_public_tree full (visible_labels_in_public_tree full seeds)))"

definition slices_for_fingerprint :: "string \<Rightarrow> relay_db \<Rightarrow> public_tree list" where
  "slices_for_fingerprint fp r = List.map_filter (\<lambda>t. slice_for_fingerprint t fp) (list_public_trees r)"

definition context_for_fingerprint :: "string \<Rightarrow> string \<Rightarrow> relay_db \<Rightarrow> public_tree result" where
  "context_for_fingerprint label fp r =
     and_then (get_public_tree label r) (\<lambda>full. ok_or NodeNotFound (slice_for_fingerprint full fp))"

section \<open>What validation decides\<close>

definition node_kind_ok :: "crates \<Rightarrow> public_node \<Rightarrow> bool" where
  "node_kind_ok C n \<longleftrightarrow>
     (\<exists>t. pn_threshold n = Some t \<and> 0 < t \<and> pn_fp n = None \<and> pn_pk n = None)
   \<or> (\<exists>fp pk raw. pn_threshold n = None \<and> pn_fp n = Some fp \<and> pn_pk n = Some pk
        \<and> hex_decode C pk = Some raw \<and> length raw = 32)"

text \<open>A label and the label of its parent.\<close>

definition public_rel :: "public_node list \<Rightarrow> (string \<times> string) set" where
  "public_rel ns = parent_rel (map (\<lambda>n. (pn_label n, pn_parent n)) ns)"

text \<open>Edges between two different nodes, none twice, and links between whitelisted nodes only.\<close>

definition edges_ok :: "public_tree \<Rightarrow> bool" where
  "edges_ok t \<longleftrightarrow>
     (\<forall>(a, b) \<in> set (pt_whitelist t) \<union> set (pt_links t).
        a \<noteq> b \<and> a \<in> pn_label ` set (pt_nodes t) \<and> b \<in> pn_label ` set (pt_nodes t))
     \<and> distinct (pt_whitelist t) \<and> distinct (pt_links t)
     \<and> (\<forall>(a, b) \<in> set (pt_links t). (a, b) \<in> set (pt_whitelist t) \<or> (b, a) \<in> set (pt_whitelist t))"

text \<open>
  A published tree: labels that are not empty and do not repeat, a kind for each node, one root
  that every node reaches, and proper edges.
\<close>

definition public_ok :: "crates \<Rightarrow> public_tree \<Rightarrow> bool" where
  "public_ok C t \<longleftrightarrow>
     pt_label t \<noteq> [] \<and> distinct (map pn_label (pt_nodes t))
     \<and> (\<forall>n \<in> set (pt_nodes t). pn_label n \<noteq> [] \<and> node_kind_ok C n)
     \<and> (\<exists>root \<in> set (pt_nodes t). pn_parent root = None
          \<and> (\<forall>n \<in> set (pt_nodes t). (pn_label n, pn_label root) \<in> (public_rel (pt_nodes t))\<^sup>*))
     \<and> edges_ok t"

lemma check_node_kind_Ok: "check_node_kind C n = Ok () \<longleftrightarrow> node_kind_ok C n"
  by (auto simp: check_node_kind_def node_kind_ok_def and_then_Ok_iff split: option.splits)

lemma check_public_nodes_Ok:
  "check_public_nodes C L k ns = Ok (L', k') \<longleftrightarrow>
     distinct (map pn_label ns) \<and> pn_label ` set ns \<inter> L = {}
     \<and> (\<forall>n \<in> set ns. pn_label n \<noteq> [] \<and> node_kind_ok C n)
     \<and> L' = L \<union> pn_label ` set ns \<and> k' = k + length (filter (\<lambda>n. pn_parent n = None) ns)"
  by (induction C L k ns arbitrary: L' k' rule: check_public_nodes.induct)
     (auto simp: and_then_Ok_iff check_node_kind_Ok)

lemma check_all_Ok: "check_all f xs = Ok () \<longleftrightarrow> (\<forall>x \<in> set xs. f x = Ok ())"
  by (induction xs) (auto simp: and_then_Ok_iff)

lemma check_whitelist_Ok: "check_whitelist seen es = Ok () \<longleftrightarrow> distinct es \<and> set es \<inter> seen = {}"
  by (induction seen es rule: check_whitelist.induct) auto

lemma check_links_Ok:
  "check_links wl seen es = Ok () \<longleftrightarrow> distinct es \<and> set es \<inter> seen = {}
     \<and> (\<forall>(a, b) \<in> set es. (a, b) \<in> set wl \<or> (b, a) \<in> set wl)"
  by (induction wl seen es rule: check_links.induct) (auto simp: list_ex_iff)

lemma check_edge_Ok: "check_edge L e = Ok () \<longleftrightarrow> fst e \<noteq> snd e \<and> fst e \<in> L \<and> snd e \<in> L"
  by (auto simp: check_edge_def)

lemma parents_of_map:
  assumes "distinct (map pn_label ns)"
  shows "map_of (parents_of ns) = map_of (map (\<lambda>n. (pn_label n, pn_parent n)) ns)"
proof -
  let ?pair = "\<lambda>n. (pn_label n, pn_parent n)"
  have "map_of (fold (\<lambda>n m. AList.update (pn_label n) (pn_parent n) m) ns P) = map_of P ++ map_of (rev (map ?pair ns))" for P
    by (induction ns arbitrary: P) (auto simp: update_conv' map_add_def fun_eq_iff split: option.splits)
  moreover have "map_of (rev (map ?pair ns)) = map_of (map ?pair ns)"
    by (rule map_of_rev) (simp add: assms comp_def)
  ultimately show ?thesis by (simp add: parents_of_def)
qed

lemma up_parents_of:
  assumes "distinct (map pn_label ns)"
  shows "up (parents_of ns) = public_rel ns"
proof -
  have "distinct (map fst (map (\<lambda>n. (pn_label n, pn_parent n)) ns))" using assms by (simp add: comp_def)
  then show ?thesis
    unfolding up_def parents_of_map [OF assms] public_rel_def parent_rel_def by (simp add: map_of_eq_Some_iff)
qed

lemma root_of_find: "root_of ns = map_option pn_label (find (\<lambda>n. pn_parent n = None) (rev ns))"
proof -
  let ?step = "\<lambda>n r. if pn_parent n = None then Some (pn_label n) else r"
  have "fold ?step ns r = (case find (\<lambda>n. pn_parent n = None) (rev ns) of None \<Rightarrow> r | Some n \<Rightarrow> Some (pn_label n))" for r
  proof (induction ns arbitrary: r)
    case (Cons a ns)
    show ?case unfolding fold_simps Cons.IH rev.simps find_append by (auto split: option.split)
  qed simp
  then show ?thesis unfolding root_of_def by (simp split: option.split)
qed

lemma root_of_mem: "root_of ns = Some l \<Longrightarrow> \<exists>n \<in> set ns. pn_parent n = None \<and> pn_label n = l"
  unfolding root_of_find by (auto dest!: find_SomeD)

lemma root_of_None: "root_of ns = None \<Longrightarrow> n \<in> set ns \<Longrightarrow> pn_parent n \<noteq> None"
  unfolding root_of_find by (simp add: find_None_iff_all)

lemma climbs_iff:
  assumes "root \<notin> seen" "\<forall>x \<in> seen. \<forall>p. (x, p) \<in> up P \<longrightarrow> p \<in> insert l seen"
  shows "climbs P l root seen \<longleftrightarrow> (l, root) \<in> (up P)\<^sup>*"
  using assms
proof (induction P l root seen rule: climbs.induct)
  case (1 P l root seen)
  show ?case
  proof (cases "l \<in> seen")
    case True
    then have "(l, root) \<notin> (up P)\<^sup>*" using up_closed [of l root P seen] 1(2,3) by blast
    then show ?thesis using True by (simp add: climbs.simps)
  next
    case False
    show ?thesis
    proof (cases "l = root \<or> (\<forall>p. map_of P l \<noteq> Some (Some p))")
      case True
      then show ?thesis using up_stop [of P l] False
        by (subst climbs.simps) (auto split: option.splits)
    next
      case other: False
      then obtain p where p: "map_of P l = Some (Some p)" by blast
      have "\<forall>x \<in> insert l seen. \<forall>q. (x, q) \<in> up P \<longrightarrow> q \<in> insert p (insert l seen)"
        using 1(3) p by (auto simp: up_def)
      then have "climbs P p root (insert l seen) \<longleftrightarrow> (p, root) \<in> (up P)\<^sup>*"
        using 1(1) [OF False _ p refl] 1(2) other by simp
      moreover have "(l, root) \<in> (up P)\<^sup>* \<longleftrightarrow> (p, root) \<in> (up P)\<^sup>*" using up_step [OF p] other by auto
      ultimately show ?thesis using p False other by (subst climbs.simps) simp
    qed
  qed
qed

lemma reaches_root_iff: "reaches_root P l root \<longleftrightarrow> (l, root) \<in> (up P)\<^sup>*"
  unfolding reaches_root_def by (rule climbs_iff) simp_all

lemma public_rel_mem: "(l, p) \<in> public_rel ns \<longleftrightarrow> (\<exists>n \<in> set ns. pn_label n = l \<and> pn_parent n = Some p)"
  by (auto simp: public_rel_def parent_rel_def)

lemma public_node_unique:
  "distinct (map pn_label ns) \<Longrightarrow> n \<in> set ns \<Longrightarrow> m \<in> set ns \<Longrightarrow> pn_label n = pn_label m \<Longrightarrow> n = m"
  by (auto simp: distinct_map dest: inj_onD)

text \<open>In a tree with one root that every node reaches, the root is the only one and parents are nodes.\<close>

lemma rooted:
  assumes d: "distinct (map pn_label ns)" and root: "root \<in> set ns" "pn_parent root = None"
    and reach: "\<And>n. n \<in> set ns \<Longrightarrow> (pn_label n, pn_label root) \<in> (public_rel ns)\<^sup>*"
  shows "n \<in> set ns \<Longrightarrow> pn_parent n = None \<Longrightarrow> n = root"
    and "n \<in> set ns \<Longrightarrow> pn_parent n = Some p \<Longrightarrow> p \<in> pn_label ` set ns"
proof -
  have step: "pn_label n = pn_label root \<or> (\<exists>q. pn_parent n = Some q \<and> (q, pn_label root) \<in> (public_rel ns)\<^sup>*)"
    if n: "n \<in> set ns" for n
  proof (rule converse_rtranclE [OF reach [OF n]])
    fix q assume "(pn_label n, q) \<in> public_rel ns" "(q, pn_label root) \<in> (public_rel ns)\<^sup>*"
    then show ?thesis using public_node_unique [OF d _ n] by (auto simp: public_rel_mem)
  qed simp
  show "n = root" if "n \<in> set ns" "pn_parent n = None"
    using step [OF that(1)] that(2) public_node_unique [OF d that(1) root(1)] by simp
  show "p \<in> pn_label ` set ns" if n: "n \<in> set ns" "pn_parent n = Some p"
  proof -
    have "n \<noteq> root" using root(2) n(2) by auto
    then have "pn_label n \<noteq> pn_label root" using public_node_unique [OF d n(1) root(1)] by blast
    then have "(p, pn_label root) \<in> (public_rel ns)\<^sup>*" using step [OF n(1)] n(2) by simp
    then show ?thesis
      by (rule converse_rtranclE) (use root(1) in \<open>auto simp: public_rel_mem\<close>)
  qed
qed

lemma if_Err_Ok: "(if b then Err e else r) = Ok a \<longleftrightarrow> \<not> b \<and> r = Ok a"
  by simp

lemma and_then_unit_Ok: "and_then r f = Ok b \<longleftrightarrow> r = Ok () \<and> f () = Ok b"
  by (simp add: and_then_Ok_iff)

lemma and_then_opt_Ok: "and_then (ok_or e x) f = Ok b \<longleftrightarrow> (\<exists>a. x = Some a \<and> f a = Ok b)"
  by (simp add: and_then_Ok_iff)

lemma and_then_pair_Ok: "and_then r (\<lambda>(x, y). f x y) = Ok b \<longleftrightarrow> (\<exists>x y. r = Ok (x, y) \<and> f x y = Ok b)"
  by (auto simp: and_then_Ok_iff)

text \<open>The rooted part and the rest of the checks.\<close>

definition code_rooted :: "public_node list \<Rightarrow> bool" where
  "code_rooted ns \<longleftrightarrow> length (filter (\<lambda>n. pn_parent n = None) ns) = 1
     \<and> (\<forall>n \<in> set ns. \<forall>p. pn_parent n = Some p \<longrightarrow> p \<in> pn_label ` set ns)
     \<and> (\<exists>root. root_of ns = Some root \<and> (\<forall>n \<in> set ns. reaches_root (parents_of ns) (pn_label n) root))"

lemma validate_public_Ok:
  "validate_public_tree C t = Ok () \<longleftrightarrow>
     pt_label t \<noteq> [] \<and> pt_nodes t \<noteq> [] \<and> distinct (map pn_label (pt_nodes t))
     \<and> (\<forall>n \<in> set (pt_nodes t). pn_label n \<noteq> [] \<and> node_kind_ok C n) \<and> code_rooted (pt_nodes t) \<and> edges_ok t"
proof -
  have parent: "(case pn_parent n of None \<Rightarrow> Ok () | Some p \<Rightarrow> if p \<notin> L then Err InvalidTreeSpec else Ok ()) = Ok ()
      \<longleftrightarrow> (\<forall>p. pn_parent n = Some p \<longrightarrow> p \<in> L)" for n L
    by (simp split: option.split)
  have reach: "(if b then Ok () else Err e) = Ok () \<longleftrightarrow> b" for b e by simp
  have edges: "(\<forall>e \<in> S. fst e \<noteq> snd e \<and> fst e \<in> L \<and> snd e \<in> L) \<longleftrightarrow> (\<forall>(a, b) \<in> S. a \<noteq> b \<and> a \<in> L \<and> b \<in> L)"
    for S :: "(string \<times> string) set" and L by (simp add: case_prod_unfold)
  show ?thesis
    by (simp only: validate_public_tree_def if_Err_Ok and_then_unit_Ok and_then_pair_Ok check_public_nodes_Ok check_all_Ok
      check_edge_Ok check_whitelist_Ok check_links_Ok parent reach edges and_then_opt_Ok
      code_rooted_def edges_ok_def)
     (simp add: conj_ac del: One_nat_def)
qed

lemma only_root_filter:
  assumes "distinct ns" "root \<in> set ns" "P root" "\<And>n. n \<in> set ns \<Longrightarrow> P n \<Longrightarrow> n = root"
  shows "length (filter P ns) = 1"
proof -
  have "set (filter P ns) = {root}" unfolding set_filter using assms(2-4) by blast
  moreover have "distinct (filter P ns)" using assms(1) by simp
  ultimately show ?thesis using distinct_card [of "filter P ns"] by simp
qed

lemma code_rooted_iff:
  assumes d: "distinct (map pn_label ns)"
  shows "code_rooted ns \<longleftrightarrow> (\<exists>root \<in> set ns. pn_parent root = None
    \<and> (\<forall>n \<in> set ns. (pn_label n, pn_label root) \<in> (public_rel ns)\<^sup>*))" (is "_ \<longleftrightarrow> ?spec")
proof
  assume "code_rooted ns"
  then obtain l where l: "root_of ns = Some l" "\<forall>n \<in> set ns. (pn_label n, l) \<in> (public_rel ns)\<^sup>*"
    unfolding code_rooted_def reaches_root_iff up_parents_of [OF d] by auto
  obtain root where "root \<in> set ns" "pn_parent root = None" "pn_label root = l" using root_of_mem [OF l(1)] by auto
  then show ?spec using l(2) by (intro bexI [of _ root]) auto
next
  assume ?spec
  then obtain root where root: "root \<in> set ns" "pn_parent root = None"
    and reach: "\<And>n. n \<in> set ns \<Longrightarrow> (pn_label n, pn_label root) \<in> (public_rel ns)\<^sup>*" by blast
  note only = rooted [OF d root reach]
  obtain l where l: "root_of ns = Some l" using root_of_None root by (cases "root_of ns") blast+
  then have "l = pn_label root" using root_of_mem only(1) by blast
  then have "\<exists>root. root_of ns = Some root \<and> (\<forall>n \<in> set ns. reaches_root (parents_of ns) (pn_label n) root)"
    unfolding reaches_root_iff up_parents_of [OF d] using l reach by blast
  moreover have "distinct ns" using d by (simp add: distinct_map)
  then have "length (filter (\<lambda>n. pn_parent n = None) ns) = 1"
    by (rule only_root_filter [where root = root]) (use root in simp_all, rule only(1))
  ultimately show "code_rooted ns" unfolding code_rooted_def using only(2) by blast
qed

lemma validate_public_decides: "validate_public_tree C t = Ok () \<longleftrightarrow> public_ok C t"
proof (cases "distinct (map pn_label (pt_nodes t))")
  case True
  have "pt_nodes t \<noteq> []" if "code_rooted (pt_nodes t)" using that by (auto simp: code_rooted_def)
  then show ?thesis
    unfolding validate_public_Ok public_ok_def code_rooted_iff [OF True, symmetric] by (simp add: True) blast
qed (simp add: validate_public_Ok public_ok_def)

section \<open>The documents\<close>

definition docs_ok :: "crates \<Rightarrow> relay_db \<Rightarrow> bool" where
  "docs_ok C r \<longleftrightarrow> distinct (map fst (doc_rows r))
     \<and> (\<forall>(l, g, t) \<in> set (doc_rows r). 0 < g \<and> pt_label t = l \<and> pt_generation t = u32_or_max g \<and> public_ok C t)"

definition next_gen :: "relay_db \<Rightarrow> string \<Rightarrow> int" where
  "next_gen r label = (case doc_of r label of None \<Rightarrow> 1 | Some (_, g, _) \<Rightarrow> saturating_succ g)"

lemma public_ok_generation [simp]: "public_ok C (t\<lparr>pt_generation := g\<rparr>) = public_ok C t"
  by (simp add: public_ok_def edges_ok_def)

lemma doc_of_mem: "doc_of r l = Some d \<Longrightarrow> d \<in> set (doc_rows r) \<and> fst d = l"
  unfolding doc_of_def using find_SomeD [of "\<lambda>d. fst d = l" "doc_rows r" d] by simp

lemma docs_okD:
  assumes "docs_ok C r" "(l, g, t) \<in> set (doc_rows r)"
  shows "0 < g" "pt_label t = l" "pt_generation t = u32_or_max g" "public_ok C t"
  using assms unfolding docs_ok_def by auto

lemma doc_of_label:
  assumes "docs_ok C r" "doc_of r l = Some d"
  obtains g t where "d = (l, g, t)" "0 < g" "pt_label t = l" "pt_generation t = u32_or_max g" "public_ok C t"
    "get_public_tree l r = Ok t"
proof -
  obtain g t where d: "d = (l, g, t)" "(l, g, t) \<in> set (doc_rows r)"
    using doc_of_mem [OF assms(2)] by (cases d) auto
  then have "get_public_tree l r = Ok t" using assms(2) by (simp add: get_public_tree_def)
  then show thesis using that [OF d(1)] docs_okD [OF assms(1) d(2)] by blast
qed

lemma next_gen_pos:
  assumes "docs_ok C r" shows "0 < next_gen r l"
proof (cases "doc_of r l")
  case (Some d)
  obtain g t where "d = (l, g, t)" "0 < g" by (rule doc_of_label [OF assms Some])
  then show ?thesis using Some by (simp add: next_gen_def saturating_succ_def)
qed (simp add: next_gen_def)

lemma persist_run:
  assumes "docs_ok C r"
  shows "\<exists>r'. persist_public_tree t r = (Ok (t\<lparr>pt_generation := u32_or_max (next_gen r (pt_label t))\<rparr>), r')
    \<and> (\<exists>rows. r' = r\<lparr>doc_rows := rows\<rparr>)
    \<and> (public_ok C t \<longrightarrow> docs_ok C r')
    \<and> get_public_tree (pt_label t) r' = Ok (t\<lparr>pt_generation := u32_or_max (next_gen r (pt_label t))\<rparr>)
    \<and> (\<forall>l. l \<noteq> pt_label t \<longrightarrow> get_public_tree l r' = get_public_tree l r)"
proof -
  let ?l = "pt_label t" and ?g = "next_gen r (pt_label t)"
  let ?t = "t\<lparr>pt_generation := u32_or_max ?g\<rparr>"
  let ?f = "\<lambda>d. if fst d = ?l then (?l, ?g, ?t) else d"
  define rows where "rows = (if doc_of r ?l = None then doc_rows r @ [(?l, ?g, ?t)] else map ?f (doc_rows r))"
  have run: "persist_public_tree t r = (Ok ?t, r\<lparr>doc_rows := rows\<rparr>)"
    using next_gen_pos [OF assms, of ?l]
    by (auto simp: persist_public_tree_def bind_run upsert_doc_def next_gen_def rows_def Let_def split: option.split)
  have look: "doc_of (r\<lparr>doc_rows := rows\<rparr>) l = (if l = ?l then Some (?l, ?g, ?t) else doc_of r l)" for l
  proof (cases "doc_of r ?l")
    case None
    then show ?thesis by (auto simp: rows_def doc_of_def find_append split: option.split)
  next
    case (Some d)
    have "find (\<lambda>d. fst d = l) (map ?f (doc_rows r)) = map_option ?f (doc_of r l)"
      unfolding doc_of_def by (rule find_cong_map) simp
    moreover have "map_option ?f (doc_of r l) = (if l = ?l then Some (?l, ?g, ?t) else doc_of r l)"
      using Some doc_of_mem [of r l] by (cases "doc_of r l") auto
    ultimately show ?thesis using Some by (simp add: rows_def doc_of_def)
  qed
  have "docs_ok C (r\<lparr>doc_rows := rows\<rparr>)" if "public_ok C t"
  proof -
    have "distinct (map fst rows)"
    proof (cases "doc_of r ?l")
      case None
      then have "?l \<notin> fst ` set (doc_rows r)" by (auto simp: doc_of_def find_None_iff_all)
      then show ?thesis using assms None by (simp add: rows_def docs_ok_def)
    next
      case (Some d)
      have "map fst (map ?f (doc_rows r)) = map fst (doc_rows r)" by simp
      then show ?thesis using assms Some by (simp add: rows_def docs_ok_def del: map_map)
    qed
    moreover have "d \<in> set (doc_rows r) \<or> d = (?l, ?g, ?t)" if "d \<in> set rows" for d
      using that by (auto simp: rows_def split: if_splits)
    ultimately show ?thesis
      using assms that next_gen_pos [OF assms, of ?l] unfolding docs_ok_def by fastforce
  qed
  then show ?thesis using run look by (auto simp: get_public_tree_def)
qed

section \<open>Merging\<close>

text \<open>
  What a merge is for: the incoming labels are authoritative, everything the sender does not
  mention stays.
\<close>

definition merge_of :: "public_tree \<Rightarrow> public_tree \<Rightarrow> public_tree \<Rightarrow> bool" where
  "merge_of old new t \<longleftrightarrow> (let L = pn_label ` set (pt_nodes new) in
     pt_label t = pt_label new
     \<and> set (pt_nodes t) = set (pt_nodes new) \<union> {n \<in> set (pt_nodes old). pn_label n \<notin> L}
     \<and> set (pt_whitelist t) = set (pt_whitelist new) \<union> {e \<in> set (pt_whitelist old). \<not> (fst e \<in> L \<and> snd e \<in> L)}
     \<and> set (pt_links t) = set (pt_links new) \<union> {e \<in> set (pt_links old). \<not> (fst e \<in> L \<and> snd e \<in> L)})"

lemma set_keep_edges: "set (keep_edges L new old) = set new \<union> {e \<in> set old. \<not> (fst e \<in> L \<and> snd e \<in> L)}"
  unfolding keep_edges_def
proof (induction old arbitrary: new)
  case (Cons e old)
  have ex: "list_ex (\<lambda>k. k = e) new \<longleftrightarrow> e \<in> set new" by (auto simp: list_ex_iff)
  show ?case unfolding fold_simps Cons.IH ex by auto
qed simp

lemma merge_into_Ok:
  assumes "merge_into_existing C old new = Ok t"
  shows "public_ok C t" "merge_of old new t" "pt_generation t = pt_generation old"
  using assms unfolding merge_into_existing_def merge_of_def
  by (auto simp: Let_def and_then_Ok_iff validate_public_decides set_keep_edges)

text \<open>A document that was there moves on by one generation, up to the largest \<open>u32\<close>.\<close>

lemma u32_or_max_succ:
  assumes "0 < g" shows "uint (u32_or_max (saturating_succ g)) = min (uint (u32_or_max g) + 1) (2 ^ 32 - 1)"
proof -
  have small: "uint (u32_or_max g) = (if g < 2 ^ 32 then g else 2 ^ 32 - 1)" if "0 < g" for g
    using that by (simp add: u32_or_max_def word_of_int_inverse unsigned_minus_1_eq_mask mask_eq_exp_minus_1 take_bit_int_eq_self)
  show ?thesis using assms by (simp add: small saturating_succ_def min_def)
qed

definition stored_as :: "crates \<Rightarrow> relay_db \<Rightarrow> public_tree \<Rightarrow> public_tree \<Rightarrow> relay_db \<Rightarrow> bool" where
  "stored_as C r u t r' \<longleftrightarrow> docs_ok C r' \<and> (\<exists>rows. r' = r\<lparr>doc_rows := rows\<rparr>)
     \<and> t = u\<lparr>pt_generation := u32_or_max (next_gen r (pt_label u))\<rparr>
     \<and> get_public_tree (pt_label u) r' = Ok t
     \<and> (\<forall>l. l \<noteq> pt_label u \<longrightarrow> get_public_tree l r' = get_public_tree l r)"

text \<open>A transaction that only writes documents, opened here or already open.\<close>

lemma immediate_docs:
  shows "m (r\<lparr>rl_tx := True\<rparr>) = (Ok a, r\<lparr>rl_tx := True, doc_rows := rows\<rparr>) \<Longrightarrow>
      relay_immediate m r = (Ok a, r\<lparr>doc_rows := rows\<rparr>)"
    and "m (r\<lparr>rl_tx := True\<rparr>) = (Err e, r\<lparr>rl_tx := True\<rparr>) \<Longrightarrow> relay_immediate m r = (Err e, r)"
proof -
  have open_tx: "rl_tx r \<Longrightarrow> r\<lparr>rl_tx := True\<rparr> = r" and close: "\<not> rl_tx r \<Longrightarrow> r\<lparr>doc_rows := rows, rl_tx := False\<rparr> = r\<lparr>doc_rows := rows\<rparr>"
    by (cases r; simp)+
  show "relay_immediate m r = (Ok a, r\<lparr>doc_rows := rows\<rparr>)"
    if "m (r\<lparr>rl_tx := True\<rparr>) = (Ok a, r\<lparr>rl_tx := True, doc_rows := rows\<rparr>)"
    using that open_tx close
    by (cases "rl_tx r") (simp_all add: relay_immediate_def)
  show "relay_immediate m r = (Err e, r)" if "m (r\<lparr>rl_tx := True\<rparr>) = (Err e, r\<lparr>rl_tx := True\<rparr>)"
    using that open_tx by (cases "rl_tx r") (simp_all add: relay_immediate_def relay_rollback_def)
qed

lemma docs_tx [simp]:
  "docs_ok C (r\<lparr>rl_tx := b\<rparr>) = docs_ok C r" "next_gen (r\<lparr>rl_tx := b\<rparr>) l = next_gen r l"
  "get_public_tree l (r\<lparr>rl_tx := b\<rparr>) = get_public_tree l r" "doc_of (r\<lparr>rl_tx := b\<rparr>) l = doc_of r l"
  "docs_ok C (r\<lparr>rl_tx := b, doc_rows := rows\<rparr>) = docs_ok C (r\<lparr>doc_rows := rows\<rparr>)"
  "get_public_tree l (r\<lparr>rl_tx := b, doc_rows := rows\<rparr>) = get_public_tree l (r\<lparr>doc_rows := rows\<rparr>)"
  by (simp_all add: docs_ok_def next_gen_def doc_of_def get_public_tree_def)

lemma persist_tx:
  assumes "docs_ok C r" "public_ok C u"
  obtains t rows where "persist_public_tree u (r\<lparr>rl_tx := True\<rparr>) = (Ok t, r\<lparr>rl_tx := True, doc_rows := rows\<rparr>)"
    "stored_as C r u t (r\<lparr>doc_rows := rows\<rparr>)"
proof -
  have "docs_ok C (r\<lparr>rl_tx := True\<rparr>)" using assms(1) by simp
  from persist_run [OF this, of u] assms(2) obtain rows where
    run: "persist_public_tree u (r\<lparr>rl_tx := True\<rparr>)
        = (Ok (u\<lparr>pt_generation := u32_or_max (next_gen r (pt_label u))\<rparr>), r\<lparr>rl_tx := True, doc_rows := rows\<rparr>)"
    and q: "docs_ok C (r\<lparr>doc_rows := rows\<rparr>)"
      "get_public_tree (pt_label u) (r\<lparr>doc_rows := rows\<rparr>) = Ok (u\<lparr>pt_generation := u32_or_max (next_gen r (pt_label u))\<rparr>)"
      "\<forall>l. l \<noteq> pt_label u \<longrightarrow> get_public_tree l (r\<lparr>doc_rows := rows\<rparr>) = get_public_tree l r"
    by auto
  show thesis by (rule that [OF run]) (use q in \<open>auto simp: stored_as_def\<close>)
qed

lemma put_cases:
  assumes "docs_ok C r" "put_public_tree C snap r = (res, r')"
  shows "case res of Ok t \<Rightarrow> public_ok C snap \<and> stored_as C r snap t r'
    | Err e \<Rightarrow> \<not> public_ok C snap \<and> r' = r"
proof (cases "validate_public_tree C snap")
  case (Inl e)
  then have "\<not> public_ok C snap" by (auto simp: validate_public_decides [symmetric])
  then show ?thesis using assms(2) Inl by (auto simp: put_public_tree_def)
next
  case (Inr u)
  then have ok: "public_ok C snap" by (simp add: validate_public_decides [symmetric])
  obtain t rows where p: "persist_public_tree snap (r\<lparr>rl_tx := True\<rparr>) = (Ok t, r\<lparr>rl_tx := True, doc_rows := rows\<rparr>)"
    "stored_as C r snap t (r\<lparr>doc_rows := rows\<rparr>)" by (rule persist_tx [OF assms(1) ok])
  from immediate_docs(1) [of "persist_public_tree snap", OF p(1)]
  show ?thesis using assms(2) Inr ok p(2) by (auto simp: put_public_tree_def)
qed

lemma merge_cases:
  assumes "docs_ok C r" "merge_public_tree C snap r = (res, r')"
  shows "case res of
      Ok t \<Rightarrow> public_ok C snap \<and> (\<exists>u. stored_as C r u t r' \<and> pt_label u = pt_label snap
        \<and> (case get_public_tree (pt_label snap) r of Ok old \<Rightarrow> merge_of old snap u | Err _ \<Rightarrow> u = snap))
    | Err e \<Rightarrow> r' = r"
proof (cases "validate_public_tree C snap")
  case (Inl e)
  then show ?thesis using assms(2) by (auto simp: merge_public_tree_def)
next
  case (Inr x)
  then have ok: "public_ok C snap" by (simp add: validate_public_decides [symmetric])
  define q where "q = (case get_public_tree (pt_label snap) r of Ok existing \<Rightarrow> merge_into_existing C existing snap
     | Err e \<Rightarrow> if e = TreeNotFound then Ok snap else Err e)"
  let ?body = "bind (asks (\<lambda>r. case get_public_tree (pt_label snap) r of Ok existing \<Rightarrow> merge_into_existing C existing snap
     | Err e \<Rightarrow> if e = TreeNotFound then Ok snap else Err e)) (\<lambda>merged. persist_public_tree merged)"
  have run: "merge_public_tree C snap r = relay_immediate ?body r" using Inr by (simp add: merge_public_tree_def)
  show ?thesis
  proof (cases q)
    case (Inl e)
    then have "?body (r\<lparr>rl_tx := True\<rparr>) = (Err e, r\<lparr>rl_tx := True\<rparr>)" by (simp add: q_def)
    from immediate_docs(2) [of ?body, OF this] show ?thesis using assms(2) run by auto
  next
    case (Inr u)
    have u: "public_ok C u \<and> pt_label u = pt_label snap
        \<and> (case get_public_tree (pt_label snap) r of Ok old \<Rightarrow> merge_of old snap u | Err _ \<Rightarrow> u = snap)"
      using Inr ok merge_into_Ok [of C _ snap u] unfolding q_def
      by (auto simp: merge_of_def Let_def split: sum.splits if_splits)
    obtain t rows where p: "persist_public_tree u (r\<lparr>rl_tx := True\<rparr>) = (Ok t, r\<lparr>rl_tx := True, doc_rows := rows\<rparr>)"
      "stored_as C r u t (r\<lparr>doc_rows := rows\<rparr>)" using persist_tx [OF assms(1), of u] u by blast
    have "?body (r\<lparr>rl_tx := True\<rparr>) = (Ok t, r\<lparr>rl_tx := True, doc_rows := rows\<rparr>)" using Inr p(1) by (simp add: q_def)
    from immediate_docs(1) [of ?body, OF this] show ?thesis using assms(2) run u p(2) ok by auto
  qed
qed

text \<open>
  C19: Merging a published tree into the relay's document never loses what the sender does not
  mention: the result is the incoming nodes and edges, the nodes of the document with other
  labels, and its edges that do not lie between incoming labels, one generation on; it is again a
  proper tree, the other documents are untouched, and a refused merge changes nothing.
\<close>
theorem merge_keeps:
  assumes "docs_ok C r" "merge_public_tree C snap r = (res, r')"
  shows "case res of
      Err e \<Rightarrow> r' = r
    | Ok t \<Rightarrow> docs_ok C r' \<and> get_public_tree (pt_label snap) r' = Ok t
        \<and> (\<forall>l. l \<noteq> pt_label snap \<longrightarrow> get_public_tree l r' = get_public_tree l r)
        \<and> (case get_public_tree (pt_label snap) r of
             Ok old \<Rightarrow> merge_of old snap t \<and> uint (pt_generation t) = min (uint (pt_generation old) + 1) (2 ^ 32 - 1)
           | Err _ \<Rightarrow> t = snap\<lparr>pt_generation := 1\<rparr>)"
proof (cases res)
  case (Inr t)
  obtain u where u: "stored_as C r u t r'" "pt_label u = pt_label snap"
    "case get_public_tree (pt_label snap) r of Ok old \<Rightarrow> merge_of old snap u | Err _ \<Rightarrow> u = snap"
    using merge_cases [OF assms] Inr by auto
  have "case get_public_tree (pt_label snap) r of
      Ok old \<Rightarrow> merge_of old snap t \<and> uint (pt_generation t) = min (uint (pt_generation old) + 1) (2 ^ 32 - 1)
    | Err _ \<Rightarrow> t = snap\<lparr>pt_generation := 1\<rparr>"
  proof (cases "doc_of r (pt_label snap)")
    case None
    then have "get_public_tree (pt_label snap) r = Err TreeNotFound" "next_gen r (pt_label snap) = 1"
      by (simp_all add: get_public_tree_def next_gen_def)
    then show ?thesis using u by (simp add: stored_as_def u32_or_max_def)
  next
    case (Some d)
    obtain g old where d: "d = (pt_label snap, g, old)" "0 < g" "pt_generation old = u32_or_max g"
      "get_public_tree (pt_label snap) r = Ok old"
      by (rule doc_of_label [OF assms(1) Some])
    then have "next_gen r (pt_label snap) = saturating_succ g" using Some by (simp add: next_gen_def)
    then show ?thesis using u d u32_or_max_succ [OF d(2)] by (simp add: stored_as_def merge_of_def)
  qed
  moreover have "docs_ok C r'" "get_public_tree (pt_label snap) r' = Ok t"
    "\<forall>l. l \<noteq> pt_label snap \<longrightarrow> get_public_tree l r' = get_public_tree l r"
    using u(1,2) by (simp_all add: stored_as_def)
  ultimately show ?thesis using Inr by simp
qed (use merge_cases [OF assms] in simp)

definition demo_dept :: "string \<Rightarrow> string option \<Rightarrow> public_node" where
  "demo_dept l p = \<lparr> pn_label = l, pn_parent = p, pn_threshold = Some 2, pn_active = True, pn_fp = None, pn_pk = None \<rparr>"

definition demo_leaf :: "string \<Rightarrow> string \<Rightarrow> string \<Rightarrow> public_node" where
  "demo_leaf l p fp = \<lparr> pn_label = l, pn_parent = Some p, pn_threshold = None, pn_active = True,
     pn_fp = Some fp, pn_pk = Some (demo_hash 7) \<rparr>"

definition demo_doc :: public_tree where
  "demo_doc = \<lparr> pt_label = ''org'', pt_generation = 1,
     pt_nodes = [demo_dept ''M'' None, demo_dept ''A'' (Some ''M''), demo_leaf ''s'' ''A'' ''f'', demo_leaf ''t'' ''A'' ''g''],
     pt_whitelist = [(''A'', ''t'')], pt_links = [(''t'', ''A'')] \<rparr>"

definition demo_update :: public_tree where
  "demo_update = \<lparr> pt_label = ''org'', pt_generation = 9,
     pt_nodes = [demo_dept ''M'' None, demo_dept ''B'' (Some ''M'')], pt_whitelist = [(''M'', ''B'')], pt_links = [] \<rparr>"

definition demo_docs :: relay_db where
  "demo_docs = empty_relay\<lparr>doc_rows := [(''org'', 1, demo_doc)]\<rparr>"

lemma demo_valid: "public_ok toy demo_doc" "public_ok toy demo_update"
  unfolding validate_public_decides [symmetric] by code_simp+

lemma demo_docs_ok: "docs_ok toy demo_docs"
  using demo_valid by (simp add: docs_ok_def demo_docs_def demo_doc_def u32_or_max_def)

theorem merge_keeps_witness:
  "\<exists>t r'. merge_public_tree toy demo_update demo_docs = (Ok t, r') \<and> merge_of demo_doc demo_update t
     \<and> pt_generation t = 2 \<and> docs_ok toy r'"
proof -
  have "is_ok (fst (merge_public_tree toy demo_update demo_docs))" by code_simp
  then obtain t r' where run: "merge_public_tree toy demo_update demo_docs = (Ok t, r')"
    by (cases "merge_public_tree toy demo_update demo_docs") (auto simp: is_ok_iff)
  have "get_public_tree ''org'' demo_docs = Ok demo_doc" by (simp add: demo_docs_def get_public_tree_def doc_of_def)
  moreover have "pt_label demo_update = ''org''" "pt_generation demo_doc = 1" by (simp_all add: demo_update_def demo_doc_def)
  ultimately have "merge_of demo_doc demo_update t" "uint (pt_generation t) = 2" "docs_ok toy r'"
    using merge_keeps [OF demo_docs_ok run] by simp_all
  moreover from this(2) have "pt_generation t = 2" by (metis word_of_int_numeral word_of_int_uint)
  ultimately show ?thesis using run by blast
qed

section \<open>A slice is a tree of its own\<close>

lemma closed_up_iff: "closed_up P V \<longleftrightarrow> (\<forall>x \<in> V. \<forall>p. (x, p) \<in> up P \<longrightarrow> p \<in> V)"
proof
  assume "\<forall>x \<in> V. \<forall>p. (x, p) \<in> up P \<longrightarrow> p \<in> V"
  then show "closed_up P V" using up_closed [of _ _ P V] unfolding closed_up_def by blast
qed (auto simp: closed_up_def)

lemma descend_closed:
  assumes "down C = (up P)\<inverse>" "set stack \<subseteq> V" "closed_up P V"
  shows "closed_up P (descend C stack V)"
  using assms
proof (induction C stack V rule: descend.induct)
  case (2 C l stack V)
  show ?case
  proof (cases "map_of C l")
    case (Some cs)
    obtain v st where push: "push_children cs V stack = (v, st)" by (cases "push_children cs V stack")
    note p = push_children_spec [OF push]
    have l: "(c, l) \<in> up P" if "c \<in> set cs" for c
      using that Some 2(3) by (force simp: down_def)
    have "closed_up P v"
      unfolding closed_up_iff
    proof (intro ballI allI impI)
      fix x q assume x: "x \<in> v" "(x, q) \<in> up P"
      show "q \<in> v"
      proof (cases "x \<in> V")
        case True
        then show ?thesis using x 2(5) p unfolding closed_up_iff by blast
      next
        case False
        then have "q = l" using x p l [of x] by (auto simp: up_def)
        then show ?thesis using 2(4) p by auto
      qed
    qed
    moreover have "set st \<subseteq> v" using p 2(4) by auto
    ultimately show ?thesis using 2(2) [OF Some push [symmetric] refl] 2(3) Some push by simp
  qed (use 2 in simp)
qed simp

lemma see_seed_closed:
  assumes "down C = (up P)\<inverse>" "closed_up P V"
  shows "closed_up P (see_seed P C seed V)" "V \<subseteq> see_seed P C seed V"
    "map_of P seed \<noteq> None \<Longrightarrow> seed \<in> see_seed P C seed V"
proof -
  let ?V1 = "V \<union> (up P)\<^sup>* `` {seed}"
  let ?V2 = "add_descendants C seed ?V1"
  have "closed_up P ?V1" using assms(2) unfolding closed_up_def by (auto intro: rtrancl_trans)
  then have V2: "closed_up P ?V2" unfolding add_descendants_def by (intro descend_closed assms(1)) auto
  have sub: "?V1 \<subseteq> ?V2" unfolding add_descendants_def using descend_spec [of ?V1 C "[seed]"] by blast
  have sib: "closed_up P (?V2 \<union> set cs)" if "map_of P seed = Some (Some p)" "map_of C p = Some cs" for p cs
  proof -
    have "(c, p) \<in> up P" if "c \<in> set cs" for c using that \<open>map_of C p = Some cs\<close> assms(1) by (force simp: down_def)
    moreover have "p \<in> ?V2" using that(1) sub by (auto simp: up_def)
    ultimately show ?thesis using V2 unfolding closed_up_iff by (auto simp: up_def)
  qed
  show "closed_up P (see_seed P C seed V)"
    using V2 sib assms(2) by (auto simp: see_seed_def walk_ancestors_eq Let_def split: option.split)
  show "V \<subseteq> see_seed P C seed V" "map_of P seed \<noteq> None \<Longrightarrow> seed \<in> see_seed P C seed V"
    using sub by (auto simp: see_seed_def walk_ancestors_eq Let_def split: option.split)
qed

lemma seeds_closed:
  assumes "down C = (up P)\<inverse>" "closed_up P V"
  shows "closed_up P (fold (see_seed P C) seeds V) \<and> V \<subseteq> fold (see_seed P C) seeds V
    \<and> (\<forall>s \<in> set seeds. map_of P s \<noteq> None \<longrightarrow> s \<in> fold (see_seed P C) seeds V)"
  using assms(2)
proof (induction seeds arbitrary: V)
  case (Cons s seeds)
  note one = see_seed_closed [OF assms(1) Cons.prems, of s]
  show ?case using Cons.IH [OF one(1)] one(2,3) by (auto simp del: not_None_eq)
qed simp

lemma visible_closed:
  assumes d: "distinct (map pn_label (pt_nodes full))"
  defines "V seeds \<equiv> visible_labels_in_public_tree full seeds"
  shows "(x, p) \<in> public_rel (pt_nodes full) \<Longrightarrow> x \<in> V seeds \<Longrightarrow> p \<in> V seeds"
    and "s \<in> set seeds \<Longrightarrow> s \<in> pn_label ` set (pt_nodes full) \<Longrightarrow> s \<in> V seeds"
proof -
  let ?ns = "map (\<lambda>n. (pn_label n, pn_parent n)) (pt_nodes full)"
  obtain P C where ix: "index_nodes ?ns [] [] = (P, C)" by (cases "index_nodes ?ns [] []")
  have dl: "distinct (map fst ?ns)" using d by (simp add: comp_def)
  note i = indexed [OF dl ix]
  let ?S = "fold (see_seed P C) seeds {}"
  have V: "V seeds = grow_links P (pt_links full) ?S"
    using ix by (simp add: V_def visible_labels_in_public_tree_def visible_from_maps_def)
  have S: "closed_up P ?S" "\<forall>s \<in> set seeds. map_of P s \<noteq> None \<longrightarrow> s \<in> ?S"
    using seeds_closed [of C P "{}" seeds] i(2,3) by (simp_all add: closed_up_def)
  have G: "?S \<subseteq> V seeds" "closed_up P (V seeds)"
    unfolding V using grow_links_inv [of ?S P "pt_links full" ?S, OF _ order_refl S(1)] by (auto intro: own)
  show "p \<in> V seeds" if "(x, p) \<in> public_rel (pt_nodes full)" "x \<in> V seeds"
    using that G(2) i(2) unfolding closed_up_iff public_rel_def by blast
  show "s \<in> V seeds" if "s \<in> set seeds" "s \<in> pn_label ` set (pt_nodes full)"
  proof -
    have "map_of P s \<noteq> None" using that(2) i(1) by (auto simp: map_of_eq_None_iff image_iff)
    then show ?thesis using S(2) G(1) that(1) by blast
  qed
qed

lemma slice_public_ok:
  assumes ok: "public_ok C full" and seed: "n \<in> set (pt_nodes full)" "pn_label n \<in> V"
    and closed: "\<And>x p. (x, p) \<in> public_rel (pt_nodes full) \<Longrightarrow> x \<in> V \<Longrightarrow> p \<in> V"
  shows "public_ok C (filter_public_tree full V)" "parents_listed (pt_nodes (filter_public_tree full V))"
proof -
  let ?ns = "pt_nodes full" and ?ms = "filter (\<lambda>n. pn_label n \<in> V) (pt_nodes full)"
  obtain root where root: "root \<in> set ?ns" "pn_parent root = None"
    and reach: "\<And>m. m \<in> set ?ns \<Longrightarrow> (pn_label m, pn_label root) \<in> (public_rel ?ns)\<^sup>*"
    using ok unfolding public_ok_def by blast
  have d: "distinct (map pn_label ?ns)" using ok by (simp add: public_ok_def)
  have path: "y \<in> V \<and> (x, y) \<in> (public_rel ?ms)\<^sup>*" if "(x, y) \<in> (public_rel ?ns)\<^sup>*" "x \<in> V" for x y
    using that
  proof (induction rule: rtrancl_induct)
    case (step y z)
    then have "(y, z) \<in> public_rel ?ms" by (auto simp: public_rel_mem)
    then show ?case using step closed by (meson rtrancl_into_rtrancl)
  qed simp
  have "pn_label root \<in> V" using path [OF reach [OF seed(1)] seed(2)] by blast
  then have "\<exists>root \<in> set ?ms. pn_parent root = None \<and> (\<forall>m \<in> set ?ms. (pn_label m, pn_label root) \<in> (public_rel ?ms)\<^sup>*)"
    using root path reach by (intro bexI [of _ root]) auto
  moreover have "distinct (map pn_label ?ms)" using d by (rule distinct_map_filter)
  moreover have fs: "pn_label ` set (pt_nodes (filter_public_tree full V)) = pn_label ` set ?ns \<inter> V"
    "pt_whitelist (filter_public_tree full V) = filter (\<lambda>(a, b). a \<in> V \<and> b \<in> V) (pt_whitelist full)"
    "pt_links (filter_public_tree full V) = filter (\<lambda>(a, b). a \<in> V \<and> b \<in> V) (pt_links full)"
    by (auto simp: filter_public_tree_def)
  have "edges_ok full" using ok by (simp add: public_ok_def)
  then have "edges_ok (filter_public_tree full V)"
    unfolding edges_ok_def fs by auto
  ultimately show "public_ok C (filter_public_tree full V)"
    using ok unfolding public_ok_def by (simp add: filter_public_tree_def)
  show "parents_listed (pt_nodes (filter_public_tree full V))"
    unfolding parents_listed_def filter_public_tree_def
  proof (clarsimp)
    fix m p assume m: "m \<in> set ?ns" "pn_label m \<in> V" "pn_parent m = Some p"
    then have "p \<in> V" using closed [of "pn_label m" p] by (auto simp: public_rel_mem)
    moreover have "p \<in> pn_label ` set ?ns" using rooted(2) [OF d root reach m(1,3)] .
    ultimately show "p \<in> pn_label ` {x \<in> set ?ns. pn_label x \<in> V}" by auto
  qed
qed

lemma slice_cases:
  assumes "slice_for_fingerprint full fp = Some part"
  obtains n V where "n \<in> set (pt_nodes full)" "pn_fp n = Some fp" "part = filter_public_tree full V"
    "V = visible_labels_in_public_tree full (map pn_label (filter (\<lambda>n. pn_fp n = Some fp) (pt_nodes full)))"
proof -
  let ?seeds = "filter (\<lambda>n. pn_fp n = Some fp) (pt_nodes full)"
  have "?seeds \<noteq> []" using assms by (auto simp: slice_for_fingerprint_def Let_def split: if_splits)
  then have "hd ?seeds \<in> set ?seeds" by (rule hd_in_set)
  then show thesis using assms by (intro that [of "hd ?seeds"]) (auto simp: slice_for_fingerprint_def Let_def split: if_splits)
qed

text \<open>
  What one more seed adds: at most its own view, and all of it when it has no children, whatever
  is visible already.
\<close>

lemma see_seed_range:
  assumes "distinct (map fst ns)" "index_nodes ns [] [] = (P, C)" "seed \<in> fst ` set ns"
  shows "see_seed P C seed V \<subseteq> V \<union> own_view (parent_rel ns) seed"
    and "(\<forall>x. (x, seed) \<notin> parent_rel ns) \<Longrightarrow> see_seed P C seed V = V \<union> own_view (parent_rel ns) seed"
proof -
  let ?R = "parent_rel ns" and ?V = "V \<union> (parent_rel ns)\<^sup>* `` {seed}"
  note ix = indexed [OF assms(1,2)]
  obtain parent where parent: "map_of ns seed = Some parent"
    using assms(3) by (cases "map_of ns seed") (auto simp: map_of_eq_None_iff)
  have par: "(seed, p) \<in> ?R \<longleftrightarrow> parent = Some p" for p
    using parent map_of_eq_Some_iff [OF assms(1), of seed "Some p"] by (simp add: parent_rel_def)
  have "{x. (x, p) \<in> ?R} = down C `` {p}" for p using ix(3) by auto
  then have sib: "{x. (x, p) \<in> ?R} = (case map_of C p of None \<Rightarrow> {} | Some cs \<Rightarrow> set cs)" for p
    by (auto simp: down_def split: option.splits)
  have dn: "(down C)\<^sup>+ `` {seed} = {x. (x, seed) \<in> ?R\<^sup>+}" by (auto simp: ix(3) trancl_converse)
  have see: "see_seed P C seed V = add_descendants C seed ?V \<union> {x. \<exists>p. (seed, p) \<in> ?R \<and> (x, p) \<in> ?R}"
    using parent ix(1) sib by (auto simp: see_seed_def walk_ancestors_eq ix(2) Let_def par split: option.splits)
  have "add_descendants C seed ?V \<subseteq> ?V \<union> {x. (x, seed) \<in> ?R\<^sup>+}"
    using descend_spec [of ?V C "[seed]"] dn unfolding add_descendants_def by auto
  then show "see_seed P C seed V \<subseteq> V \<union> own_view ?R seed" unfolding see own_view_def by blast
  assume "\<forall>x. (x, seed) \<notin> ?R"
  then have none: "{x. (x, seed) \<in> ?R\<^sup>+} = {}" by (auto dest: tranclD2)
  then have "add_descendants C seed ?V = ?V" using add_descendants_eq [of C seed ?V] dn by simp
  then show "see_seed P C seed V = V \<union> own_view ?R seed" unfolding see own_view_def using none by blast
qed

lemma seeds_range:
  assumes "distinct (map fst ns)" "index_nodes ns [] [] = (P, C)" "set seeds \<subseteq> fst ` set ns"
  shows "fold (see_seed P C) seeds V \<subseteq> V \<union> \<Union> (own_view (parent_rel ns) ` set seeds)"
    and "(\<forall>s \<in> set seeds. \<forall>x. (x, s) \<notin> parent_rel ns) \<Longrightarrow>
      fold (see_seed P C) seeds V = V \<union> \<Union> (own_view (parent_rel ns) ` set seeds)"
proof -
  show "fold (see_seed P C) seeds V \<subseteq> V \<union> \<Union> (own_view (parent_rel ns) ` set seeds)"
    using assms(3)
  proof (induction seeds arbitrary: V)
    case (Cons seed seeds)
    then have "seed \<in> fst ` set ns" by simp
    from see_seed_range(1) [OF assms(1,2) this, of V]
    show ?case using Cons.IH [of "see_seed P C seed V"] Cons.prems by fastforce
  qed simp
  show "(\<forall>s \<in> set seeds. \<forall>x. (x, s) \<notin> parent_rel ns) \<Longrightarrow>
      fold (see_seed P C) seeds V = V \<union> \<Union> (own_view (parent_rel ns) ` set seeds)"
    using assms(3)
  proof (induction seeds arbitrary: V)
    case (Cons seed seeds)
    then have "seed \<in> fst ` set ns" "\<forall>x. (x, seed) \<notin> parent_rel ns" by simp_all
    from see_seed_range(2) [OF assms(1,2) this, of V]
    have one: "see_seed P C seed V = V \<union> own_view (parent_rel ns) seed" .
    have "\<forall>s \<in> set seeds. \<forall>x. (x, s) \<notin> parent_rel ns" "set seeds \<subseteq> fst ` set ns" using Cons.prems by simp_all
    from Cons.IH [OF this, of "see_seed P C seed V"] show ?case by (simp add: one Un_assoc)
  qed simp
qed

lemma sees_mono: "x \<in> sees R links own \<Longrightarrow> own \<subseteq> own' \<Longrightarrow> x \<in> sees R links own'"
  by (induction rule: sees.induct) (auto intro: sees.intros)

lemma visible_seeds:
  assumes d: "distinct (map pn_label (pt_nodes full))" and seeds: "set seeds \<subseteq> pn_label ` set (pt_nodes full)"
  defines "R \<equiv> public_rel (pt_nodes full)"
  defines "all \<equiv> sees R (set (pt_links full)) (\<Union> (own_view R ` set seeds))"
  shows "visible_labels_in_public_tree full seeds \<subseteq> all"
    and "(\<forall>s \<in> set seeds. \<forall>x. (x, s) \<notin> R) \<Longrightarrow> visible_labels_in_public_tree full seeds = all"
proof -
  let ?ns = "map (\<lambda>n. (pn_label n, pn_parent n)) (pt_nodes full)"
  obtain P C where ix: "index_nodes ?ns [] [] = (P, C)" by (cases "index_nodes ?ns [] []")
  have dl: "distinct (map fst ?ns)" using d by (simp add: comp_def)
  note i = indexed [OF dl ix]
  let ?S = "fold (see_seed P C) seeds {}"
  have V: "visible_labels_in_public_tree full seeds = grow_links P (pt_links full) ?S"
    using ix by (simp add: visible_labels_in_public_tree_def visible_from_maps_def)
  have "closed_up P ?S" using seeds_closed [of C P "{}" seeds] i(2,3) by (simp add: closed_up_def)
  then have G: "visible_labels_in_public_tree full seeds = sees R (set (pt_links full)) ?S"
    unfolding V R_def public_rel_def i(2) [symmetric] by (rule grow_links_eq)
  have "set seeds \<subseteq> fst ` set ?ns" using seeds by (simp add: image_image)
  note r = seeds_range [OF dl ix this, of "{}", folded public_rel_def R_def]
  show "visible_labels_in_public_tree full seeds \<subseteq> all"
    unfolding G all_def using r(1) sees_mono by (metis subsetI sup_bot_left)
  show "visible_labels_in_public_tree full seeds = all" if "\<forall>s \<in> set seeds. \<forall>x. (x, s) \<notin> R"
    unfolding G all_def using r(2) [OF that] by simp
qed

text \<open>
  C32: A fingerprint's context is refused with the error of the lookup when there is no such tree,
  and with \<open>NodeNotFound\<close> when no node of it is bound to the fingerprint. Otherwise it is the
  stored tree under its label and generation, cut to the nodes of a set \<open>V\<close> of labels, with the
  whitelist entries and links inside \<open>V\<close>. \<open>V\<close> has every node bound to the fingerprint and
  nothing that the rule of visibility (\<open>sees\<close>) does not show to one of them; when the bound
  nodes have no children, as leaves, it is all that the rule shows. What is handed out is again a
  proper tree that has the parents of its nodes.
\<close>
theorem slice_projects:
  assumes "docs_ok C r"
  shows "case get_public_tree label r of
      Err e \<Rightarrow> context_for_fingerprint label fp r = Err e
    | Ok full \<Rightarrow>
        (let own = pn_label ` {n \<in> set (pt_nodes full). pn_fp n = Some fp};
             R = public_rel (pt_nodes full);
             all = sees R (set (pt_links full)) (\<Union> (own_view R ` own)) in
         if own = {} then context_for_fingerprint label fp r = Err NodeNotFound
         else \<exists>V part. context_for_fingerprint label fp r = Ok part
           \<and> part = \<lparr> pt_label = label, pt_generation = pt_generation full,
               pt_nodes = filter (\<lambda>n. pn_label n \<in> V) (pt_nodes full),
               pt_whitelist = filter (\<lambda>(a, b). a \<in> V \<and> b \<in> V) (pt_whitelist full),
               pt_links = filter (\<lambda>(a, b). a \<in> V \<and> b \<in> V) (pt_links full) \<rparr>
           \<and> own \<subseteq> V \<and> V \<subseteq> all \<and> ((\<forall>l \<in> own. \<forall>x. (x, l) \<notin> R) \<longrightarrow> V = all)
           \<and> public_ok C part \<and> parents_listed (pt_nodes part))"
proof (cases "get_public_tree label r")
  case (Inl e)
  then show ?thesis by (simp add: context_for_fingerprint_def)
next
  case (Inr full)
  obtain g where doc: "(label, g, full) \<in> set (doc_rows r)"
    using Inr by (auto simp: get_public_tree_def and_then_Ok_iff dest!: doc_of_mem)
  have ok: "public_ok C full" and label: "pt_label full = label"
    using docs_okD(2,4) [OF assms doc] by auto
  have d: "distinct (map pn_label (pt_nodes full))" using ok by (simp add: public_ok_def)
  let ?seeds = "map pn_label (filter (\<lambda>n. pn_fp n = Some fp) (pt_nodes full))"
  let ?V = "visible_labels_in_public_tree full ?seeds" and ?R = "public_rel (pt_nodes full)"
  let ?own = "pn_label ` {n \<in> set (pt_nodes full). pn_fp n = Some fp}"
  have own: "set ?seeds = ?own" by auto
  have sub: "set ?seeds \<subseteq> pn_label ` set (pt_nodes full)" by auto
  note v = visible_seeds [OF d sub, unfolded own]
  show ?thesis
  proof (cases "?own = {}")
    case True
    then have "?seeds = []" using own by (simp only: set_empty)
    then show ?thesis using Inr True by (simp add: context_for_fingerprint_def slice_for_fingerprint_def Let_def)
  next
    case False
    then obtain n where n: "n \<in> set (pt_nodes full)" "pn_fp n = Some fp" by blast
    have "?seeds \<noteq> []" using False own by (metis set_empty)
    then have ctx: "context_for_fingerprint label fp r = Ok (filter_public_tree full ?V)"
      using Inr by (simp add: context_for_fingerprint_def slice_for_fingerprint_def Let_def)
    have vis: "?own \<subseteq> ?V" using visible_closed(2) [OF d, of _ ?seeds] sub own by blast
    have "public_ok C (filter_public_tree full ?V)" "parents_listed (pt_nodes (filter_public_tree full ?V))"
      by (rule slice_public_ok [OF ok n(1)]; use visible_closed(1) [OF d] vis n in blast)+
    moreover have "filter_public_tree full ?V = \<lparr> pt_label = label, pt_generation = pt_generation full,
               pt_nodes = filter (\<lambda>n. pn_label n \<in> ?V) (pt_nodes full),
               pt_whitelist = filter (\<lambda>(a, b). a \<in> ?V \<and> b \<in> ?V) (pt_whitelist full),
               pt_links = filter (\<lambda>(a, b). a \<in> ?V \<and> b \<in> ?V) (pt_links full) \<rparr>"
      using label by (simp add: filter_public_tree_def)
    ultimately have "\<exists>V part. context_for_fingerprint label fp r = Ok part
           \<and> part = \<lparr> pt_label = label, pt_generation = pt_generation full,
               pt_nodes = filter (\<lambda>n. pn_label n \<in> V) (pt_nodes full),
               pt_whitelist = filter (\<lambda>(a, b). a \<in> V \<and> b \<in> V) (pt_whitelist full),
               pt_links = filter (\<lambda>(a, b). a \<in> V \<and> b \<in> V) (pt_links full) \<rparr>
           \<and> ?own \<subseteq> V \<and> V \<subseteq> sees ?R (set (pt_links full)) (\<Union> (own_view ?R ` ?own))
           \<and> ((\<forall>l \<in> ?own. \<forall>x. (x, l) \<notin> ?R) \<longrightarrow> V = sees ?R (set (pt_links full)) (\<Union> (own_view ?R ` ?own)))
           \<and> public_ok C part \<and> parents_listed (pt_nodes part)"
      using ctx vis v by blast
    then show ?thesis unfolding Inr sum.case Let_def if_not_P [OF False] .
  qed
qed

text \<open>Two departments with a leaf each: the leaf of one sees nothing of the other.\<close>

definition demo_two :: public_tree where
  "demo_two = \<lparr> pt_label = ''org'', pt_generation = 1,
     pt_nodes = [demo_dept ''M'' None, demo_dept ''A'' (Some ''M''), demo_leaf ''s'' ''A'' ''f'',
       demo_dept ''B'' (Some ''M''), demo_leaf ''t'' ''B'' ''g''],
     pt_whitelist = [(''s'', ''A''), (''t'', ''s'')], pt_links = [] \<rparr>"

definition demo_two_docs :: relay_db where
  "demo_two_docs = empty_relay\<lparr>doc_rows := [(''org'', 1, demo_two)]\<rparr>"

lemma demo_two_ok: "docs_ok toy demo_two_docs"
proof -
  have "validate_public_tree toy demo_two = Ok ()" by code_simp
  then have "public_ok toy demo_two" by (simp add: validate_public_decides)
  then show ?thesis by (simp add: docs_ok_def demo_two_docs_def demo_two_def u32_or_max_def)
qed

theorem slice_projects_witness:
  "\<exists>part. context_for_fingerprint ''org'' ''f'' demo_two_docs = Ok part
     \<and> map pn_label (pt_nodes part) = [''M'', ''A'', ''s''] \<and> pt_whitelist part = [(''s'', ''A'')] \<and> public_ok toy part"
proof -
  have get: "get_public_tree ''org'' demo_two_docs = Ok demo_two"
    by (simp add: get_public_tree_def doc_of_def demo_two_docs_def)
  have own: "pn_label ` {n \<in> set (pt_nodes demo_two). pn_fp n = Some ''f''} = {''s''}"
    by (force simp: demo_two_def demo_dept_def demo_leaf_def)
  from slice_projects [OF demo_two_ok, of "''org''" "''f''"] get own
  obtain part where part: "context_for_fingerprint ''org'' ''f'' demo_two_docs = Ok part" "public_ok toy part"
    by (auto simp: Let_def)
  have "context_for_fingerprint ''org'' ''f'' demo_two_docs = Ok (demo_two\<lparr>
      pt_nodes := [demo_dept ''M'' None, demo_dept ''A'' (Some ''M''), demo_leaf ''s'' ''A'' ''f''], pt_whitelist := [(''s'', ''A'')]\<rparr>)"
    by code_simp
  then show ?thesis using part by (simp add: demo_dept_def demo_leaf_def demo_two_def)
qed

end
