(* ===== verification/RelayInbox.thy ===== *)
theory RelayInbox
  imports RelayKeys Keys BridgeCodec
begin

text \<open>
  The mailbox of the relay (\<open>src/relay/mailbox.rs\<close>): an envelope is filed under the fingerprint of
  the public key in its outer header, once per content, and read in pages by id. The payload is
  never opened.
\<close>

section \<open>Filing an envelope\<close>

record stored_envelope =
  se_id :: int
  se_fp :: string
  se_bytes :: bytes

record mailbox_page =
  mp_envelopes :: "stored_envelope list"
  mp_next :: "int option"

definition DEFAULT_INBOX_PAGE :: int where "DEFAULT_INBOX_PAGE = 100"
definition MAX_INBOX_PAGE :: int where "MAX_INBOX_PAGE = 500"

definition mail_by_hash :: "'d relay \<Rightarrow> string \<Rightarrow> string \<Rightarrow> mail_row option" where
  "mail_by_hash r fp h = find (\<lambda>m. ml_fp m = fp \<and> ml_hash m = h) (mail_rows r)"

text \<open>The row id of the inserted row, or nothing when the \<open>UNIQUE\<close> pair is there already.\<close>

definition insert_mail :: "(int \<Rightarrow> mail_row) \<Rightarrow> ('d relay, int) op" where
  "insert_mail mk = (\<lambda>r. insert_row
     (\<lambda>r. let m = mk (next_rowid (map ml_id (mail_rows r))) in mail_by_hash r (ml_fp m) (ml_hash m) = None)
     (\<lambda>r. map ml_id (mail_rows r))
     (\<lambda>i r. r\<lparr>mail_rows := mail_rows r @ [mk i]\<rparr>) r)"

definition insert_or_ignore :: "(int \<Rightarrow> mail_row) \<Rightarrow> ('d relay, int option) op" where
  "insert_or_ignore mk = (\<lambda>r. case insert_mail mk r of
       (Ok i, r') \<Rightarrow> (Ok (Some i), r')
     | (Err _, r') \<Rightarrow> (Ok None, r'))"

definition store_envelope :: "crates \<Rightarrow> bytes \<Rightarrow> ('d relay, int \<times> string \<times> bool) op" where
  "store_envelope C envelope =
     bind (lift_result (routing_public_key envelope)) (\<lambda>pk.
     let fp = fingerprint C pk; h = hex_encode C (sha256 C envelope) in
     bind (insert_or_ignore (\<lambda>i. \<lparr> ml_id = i, ml_fp = fp, ml_envelope = envelope, ml_hash = h \<rparr>)) (\<lambda>new.
     case new of
       Some i \<Rightarrow> ret (i, fp, False)
     | None \<Rightarrow> asks (\<lambda>r. and_then (query_row (mail_by_hash r fp h)) (\<lambda>m. Ok (ml_id m, fp, True)))))"

section \<open>Reading a page\<close>

definition page_size :: "int option \<Rightarrow> int result" where
  "page_size limit =
     (case limit of None \<Rightarrow> Ok DEFAULT_INBOX_PAGE
      | Some n \<Rightarrow> if 1 \<le> n \<and> n \<le> MAX_INBOX_PAGE then Ok n else Err InvalidInboxPage)"

definition mail_envelope :: "mail_row \<Rightarrow> stored_envelope" where
  "mail_envelope m = \<lparr> se_id = ml_id m, se_fp = ml_fp m, se_bytes = ml_envelope m \<rparr>"

text \<open>\<open>WHERE ... ORDER BY id ASC LIMIT\<close>: one row more than the page shows whether another follows.\<close>

definition list_after :: "string \<Rightarrow> int option \<Rightarrow> int option \<Rightarrow> 'd relay \<Rightarrow> mailbox_page result" where
  "list_after fp after limit r =
     and_then (page_size limit) (\<lambda>page.
     let after = (case after of None \<Rightarrow> 0 | Some a \<Rightarrow> a);
         fetch = page + 1;
         rows = take (nat fetch) (sort_key ml_id (filter (\<lambda>m. ml_fp m = fp \<and> after < ml_id m) (mail_rows r)));
         envelopes = map mail_envelope rows in
     if nat page < length envelopes
     then (let envelopes = butlast envelopes in
           Ok \<lparr> mp_envelopes = envelopes,
                mp_next = (if envelopes = [] then None else Some (se_id (last envelopes))) \<rparr>)
     else Ok \<lparr> mp_envelopes = envelopes, mp_next = None \<rparr>)"

section \<open>The invariant\<close>

definition mail_ok :: "'d relay \<Rightarrow> bool" where
  "mail_ok r \<longleftrightarrow> sorted_wrt (<) (map ml_id (mail_rows r)) \<and> (\<forall>m \<in> set (mail_rows r). 0 < ml_id m)
     \<and> distinct (map (\<lambda>m. (ml_fp m, ml_hash m)) (mail_rows r))"

interpretation mail_table: rowid_table mail_rows ml_id insert_mail
  by unfold_locales (auto simp: insert_mail_def insert_row_def Let_def split: if_splits)

lemma mail_ids_ok: "mail_ok r \<Longrightarrow> mail_table.ids_ok r"
  by (simp add: mail_ok_def mail_table.ids_ok_def)

lemma mail_by_hash_None: "mail_by_hash r fp h = None \<longleftrightarrow> (fp, h) \<notin> set (map (\<lambda>m. (ml_fp m, ml_hash m)) (mail_rows r))"
  by (auto simp: mail_by_hash_def find_None_iff_all)

text \<open>What filing does: it appends a row, or finds the one with the same content.\<close>

lemma store_envelope_run:
  fixes C :: crates
  assumes pk: "routing_public_key envelope = Ok pk"
  defines "fp \<equiv> fingerprint C pk" and "h \<equiv> hex_encode C (sha256 C envelope)"
  shows "store_envelope C envelope r =
    (case mail_by_hash r fp h of
       Some m \<Rightarrow> (Ok (ml_id m, fp, True), r)
     | None \<Rightarrow> let i = next_rowid (map ml_id (mail_rows r)) in
         (Ok (i, fp, False),
          r\<lparr>mail_rows := mail_rows r @ [\<lparr> ml_id = i, ml_fp = fp, ml_envelope = envelope, ml_hash = h \<rparr>]\<rparr>))"
  using pk unfolding fp_def h_def
  by (simp add: store_envelope_def insert_or_ignore_def insert_mail_def insert_row_def Let_def bind_run split: option.split)

lemma store_envelope_bad: "routing_public_key envelope = Err e \<Longrightarrow> store_envelope C envelope r = (Err e, r)"
  by (simp add: store_envelope_def)

lemma store_envelope_frame:
  assumes "store_envelope C envelope r = (res, r')"
  shows "\<exists>new. r' = r\<lparr>mail_rows := mail_rows r @ new\<rparr>"
proof -
  have same: ?thesis if "r' = r" unfolding that by (rule exI [of _ "[]"]) simp
  show ?thesis
  proof (cases "routing_public_key envelope")
    case (Inl e)
    then show ?thesis using assms same by (simp add: store_envelope_bad)
  next
    case (Inr pk)
    note run = assms [unfolded store_envelope_run [OF Inr]]
    show ?thesis
    proof (cases "mail_by_hash r (fingerprint C pk) (hex_encode C (sha256 C envelope))")
      case None
      then have "r' = r\<lparr>mail_rows := mail_rows r @ [\<lparr> ml_id = next_rowid (map ml_id (mail_rows r)),
          ml_fp = fingerprint C pk, ml_envelope = envelope, ml_hash = hex_encode C (sha256 C envelope) \<rparr>]\<rparr>"
        using run by (simp add: Let_def)
      then show ?thesis by blast
    next
      case (Some m)
      then show ?thesis using run same by simp
    qed
  qed
qed

lemma store_mail_ok:
  assumes "mail_ok r" "store_envelope C envelope r = (res, r')"
  shows "mail_ok r' \<and> (\<exists>new. mail_rows r' = mail_rows r @ new)"
proof (cases "routing_public_key envelope")
  case (Inl e)
  then show ?thesis using assms by (auto simp: store_envelope_bad)
next
  case (Inr pk)
  let ?i = "next_rowid (map ml_id (mail_rows r))"
  have lt: "\<forall>m \<in> set (mail_rows r). ml_id m < ?i" using next_rowid_greater by force
  show ?thesis
  proof (cases "mail_by_hash r (fingerprint C pk) (hex_encode C (sha256 C envelope))")
    case (Some m)
    then show ?thesis using assms Inr by (auto simp: store_envelope_run)
  next
    case None
    then have r': "r' = r\<lparr>mail_rows := mail_rows r @ [\<lparr> ml_id = ?i, ml_fp = fingerprint C pk, ml_envelope = envelope,
        ml_hash = hex_encode C (sha256 C envelope) \<rparr>]\<rparr>"
      using assms(2) Inr by (simp add: store_envelope_run Let_def)
    show ?thesis using assms(1) None lt next_rowid_pos [of "map ml_id (mail_rows r)"]
      unfolding r' mail_by_hash_None by (auto simp: mail_ok_def sorted_wrt_append)
  qed
qed

text \<open>The recorded hash is the envelope's.\<close>

definition mail_hashed :: "crates \<Rightarrow> 'd relay \<Rightarrow> bool" where
  "mail_hashed C r \<longleftrightarrow> (\<forall>m \<in> set (mail_rows r). ml_hash m = hex_encode C (sha256 C (ml_envelope m)))"

lemma store_envelope_Ok:
  assumes "store_envelope C envelope r = (Ok (i, fp, dup), r')"
  obtains m pk where "routing_public_key envelope = Ok pk" "fp = fingerprint C pk" "m \<in> set (mail_rows r')"
    "ml_id m = i" "ml_fp m = fp" "ml_hash m = hex_encode C (sha256 C envelope)"
    "\<not> dup \<Longrightarrow> ml_envelope m = envelope" "mail_hashed C r \<Longrightarrow> mail_hashed C r'"
proof (cases "routing_public_key envelope")
  case (Inl e)
  then show thesis using assms by (simp add: store_envelope_bad)
next
  case (Inr pk)
  note run = assms [unfolded store_envelope_run [OF Inr]]
  show thesis
  proof (cases "mail_by_hash r (fingerprint C pk) (hex_encode C (sha256 C envelope))")
    case None
    then show thesis using run Inr
      by (intro that [of pk "\<lparr> ml_id = i, ml_fp = fp, ml_envelope = envelope, ml_hash = hex_encode C (sha256 C envelope) \<rparr>"])
        (auto simp: Let_def mail_hashed_def)
  next
    case (Some m)
    then have "m \<in> set (mail_rows r) \<and> ml_fp m = fingerprint C pk \<and> ml_hash m = hex_encode C (sha256 C envelope)"
      using find_SomeD [OF Some [unfolded mail_by_hash_def]] by simp
    then show thesis using run Inr Some by (intro that [of pk m]) auto
  qed
qed

section \<open>Reading everything\<close>

text \<open>What is waiting for a fingerprint after a cursor, in the order of the ids.\<close>

definition mail_after :: "string \<Rightarrow> int \<Rightarrow> 'd relay \<Rightarrow> mail_row list" where
  "mail_after fp after r = filter (\<lambda>m. ml_fp m = fp \<and> after < ml_id m) (mail_rows r)"

text \<open>
  A client that passes each page's \<open>next_after\<close> on, one request per state of the relay: what it
  has read, and the cursor it would use next while there is more.
\<close>

fun follow :: "string \<Rightarrow> int option \<Rightarrow> int option \<Rightarrow> 'd relay list \<Rightarrow> stored_envelope list \<times> int option" where
  "follow fp limit after [] = ([], after)"
| "follow fp limit after (r # rs) =
     (case list_after fp after limit r of
        Err e \<Rightarrow> ([], after)
      | Ok page \<Rightarrow>
          (case mp_next page of
             None \<Rightarrow> (mp_envelopes page, None)
           | Some c \<Rightarrow> let (rest, cursor) = follow fp limit (Some c) rs in (mp_envelopes page @ rest, cursor)))"

lemma page_size_pos: "page_size limit = Ok p \<Longrightarrow> 1 \<le> p \<and> p \<le> 500"
  by (auto simp: page_size_def DEFAULT_INBOX_PAGE_def MAX_INBOX_PAGE_def split: option.splits if_splits)

lemma sort_key_sorted: "sorted_wrt (<) (map (f :: 'a \<Rightarrow> int) xs) \<Longrightarrow> sort_key f (filter P xs) = filter P xs"
proof (rule sort_key_id_if_sorted)
  assume "sorted_wrt (<) (map f xs)"
  then have "sorted (map f xs)" by (rule strict_sorted_imp_sorted)
  then show "sorted (map f (filter P xs))" by (rule sorted_filter)
qed

lemma list_after_run:
  fixes fp :: string and after :: "int option"
  assumes "mail_ok r" "page_size limit = Ok p"
  defines "M \<equiv> mail_after fp (case after of None \<Rightarrow> 0 | Some a \<Rightarrow> a) r"
  shows "list_after fp after limit r = Ok
    \<lparr> mp_envelopes = map mail_envelope (take (nat p) M),
      mp_next = (if nat p < length M then Some (ml_id (M ! (nat p - 1))) else None) \<rparr>"
proof -
  let ?a = "case after of None \<Rightarrow> 0 | Some a \<Rightarrow> a"
  have p: "1 \<le> p" using page_size_pos [OF assms(2)] by simp
  have rows: "sort_key ml_id (filter (\<lambda>m. ml_fp m = fp \<and> ?a < ml_id m) (mail_rows r)) = M"
    unfolding M_def mail_after_def by (rule sort_key_sorted) (use assms(1) in \<open>simp add: mail_ok_def\<close>)
  have len: "length (filter (\<lambda>m. ml_fp m = fp \<and> ?a < ml_id m) (mail_rows r)) = length M"
    by (simp add: M_def mail_after_def)
  have fetch: "nat (p + 1) = Suc (nat p)" using p by (simp add: nat_add_distrib)
  show ?thesis
  proof (cases "nat p < length M")
    case True
    then have ne: "take (nat p) M \<noteq> []" using p by auto
    then have last: "last (take (nat p) M) = M ! (nat p - 1)"
      using p True by (subst last_conv_nth) auto
    have "butlast (take (Suc (nat p)) M) = take (nat p) M" using True by (simp add: butlast_take)
    then show ?thesis
      using True last ne assms(2) p
      by (simp add: list_after_def Let_def rows fetch len map_butlast [symmetric] last_map mail_envelope_def del: take_eq_Nil)
  next
    case False
    then show ?thesis using assms(2) p by (simp add: list_after_def Let_def rows fetch len)
  qed
qed

text \<open>Going on from the last id of a page leaves what the page did not have.\<close>

lemma mail_after_next:
  assumes "mail_ok r" "n < length (mail_after fp a r)"
  shows "mail_after fp (ml_id (mail_after fp a r ! n)) r = drop (Suc n) (mail_after fp a r)"
proof -
  let ?M = "mail_after fp a r" and ?c = "ml_id (mail_after fp a r ! n)"
  have sorted: "sorted_wrt (\<lambda>x y. ml_id x < ml_id y) ?M"
    using assms(1) unfolding mail_after_def mail_ok_def sorted_wrt_map by (simp add: sorted_wrt_filter)
  have "?M ! n \<in> set ?M" using assms(2) by simp
  then have "a < ?c" by (auto simp: mail_after_def)
  then have "mail_after fp ?c r = filter (\<lambda>m. ?c < ml_id m) ?M"
    unfolding mail_after_def filter_filter by (intro filter_cong refl) auto
  also have "\<dots> = filter (\<lambda>m. ?c < ml_id m) (take (Suc n) ?M) @ filter (\<lambda>m. ?c < ml_id m) (drop (Suc n) ?M)"
    by (metis append_take_drop_id filter_append)
  also have "filter (\<lambda>m. ?c < ml_id m) (take (Suc n) ?M) = []"
    using sorted assms(2) by (auto simp: filter_empty_conv in_set_conv_nth sorted_wrt_iff_nth_less less_Suc_eq)
       (metis order.asym)
  also have "filter (\<lambda>m. ?c < ml_id m) (drop (Suc n) ?M) = drop (Suc n) ?M"
    using sorted assms(2) by (auto simp: filter_id_conv in_set_conv_nth sorted_wrt_iff_nth_less)
  finally show ?thesis by simp
qed

definition mail_grows :: "'d relay \<Rightarrow> 'd relay \<Rightarrow> bool" where
  "mail_grows r r' \<longleftrightarrow> (\<exists>new. mail_rows r' = mail_rows r @ new)"

lemma mail_after_grows:
  assumes "mail_grows r r'" "mail_ok r'" "n < length (mail_after fp a r)"
  shows "mail_after fp (ml_id (mail_after fp a r ! n)) r' = drop (Suc n) (mail_after fp a r')"
    and "take (Suc n) (mail_after fp a r') = take (Suc n) (mail_after fp a r)"
proof -
  obtain new where new: "mail_after fp a r' = mail_after fp a r @ new"
    using assms(1) unfolding mail_grows_def mail_after_def by auto
  then have "n < length (mail_after fp a r')" "mail_after fp a r ! n = mail_after fp a r' ! n"
    using assms(3) by (simp_all add: nth_append)
  then show "mail_after fp (ml_id (mail_after fp a r ! n)) r' = drop (Suc n) (mail_after fp a r')"
    using mail_after_next [OF assms(2)] by simp
  show "take (Suc n) (mail_after fp a r') = take (Suc n) (mail_after fp a r)" using new assms(3) by simp
qed

lemma follow_spec:
  assumes "page_size limit = Ok p" "\<forall>r \<in> set rs. mail_ok r" "sorted_wrt mail_grows rs" "rs \<noteq> []"
    and "follow fp limit after rs = (envs, cur)"
  shows "case cur of
      None \<Rightarrow> \<exists>k < length rs. envs = map mail_envelope (mail_after fp (case after of None \<Rightarrow> 0 | Some a \<Rightarrow> a) (rs ! k))
    | Some c \<Rightarrow> (let M = mail_after fp (case after of None \<Rightarrow> 0 | Some a \<Rightarrow> a) (last rs) in
        envs = map mail_envelope (take (length rs * nat p) M) \<and> length rs * nat p < length M)"
  using assms(2-5)
proof (induction rs arbitrary: after envs cur)
  case (Cons r rs)
  let ?a = "case after of None \<Rightarrow> 0 | Some a \<Rightarrow> a"
  let ?M = "mail_after fp ?a r"
  obtain q where q: "nat p = Suc q" using page_size_pos [OF assms(1)] by (cases "nat p") auto
  have run: "list_after fp after limit r = Ok \<lparr> mp_envelopes = map mail_envelope (take (Suc q) ?M),
      mp_next = (if Suc q < length ?M then Some (ml_id (?M ! q)) else None) \<rparr>"
    using list_after_run [OF _ assms(1), of r fp after] Cons.prems(1) q by simp
  show ?case
  proof (cases "Suc q < length ?M")
    case False
    then show ?thesis using Cons.prems(4) run by (auto intro!: exI [of _ 0])
  next
    case True
    let ?c = "ml_id (?M ! q)"
    obtain rest cursor where f: "follow fp limit (Some ?c) rs = (rest, cursor)" by (cases "follow fp limit (Some ?c) rs")
    then have res: "envs = map mail_envelope (take (Suc q) ?M) @ rest" "cur = cursor"
      using Cons.prems(4) run True by auto
    have later: "mail_after fp ?c r' = drop (Suc q) (mail_after fp ?a r')" "take (Suc q) (mail_after fp ?a r') = take (Suc q) ?M"
      if "r' \<in> set rs" for r'
      using mail_after_grows [of r r' q fp ?a] that True Cons.prems(1,2) by auto
    have join: "map mail_envelope (take (Suc q) ?M) @ map mail_envelope (drop (Suc q) (mail_after fp ?a r'))
        = map mail_envelope (mail_after fp ?a r')" if "r' \<in> set rs" for r'
      using later(2) [OF that] by (metis append_take_drop_id map_append)
    show ?thesis
    proof (cases "rs = []")
      case True
      then show ?thesis using f res q \<open>Suc q < length ?M\<close> by (auto simp: Let_def)
    next
      case False
      note IH = Cons.IH [OF _ _ False f]
      show ?thesis
      proof (cases cursor)
        case None
        then obtain k where "k < length rs" "rest = map mail_envelope (mail_after fp ?c (rs ! k))"
          using IH Cons.prems(1,2) by auto
        then show ?thesis using res None later(1) [of "rs ! k"] join [of "rs ! k"] by (auto intro!: exI [of _ "Suc k"])
      next
        case (Some c)
        let ?L = "mail_after fp ?a (last rs)"
        have "rest = map mail_envelope (take (length rs * Suc q) (drop (Suc q) ?L)) \<and> length rs * Suc q < length (drop (Suc q) ?L)"
          using IH Cons.prems(1,2) Some later(1) [of "last rs"] False q by (simp add: Let_def)
        moreover have "take (Suc q) ?L @ take (length rs * Suc q) (drop (Suc q) ?L) = take (Suc q + length rs * Suc q) ?L"
          by (simp only: take_add)
        ultimately show ?thesis
          using res Some later(2) [of "last rs"] False q by (auto simp: Let_def add.left_commute simp flip: map_append)
      qed
    qed
  qed
qed simp

text \<open>
  C10: A client that keeps asking for the next page, while new mail may arrive between its requests,
  never misses or repeats an envelope: what it has read is always an initial part, in order, of the
  mail for its fingerprint, of full pages as long as there is more; it is told to stop only when it
  has everything that was there, and it is told so as soon as it has made enough requests for the
  mail there is.
\<close>
theorem inbox_delivers:
  assumes "page_size limit = Ok p" "\<forall>r \<in> set rs. mail_ok r" "sorted_wrt mail_grows rs" "rs \<noteq> []"
    and "follow fp limit None rs = (envs, cur)"
  shows "(case cur of
      None \<Rightarrow> \<exists>k < length rs. envs = map mail_envelope (mail_after fp 0 (rs ! k))
    | Some c \<Rightarrow> envs = map mail_envelope (take (length rs * nat p) (mail_after fp 0 (last rs)))
        \<and> length envs = length rs * nat p)
    \<and> (length (mail_after fp 0 (last rs)) \<le> length rs * nat p \<longrightarrow> cur = None)"
  using follow_spec [OF assms] by (auto simp: Let_def split: option.splits)

text \<open>Three envelopes for one fingerprint and one for another, read two at a time.\<close>

definition demo_mail :: "int \<Rightarrow> string \<Rightarrow> mail_row" where
  "demo_mail i fp = \<lparr> ml_id = i, ml_fp = fp, ml_envelope = [word_of_int i], ml_hash = demo_hash (word_of_int i) \<rparr>"

definition demo_inbox :: "mail_row list \<Rightarrow> unit relay" where
  "demo_inbox extra = empty_relay\<lparr>mail_rows := [demo_mail 1 ''f'', demo_mail 2 ''g'', demo_mail 3 ''f''] @ extra\<rparr>"

theorem inbox_delivers_witness:
  "\<exists>envs. follow ''f'' (Some 1) None [demo_inbox [], demo_inbox [demo_mail 4 ''f''], demo_inbox [demo_mail 4 ''f'']] = (envs, None)
     \<and> map se_id envs = [1, 3, 4]"
proof -
  let ?q = "demo_inbox [demo_mail 4 ''f'']"
  let ?rs = "[demo_inbox [], ?q, ?q]"
  obtain envs cur where run: "follow ''f'' (Some 1) None ?rs = (envs, cur)" by (cases "follow ''f'' (Some 1) None ?rs")
  have p: "page_size (Some 1) = Ok 1" by (simp add: page_size_def MAX_INBOX_PAGE_def)
  have ok: "\<forall>r \<in> set ?rs. mail_ok r"
    by (simp add: mail_ok_def demo_inbox_def empty_relay_def demo_mail_def demo_hash_inj)
  have grows: "sorted_wrt mail_grows ?rs" by (simp add: mail_grows_def demo_inbox_def)
  have "length (mail_after ''f'' 0 (last ?rs)) \<le> length ?rs * nat 1"
    by (simp add: mail_after_def demo_inbox_def demo_mail_def)
  then have cur: "cur = None" using inbox_delivers [OF p ok grows _ run] by simp
  have page: "list_after ''f'' a (Some 1) r = Ok
    \<lparr> mp_envelopes = map mail_envelope (take (nat 1) (mail_after ''f'' (case a of None \<Rightarrow> 0 | Some b \<Rightarrow> b) r)),
      mp_next = (if nat 1 < length (mail_after ''f'' (case a of None \<Rightarrow> 0 | Some b \<Rightarrow> b) r)
        then Some (ml_id (mail_after ''f'' (case a of None \<Rightarrow> 0 | Some b \<Rightarrow> b) r ! (nat 1 - 1))) else None) \<rparr>"
    if "r \<in> set ?rs" for a r
    by (rule list_after_run [OF _ p]) (use ok that in blast)
  have "list_after ''f'' None (Some 1) (demo_inbox []) = Ok \<lparr> mp_envelopes = [mail_envelope (demo_mail 1 ''f'')], mp_next = Some 1 \<rparr>"
    "list_after ''f'' (Some 1) (Some 1) ?q = Ok \<lparr> mp_envelopes = [mail_envelope (demo_mail 3 ''f'')], mp_next = Some 3 \<rparr>"
    "list_after ''f'' (Some 3) (Some 1) ?q = Ok \<lparr> mp_envelopes = [mail_envelope (demo_mail 4 ''f'')], mp_next = None \<rparr>"
    by (subst page; simp add: mail_after_def demo_inbox_def demo_mail_def)+
  note pages = this
  have "follow ''f'' (Some 1) None ?rs = ([mail_envelope (demo_mail 1 ''f'')] @ [mail_envelope (demo_mail 3 ''f'')]
      @ [mail_envelope (demo_mail 4 ''f'')], None)"
    by (simp only: follow.simps pages sum.case mailbox_page.select_convs option.case Let_def prod.case)
  then have "envs = [mail_envelope (demo_mail 1 ''f''), mail_envelope (demo_mail 3 ''f''), mail_envelope (demo_mail 4 ''f'')]"
    unfolding run by (simp only: prod.inject append.simps)
  then have "map se_id envs = [1, 3, 4]" by (simp add: mail_envelope_def demo_mail_def)
  then show ?thesis using run cur by (intro exI [of _ envs] conjI) (simp only:)+
qed

end
