(* ===== verification/RelayServer.thy ===== *)
theory RelayServer
  imports RelayTrees RelayInbox
begin

text \<open>
  The HTTP handlers of the relay (\<open>src/relay/server.rs\<close>) and the minting commands of its host
  (\<open>src/bin/keyquorum/host.rs\<close>). A request is what axum's extractors hand to a handler; the
  response is a status and a body. One mutex guards the connection, so requests are handled one
  after the other.
\<close>

section \<open>Requests and responses\<close>

text \<open>
  The crates the handlers call: \<open>HeaderValue::to_str\<close>, \<open>serde_json\<close> on an \<open>InboxPush\<close> body,
  standard base64, and the messages \<open>thiserror\<close> generates.
\<close>

record web =
  header_str :: "bytes \<Rightarrow> string option"
  push_json :: "bytes \<Rightarrow> (string \<times> public_tree list) option"
  b64_encode :: "bytes \<Rightarrow> string"
  error_text :: "error \<Rightarrow> string"

text \<open>Header names are in lower case; \<open>get\<close> gives the first value.\<close>

type_synonym headers = "(string \<times> bytes) list"

record inbox_envelope =
  ie_id :: int
  ie_fp :: string
  ie_bytes :: string

record inbox_list =
  il_envelopes :: "inbox_envelope list"
  il_trees :: "public_tree list"
  il_next :: "int option"

datatype request =
    GetHealth
  | PostKeycheck "string option" "string option"
  | PostInbox headers bytes
  | GetInbox headers "int option" "int option"
  | GetKeys headers
  | PostRevoke headers int
  | PutTree headers public_tree
  | GetContext headers string

datatype body =
    HealthBody
  | CheckBody key_check
  | AcceptedBody int string
  | InboxBody inbox_list
  | KeysBody "api_key_info list"
  | TreeBody public_tree
  | NoBody
  | ErrorBody string

section \<open>Errors\<close>

type_synonym api_error = "nat \<times> string"

definition unauthorized :: api_error where "unauthorized = (401, ''unauthorized'')"

definition internal :: api_error where "internal = (500, ''internal error'')"

definition api_error_of :: "web \<Rightarrow> error \<Rightarrow> api_error" where
  "api_error_of W e =
     (if e = InvalidApiKey \<or> e = ApiKeyExpired \<or> e = ApiKeyRevoked then unauthorized
      else if e = ApiKeyScopeDenied then (403, ''forbidden'')
      else if e \<in> {InvalidApiKeyRequest, InvalidInboxPage, InvalidBridgePackage, InvalidPublicKey,
                   InvalidTreeSpec, DuplicateNodeLabel, InvalidBridge} then (400, error_text W e)
      else if e \<in> {ApiKeyNotFound, TreeNotFound, NodeNotFound} then (404, error_text W e)
      else if e = BundleFieldTooLarge then (413, error_text W e)
      else internal)"

type_synonym 'a handler = "relay_db \<Rightarrow> (api_error + 'a) \<times> relay_db"

definition with_conn :: "web \<Rightarrow> (relay_db, 'a) op \<Rightarrow> 'a handler" where
  "with_conn W f = (\<lambda>r. case f r of
       (Ok a, r') \<Rightarrow> (Inr a, r')
     | (Err e, r') \<Rightarrow> (Inl (api_error_of W e), r'))"

definition and_reply :: "'a handler \<Rightarrow> ('a \<Rightarrow> 'b) \<Rightarrow> 'b handler" where
  "and_reply m f = (\<lambda>r. case m r of (Inl e, r') \<Rightarrow> (Inl e, r') | (Inr a, r') \<Rightarrow> (Inr (f a), r'))"

section \<open>Extracting\<close>

definition header :: "string \<Rightarrow> headers \<Rightarrow> bytes option" where
  "header name hs = map_option snd (find (\<lambda>h. fst h = name) hs)"

definition token_from_headers :: "web \<Rightarrow> headers \<Rightarrow> api_error + string" where
  "token_from_headers W hs =
     (let key = (case header ''x-api-key'' hs of
            None \<Rightarrow> Inl unauthorized
          | Some v \<Rightarrow> (case header_str W v of
                None \<Rightarrow> Inl unauthorized
              | Some s \<Rightarrow> if s \<noteq> [] then Inr s else Inl unauthorized))
      in case header ''authorization'' hs of
           None \<Rightarrow> key
         | Some v \<Rightarrow> (case header_str W v of
               None \<Rightarrow> Inl unauthorized
             | Some s \<Rightarrow> (case strip_prefix ''Bearer '' s of
                   Some token \<Rightarrow> if token \<noteq> [] then Inr token else key
                 | None \<Rightarrow> key)))"

text \<open>\<open>value.split(';').next()\<close>, trimmed, compared without case.\<close>

definition is_json :: "web \<Rightarrow> headers \<Rightarrow> bool" where
  "is_json W hs =
     (case Option.bind (header ''content-type'' hs) (header_str W) of
        None \<Rightarrow> False
      | Some v \<Rightarrow> to_ascii_lowercase (trim (takeWhile (\<lambda>c. c \<noteq> CHR '';'') v)) = ''application/json'')"

definition parse_inbox_body :: "web \<Rightarrow> crates \<Rightarrow> headers \<Rightarrow> bytes \<Rightarrow> (bytes \<times> public_tree list) result" where
  "parse_inbox_body W C hs data =
     (if \<not> is_json W hs then Ok (data, [])
      else and_then (ok_or InvalidBridgePackage (push_json W data)) (\<lambda>(text, trees).
           and_then (ok_or InvalidBridgePackage (b64_decode C text)) (\<lambda>envelope. Ok (envelope, trees))))"

section \<open>The handlers\<close>

definition MAX_ENVELOPE_BYTES :: nat where "MAX_ENVELOPE_BYTES = 1024 * 1024"

definition some_text :: "string option \<Rightarrow> string option" where
  "some_text x = (if x = Some [] then None else x)"

definition post_keycheck :: "web \<Rightarrow> crates \<Rightarrow> string option \<Rightarrow> string option \<Rightarrow> key_check handler" where
  "post_keycheck W C token key_hash =
     (case (some_text token, some_text key_hash) of
        (Some t, None) \<Rightarrow> with_conn W (asks (\<lambda>r. Ok (check_token C t r)))
      | (None, Some h) \<Rightarrow> with_conn W (asks (\<lambda>r. Ok (check_hash h r)))
      | _ \<Rightarrow> (\<lambda>r. (Inl (api_error_of W InvalidApiKeyRequest), r)))"

definition push_body :: "crates \<Rightarrow> bytes \<Rightarrow> public_tree list \<Rightarrow> (relay_db, int \<times> string \<times> bool) op" where
  "push_body C envelope trees =
     bind (for_each (\<lambda>t. bind (merge_public_tree C t) (\<lambda>_. ret ())) trees) (\<lambda>_. store_envelope C envelope)"

definition post_inbox :: "web \<Rightarrow> crates \<Rightarrow> string \<Rightarrow> headers \<Rightarrow> bytes \<Rightarrow> (nat \<times> int \<times> string) handler" where
  "post_inbox W C token hs data =
     (case parse_inbox_body W C hs data of
        Err e \<Rightarrow> (\<lambda>r. (Inl (api_error_of W e), r))
      | Ok (envelope, trees) \<Rightarrow>
          if MAX_ENVELOPE_BYTES < length envelope then (\<lambda>r. (Inl (api_error_of W BundleFieldTooLarge), r))
          else and_reply
            (with_conn W (bind (authenticate C token InboxPush) (\<lambda>_. relay_immediate (push_body C envelope trees))))
            (\<lambda>(i, fp, duplicate). (if duplicate then 200 else 201, i, fp)))"

definition get_inbox :: "web \<Rightarrow> crates \<Rightarrow> string \<Rightarrow> int option \<Rightarrow> int option \<Rightarrow> inbox_list handler" where
  "get_inbox W C token after limit =
     and_reply
       (with_conn W (
          bind (authenticate C token InboxPull) (\<lambda>auth.
          bind (lift_result (ok_or ApiKeyScopeDenied (au_fp auth))) (\<lambda>fp.
          bind (asks (list_after fp after limit)) (\<lambda>page.
          bind (asks (\<lambda>r. Ok (slices_for_fingerprint fp r))) (\<lambda>trees. ret (page, trees)))))))
       (\<lambda>(page, trees). \<lparr> il_envelopes = map (\<lambda>e. \<lparr> ie_id = se_id e, ie_fp = se_fp e, ie_bytes = b64_encode W (se_bytes e) \<rparr>)
            (mp_envelopes page), il_trees = trees, il_next = mp_next page \<rparr>)"

definition list_keys_handler :: "web \<Rightarrow> crates \<Rightarrow> string \<Rightarrow> api_key_info list handler" where
  "list_keys_handler W C token =
     with_conn W (bind (authenticate C token Admin) (\<lambda>_. asks (\<lambda>r. Ok (list_api_keys r))))"

definition revoke_key_handler :: "web \<Rightarrow> crates \<Rightarrow> string \<Rightarrow> int \<Rightarrow> unit handler" where
  "revoke_key_handler W C token i =
     with_conn W (bind (authenticate C token Admin) (\<lambda>_. revoke_api_key i))"

definition put_tree :: "web \<Rightarrow> crates \<Rightarrow> string \<Rightarrow> public_tree \<Rightarrow> public_tree handler" where
  "put_tree W C token t =
     with_conn W (bind (authenticate C token Admin) (\<lambda>_. put_public_tree C t))"

definition get_tree_context :: "web \<Rightarrow> crates \<Rightarrow> string \<Rightarrow> string \<Rightarrow> public_tree handler" where
  "get_tree_context W C token label =
     with_conn W (
       bind (authenticate C token InboxPull) (\<lambda>auth.
       bind (lift_result (ok_or ApiKeyScopeDenied (au_fp auth))) (\<lambda>fp.
       asks (context_for_fingerprint label fp))))"

section \<open>The router\<close>

text \<open>The extractor of the bearer runs before the handler; a result becomes a status and a body.\<close>

definition with_token :: "web \<Rightarrow> headers \<Rightarrow> (string \<Rightarrow> (nat \<times> body) handler) \<Rightarrow> (nat \<times> body) handler" where
  "with_token W hs f =
     (case token_from_headers W hs of Inl e \<Rightarrow> (\<lambda>r. (Inl e, r)) | Inr token \<Rightarrow> f token)"

fun route :: "web \<Rightarrow> crates \<Rightarrow> request \<Rightarrow> (nat \<times> body) handler" where
  "route W C GetHealth = (\<lambda>r. (Inr (200, HealthBody), r))"
| "route W C (PostKeycheck token h) = and_reply (post_keycheck W C token h) (\<lambda>c. (200, CheckBody c))"
| "route W C (PostInbox hs data) =
     with_token W hs (\<lambda>token. and_reply (post_inbox W C token hs data) (\<lambda>(status, i, fp). (status, AcceptedBody i fp)))"
| "route W C (GetInbox hs after limit) =
     with_token W hs (\<lambda>token. and_reply (get_inbox W C token after limit) (\<lambda>l. (200, InboxBody l)))"
| "route W C (GetKeys hs) =
     with_token W hs (\<lambda>token. and_reply (list_keys_handler W C token) (\<lambda>ks. (200, KeysBody ks)))"
| "route W C (PostRevoke hs i) =
     with_token W hs (\<lambda>token. and_reply (revoke_key_handler W C token i) (\<lambda>_. (204, NoBody)))"
| "route W C (PutTree hs t) =
     with_token W hs (\<lambda>token. and_reply (put_tree W C token t) (\<lambda>t. (200, TreeBody t)))"
| "route W C (GetContext hs label) =
     with_token W hs (\<lambda>token. and_reply (get_tree_context W C token label) (\<lambda>t. (200, TreeBody t)))"

definition handle :: "web \<Rightarrow> crates \<Rightarrow> request \<Rightarrow> relay_db \<Rightarrow> (nat \<times> body) \<times> relay_db" where
  "handle W C req r = (case route W C req r of
       (Inl (status, message), r') \<Rightarrow> ((status, ErrorBody message), r')
     | (Inr reply, r') \<Rightarrow> (reply, r'))"

section \<open>Minting on the host\<close>

text \<open>
  \<open>explicit\<close> is the option of the command, \<open>env\<close> the environment variable and \<open>typed\<close> what the
  prompt reads; the bearer of a first issuer is printed.
\<close>

datatype keys_command =
    KeysCreate string "string option" "string option" "int option" "string option"
  | KeysList
  | KeysRevoke int
  | KeysRotate int "string option"

definition licensee_secret :: "string option \<Rightarrow> string result \<Rightarrow> string option \<Rightarrow> string result" where
  "licensee_secret env typed explicit =
     (case some_text explicit of
        Some key \<Rightarrow> Ok key
      | None \<Rightarrow> (case some_text env of Some key \<Rightarrow> Ok key | None \<Rightarrow> typed))"

definition require_licensee :: "crates \<Rightarrow> string option \<Rightarrow> string result \<Rightarrow> string option \<Rightarrow> (relay_db, unit) op" where
  "require_licensee C env typed explicit =
     bind (lift_result (licensee_secret env typed explicit)) (\<lambda>key. asks (authenticate_licensee C key))"

definition authorize_mint :: "crates \<Rightarrow> string option \<Rightarrow> string result \<Rightarrow> string option \<Rightarrow> (relay_db, unit) op" where
  "authorize_mint C env typed explicit =
     (let supplied = (case some_text explicit of Some key \<Rightarrow> Some key | None \<Rightarrow> some_text env) in
      bind (authorize_licensee_or_bootstrap C supplied) (\<lambda>issuer.
        if issuer \<noteq> None then ret ()
        else if supplied = None then require_licensee C env typed None
        else ret ()))"

fun run_keys :: "crates \<Rightarrow> string option \<Rightarrow> string result \<Rightarrow> keys_command \<Rightarrow> (relay_db, unit) op" where
  "run_keys C env typed (KeysCreate scope fp label ttl key) =
     bind (authorize_mint C env typed key) (\<lambda>_.
     bind (lift_result (parse_scope scope)) (\<lambda>sc.
     bind (create_api_key C \<lparr> nk_scope = sc, nk_fp = fp, nk_label = label, nk_ttl = ttl \<rparr>) (\<lambda>_. ret ())))"
| "run_keys C env typed KeysList = ret ()"
| "run_keys C env typed (KeysRevoke i) = revoke_api_key i"
| "run_keys C env typed (KeysRotate i key) =
     bind (authorize_mint C env typed key) (\<lambda>_. bind (rotate_api_key C i) (\<lambda>_. ret ()))"

section \<open>What a request may change\<close>

definition server_ok :: "crates \<Rightarrow> relay_db \<Rightarrow> bool" where
  "server_ok C r \<longleftrightarrow> api_keys_ok r \<and> mail_ok r \<and> mail_hashed C r \<and> docs_ok C r \<and> \<not> rl_tx r"

text \<open>The bearer is the one of a live key with this scope.\<close>

definition granted :: "crates \<Rightarrow> string \<Rightarrow> api_key_scope \<Rightarrow> relay_db \<Rightarrow> bool" where
  "granted C token sc r \<longleftrightarrow> (\<exists>h k. hash_bearer C token = Ok h \<and> api_by_hash r h = Some k
     \<and> a_revoked k = None \<and> unexpired r k \<and> a_scope k = scope_str sc)"

text \<open>The keys are the same up to the time of their last use.\<close>

definition only_used :: "relay_db \<Rightarrow> relay_db \<Rightarrow> bool" where
  "only_used r r' \<longleftrightarrow> api_keys_ok r' \<and> list_all2 same_key (api_rows r) (api_rows r')
     \<and> map a_revoked (api_rows r') = map a_revoked (api_rows r)
     \<and> (\<exists>rows d. r' = r\<lparr>api_rows := rows, rl_draws := d\<rparr>)"

lemma only_usedD:
  assumes "only_used r r'"
  shows "api_keys_ok r'" "list_all2 same_key (api_rows r) (api_rows r')" "map a_revoked (api_rows r') = map a_revoked (api_rows r)"
    "mail_rows r' = mail_rows r" "doc_rows r' = doc_rows r" "issuer r' = issuer r" "rl_tx r' = rl_tx r" "rl_clock r' = rl_clock r"
  using assms unfolding only_used_def by auto

lemma only_used_refl: "api_keys_ok r \<Longrightarrow> only_used r r"
  unfolding only_used_def by (intro conjI exI [of _ "api_rows r"] exI [of _ "rl_draws r"]) (auto simp: list.rel_refl)

lemma only_used_server_ok: "only_used r r' \<Longrightarrow> server_ok C r \<Longrightarrow> server_ok C r'"
  using only_usedD [of r r'] by (simp add: server_ok_def mail_ok_def mail_hashed_def docs_ok_def)

lemma authenticate_cases:
  assumes "api_keys_ok r" "authenticate C token sc r = (res, r1)"
  shows "only_used r r1"
    and "res = Ok a \<Longrightarrow> granted C token sc r \<and> (\<exists>h k. hash_bearer C token = Ok h \<and> api_by_hash r h = Some k \<and> au_fp a = a_fp k)"
    and "res = Err e \<Longrightarrow> e \<in> {InvalidApiKey, ApiKeyRevoked, ApiKeyExpired, ApiKeyScopeDenied} \<and> r1 = r"
proof -
  have used: "only_used r (stamped h r)" for h
  proof -
    have "api_keys_ok (stamped h r)" unfolding stamped_def by (subst api_update) (simp_all add: assms(1))
    moreover have "r\<lparr>api_rows := rows, rl_draws := rl_draws r\<rparr> = r\<lparr>api_rows := rows\<rparr>" for rows by (cases r) simp
    ultimately show ?thesis
      unfolding only_used_def stamped_def
      by (auto simp: list_all2_conv_all_nth comp_def intro!: exI [of _ "rl_draws r"])
  qed
  note run = authenticate_run [OF assms(1)] and bad = authenticate_bad
  have refuse: "auth_refusal r s k \<in> {InvalidApiKey, ApiKeyRevoked, ApiKeyExpired, ApiKeyScopeDenied}" for s k
    by (simp add: auth_refusal_def)
  have both: "only_used r r1 \<and> (res = Ok a \<longrightarrow> granted C token sc r
      \<and> (\<exists>h k. hash_bearer C token = Ok h \<and> api_by_hash r h = Some k \<and> au_fp a = a_fp k))"
  proof (cases "hash_bearer C token")
    case (Inl x)
    then show ?thesis using assms(2) only_used_refl [OF assms(1)] by (auto simp: bad [OF Inl])
  next
    case (Inr h)
    then show ?thesis using assms(2) run [OF Inr] used only_used_refl [OF assms(1)]
      unfolding granted_def by (auto split: option.splits if_splits)
  qed
  then show "only_used r r1" by blast
  show "granted C token sc r \<and> (\<exists>h k. hash_bearer C token = Ok h \<and> api_by_hash r h = Some k \<and> au_fp a = a_fp k)"
    if "res = Ok a" using both that by blast
  show "e \<in> {InvalidApiKey, ApiKeyRevoked, ApiKeyExpired, ApiKeyScopeDenied} \<and> r1 = r" if "res = Err e"
  proof (cases "hash_bearer C token")
    case (Inl x)
    then have "x = InvalidApiKey"
      using hash_prefixed_error [of C token TOKEN_PREFIX] by (simp add: hash_bearer_def only_fails_def)
    then show ?thesis using assms(2) that by (auto simp: bad [OF Inl])
  next
    case (Inr h)
    then show ?thesis using assms(2) that run [OF Inr] refuse by (auto split: option.splits if_splits)
  qed
qed

text \<open>Merging the pushed trees and filing the envelope, inside the transaction of the handler.\<close>

lemma merges_frame:
  assumes "docs_ok C r" "for_each (\<lambda>t. bind (merge_public_tree C t) (\<lambda>_. ret ())) ts r = (res, r')"
  shows "docs_ok C r' \<and> (\<exists>rows. r' = r\<lparr>doc_rows := rows\<rparr>)"
  using assms
proof (induction ts arbitrary: r)
  case Nil
  then show ?case by (auto intro: exI [of _ "doc_rows r"])
next
  case (Cons t ts)
  obtain x r1 where m: "merge_public_tree C t r = (x, r1)" by (cases "merge_public_tree C t r")
  have r1: "docs_ok C r1 \<and> (\<exists>rows. r1 = r\<lparr>doc_rows := rows\<rparr>)"
    using merge_cases [OF Cons.prems(1) m] Cons.prems(1)
    by (cases x) (auto simp: stored_as_def intro: exI [of _ "doc_rows r"])
  show ?case
  proof (cases x)
    case (Inl e)
    then show ?thesis using Cons.prems(2) m r1 by (auto simp: bind_run)
  next
    case (Inr u)
    then have "bind (merge_public_tree C t) (\<lambda>_. ret ()) r = (Ok (), r1)" using m by simp
    then have "for_each (\<lambda>t. bind (merge_public_tree C t) (\<lambda>_. ret ())) ts r1 = (res, r')"
      using Cons.prems(2) by (simp only: for_each.simps bind_run_Ok)
    from Cons.IH [OF _ this] r1 show ?thesis by auto
  qed
qed

lemma push_frame:
  assumes ok: "docs_ok C r" "mail_ok r" "\<not> rl_tx r"
    and run: "relay_immediate (push_body C envelope trees) r = (res, r')"
  shows "case res of
      Err e \<Rightarrow> r' = r
    | Ok (i, fp, dup) \<Rightarrow> docs_ok C r' \<and> mail_ok r' \<and> (\<exists>ms ds. r' = r\<lparr>mail_rows := mail_rows r @ ms, doc_rows := ds\<rparr>)
        \<and> (\<exists>t. store_envelope C envelope t = (Ok (i, fp, dup), r'\<lparr>rl_tx := True\<rparr>) \<and> mail_rows t = mail_rows r)
        \<and> (mail_hashed C r \<longrightarrow> mail_hashed C r')"
proof -
  let ?r = "r\<lparr>rl_tx := True\<rparr>"
  obtain x r1 where fe: "for_each (\<lambda>t. bind (merge_public_tree C t) (\<lambda>_. ret ())) trees ?r = (x, r1)"
    by (cases "for_each (\<lambda>t. bind (merge_public_tree C t) (\<lambda>_. ret ())) trees ?r")
  obtain ds where r1: "docs_ok C r1" "r1 = ?r\<lparr>doc_rows := ds\<rparr>" using merges_frame [OF _ fe] ok by auto
  obtain y r2 where st: "store_envelope C envelope r1 = (y, r2)" by (cases "store_envelope C envelope r1")
  have "mail_ok r1" using ok(2) r1(2) by (simp add: mail_ok_def)
  from store_mail_ok [OF this st] have mail: "mail_ok r2" by blast
  obtain ms where r2: "r2 = r1\<lparr>mail_rows := mail_rows r1 @ ms\<rparr>" using store_envelope_frame [OF st] by blast
  have body: "push_body C envelope trees ?r = (case x of Err e \<Rightarrow> (Err e, r1) | Ok _ \<Rightarrow> (y, r2))"
    using fe st by (simp add: push_body_def bind_run split: sum.split)
  have undo: "relay_rollback r q = r" if "rl_draws q = rl_draws r" for q :: relay_db
    using that by (simp add: relay_rollback_def)
  have fin: "r2\<lparr>rl_tx := False\<rparr> = r\<lparr>mail_rows := mail_rows r @ ms, doc_rows := ds\<rparr>" "r2\<lparr>rl_tx := False, rl_tx := True\<rparr> = r2"
    using ok(3) r1(2) r2 by (cases r; simp)+
  have ok2: "docs_ok C (r2\<lparr>rl_tx := False\<rparr>)" "mail_ok (r2\<lparr>rl_tx := False\<rparr>)"
    using r1 r2 mail by (simp_all add: docs_ok_def mail_ok_def)
  show ?thesis
  proof (cases "\<exists>a b. x = Ok a \<and> y = Ok b")
    case True
    then obtain i fp dup where y: "y = Ok (i, fp, dup)" and x: "x = Ok ()" by auto
    then have "res = Ok (i, fp, dup)" "r' = r2\<lparr>rl_tx := False\<rparr>" using run body ok(3) by (auto simp: relay_immediate_def)
    moreover have r1m: "mail_rows r1 = mail_rows r" using r1 by simp
    moreover have "mail_hashed C (r2\<lparr>rl_tx := False\<rparr>)" if "mail_hashed C r"
    proof -
      have "mail_hashed C r1" using that r1m by (simp add: mail_hashed_def)
      then have "mail_hashed C r2" using store_envelope_Ok [OF st [unfolded y]] by metis
      then show ?thesis by (simp add: mail_hashed_def)
    qed
    ultimately show ?thesis using ok2 fin st y by auto
  next
    case False
    then have "\<exists>e. res = Err e \<and> (r' = relay_rollback r r1 \<or> r' = relay_rollback r r2)"
      using run body ok(3) by (cases x; cases y) (auto simp: relay_immediate_def)
    moreover have "rl_draws r1 = rl_draws r" "rl_draws r2 = rl_draws r" using r1(2) r2 by simp_all
    ultimately show ?thesis using undo by auto
  qed
qed

subsection \<open>Every request\<close>

text \<open>A handler that authenticates and then only reads.\<close>

lemma reading_handler:
  assumes "api_keys_ok r"
    and "with_conn W (bind (authenticate C token sc) (\<lambda>a. asks (q a))) r = (res, r')"
  shows "only_used r r'"
proof -
  obtain x r1 where au: "authenticate C token sc r = (x, r1)" by (cases "authenticate C token sc r")
  then have "r' = r1" using assms(2) by (auto simp: with_conn_def bind_run split: sum.splits prod.splits)
  then show ?thesis using authenticate_cases(1) [OF assms(1) au] by simp
qed

definition token_grants :: "web \<Rightarrow> crates \<Rightarrow> headers \<Rightarrow> api_key_scope \<Rightarrow> relay_db \<Rightarrow> bool" where
  "token_grants W C hs sc r \<longleftrightarrow> (\<exists>token. token_from_headers W hs = Inr token \<and> granted C token sc r)"

text \<open>What a request can do beyond stamping a key as used, and who may ask for it.\<close>

inductive writes :: "web \<Rightarrow> crates \<Rightarrow> relay_db \<Rightarrow> request \<Rightarrow> relay_db \<Rightarrow> bool" for W C r where
  push: "token_grants W C hs InboxPush r \<Longrightarrow> docs_ok C r' \<Longrightarrow> mail_ok r' \<Longrightarrow> mail_hashed C r' \<Longrightarrow> r' = s\<lparr>mail_rows := mail_rows s @ ms, doc_rows := ds\<rparr>
           \<Longrightarrow> only_used r s \<Longrightarrow> writes W C r (PostInbox hs data) r'"
| revoke: "token_grants W C hs Admin r \<Longrightarrow> api_by_id s i \<noteq> None \<Longrightarrow> only_used r s
           \<Longrightarrow> r' = s\<lparr>api_rows := map (mark_revoked (rl_clock s) i) (api_rows s)\<rparr>
           \<Longrightarrow> writes W C r (PostRevoke hs i) r'"
| replace: "token_grants W C hs Admin r \<Longrightarrow> only_used r s \<Longrightarrow> public_ok C t \<Longrightarrow> stored_as C s t u r'
           \<Longrightarrow> writes W C r (PutTree hs t) r'"

inductive_cases writes_E: "writes W C r req r'"

text \<open>The status of a reply is an error exactly when the handler failed.\<close>

lemma api_error_status: "400 \<le> fst (api_error_of W e)"
  by (auto simp: api_error_of_def unauthorized_def internal_def)

lemma token_error_status: "token_from_headers W hs = Inl e \<Longrightarrow> e = unauthorized"
  unfolding token_from_headers_def Let_def by (auto split: option.splits if_splits)

lemma with_conn_read [simp]: "with_conn W (asks q) r = (case q r of Ok a \<Rightarrow> Inr a | Err e \<Rightarrow> Inl (api_error_of W e), r)"
  by (simp add: with_conn_def split: sum.split)

lemma failed_auth:
  assumes "with_conn W (bind (authenticate C token sc) f) r = (Inl e, r')" "authenticate C token sc r = (Err x, r1)"
  shows "r' = r1"
  using assms by (simp add: with_conn_def)

lemma get_inbox_step:
  assumes "server_ok C r" "route W C (GetInbox hs after limit) r = (res, r')"
  shows "only_used r r'"
proof (cases "token_from_headers W hs")
  case (Inl e)
  then show ?thesis using assms only_used_refl [of r] by (simp add: with_token_def server_ok_def)
next
  case (Inr token)
  obtain x r1 where au: "authenticate C token InboxPull r = (x, r1)" by (cases "authenticate C token InboxPull r")
  have "r' = r1"
    using assms(2) Inr au
    by (auto simp: with_token_def get_inbox_def and_reply_def with_conn_def bind_run split: prod.splits sum.splits)
  then show ?thesis using authenticate_cases(1) [OF _ au] assms(1) by (simp add: server_ok_def)
qed

lemma get_context_step:
  assumes "server_ok C r" "route W C (GetContext hs label) r = (res, r')"
  shows "only_used r r'"
proof (cases "token_from_headers W hs")
  case (Inl e)
  then show ?thesis using assms only_used_refl [of r] by (simp add: with_token_def server_ok_def)
next
  case (Inr token)
  obtain x r1 where au: "authenticate C token InboxPull r = (x, r1)" by (cases "authenticate C token InboxPull r")
  have "r' = r1"
    using assms(2) Inr au
    by (auto simp: with_token_def get_tree_context_def and_reply_def with_conn_def bind_run split: prod.splits sum.splits)
  then show ?thesis using authenticate_cases(1) [OF _ au] assms(1) by (simp add: server_ok_def)
qed

lemma post_revoke_step:
  assumes "server_ok C r" "route W C (PostRevoke hs i) r = (res, r')"
  shows "only_used r r' \<or> (writes W C r (PostRevoke hs i) r' \<and> \<not> isl res)"
proof (cases "token_from_headers W hs")
  case (Inl e)
  then show ?thesis using assms only_used_refl [of r] by (simp add: with_token_def server_ok_def)
next
  case (Inr token)
  obtain x r1 where au: "authenticate C token Admin r = (x, r1)" by (cases "authenticate C token Admin r")
  have keys: "api_keys_ok r" using assms(1) by (simp add: server_ok_def)
  have used: "only_used r r1" by (rule authenticate_cases(1) [OF keys au])
  show ?thesis
  proof (cases x)
    case (Inl e)
    then show ?thesis using assms(2) Inr au used
      by (auto simp: with_token_def revoke_key_handler_def and_reply_def with_conn_def)
  next
    case ok: (Inr a)
    have g: "token_grants W C hs Admin r"
      using authenticate_cases(2) [OF keys au ok] Inr by (auto simp: token_grants_def)
    note rev = revoke_run [OF only_usedD(1) [OF used], of i]
    show ?thesis
    proof (cases "api_by_id r1 i")
      case None
      then show ?thesis using assms(2) Inr au used ok rev
        by (auto simp: with_token_def revoke_key_handler_def and_reply_def with_conn_def)
    next
      case (Some k)
      then have "r' = r1\<lparr>api_rows := map (mark_revoked (rl_clock r1) i) (api_rows r1)\<rparr>" "\<not> isl res"
        using assms(2) Inr au ok rev
        by (auto simp: with_token_def revoke_key_handler_def and_reply_def with_conn_def)
      then show ?thesis using writes.revoke [OF g _ used] Some by blast
    qed
  qed
qed

lemma put_tree_step:
  assumes "server_ok C r" "route W C (PutTree hs t) r = (res, r')"
  shows "only_used r r' \<or> (writes W C r (PutTree hs t) r' \<and> \<not> isl res)"
proof (cases "token_from_headers W hs")
  case (Inl e)
  then show ?thesis using assms only_used_refl [of r] by (simp add: with_token_def server_ok_def)
next
  case (Inr token)
  obtain x r1 where au: "authenticate C token Admin r = (x, r1)" by (cases "authenticate C token Admin r")
  have keys: "api_keys_ok r" using assms(1) by (simp add: server_ok_def)
  have used: "only_used r r1" by (rule authenticate_cases(1) [OF keys au])
  have docs: "docs_ok C r1" using only_used_server_ok [OF used assms(1)] by (simp add: server_ok_def)
  show ?thesis
  proof (cases x)
    case (Inl e)
    then show ?thesis using assms(2) Inr au used
      by (auto simp: with_token_def put_tree_def and_reply_def with_conn_def)
  next
    case ok: (Inr a)
    have g: "token_grants W C hs Admin r"
      using authenticate_cases(2) [OF keys au ok] Inr by (auto simp: token_grants_def)
    obtain y r2 where put: "put_public_tree C t r1 = (y, r2)" by (cases "put_public_tree C t r1")
    then have r': "r' = r2" "isl res = isl y" using assms(2) Inr au ok
      by (auto simp: with_token_def put_tree_def and_reply_def with_conn_def bind_run split: sum.splits prod.splits)
    from put_cases [OF docs put] show ?thesis
      using r' used writes.replace [OF g used] by (cases y) auto
  qed
qed

lemma post_inbox_step:
  assumes "server_ok C r" "route W C (PostInbox hs data) r = (res, r')"
  shows "only_used r r' \<or> (writes W C r (PostInbox hs data) r' \<and> \<not> isl res)"
proof (cases "token_from_headers W hs")
  case (Inl e)
  then show ?thesis using assms only_used_refl [of r] by (simp add: with_token_def server_ok_def)
next
  case (Inr token)
  have keys: "api_keys_ok r" using assms(1) by (simp add: server_ok_def)
  note refl = only_used_refl [OF keys]
  show ?thesis
  proof (cases "\<exists>envelope trees. parse_inbox_body W C hs data = Ok (envelope, trees) \<and> length envelope \<le> MAX_ENVELOPE_BYTES")
    case False
    then have "r' = r" using assms(2) Inr
      by (auto simp: with_token_def post_inbox_def and_reply_def split: sum.splits prod.splits if_splits)
    then show ?thesis using refl by simp
  next
    case True
    then obtain envelope trees where parse: "parse_inbox_body W C hs data = Ok (envelope, trees)"
      and len: "\<not> MAX_ENVELOPE_BYTES < length envelope" by auto
    obtain x r1 where au: "authenticate C token InboxPush r = (x, r1)" by (cases "authenticate C token InboxPush r")
    have used: "only_used r r1" by (rule authenticate_cases(1) [OF keys au])
    have ok1: "server_ok C r1" by (rule only_used_server_ok [OF used assms(1)])
    obtain y r2 where push: "relay_immediate (push_body C envelope trees) r1 = (y, r2)"
      by (cases "relay_immediate (push_body C envelope trees) r1")
    show ?thesis
    proof (cases x)
      case (Inl e)
      then show ?thesis using assms(2) Inr au used parse len
        by (auto simp: with_token_def post_inbox_def and_reply_def with_conn_def)
    next
      case ok: (Inr a)
      have g: "token_grants W C hs InboxPush r"
        using authenticate_cases(2) [OF keys au ok] Inr by (auto simp: token_grants_def)
      have r': "r' = r2" "isl res = isl y" using assms(2) Inr au ok parse len push
        by (auto simp: with_token_def post_inbox_def and_reply_def with_conn_def split: sum.splits prod.splits)
      from push_frame [OF _ _ _ push] ok1 show ?thesis
        using r' used writes.push [OF g _ _ _ _ used] by (cases y) (auto simp: server_ok_def)
    qed
  qed
qed

lemma route_step:
  assumes ok: "server_ok C r" and run: "route W C req r = (res, r')"
  shows "only_used r r' \<or> (writes W C r req r' \<and> \<not> isl res)"
proof -
  have keys: "api_keys_ok r" using ok by (simp add: server_ok_def)
  note refl = only_used_refl [OF keys]
  show ?thesis
  proof (cases req)
    case GetHealth
    then show ?thesis using run refl by simp
  next
    case (PostKeycheck token h)
    have "snd (post_keycheck W C token h r) = r" by (simp add: post_keycheck_def split: option.split)
    then have "r' = r" using run PostKeycheck by (auto simp: and_reply_def split: prod.splits sum.splits)
    then show ?thesis using refl by simp
  next
    case (PostInbox hs data)
    then show ?thesis using post_inbox_step [OF ok] run by blast
  next
    case (GetInbox hs after limit)
    then show ?thesis using get_inbox_step [OF ok] run by blast
  next
    case (GetKeys hs)
    show ?thesis
    proof (cases "token_from_headers W hs")
      case (Inr token)
      then show ?thesis
        using run GetKeys reading_handler [OF keys, of W C token Admin "\<lambda>_ r. Ok (list_api_keys r)"]
        by (auto simp: with_token_def list_keys_handler_def and_reply_def split: prod.splits sum.splits)
    qed (use run GetKeys refl in \<open>simp add: with_token_def\<close>)
  next
    case (PostRevoke hs i)
    then show ?thesis using post_revoke_step [OF ok] run by blast
  next
    case (PutTree hs t)
    then show ?thesis using put_tree_step [OF ok] run by blast
  next
    case (GetContext hs label)
    then show ?thesis using get_context_step [OF ok] run by blast
  qed
qed

lemma reply_status: "route W C req r = (Inr (status, reply), r') \<Longrightarrow> status < 400"
  by (cases req) (auto simp: with_token_def and_reply_def post_inbox_def with_conn_def split: sum.splits prod.splits if_splits)

lemma writes_ok:
  assumes ok: "server_ok C r" and w: "writes W C r req r'"
  shows "server_ok C r'" "issuer r' = issuer r" "list_all2 same_key (api_rows r) (api_rows r')"
    "\<exists>new. mail_rows r' = mail_rows r @ new"
proof -
  have "server_ok C r' \<and> issuer r' = issuer r \<and> list_all2 same_key (api_rows r) (api_rows r')
      \<and> (\<exists>new. mail_rows r' = mail_rows r @ new)"
    using w
  proof cases
    case (push hs s ms ds data)
    then show ?thesis using only_usedD [OF push(7)] ok by (simp add: server_ok_def api_keys_ok_def)
  next
    case (revoke hs s i)
    note s = only_usedD [OF revoke(4)]
    let ?f = "mark_revoked (rl_clock s) i"
    have "list_all2 same_key (api_rows s) (map ?f (api_rows s))" by (simp add: list_all2_conv_all_nth)
    then have "list_all2 same_key (api_rows r) (map ?f (api_rows s))"
      using s(2) same_key_trans by (blast intro: list_all2_trans)
    moreover have "api_keys_ok r'" unfolding revoke(5) using s(1) by (subst api_update) simp_all
    ultimately show ?thesis
      using s ok revoke(5) by (simp add: server_ok_def mail_ok_def mail_hashed_def docs_ok_def)
  next
    case (replace hs s t u)
    note s = only_usedD [OF replace(3)]
    obtain rows where r': "r' = s\<lparr>doc_rows := rows\<rparr>" and docs: "docs_ok C r'"
      using replace(5) by (auto simp: stored_as_def)
    then show ?thesis using s ok by (simp add: server_ok_def mail_ok_def mail_hashed_def api_keys_ok_def)
  qed
  then show "server_ok C r'" "issuer r' = issuer r" "list_all2 same_key (api_rows r) (api_rows r')"
    "\<exists>new. mail_rows r' = mail_rows r @ new" by blast+
qed

lemma handle_step:
  assumes "server_ok C r" "handle W C req r = ((status, reply), r')"
  shows "only_used r r' \<or> (writes W C r req r' \<and> status < 400)"
proof -
  obtain res where run: "route W C req r = (res, r')" using assms(2) by (auto simp: handle_def split: prod.splits sum.splits)
  show ?thesis
  proof (cases res)
    case (Inl e)
    then show ?thesis using route_step [OF assms(1) run] by auto
  next
    case (Inr x)
    then have "x = (status, reply)" using assms(2) run by (simp add: handle_def)
    then have "status < 400" using reply_status run Inr by blast
    then show ?thesis using route_step [OF assms(1) run] by blast
  qed
qed

end
