(* ===== verification/RelayRuns.thy ===== *)
theory RelayRuns
  imports RelayServer
begin

text \<open>
  Runs of the relay: the requests it serves one after the other, the host's minting commands between
  them, and time passing. What only the holder of the licensee issuer can do, what every request
  needs, and that what was accepted is delivered.
\<close>

section \<open>Runs\<close>

text \<open>
  \<open>HostKeys env typed\<close> is the command line with the environment variable and the answer to the
  prompt; \<open>HostServe\<close> the start of \<open>serve\<close>, which makes the issuer when there is none.
\<close>

datatype relay_event =
    HttpRequest request
  | HostKeys "string option" "string result" keys_command
  | HostServe
  | Waiting nat

fun relay_event_step :: "web \<Rightarrow> crates \<Rightarrow> relay_event \<Rightarrow> relay_db \<Rightarrow> relay_db" where
  "relay_event_step W C (HttpRequest req) r = snd (handle W C req r)"
| "relay_event_step W C (HostKeys env typed cmd) r = snd (run_keys C env typed cmd r)"
| "relay_event_step W C HostServe r = snd (bootstrap_licensee_if_empty C r)"
| "relay_event_step W C (Waiting d) r = r\<lparr>rl_clock := rl_clock r + int d\<rparr>"

definition relay_run :: "web \<Rightarrow> crates \<Rightarrow> relay_event list \<Rightarrow> relay_db \<Rightarrow> relay_db" where
  "relay_run W C es r = fold (relay_event_step W C) es r"

text \<open>Every key is still there, with the same hash, scope and fingerprint.\<close>

definition keys_stay :: "relay_db \<Rightarrow> relay_db \<Rightarrow> bool" where
  "keys_stay r r' \<longleftrightarrow> (\<forall>h q. api_by_hash r h = Some q \<longrightarrow> (\<exists>q'. api_by_hash r' h = Some q' \<and> same_key q q'))"

lemma keys_stay_trans: "keys_stay r s \<Longrightarrow> keys_stay s t \<Longrightarrow> keys_stay r t"
  unfolding keys_stay_def by (blast intro: same_key_trans)

lemma ages_stay: "(\<And>h. ages h r r') \<Longrightarrow> keys_stay r r'"
  unfolding keys_stay_def ages_def aged_def by blast

lemma same_keys_stay:
  assumes "list_all2 same_key (api_rows r) (api_rows r')" shows "keys_stay r r'"
proof -
  have "find (\<lambda>k. a_hash k = h) xs = Some q \<Longrightarrow> \<exists>q'. find (\<lambda>k. a_hash k = h) ys = Some q' \<and> same_key q q'"
    if "list_all2 same_key xs ys" for h q xs ys
    using that by (induction rule: list_all2_induct) (auto simp: same_keyD split: if_splits)
  then show ?thesis using assms by (simp add: keys_stay_def api_by_hash_def)
qed

lemma keys_stay_refl [simp]: "keys_stay r r"
  by (simp add: keys_stay_def)

text \<open>What the host's commands leave alone.\<close>

definition host_frame :: "relay_db \<Rightarrow> relay_db \<Rightarrow> bool" where
  "host_frame r r' \<longleftrightarrow> api_keys_ok r' \<and> (\<exists>rows d iss. r' = r\<lparr>api_rows := rows, rl_draws := d, issuer := iss\<rparr>)
     \<and> (issuer r \<noteq> None \<longrightarrow> issuer r' = issuer r) \<and> keys_stay r r'"

lemma host_frameD:
  assumes "host_frame r r'"
  shows "api_keys_ok r'" "mail_rows r' = mail_rows r" "doc_rows r' = doc_rows r" "rl_tx r' = rl_tx r" "rl_clock r' = rl_clock r"
    "issuer r = Some h \<Longrightarrow> issuer r' = Some h" "keys_stay r r'"
  using assms unfolding host_frame_def by auto

lemma host_frame_refl: "api_keys_ok r \<Longrightarrow> host_frame r r"
  unfolding host_frame_def by (intro conjI exI [of _ "api_rows r"] exI [of _ "rl_draws r"] exI [of _ "issuer r"]) auto

lemma host_frame_trans: "host_frame r s \<Longrightarrow> host_frame s t \<Longrightarrow> host_frame r t"
  unfolding host_frame_def
  by (elim conjE exE, intro conjI exI) (assumption, simp_all, blast intro: keys_stay_trans)

lemma host_frame_intro:
  "(\<And>h. ages h r r') \<Longrightarrow> r' = r\<lparr>api_rows := rows, rl_draws := d\<rparr> \<Longrightarrow> host_frame r r'"
  unfolding host_frame_def
  by (intro conjI exI [of _ rows] exI [of _ d] exI [of _ "issuer r"] ages_stay) (auto simp: ages_def)

lemma create_frame:
  assumes "api_keys_ok r" shows "host_frame r (snd (create_api_key C new r))"
proof -
  have "\<exists>rows d. snd (create_api_key C new r) = r\<lparr>api_rows := rows, rl_draws := d\<rparr>"
    unfolding create_run
    by (cases r) (auto split: sum.split intro: exI [of _ "api_rows r"] exI [of _ "rl_draws r"])
  then show ?thesis using host_frame_intro [OF create_ages [OF assms]] by blast
qed

lemma revoke_frame:
  assumes "api_keys_ok r" shows "host_frame r (snd (revoke_api_key i r))"
proof -
  have "\<exists>rows d. snd (revoke_api_key i r) = r\<lparr>api_rows := rows, rl_draws := d\<rparr>"
    unfolding revoke_run [OF assms]
    by (cases r) auto
  then show ?thesis using host_frame_intro [OF revoke_ages [OF assms]] by blast
qed

lemma rotate_frame:
  assumes "api_keys_ok r" "\<not> rl_tx r" shows "host_frame r (snd (rotate_api_key C i r))"
proof -
  have "\<exists>rows d. snd (rotate_api_key C i r) = r\<lparr>api_rows := rows, rl_draws := d\<rparr>"
    unfolding rotate_run [OF assms]
    by (cases r) (auto split: option.split)
  then show ?thesis using host_frame_intro [OF rotate_ages [OF assms]] by blast
qed

lemma bootstrap_frame:
  assumes "api_keys_ok r" shows "host_frame r (snd (bootstrap_licensee_if_empty C r))"
proof (cases "issuer r")
  case None
  then have "snd (bootstrap_licensee_if_empty C r) = r\<lparr>rl_draws := Suc (rl_draws r),
      issuer := Some (hex_encode C (sha256 C (os_bytes C (rl_draws r) 32)))\<rparr>"
    by (simp add: bootstrap_licensee_if_empty_def bind_run)
  moreover have "api_keys_ok (r\<lparr>rl_draws := d, issuer := x\<rparr>)" "keys_stay r (r\<lparr>rl_draws := d, issuer := x\<rparr>)" for d x
    using assms by (simp_all add: api_keys_ok_def same_keys_stay list.rel_refl)
  ultimately show ?thesis using None unfolding host_frame_def by (cases r) auto
next
  case (Some h)
  then show ?thesis using host_frame_refl [OF assms] by (simp add: bootstrap_licensee_if_empty_def)
qed

section \<open>Who can mint\<close>

lemma authorize_mint_run:
  "authorize_mint C env typed explicit r =
     (if some_text explicit = None \<and> some_text env = None \<and> issuer r = None
      then (Ok (), snd (bootstrap_licensee_if_empty C r))
      else (and_then (licensee_secret env typed explicit) (\<lambda>key. authenticate_licensee C key r), r))"
proof -
  have ne: "some_text x = Some key \<Longrightarrow> key \<noteq> []" for x key by (auto simp: some_text_def split: if_splits)
  show ?thesis
  proof (cases "some_text explicit = None \<and> some_text env = None")
    case True
    then have secret: "licensee_secret env typed explicit = typed" "licensee_secret env typed None = typed"
      by (simp_all add: licensee_secret_def some_text_def)
    show ?thesis
    proof (cases "issuer r")
      case None
      then show ?thesis using True
        by (simp add: authorize_mint_def authorize_licensee_or_bootstrap_def bootstrap_licensee_if_empty_def bind_run)
    next
      case (Some h)
      then show ?thesis using True secret
        by (cases typed) (simp_all add: authorize_mint_def authorize_licensee_or_bootstrap_def require_licensee_def
            bootstrap_licensee_if_empty_def bind_run)
    qed
  next
    case False
    then obtain key where "licensee_secret env typed explicit = Ok key" "key \<noteq> []"
      "(case some_text explicit of Some key \<Rightarrow> Some key | None \<Rightarrow> some_text env) = Some key"
      by (cases "some_text explicit"; cases "some_text env") (auto simp: licensee_secret_def dest: ne)
    then show ?thesis using False
      by (auto simp: authorize_mint_def authorize_licensee_or_bootstrap_def bind_run split: sum.split)
  qed
qed

text \<open>The secret of a minting command is one whose hash is this issuer's.\<close>

definition knows_issuer :: "crates \<Rightarrow> string \<Rightarrow> string option \<Rightarrow> string result \<Rightarrow> string option \<Rightarrow> bool" where
  "knows_issuer C h env typed explicit \<longleftrightarrow>
     (\<exists>key. licensee_secret env typed explicit = Ok key \<and> hash_prefixed C key LICENSEE_PREFIX = Ok h)"

fun presents_issuer :: "crates \<Rightarrow> string \<Rightarrow> relay_event \<Rightarrow> bool" where
  "presents_issuer C h (HostKeys env typed (KeysCreate scope fp label ttl key)) = knows_issuer C h env typed key"
| "presents_issuer C h (HostKeys env typed (KeysRotate i key)) = knows_issuer C h env typed key"
| "presents_issuer C h _ = False"

lemma authenticate_licensee_Ok:
  "authenticate_licensee C key r = Ok () \<longleftrightarrow> (\<exists>h. hash_prefixed C key LICENSEE_PREFIX = Ok h \<and> issuer r = Some h)"
  by (auto simp: authenticate_licensee_def split: sum.split)

lemma authorize_mint_issuer:
  assumes "issuer r = Some h"
  shows "snd (authorize_mint C env typed explicit r) = r"
    and "fst (authorize_mint C env typed explicit r) = Ok () \<longleftrightarrow> knows_issuer C h env typed explicit"
  using assms
  by (auto simp: authorize_mint_run knows_issuer_def and_then_Ok_iff authenticate_licensee_Ok)

lemma authorize_mint_frame:
  assumes "api_keys_ok r" shows "host_frame r (snd (authorize_mint C env typed explicit r))"
  using bootstrap_frame [OF assms] host_frame_refl [OF assms] by (simp add: authorize_mint_run)

lemma run_keys_frame:
  assumes "api_keys_ok r" "\<not> rl_tx r" shows "host_frame r (snd (run_keys C env typed cmd r))"
proof -
  have mint: "host_frame r (snd (bind (authorize_mint C env typed key) (\<lambda>_. bind (lift_result q) (\<lambda>x. bind (m x) (\<lambda>_. ret ()))) r))"
    if m: "\<And>x s. api_keys_ok s \<Longrightarrow> \<not> rl_tx s \<Longrightarrow> host_frame s (snd (m x s))" for key q and m :: "'x \<Rightarrow> (relay_db, 'b) op"
  proof -
    obtain a s where au: "authorize_mint C env typed key r = (a, s)" by (cases "authorize_mint C env typed key r")
    have s: "host_frame r s" using authorize_mint_frame [OF assms(1), of C env typed key] au by simp
    have go: "host_frame r t" if "m x s = (y, t)" for x y t
    proof -
      have "host_frame s (snd (m x s))" by (rule m) (use host_frameD [OF s] assms(2) in simp_all)
      then show ?thesis using host_frame_trans [OF s] that by simp
    qed
    show ?thesis using s au by (cases a; cases q) (auto simp: bind_run split: prod.split sum.split intro: go)
  qed
  show ?thesis
  proof (cases cmd)
    case (KeysCreate scope fp label ttl key)
    then show ?thesis using mint [of "\<lambda>sc. create_api_key C \<lparr> nk_scope = sc, nk_fp = fp, nk_label = label, nk_ttl = ttl \<rparr>"]
      by (simp add: create_frame)
  next
    case (KeysRotate i key)
    have "bind (lift_result (Ok ())) f = f ()" for f :: "unit \<Rightarrow> (relay_db, unit) op" by (rule ext) simp
    then show ?thesis using KeysRotate mint [of "\<lambda>_. rotate_api_key C i" key "Ok ()"] by (simp add: rotate_frame)
  qed (use assms in \<open>simp_all add: host_frame_refl revoke_frame\<close>)
qed
text \<open>Without the issuer's secret no event adds a key or rebinds one.\<close>

lemma locked_mint:
  assumes "issuer r = Some h" "\<not> knows_issuer C h env typed key"
  shows "snd (bind (authorize_mint C env typed key) f r) = r"
  using authorize_mint_issuer [OF assms(1), of C env typed key] assms(2)
  by (cases "authorize_mint C env typed key r"; cases "fst (authorize_mint C env typed key r)") (auto simp: bind_run)

lemma only_used_keys: "only_used r r' \<Longrightarrow> list_all2 same_key (api_rows r) (api_rows r')"
  by (rule only_usedD)

lemma handle_ok:
  assumes "server_ok C r"
  shows "server_ok C (snd (handle W C req r)) \<and> issuer (snd (handle W C req r)) = issuer r
    \<and> list_all2 same_key (api_rows r) (api_rows (snd (handle W C req r)))
    \<and> (\<exists>new. mail_rows (snd (handle W C req r)) = mail_rows r @ new)"
proof -
  obtain status reply r' where run: "handle W C req r = ((status, reply), r')" by (metis prod.exhaust)
  from handle_step [OF assms run] show ?thesis
  proof
    assume u: "only_used r r'"
    then show ?thesis using run only_usedD [OF u] only_used_server_ok [OF u assms] by simp
  next
    assume "writes W C r req r' \<and> status < 400"
    then have w: "writes W C r req r'" by simp
    show ?thesis using run writes_ok [OF assms w] by simp
  qed
qed

lemma host_frame_server_ok: "server_ok C r \<Longrightarrow> host_frame r r' \<Longrightarrow> server_ok C r'"
  using host_frameD [of r r'] by (simp add: server_ok_def mail_ok_def mail_hashed_def docs_ok_def)

lemma event_ok:
  assumes "server_ok C r"
  shows "server_ok C (relay_event_step W C e r) \<and> (\<exists>new. mail_rows (relay_event_step W C e r) = mail_rows r @ new)
    \<and> keys_stay r (relay_event_step W C e r)"
proof -
  have keys: "api_keys_ok r" "\<not> rl_tx r" using assms by (simp_all add: server_ok_def)
  have host: ?thesis if "host_frame r (relay_event_step W C e r)"
    using host_frame_server_ok [OF assms that] host_frameD(2,7) [OF that] by simp
  show ?thesis
  proof (cases e)
    case (HttpRequest req)
    then show ?thesis using handle_ok [OF assms] same_keys_stay by simp
  next
    case (HostKeys env typed cmd)
    show ?thesis by (rule host) (use HostKeys run_keys_frame [OF keys] in simp)
  next
    case HostServe
    show ?thesis by (rule host) (use HostServe bootstrap_frame [OF keys(1)] in simp)
  next
    case (Waiting d)
    then show ?thesis using assms
      by (simp add: server_ok_def api_keys_ok_def mail_ok_def mail_hashed_def docs_ok_def same_keys_stay list.rel_refl)
  qed
qed

lemma run_ok:
  "server_ok C r \<Longrightarrow> server_ok C (relay_run W C es r) \<and> (\<exists>new. mail_rows (relay_run W C es r) = mail_rows r @ new)
     \<and> keys_stay r (relay_run W C es r)"
proof (induction es arbitrary: r)
  case (Cons e es)
  have run: "relay_run W C (e # es) r = relay_run W C es (relay_event_step W C e r)" by (simp add: relay_run_def)
  show ?case
    using Cons.IH [of "relay_event_step W C e r"] event_ok [OF Cons.prems, of W e] unfolding run
    by (auto intro: keys_stay_trans)
qed (simp add: relay_run_def)

lemma event_keys:
  assumes "server_ok C r" "issuer r = Some h" "\<not> presents_issuer C h e"
  shows "issuer (relay_event_step W C e r) = Some h \<and> list_all2 same_key (api_rows r) (api_rows (relay_event_step W C e r))"
proof -
  have keys: "api_keys_ok r" "\<not> rl_tx r" using assms(1) by (simp_all add: server_ok_def)
  have refl: "list_all2 same_key (api_rows r) (api_rows r)" by (simp add: list.rel_refl)
  show ?thesis
  proof (cases e)
    case (HttpRequest req)
    then show ?thesis using handle_ok [OF assms(1)] assms(2) by simp
  next
    case (HostKeys env typed cmd)
    show ?thesis
    proof (cases cmd)
      case (KeysRevoke i)
      have "list_all2 same_key (api_rows r) (map (mark_revoked (rl_clock r) i) (api_rows r))"
        by (simp add: list_all2_conv_all_nth)
      then show ?thesis using HostKeys KeysRevoke refl assms(2) by (simp add: revoke_run [OF keys(1)])
    qed (use HostKeys assms(2,3) refl in \<open>simp_all add: locked_mint [OF assms(2)]\<close>)
  next
    case HostServe
    then show ?thesis using assms(2) refl by (simp add: bootstrap_licensee_if_empty_def)
  qed (use assms(2) refl in simp)
qed

text \<open>
  C9: Once the relay has its licensee issuer, no key is ever minted, rotated or rebound except by a
  command on the host that presents the issuer's secret: whatever is requested over HTTP with
  whatever bearers, and whatever else is run on the host, every key keeps its id, hash, scope and
  fingerprint, there are no others, and the issuer stays the same.
\<close>
theorem licensee_controls_minting:
  assumes "server_ok C r" "issuer r = Some h" "\<forall>e \<in> set es. \<not> presents_issuer C h e"
  shows "issuer (relay_run W C es r) = Some h \<and> server_ok C (relay_run W C es r)
    \<and> list_all2 same_key (api_rows r) (api_rows (relay_run W C es r))"
  using assms
proof (induction es arbitrary: r)
  case Nil
  then show ?case by (simp add: relay_run_def list.rel_refl)
next
  case (Cons e es)
  let ?r = "relay_event_step W C e r"
  have e: "issuer ?r = Some h" "list_all2 same_key (api_rows r) (api_rows ?r)" "server_ok C ?r"
    using event_keys [OF Cons.prems(1,2)] event_ok [OF Cons.prems(1)] Cons.prems(3) by simp_all
  have run: "relay_run W C (e # es) r = relay_run W C es ?r" by (simp add: relay_run_def)
  have IH: "issuer (relay_run W C es ?r) = Some h \<and> server_ok C (relay_run W C es ?r)
      \<and> list_all2 same_key (api_rows ?r) (api_rows (relay_run W C es ?r))"
    by (rule Cons.IH [OF e(3,1)]) (use Cons.prems(3) in simp)
  then show ?case unfolding run using e(2) same_key_trans by (blast intro: list_all2_trans)
qed

section \<open>What was accepted is delivered\<close>

lemma inbox_accepted:
  assumes ok: "server_ok C r" and run: "handle W C (PostInbox hs data) r = ((status, AcceptedBody i fp), r1)"
  obtains envelope trees pk m where "parse_inbox_body W C hs data = Ok (envelope, trees)"
    "routing_public_key envelope = Ok pk" "fp = fingerprint C pk" "m \<in> set (mail_rows r1)" "ml_id m = i" "ml_fp m = fp"
    "ml_hash m = hex_encode C (sha256 C envelope)" "status = 201 \<Longrightarrow> ml_envelope m = envelope"
proof -
  have keys: "api_keys_ok r" using ok by (simp add: server_ok_def)
  obtain token where token: "token_from_headers W hs = Inr token"
    using run by (cases "token_from_headers W hs") (auto simp: handle_def with_token_def split: prod.splits)
  obtain envelope trees where parse: "parse_inbox_body W C hs data = Ok (envelope, trees)"
    and len: "\<not> MAX_ENVELOPE_BYTES < length envelope"
    using run token by (auto simp: handle_def with_token_def post_inbox_def and_reply_def split: sum.splits prod.splits if_splits)
  obtain x s where au: "authenticate C token InboxPush r = (x, s)" by (cases "authenticate C token InboxPush r")
  obtain y t where push: "relay_immediate (push_body C envelope trees) s = (y, t)"
    by (cases "relay_immediate (push_body C envelope trees) s")
  have res: "post_inbox W C token hs data r = (case x of Err e \<Rightarrow> (Inl (api_error_of W e), s)
      | Ok _ \<Rightarrow> (case y of Err e \<Rightarrow> (Inl (api_error_of W e), t)
        | Ok (i, fp, dup) \<Rightarrow> (Inr (if dup then 200 else 201, i, fp), t)))"
    using len au push by (cases x; cases y) (simp_all add: post_inbox_def parse and_reply_def with_conn_def split: prod.split)
  have "\<exists>a dup. x = Ok a \<and> y = Ok (i, fp, dup) \<and> t = r1 \<and> status = (if dup then 200 else 201)"
  proof (cases x)
    case (Inl e)
    then show ?thesis using run by (simp add: handle_def with_token_def token and_reply_def res split: prod.splits)
  next
    case (Inr a)
    show ?thesis
    proof (cases y)
      case (Inl e)
      then show ?thesis using run Inr by (simp add: handle_def with_token_def token and_reply_def res split: prod.splits)
    next
      case y: (Inr z)
      obtain j g dup where "z = (j, g, dup)" by (cases z)
      then have "((if dup then 200 else 201, AcceptedBody j g), t) = ((status, AcceptedBody i fp), r1)"
        using run Inr y by (simp add: handle_def with_token_def token and_reply_def res)
      then show ?thesis using Inr y \<open>z = (j, g, dup)\<close> by simp
    qed
  qed
  then obtain dup where y: "y = Ok (i, fp, dup)" and t: "t = r1" and status: "status = (if dup then 200 else 201)" by blast
  have s: "server_ok C s" by (rule only_used_server_ok [OF authenticate_cases(1) [OF keys au] ok])
  then obtain q where q: "store_envelope C envelope q = (Ok (i, fp, dup), r1\<lparr>rl_tx := True\<rparr>)"
    using push_frame [OF _ _ _ push] y t by (auto simp: server_ok_def)
  show thesis
  proof (rule store_envelope_Ok [OF q])
    fix m pk
    assume m: "routing_public_key envelope = Ok pk" "fp = fingerprint C pk" "m \<in> set (mail_rows (r1\<lparr>rl_tx := True\<rparr>))"
      "ml_id m = i" "ml_fp m = fp" "ml_hash m = hex_encode C (sha256 C envelope)" "\<not> dup \<Longrightarrow> ml_envelope m = envelope"
    show thesis by (rule that [OF parse m(1,2) _ m(4-6)]) (use m(3,7) status in \<open>auto split: if_splits\<close>)
  qed
qed

text \<open>The mail with id \<open>i\<close> is the first after \<open>i - 1\<close>.\<close>

lemma mail_after_hd:
  assumes "mail_ok r" "m \<in> set (mail_rows r)"
  shows "\<exists>rest. mail_after (ml_fp m) (ml_id m - 1) r = m # rest"
proof -
  let ?M = "mail_after (ml_fp m) (ml_id m - 1) r"
  have m: "m \<in> set ?M" using assms(2) by (simp add: mail_after_def)
  then obtain a rest where M: "?M = a # rest" by (cases ?M) auto
  have "sorted_wrt (\<lambda>x y. ml_id x < ml_id y) ?M"
    using assms(1) unfolding mail_after_def mail_ok_def sorted_wrt_map by (simp add: sorted_wrt_filter)
  moreover have "ml_id m - 1 < ml_id a" using M unfolding mail_after_def by (metis (no_types, lifting) filter_eq_ConsD)
  ultimately have "a = m" using m unfolding M by auto
  then show ?thesis using M by blast
qed

lemma get_inbox_run:
  assumes "api_keys_ok r" "token_from_headers W hs = Inr token" "hash_bearer C token = Ok h" "api_by_hash r h = Some k"
    "a_revoked k = None" "unexpired r k" "a_scope k = ''inbox.pull''" "a_fp k = Some fp"
    and page: "list_after fp after limit r = Ok page"
  shows "\<exists>l. handle W C (GetInbox hs after limit) r = ((200, InboxBody l), stamped h r)
    \<and> il_envelopes l = map (\<lambda>e. \<lparr> ie_id = se_id e, ie_fp = se_fp e, ie_bytes = b64_encode W (se_bytes e) \<rparr>) (mp_envelopes page)
    \<and> il_next l = mp_next page"
proof -
  have au: "authenticate C token InboxPull r = (Ok \<lparr> au_id = a_id k, au_scope = InboxPull, au_fp = Some fp \<rparr>, stamped h r)"
    using assms(4-8) by (simp add: authenticate_run [OF assms(1,3)])
  have "list_after fp after limit (stamped h r) = list_after fp after limit r"
    by (simp add: list_after_def stamped_def)
  then show ?thesis using assms(2) au page
    by (simp add: handle_def with_token_def get_inbox_def and_reply_def with_conn_def bind_run)
qed

text \<open>
  C20: An envelope the relay accepted is delivered: whatever it is asked and told in between, a live
  pull key bound to the fingerprint of the public key in the envelope's header, asking for the mail
  before the id that was returned, gets first the envelope with that id, with the bytes that were
  pushed when it was new, and with the same content hash when it was there already.
\<close>
theorem push_then_pull:
  assumes "server_ok C r" "handle W C (PostInbox hs data) r = ((status, AcceptedBody i fp), r1)"
    and "token_from_headers W hs' = Inr token" "hash_bearer C token = Ok h"
    and "api_by_hash (relay_run W C es r1) h = Some k" "a_revoked k = None" "unexpired (relay_run W C es r1) k"
      "a_scope k = ''inbox.pull''" "a_fp k = Some fp"
    and "page_size limit = Ok p"
  shows "\<exists>envelope trees pk l r2 e. parse_inbox_body W C hs data = Ok (envelope, trees)
    \<and> routing_public_key envelope = Ok pk \<and> fp = fingerprint C pk
    \<and> handle W C (GetInbox hs' (Some (i - 1)) limit) (relay_run W C es r1) = ((200, InboxBody l), r2)
    \<and> take 1 (il_envelopes l) = [\<lparr> ie_id = i, ie_fp = fp, ie_bytes = b64_encode W e \<rparr>]
    \<and> hex_encode C (sha256 C e) = hex_encode C (sha256 C envelope) \<and> (status = 201 \<longrightarrow> e = envelope)"
proof -
  let ?r = "relay_run W C es r1"
  obtain envelope trees pk m where parse: "parse_inbox_body W C hs data = Ok (envelope, trees)"
    and pk: "routing_public_key envelope = Ok pk" "fp = fingerprint C pk"
    and m: "m \<in> set (mail_rows r1)" "ml_id m = i" "ml_fp m = fp" "ml_hash m = hex_encode C (sha256 C envelope)"
      "status = 201 \<Longrightarrow> ml_envelope m = envelope"
    by (rule inbox_accepted [OF assms(1,2)]) blast
  have "server_ok C r1" using handle_ok [OF assms(1), of W "PostInbox hs data"] assms(2) by simp
  from run_ok [OF this, of W es] have ok: "server_ok C ?r" and mem: "m \<in> set (mail_rows ?r)" using m(1) by auto
  then have tables: "mail_ok ?r" "api_keys_ok ?r" and hash: "hex_encode C (sha256 C (ml_envelope m)) = ml_hash m"
    by (auto simp: server_ok_def mail_hashed_def)
  obtain rest where M: "mail_after fp (i - 1) ?r = m # rest" using mail_after_hd [OF tables(1) mem] m by auto
  let ?page = "\<lparr> mp_envelopes = map mail_envelope (take (nat p) (m # rest)),
      mp_next = (if nat p < length (m # rest) then Some (ml_id ((m # rest) ! (nat p - 1))) else None) \<rparr>"
  have page: "list_after fp (Some (i - 1)) limit ?r = Ok ?page"
    using list_after_run [OF tables(1) assms(10), of fp "Some (i - 1)"] M by simp
  from get_inbox_run [OF tables(2) assms(3-9) page] obtain l
    where get: "handle W C (GetInbox hs' (Some (i - 1)) limit) ?r = ((200, InboxBody l), stamped h ?r)"
      and l: "il_envelopes l = map (\<lambda>e. \<lparr> ie_id = se_id e, ie_fp = se_fp e, ie_bytes = b64_encode W (se_bytes e) \<rparr>)
          (map mail_envelope (take (nat p) (m # rest)))"
    by auto
  obtain n where "nat p = Suc n" using page_size_pos [OF assms(10)] by (cases "nat p") auto
  then have "take 1 (il_envelopes l) = [\<lparr> ie_id = i, ie_fp = fp, ie_bytes = b64_encode W (ml_envelope m) \<rparr>]"
    using l m by (simp add: mail_envelope_def)
  then show ?thesis using parse pk get m(4,5) hash
    by (intro exI [of _ envelope] exI [of _ trees] exI [of _ pk] exI [of _ l] exI [of _ "stamped h ?r"] exI [of _ "ml_envelope m"]) simp
qed

text \<open>
  C8: No HTTP request mints a key, rebinds one or touches the licensee issuer. New mail needs a live
  push key, a change of a published tree a live push or admin key, a revocation a live admin key; mail
  is only ever added; and a request that is answered with an error leaves everything as it was, up
  to the time a key was last used. Every request keeps the tables of the relay well formed.
\<close>
theorem requests_authorized:
  assumes "server_ok C r" "handle W C req r = ((status, reply), r')"
  shows "server_ok C r' \<and> issuer r' = issuer r \<and> list_all2 same_key (api_rows r) (api_rows r')
    \<and> (\<exists>new. mail_rows r' = mail_rows r @ new)
    \<and> (mail_rows r' \<noteq> mail_rows r \<longrightarrow> (\<exists>hs data. req = PostInbox hs data \<and> token_grants W C hs InboxPush r))
    \<and> (doc_rows r' \<noteq> doc_rows r \<longrightarrow> (\<exists>hs data. req = PostInbox hs data \<and> token_grants W C hs InboxPush r)
          \<or> (\<exists>hs t. req = PutTree hs t \<and> token_grants W C hs Admin r))
    \<and> (map a_revoked (api_rows r') \<noteq> map a_revoked (api_rows r) \<longrightarrow>
          (\<exists>hs i. req = PostRevoke hs i \<and> token_grants W C hs Admin r))
    \<and> (400 \<le> status \<longrightarrow> only_used r r')"
proof (cases "only_used r r'")
  case True
  then show ?thesis using only_usedD [OF True] only_used_server_ok [OF True assms(1)] by simp
next
  case False
  then have w: "writes W C r req r'" "status < 400" using handle_step [OF assms] by blast+
  have "(mail_rows r' \<noteq> mail_rows r \<longrightarrow> (\<exists>hs data. req = PostInbox hs data \<and> token_grants W C hs InboxPush r))
    \<and> (doc_rows r' \<noteq> doc_rows r \<longrightarrow> (\<exists>hs data. req = PostInbox hs data \<and> token_grants W C hs InboxPush r)
          \<or> (\<exists>hs t. req = PutTree hs t \<and> token_grants W C hs Admin r))
    \<and> (map a_revoked (api_rows r') \<noteq> map a_revoked (api_rows r) \<longrightarrow>
          (\<exists>hs i. req = PostRevoke hs i \<and> token_grants W C hs Admin r))"
    using w(1)
  proof cases
    case (push hs s ms ds data)
    then show ?thesis using only_usedD [OF push(7)] by simp
  next
    case (revoke hs s i)
    then show ?thesis using only_usedD [OF revoke(4)] by simp
  next
    case (replace hs s t u)
    then show ?thesis using only_usedD [OF replace(3)] by (auto simp: stored_as_def)
  qed
  then show ?thesis using writes_ok [OF assms(1) w(1)] w(2) by auto
qed

section \<open>A concrete relay\<close>

text \<open>
  The concrete crates with hexadecimal digits, so that a fingerprint has 64 of them; a relay with an
  issuer, a push key, and a pull key bound to the recipient of an envelope.
\<close>

definition hex_digit :: "nat \<Rightarrow> char" where
  "hex_digit n = (if n < 10 then char_of (48 + n) else char_of (87 + n))"

definition hex_pairs :: "bytes \<Rightarrow> string" where
  "hex_pairs b = concat (map (\<lambda>x. [hex_digit (unat x div 16), hex_digit (unat x mod 16)]) b)"

definition hexed :: crates where "hexed = toy\<lparr>hex_encode := hex_pairs\<rparr>"

definition demo_web :: web where
  "demo_web = \<lparr> header_str = (\<lambda>b. Some (from_bytes b)), push_json = (\<lambda>b. None), b64_encode = from_bytes, error_text = (\<lambda>e. []) \<rparr>"

definition demo_bearer_of :: "u8 \<Rightarrow> string" where "demo_bearer_of n = ''kq_'' @ from_bytes (replicate 32 n)"

definition demo_key_hash :: "u8 \<Rightarrow> string" where "demo_key_hash n = hex_pairs (replicate 32 n)"

definition demo_headers :: "u8 \<Rightarrow> headers" where
  "demo_headers n = [(''authorization'', as_bytes (''Bearer '' @ demo_bearer_of n))]"

definition demo_row :: "int \<Rightarrow> u8 \<Rightarrow> string \<Rightarrow> string option \<Rightarrow> api_row" where
  "demo_row i n scope fp = \<lparr> a_id = i, a_hash = demo_key_hash n, a_scope = scope, a_fp = fp, a_label = None,
     a_created = 0, a_expires = Some 60, a_revoked = None, a_used = None \<rparr>"

definition demo_server :: relay_db where
  "demo_server = empty_relay\<lparr>issuer := Some (demo_key_hash 7),
     api_rows := [demo_row 1 1 ''inbox.push'' None, demo_row 2 2 ''inbox.pull'' (Some (demo_key_hash 9))], rl_draws := 3\<rparr>"

definition demo_envelope :: bytes where
  "demo_envelope = PACKAGE_MAGIC @ [PB_FORMAT_VERSION, KIND_ROTATE] @ replicate 32 9 @ be_bytes 4 1 @ [5]"

lemma demo_key_hash_eq: "demo_key_hash n = concat (replicate 32 [hex_digit (unat n div 16), hex_digit (unat n mod 16)])"
  by (simp add: demo_key_hash_def hex_pairs_def)

lemma demo_digits:
  "hex_digit (unat (1 :: u8) mod 16) = CHR ''1''" "hex_digit (unat (2 :: u8) mod 16) = CHR ''2''"
  "hex_digit (unat (7 :: u8) mod 16) = CHR ''7''" "hex_digit (unat (9 :: u8) mod 16) = CHR ''9''"
  "hex_digit (unat (9 :: u8) div 16) = CHR ''0''"
  by code_simp+

lemma demo_key_hash_nth: "demo_key_hash n ! 1 = hex_digit (unat n mod 16)"
proof -
  have "replicate 32 x = x # replicate 31 x" for x :: string by (simp flip: replicate_Suc)
  then show ?thesis by (simp add: demo_key_hash_eq)
qed

lemma demo_key_hash_inj: "demo_key_hash 1 \<noteq> demo_key_hash 2" "demo_key_hash 7 \<noteq> demo_key_hash 1" "demo_key_hash 7 \<noteq> demo_key_hash 2"
proof -
  have "demo_key_hash m \<noteq> demo_key_hash n" if "hex_digit (unat m mod 16) \<noteq> hex_digit (unat n mod 16)" for m n
  proof
    assume "demo_key_hash m = demo_key_hash n"
    then have "demo_key_hash m ! 1 = demo_key_hash n ! 1" by (simp only:)
    then show False using that by (simp only: demo_key_hash_nth)
  qed
  note differ = this
  show "demo_key_hash 1 \<noteq> demo_key_hash 2" "demo_key_hash 7 \<noteq> demo_key_hash 1" "demo_key_hash 7 \<noteq> demo_key_hash 2"
    by (rule differ, simp only: demo_digits, simp)+
qed

lemma demo_key_length [simp]: "length (from_bytes b) = length b"
  by (simp add: from_bytes_def)

lemma demo_key_bearer: "hash_bearer hexed (demo_bearer_of n) = Ok (demo_key_hash n)"
  by (simp add: hash_bearer_def hash_prefixed_def TOKEN_PREFIX_def strip_prefix_def starts_with_def BEARER_LEN_def
      demo_bearer_of_def demo_key_hash_def hexed_def)

lemma demo_token_read: "token_from_headers demo_web (demo_headers n) = Inr (demo_bearer_of n)"
proof -
  have "strip_prefix ''Bearer '' (''Bearer '' @ demo_bearer_of n) = Some (demo_bearer_of n)" by (simp only: strip_prefix_iff)
  then show ?thesis
    by (simp add: token_from_headers_def demo_headers_def header_def demo_web_def demo_bearer_of_def)
qed

lemma demo_bound: "normalize_fingerprint (demo_key_hash 9) = Ok (demo_key_hash 9)"
proof -
  have "demo_key_hash 9 = concat (replicate 32 [CHR ''0'', CHR ''9''])" by (simp only: demo_key_hash_eq demo_digits)
  then have set: "set (demo_key_hash 9) = {CHR ''0'', CHR ''9''}" by simp
  have len: "length (demo_key_hash 9) = 64" by (simp add: demo_key_hash_eq length_concat sum_list_replicate)
  have digits: "is_ascii_hexdigit CHR ''0''" "is_ascii_hexdigit CHR ''9''" by code_simp+
  let ?low = "\<lambda>c. let n = of_char c :: nat in if 65 \<le> n \<and> n \<le> 90 then char_of (n + 32) else c"
  have "map ?low (demo_key_hash 9) = demo_key_hash 9" by (rule map_idI) (auto simp: set)
  then have "to_ascii_lowercase (demo_key_hash 9) = demo_key_hash 9" unfolding to_ascii_lowercase_def .
  then show ?thesis using set len digits by (simp add: normalize_fingerprint_def hex64_def list_all_iff)
qed

lemma demo_server_ok: "server_ok hexed demo_server"
  using demo_key_hash_inj demo_bound
  by (simp add: server_ok_def api_keys_ok_def mail_ok_def mail_hashed_def docs_ok_def demo_server_def empty_relay_def
      demo_row_def api_row_ok_def)

lemma demo_routing: "routing_public_key demo_envelope = Ok (replicate 32 9)"
proof -
  have "parse_kqpb_outer demo_envelope = Ok (KIND_ROTATE, replicate 32 9, [5])"
    unfolding parse_kqpb_outer_Ok_iff by (simp add: demo_envelope_def)
  then show ?thesis by (simp add: routing_public_key_def)
qed

lemma demo_recipient: "fingerprint hexed (replicate 32 9) = demo_key_hash 9"
  by (simp add: fingerprint_def hexed_def demo_key_hash_def)

lemma demo_post:
  "\<exists>r1. handle demo_web hexed (PostInbox (demo_headers 1) demo_envelope) demo_server = ((201, AcceptedBody 1 (demo_key_hash 9)), r1)
     \<and> api_rows r1 = map (\<lambda>k. if a_hash k = demo_key_hash 1 then k\<lparr>a_used := Some 0\<rparr> else k) (api_rows demo_server)
     \<and> rl_clock r1 = 0"
proof -
  let ?r = "stamped (demo_key_hash 1) demo_server"
  have keys: "api_keys_ok demo_server" using demo_server_ok by (simp add: server_ok_def)
  have clock: "rl_clock demo_server = 0" by (simp add: demo_server_def empty_relay_def)
  have row: "api_by_hash demo_server (demo_key_hash 1) = Some (demo_row 1 1 ''inbox.push'' None)"
    by (simp add: api_by_hash_def demo_server_def demo_row_def)
  have au: "authenticate hexed (demo_bearer_of 1) InboxPush demo_server
      = (Ok \<lparr> au_id = 1, au_scope = InboxPush, au_fp = None \<rparr>, ?r)"
    unfolding authenticate_run [OF keys demo_key_bearer] row by (simp add: unexpired_def demo_row_def clock)
  have "mail_rows ?r = []" by (simp add: stamped_def demo_server_def empty_relay_def)
  then have st: "store_envelope hexed demo_envelope (?r\<lparr>rl_tx := True\<rparr>) = (Ok (1, demo_key_hash 9, False),
      ?r\<lparr>rl_tx := True, mail_rows := [\<lparr> ml_id = 1, ml_fp = demo_key_hash 9, ml_envelope = demo_envelope,
        ml_hash = hex_encode hexed (sha256 hexed demo_envelope) \<rparr>]\<rparr>)"
    by (simp add: store_envelope_run [OF demo_routing] mail_by_hash_def next_rowid_def demo_recipient)
  have "\<not> rl_tx ?r" by (simp add: stamped_def demo_server_def empty_relay_def)
  moreover have "push_body hexed demo_envelope [] (?r\<lparr>rl_tx := True\<rparr>) = store_envelope hexed demo_envelope (?r\<lparr>rl_tx := True\<rparr>)"
    by (simp add: push_body_def)
  ultimately have push: "\<exists>r1. relay_immediate (push_body hexed demo_envelope []) ?r = (Ok (1, demo_key_hash 9, False), r1)
      \<and> api_rows r1 = api_rows ?r \<and> rl_clock r1 = rl_clock ?r"
    unfolding relay_immediate_def st by simp
  have len: "\<not> MAX_ENVELOPE_BYTES < length demo_envelope" by (simp add: MAX_ENVELOPE_BYTES_def demo_envelope_def PACKAGE_MAGIC_def)
  have "parse_inbox_body demo_web hexed (demo_headers 1) demo_envelope = Ok (demo_envelope, [])"
    by (simp add: parse_inbox_body_def is_json_def header_def demo_headers_def)
  then have "\<exists>r1. handle demo_web hexed (PostInbox (demo_headers 1) demo_envelope) demo_server = ((201, AcceptedBody 1 (demo_key_hash 9)), r1)
     \<and> api_rows r1 = api_rows ?r \<and> rl_clock r1 = rl_clock ?r"
    using push len au by (auto simp: handle_def with_token_def demo_token_read post_inbox_def and_reply_def with_conn_def)
  moreover have "api_rows ?r = map (\<lambda>k. if a_hash k = demo_key_hash 1 then k\<lparr>a_used := Some 0\<rparr> else k) (api_rows demo_server)"
    "rl_clock ?r = 0" by (simp_all add: stamped_def clock)
  ultimately show ?thesis by (simp only:)
qed

theorem push_then_pull_witness:
  "\<exists>r1 l r2. handle demo_web hexed (PostInbox (demo_headers 1) demo_envelope) demo_server = ((201, AcceptedBody 1 (demo_key_hash 9)), r1)
     \<and> handle demo_web hexed (GetInbox (demo_headers 2) (Some 0) None) (relay_run demo_web hexed [Waiting 30] r1) = ((200, InboxBody l), r2)
     \<and> take 1 (il_envelopes l) = [\<lparr> ie_id = 1, ie_fp = demo_key_hash 9, ie_bytes = from_bytes demo_envelope \<rparr>]"
proof -
  let ?k = "demo_row 2 2 ''inbox.pull'' (Some (demo_key_hash 9))"
  obtain r1 where post: "handle demo_web hexed (PostInbox (demo_headers 1) demo_envelope) demo_server
      = ((201, AcceptedBody 1 (demo_key_hash 9)), r1)"
    and rows: "api_rows r1 = map (\<lambda>k. if a_hash k = demo_key_hash 1 then k\<lparr>a_used := Some 0\<rparr> else k) (api_rows demo_server)"
    and clock: "rl_clock r1 = 0"
    using demo_post by blast
  let ?r = "relay_run demo_web hexed [Waiting 30] r1"
  have r: "api_rows ?r = api_rows r1" "rl_clock ?r = 30" using clock by (simp_all add: relay_run_def)
  have key: "api_by_hash ?r (demo_key_hash 2) = Some ?k" "unexpired ?r ?k"
    using demo_key_hash_inj rows r by (simp_all add: api_by_hash_def unexpired_def demo_row_def demo_server_def)
  have k: "a_revoked ?k = None" "a_scope ?k = ''inbox.pull''" "a_fp ?k = Some (demo_key_hash 9)" by (simp_all add: demo_row_def)
  have page: "page_size None = Ok 100" by (simp add: page_size_def DEFAULT_INBOX_PAGE_def)
  have parse: "parse_inbox_body demo_web hexed (demo_headers 1) demo_envelope = Ok (demo_envelope, [])"
    by (simp add: parse_inbox_body_def is_json_def header_def demo_headers_def)
  from push_then_pull [OF demo_server_ok post demo_token_read demo_key_bearer key(1) k(1) key(2) k(2,3) page]
  obtain envelope trees l r2 e where got: "parse_inbox_body demo_web hexed (demo_headers 1) demo_envelope = Ok (envelope, trees)"
    "handle demo_web hexed (GetInbox (demo_headers 2) (Some (1 - 1)) None) ?r = ((200, InboxBody l), r2)"
    "take 1 (il_envelopes l) = [\<lparr> ie_id = 1, ie_fp = demo_key_hash 9, ie_bytes = b64_encode demo_web e \<rparr>]" "e = envelope"
    by auto
  have "b64_encode demo_web e = from_bytes demo_envelope" using got(1,4) parse by (simp add: demo_web_def)
  then show ?thesis using post got(2,3) by auto
qed

theorem licensee_controls_minting_witness:
  "list_all2 same_key (api_rows demo_server)
     (api_rows (relay_run demo_web hexed
        [HttpRequest (PostInbox (demo_headers 1) demo_envelope),
         HostKeys None (Ok (demo_bearer_of 7)) (KeysCreate ''admin'' None None None (Some ''kql_'')), Waiting 5,
         HostKeys None (Err InvalidPath) (KeysRevoke 1)] demo_server))"
proof -
  have "hash_prefixed hexed ''kql_'' LICENSEE_PREFIX = Err InvalidApiKey"
    by (simp add: hash_prefixed_def strip_prefix_def starts_with_def LICENSEE_PREFIX_def hexed_def BEARER_LEN_def)
  moreover have "issuer demo_server = Some (demo_key_hash 7)" by (simp add: demo_server_def)
  ultimately show ?thesis
    using licensee_controls_minting [OF demo_server_ok, of "demo_key_hash 7"]
    by (simp add: knows_issuer_def licensee_secret_def some_text_def)
qed

theorem requests_authorized_witness:
  "\<exists>r1. handle demo_web hexed (PostInbox (demo_headers 1) demo_envelope) demo_server = ((201, AcceptedBody 1 (demo_key_hash 9)), r1)
     \<and> server_ok hexed r1 \<and> issuer r1 = Some (demo_key_hash 7)"
proof -
  obtain r1 where post: "handle demo_web hexed (PostInbox (demo_headers 1) demo_envelope) demo_server
      = ((201, AcceptedBody 1 (demo_key_hash 9)), r1)"
    using demo_post by blast
  moreover have "issuer demo_server = Some (demo_key_hash 7)" by (simp add: demo_server_def)
  ultimately show ?thesis using requests_authorized [OF demo_server_ok post] by simp
qed

end
