(* ===== verification/RelayCredential.thy ===== *)
theory RelayCredential
  imports Crypto Strings
begin

text \<open>
  The personal store's copy of relay bearers (\<open>src/db/relay_credential.rs\<close>): one row for each relay
  and scope, the bearer sealed under a wrapping key of its own.
\<close>

section \<open>Operations\<close>

record stored_relay_key =
  sk_url :: string
  sk_scope :: string
  sk_hash :: string
  sk_token :: string
  sk_remote :: "int option"
  sk_label :: "string option"

definition normalize_url :: "string \<Rightarrow> string" where
  "normalize_url url = trim_end_matches (CHR ''/'') (trim url)"

definition relay_key_is :: "string \<Rightarrow> string \<Rightarrow> relay_row \<Rightarrow> bool" where
  "relay_key_is url scope r \<longleftrightarrow> r_url r = url \<and> r_scope r = scope"

definition relay_row_at :: "store \<Rightarrow> string \<Rightarrow> string \<Rightarrow> relay_row option" where
  "relay_row_at s url scope = find (relay_key_is url scope) (relay_rows s)"

text \<open>
  \<open>INSERT ... ON CONFLICT(relay_url, scope) DO UPDATE\<close>, after the \<open>CHECK\<close> on the scope.
\<close>

definition upsert_relay :: "relay_row \<Rightarrow> (store, unit) op" where
  "upsert_relay r = (\<lambda>s.
     if r_scope r \<notin> {''inbox.push'', ''inbox.pull'', ''admin''} then (Err (Db ConstraintViolation), s)
     else if relay_row_at s (r_url r) (r_scope r) = None then (Ok (), s\<lparr>relay_rows := relay_rows s @ [r]\<rparr>)
     else (Ok (), s\<lparr>relay_rows := map (\<lambda>q. if relay_key_is (r_url r) (r_scope r) q then r else q) (relay_rows s)\<rparr>))"

definition save_relay :: "crates \<Rightarrow> stored_relay_key \<Rightarrow> (store, unit) op" where
  "save_relay C cred =
     (let url = normalize_url (sk_url cred) in
      bind (random_key C) (\<lambda>wrap_key.
      bind (random_nonce C) (\<lambda>wrap_nonce.
      let wrapped_token = encrypt C wrap_key wrap_nonce (as_bytes (sk_token cred)) in
      (\<lambda>s. upsert_relay \<lparr> r_url = url, r_scope = sk_scope cred, r_hash = sk_hash cred,
         r_wrap_key = wrap_key, r_wrap_nonce = wrap_nonce, r_token = wrapped_token,
         r_remote = sk_remote cred, r_label = sk_label cred, r_stored = clock s, r_checked = Some (clock s) \<rparr> s))))"

definition unwrap_row :: "crates \<Rightarrow> relay_row \<Rightarrow> stored_relay_key result" where
  "unwrap_row C r =
     and_then (if length (r_wrap_key r) = KEY_LEN then Ok (r_wrap_key r) else Err IntegrityCheckFailed) (\<lambda>wrap_key.
     and_then (nonce_array (r_wrap_nonce r)) (\<lambda>wrap_nonce.
     and_then (ok_or IntegrityCheckFailed (decrypt C wrap_key wrap_nonce (r_token r))) (\<lambda>token.
     and_then (if utf8_valid token then Ok (from_bytes token) else Err IntegrityCheckFailed) (\<lambda>token.
     Ok \<lparr> sk_url = r_url r, sk_scope = r_scope r, sk_hash = r_hash r, sk_token = token,
          sk_remote = r_remote r, sk_label = r_label r \<rparr>))))"

definition get_relay :: "crates \<Rightarrow> string \<Rightarrow> string \<Rightarrow> store \<Rightarrow> stored_relay_key option result" where
  "get_relay C relay_url scope s =
     (case relay_row_at s (normalize_url relay_url) scope of
        None \<Rightarrow> Ok None
      | Some r \<Rightarrow> and_then (unwrap_row C r) (\<lambda>k. Ok (Some k)))"

fun unwrap_rows :: "crates \<Rightarrow> relay_row list \<Rightarrow> stored_relay_key list result" where
  "unwrap_rows C [] = Ok []"
| "unwrap_rows C (r # rs) = and_then (unwrap_row C r) (\<lambda>k. and_then (unwrap_rows C rs) (\<lambda>ks. Ok (k # ks)))"

definition get_for_scope :: "crates \<Rightarrow> string \<Rightarrow> store \<Rightarrow> stored_relay_key list result" where
  "get_for_scope C scope s = unwrap_rows C (filter (\<lambda>r. r_scope r = scope) (relay_rows s))"

definition touch_checked :: "string \<Rightarrow> string \<Rightarrow> (store, unit) op" where
  "touch_checked relay_url scope = modify (\<lambda>s. s\<lparr>relay_rows :=
     map (\<lambda>r. if relay_key_is (normalize_url relay_url) scope r then r\<lparr>r_checked := Some (clock s)\<rparr> else r) (relay_rows s)\<rparr>)"

definition delete_relay :: "string \<Rightarrow> string \<Rightarrow> (store, unit) op" where
  "delete_relay relay_url scope = modify (\<lambda>s. s\<lparr>relay_rows :=
     filter (\<lambda>r. \<not> relay_key_is (normalize_url relay_url) scope r) (relay_rows s)\<rparr>)"

section \<open>What each operation does to a credential\<close>

text \<open>Nothing but the credentials and the random generator changes.\<close>

definition relay_frame :: "store \<Rightarrow> store \<Rightarrow> bool" where
  "relay_frame s s' \<longleftrightarrow> (\<exists>rows d. s' = s\<lparr>relay_rows := rows, draws := d\<rparr>)"

lemma relay_key_is_update [simp]: "relay_key_is url scope (r\<lparr>r_checked := t\<rparr>) = relay_key_is url scope r"
  by (simp add: relay_key_is_def)

lemma relay_row_at_key: "relay_row_at s url scope = Some r \<Longrightarrow> r_url r = url \<and> r_scope r = scope \<and> r \<in> set (relay_rows s)"
  unfolding relay_row_at_def by (auto simp: relay_key_is_def dest: find_SomeD)

definition relay_scope_ok :: "string \<Rightarrow> bool" where
  "relay_scope_ok scope \<longleftrightarrow> scope \<in> {''inbox.push'', ''inbox.pull'', ''admin''}"

definition sealed_row :: "crates \<Rightarrow> stored_relay_key \<Rightarrow> store \<Rightarrow> relay_row" where
  "sealed_row C cred s =
     \<lparr> r_url = normalize_url (sk_url cred), r_scope = sk_scope cred, r_hash = sk_hash cred,
       r_wrap_key = os_bytes C (draws s) 32, r_wrap_nonce = os_bytes C (Suc (draws s)) 12,
       r_token = encrypt C (os_bytes C (draws s) 32) (os_bytes C (Suc (draws s)) 12) (as_bytes (sk_token cred)),
       r_remote = sk_remote cred, r_label = sk_label cred, r_stored = clock s, r_checked = Some (clock s) \<rparr>"

lemma save_relay_run:
  "save_relay C cred s =
     (let t = s\<lparr>draws := Suc (Suc (draws s))\<rparr> in
      if \<not> relay_scope_ok (sk_scope cred) then (Err (Db ConstraintViolation), t)
      else (Ok (), t\<lparr>relay_rows :=
        (if relay_row_at s (normalize_url (sk_url cred)) (sk_scope cred) = None then relay_rows s @ [sealed_row C cred s]
         else map (\<lambda>q. if relay_key_is (normalize_url (sk_url cred)) (sk_scope cred) q then sealed_row C cred s else q) (relay_rows s))\<rparr>))"
  by (simp add: save_relay_def upsert_relay_def sealed_row_def relay_scope_ok_def relay_row_at_def Let_def bind_run)

lemma find_replace:
  "find P xs \<noteq> None \<Longrightarrow> P y \<Longrightarrow> find P (map (\<lambda>x. if P x then y else x) xs) = Some y"
  by (induction xs) auto

lemma find_other:
  "(\<And>x. \<not> (P x \<and> Q x)) \<Longrightarrow> \<not> Q y \<Longrightarrow> find Q (map (\<lambda>x. if P x then y else x) xs) = find Q xs"
  by (induction xs) auto

lemma save_relay_lookup:
  assumes "save_relay C cred s = (Ok (), s')"
  shows "relay_row_at s' url scope =
      (if normalize_url (sk_url cred) = url \<and> sk_scope cred = scope then Some (sealed_row C cred s)
       else relay_row_at s url scope)"
    and "relay_frame s s'" "relay_scope_ok (sk_scope cred)"
proof -
  let ?u = "normalize_url (sk_url cred)" and ?c = "sk_scope cred"
  let ?rows = "if relay_row_at s ?u ?c = None then relay_rows s @ [sealed_row C cred s]
      else map (\<lambda>q. if relay_key_is ?u ?c q then sealed_row C cred s else q) (relay_rows s)"
  have sc: "relay_scope_ok ?c" and s': "s' = s\<lparr>draws := Suc (Suc (draws s)), relay_rows := ?rows\<rparr>"
    using assms by (auto simp: save_relay_run Let_def split: if_splits)
  have own: "relay_key_is url scope (sealed_row C cred s) \<longleftrightarrow> ?u = url \<and> ?c = scope"
    by (simp add: relay_key_is_def sealed_row_def)
  show "relay_row_at s' url scope = (if ?u = url \<and> ?c = scope then Some (sealed_row C cred s) else relay_row_at s url scope)"
  proof (cases "relay_row_at s ?u ?c = None")
    case True
    then show ?thesis using own unfolding s' by (auto simp: relay_row_at_def find_append split: option.split)
  next
    case hit: False
    show ?thesis
    proof (cases "?u = url \<and> ?c = scope")
      case True
      then show ?thesis using hit own find_replace [of "relay_key_is ?u ?c" "relay_rows s" "sealed_row C cred s"] unfolding s'
        by (auto simp: relay_row_at_def)
    next
      case False
      then have "\<not> (relay_key_is ?u ?c q \<and> relay_key_is url scope q)" for q by (auto simp: relay_key_is_def)
      from find_other [of "relay_key_is ?u ?c" "relay_key_is url scope" "sealed_row C cred s" "relay_rows s", OF this]
      have "find (relay_key_is url scope) ?rows = relay_row_at s url scope"
        unfolding if_not_P [OF hit] using False own by (simp only: relay_row_at_def) blast
      then show ?thesis unfolding s' if_not_P [OF False] by (simp add: relay_row_at_def)
    qed
  qed
  show "relay_frame s s'" unfolding relay_frame_def s' by (cases s) auto
  show "relay_scope_ok ?c" by (rule sc)
qed

lemma unwrap_sealed_key:
  assumes "aes_ok C" "os_ok C" "utf8_str (sk_token cred)"
  shows "unwrap_row C (sealed_row C cred s) = Ok (cred\<lparr>sk_url := normalize_url (sk_url cred)\<rparr>)"
  using assms by (simp add: unwrap_row_def sealed_row_def os_ok_def KEY_LEN_def utf8_str_def)

lemma touch_lookup:
  "relay_row_at (snd (touch_checked u c s)) url scope =
     map_option (\<lambda>r. if relay_key_is (normalize_url u) c r then r\<lparr>r_checked := Some (clock s)\<rparr> else r) (relay_row_at s url scope)"
  unfolding relay_row_at_def touch_checked_def by (simp, rule find_cong_map) simp

lemma unwrap_touched [simp]: "unwrap_row C (r\<lparr>r_checked := t\<rparr>) = unwrap_row C r"
  by (simp add: unwrap_row_def)

lemma get_touched: "get_relay C url scope (snd (touch_checked u c s)) = get_relay C url scope s"
  by (auto simp: get_relay_def touch_lookup split: option.split)

lemma find_filter_other: "(\<And>x. Q x \<Longrightarrow> P x) \<Longrightarrow> find Q (filter P xs) = find Q xs"
  by (induction xs) auto

lemma delete_lookup:
  "relay_row_at (snd (delete_relay u c s)) url scope =
     (if normalize_url u = url \<and> c = scope then None else relay_row_at s url scope)"
proof (cases "normalize_url u = url \<and> c = scope")
  case True
  then show ?thesis by (auto simp: relay_row_at_def delete_relay_def find_None_iff)
next
  case False
  have "find (relay_key_is url scope) (filter (\<lambda>r. \<not> relay_key_is (normalize_url u) c r) (relay_rows s))
      = find (relay_key_is url scope) (relay_rows s)"
    by (rule find_filter_other) (use False in \<open>auto simp: relay_key_is_def\<close>)
  then show ?thesis unfolding if_not_P [OF False] by (simp add: relay_row_at_def delete_relay_def)
qed

text \<open>
  C40: A saved bearer comes back, under any spelling of the relay's address with the same normal form,
  with the hash, remote id and label it was saved with; saving it replaces what was stored for that
  relay and scope and touches no other credential and no other table; checking it changes no
  credential, and deleting it removes exactly that one.
\<close>
theorem relay_credential_round_trip:
  assumes "aes_ok C" "os_ok C" "utf8_str (sk_token cred)" "save_relay C cred s = (Ok (), s')"
    and "normalize_url url = normalize_url (sk_url cred)"
  shows "get_relay C url (sk_scope cred) s' = Ok (Some (cred\<lparr>sk_url := normalize_url (sk_url cred)\<rparr>))
    \<and> relay_frame s s'
    \<and> (\<forall>u c. (normalize_url u, c) \<noteq> (normalize_url (sk_url cred), sk_scope cred) \<longrightarrow>
          get_relay C u c s' = get_relay C u c s \<and> get_relay C u c (snd (delete_relay url (sk_scope cred) s')) = get_relay C u c s)
    \<and> (\<forall>u c v d. get_relay C u c (snd (touch_checked v d s')) = get_relay C u c s')
    \<and> get_relay C url (sk_scope cred) (snd (delete_relay url (sk_scope cred) s')) = Ok None"
proof -
  note look = save_relay_lookup [OF assms(4)]
  show ?thesis
    using look assms(5) unwrap_sealed_key [OF assms(1-3)] get_touched by (simp add: get_relay_def delete_lookup)
qed

definition demo_relay_key :: stored_relay_key where
  "demo_relay_key = \<lparr> sk_url = ''h/'', sk_scope = ''admin'', sk_hash = ''h'', sk_token = ''kq_x'', sk_remote = Some 3, sk_label = None \<rparr>"

theorem relay_credential_round_trip_witness:
  "\<exists>s'. save_relay toy demo_relay_key empty_store = (Ok (), s')
     \<and> get_relay toy ''h'' ''admin'' s' = Ok (Some (demo_relay_key\<lparr>sk_url := ''h''\<rparr>))"
proof -
  obtain s' where run: "save_relay toy demo_relay_key empty_store = (Ok (), s')"
    by (simp add: save_relay_run demo_relay_key_def relay_scope_ok_def Let_def)
  have url: "normalize_url ''h'' = ''h''" "normalize_url (sk_url demo_relay_key) = ''h''"
    using trim_visible [of "''h''"] trim_visible [of "''h/''"]
    by (simp_all add: normalize_url_def trim_end_matches_def visible_ascii_def demo_relay_key_def)
  have "utf8_str (sk_token demo_relay_key)" by (simp add: utf8_str_def demo_relay_key_def as_bytes_def)
  from relay_credential_round_trip [OF toy_aes_ok toy_os_ok this run, of "''h''"] url run
  show ?thesis by (simp add: demo_relay_key_def)
qed

end
