(* ===== verification/Commands.thy ===== *)
theory Commands
  imports Pin Sharing Export BridgeOps
begin

text \<open>
  The commands of \<open>src/bin/keyquorum/main.rs\<close> on the vault, on password-locked files, on share links,
  exports, PINs and signatures. What \<open>clap\<close> has checked of the arguments is in the types. A prompt
  is answered by \<open>typed\<close>, from its text; what is printed for the user is the value of the command.
\<close>

section \<open>Outcomes\<close>

text \<open>
  A command may also leave the process with a usage message, and a loop of the library that does not
  return is an outcome of its own.
\<close>

datatype 'a outcome = Done 'a | Failed error | UsageExit | Unending

type_synonym 'a run = "store \<Rightarrow> 'a outcome \<times> store"

definition finish :: "'a \<Rightarrow> 'a run" where "finish a = (\<lambda>s. (Done a, s))"

definition after_run :: "'a run \<Rightarrow> ('a \<Rightarrow> 'b run) \<Rightarrow> 'b run" where
  "after_run m f = (\<lambda>s. case m s of
       (Done a, s') \<Rightarrow> f a s'
     | (Failed e, s') \<Rightarrow> (Failed e, s')
     | (UsageExit, s') \<Rightarrow> (UsageExit, s')
     | (Unending, s') \<Rightarrow> (Unending, s'))"

definition doing :: "(store, 'a) op \<Rightarrow> 'a run" where
  "doing m = (\<lambda>s. case m s of (Ok a, s') \<Rightarrow> (Done a, s') | (Err e, s') \<Rightarrow> (Failed e, s'))"

definition looking :: "(store \<Rightarrow> 'a outcome) \<Rightarrow> 'a run" where
  "looking q = (\<lambda>s. (q s, s))"

definition of_result :: "'a result \<Rightarrow> 'a outcome" where
  "of_result r = (case r of Ok a \<Rightarrow> Done a | Err e \<Rightarrow> Failed e)"

definition and_done :: "'a outcome \<Rightarrow> ('a \<Rightarrow> 'b outcome) \<Rightarrow> 'b outcome" where
  "and_done x f = (case x of Done a \<Rightarrow> f a | Failed e \<Rightarrow> Failed e | UsageExit \<Rightarrow> UsageExit | Unending \<Rightarrow> Unending)"

definition of_fuel :: "'a result option \<Rightarrow> 'a outcome" where
  "of_fuel x = (case x of None \<Rightarrow> Unending | Some r \<Rightarrow> of_result r)"

lemma after_run_Done: "after_run m f s = (Done b, t) \<longleftrightarrow> (\<exists>a u. m s = (Done a, u) \<and> f a u = (Done b, t))"
  by (auto simp: after_run_def split: prod.splits outcome.splits)

lemma and_done_Done [simp]: "and_done x f = Done b \<longleftrightarrow> (\<exists>a. x = Done a \<and> f a = Done b)"
  by (auto simp: and_done_def split: outcome.splits)

lemma of_result_Done [simp]: "of_result r = Done a \<longleftrightarrow> r = Ok a"
  by (auto simp: of_result_def split: sum.splits)

lemma of_fuel_Done [simp]: "of_fuel x = Done a \<longleftrightarrow> x = Some (Ok a)"
  by (auto simp: of_fuel_def split: option.splits)

lemma doing_Done: "doing m s = (Done a, t) \<longleftrightarrow> m s = (Ok a, t)"
  by (auto simp: doing_def split: prod.splits sum.splits)

lemma doing_run: "doing m s = (x, t) \<longleftrightarrow> (\<exists>res. m s = (res, t) \<and> x = of_result res)"
  by (cases "m s"; cases "fst (m s)") (auto simp: doing_def of_result_def)

lemma looking_run [simp]: "looking q s = (q s, s)"
  by (simp add: looking_def)

text \<open>\<open>split_once\<close> at a one-byte character.\<close>

definition split_once :: "char \<Rightarrow> string \<Rightarrow> (string \<times> string) option" where
  "split_once c s = (if c \<in> set s then Some (takeWhile (\<lambda>d. d \<noteq> c) s, tl (dropWhile (\<lambda>d. d \<noteq> c) s)) else None)"

text \<open>Printing an integer, and \<open>parse::<i64>\<close>.\<close>

fun show_nat :: "nat \<Rightarrow> string" where
  "show_nat n = (if n < 10 then [char_of (48 + n)] else show_nat (n div 10) @ [char_of (48 + n mod 10)])"

declare show_nat.simps [simp del]

definition show_int :: "int \<Rightarrow> string" where
  "show_int i = (if i < 0 then ''-'' @ show_nat (nat (- i)) else show_nat (nat i))"

definition parse_digits :: "string \<Rightarrow> int option" where
  "parse_digits s =
     (if s \<noteq> [] \<and> list_all (\<lambda>c. 48 \<le> (of_char c :: nat) \<and> (of_char c :: nat) \<le> 57) s
      then Some (foldl (\<lambda>v c. 10 * v + (of_char c - 48)) 0 s) else None)"

definition parse_i64 :: "string \<Rightarrow> int option" where
  "parse_i64 s =
     (let v = (case s of
          [] \<Rightarrow> None
        | c # ds \<Rightarrow> if c = CHR ''-'' then map_option uminus (parse_digits ds)
                    else if c = CHR ''+'' then parse_digits ds else parse_digits s) in
      Option.bind v (\<lambda>v. if - (2 ^ 63) \<le> v \<and> v < 2 ^ 63 then Some v else None))"

section \<open>Prompts and key files\<close>

type_synonym answers = "string \<Rightarrow> string result"

definition prompt_secret :: "answers \<Rightarrow> string \<Rightarrow> (store, string) op" where
  "prompt_secret typed prompt = lift_result (typed prompt)"

definition PIN_TTL_SECONDS :: int where "PIN_TTL_SECONDS = 3600"

definition set_default_pin :: "crates \<Rightarrow> resource_type \<Rightarrow> int \<Rightarrow> string \<Rightarrow> (store, unit) op" where
  "set_default_pin C t i pin = set_pin C t i pin False PIN_TTL_SECONDS"

text \<open>\<open>fs::read_to_string\<close> and the key parser.\<close>

definition read_text :: "store \<Rightarrow> string \<Rightarrow> string result" where
  "read_text s p = and_then (read_file s p) (\<lambda>b. if utf8_valid b then Ok (from_bytes b) else Err (Io IoFault))"

definition read_key_bytes :: "crates \<Rightarrow> store \<Rightarrow> string \<Rightarrow> bytes result" where
  "read_key_bytes C s p = and_then (read_text s p) (parse_key_text C)"

definition read_key_array_32 :: "crates \<Rightarrow> store \<Rightarrow> string \<Rightarrow> bytes result" where
  "read_key_array_32 C s p =
     and_then (read_key_bytes C s p) (\<lambda>b. if length b = 32 then Ok b else Err InvalidPublicKey)"

definition read_hex_bytes :: "crates \<Rightarrow> store \<Rightarrow> string \<Rightarrow> bytes result" where
  "read_hex_bytes C s p = and_then (read_text s p) (\<lambda>t. ok_or InvalidPublicKey (hex_decode C (trim t)))"

definition read_hex_array_64 :: "crates \<Rightarrow> store \<Rightarrow> string \<Rightarrow> bytes result" where
  "read_hex_array_64 C s p =
     and_then (read_hex_bytes C s p) (\<lambda>b. if length b = 64 then Ok b else Err InvalidPublicKey)"

text \<open>\<open>Path::join\<close> with a plain file name, and making a directory with those above it.\<close>

definition join_path :: "string \<Rightarrow> string \<Rightarrow> string" where
  "join_path dir name = (if dir = [] \<or> last dir = CHR ''/'' then dir @ name else dir @ ''/'' @ name)"

definition create_dir_all :: "string \<Rightarrow> (store, unit) op" where
  "create_dir_all dir = (\<lambda>s. if dir \<in> bad_paths s then (Err (Io IoFault), s) else (Ok (), s))"

section \<open>The commands\<close>

text \<open>The gate before a secret comes out.\<close>

definition pin_gate :: "crates \<Rightarrow> answers \<Rightarrow> resource_type \<Rightarrow> int \<Rightarrow> (store, unit) op" where
  "pin_gate C typed t i =
     bind (asks (\<lambda>s. verification_required s t i)) (\<lambda>required.
     if required then bind (prompt_secret typed ''PIN: '') (\<lambda>pin. verify_pin C t i pin) else ret ())"

datatype vault_command =
    VaultAdd string "string option" bool
  | VaultGet int

datatype access_password =
    AccessLock string string bool
  | AccessUnlock int "string option"

datatype export_command =
    ExportCredential int string string
  | ExportFile int string string

datatype share_command =
    CreateCredential int int "int option" bool bool
  | CreateFile int int "int option" bool bool
  | RedeemCredential
  | RedeemFile
  | RevokeCredential int
  | RevokeFile int

datatype printed =
    Nothing
  | Stored int
  | ShownCredential credential
  | ShownBytes bytes
  | ShownShare share
  | Redeemed int

fun run_vault :: "crates \<Rightarrow> answers \<Rightarrow> vault_command \<Rightarrow> (store, printed) op" where
  "run_vault C typed (VaultAdd label username with_pin) =
     bind (prompt_secret typed ''Credential password: '') (\<lambda>password.
     bind (prompt_secret typed ''Master password: '') (\<lambda>master.
     bind (add_credential C label username password master) (\<lambda>i.
     bind (if with_pin then bind (prompt_secret typed ''Set a 4-digit PIN: '') (\<lambda>pin. set_default_pin C Credential i pin)
           else ret ()) (\<lambda>_.
     ret (Stored i)))))"
| "run_vault C typed (VaultGet i) =
     bind (pin_gate C typed Credential i) (\<lambda>_.
     bind (prompt_secret typed ''Master password: '') (\<lambda>master.
     bind (asks (\<lambda>s. get_credential C s i master)) (\<lambda>c.
     ret (ShownCredential c))))"

fun run_access_password :: "crates \<Rightarrow> answers \<Rightarrow> access_password \<Rightarrow> (store, printed) op" where
  "run_access_password C typed (AccessLock source encrypted with_pin) =
     bind (prompt_secret typed ''Lock password: '') (\<lambda>password.
     bind (lock_file C source encrypted password) (\<lambda>i.
     bind (if with_pin then bind (prompt_secret typed ''Set a 4-digit PIN: '') (\<lambda>pin. set_default_pin C LockedFile i pin)
           else ret ()) (\<lambda>_.
     ret (Stored i))))"
| "run_access_password C typed (AccessUnlock i output) =
     bind (pin_gate C typed LockedFile i) (\<lambda>_.
     bind (prompt_secret typed ''Unlock password: '') (\<lambda>password.
     bind (asks (\<lambda>s. unlock_file C s i password)) (\<lambda>plain.
     case output of
       Some p \<Rightarrow> bind (write_owner_only p plain) (\<lambda>_. ret Nothing)
     | None \<Rightarrow> ret (ShownBytes plain))))"

fun run_export :: "crates \<Rightarrow> answers \<Rightarrow> export_command \<Rightarrow> (store, printed) op" where
  "run_export C typed (ExportCredential i key_file output) =
     bind (asks (\<lambda>s. read_key_array_32 C s key_file)) (\<lambda>pk.
     bind (prompt_secret typed ''Master password: '') (\<lambda>master.
     bind (export_credential C i master pk) (\<lambda>bundle.
     bind (write_owner_only output bundle) (\<lambda>_. ret Nothing))))"
| "run_export C typed (ExportFile i key_file output) =
     bind (asks (\<lambda>s. read_key_array_32 C s key_file)) (\<lambda>pk.
     bind (prompt_secret typed ''Unlock password: '') (\<lambda>password.
     bind (export_file C i password pk) (\<lambda>bundle.
     bind (write_owner_only output bundle) (\<lambda>_. ret Nothing))))"

definition pin_for_share :: "crates \<Rightarrow> answers \<Rightarrow> resource_type \<Rightarrow> int \<Rightarrow> bool \<Rightarrow> bool \<Rightarrow> (store, unit) op" where
  "pin_for_share C typed t i with_pin every_use =
     (if with_pin
      then bind (prompt_secret typed ''Set a 4-digit PIN for this share: '') (\<lambda>pin. set_pin C t i pin every_use PIN_TTL_SECONDS)
      else ret ())"

fun run_share :: "crates \<Rightarrow> answers \<Rightarrow> share_command \<Rightarrow> (store, printed) op" where
  "run_share C typed (CreateCredential i ttl max_uses with_pin every_use) =
     bind (create_credential_share C i ttl max_uses) (\<lambda>share.
     bind (pin_for_share C typed CredentialShare (sh_id share) with_pin every_use) (\<lambda>_.
     ret (ShownShare share)))"
| "run_share C typed (CreateFile i ttl max_uses with_pin every_use) =
     bind (create_file_share C i ttl max_uses) (\<lambda>share.
     bind (pin_for_share C typed FileShare (sh_id share) with_pin every_use) (\<lambda>_.
     ret (ShownShare share)))"
| "run_share C typed RedeemCredential =
     bind (prompt_secret typed ''Credential share token: '') (\<lambda>token.
     bind (asks (\<lambda>s. credential_share_id_for_token C s token)) (\<lambda>i.
     bind (pin_gate C typed CredentialShare i) (\<lambda>_.
     bind (redeem_credential_share C token) (\<lambda>c. ret (Redeemed c)))))"
| "run_share C typed RedeemFile =
     bind (prompt_secret typed ''File share token: '') (\<lambda>token.
     bind (asks (\<lambda>s. file_share_id_for_token C s token)) (\<lambda>i.
     bind (pin_gate C typed FileShare i) (\<lambda>_.
     bind (redeem_file_share C token) (\<lambda>f. ret (Redeemed f)))))"
| "run_share C typed (RevokeCredential i) = bind (revoke_credential_share i) (\<lambda>_. ret Nothing)"
| "run_share C typed (RevokeFile i) = bind (revoke_file_share i) (\<lambda>_. ret Nothing)"

definition run_pin_relock :: "resource_type \<Rightarrow> int \<Rightarrow> (store, printed) op" where
  "run_pin_relock t i = bind (relock t i) (\<lambda>_. ret Nothing)"

definition run_verify_bridge :: "crates \<Rightarrow> string \<Rightarrow> string \<Rightarrow> string \<Rightarrow> string \<Rightarrow> (store, printed) op" where
  "run_verify_bridge C uid as_node message_file signature_file =
     bind (asks (\<lambda>s. read_file s message_file)) (\<lambda>message.
     bind (asks (\<lambda>s. read_file s signature_file)) (\<lambda>data.
     bind (lift_result (decode_bridge_signature data)) (\<lambda>artifact.
     bind (asks (\<lambda>s. verify_message C s uid as_node message artifact)) (\<lambda>_. ret Nothing))))"

definition run_verify_key :: "crates \<Rightarrow> string \<Rightarrow> string \<Rightarrow> string \<Rightarrow> (store, printed) op" where
  "run_verify_key C key_file message_file signature_file =
     bind (asks (\<lambda>s. read_file s message_file)) (\<lambda>message.
     bind (asks (\<lambda>s. read_key_array_32 C s key_file)) (\<lambda>pk.
     bind (asks (\<lambda>s. read_hex_array_64 C s signature_file)) (\<lambda>sg.
     bind (lift_result (verify_signature C pk message sg)) (\<lambda>_. ret Nothing))))"

definition run_sign :: "crates \<Rightarrow> string \<Rightarrow> string \<Rightarrow> string \<Rightarrow> string \<Rightarrow> string \<Rightarrow> string \<Rightarrow> (store, printed) op" where
  "run_sign C uid node signing_key_file share_file message_file signature_out =
     bind (asks (\<lambda>s. read_key_array_32 C s share_file)) (\<lambda>encryption_sk.
     bind (asks (\<lambda>s. read_key_array_32 C s signing_key_file)) (\<lambda>signing_sk.
     bind (asks (\<lambda>s. read_file s message_file)) (\<lambda>message.
     bind (sign_message C uid node encryption_sk signing_sk message) (\<lambda>artifact.
     bind (lift_result (encode_bridge_signature artifact)) (\<lambda>out.
     bind (write_owner_only signature_out out) (\<lambda>_. ret Nothing))))))"

section \<open>No secret without its PIN\<close>

text \<open>
  There is no PIN, or it is not locked and either still verified from before or typed correctly.
\<close>

definition pin_passed :: "crates \<Rightarrow> answers \<Rightarrow> store \<Rightarrow> resource_type \<Rightarrow> int \<Rightarrow> bool" where
  "pin_passed C typed s t i \<longleftrightarrow> (case find_pin s t i of None \<Rightarrow> True
     | Some r \<Rightarrow> p_locked r = None \<and> (window_open s r
         \<or> (\<exists>pin. typed ''PIN: '' = Ok pin \<and> argon2id C pin (p_salt r) = Some (p_hash r))))"

definition only_pins :: "store \<Rightarrow> store \<Rightarrow> bool" where
  "only_pins s s' \<longleftrightarrow> (\<exists>rows. s' = s\<lparr>pin_rows := rows\<rparr>)"

lemma only_pins_refl [simp]: "only_pins s s"
  unfolding only_pins_def by (rule exI [of _ "pin_rows s"]) simp

lemma only_pins_update [simp]: "only_pins s (update_pin i f s)"
  unfolding only_pins_def update_pin_def by blast

lemma verification_required_run:
  "verification_required s t i =
     (case find_pin s t i of None \<Rightarrow> Ok False | Some r \<Rightarrow> Ok (p_locked r \<noteq> None \<or> \<not> window_open s r))"
  by (auto simp: verification_required_def get_pin_row_def window_open_def split: option.split)

lemma pin_gate_run:
  assumes "pins_ok s"
  shows "(pin_passed C typed s t i \<longrightarrow> (\<exists>s'. pin_gate C typed t i s = (Ok (), s') \<and> only_pins s s'))
    \<and> (\<not> pin_passed C typed s t i \<longrightarrow> (\<exists>e s'. pin_gate C typed t i s = (Err e, s') \<and> only_pins s s'))"
proof (cases "find_pin s t i")
  case None
  then show ?thesis by (simp add: pin_gate_def verification_required_run pin_passed_def bind_run)
next
  case (Some r)
  note run = verify_pin_run [OF assms Some, of C]
  show ?thesis
  proof (cases "typed ''PIN: ''")
    case (Inl e)
    then show ?thesis using Some
      by (auto simp: pin_gate_def verification_required_run pin_passed_def bind_run prompt_secret_def)
  next
    case (Inr pin)
    then show ?thesis using Some
      by (auto simp: pin_gate_def verification_required_run pin_passed_def bind_run prompt_secret_def run split: option.split)
  qed
qed

lemma pin_gate_refuses:
  assumes "pins_ok s" "\<not> pin_passed C typed s t i"
  shows "\<exists>e s'. bind (pin_gate C typed t i) f s = (Err e, s') \<and> only_pins s s'"
  using pin_gate_run [OF assms(1), of C typed t i] assms(2) by (auto simp: bind_run)

text \<open>What is read does not depend on the PINs.\<close>

lemma pins_apart [simp]:
  "get_credential C (s\<lparr>pin_rows := rows\<rparr>) i master = get_credential C s i master"
  "unlock_file C (s\<lparr>pin_rows := rows\<rparr>) i password = unlock_file C s i password"
  by (simp_all add: get_credential_def unlock_file_def cred.row_of_def locked.row_of_def read_file_def)

text \<open>
  C23: A resource that has a PIN gives nothing away without it: unless the PIN is not locked and was
  typed correctly or is still verified from before, reading a credential, unlocking a file and
  redeeming a share of either fail and change nothing but the count of attempts, whatever the
  passwords and the token are. With the PIN and the right password they show what is stored.
\<close>
theorem pin_gates_secrets:
  assumes "pins_ok s"
  shows "(\<not> pin_passed C typed s Credential i \<longrightarrow>
        (\<exists>e s'. run_vault C typed (VaultGet i) s = (Err e, s') \<and> only_pins s s'))
    \<and> (\<not> pin_passed C typed s LockedFile i \<longrightarrow>
        (\<exists>e s'. run_access_password C typed (AccessUnlock i output) s = (Err e, s') \<and> only_pins s s'))
    \<and> (\<forall>token j. typed ''Credential share token: '' = Ok token \<and> credential_share_id_for_token C s token = Ok j
        \<and> \<not> pin_passed C typed s CredentialShare j \<longrightarrow>
          (\<exists>e s'. run_share C typed RedeemCredential s = (Err e, s') \<and> only_pins s s'))
    \<and> (\<forall>token j. typed ''File share token: '' = Ok token \<and> file_share_id_for_token C s token = Ok j
        \<and> \<not> pin_passed C typed s FileShare j \<longrightarrow>
          (\<exists>e s'. run_share C typed RedeemFile s = (Err e, s') \<and> only_pins s s'))
    \<and> (\<forall>master c. pin_passed C typed s Credential i \<and> typed ''Master password: '' = Ok master \<and> get_credential C s i master = Ok c \<longrightarrow>
          (\<exists>s'. run_vault C typed (VaultGet i) s = (Ok (ShownCredential c), s') \<and> only_pins s s'))
    \<and> (\<forall>password plain. pin_passed C typed s LockedFile i \<and> typed ''Unlock password: '' = Ok password
        \<and> unlock_file C s i password = Ok plain \<longrightarrow>
          (\<exists>s'. run_access_password C typed (AccessUnlock i None) s = (Ok (ShownBytes plain), s') \<and> only_pins s s'))"
proof -
  note gate = pin_gate_run [OF assms, of C typed] and refuse = pin_gate_refuses [OF assms, of C typed]
  have "\<exists>s'. run_vault C typed (VaultGet i) s = (Ok (ShownCredential c), s') \<and> only_pins s s'"
    if "pin_passed C typed s Credential i" "typed ''Master password: '' = Ok master" "get_credential C s i master = Ok c" for master c
    using gate [of Credential i] that by (auto simp: bind_run prompt_secret_def only_pins_def)
  moreover have "\<exists>s'. run_access_password C typed (AccessUnlock i None) s = (Ok (ShownBytes plain), s') \<and> only_pins s s'"
    if "pin_passed C typed s LockedFile i" "typed ''Unlock password: '' = Ok password" "unlock_file C s i password = Ok plain"
    for password plain
    using gate [of LockedFile i] that by (auto simp: bind_run prompt_secret_def only_pins_def)
  moreover have "\<exists>e s'. run_share C typed RedeemCredential s = (Err e, s') \<and> only_pins s s'"
    if "typed ''Credential share token: '' = Ok token" "credential_share_id_for_token C s token = Ok j"
      "\<not> pin_passed C typed s CredentialShare j" for token j
    using refuse [OF that(3)] that(1,2) by (simp add: prompt_secret_def)
  moreover have "\<exists>e s'. run_share C typed RedeemFile s = (Err e, s') \<and> only_pins s s'"
    if "typed ''File share token: '' = Ok token" "file_share_id_for_token C s token = Ok j"
      "\<not> pin_passed C typed s FileShare j" for token j
    using refuse [OF that(3)] that(1,2) by (simp add: prompt_secret_def)
  moreover have "\<exists>e s'. run_vault C typed (VaultGet i) s = (Err e, s') \<and> only_pins s s'" if "\<not> pin_passed C typed s Credential i"
    using refuse [OF that] by simp
  moreover have "\<exists>e s'. run_access_password C typed (AccessUnlock i output) s = (Err e, s') \<and> only_pins s s'"
    if "\<not> pin_passed C typed s LockedFile i"
    using refuse [OF that] by simp
  ultimately show ?thesis by blast
qed

definition pin_answers :: "string \<Rightarrow> answers" where
  "pin_answers pin = (\<lambda>prompt. if prompt = ''PIN: '' then Ok pin else Ok ''m'')"

definition guarded_store :: store where
  "guarded_store = snd (add_credential toy ''mail'' None ''pw'' ''m'' (empty_store\<lparr>pin_rows :=
     [\<lparr> p_id = 1, p_type = Credential, p_resource = 1, p_hash = take 32 (as_bytes ''1234'' @ [9] @ replicate 32 0), p_salt = [9],
        p_every_use = True, p_ttl = 60, p_attempts = 0, p_locked = None, p_until = None \<rparr>]\<rparr>))"

theorem pin_gates_secrets_witness:
  "\<exists>e s'. run_vault toy (pin_answers ''0000'') (VaultGet 1) guarded_store = (Err e, s') \<and> only_pins guarded_store s'"
proof -
  have pins: "pin_rows guarded_store =
     [\<lparr> p_id = 1, p_type = Credential, p_resource = 1, p_hash = take 32 (as_bytes ''1234'' @ [9] @ replicate 32 0), p_salt = [9],
        p_every_use = True, p_ttl = 60, p_attempts = 0, p_locked = None, p_until = None \<rparr>]"
    by (simp add: guarded_store_def add_credential_def bind_run insert_cred_def insert_row_def Let_def derive_key_def)
  have "pins_ok guarded_store" by (simp add: pins_ok_def pins MAX_ATTEMPTS_def)
  moreover have "\<not> pin_passed toy (pin_answers ''0000'') guarded_store Credential 1"
    by (simp add: pin_passed_def find_pin_def pin_of_def pins window_open_def pin_answers_def as_bytes_def)
  ultimately show ?thesis using pin_gates_secrets [of guarded_store toy "pin_answers ''0000''" 1] by simp
qed

text \<open>An export asks for the password only: the PINs make no difference to it.\<close>

lemma export_ignores_pins:
  "fst (export_credential C i master pk (s\<lparr>pin_rows := rows\<rparr>)) = fst (export_credential C i master pk s)"
  "fst (export_file C i password pk (s\<lparr>pin_rows := rows\<rparr>)) = fst (export_file C i password pk s)"
proof -
  have sealed: "fst (encode_bundle C ty pk plain (s\<lparr>pin_rows := rows\<rparr>)) = fst (encode_bundle C ty pk plain s)" for ty plain
    by (simp add: encode_bundle_def bind_run Let_def)
  show "fst (export_credential C i master pk (s\<lparr>pin_rows := rows\<rparr>)) = fst (export_credential C i master pk s)"
  proof (cases "get_credential C s i master")
    case (Inr c)
    then show ?thesis by (cases "credential_payload c") (simp_all add: export_credential_def bind_run sealed)
  qed (simp add: export_credential_def bind_run)
  have row: "locked.row_of (s\<lparr>pin_rows := rows\<rparr>) i = locked.row_of s i" by (simp add: locked.row_of_def)
  show "fst (export_file C i password pk (s\<lparr>pin_rows := rows\<rparr>)) = fst (export_file C i password pk s)"
  proof (cases "locked.row_of s i")
    case (Some r)
    have step: "fst (bind (lift_result q) f t) = fst (bind (lift_result q) f u)"
      if "\<And>x. fst (f x t) = fst (f x u)" for q f and t u :: store
      using that by (cases q) simp_all
    show ?thesis
      unfolding export_file_def
      by (cases "unlock_file C s i password") (auto simp: bind_run [of "asks _"] row Some sealed intro!: step)
  qed (simp add: export_file_def bind_run row)
qed

end
