(* ===== verification/RelayClient.thy ===== *)
theory RelayClient
  imports RelayRuns RelayCredential TreePublish Commands
begin

text \<open>
  The client of the relay (\<open>src/relay/client.rs\<close>) and the commands over it of the command line
  (\<open>src/bin/keyquorum/main.rs\<close>): checking a relay's address, the requests, storing a checked bearer,
  finding the address and bearer for a command, \<open>relay push\<close> and \<open>relay pull\<close>.
\<close>

section \<open>The outside\<close>

text \<open>
  What the client calls: the \<open>url\<close> crate, \<open>serde_json\<close> for the body of a push, axum's decoding of a
  path segment, \<open>ureq\<close>, which takes a request to the server at an address and brings back a status
  and a body or a failure of the transport, and the texts of its messages. \<open>'w\<close> is the state of
  whatever is at the other end. The agent is built with \<open>redirects(0)\<close>: one \<open>send\<close> is one
  request to the one address it is given, and an answer with a status of 3xx is an answer like
  any other, which the client reads and does not follow.
\<close>

datatype url_host = Domain string | Ipv4 bytes | Ipv6 bytes

record url =
  u_scheme :: string
  u_username :: string
  u_password :: "string option"
  u_host :: "url_host option"
  u_path :: string

record 'w net =
  url_parse :: "string \<Rightarrow> url option"
  url_set_path :: "url \<Rightarrow> string \<Rightarrow> url"
  push_to_json :: "string \<times> public_tree list \<Rightarrow> bytes"
  path_segment :: "string \<Rightarrow> string"
  send :: "url \<Rightarrow> request \<Rightarrow> 'w \<Rightarrow> (string + nat \<times> body) \<times> 'w"
  status_text :: "nat \<Rightarrow> body \<Rightarrow> string"
  shape_text :: "body \<Rightarrow> string"

section \<open>Addresses\<close>

definition is_loopback_url :: "url \<Rightarrow> bool" where
  "is_loopback_url u = (case u_host u of
       Some (Domain host) \<Rightarrow> to_ascii_lowercase host = ''localhost''
     | Some (Ipv4 addr) \<Rightarrow> take 1 addr = [127]
     | Some (Ipv6 addr) \<Rightarrow> addr = replicate 15 0 @ [1]
     | None \<Rightarrow> False)"

definition parse_relay_url :: "'w net \<Rightarrow> string \<Rightarrow> url result" where
  "parse_relay_url N raw =
     (let raw = trim raw in
      if CHR 0x5C \<in> set raw then Err (RelayRequest ''relay URL must not contain backslashes'')
      else and_then (ok_or (RelayRequest ''relay URL must use https, or http only to a loopback host'') (url_parse N raw)) (\<lambda>u.
        if u_username u \<noteq> [] \<or> u_password u \<noteq> None then Err (RelayRequest ''relay URL must not include userinfo'')
        else if u_host u = None then Err (RelayRequest ''relay URL is missing a host'')
        else if u_scheme u = ''https'' then Ok u
        else if u_scheme u = ''http'' \<and> is_loopback_url u then Ok u
        else if u_scheme u = ''http'' then Err (RelayRequest ''HTTP relay URLs are only allowed for loopback hosts'')
        else Err (RelayRequest ''relay URL must use https, or http only to a loopback host'')))"

definition validate_relay_url :: "'w net \<Rightarrow> string \<Rightarrow> unit result" where
  "validate_relay_url N url = and_then (parse_relay_url N url) (\<lambda>_. Ok ())"

definition relay_request_url :: "'w net \<Rightarrow> string \<Rightarrow> string \<Rightarrow> url result" where
  "relay_request_url N base endpoint =
     and_then (parse_relay_url N base) (\<lambda>u.
     Ok (url_set_path N u (trim_end_matches (CHR ''/'') (u_path u) @ endpoint)))"

definition hex_upper :: "nat \<Rightarrow> char" where
  "hex_upper n = (if n < 10 then char_of (48 + n) else char_of (55 + n))"

definition is_unreserved :: "u8 \<Rightarrow> bool" where
  "is_unreserved b \<longleftrightarrow> (let n = unat b in 65 \<le> n \<and> n \<le> 90 \<or> 97 \<le> n \<and> n \<le> 122 \<or> 48 \<le> n \<and> n \<le> 57
     \<or> n = 45 \<or> n = 95 \<or> n = 46 \<or> n = 126)"

definition urlencoding_label :: "string \<Rightarrow> string" where
  "urlencoding_label label = concat (map (\<lambda>b.
     if is_unreserved b then [char_of (unat b)]
     else [CHR ''%'', hex_upper (unat b div 16), hex_upper (unat b mod 16)]) (as_bytes label))"

section \<open>Requests\<close>

definition with_key :: "string \<Rightarrow> headers \<Rightarrow> headers" where
  "with_key api_key hs = (''authorization'', as_bytes (''Bearer '' @ api_key)) # hs"

definition content_type :: "string \<Rightarrow> headers" where
  "content_type v = [(''content-type'', as_bytes v)]"

text \<open>A status of 400 or more is an error; any other body must have the expected shape.\<close>

definition read_json :: "'w net \<Rightarrow> (body \<Rightarrow> 'a option) \<Rightarrow> string + nat \<times> body \<Rightarrow> 'a result" where
  "read_json N f res = (case res of
       Inl text \<Rightarrow> Err (RelayRequest text)
     | Inr (status, b) \<Rightarrow>
         if 400 \<le> status then Err (RelayRequest (status_text N status b))
         else ok_or (RelayRequest (shape_text N b)) (f b))"

definition ask :: "'w net \<Rightarrow> (body \<Rightarrow> 'a option) \<Rightarrow> string \<Rightarrow> string \<Rightarrow> (string \<Rightarrow> request) \<Rightarrow> ('w, 'a) op" where
  "ask N f base endpoint req =
     bind (lift_result (relay_request_url N base endpoint)) (\<lambda>u.
     (\<lambda>w. let (res, w') = send N u (req endpoint) w in (read_json N f res, w')))"

fun as_accepted :: "body \<Rightarrow> (int \<times> string) option" where
  "as_accepted (AcceptedBody i fp) = Some (i, fp)"
| "as_accepted _ = None"

fun as_inbox :: "body \<Rightarrow> inbox_list option" where
  "as_inbox (InboxBody l) = Some l"
| "as_inbox _ = None"

fun as_check :: "body \<Rightarrow> key_check option" where
  "as_check (CheckBody c) = Some c"
| "as_check _ = None"

fun as_tree :: "body \<Rightarrow> public_tree option" where
  "as_tree (TreeBody t) = Some t"
| "as_tree _ = None"

definition push_inbox :: "'w net \<Rightarrow> string \<Rightarrow> string \<Rightarrow> bytes \<Rightarrow> ('w, int \<times> string) op" where
  "push_inbox N base api_key envelope =
     ask N as_accepted base ''/inbox'' (\<lambda>_. PostInbox (with_key api_key (content_type ''application/octet-stream'')) envelope)"

definition push_with_trees :: "web \<Rightarrow> 'w net \<Rightarrow> string \<Rightarrow> string \<Rightarrow> bytes \<Rightarrow> public_tree list \<Rightarrow> ('w, int \<times> string) op" where
  "push_with_trees W N base api_key envelope trees =
     ask N as_accepted base ''/inbox'' (\<lambda>_. PostInbox (with_key api_key (content_type ''application/json''))
       (push_to_json N (b64_encode W envelope, trees)))"

definition pull_inbox :: "'w net \<Rightarrow> string \<Rightarrow> string \<Rightarrow> int option \<Rightarrow> int option \<Rightarrow> ('w, inbox_list) op" where
  "pull_inbox N base api_key after limit = ask N as_inbox base ''/inbox'' (\<lambda>_. GetInbox (with_key api_key []) after limit)"

definition ask_keycheck :: "'w net \<Rightarrow> string \<Rightarrow> string option \<Rightarrow> string option \<Rightarrow> ('w, key_check) op" where
  "ask_keycheck N base token key_hash = ask N as_check base ''/keycheck'' (\<lambda>_. PostKeycheck token key_hash)"

definition check_key :: "'w net \<Rightarrow> string \<Rightarrow> string \<Rightarrow> ('w, key_check) op" where
  "check_key N base token = ask_keycheck N base (Some token) None"

definition check_key_hash :: "'w net \<Rightarrow> string \<Rightarrow> string \<Rightarrow> ('w, key_check) op" where
  "check_key_hash N base key_hash = ask_keycheck N base None (Some key_hash)"

definition publish_tree :: "'w net \<Rightarrow> string \<Rightarrow> string \<Rightarrow> public_tree \<Rightarrow> ('w, public_tree) op" where
  "publish_tree N base api_key t = ask N as_tree base ''/trees'' (\<lambda>_. PutTree (with_key api_key []) t)"

definition fetch_tree_context :: "'w net \<Rightarrow> string \<Rightarrow> string \<Rightarrow> string \<Rightarrow> ('w, public_tree) op" where
  "fetch_tree_context N base api_key label =
     ask N as_tree base (''/trees/'' @ urlencoding_label label @ ''/context'')
       (\<lambda>_. GetContext (with_key api_key []) (path_segment N (urlencoding_label label)))"

section \<open>The commands\<close>

text \<open>
  A command works on the personal store and the other end. \<open>env_url\<close> and \<open>env_key\<close> are the
  environment variables.
\<close>

type_synonym ('w, 'a) command = "(store \<times> 'w, 'a) op"

definition here :: "(store, 'a) op \<Rightarrow> ('w, 'a) command" where
  "here m = (\<lambda>(s, w). let (res, s') = m s in (res, (s', w)))"

definition there :: "('w, 'a) op \<Rightarrow> ('w, 'a) command" where
  "there m = (\<lambda>(s, w). let (res, w') = m w in (res, (s, w')))"

record relay_env =
  env_url :: "string option"
  env_key :: "string option"

definition persist_checked_key :: "crates \<Rightarrow> string \<Rightarrow> string \<Rightarrow> key_check \<Rightarrow> (store, unit) op" where
  "persist_checked_key C url token check =
     (if \<not> kc_valid check then fail InvalidApiKey
      else bind (lift_result (ok_or InvalidApiKey (kc_scope check))) (\<lambda>scope.
        bind (lift_result (hash_bearer C token)) (\<lambda>key_hash.
        save_relay C \<lparr> sk_url = url, sk_scope = scope, sk_hash = key_hash, sk_token = token,
          sk_remote = kc_id check, sk_label = kc_label check \<rparr>)))"

definition checked_url :: "'w net \<Rightarrow> string \<Rightarrow> string result" where
  "checked_url N url = (let url = normalize_url url in and_then (validate_relay_url N url) (\<lambda>_. Ok url))"

definition resolve_relay_url :: "crates \<Rightarrow> 'w net \<Rightarrow> relay_env \<Rightarrow> string option \<Rightarrow> api_key_scope \<Rightarrow> store \<Rightarrow> string result" where
  "resolve_relay_url C N env explicit scope s =
     (case some_text explicit of
        Some url \<Rightarrow> checked_url N url
      | None \<Rightarrow> (case some_text (env_url env) of
          Some url \<Rightarrow> checked_url N url
        | None \<Rightarrow> and_then (get_for_scope C (scope_str scope) s) (\<lambda>stored.
            case stored of
              [one] \<Rightarrow> and_then (validate_relay_url N (sk_url one)) (\<lambda>_. Ok (sk_url one))
            | [] \<Rightarrow> Err (RelayRequest ''relay URL required (--url or KEYQUORUM_RELAY_URL)'')
            | _ \<Rightarrow> Err (RelayRequest ''multiple stored relay URLs; pass --url''))))"

definition resolve_relay_auth ::
  "crates \<Rightarrow> 'w net \<Rightarrow> relay_env \<Rightarrow> string option \<Rightarrow> string option \<Rightarrow> api_key_scope \<Rightarrow> ('w, string \<times> string) command" where
  "resolve_relay_auth C N env explicit_url explicit_key required =
     bind (here (asks (resolve_relay_url C N env explicit_url required))) (\<lambda>url.
     case (case some_text explicit_key of Some key \<Rightarrow> Some key | None \<Rightarrow> some_text (env_key env)) of
       Some token \<Rightarrow>
         bind (there (check_key N url token)) (\<lambda>check.
         if \<not> kc_valid check then fail InvalidApiKey
         else if kc_scope check \<noteq> Some (scope_str required) then fail ApiKeyScopeDenied
         else bind (here (persist_checked_key C url token check)) (\<lambda>_. ret (url, token)))
     | None \<Rightarrow>
         bind (here (asks (get_relay C url (scope_str required)))) (\<lambda>stored.
         case stored of
           Some k \<Rightarrow>
             bind (there (check_key_hash N url (sk_hash k))) (\<lambda>check.
             if \<not> kc_valid check
             then bind (here (delete_relay url (scope_str required))) (\<lambda>_.
               fail (RelayRequest (''stored API key for '' @ scope_str required @ '' is no longer valid; run `keyquorum loadkey`'')))
             else bind (here (touch_checked url (scope_str required))) (\<lambda>_. ret (url, sk_token k)))
         | None \<Rightarrow> fail (RelayRequest (''no stored API key for '' @ scope_str required @ ''; run `keyquorum loadkey` or pass --api-key''))))"

definition run_loadkey :: "crates \<Rightarrow> 'w net \<Rightarrow> relay_env \<Rightarrow> string option \<Rightarrow> string option \<Rightarrow> string result \<Rightarrow> ('w, unit) command" where
  "run_loadkey C N env api_key url typed =
     bind (lift_result (case some_text url of
         Some u \<Rightarrow> Ok (normalize_url u)
       | None \<Rightarrow> (case some_text (env_url env) of
           Some u \<Rightarrow> Ok (normalize_url u)
         | None \<Rightarrow> Err (RelayRequest ''relay URL required (--url or KEYQUORUM_RELAY_URL)'')))) (\<lambda>url.
     bind (lift_result (validate_relay_url N url)) (\<lambda>_.
     bind (lift_result (case some_text api_key of Some token \<Rightarrow> Ok token | None \<Rightarrow> typed)) (\<lambda>token.
     bind (there (check_key N url token)) (\<lambda>check.
     here (persist_checked_key C url token check)))))"

text \<open>The public trees of the store; a tree without nodes is left out.\<close>

fun export_each :: "crates \<Rightarrow> store \<Rightarrow> (int \<times> string) list \<Rightarrow> public_tree list result" where
  "export_each C s [] = Ok []"
| "export_each C s ((key, label) # ls) =
     (case export_public_tree C s key of
        Ok t \<Rightarrow> and_then (export_each C s ls) (\<lambda>ts. Ok (t # ts))
      | Err e \<Rightarrow> if e = NodeNotFound \<or> e = TreeNotFound then export_each C s ls else Err e)"

definition export_local_public_trees :: "crates \<Rightarrow> store \<Rightarrow> public_tree list result" where
  "export_local_public_trees C s = export_each C s (list_trees s)"

text \<open>
  \<open>listing\<close> is the directory as it reads: an error, or its \<open>.kqpb\<close> files in the order of their
  paths, each as it reads. The trees go with the first file.
\<close>

fun push_files :: "web \<Rightarrow> 'w net \<Rightarrow> string \<Rightarrow> string \<Rightarrow> public_tree list \<Rightarrow> nat \<Rightarrow> bytes result list \<Rightarrow> ('w, nat) op" where
  "push_files W N url api_key trees uploaded [] = ret uploaded"
| "push_files W N url api_key trees uploaded (f # fs) =
     bind (lift_result f) (\<lambda>data.
     bind (if trees = [] \<or> 0 < uploaded then push_inbox N url api_key data else push_with_trees W N url api_key data trees) (\<lambda>_.
     push_files W N url api_key trees (Suc uploaded) fs))"

definition run_relay_push ::
  "web \<Rightarrow> crates \<Rightarrow> 'w net \<Rightarrow> relay_env \<Rightarrow> string option \<Rightarrow> string option \<Rightarrow> string \<Rightarrow> bytes result list result \<Rightarrow> ('w, unit) command" where
  "run_relay_push W C N env url api_key dir listing =
     bind (resolve_relay_auth C N env url api_key InboxPush) (\<lambda>(url, api_key).
     bind (here (asks (export_local_public_trees C))) (\<lambda>trees.
     bind (lift_result listing) (\<lambda>files.
     bind (there (push_files W N url api_key trees 0 files)) (\<lambda>uploaded.
     if uploaded = 0 then fail (RelayRequest (''no .kqpb files in '' @ dir)) else ret ()))))"

definition take_envelope :: "crates \<Rightarrow> string option \<Rightarrow> bytes option \<Rightarrow> inbox_envelope \<Rightarrow> (store, unit) op" where
  "take_envelope C output_dir share_sk item =
     bind (lift_result (ok_or InvalidBridgePackage (b64_decode C (ie_bytes item)))) (\<lambda>data.
     bind (case output_dir of None \<Rightarrow> ret ()
           | Some dir \<Rightarrow> write_owner_only (join_path dir (show_int (ie_id item) @ ''.kqpb'')) data) (\<lambda>_.
     case share_sk of None \<Rightarrow> ret ()
     | Some sk \<Rightarrow> bind (import_package C data sk) (\<lambda>_. ret ())))"

definition pull_secret :: "crates \<Rightarrow> bool \<Rightarrow> string option \<Rightarrow> store \<Rightarrow> bytes option result" where
  "pull_secret C with_import share_file s =
     (if with_import
      then and_then (ok_or InvalidPath share_file) (\<lambda>p. and_then (read_key_array_32 C s p) (\<lambda>sk. Ok (Some sk)))
      else Ok None)"

definition run_relay_pull ::
  "crates \<Rightarrow> 'w net \<Rightarrow> relay_env \<Rightarrow> string option \<Rightarrow> string option \<Rightarrow> bool \<Rightarrow> string option \<Rightarrow> string option
     \<Rightarrow> int option \<Rightarrow> int \<Rightarrow> ('w, int option) command" where
  "run_relay_pull C N env url api_key with_import share_file output_dir after limit =
     bind (resolve_relay_auth C N env url api_key InboxPull) (\<lambda>(url, api_key).
     if \<not> (1 \<le> limit \<and> limit \<le> MAX_INBOX_PAGE) then fail InvalidInboxPage
     else bind (there (pull_inbox N url api_key after (Some limit))) (\<lambda>listed.
       bind (here (for_each (\<lambda>part. bind (apply_public_tree C None part) (\<lambda>_. ret ())) (il_trees listed))) (\<lambda>_.
       if il_envelopes listed = [] then ret None
       else bind (here (asks (pull_secret C with_import share_file))) (\<lambda>share_sk.
         bind (here (case output_dir of None \<Rightarrow> ret () | Some dir \<Rightarrow> create_dir_all dir)) (\<lambda>_.
         bind (here (for_each (take_envelope C output_dir share_sk) (il_envelopes listed))) (\<lambda>_.
         ret (il_next listed)))))))"

definition key_label :: "store \<Rightarrow> int \<Rightarrow> string result" where
  "key_label s key = and_then (ok_or TreeNotFound (find (\<lambda>r. k_id r = key) (key_rows s))) (\<lambda>r. Ok (k_label r))"

definition run_tree_publish :: "crates \<Rightarrow> 'w net \<Rightarrow> relay_env \<Rightarrow> string option \<Rightarrow> string option \<Rightarrow> int \<Rightarrow> ('w, public_tree) command" where
  "run_tree_publish C N env url api_key key =
     bind (here (asks (\<lambda>s. export_public_tree C s key))) (\<lambda>snapshot.
     bind (resolve_relay_auth C N env url api_key Admin) (\<lambda>(url, api_key).
     there (publish_tree N url api_key snapshot)))"

text \<open>The tree is named by its key, by its label, or by both; with neither the command ends in a usage message.\<close>

definition run_tree_fetch ::
  "crates \<Rightarrow> 'w net \<Rightarrow> relay_env \<Rightarrow> string option \<Rightarrow> string option \<Rightarrow> string + int \<times> string option \<Rightarrow> ('w, int) command" where
  "run_tree_fetch C N env url api_key target =
     bind (case target of
         Inl label \<Rightarrow> ret label
       | Inr (key, Some label) \<Rightarrow> ret label
       | Inr (key, None) \<Rightarrow> here (asks (\<lambda>s. key_label s key))) (\<lambda>label.
     bind (resolve_relay_auth C N env url api_key InboxPull) (\<lambda>(url, api_key).
     bind (there (fetch_tree_context N url api_key label)) (\<lambda>part.
     here (apply_public_tree C (case target of Inl label \<Rightarrow> None | Inr (key, _) \<Rightarrow> Some key) part))))"

section \<open>Where a bearer goes\<close>

definition confined :: "url \<Rightarrow> bool" where
  "confined u \<longleftrightarrow> u_username u = [] \<and> u_password u = None \<and> u_host u \<noteq> None
     \<and> (u_scheme u = ''https'' \<or> u_scheme u = ''http'' \<and> is_loopback_url u)"

text \<open>Setting the path leaves the rest of an address alone.\<close>

definition set_path_ok :: "'w net \<Rightarrow> bool" where
  "set_path_ok N \<longleftrightarrow> (\<forall>u p. u_scheme (url_set_path N u p) = u_scheme u \<and> u_username (url_set_path N u p) = u_username u
     \<and> u_password (url_set_path N u p) = u_password u \<and> u_host (url_set_path N u p) = u_host u)"

lemma parse_relay_url_confined: "parse_relay_url N raw = Ok u \<Longrightarrow> confined u"
  unfolding parse_relay_url_def Let_def confined_def
  by (auto simp: and_then_Ok_iff split: if_splits)

lemma set_path_confined: "set_path_ok N \<Longrightarrow> confined (url_set_path N u p) = confined u"
  by (simp add: set_path_ok_def confined_def is_loopback_url_def)

lemma relay_request_url_confined: "set_path_ok N \<Longrightarrow> relay_request_url N base endpoint = Ok u \<Longrightarrow> confined u"
  by (auto simp: relay_request_url_def and_then_Ok_iff set_path_confined parse_relay_url_confined)

lemma net_send [simp]:
  "url_parse (N\<lparr>send := S\<rparr>) = url_parse N" "url_set_path (N\<lparr>send := S\<rparr>) = url_set_path N"
  "push_to_json (N\<lparr>send := S\<rparr>) = push_to_json N" "path_segment (N\<lparr>send := S\<rparr>) = path_segment N"
  "status_text (N\<lparr>send := S\<rparr>) = status_text N" "shape_text (N\<lparr>send := S\<rparr>) = shape_text N" "send (N\<lparr>send := S\<rparr>) = S"
  by (cases N; simp)+

lemma parse_relay_url_send [simp]: "parse_relay_url (N\<lparr>send := S\<rparr>) raw = parse_relay_url N raw"
  by (simp add: parse_relay_url_def Let_def)

lemma relay_request_url_send [simp]: "relay_request_url (N\<lparr>send := S\<rparr>) base endpoint = relay_request_url N base endpoint"
  by (simp add: relay_request_url_def)

lemma read_json_send [simp]: "read_json (N\<lparr>send := S\<rparr>) f res = read_json N f res"
  by (auto simp: read_json_def split: sum.split)

lemma ask_send:
  assumes "set_path_ok N" "\<forall>u. confined u \<longrightarrow> S u = send N u"
  shows "ask (N\<lparr>send := S\<rparr>) f base endpoint req = ask N f base endpoint req"
proof (rule ext)
  fix w
  show "ask (N\<lparr>send := S\<rparr>) f base endpoint req w = ask N f base endpoint req w"
  proof (cases "relay_request_url N base endpoint")
    case (Inr u)
    then have "S u = send N u" using relay_request_url_confined [OF assms(1)] assms(2) by blast
    then show ?thesis using Inr by (simp add: ask_def bind_run)
  qed (simp add: ask_def bind_run)
qed

lemma client_send:
  assumes "set_path_ok N" "\<forall>u. confined u \<longrightarrow> S u = send N u"
  shows "push_inbox (N\<lparr>send := S\<rparr>) = push_inbox N" "push_with_trees W (N\<lparr>send := S\<rparr>) = push_with_trees W N"
    "pull_inbox (N\<lparr>send := S\<rparr>) = pull_inbox N" "check_key (N\<lparr>send := S\<rparr>) = check_key N"
    "check_key_hash (N\<lparr>send := S\<rparr>) = check_key_hash N" "resolve_relay_url C (N\<lparr>send := S\<rparr>) = resolve_relay_url C N"
    "publish_tree (N\<lparr>send := S\<rparr>) = publish_tree N" "fetch_tree_context (N\<lparr>send := S\<rparr>) = fetch_tree_context N"
    "validate_relay_url (N\<lparr>send := S\<rparr>) = validate_relay_url N"
proof -
  note a = ask_send [OF assms]
  show "push_inbox (N\<lparr>send := S\<rparr>) = push_inbox N" "push_with_trees W (N\<lparr>send := S\<rparr>) = push_with_trees W N"
    "pull_inbox (N\<lparr>send := S\<rparr>) = pull_inbox N" "check_key (N\<lparr>send := S\<rparr>) = check_key N"
    "check_key_hash (N\<lparr>send := S\<rparr>) = check_key_hash N"
    "publish_tree (N\<lparr>send := S\<rparr>) = publish_tree N" "fetch_tree_context (N\<lparr>send := S\<rparr>) = fetch_tree_context N"
    by (simp_all add: fun_eq_iff push_inbox_def push_with_trees_def pull_inbox_def check_key_def check_key_hash_def
        ask_keycheck_def publish_tree_def fetch_tree_context_def a)
  show v: "validate_relay_url (N\<lparr>send := S\<rparr>) = validate_relay_url N"
    by (simp add: fun_eq_iff validate_relay_url_def)
  show "resolve_relay_url C (N\<lparr>send := S\<rparr>) = resolve_relay_url C N"
    by (intro ext) (unfold resolve_relay_url_def checked_url_def v, rule refl)
qed

lemma push_files_send:
  assumes "set_path_ok N" "\<forall>u. confined u \<longrightarrow> S u = send N u"
  shows "push_files W (N\<lparr>send := S\<rparr>) url api_key trees n fs = push_files W N url api_key trees n fs"
proof (induction fs arbitrary: n)
  case (Cons f fs)
  then show ?case by (simp only: push_files.simps client_send [OF assms])
qed simp

text \<open>
  C22: A request with a bearer, or with a bearer to check, only ever goes to an address over https, or
  over http to this machine, and without user information: two networks that agree there give the
  same run of every relay command.
\<close>
theorem bearer_confined:
  assumes "set_path_ok N" "\<forall>u. confined u \<longrightarrow> S u = send N u"
  defines "M \<equiv> N\<lparr>send := S\<rparr>"
  shows "run_loadkey C M env api_key url typed = run_loadkey C N env api_key url typed
    \<and> resolve_relay_auth C M env url api_key scope = resolve_relay_auth C N env url api_key scope
    \<and> run_relay_push W C M env url api_key dir listing = run_relay_push W C N env url api_key dir listing
    \<and> run_relay_pull C M env url api_key with_import share_file output_dir after limit
        = run_relay_pull C N env url api_key with_import share_file output_dir after limit
    \<and> run_tree_publish C M env url api_key key = run_tree_publish C N env url api_key key
    \<and> run_tree_fetch C M env url api_key target = run_tree_fetch C N env url api_key target"
proof -
  have auth: "resolve_relay_auth C M env url api_key scope = resolve_relay_auth C N env url api_key scope" for scope
    unfolding M_def resolve_relay_auth_def by (simp only: client_send [OF assms(1,2)])
  show ?thesis
    unfolding auth run_loadkey_def run_relay_push_def run_relay_pull_def run_tree_publish_def run_tree_fetch_def
    by (simp only: M_def client_send [OF assms(1,2)] push_files_send [OF assms(1,2)] simp_thms)
qed

section \<open>A resolved bearer works\<close>

text \<open>At the addresses made from this one, the network reaches the relay.\<close>

definition reaches :: "relay_db net \<Rightarrow> web \<Rightarrow> crates \<Rightarrow> string \<Rightarrow> bool" where
  "reaches N W C base \<longleftrightarrow> (\<forall>endpoint u req r. relay_request_url N base endpoint = Ok u \<longrightarrow>
     send N u req r = (Inr (fst (handle W C req r)), snd (handle W C req r)))"

text \<open>\<open>hex::encode\<close> writes lower case.\<close>

definition hex_lower :: "crates \<Rightarrow> bool" where
  "hex_lower C \<longleftrightarrow> (\<forall>b. to_ascii_lowercase (hex_encode C b) = hex_encode C b)"

lemma ask_keycheck_run:
  assumes "reaches N W C base" "ask_keycheck N base token key_hash r = (Ok c, r')"
  shows "r' = r \<and> route W C (PostKeycheck token key_hash) r = (Inr (200, CheckBody c), r)"
proof -
  obtain u where u: "relay_request_url N base ''/keycheck'' = Ok u"
    using assms(2) by (cases "relay_request_url N base ''/keycheck''") (auto simp: ask_keycheck_def ask_def bind_run)
  let ?h = "handle W C (PostKeycheck token key_hash) r"
  have s: "send N u (PostKeycheck token key_hash) r = (Inr (fst ?h), snd ?h)" using assms(1) u unfolding reaches_def by blast
  obtain x q where route: "route W C (PostKeycheck token key_hash) r = (x, q)" by (cases "route W C (PostKeycheck token key_hash) r")
  have q: "q = r" using route by (auto simp: post_keycheck_def and_reply_def split: option.splits sum.splits)
  have h: "?h = (case x of Inl (status, message) \<Rightarrow> ((status, ErrorBody message), r) | Inr reply \<Rightarrow> (reply, r))"
    using route q by (simp add: handle_def)
  have read: "read_json N as_check (Inr (fst ?h)) = Ok c" "snd ?h = r'"
    using assms(2) u s by (simp_all add: ask_keycheck_def ask_def bind_run Let_def)
  have "x = Inr (200, CheckBody c)"
  proof (cases x)
    case (Inl e)
    then show ?thesis using read(1) h by (cases e) (simp add: read_json_def split: if_splits)
  next
    case (Inr y)
    then obtain c' where "x = Inr (200, CheckBody c')"
      using route by (auto simp: post_keycheck_def and_reply_def split: option.splits sum.splits)
    then show ?thesis using read(1) h by (simp add: read_json_def)
  qed
  moreover have "snd ?h = r" using h by (auto split: sum.splits prod.splits)
  ultimately show ?thesis using route q read(2) by simp
qed

lemma check_key_run:
  assumes "reaches N W C base" "check_key N base token r = (Ok c, r')"
  shows "r' = r \<and> c = check_token C token r"
  using ask_keycheck_run [OF assms(1), of "Some token" None r c r'] assms(2)
  by (auto simp: check_key_def post_keycheck_def and_reply_def some_text_def split: option.splits sum.splits if_splits)

lemma check_key_hash_run:
  assumes "reaches N W C base" "check_key_hash N base h r = (Ok c, r')"
  shows "r' = r \<and> c = check_hash h r"
  using ask_keycheck_run [OF assms(1), of None "Some h" r c r'] assms(2)
  by (auto simp: check_key_hash_def post_keycheck_def and_reply_def some_text_def split: option.splits sum.splits if_splits)

lemma check_hash_valid:
  "kc_valid (check_hash h r) \<longleftrightarrow> hex64 h
     \<and> (\<exists>k. api_by_hash r (to_ascii_lowercase h) = Some k \<and> a_revoked k = None \<and> unexpired r k)"
  by (auto simp: check_hash_def invalid_check_def split: option.split)

lemma check_hash_scope:
  "kc_valid (check_hash h r) \<Longrightarrow> api_by_hash r (to_ascii_lowercase h) = Some k \<Longrightarrow> kc_scope (check_hash h r) = Some (a_scope k)"
  by (auto simp: check_hash_def invalid_check_def split: option.splits if_splits)

lemma hash_bearer_lower:
  assumes "hex_lower C" "hash_bearer C token = Ok h" shows "to_ascii_lowercase h = h"
  using assms by (auto simp: hash_bearer_def hash_prefixed_def and_then_Ok_iff hex_lower_def split: if_splits)

text \<open>What is stored for an address are bearers that this relay knows, each under its scope.\<close>

definition bearers_of :: "crates \<Rightarrow> string \<Rightarrow> store \<Rightarrow> relay_db \<Rightarrow> bool" where
  "bearers_of C url s r \<longleftrightarrow> (\<forall>scope row k. relay_row_at s (normalize_url url) scope = Some row \<longrightarrow> unwrap_row C row = Ok k \<longrightarrow>
     hash_bearer C (sk_token k) = Ok (sk_hash k) \<and> (\<exists>q. api_by_hash r (sk_hash k) = Some q \<and> a_scope q = scope))"

lemma bearers_stay:
  assumes "bearers_of C url s r" "keys_stay r r'" shows "bearers_of C url s r'"
proof -
  have "\<exists>q'. api_by_hash r' h = Some q' \<and> a_scope q' = a_scope q" if "api_by_hash r h = Some q" for h q
    using assms(2) that same_keyD(3) unfolding keys_stay_def by blast
  then show ?thesis using assms(1) unfolding bearers_of_def by blast
qed

lemma saved_bearer:
  assumes "aes_ok C" "os_ok C" "save_relay C cred s = (Ok (), s')" "bearers_of C (sk_url cred) s r"
    and "hash_bearer C (sk_token cred) = Ok (sk_hash cred)" "api_by_hash r (sk_hash cred) = Some q" "a_scope q = sk_scope cred"
  shows "bearers_of C (sk_url cred) s' r"
proof -
  have "sk_token k = sk_token cred \<and> sk_hash k = sk_hash cred" if "unwrap_row C (sealed_row C cred s) = Ok k" for k
    using that assms(1,2)
    by (auto simp: unwrap_row_def sealed_row_def os_ok_def KEY_LEN_def split: if_splits)
  then show ?thesis using assms(4-7) unfolding bearers_of_def save_relay_lookup(1) [OF assms(3)] by auto
qed

lemma resolve_url_valid:
  assumes "resolve_relay_url C N env explicit scope s = Ok url" shows "validate_relay_url N url = Ok ()"
proof -
  have ok: "validate_relay_url N url = Ok ()" if "checked_url N u = Ok url" for u
    using that by (auto simp: checked_url_def and_then_Ok_iff Let_def)
  show ?thesis
  proof (cases "some_text explicit = None \<and> some_text (env_url env) = None")
    case False
    then show ?thesis using assms ok by (auto simp: resolve_relay_url_def split: option.splits)
  next
    case True
    then obtain stored where get: "get_for_scope C (scope_str scope) s = Ok stored"
      using assms by (auto simp: resolve_relay_url_def and_then_Ok_iff)
    consider "stored = []" | one where "stored = [one]" | one two rest where "stored = one # two # rest"
      by (metis list.exhaust)
    then show ?thesis
      by cases (use assms True get in \<open>auto simp: resolve_relay_url_def and_then_Ok_iff\<close>)
  qed
qed

text \<open>How a command's steps compose.\<close>

lemma here_asks_Ok: "bind (here (asks f)) g (s, w) = (Ok b, t) \<longleftrightarrow> (\<exists>a. f s = Ok a \<and> g a (s, w) = (Ok b, t))"
  by (cases "f s") (simp_all add: here_def bind_run)

lemma here_Ok: "bind (here m) g (s, w) = (Ok b, t) \<longleftrightarrow> (\<exists>a s'. m s = (Ok a, s') \<and> g a (s', w) = (Ok b, t))"
  by (cases "m s"; cases "fst (m s)") (auto simp: here_def bind_run)

lemma there_Ok: "bind (there m) g (s, w) = (Ok b, t) \<longleftrightarrow> (\<exists>a w'. m w = (Ok a, w') \<and> g a (s, w') = (Ok b, t))"
  by (cases "m w"; cases "fst (m w)") (auto simp: there_def bind_run)

lemma live_bearer_authenticates:
  assumes "api_keys_ok r" "hash_bearer C token = Ok h" "api_by_hash r h = Some k" "a_revoked k = None" "unexpired r k"
    "a_scope k = scope_str sc"
  shows "\<exists>a r'. authenticate C token sc r = (Ok a, r')"
  using assms by (simp add: authenticate_run)

lemma unwrap_row_scope: "unwrap_row C row = Ok k \<Longrightarrow> sk_scope k = r_scope row"
  by (auto simp: unwrap_row_def and_then_Ok_iff split: if_splits)

text \<open>
  C21: When a command has found an address and a bearer, the bearer authenticates with the scope the
  command needs on the relay at that address, whether it was given or was stored, and the relay is as
  it was. What is stored for the address stays that way: bearers the relay knows, each under its
  scope, also after whatever happens on the relay.
\<close>
theorem resolved_bearer_works:
  assumes "server_ok C r" "aes_ok C" "os_ok C" "hex_lower C" "reaches N W C url" "bearers_of C url s r"
    and "resolve_relay_auth C N env explicit_url explicit_key required (s, r) = (Ok (url, token), (s', r'))"
  shows "r' = r \<and> validate_relay_url N url = Ok () \<and> (\<exists>a t. authenticate C token required r = (Ok a, t))
    \<and> bearers_of C url s' r \<and> bearers_of C url s' (relay_run W C es r)"
proof -
  let ?given = "case some_text explicit_key of Some key \<Rightarrow> Some key | None \<Rightarrow> some_text (env_key env)"
  have keys: "api_keys_ok r" using assms(1) by (simp add: server_ok_def)
  note run = assms(7) [unfolded resolve_relay_auth_def]
  have "r' = r \<and> validate_relay_url N url = Ok () \<and> (\<exists>a t. authenticate C token required r = (Ok a, t)) \<and> bearers_of C url s' r"
  proof (cases ?given)
    case (Some given)
    obtain check where url: "resolve_relay_url C N env explicit_url required s = Ok url" and tok: "token = given"
      and ask: "check_key N url token r = (Ok check, r')"
      and check: "kc_valid check" "kc_scope check = Some (scope_str required)"
      and keep: "persist_checked_key C url token check s = (Ok (), s')"
      using run unfolding Some option.case here_asks_Ok there_Ok
      by (auto simp: here_Ok split: if_splits)
    have c: "r' = r" "check = check_token C token r" using check_key_run [OF assms(5) ask] by simp_all
    obtain h where h: "hash_bearer C token = Ok h" and c2: "check = check_hash h r"
      using c(2) check(1) by (cases "hash_bearer C token") (auto simp: check_token_def invalid_check_def)
    obtain k where k: "api_by_hash r h = Some k" "a_revoked k = None" "unexpired r k"
      using check(1) [unfolded c2 check_hash_valid hash_bearer_lower [OF assms(4) h]] by blast
    have scope: "a_scope k = scope_str required"
      using check_hash_scope [of h r k] check k hash_bearer_lower [OF assms(4) h] c2 by simp
    define cred where "cred = \<lparr> sk_url = url, sk_scope = scope_str required, sk_hash = h, sk_token = token,
      sk_remote = kc_id check, sk_label = kc_label check \<rparr>"
    have "save_relay C cred s = (Ok (), s')"
      using keep check h by (simp add: persist_checked_key_def cred_def)
    from saved_bearer [OF assms(2,3) this, of r k] have "bearers_of C url s' r"
      using assms(6) h k scope by (simp add: cred_def)
    then show ?thesis
      using c(1) resolve_url_valid [OF url] live_bearer_authenticates [OF keys h k scope] by simp
  next
    case None
    obtain k check where url: "resolve_relay_url C N env explicit_url required s = Ok url" and tok: "token = sk_token k"
      and get: "get_relay C url (scope_str required) s = Ok (Some k)"
      and ask: "check_key_hash N url (sk_hash k) r = (Ok check, r')" and check: "kc_valid check"
      and s': "s' = snd (touch_checked url (scope_str required) s)"
      using run unfolding None option.case here_asks_Ok
      by (auto simp: here_Ok there_Ok touch_checked_def split: if_splits option.splits)
    have c: "r' = r" "check = check_hash (sk_hash k) r" using check_key_hash_run [OF assms(5) ask] by simp_all
    obtain row where row: "relay_row_at s (normalize_url url) (scope_str required) = Some row" "unwrap_row C row = Ok k"
      using get by (auto simp: get_relay_def and_then_Ok_iff split: option.splits)
    obtain q where h: "hash_bearer C token = Ok (sk_hash k)" and q: "api_by_hash r (sk_hash k) = Some q"
      and scope: "a_scope q = scope_str required"
      using assms(6) row tok unfolding bearers_of_def by blast
    have live: "a_revoked q = None" "unexpired r q"
      using check [unfolded c(2) check_hash_valid hash_bearer_lower [OF assms(4) h]] q by auto
    have "bearers_of C url s' r"
      using assms(6) unfolding s' bearers_of_def touch_lookup by (auto split: if_splits)
    then show ?thesis
      using c(1) resolve_url_valid [OF url] live_bearer_authenticates [OF keys h q live scope] by simp
  qed
  then show ?thesis using bearers_stay run_ok [OF assms(1)] by blast
qed

section \<open>A concrete network\<close>

text \<open>Every name is the host of an https address, and all of them are the concrete relay.\<close>

definition demo_net :: "crates \<Rightarrow> relay_db net" where
  "demo_net C = \<lparr> url_parse = (\<lambda>s. if s = [] then None else
       Some \<lparr> u_scheme = ''https'', u_username = [], u_password = None, u_host = Some (Domain s), u_path = ''/'' \<rparr>),
     url_set_path = (\<lambda>u p. u\<lparr>u_path := p\<rparr>), push_to_json = (\<lambda>_. []), path_segment = (\<lambda>s. s),
     send = (\<lambda>u req r. (Inr (fst (handle demo_web C req r)), snd (handle demo_web C req r))),
     status_text = (\<lambda>_ _. []), shape_text = (\<lambda>_. []) \<rparr>"

definition no_env :: relay_env where "no_env = \<lparr> env_url = None, env_key = None \<rparr>"

lemma demo_net_ok: "set_path_ok (demo_net C)" "reaches (demo_net C) demo_web C url"
  by (simp_all add: set_path_ok_def reaches_def demo_net_def)

lemma demo_host: "trim ''h'' = ''h''" "normalize_url ''h'' = ''h''"
  using trim_visible [of "''h''"] by (simp_all add: normalize_url_def trim_end_matches_def visible_ascii_def)

theorem bearer_confined_witness:
  "run_loadkey toy ((demo_net toy)\<lparr>send := (\<lambda>u req r. if confined u then send (demo_net toy) u req r else (Inl ''refused'', r))\<rparr>)
       no_env (Some ''kq_'') (Some ''h'') (Err InvalidPath)
     = run_loadkey toy (demo_net toy) no_env (Some ''kq_'') (Some ''h'') (Err InvalidPath)"
  using bearer_confined [OF demo_net_ok(1), of "\<lambda>u req r. if confined u then send (demo_net toy) u req r else (Inl ''refused'', r)" toy]
  by (simp add: fun_eq_iff)

lemma hex_digit_lower: "n < 16 \<Longrightarrow> is_ascii_hexdigit (hex_digit n) \<and> to_ascii_lowercase [hex_digit n] = [hex_digit n]"
  by (auto simp: hex_digit_def is_ascii_hexdigit_def to_ascii_lowercase_def Let_def)

lemma lowercase_append: "to_ascii_lowercase (a @ b) = to_ascii_lowercase a @ to_ascii_lowercase b"
  by (simp add: to_ascii_lowercase_def)

lemma hex_pairs_Cons: "hex_pairs (x # b) = [hex_digit (unat x div 16)] @ [hex_digit (unat x mod 16)] @ hex_pairs b"
  by (simp add: hex_pairs_def)

lemma hex_pairs_lower: "to_ascii_lowercase (hex_pairs b) = hex_pairs b" "list_all is_ascii_hexdigit (hex_pairs b)"
  "length (hex_pairs b) = 2 * length b"
proof -
  have lt: "unat x div 16 < 16" "unat x mod 16 < 16" for x :: u8
    using unsigned_less [of x, where 'a = nat] by simp_all
  have "to_ascii_lowercase (hex_pairs b) = hex_pairs b \<and> list_all is_ascii_hexdigit (hex_pairs b) \<and> length (hex_pairs b) = 2 * length b"
  proof (induction b)
    case Nil
    then show ?case by (simp add: hex_pairs_def to_ascii_lowercase_def)
  next
    case (Cons x b)
    then show ?case unfolding hex_pairs_Cons lowercase_append
      using hex_digit_lower [OF lt(1) [of x]] hex_digit_lower [OF lt(2) [of x]] by simp
  qed
  then show "to_ascii_lowercase (hex_pairs b) = hex_pairs b" "list_all is_ascii_hexdigit (hex_pairs b)"
    "length (hex_pairs b) = 2 * length b" by simp_all
qed

lemma hexed_ok: "aes_ok hexed" "os_ok hexed" "hex_lower hexed"
  using toy_aes_ok toy_os_ok by (simp_all add: aes_ok_def os_ok_def hex_lower_def hexed_def hex_pairs_lower)

lemma demo_resolve:
  "\<exists>s'. resolve_relay_auth hexed (demo_net hexed) no_env (Some ''h'') (Some (demo_bearer_of 1)) InboxPush (empty_store, demo_server)
     = (Ok (''h'', demo_bearer_of 1), (s', demo_server))"
proof -
  have url: "resolve_relay_url hexed (demo_net hexed) no_env (Some ''h'') InboxPush empty_store = Ok ''h''"
    by (simp add: resolve_relay_url_def some_text_def checked_url_def validate_relay_url_def parse_relay_url_def demo_host demo_net_def)
  have given: "some_text (Some (demo_bearer_of 1)) = Some (demo_bearer_of 1)" by (simp add: some_text_def demo_bearer_of_def)
  have hex: "hex64 (demo_key_hash 1)" "to_ascii_lowercase (demo_key_hash 1) = demo_key_hash 1"
    using hex_pairs_lower [of "replicate 32 1"] by (simp_all add: hex64_def demo_key_hash_def)
  let ?k = "demo_row 1 1 ''inbox.push'' None"
  have row: "api_by_hash demo_server (demo_key_hash 1) = Some ?k"
    by (simp add: api_by_hash_def demo_server_def demo_row_def)
  have live: "a_revoked ?k = None" "unexpired demo_server ?k"
    by (simp_all add: demo_row_def unexpired_def demo_server_def empty_relay_def)
  let ?c = "\<lparr> kc_valid = True, kc_id = Some 1, kc_scope = Some ''inbox.push'', kc_label = None, kc_fp = None \<rparr>"
  have check: "check_token hexed (demo_bearer_of 1) demo_server = ?c"
    using hex row live by (simp add: check_token_def demo_key_bearer check_hash_def demo_row_def)
  have handle: "handle demo_web hexed (PostKeycheck (Some (demo_bearer_of 1)) None) demo_server = ((200, CheckBody ?c), demo_server)"
    using check by (simp add: handle_def post_keycheck_def and_reply_def given some_text_def [of None])
  have ask: "check_key (demo_net hexed) ''h'' (demo_bearer_of 1) demo_server = (Ok ?c, demo_server)"
    by (simp add: check_key_def ask_keycheck_def ask_def bind_run relay_request_url_def parse_relay_url_def demo_host demo_net_def
        handle read_json_def)
  have "\<exists>s'. persist_checked_key hexed ''h'' (demo_bearer_of 1) ?c empty_store = (Ok (), s')"
    by (simp add: persist_checked_key_def demo_key_bearer save_relay_run relay_scope_ok_def Let_def)
  then show ?thesis using url given ask
    by (auto simp: resolve_relay_auth_def here_def there_def bind_run)
qed

theorem resolved_bearer_works_witness:
  "\<exists>s' a t. resolve_relay_auth hexed (demo_net hexed) no_env (Some ''h'') (Some (demo_bearer_of 1)) InboxPush (empty_store, demo_server)
      = (Ok (''h'', demo_bearer_of 1), (s', demo_server))
     \<and> authenticate hexed (demo_bearer_of 1) InboxPush demo_server = (Ok a, t)"
proof -
  obtain s' where run: "resolve_relay_auth hexed (demo_net hexed) no_env (Some ''h'') (Some (demo_bearer_of 1)) InboxPush (empty_store, demo_server)
      = (Ok (''h'', demo_bearer_of 1), (s', demo_server))" using demo_resolve by blast
  have "bearers_of hexed ''h'' empty_store demo_server" by (simp add: bearers_of_def relay_row_at_def empty_store_def)
  from resolved_bearer_works [OF demo_server_ok hexed_ok demo_net_ok(2) this run] run show ?thesis by blast
qed

text \<open>A label in the path of a request reads back as it was, byte for byte.\<close>

definition hex_value :: "char \<Rightarrow> nat" where
  "hex_value c = (let n = of_char c :: nat in if n \<le> 57 then n - 48 else n - 55)"

fun percent_decode :: "string \<Rightarrow> bytes" where
  "percent_decode (c # s) = (if c = CHR ''%'' then (case s of
       a # b # rest \<Rightarrow> word_of_nat (hex_value a * 16 + hex_value b) # percent_decode rest
     | _ \<Rightarrow> [of_char c])
   else of_char c # percent_decode s)"
| "percent_decode [] = []"

lemma hex_value_upper: "n < 16 \<Longrightarrow> hex_value (hex_upper n) = n"
  by (simp add: hex_value_def hex_upper_def Let_def)

lemma percent_decode_label: "percent_decode (urlencoding_label label) = as_bytes label"
proof -
  have "percent_decode (concat (map (\<lambda>b. if is_unreserved b then [char_of (unat b)]
     else [CHR ''%'', hex_upper (unat b div 16), hex_upper (unat b mod 16)]) bs)) = bs" for bs
  proof (induction bs)
    case (Cons b bs)
    have lt: "unat b div 16 < 16" "unat b mod 16 < 16" using unsigned_less [of b, where 'a = nat] by simp_all
    show ?case
    proof (cases "is_unreserved b")
      case True
      have "char_of (unat b) \<noteq> CHR ''%''"
      proof
        assume "char_of (unat b) = CHR ''%''"
        then have "(of_char (char_of (unat b)) :: u8) = of_char CHR ''%''" by (simp only:)
        then have "b = 37" by simp
        then show False using True by (simp add: is_unreserved_def)
      qed
      then show ?thesis using True Cons by simp
    next
      case False
      have "(word_of_nat (unat b div 16 * 16 + unat b mod 16) :: u8) = word_of_nat (unat b)" by (simp only: div_mult_mod_eq)
      then have "word_of_nat (unat b div 16 * 16 + unat b mod 16) = b" by simp
      then show ?thesis using False Cons hex_value_upper [OF lt(1)] hex_value_upper [OF lt(2)]
        by (simp del: of_nat_add of_nat_mult)
    qed
  qed simp
  then show ?thesis unfolding urlencoding_label_def .
qed

end
