(* ===== verification/BridgeCommands.thy ===== *)
theory BridgeCommands
  imports Commands BridgeRuns TreeBridges
begin

text \<open>
  The commands of \<open>src/bin/keyquorum/main.rs\<close> on bridges: those between two nodes, and the private
  bridges, whose packages are written to a directory before the change is committed and taken away
  again when anything fails.
\<close>

section \<open>Names of the delivery files\<close>

text \<open>
  The characters of a file name; every other one becomes an underscore.
\<close>

definition plain_char :: "char \<Rightarrow> bool" where
  "plain_char c \<longleftrightarrow> (let n = of_char c :: nat in 48 \<le> n \<and> n \<le> 57 \<or> 65 \<le> n \<and> n \<le> 90 \<or> 97 \<le> n \<and> n \<le> 122)
     \<or> c = CHR ''.'' \<or> c = CHR ''-'' \<or> c = CHR ''_''"

text \<open>One character at a time: the bytes that continue a character do not count.\<close>

definition sanitize_label :: "string \<Rightarrow> string result" where
  "sanitize_label label =
     (let out = map (\<lambda>c. if plain_char c then c else CHR ''_'') (filter (\<lambda>c. \<not> cont (of_char c)) label) in
      if out = [] \<or> list_all (\<lambda>c. c = CHR ''.'') out then Err InvalidPath else Ok out)"

fun plan_deliveries :: "string \<Rightarrow> string set \<Rightarrow> delivery_package list \<Rightarrow> (string \<times> bytes) list result" where
  "plan_deliveries dir claimed [] = Ok []"
| "plan_deliveries dir claimed (p # ps) =
     and_then (sanitize_label (dp_label p)) (\<lambda>name.
     if name \<in> claimed then Err (AmbiguousDeliveryName (name @ ''.kqpb''))
     else and_then (plan_deliveries dir (insert name claimed) ps) (\<lambda>rest.
       Ok ((join_path dir (name @ ''.kqpb''), dp_bytes p) # rest)))"

text \<open>Dropping the guard removes what it had written.\<close>

definition drop_pending :: "string list \<Rightarrow> store \<Rightarrow> store" where
  "drop_pending paths s = fold (\<lambda>p s. snd (remove_file p s)) paths s"

fun write_planned :: "string list \<Rightarrow> (string \<times> bytes) list \<Rightarrow> (store, string list) op" where
  "write_planned written [] = ret written"
| "write_planned written ((p, b) # ps) = (\<lambda>s. case write_owner_only p b s of
       (Ok _, s') \<Rightarrow> write_planned (written @ [p]) ps s'
     | (Err e, s') \<Rightarrow> (Err e, drop_pending written s'))"

definition write_delivery_packages :: "string \<Rightarrow> delivery_package list \<Rightarrow> (store, string list) op" where
  "write_delivery_packages dir packages =
     bind (lift_result (plan_deliveries dir {} packages)) (write_planned [])"

text \<open>The commit, under the guard: \<open>keep\<close> after it, or the drop when it fails.\<close>

definition kept_if :: "(store, unit) op \<Rightarrow> string list \<Rightarrow> (store, string list) op" where
  "kept_if commit paths = (\<lambda>s. case commit s of
       (Ok _, s') \<Rightarrow> (Ok paths, s')
     | (Err e, s') \<Rightarrow> (Err e, drop_pending paths s'))"

section \<open>The commands\<close>

fun resolve_parties :: "crates \<Rightarrow> store \<Rightarrow> int option \<Rightarrow> bool \<Rightarrow> string list \<Rightarrow> party_input list result" where
  "resolve_parties C s key require_signing [] = Ok []"
| "resolve_parties C s key require_signing (spec # specs) =
     and_then (case split_once (CHR ''='') spec of
         Some (label, p) \<Rightarrow> and_then (read_key_array_32 C s p) (\<lambda>pk. Ok (label, pk))
       | None \<Rightarrow> and_then (encryption_public_for_label s key spec) (\<lambda>pk. Ok (spec, pk))) (\<lambda>(label, pk).
     and_then (if require_signing then and_then (signing_public_for_label C s label) (\<lambda>k. Ok (Some k)) else Ok None) (\<lambda>signing.
     and_then (resolve_parties C s key require_signing specs) (\<lambda>rest.
     Ok (\<lparr> pi_label = label, pi_encryption = pk, pi_signing = signing \<rparr> # rest))))"

text \<open>The supervisors that the members imply, from the tree or the registry.\<close>

fun implied_supervisors :: "store \<Rightarrow> int \<Rightarrow> party_input list \<Rightarrow> party_input list \<Rightarrow> string list \<Rightarrow> party_input list outcome" where
  "implied_supervisors s key members supervisors [] = Done supervisors"
| "implied_supervisors s key members supervisors (l # ls) =
     (if l \<in> pi_label ` set members \<or> l \<in> pi_label ` set supervisors then implied_supervisors s key members supervisors ls
      else case encryption_public_for_label s (Some key) l of
          Err _ \<Rightarrow> UsageExit
        | Ok pk \<Rightarrow> implied_supervisors s key members
            (supervisors @ [\<lparr> pi_label = l, pi_encryption = pk, pi_signing = None \<rparr>]) ls)"

definition deliver :: "(store, 'p) op \<Rightarrow> ('p \<Rightarrow> delivery_package list) \<Rightarrow> ('p \<Rightarrow> (store, unit) op) \<Rightarrow> string
    \<Rightarrow> (store, 'p \<times> string list) op" where
  "deliver plan packages commit dir =
     bind plan (\<lambda>p.
     bind (write_delivery_packages dir (packages p)) (\<lambda>paths.
     bind (kept_if (commit p) paths) (\<lambda>written. ret (p, written))))"

definition run_private_create ::
  "crates \<Rightarrow> int \<Rightarrow> string list \<Rightarrow> string list \<Rightarrow> string option \<Rightarrow> string \<Rightarrow> string option
     \<Rightarrow> (planned_creation \<times> string list) run" where
  "run_private_create C key members supervisors self_node dir label =
     after_run (looking (\<lambda>s. of_result (resolve_parties C s (Some key) True members))) (\<lambda>ms.
     after_run (looking (\<lambda>s. of_result (resolve_parties C s (Some key) False supervisors))) (\<lambda>ss.
     after_run (looking (\<lambda>s. implied_supervisors s key ms ss (notify_labels (map pi_label ms)))) (\<lambda>ss.
     after_run (doing (create_dir_all dir)) (\<lambda>_.
     doing (deliver (plan_create C (Some key) label ms ss self_node) (\<lambda>p. cb_packages (pc_created p))
       (commit_planned_creation C) dir)))))"

definition run_private_remove_member ::
  "crates \<Rightarrow> string \<Rightarrow> string \<Rightarrow> string \<Rightarrow> string \<Rightarrow> string \<Rightarrow> (store, planned_removal \<times> string list) op" where
  "run_private_remove_member C uid member_label node share_file dir =
     bind (asks (\<lambda>s. read_key_array_32 C s share_file)) (\<lambda>sk.
     bind (create_dir_all dir) (\<lambda>_.
     deliver (plan_remove_member C uid member_label node sk) (\<lambda>p. ro_packages (pr_outcome p))
       (commit_planned_removal C) dir))"

definition run_private_import :: "crates \<Rightarrow> string \<Rightarrow> string \<Rightarrow> (store, bridge_summary) op" where
  "run_private_import C package_file share_file =
     bind (asks (\<lambda>s. read_file s package_file)) (\<lambda>data.
     bind (asks (\<lambda>s. read_key_array_32 C s share_file)) (\<lambda>sk.
     import_package C data sk))"

datatype bridge_command =
    BridgeAllow int string string
  | BridgeDeny int string string
  | BridgeAdd int string string
  | BridgeRemove int string string

fun run_bridge :: "bridge_command \<Rightarrow> (store, unit) op" where
  "run_bridge (BridgeAllow key node peer) = allow_bridge key node peer"
| "run_bridge (BridgeDeny key node peer) = deny_bridge key node peer"
| "run_bridge (BridgeAdd key a b) = add_bridge key a b"
| "run_bridge (BridgeRemove key a b) = remove_bridge key a b"

section \<open>Delivery\<close>

text \<open>
  What both commands promise: each package is in a new file of its own, directly in the directory,
  under a name made of the recipient's label, and no other file has changed.
\<close>

definition plain_name :: "string \<Rightarrow> bool" where
  "plain_name name \<longleftrightarrow> list_all plain_char name \<and> list_ex (\<lambda>c. c \<noteq> CHR ''.'') name"

definition delivered :: "store \<Rightarrow> string \<Rightarrow> delivery_package list \<Rightarrow> string list \<Rightarrow> store \<Rightarrow> bool" where
  "delivered s dir packages paths s' \<longleftrightarrow> distinct paths \<and> length paths = length packages
     \<and> (\<forall>(pkg, p) \<in> set (zip packages paths). disk s p = None \<and> disk s' p = Some (dp_bytes pkg)
          \<and> (\<exists>name. sanitize_label (dp_label pkg) = Ok name \<and> plain_name name \<and> p = join_path dir (name @ ''.kqpb'')))
     \<and> (\<forall>p. p \<notin> set paths \<longrightarrow> disk s' p = disk s p)"

lemma sanitize_plain:
  assumes "sanitize_label label = Ok name"
  shows "plain_name name"
proof -
  let ?out = "map (\<lambda>c. if plain_char c then c else CHR ''_'') (filter (\<lambda>c. \<not> cont (of_char c)) label)"
  have "name = ?out" "\<not> list_all (\<lambda>c. c = CHR ''.'') ?out"
    using assms unfolding sanitize_label_def Let_def by (simp_all only: split: if_splits) simp_all
  moreover have "plain_char (CHR ''_'')" by (simp add: plain_char_def)
  then have "list_all plain_char ?out" by (auto simp: list_all_iff)
  ultimately show ?thesis by (simp only: plain_name_def list_ex_iff list_all_iff) blast
qed

lemma store_disk_same: "s\<lparr>disk := disk s\<rparr> = s"
  by (cases s) simp

lemma plan_deliveries_Ok:
  "plan_deliveries dir claimed packages = Ok ps \<Longrightarrow> length ps = length packages
     \<and> (\<forall>(pkg, p, b) \<in> set (zip packages ps). b = dp_bytes pkg
          \<and> (\<exists>name. sanitize_label (dp_label pkg) = Ok name \<and> plain_name name \<and> p = join_path dir (name @ ''.kqpb'')))"
proof (induction packages arbitrary: claimed ps)
  case (Cons pkg packages)
  obtain name rest where name: "sanitize_label (dp_label pkg) = Ok name"
    and rest: "plan_deliveries dir (insert name claimed) packages = Ok rest" "ps = (join_path dir (name @ ''.kqpb''), dp_bytes pkg) # rest"
    using Cons.prems by (auto simp: and_then_Ok_iff split: if_splits)
  show ?case using Cons.IH [OF rest(1)] name sanitize_plain [OF name] by (simp add: rest(2) del: split_paired_All)
qed simp

lemma drop_pending_disk: "drop_pending paths s = s\<lparr>disk := (\<lambda>p. if p \<in> set paths then None else disk s p)\<rparr>"
proof (induction paths arbitrary: s)
  case (Cons p paths)
  have "drop_pending (p # paths) s = drop_pending paths (s\<lparr>disk := (disk s)(p := None)\<rparr>)"
    by (simp add: drop_pending_def remove_file_def)
  also have "\<dots> = s\<lparr>disk := (\<lambda>q. if q \<in> set (p # paths) then None else disk s q)\<rparr>"
    by (simp add: Cons.IH) (rule arg_cong [where f = "\<lambda>d. s\<lparr>disk := d\<rparr>"], auto simp: fun_eq_iff)
  finally show ?case .
qed (simp add: drop_pending_def)

text \<open>Half-way through the writing: the files so far, which were not there before.\<close>

lemma write_planned_run:
  assumes "write_planned written ps (s\<lparr>disk := d\<rparr>) = (res, s')"
    and "\<forall>p \<in> set written. disk s p = None" "\<forall>p. p \<notin> set written \<longrightarrow> d p = disk s p" "distinct written"
    and "\<forall>p \<in> set written. d p \<noteq> None"
  shows "case res of
      Err e \<Rightarrow> s' = s
    | Ok paths \<Rightarrow> paths = written @ map fst ps \<and> distinct paths \<and> (\<forall>p \<in> set paths. disk s p = None)
        \<and> s' = s\<lparr>disk := disk s'\<rparr> \<and> (\<forall>p \<in> set written. disk s' p = d p)
        \<and> (\<forall>(p, b) \<in> set ps. disk s' p = Some b) \<and> (\<forall>p. p \<notin> set paths \<longrightarrow> disk s' p = disk s p)"
  using assms
proof (induction ps arbitrary: written d)
  case (Cons pb ps)
  obtain p b where pb: "pb = (p, b)" by (cases pb)
  show ?case
  proof (cases "write_owner_only p b (s\<lparr>disk := d\<rparr>)")
    case (Pair r t)
    show ?thesis
    proof (cases r)
      case (Inl e)
      then have t: "t = s\<lparr>disk := d\<rparr>" using Pair by (auto simp: write_owner_only_run split: if_splits)
      have "(\<lambda>p. if p \<in> set written then None else d p) = disk s"
        using Cons.prems(2,3) by (auto simp: fun_eq_iff)
      then have "s\<lparr>disk := (\<lambda>p. if p \<in> set written then None else d p)\<rparr> = s" by (simp only: store_disk_same)
      then have "drop_pending written t = s" by (simp add: drop_pending_disk t cong: if_cong)
      then have "s' = s" "res = Err e" using Cons.prems(1) Pair Inl by (auto simp: pb)
      then show ?thesis by simp
    next
      case (Inr u)
      then have t: "t = s\<lparr>disk := d(p \<mapsto> b)\<rparr>" "d p = None" using Pair by (auto simp: write_owner_only_run split: if_splits)
      then have p: "p \<notin> set written" using Cons.prems(5) by auto
      have "write_planned (written @ [p]) ps (s\<lparr>disk := d(p \<mapsto> b)\<rparr>) = (res, s')"
        using Cons.prems(1) Pair Inr t by (simp add: pb)
      then have IH: "case res of
          Err e \<Rightarrow> s' = s
        | Ok paths \<Rightarrow> paths = (written @ [p]) @ map fst ps \<and> distinct paths \<and> (\<forall>p \<in> set paths. disk s p = None)
            \<and> s' = s\<lparr>disk := disk s'\<rparr> \<and> (\<forall>q \<in> set (written @ [p]). disk s' q = (d(p \<mapsto> b)) q)
            \<and> (\<forall>(p, b) \<in> set ps. disk s' p = Some b) \<and> (\<forall>p. p \<notin> set paths \<longrightarrow> disk s' p = disk s p)"
        by (rule Cons.IH) (use Cons.prems(2-5) t(2) p in auto)
      show ?thesis
      proof (cases res)
        case (Inr paths)
        then show ?thesis using IH p by (auto simp: pb split: if_splits)
      qed (use IH in simp)
    qed
  qed
next
  case Nil
  then have "res = Ok written" "s' = s\<lparr>disk := d\<rparr>" by auto
  then show ?case using Nil(2-4) by simp
qed

lemma delivered_fresh: "delivered s dir packages paths s' \<Longrightarrow> p \<in> set paths \<Longrightarrow> disk s p = None"
proof -
  assume d: "delivered s dir packages paths s'" and p: "p \<in> set paths"
  then have "p \<in> set (map snd (zip packages paths))" by (simp add: delivered_def map_snd_zip)
  then obtain pkg where "(pkg, p) \<in> set (zip packages paths)" by auto
  then show "disk s p = None" using d unfolding delivered_def by fastforce
qed

lemma write_delivery_run:
  assumes "write_delivery_packages dir packages s = (res, s')"
  shows "case res of
      Err e \<Rightarrow> s' = s
    | Ok paths \<Rightarrow> delivered s dir packages paths s' \<and> s' = s\<lparr>disk := disk s'\<rparr>"
proof (cases "plan_deliveries dir {} packages")
  case (Inr ps)
  note ps = plan_deliveries_Ok [OF Inr]
  have "write_planned [] ps (s\<lparr>disk := disk s\<rparr>) = (res, s')" using assms Inr by (simp add: write_delivery_packages_def bind_run)
  from write_planned_run [OF this] have w: "case res of
      Err e \<Rightarrow> s' = s
    | Ok paths \<Rightarrow> paths = map fst ps \<and> distinct paths \<and> (\<forall>p \<in> set paths. disk s p = None)
        \<and> s' = s\<lparr>disk := disk s'\<rparr> \<and> (\<forall>(p, b) \<in> set ps. disk s' p = Some b) \<and> (\<forall>p. p \<notin> set paths \<longrightarrow> disk s' p = disk s p)"
    by (simp split: sum.splits)
  show ?thesis
  proof (cases res)
    case (Inr paths)
    with w have paths: "paths = map fst ps" "distinct paths" "\<forall>p \<in> set paths. disk s p = None" "s' = s\<lparr>disk := disk s'\<rparr>"
      "\<forall>(p, b) \<in> set ps. disk s' p = Some b" "\<forall>p. p \<notin> set paths \<longrightarrow> disk s' p = disk s p" by auto
    have "disk s p = None \<and> disk s' p = Some (dp_bytes pkg)
        \<and> (\<exists>name. sanitize_label (dp_label pkg) = Ok name \<and> plain_name name \<and> p = join_path dir (name @ ''.kqpb''))"
      if mem: "(pkg, p) \<in> set (zip packages paths)" for pkg p
    proof -
      obtain b where b: "(pkg, p, b) \<in> set (zip packages ps)"
        using mem unfolding paths(1) by (auto simp: zip_map2)
      then have "(p, b) \<in> set ps" by (rule set_zip_rightD)
      moreover have "p \<in> set paths" using mem by (rule set_zip_rightD)
      ultimately show ?thesis using ps b paths(3,5) by fastforce
    qed
    then have "delivered s dir packages paths s'" using paths ps by (auto simp: delivered_def)
    then show ?thesis using Inr paths(4) by simp
  qed (use w in simp)
qed (use assms in \<open>auto simp: write_delivery_packages_def bind_run\<close>)

section \<open>The files and the commit together\<close>

text \<open>
  A change that is planned without writing and committed in a transaction of its own.
\<close>

locale two_phase =
  fixes plan :: "(store, 'p) op" and packages :: "'p \<Rightarrow> delivery_package list" and commit :: "'p \<Rightarrow> (store, unit) op"
  assumes plan_draws: "draws_only plan"
    and commit_disk: "commit p s = (r, s') \<Longrightarrow> disk s' = disk s"
    and commit_rollback: "\<not> in_tx s \<Longrightarrow> commit p s = (Err e, s') \<Longrightarrow> \<exists>d. s' = s\<lparr>draws := d\<rparr>"
begin

lemma kept_if_run:
  assumes "\<not> in_tx s" "delivered s dir ps paths t" "t = s\<lparr>disk := disk t\<rparr>" "kept_if (commit p) paths t = (res, s')"
  shows "case res of
      Err e \<Rightarrow> (\<exists>d. s' = s\<lparr>draws := d\<rparr>)
    | Ok written \<Rightarrow> written = paths \<and> delivered s dir ps paths s' \<and> commit p t = (Ok (), s')"
proof (cases "commit p t")
  case (Pair r u)
  have disk: "disk u = disk t" by (rule commit_disk [OF Pair])
  show ?thesis
  proof (cases r)
    case (Inl e)
    have tx: "\<not> in_tx t" using assms(1) arg_cong [OF assms(3), of in_tx] by simp
    obtain d where u: "u = t\<lparr>draws := d\<rparr>" using commit_rollback [OF tx] Pair Inl by blast
    have "(\<lambda>p. if p \<in> set paths then None else disk t p) = disk s"
      using assms(2) delivered_fresh [OF assms(2)] by (auto simp: delivered_def fun_eq_iff)
    then have "drop_pending paths u = u\<lparr>disk := disk s\<rparr>" by (simp add: drop_pending_disk disk cong: if_cong)
    also have "\<dots> = s\<lparr>draws := d\<rparr>" unfolding u by (subst assms(3)) (simp add: store_disk_same)
    finally have "s' = s\<lparr>draws := d\<rparr>" "res = Err e" using assms(4) Pair Inl by (simp_all add: kept_if_def)
    then show ?thesis by simp blast
  next
    case (Inr x)
    then have "res = Ok paths" "s' = u" using assms(4) Pair by (simp_all add: kept_if_def)
    then show ?thesis using assms(2) Pair Inr disk by (simp add: delivered_def)
  qed
qed

lemma deliver_run:
  assumes "\<not> in_tx s" "deliver plan packages commit dir s = (res, s')"
  shows "case res of
      Err e \<Rightarrow> (\<exists>d. s' = s\<lparr>draws := d\<rparr>)
    | Ok (p, paths) \<Rightarrow> \<exists>d. plan s = (Ok p, s\<lparr>draws := d\<rparr>) \<and> delivered s dir (packages p) paths s'
        \<and> commit p (s\<lparr>draws := d, disk := disk s'\<rparr>) = (Ok (), s')"
proof (cases "plan s")
  case (Pair r t)
  obtain d where t: "t = s\<lparr>draws := d\<rparr>" using draws_onlyD [OF plan_draws Pair] by blast
  have tx: "\<not> in_tx t" using assms(1) by (simp add: t)
  show ?thesis
  proof (cases r)
    case (Inr p)
    obtain w u where w: "write_delivery_packages dir (packages p) t = (w, u)" by (cases "write_delivery_packages dir (packages p) t")
    note run = write_delivery_run [OF w]
    show ?thesis
    proof (cases w)
      case (Inl e)
      then show ?thesis using run w Pair Inr assms(2) t by (auto simp: deliver_def bind_run)
    next
      case (Inr paths)
      have u: "delivered t dir (packages p) paths u" "u = t\<lparr>disk := disk u\<rparr>" using run Inr by simp_all
      obtain k v where k: "kept_if (commit p) paths u = (k, v)" by (cases "kept_if (commit p) paths u")
      note kept = kept_if_run [OF tx u k]
      show ?thesis
      proof (cases k)
        case (Inl e)
        then obtain d' where "v = t\<lparr>draws := d'\<rparr>" using kept by auto
        then show ?thesis using w \<open>r = Ok p\<close> \<open>w = Ok paths\<close> Inl k Pair assms(2) t by (auto simp: deliver_def bind_run)
      next
        case (Inr written)
        then have v: "written = paths" "delivered t dir (packages p) paths v" "commit p u = (Ok (), v)" using kept by simp_all
        have "res = Ok (p, paths)" "s' = v"
          using w \<open>r = Ok p\<close> \<open>w = Ok paths\<close> Inr k Pair assms(2) v(1) by (simp_all add: deliver_def bind_run)
        moreover have "delivered s dir (packages p) paths v" using v(2) by (simp add: t delivered_def)
        moreover have "u = s\<lparr>draws := d, disk := disk v\<rparr>" using u(2) commit_disk [OF v(3)] by (simp add: t)
        ultimately show ?thesis using Pair \<open>r = Ok p\<close> t v(3) by auto
      qed
    qed
  qed (use Pair assms(2) t in \<open>auto simp: deliver_def bind_run\<close>)
qed

end


text \<open>No statement on bridges touches a file.\<close>

lemma keeps_disk_rows [keeps_intros]:
  "keeps (\<lambda>s. disk s = d) (insert_pb mk)" "keeps (\<lambda>s. disk s = d) (insert_pbevent mk')"
  "keeps (\<lambda>s. disk s = d) (insert_member m)" "keeps (\<lambda>s. disk s = d) (insert_sealed k)"
  "keeps (\<lambda>s. disk s = d) (delete_parties P)" "keeps (\<lambda>s. disk s = d) (delete_sealed b)"
  "keeps (\<lambda>s. disk s = d) (update_pb Q f)" "keeps (\<lambda>s. disk s = d) draw"
  unfolding keeps_def insert_pb_def insert_pbevent_def insert_row_def insert_member_def insert_sealed_def
    delete_parties_def delete_sealed_def update_pb_def draw_def modify_def
  by (simp_all add: Let_def)

lemma keeps_disk_salt [keeps_intros]: "keeps (\<lambda>s. disk s = d) (random_salt C)"
  by (auto simp: keeps_def bind_run)

lemma keeps_disk_event [keeps_intros]: "keeps (\<lambda>s. disk s = d) (insert_event b t e)"
  unfolding insert_event_def by (intro keeps_intros)

lemma keeps_disk_parties [keeps_intros]:
  "keeps (\<lambda>s. disk s = d) (insert_member_parties b ms l)" "keeps (\<lambda>s. disk s = d) (insert_supervisor_parties b ss l)"
  unfolding insert_member_parties_def insert_supervisor_parties_def
  by (intro keeps_for_each; simp add: case_prod_beta keeps_disk_rows)+

lemma keeps_disk_own [keeps_intros]: "keeps (\<lambda>s. disk s = d) (seal_local_if_member C b label ms secret)"
  unfolding seal_local_if_member_def seal_secret_def by (intro keeps_intros)


lemma keeps_disk_commit:
  "keeps (\<lambda>s. disk s = d) (bind (persist_new_bridge C uid key label g pk salt ms ss loc secret) (\<lambda>_.
     bind (asks (\<lambda>s. last_bridge_id s uid)) (\<lambda>b. insert_event b t e)))"
  "keeps (\<lambda>s. disk s = d) (commit_kind C k)"
proof -
  show "keeps (\<lambda>s. disk s = d) (bind (persist_new_bridge C uid key label g pk salt ms ss loc secret) (\<lambda>_.
     bind (asks (\<lambda>s. last_bridge_id s uid)) (\<lambda>b. insert_event b t e)))"
    unfolding persist_new_bridge_def by (intro keeps_intros)
  have upd: "keeps (\<lambda>s. disk s = d) (\<lambda>s. update_pb P (\<lambda>r. r\<lparr>b_destroyed := Some (clock s)\<rparr>) s)" for P
    by (rule keepsI) (use keepsD [OF keeps_disk_rows(7)] in blast)
  show "keeps (\<lambda>s. disk s = d) (commit_kind C k)"
    by (cases k) (simp_all only: commit_kind.simps persist_rotation_def, (intro keeps_intros upd)+)
qed

lemma immediate_disk:
  assumes "\<And>d. keeps (\<lambda>s. disk s = d) m" "with_immediate_transaction m s = (r, s')"
  shows "disk s' = disk s"
proof -
  have keep: "disk (snd (m t)) = disk t" for t using keepsD [OF assms(1) refl] .
  obtain q t where m: "m (s\<lparr>in_tx := True\<rparr>) = (q, t)" by (cases "m (s\<lparr>in_tx := True\<rparr>)")
  show ?thesis
  proof (cases "in_tx s")
    case True
    then show ?thesis using keep [of s] assms(2) by (simp add: with_immediate_transaction_def)
  next
    case False
    have "disk t = disk s" using keep [of "s\<lparr>in_tx := True\<rparr>"] m by simp
    moreover have "disk s' = disk t"
      using assms(2) False m by (cases q) (auto simp: with_immediate_transaction_def run_tx_def rollback_def)
    ultimately show ?thesis by simp
  qed
qed

lemma immediate_rollback:
  assumes "\<And>d. keeps (\<lambda>s. disk s = d) m" "\<not> in_tx s" "with_immediate_transaction m s = (Err e, s')"
  shows "\<exists>d. s' = s\<lparr>draws := d\<rparr>"
proof -
  have "same_tables s s'" by (rule immediate_failed [OF assms(3,2)])
  moreover have "disk s' = disk s" by (rule immediate_disk [OF assms(1,3)])
  ultimately have "s' = s\<lparr>draws := draws s'\<rparr>" unfolding same_tables_def by (cases s; cases s') simp
  then show ?thesis ..
qed

interpretation creation: two_phase "plan_create C key label ms ss me" "\<lambda>p. cb_packages (pc_created p)"
  "commit_planned_creation C"
  unfolding commit_planned_creation_def Let_def
  by unfold_locales
    (auto intro: quiet_intros elim: immediate_disk [OF keeps_disk_commit(1)] immediate_rollback [OF keeps_disk_commit(1)])

interpretation removal: two_phase "plan_remove_member C uid label node sk" "\<lambda>p. ro_packages (pr_outcome p)"
  "commit_planned_removal C"
  unfolding commit_planned_removal_def
  by unfold_locales
    (auto intro: quiet_intros elim: immediate_disk [OF keeps_disk_commit(2)] immediate_rollback [OF keeps_disk_commit(2)])


lemma doing_create_dir:
  "doing (create_dir_all dir) s = (if dir \<in> bad_paths s then (Failed (Io IoFault), s) else (Done (), s))"
  by (simp add: doing_def create_dir_all_def)

lemma run_private_create_cases:
  assumes "\<not> in_tx s" "run_private_create C key members supervisors me dir label s = (outcome, s')"
  shows "case outcome of
      Done (p, paths) \<Rightarrow> delivered s dir (cb_packages (pc_created p)) paths s'
        \<and> (\<exists>d. commit_planned_creation C p (s\<lparr>draws := d, disk := disk s'\<rparr>) = (Ok (), s'))
    | _ \<Rightarrow> \<exists>d. s' = s\<lparr>draws := d\<rparr>"
proof -
  have same: "\<exists>d. s = s\<lparr>draws := d\<rparr>" by (metis draws_onlyD draws_only_prims(1) ret_run)
  show ?thesis
  proof (cases "\<exists>ms ss. doing (deliver (plan_create C (Some key) label ms ss me) (\<lambda>p. cb_packages (pc_created p))
          (commit_planned_creation C) dir) s = (outcome, s')")
    case True
    then obtain ms ss res where run: "deliver (plan_create C (Some key) label ms ss me) (\<lambda>p. cb_packages (pc_created p))
          (commit_planned_creation C) dir s = (res, s')" and res: "outcome = of_result res"
      unfolding doing_run by blast
    show ?thesis using creation.deliver_run [OF assms(1) run] by (cases res) (auto simp: res of_result_def)
  next
    case False
    then have "s' = s" "\<forall>x. outcome \<noteq> Done x"
      using assms(2) unfolding run_private_create_def
      by (auto simp: after_run_def doing_create_dir split: outcome.splits if_splits)
    then show ?thesis using same by (auto split: outcome.splits)
  qed
qed

lemma run_private_remove_cases:
  assumes "\<not> in_tx s" "run_private_remove_member C uid member node share dir s = (res, s')"
  shows "case res of
      Ok (p, paths) \<Rightarrow> delivered s dir (ro_packages (pr_outcome p)) paths s'
        \<and> (\<exists>d. commit_planned_removal C p (s\<lparr>draws := d, disk := disk s'\<rparr>) = (Ok (), s'))
    | Err _ \<Rightarrow> \<exists>d. s' = s\<lparr>draws := d\<rparr>"
proof -
  have same: "\<exists>d. s = s\<lparr>draws := d\<rparr>" by (metis draws_onlyD draws_only_prims(1) ret_run)
  show ?thesis
  proof (cases "read_key_array_32 C s share")
    case (Inl e)
    then show ?thesis using assms(2) same by (auto simp: run_private_remove_member_def bind_run)
  next
    case (Inr sk)
    show ?thesis
    proof (cases "dir \<in> bad_paths s")
      case True
      then show ?thesis using assms(2) same Inr by (auto simp: run_private_remove_member_def bind_run create_dir_all_def)
    next
      case False
      then have "deliver (plan_remove_member C uid member node sk) (\<lambda>p. ro_packages (pr_outcome p))
          (commit_planned_removal C) dir s = (res, s')"
        using assms(2) Inr by (simp add: run_private_remove_member_def bind_run create_dir_all_def)
      from removal.deliver_run [OF assms(1) this] show ?thesis by (cases res) auto
    qed
  qed
qed

text \<open>
  C15: Making a private bridge and removing a member from one happen completely or not at all: when
  the command ends in any other way than with success, no table and no file has changed; when it
  succeeds, the plan was committed, and every package lies in a file of its own that was not there
  before, directly in the directory, under a plain name, with its bytes, and no other file changed.
\<close>
theorem delivery_atomic:
  assumes "\<not> in_tx s"
  shows "(case run_private_create C key members supervisors me dir label s of
        (Done (p, paths), s') \<Rightarrow> delivered s dir (cb_packages (pc_created p)) paths s'
          \<and> (\<exists>d. commit_planned_creation C p (s\<lparr>draws := d, disk := disk s'\<rparr>) = (Ok (), s'))
      | (_, s') \<Rightarrow> \<exists>d. s' = s\<lparr>draws := d\<rparr>)
    \<and> (case run_private_remove_member C uid member node share dir s of
        (Ok (p, paths), s') \<Rightarrow> delivered s dir (ro_packages (pr_outcome p)) paths s'
          \<and> (\<exists>d. commit_planned_removal C p (s\<lparr>draws := d, disk := disk s'\<rparr>) = (Ok (), s'))
      | (Err _, s') \<Rightarrow> \<exists>d. s' = s\<lparr>draws := d\<rparr>)"
  using run_private_create_cases [OF assms] run_private_remove_cases [OF assms]
  by (fastforce split: prod.splits outcome.splits sum.splits)

theorem delivery_atomic_witness:
  "run_private_create toy 1 [] [] None ''d'' None empty_store = (Failed TooFewBridgeMembers, empty_store)
    \<and> (\<exists>d. snd (run_private_create toy 1 [] [] None ''d'' None empty_store) = empty_store\<lparr>draws := d\<rparr>)"
proof -
  have run: "run_private_create toy 1 [] [] None ''d'' None empty_store = (Failed TooFewBridgeMembers, empty_store)"
    by (simp add: run_private_create_def after_run_def of_result_def doing_def create_dir_all_def deliver_def bind_run
        notify_labels_def plan_create_def unique_members_def empty_store_def sm_keys_def)
  have "\<not> in_tx empty_store" by (simp add: empty_store_def)
  from delivery_atomic [OF this, where C = toy and key = 1 and members = "[]" and supervisors = "[]" and me = None
      and dir = "''d''" and label = None]
  show ?thesis by (simp add: run)
qed

end
