(* ===== verification/TreeCommands.thy ===== *)
theory TreeCommands
  imports BridgeCommands TreeReshare TreeEvict Quorum
begin

text \<open>
  The commands of \<open>src/bin/keyquorum/main.rs\<close> on trees: gathering shares from key files and prompts,
  \<open>reconstruct\<close>, \<open>split\<close>, \<open>bind\<close>, \<open>add\<close>, \<open>revoke\<close> and \<open>access quorum\<close>.
\<close>

section \<open>Paths and key files\<close>

text \<open>
  \<open>Path::with_extension\<close> and \<open>Path::parent\<close> of a path that ends in a file name. A disk holds files
  only, so \<open>exists\<close> and \<open>is_file\<close> ask the same.
\<close>

definition base_name :: "string \<Rightarrow> string" where
  "base_name p = rev (takeWhile (\<lambda>c. c \<noteq> CHR ''/'') (rev p))"

definition dir_part :: "string \<Rightarrow> string" where
  "dir_part p = take (length p - length (base_name p)) p"

definition parent_dir :: "string \<Rightarrow> string" where
  "parent_dir p = (let d = dir_part p in if d = ''/'' then d else trim_end_matches (CHR ''/'') d)"

definition with_extension :: "string \<Rightarrow> string \<Rightarrow> string" where
  "with_extension p ext =
     (let name = base_name p;
          stem = (if CHR ''.'' \<in> set (tl name) then rev (tl (dropWhile (\<lambda>c. c \<noteq> CHR ''.'') (rev name))) else name) in
      if name = [] \<or> name = ''..'' then p else dir_part p @ stem @ ''.'' @ ext)"

definition file_exists :: "store \<Rightarrow> string \<Rightarrow> bool" where
  "file_exists s p \<longleftrightarrow> disk s p \<noteq> None"

definition write_hex_file :: "crates \<Rightarrow> string \<Rightarrow> bytes \<Rightarrow> (store, unit) op" where
  "write_hex_file C p b = write_owner_only p (as_bytes (hex_encode C b))"

definition generate_encryption_keypair :: "crates \<Rightarrow> (store, bytes \<times> bytes) op" where
  "generate_encryption_keypair C = bind (random_bytes C 32) (\<lambda>sk. ret (sk, x25519_public C sk))"

definition read_key_file_payload :: "crates \<Rightarrow> store \<Rightarrow> string \<Rightarrow> bytes result" where
  "read_key_file_payload C s p =
     and_then (read_file s p) (\<lambda>contents.
     if \<not> utf8_valid contents then Err InvalidPublicKey
     else and_then (parse_key_text C (from_bytes contents)) (\<lambda>_.
       if contents = [] then Err InvalidPublicKey else Ok contents))"

definition write_reassembled_secret :: "crates \<Rightarrow> bytes \<Rightarrow> string option \<Rightarrow> (store, string option) op" where
  "write_reassembled_secret C secret output =
     (case output of
        Some p \<Rightarrow> bind (write_owner_only p secret) (\<lambda>_. ret None)
      | None \<Rightarrow> ret (Some (hex_encode C secret)))"

section \<open>Gathering shares\<close>

type_synonym leaves = "(int \<times> int \<times> string) list"

type_synonym shares = "(int \<times> bytes) list"

fun collect_leaves :: "node_summary \<Rightarrow> leaves" where
  "collect_leaves (NodeSummary i l t h hl a ab cs) =
     (case h of Some k \<Rightarrow> if a then [(i, k, l)] else [] | None \<Rightarrow> []) @ concat (map collect_leaves cs)"

fun find_tree_node :: "node_summary \<Rightarrow> string \<Rightarrow> node_summary option" where
  "find_tree_node (NodeSummary i l t h hl a ab cs) label =
     (if l = label then Some (NodeSummary i l t h hl a ab cs)
      else case filter (\<lambda>x. x \<noteq> None) (map (\<lambda>c. find_tree_node c label) cs) of [] \<Rightarrow> None | x # _ \<Rightarrow> x)"

definition apply_raw_share_file :: "crates \<Rightarrow> store \<Rightarrow> leaves \<Rightarrow> shares \<Rightarrow> int \<Rightarrow> string \<Rightarrow> shares outcome" where
  "apply_raw_share_file C s leaves shares i p =
     (if i \<notin> fst ` set leaves then UsageExit
      else if i \<in> fst ` set shares then UsageExit
      else case read_hex_bytes C s p of Err _ \<Rightarrow> UsageExit | Ok b \<Rightarrow> Done (shares @ [(i, b)]))"

fun unwrap_each :: "crates \<Rightarrow> store \<Rightarrow> int \<Rightarrow> bytes \<Rightarrow> shares \<Rightarrow> leaves \<Rightarrow> shares result" where
  "unwrap_each C s hw sk shares [] = Ok shares"
| "unwrap_each C s hw sk shares ((i, h, l) # leaves) =
     (if h \<noteq> hw \<or> i \<in> fst ` set shares then unwrap_each C s hw sk shares leaves
      else and_then (unwrap_leaf_share C s i sk) (\<lambda>b. unwrap_each C s hw sk (shares @ [(i, b)]) leaves))"

definition unwrap_leaves_for_secret :: "crates \<Rightarrow> store \<Rightarrow> leaves \<Rightarrow> shares \<Rightarrow> bytes \<Rightarrow> shares outcome" where
  "unwrap_leaves_for_secret C s leaves shares sk =
     (if length sk \<noteq> 32 then Failed InvalidPublicKey
      else and_done (of_result (get_key_by_public_key s (encryption_public_from_secret C sk))) (\<lambda>hardware.
        and_done (of_result (unwrap_each C s (hw_id hardware) sk shares leaves)) (\<lambda>shares.
        if hw_id hardware \<notin> (fst \<circ> snd) ` set leaves then UsageExit else Done shares)))"

definition matching_secret :: "crates \<Rightarrow> bytes \<Rightarrow> bytes \<Rightarrow> bytes outcome" where
  "matching_secret C pk raw =
     (if length raw \<noteq> 32 then Failed InvalidPublicKey
      else if encryption_public_from_secret C raw \<noteq> pk then UsageExit else Done raw)"

definition resolve_private_for_public :: "crates \<Rightarrow> answers \<Rightarrow> store \<Rightarrow> string \<Rightarrow> bytes \<Rightarrow> bytes outcome" where
  "resolve_private_for_public C typed s p pk =
     (let sibling = with_extension p ''key'' in
      if sibling \<noteq> p \<and> file_exists s sibling
      then and_done (of_result (read_key_bytes C s sibling)) (matching_secret C pk)
      else and_done (of_result (typed (''Private key for '' @ p @ '' (hex, blank to skip): ''))) (\<lambda>entered.
        if trim entered = [] then UsageExit
        else and_done (of_result (parse_key_text C (trim entered))) (matching_secret C pk)))"

text \<open>A key file holds a public key of the registry, or else a private key.\<close>

definition secret_of_key :: "crates \<Rightarrow> answers \<Rightarrow> store \<Rightarrow> string \<Rightarrow> bytes \<Rightarrow> bytes outcome" where
  "secret_of_key C typed s p raw =
     (case get_key_by_public_key s raw of
        Ok _ \<Rightarrow> resolve_private_for_public C typed s p raw
      | Err _ \<Rightarrow> Done raw)"

definition apply_key_file :: "crates \<Rightarrow> answers \<Rightarrow> store \<Rightarrow> leaves \<Rightarrow> shares \<Rightarrow> string \<Rightarrow> shares outcome" where
  "apply_key_file C typed s leaves shares p =
     and_done (of_result (read_key_bytes C s p)) (\<lambda>raw.
     if length raw \<noteq> 32 then UsageExit
     else and_done (secret_of_key C typed s p raw) (unwrap_leaves_for_secret C s leaves shares))"

text \<open>An entry \<open>id=path\<close> names a raw share; every other is a key file.\<close>

definition raw_entry :: "string \<Rightarrow> (int \<times> string) option" where
  "raw_entry entry = Option.bind (split_once (CHR ''='') entry) (\<lambda>(l, p). map_option (\<lambda>i. (i, p)) (parse_i64 l))"

fun collect_entries :: "crates \<Rightarrow> answers \<Rightarrow> store \<Rightarrow> leaves \<Rightarrow> shares \<Rightarrow> string list \<Rightarrow> shares outcome" where
  "collect_entries C typed s leaves shares [] = Done shares"
| "collect_entries C typed s leaves shares (entry # entries) =
     and_done (case raw_entry entry of
         Some (i, p) \<Rightarrow> apply_raw_share_file C s leaves shares i p
       | None \<Rightarrow> apply_key_file C typed s leaves shares entry)
       (\<lambda>shares. collect_entries C typed s leaves shares entries)"

definition share_prompt :: "int \<Rightarrow> int \<Rightarrow> string \<Rightarrow> string" where
  "share_prompt i h label = ''Key for '' @ [char_of (39 :: nat)] @ label @ [char_of (39 :: nat)] @ '' (node '' @ show_int i
     @ '', hardware key '' @ show_int h @ ''; path to .key/.pub or hex private key, blank to skip): ''"

definition apply_answer :: "crates \<Rightarrow> answers \<Rightarrow> store \<Rightarrow> leaves \<Rightarrow> shares \<Rightarrow> string \<Rightarrow> shares outcome" where
  "apply_answer C typed s leaves shares answer =
     (if answer = [] then Done shares
      else if file_exists s answer then apply_key_file C typed s leaves shares answer
      else case hex_decode C answer of
          None \<Rightarrow> UsageExit
        | Some sk \<Rightarrow> unwrap_leaves_for_secret C s leaves shares sk)"

fun collect_prompts :: "crates \<Rightarrow> answers \<Rightarrow> store \<Rightarrow> leaves \<Rightarrow> shares \<Rightarrow> leaves \<Rightarrow> shares outcome" where
  "collect_prompts C typed s leaves shares [] = Done shares"
| "collect_prompts C typed s leaves shares ((i, h, label) # rest) =
     (if i \<in> fst ` set shares then collect_prompts C typed s leaves shares rest
      else and_done (of_result (typed (share_prompt i h label))) (\<lambda>entered.
        and_done (apply_answer C typed s leaves shares (trim entered)) (\<lambda>shares.
        collect_prompts C typed s leaves shares rest)))"

definition collect_shares :: "crates \<Rightarrow> answers \<Rightarrow> store \<Rightarrow> node_summary \<Rightarrow> string list \<Rightarrow> shares outcome" where
  "collect_shares C typed s root entries =
     (let leaves = collect_leaves root in
      and_done (collect_entries C typed s leaves [] entries) (\<lambda>shares.
      collect_prompts C typed s leaves shares leaves))"

section \<open>Nodes by name or key file\<close>

definition resolve_node_index :: "crates \<Rightarrow> store \<Rightarrow> key_tree \<Rightarrow> string \<Rightarrow> nat outcome" where
  "resolve_node_index C s T token =
     (case index_by_label T token of
        Ok i \<Rightarrow> Done i
      | Err _ \<Rightarrow>
          if \<not> file_exists s token then Failed NodeNotFound
          else and_done (of_result (read_key_bytes C s token)) (\<lambda>raw.
            if length raw \<noteq> 32 then Failed InvalidPublicKey
            else and_done (case get_key_by_public_key s raw of
                Ok k \<Rightarrow> Done k
              | Err _ \<Rightarrow> of_result (get_key_by_public_key s (encryption_public_from_secret C raw))) (\<lambda>hardware.
              case filter (\<lambda>i. kn_active (kt_nodes T ! i) \<and> kn_hw (kt_nodes T ! i) = Some (hw_id hardware))
                     [0..<length (kt_nodes T)] of
                [i] \<Rightarrow> Done i
              | [] \<Rightarrow> Failed NodeNotFound
              | _ \<Rightarrow> UsageExit)))"

fun resolve_nodes :: "crates \<Rightarrow> store \<Rightarrow> key_tree \<Rightarrow> string list \<Rightarrow> nat list outcome" where
  "resolve_nodes C s T [] = Done []"
| "resolve_nodes C s T (token # tokens) =
     and_done (resolve_node_index C s T token) (\<lambda>i.
     and_done (resolve_nodes C s T tokens) (\<lambda>is. Done (i # is)))"

definition lca_of_tokens :: "crates \<Rightarrow> store \<Rightarrow> int \<Rightarrow> string list \<Rightarrow> (key_tree \<times> nat) outcome" where
  "lca_of_tokens C s key tokens =
     and_done (of_result (load s key)) (\<lambda>T.
     and_done (resolve_nodes C s T tokens) (\<lambda>is.
     and_done (of_fuel (find_lowest_common_ancestor_of T is)) (\<lambda>i. Done (T, i))))"

definition leaf_backed_by :: "key_tree \<Rightarrow> string \<Rightarrow> int \<Rightarrow> key_node outcome" where
  "leaf_backed_by T label hardware =
     and_done (of_result (index_by_label T label)) (\<lambda>i.
     if kn_hw (kt_nodes T ! i) \<noteq> Some hardware then UsageExit else Done (kt_nodes T ! i))"

definition secret_for_named_leaf :: "crates \<Rightarrow> answers \<Rightarrow> store \<Rightarrow> int \<Rightarrow> string \<Rightarrow> string \<Rightarrow> bytes outcome" where
  "secret_for_named_leaf C typed s key label share_file =
     and_done (of_result (load s key)) (\<lambda>T.
     and_done (of_result (index_by_label T label)) (\<lambda>i.
     if \<not> kn_active (kt_nodes T ! i) \<or> kn_hw (kt_nodes T ! i) = None then Failed NodeNotFound
     else and_done (of_result (read_key_bytes C s share_file)) (\<lambda>raw.
       if length raw \<noteq> 32 then Failed InvalidPublicKey else secret_of_key C typed s share_file raw)))"

section \<open>Specifications from the command line\<close>

definition generate_leaf_keypair :: "crates \<Rightarrow> string \<Rightarrow> unit run" where
  "generate_leaf_keypair C pub =
     after_run (looking (\<lambda>s. if file_exists s pub \<or> file_exists s (with_extension pub ''key'') then UsageExit else Done ())) (\<lambda>_.
     doing (bind (if parent_dir pub = [] then ret () else create_dir_all (parent_dir pub)) (\<lambda>_.
       bind (generate_encryption_keypair C) (\<lambda>(secret, public).
       bind (write_hex_file C pub public) (\<lambda>_. write_hex_file C (with_extension pub ''key'') secret)))))"

definition find_or_register :: "crates \<Rightarrow> string \<Rightarrow> bool \<Rightarrow> bytes \<Rightarrow> (store, int) op" where
  "find_or_register C label register pk =
     bind (asks (\<lambda>s. Ok (get_key_by_public_key s pk))) (\<lambda>found.
     case found of
       Ok hardware \<Rightarrow> ret (hw_id hardware)
     | Err e \<Rightarrow> if register then register_key C label Encryption pk else fail e)"

definition resolve_or_register_pub :: "crates \<Rightarrow> string \<Rightarrow> string \<Rightarrow> bool \<Rightarrow> bool \<Rightarrow> int run" where
  "resolve_or_register_pub C label pub generate register =
     after_run (if generate then generate_leaf_keypair C pub else finish ()) (\<lambda>_.
     after_run (looking (\<lambda>s. of_result (read_key_bytes C s pub))) (\<lambda>pk.
     if length pk \<noteq> 32 then looking (\<lambda>_. Failed InvalidPublicKey)
     else doing (find_or_register C label register pk)))"

fun parse_spec_leaves :: "string set \<Rightarrow> string list \<Rightarrow> (string \<times> string) list outcome" where
  "parse_spec_leaves seen [] = Done []"
| "parse_spec_leaves seen (entry # entries) =
     (case split_once (CHR ''='') entry of
        None \<Rightarrow> UsageExit
      | Some (label, p) \<Rightarrow>
          if label = [] \<or> p = [] then UsageExit
          else if label \<in> seen then Failed DuplicateNodeLabel
          else and_done (parse_spec_leaves (insert label seen) entries) (\<lambda>rest. Done ((label, p) # rest)))"

text \<open>The labels are not empty: the threshold has been checked against their number.\<close>

definition infer_root_label :: "string list \<Rightarrow> string option \<Rightarrow> string \<Rightarrow> string outcome" where
  "infer_root_label labels explicit fallback =
     (case explicit of
        Some root \<Rightarrow> if root = [] then UsageExit else Done root
      | None \<Rightarrow>
          let prefixes = map parent_node_label labels in
          if list_all (\<lambda>p. p \<noteq> None) prefixes
          then (let first = the (hd prefixes) in
                if first = [] \<or> list_ex (\<lambda>p. p \<noteq> Some first) prefixes then UsageExit else Done first)
          else if list_all (\<lambda>p. p = None) prefixes then Done fallback
          else UsageExit)"

fun resolve_leaves :: "crates \<Rightarrow> bool \<Rightarrow> bool \<Rightarrow> (string \<times> string) list \<Rightarrow> (string \<times> int) list run" where
  "resolve_leaves C generate register [] = finish []"
| "resolve_leaves C generate register ((label, p) # leaves) =
     after_run (resolve_or_register_pub C label p generate register) (\<lambda>hw.
     after_run (resolve_leaves C generate register leaves) (\<lambda>rest. finish ((label, hw) # rest)))"

definition build_spec_from_leaves ::
  "crates \<Rightarrow> string \<Rightarrow> string option \<Rightarrow> u8 \<Rightarrow> string list \<Rightarrow> bool \<Rightarrow> bool \<Rightarrow> node_spec run" where
  "build_spec_from_leaves C key_label root threshold leaf_args generate register =
     after_run (looking (\<lambda>_. parse_spec_leaves {} leaf_args)) (\<lambda>leaves.
     if threshold = 0 \<or> unat threshold > length leaves then looking (\<lambda>_. Failed InvalidQuorumThreshold)
     else after_run (looking (\<lambda>_. infer_root_label (map fst leaves) root key_label)) (\<lambda>root_label.
       after_run (resolve_leaves C generate register leaves) (\<lambda>resolved.
       finish (flat_split root_label threshold resolved))))"

fun parse_bind_pairs :: "string list \<Rightarrow> (string \<times> string) list outcome" where
  "parse_bind_pairs [] = Done []"
| "parse_bind_pairs (entry # entries) =
     (case split_once (CHR ''='') entry of
        None \<Rightarrow> UsageExit
      | Some (a, b) \<Rightarrow>
          if a = [] \<or> b = [] \<or> a = b then UsageExit
          else and_done (parse_bind_pairs entries) (\<lambda>rest. Done ((a, b) # rest)))"

text \<open>
  The nested specification of a file is JSON, which \<open>serde_json\<close> reads: it is the argument
  \<open>parse_tree_spec\<close>.
\<close>

datatype spec_source =
    SpecFile string
  | SpecLeaves "string option" "u8 option" "string list" bool bool

definition spec_of :: "crates \<Rightarrow> (store \<Rightarrow> string \<Rightarrow> node_spec result) \<Rightarrow> string \<Rightarrow> spec_source \<Rightarrow> node_spec run" where
  "spec_of C parse_tree_spec label source =
     (case source of
        SpecFile p \<Rightarrow> looking (\<lambda>s. of_result (parse_tree_spec s p))
      | SpecLeaves root threshold leaves generate register \<Rightarrow>
          if leaves = [] then looking (\<lambda>_. UsageExit)
          else build_spec_from_leaves C label root (case threshold of None \<Rightarrow> 2 | Some t \<Rightarrow> t) leaves generate register)"

definition from_leaves :: "spec_source \<Rightarrow> bool" where
  "from_leaves source \<longleftrightarrow> (case source of SpecFile _ \<Rightarrow> False | _ \<Rightarrow> True)"

definition bind_pairs :: "int \<Rightarrow> string list \<Rightarrow> unit run" where
  "bind_pairs key binds =
     after_run (looking (\<lambda>_. parse_bind_pairs binds)) (\<lambda>pairs.
     doing (for_each (\<lambda>(a, b). bind_pair key a b) pairs))"

section \<open>The commands\<close>

definition run_generate :: "crates \<Rightarrow> key_type \<Rightarrow> string \<Rightarrow> string option \<Rightarrow> (store, string \<times> int option) op" where
  "run_generate C kt public_key_out register =
     bind (case kt of Encryption \<Rightarrow> generate_encryption_keypair C | Signing \<Rightarrow> generate_signing_keypair C) (\<lambda>(secret, public).
     bind (write_hex_file C public_key_out public) (\<lambda>_.
     case register of
       None \<Rightarrow> ret (hex_encode C secret, None)
     | Some label \<Rightarrow> bind (register_key C label kt public) (\<lambda>i. ret (hex_encode C secret, Some i))))"

definition run_register :: "crates \<Rightarrow> key_type \<Rightarrow> string \<Rightarrow> string \<Rightarrow> (store, int) op" where
  "run_register C kt label public_key_file =
     bind (asks (\<lambda>s. read_key_bytes C s public_key_file)) (\<lambda>pk. register_key C label kt pk)"

definition run_reconstruct ::
  "crates \<Rightarrow> answers \<Rightarrow> int \<Rightarrow> string list \<Rightarrow> string list \<Rightarrow> string option \<Rightarrow> string option run" where
  "run_reconstruct C typed key nodes share_files output =
     after_run (looking (\<lambda>s. and_done (of_fuel (describe s key)) (\<lambda>summary.
       collect_shares C typed s (ts_root summary) share_files))) (\<lambda>shares.
     after_run (looking (\<lambda>s.
       if nodes = [] then of_fuel (reconstruct C s key (map_of shares))
       else and_done (lca_of_tokens C s key nodes) (\<lambda>(T, i). of_fuel (reconstruct_from_lca C s key i (map_of shares))))) (\<lambda>secret.
     doing (write_reassembled_secret C secret output)))"

definition run_split ::
  "crates \<Rightarrow> (store \<Rightarrow> string \<Rightarrow> node_spec result) \<Rightarrow> string \<Rightarrow> spec_source \<Rightarrow> string option \<Rightarrow> string list
    \<Rightarrow> (int \<times> string option) run" where
  "run_split C parse_tree_spec label spec_source source binds =
     after_run (spec_of C parse_tree_spec label spec_source) (\<lambda>spec.
     after_run (case source of
         Some p \<Rightarrow> after_run (looking (\<lambda>s. of_result (read_key_file_payload C s p))) (\<lambda>secret.
           doing (bind (split C label secret spec) (\<lambda>key. ret (key, None))))
       | None \<Rightarrow> doing (bind (random_key C) (\<lambda>secret.
           bind (split C label secret spec) (\<lambda>key. ret (key, Some (hex_encode C secret)))))) (\<lambda>(key, shown).
     after_run (doing (if from_leaves spec_source then bind_all_sibling_leaf_pairs key else ret ())) (\<lambda>_.
     after_run (bind_pairs key binds) (\<lambda>_. finish (key, shown)))))"

datatype bind_target = ToPeer string | ToKey string "string option" bool

definition run_bind :: "crates \<Rightarrow> answers \<Rightarrow> int \<Rightarrow> string \<Rightarrow> bind_target \<Rightarrow> unit run" where
  "run_bind C typed key node target =
     (case target of
        ToPeer peer \<Rightarrow> doing (bind_pair key node peer)
      | ToKey public_key_file share_file register \<Rightarrow>
          (case share_file of
             None \<Rightarrow> looking (\<lambda>_. UsageExit)
           | Some share_file \<Rightarrow>
               after_run (resolve_or_register_pub C node public_key_file False register) (\<lambda>new_id.
               after_run (looking (\<lambda>s. secret_for_named_leaf C typed s key node share_file)) (\<lambda>old_secret.
               doing (rebind_leaf C key node new_id old_secret)))))"

definition run_add ::
  "crates \<Rightarrow> answers \<Rightarrow> int \<Rightarrow> string \<Rightarrow> string \<Rightarrow> string \<Rightarrow> string list \<Rightarrow> bool \<Rightarrow> bool \<Rightarrow> int run" where
  "run_add C typed key parent node public_key_file share_files generate register =
     after_run (resolve_or_register_pub C node public_key_file generate register) (\<lambda>hw.
     after_run (looking (\<lambda>s.
       and_done (of_fuel (describe s key)) (\<lambda>summary.
       and_done (of_result (ok_or NodeNotFound (find_tree_node (ts_root summary) parent))) (\<lambda>parent_node.
       collect_shares C typed s parent_node share_files)))) (\<lambda>shares.
     after_run (doing (add_leaf_and_reshare C key parent node hw (map_of shares))) (\<lambda>new_id.
     after_run (doing (bind_leaf_to_active_siblings key node)) (\<lambda>_. finish new_id))))"

definition print_lca :: "crates \<Rightarrow> store \<Rightarrow> int \<Rightarrow> string list \<Rightarrow> (string \<times> int) outcome" where
  "print_lca C s key nodes =
     and_done (lca_of_tokens C s key nodes) (\<lambda>(T, i). Done (kn_label (kt_nodes T ! i), kn_db (kt_nodes T ! i)))"

subsection \<open>Revoking a hardware key\<close>

definition write_bridge_change_notices :: "bridge_change list \<Rightarrow> (store, unit) op" where
  "write_bridge_change_notices changes = for_each (\<lambda>c.
     bind (lift_result (sanitize_label (bc_removed c))) (\<lambda>name.
     write_owner_only (''bridge-'' @ bc_uid c @ ''-removed-'' @ name @ ''.kqbn'') (bc_notice c))) changes"

definition evict_target :: "int \<Rightarrow> (int \<times> string) option \<Rightarrow> node_row list \<Rightarrow> store \<Rightarrow> (int \<times> int) outcome" where
  "evict_target hardware named leaves s =
     (case named of
        Some (key, label) \<Rightarrow>
          and_done (of_result (load s key)) (\<lambda>T.
          and_done (leaf_backed_by T label hardware) (\<lambda>node. Done (key, kn_db node)))
      | None \<Rightarrow> (case leaves of [leaf] \<Rightarrow> Done (n_key leaf, n_id leaf) | _ \<Rightarrow> UsageExit))"

definition evict_leaf :: "crates \<Rightarrow> answers \<Rightarrow> int \<Rightarrow> (int \<times> string) option \<Rightarrow> node_row list \<Rightarrow> string list \<Rightarrow> bridge_change list run" where
  "evict_leaf C typed hardware named leaves share_files =
     after_run (looking (evict_target hardware named leaves)) (\<lambda>(key, node).
     after_run (looking (\<lambda>s. and_done (of_fuel (describe s key)) (\<lambda>summary.
       collect_shares C typed s (ts_root summary) share_files))) (\<lambda>shares.
     doing (evict_and_refresh C key node (map_of shares))))"

definition drop_peers :: "int \<Rightarrow> (int \<times> string) option \<Rightarrow> string list \<Rightarrow> string list \<Rightarrow> unit run" where
  "drop_peers hardware named deny_peers remove_peers =
     (case named of
        None \<Rightarrow> finish ()
      | Some (key, label) \<Rightarrow>
          after_run (looking (\<lambda>s. and_done (of_result (load s key)) (\<lambda>T. leaf_backed_by T label hardware))) (\<lambda>_.
          doing (bind (for_each (remove_bridge key label) remove_peers) (\<lambda>_.
            for_each (deny_bridge key label) deny_peers))))"

fun revoke_members :: "string list \<Rightarrow> (store, bridge_change list) op" where
  "revoke_members [] = ret []"
| "revoke_members (l # ls) =
     bind (on_member_revoked l) (\<lambda>cs. bind (revoke_members ls) (\<lambda>rest. ret (cs @ rest)))"

text \<open>\<open>--key-id\<close> and \<open>--node\<close> count only together, as \<open>named\<close>.\<close>

definition apply_hardware_revoke ::
  "crates \<Rightarrow> answers \<Rightarrow> int \<Rightarrow> (int \<times> string) option \<Rightarrow> bool \<Rightarrow> string list \<Rightarrow> string list \<Rightarrow> string list \<Rightarrow> unit run" where
  "apply_hardware_revoke C typed hardware named evict share_files deny_peers remove_peers =
     after_run (drop_peers hardware named deny_peers remove_peers) (\<lambda>_.
     after_run (doing (drop_bindings_for_hardware hardware)) (\<lambda>leaves.
     after_run (if evict then evict_leaf C typed hardware named leaves share_files else finish []) (\<lambda>evict_changes.
     doing (bind (asks (\<lambda>s. get_key s hardware)) (\<lambda>k.
       bind (revoke_members (sorted_list_of_set (insert (hw_label k) (n_label ` set leaves)))) (\<lambda>revoke_changes.
       bind (revoke_key hardware) (\<lambda>_.
       bind (write_bridge_change_notices evict_changes) (\<lambda>_.
       write_bridge_change_notices revoke_changes))))))))"

subsection \<open>Files under a quorum\<close>

definition quorum_unlocking :: "crates \<Rightarrow> int \<Rightarrow> shares \<Rightarrow> bytes run" where
  "quorum_unlocking C i shares = (\<lambda>s. case unlock_file_quorum C i shares s of
       None \<Rightarrow> (Unending, s)
     | Some (r, s') \<Rightarrow> (of_result r, s'))"

definition run_quorum_lock ::
  "crates \<Rightarrow> (store \<Rightarrow> string \<Rightarrow> node_spec result) \<Rightarrow> string \<Rightarrow> string \<Rightarrow> string option \<Rightarrow> spec_source \<Rightarrow> string list \<Rightarrow> int run" where
  "run_quorum_lock C parse_tree_spec source encrypted_path name spec_source binds =
     after_run (spec_of C parse_tree_spec
         (case name of Some n \<Rightarrow> n | None \<Rightarrow> if base_name source \<in> {[], ''..''} then ''file'' else base_name source) spec_source) (\<lambda>spec.
     after_run (doing (lock_file_quorum C source encrypted_path name spec)) (\<lambda>i.
     if \<not> from_leaves spec_source then finish i
     else after_run (looking (\<lambda>s. of_fuel (status s i))) (\<lambda>st.
       after_run (doing (bind_all_sibling_leaf_pairs (ts_key (fs_tree st)))) (\<lambda>_.
       after_run (bind_pairs (ts_key (fs_tree st)) binds) (\<lambda>_. finish i)))))"

definition run_quorum_unlock :: "crates \<Rightarrow> answers \<Rightarrow> int \<Rightarrow> string list \<Rightarrow> string option \<Rightarrow> printed run" where
  "run_quorum_unlock C typed i share_files output =
     after_run (looking (\<lambda>s. and_done (of_fuel (status s i)) (\<lambda>st.
       collect_shares C typed s (ts_root (fs_tree st)) share_files))) (\<lambda>shares.
     after_run (quorum_unlocking C i shares) (\<lambda>plain.
     case output of
       Some p \<Rightarrow> after_run (doing (write_owner_only p plain)) (\<lambda>_. finish Nothing)
     | None \<Rightarrow> finish (ShownBytes plain)))"

section \<open>Gathered shares are unwrapped ones\<close>

text \<open>Each share was opened with a private key that matches the registered key of its leaf.\<close>

definition opened :: "crates \<Rightarrow> store \<Rightarrow> shares \<Rightarrow> bool" where
  "opened C s shares \<longleftrightarrow> distinct (map fst shares) \<and> (\<forall>(i, b) \<in> set shares. \<exists>sk. unwrap_leaf_share C s i sk = Ok b)"

lemma opened_snoc:
  "opened C s shares \<Longrightarrow> i \<notin> fst ` set shares \<Longrightarrow> unwrap_leaf_share C s i sk = Ok b \<Longrightarrow> opened C s (shares @ [(i, b)])"
  by (auto simp: opened_def)

lemma unwrap_each_opened: "unwrap_each C s hw sk shares leaves = Ok shares' \<Longrightarrow> opened C s shares \<Longrightarrow> opened C s shares'"
proof (induction leaves arbitrary: shares)
  case (Cons l leaves)
  obtain i h label where l: "l = (i, h, label)" by (cases l)
  show ?case
  proof (cases "h \<noteq> hw \<or> i \<in> fst ` set shares")
    case False
    then obtain b where b: "unwrap_leaf_share C s i sk = Ok b" "unwrap_each C s hw sk (shares @ [(i, b)]) leaves = Ok shares'"
      using Cons.prems(1) by (auto simp: l and_then_Ok_iff)
    have "opened C s (shares @ [(i, b)])" by (rule opened_snoc [OF Cons.prems(2) _ b(1)]) (use False in simp)
    then show ?thesis by (rule Cons.IH [OF b(2)])
  qed (use Cons l in simp)
qed simp

lemma unwrap_leaves_opened:
  "unwrap_leaves_for_secret C s leaves shares sk = Done shares' \<Longrightarrow> opened C s shares \<Longrightarrow> opened C s shares'"
  by (auto simp: unwrap_leaves_for_secret_def split: if_splits intro: unwrap_each_opened)

lemma apply_key_file_opened:
  "apply_key_file C typed s leaves shares p = Done shares' \<Longrightarrow> opened C s shares \<Longrightarrow> opened C s shares'"
  by (auto simp: apply_key_file_def split: if_splits intro: unwrap_leaves_opened)

lemma collect_entries_opened:
  "collect_entries C typed s leaves shares entries = Done shares' \<Longrightarrow> \<forall>e \<in> set entries. raw_entry e = None
    \<Longrightarrow> opened C s shares \<Longrightarrow> opened C s shares'"
  by (induction entries arbitrary: shares) (auto intro: apply_key_file_opened)

lemma apply_answer_opened:
  "apply_answer C typed s leaves shares answer = Done shares' \<Longrightarrow> opened C s shares \<Longrightarrow> opened C s shares'"
  by (auto simp: apply_answer_def split: if_splits option.splits intro: apply_key_file_opened unwrap_leaves_opened)

lemma collect_prompts_opened:
  "collect_prompts C typed s leaves shares rest = Done shares' \<Longrightarrow> opened C s shares \<Longrightarrow> opened C s shares'"
proof (induction rest arbitrary: shares)
  case (Cons l rest)
  obtain i h label where l: "l = (i, h, label)" by (cases l)
  show ?case
  proof (cases "i \<in> fst ` set shares")
    case False
    then obtain entered more_shares where "apply_answer C typed s leaves shares (trim entered) = Done more_shares"
      and rest: "collect_prompts C typed s leaves more_shares rest = Done shares'"
      using Cons.prems(1) by (auto simp: l)
    then show ?thesis using apply_answer_opened Cons.prems(2) Cons.IH [OF rest] by blast
  qed (use Cons l in simp)
qed simp

lemma collect_shares_opened:
  assumes "collect_shares C typed s root entries = Done shares" "\<forall>e \<in> set entries. raw_entry e = None"
  shows "opened C s shares"
proof -
  obtain mid where "collect_entries C typed s (collect_leaves root) [] entries = Done mid"
    and "collect_prompts C typed s (collect_leaves root) mid (collect_leaves root) = Done shares"
    using assms(1) by (auto simp: collect_shares_def Let_def)
  moreover have "opened C s []" by (simp add: opened_def)
  ultimately show ?thesis using collect_entries_opened collect_prompts_opened assms(2) by blast
qed

lemma opened_map: "opened C s shares \<Longrightarrow> map_of shares i = Some w \<Longrightarrow> \<exists>sk. unwrap_leaf_share C s i sk = Ok w"
  by (auto simp: opened_def dest: map_of_SomeD)

lemma map_of_presented: "(\<lambda>i. map_of shares i \<noteq> None) = (\<lambda>i. i \<in> fst ` set shares)"
  by (simp add: map_of_eq_None_iff)

text \<open>
  C2: What was split comes back from the command line. With key files and answers to prompts, and no
  raw shares, \<open>reconstruct\<close> presents only shares it opened with the private keys of their leaves, and
  then writes or prints the secret when those leaves meet the thresholds of the specification, at
  every level, and reports that the quorum is not met when they do not; it never ends well in any
  other way.
\<close>
theorem key_files_reconstruct:
  assumes "shamir_ok C" "box_ok C" "tree_store_ok s" "\<not> in_tx s" "secret \<noteq> []" "valid_spec s spec" "bridges_distinct spec"
    and "split C label secret spec s = (Ok key, s')" "\<forall>e \<in> set share_files. raw_entry e = None"
  shows "(\<forall>summary shares. describe s' key = Some (Ok summary)
      \<and> collect_shares C typed s' (ts_root summary) share_files = Done shares \<longrightarrow>
        opened C s' shares
        \<and> run_reconstruct C typed key [] share_files output s' =
            (if spec_sat (labels_hold (key_node_rows s' key) (\<lambda>i. i \<in> fst ` set shares)) spec
             then doing (write_reassembled_secret C secret output) s' else (Failed QuorumNotMet, s')))
    \<and> (\<forall>shown s''. run_reconstruct C typed key [] share_files output s' = (Done shown, s'') \<longrightarrow>
        (\<exists>summary shares. describe s' key = Some (Ok summary)
          \<and> collect_shares C typed s' (ts_root summary) share_files = Done shares))"
proof -
  have key: "key = next_rowid (map k_id (key_rows s))" and s': "s' = split_store C label secret spec s"
    using split_run [OF assms(1,3,6,7,4)] assms(8) by simp_all
  have run: "run_reconstruct C typed key [] share_files output s' =
      (if spec_sat (labels_hold (key_node_rows s' key) (\<lambda>i. i \<in> fst ` set shares)) spec
       then doing (write_reassembled_secret C secret output) s' else (Failed QuorumNotMet, s'))"
    if "describe s' key = Some (Ok summary)" "collect_shares C typed s' (ts_root summary) share_files = Done shares"
      "opened C s' shares" for summary shares
  proof -
    have "\<forall>i w. map_of shares i = Some w \<longrightarrow> (\<exists>sk. unwrap_leaf_share C s' i sk = Ok w)"
      using opened_map [OF that(3)] by blast
    note rec = split_store_reconstruct [OF assms(1,2,3,5,6) s' this, folded key, unfolded map_of_presented]
    show ?thesis using that(1,2)
      by (simp add: run_reconstruct_def after_run_def and_done_def of_fuel_def of_result_def rec)
  qed
  show ?thesis
    using run collect_shares_opened [OF _ assms(9)]
    by (auto simp: run_reconstruct_def after_run_Done)
qed


subsection \<open>A key that backs two leaves\<close>

definition two_store :: store where "two_store = empty_store\<lparr>hw_rows := [demo_key 1 65]\<rparr>"

definition two_spec :: node_spec where "two_spec = Split ''root'' 2 [Leaf ''ann'' 1 [], Leaf ''bob'' 1 []] []"

definition two_split :: store where "two_split = split_store toy ''vault'' [7] two_spec two_store"

definition two_key :: string where "two_key = replicate 32 CHR ''A''"

lemma two_ok: "tree_store_ok two_store" "\<not> in_tx two_store" "valid_spec two_store two_spec" "bridges_distinct two_spec"
  by (simp_all add: tree_store_ok_def node_table.ids_ok_def key_table.ids_ok_def hw.ids_ok_def
      two_store_def demo_key_def empty_store_def valid_spec_def two_spec_def bridges_distinct_def
      get_active_encryption_key_def get_key_def is_ok_def)

lemma two_split_run: "split toy ''vault'' [7] two_spec two_store = (Ok 1, two_split)"
  using split_run [OF toy_shamir_ok two_ok(1,3,4,2)]
  by (simp add: two_split_def two_store_def empty_store_def next_rowid_def)

lemma two_rows:
  "node_rows two_split =
    [\<lparr> n_id = 1, n_key = 1, n_parent = None, n_label = ''root'', n_threshold = Some 2, n_hw = None,
       n_wrapped = None, n_active = True \<rparr>,
     \<lparr> n_id = 2, n_key = 1, n_parent = Some 1, n_label = ''ann'', n_threshold = None, n_hw = Some 1,
       n_wrapped = Some (replicate 32 65 @ [1, 7]), n_active = True \<rparr>,
     \<lparr> n_id = 3, n_key = 1, n_parent = Some 1, n_label = ''bob'', n_threshold = None, n_hw = Some 1,
       n_wrapped = Some (replicate 32 65 @ [2, 7]), n_active = True \<rparr>]"
  by (simp add: two_split_def split_store_fields two_store_def two_spec_def demo_key_def empty_store_def dealt_def
      toy_take next_rowid_def leaf_key_def get_key_def upt_rec)

lemma two_hw: "hw_rows two_split = [demo_key 1 65]"
  by (simp add: two_split_def split_store_fields two_store_def)

lemma two_keys: "key_rows two_split = [\<lparr> k_id = 1, k_label = ''vault'', k_generation = 1 \<rparr>]" "disk two_split = (\<lambda>_. None)"
  by (simp_all add: two_split_def split_store_def Let_def two_store_def empty_store_def next_rowid_def grow_def)

lemma two_describe:
  obtains d where "describe two_split 1 = Some (Ok d)" "collect_leaves (ts_root d) = [(2, 1, ''ann''), (3, 1, ''bob'')]"
  by (simp add: describe_def two_keys key_table.row_of_def root_node_id_def two_rows node_table.row_of_def
      hw_label_of_def child_ids_def get_key_def two_hw hw.row_of_def demo_key_def)

lemma two_trim: "trim two_key = two_key"
  unfolding two_key_def by (rule trim_visible) (simp_all add: visible_ascii_def)

theorem key_files_reconstruct_witness:
  "run_reconstruct toy (\<lambda>_. Ok two_key) 1 [] [] None two_split = (Done (Some (from_bytes [7])), two_split)"
proof -
  obtain d where d: "describe two_split 1 = Some (Ok d)" "collect_leaves (ts_root d) = [(2, 1, ''ann''), (3, 1, ''bob'')]"
    by (rule two_describe)
  have sk: "as_bytes two_key = replicate 32 65" by (simp add: two_key_def as_bytes_def)
  have two: "two_key \<noteq> []" by (simp add: two_key_def)
  have unwrap: "unwrap_leaves_for_secret toy two_split [(2, 1, ''ann''), (3, 1, ''bob'')] [] (replicate 32 65)
      = Done [(2, [1, 7]), (3, [2, 7])]"
    by (simp add: unwrap_leaves_for_secret_def get_key_by_public_key_def two_hw demo_key_def encryption_public_from_secret_def
        unwrap_leaf_share_def node_table.row_of_def two_rows get_key_def of_result_def and_done_def)
  have collect: "collect_shares toy (\<lambda>_. Ok two_key) two_split (ts_root d) [] = Done [(2, [1, 7]), (3, [2, 7])]"
    unfolding collect_shares_def d(2) Let_def
    by (simp add: two_trim apply_answer_def two file_exists_def two_keys sk unwrap of_result_def and_done_def)
  have "spec_sat (labels_hold (key_node_rows two_split 1) (\<lambda>i. i \<in> fst ` set [(2 :: int, [1, 7 :: u8]), (3, [2, 7])])) two_spec"
    unfolding key_node_rows_def two_rows by (simp add: two_spec_def labels_hold_def)
  then have "run_reconstruct toy (\<lambda>_. Ok two_key) 1 [] [] None two_split = doing (write_reassembled_secret toy [7] None) two_split"
    using key_files_reconstruct [OF toy_shamir_ok toy_box_ok two_ok(1,2) _ two_ok(3,4) two_split_run, of "[]" "\<lambda>_. Ok two_key" None]
      d(1) collect by simp
  then show ?thesis by (simp add: write_reassembled_secret_def doing_def)
qed

end
