(* ===== verification/HardwareRevoke.thy ===== *)
theory HardwareRevoke
  imports TreeCommands
begin

text \<open>
  What \<open>keyquorum revoke\<close> (\<open>apply_hardware_revoke\<close> in \<open>src/bin/keyquorum/main.rs\<close>) comes to: an
  order in which the command only takes away, kept by each of its steps, and what each step adds
  when it returns.
\<close>

section \<open>Taking away only\<close>

text \<open>
  \<open>quieter s t\<close>: \<open>t\<close> has the same nodes, hardware keys and private bridges as \<open>s\<close>; a leaf may have
  a new share or be inactive, a key may be revoked, a bridge destroyed, and links, whitelist entries
  and bridge members may be gone, never the other way.
\<close>

definition node_le :: "node_row \<Rightarrow> node_row \<Rightarrow> bool" where
  "node_le r q \<longleftrightarrow> q\<lparr>n_wrapped := n_wrapped r, n_active := n_active r\<rparr> = r \<and> (n_active q \<longrightarrow> n_active r)"

definition hw_le :: "hw_row \<Rightarrow> hw_row \<Rightarrow> bool" where
  "hw_le h k \<longleftrightarrow> k\<lparr>hw_revoked := hw_revoked h\<rparr> = h \<and> (hw_revoked h \<noteq> None \<longrightarrow> hw_revoked k \<noteq> None)"

definition pb_le :: "pb_row \<Rightarrow> pb_row \<Rightarrow> bool" where
  "pb_le x y \<longleftrightarrow> y\<lparr>b_destroyed := b_destroyed x\<rparr> = x \<and> (b_destroyed x \<noteq> None \<longrightarrow> b_destroyed y \<noteq> None)"

definition quieter :: "store \<Rightarrow> store \<Rightarrow> bool" where
  "quieter s t \<longleftrightarrow> list_all2 node_le (node_rows s) (node_rows t)
     \<and> list_all2 hw_le (hw_rows s) (hw_rows t) \<and> list_all2 pb_le (pb_rows s) (pb_rows t)
     \<and> set (link_rows t) \<subseteq> set (link_rows s) \<and> set (bridge_rows t) \<subseteq> set (bridge_rows s)
     \<and> set (member_rows t) \<subseteq> set (member_rows s)"

lemma row_le_refl [simp]: "node_le r r" "hw_le h h" "pb_le x x"
  by (simp_all add: node_le_def hw_le_def pb_le_def)

lemma node_leD:
  assumes "node_le r q"
  shows "n_id q = n_id r" "n_key q = n_key r" "n_label q = n_label r" "n_hw q = n_hw r"
    "n_active q \<Longrightarrow> n_active r"
  using assms by (cases r; cases q; simp add: node_le_def)+

lemma hw_leD:
  assumes "hw_le h k"
  shows "hw_id k = hw_id h" "hw_label k = hw_label h" "hw_revoked h \<noteq> None \<Longrightarrow> hw_revoked k \<noteq> None"
  using assms by (cases h; cases k; simp add: hw_le_def)+

lemma pb_leD:
  assumes "pb_le x y"
  shows "b_id y = b_id x" "b_uid y = b_uid x" "b_destroyed y = None \<Longrightarrow> b_destroyed x = None"
  using assms by (cases x; cases y; auto simp: pb_le_def)+

lemma row_le_trans:
  "node_le r q \<Longrightarrow> node_le q p \<Longrightarrow> node_le r p" "hw_le h k \<Longrightarrow> hw_le k l \<Longrightarrow> hw_le h l"
  "pb_le x y \<Longrightarrow> pb_le y z \<Longrightarrow> pb_le x z"
proof -
  show "node_le r q \<Longrightarrow> node_le q p \<Longrightarrow> node_le r p" by (cases r; cases q; cases p) (auto simp: node_le_def)
  show "hw_le h k \<Longrightarrow> hw_le k l \<Longrightarrow> hw_le h l" by (cases h; cases k; cases l) (auto simp: hw_le_def)
  show "pb_le x y \<Longrightarrow> pb_le y z \<Longrightarrow> pb_le x z" by (cases x; cases y; cases z) (auto simp: pb_le_def)
qed

lemma quieter_refl [simp]: "quieter s s"
  by (simp add: quieter_def list_all2_refl)

lemma quieter_trans: "quieter s t \<Longrightarrow> quieter t u \<Longrightarrow> quieter s u"
  unfolding quieter_def
  by (auto intro: list_all2_trans row_le_trans)

lemma tables_only_quieter [simp]: "tables_only (quieter s)"
  by (simp add: tables_only_def quieter_def)

lemma quieter_same: "tree_tables s t \<Longrightarrow> quieter s t \<longleftrightarrow> list_all2 pb_le (pb_rows s) (pb_rows t)
    \<and> set (member_rows t) \<subseteq> set (member_rows s)"
  by (simp add: tree_tables_def quieter_def list_all2_refl)

lemma quiet_stepI: "(\<And>t. quieter t (snd (m t))) \<Longrightarrow> keeps (quieter s) m"
  by (rule keepsI) (blast intro: quieter_trans)

lemma list_all2_map_self: "(\<And>x. x \<in> set xs \<Longrightarrow> P x (f x)) \<Longrightarrow> list_all2 P xs (map f xs)"
  by (simp add: list_all2_conv_all_nth)

text \<open>The primitive writes of the command.\<close>

lemma quiet_primitives [keeps_intros]:
  "keeps (quieter s) draw" "keeps (quieter s) (revoke_key h)" "keeps (quieter s) (remove_file p)"
  "keeps (quieter s) (create_new p)" "keeps (quieter s) (write_all p d)"
  "keeps (quieter s) (delete_parties P)" "keeps (quieter s) (delete_sealed i)"
  "keeps (quieter s) (insert_event i e x)"
  "keeps (quieter s) (\<lambda>u. update_pb Q (\<lambda>r. r\<lparr>b_destroyed := Some (clock u)\<rparr>) u)"
  "keeps (quieter s) (update_nodes Q' (\<lambda>r. r\<lparr>n_active := False\<rparr>))"
  "keeps (quieter s) (update_nodes Q' (\<lambda>r. r\<lparr>n_wrapped := w\<rparr>))"
  unfolding delete_parties_def delete_sealed_def insert_event_def insert_pbevent_def insert_row_def update_pb_def
    update_nodes_def revoke_key_def remove_file_def create_new_def write_all_def
  by (rule quiet_stepI;
      force simp: bind_def modify_def ret_def quieter_def list_all2_refl Let_def node_le_def hw_le_def pb_le_def
        intro!: list_all2_map_self)+

lemma quiet_links [keeps_intros]:
  "keeps (quieter s) (remove_bridge key a b)" "keeps (quieter s) (delete_node_bindings key i)"
  unfolding remove_bridge_def delete_node_bindings_def
  by (intro keeps_intros quiet_stepI; auto simp: quieter_def list_all2_refl)+

lemma quiet_deny [keeps_intros]: "keeps (quieter s) (deny_bridge key a b)"
proof -
  have m: "keeps (quieter s) (modify (\<lambda>t. t\<lparr>bridge_rows := filter P (bridge_rows t)\<rparr>))"
    "keeps (quieter s) (modify (\<lambda>t. t\<lparr>link_rows := filter Q (link_rows t)\<rparr>))" for P Q
    by (rule quiet_stepI; auto simp: quieter_def list_all2_refl modify_def)+
  have "keeps (quieter s) (case p of Ok pr \<Rightarrow> modify (\<lambda>t. t\<lparr>link_rows := filter (\<lambda>r. r \<noteq> pr) (link_rows t)\<rparr>)
      | Err _ \<Rightarrow> ret ())" for p :: "(int \<times> int) result"
    by (cases p) (simp_all add: m(2))
  then show ?thesis unfolding deny_bridge_def by (intro keeps_bind keeps_asks m(1))
qed

section \<open>The steps of the command\<close>

lemma quiet_drop_tx [keeps_intros]: "keeps (quieter s) (drop_tx uid b l notify kind)"
  unfolding drop_tx_def
  by (intro keeps_with_immediate tables_only_quieter keeps_bind keeps_if quiet_primitives)

lemma quiet_drop_each: "keeps (quieter s) (drop_each label us)"
proof (induction us)
  case (Cons u us)
  then show ?case
    unfolding drop_each.simps drop_member_on_coordinator_def Let_def
    by (intro keeps_intros quiet_drop_tx)
qed (simp only: drop_each.simps keeps_ret)

lemma quiet_drops [keeps_intros]:
  "keeps (quieter s) (on_leaf_removed key l)" "keeps (quieter s) (on_member_revoked l)"
  unfolding on_leaf_removed_def on_member_revoked_def by (intro keeps_bind keeps_asks quiet_drop_each)+

lemma quiet_refresh [keeps_intros]: "keeps (quieter s) (refresh_among C shares t)"
proof -
  have d: "keeps (quieter s) (generate_zero_deltas C t len xs)" for t len xs
    unfolding generate_zero_deltas_def Let_def by (intro keeps_intros)
  have "keeps (quieter s) (absorb_rounds C t len xs k acc)" for t len xs k acc
  proof (induction k arbitrary: acc)
    case (Suc k)
    then show ?case unfolding absorb_rounds.simps by (intro keeps_bind d keeps_lift)
  qed (simp only: absorb_rounds.simps keeps_ret)
  then show ?thesis unfolding refresh_among_def Let_def by (intro keeps_intros)
qed

lemma quiet_put_share [keeps_intros]: "keeps (quieter s) (put_share C x)"
  unfolding put_share_def seal_share_def by (cases x) (simp only: prod.case, intro keeps_intros)

lemma quiet_evict [keeps_intros]: "keeps (quieter s) (evict_and_refresh C key ev presented)"
  unfolding evict_and_refresh_def evict_body_def Let_def
  by (intro keeps_transaction tables_only_quieter keeps_intros)

lemma quiet_write [keeps_intros]: "keeps (quieter s) (write_bridge_change_notices cs)"
proof -
  have "keeps (quieter s) (case r of Err e \<Rightarrow> bind (remove_file p) (\<lambda>_. fail e) | Ok _ \<Rightarrow> ret ())"
    for r :: "unit result" and p by (cases r) (simp_all, intro keeps_intros)
  then show ?thesis
    unfolding write_bridge_change_notices_def write_owner_only_def by (intro keeps_intros)
qed

lemma quiet_members [keeps_intros]: "keeps (quieter s) (revoke_members ls)"
  by (induction ls) (simp_all only: revoke_members.simps keeps_ret, intro keeps_intros)

section \<open>What the steps achieve\<close>

definition unbound :: "store \<Rightarrow> node_row \<Rightarrow> bool" where
  "unbound s r \<longleftrightarrow> (\<forall>(a, b) \<in> set (link_rows s). a \<noteq> n_id r \<and> b \<noteq> n_id r)
     \<and> (\<forall>(j, b) \<in> set (bridge_rows s). j \<noteq> n_id r
          \<and> \<not> (b = n_label r \<and> j \<in> n_id ` set (key_node_rows s (n_key r))))"

lemma quieter_node:
  assumes "quieter s t" "q \<in> set (node_rows t)"
  obtains r where "r \<in> set (node_rows s)" "node_le r q"
  using assms list_all2_memD [of node_le "node_rows s" "node_rows t" q] by (auto simp: quieter_def)

lemma quieter_node_forward:
  assumes "quieter s t" "r \<in> set (node_rows s)"
  shows "\<exists>q \<in> set (node_rows t). node_le r q"
  using assms unfolding quieter_def in_set_conv_nth list_all2_conv_all_nth by (metis nth_mem)

lemma quieter_ids: "quieter s t \<Longrightarrow> n_id ` set (key_node_rows t key) \<subseteq> n_id ` set (key_node_rows s key)"
proof
  fix i assume q: "quieter s t" and "i \<in> n_id ` set (key_node_rows t key)"
  then obtain x where x: "x \<in> set (node_rows t)" "n_key x = key" "n_id x = i" by (auto simp: key_node_rows_def)
  obtain r where "r \<in> set (node_rows s)" "node_le r x" by (rule quieter_node [OF q x(1)])
  then show "i \<in> n_id ` set (key_node_rows s key)"
    using node_leD(1,2) [of r x] x(2,3) by (auto simp: key_node_rows_def)
qed

lemma unbound_quieter: "quieter s t \<Longrightarrow> unbound s r \<Longrightarrow> unbound t r"
  using quieter_ids [of s t "n_key r"] unfolding unbound_def quieter_def by blast

lemma bindings_deleted:
  assumes "store_ids_ok s" "r \<in> set (node_rows s)" "delete_node_bindings (n_key r) (n_id r) s = (Ok (), t)"
  shows "unbound t r \<and> node_rows t = node_rows s"
proof -
  obtain q where q: "find (\<lambda>q. n_id q = n_id r \<and> n_key q = n_key r) (node_rows s) = Some q"
    and t: "node_rows t = node_rows s" "\<forall>(a, b) \<in> set (link_rows t). a \<noteq> n_id r \<and> b \<noteq> n_id r"
      "\<forall>(j, b) \<in> set (bridge_rows t). j \<noteq> n_id r \<and> \<not> (b = n_label q \<and> j \<in> n_id ` set (key_node_rows s (n_key r)))"
    by (rule delete_bindings_Ok [OF assms(3)])
  from q have "q \<in> set (node_rows s)" "n_id q = n_id r" by (auto simp: find_Some_iff)
  then have "q = r" using ids_unique [OF assms(1)] assms(2) by blast
  then show ?thesis using t by (simp add: unbound_def key_node_rows_def)
qed

lemma all_deleted:
  assumes "store_ids_ok s" "set rs \<subseteq> set (node_rows s)"
    and "for_each (\<lambda>r. delete_node_bindings (n_key r) (n_id r)) rs s = (Ok (), t)"
  shows "(\<forall>r \<in> set rs. unbound t r) \<and> node_rows t = node_rows s"
  using assms
proof (induction rs arbitrary: s)
  case (Cons r rs)
  then obtain u where u: "delete_node_bindings (n_key r) (n_id r) s = (Ok (), u)"
    and rest: "for_each (\<lambda>r. delete_node_bindings (n_key r) (n_id r)) rs u = (Ok (), t)"
    by (auto elim: bind_Ok_elim)
  have r: "unbound u r" "node_rows u = node_rows s" using bindings_deleted [OF Cons.prems(1) _ u] Cons.prems(2) by simp_all
  have "quieter u t" using keepsD [OF keeps_for_each [OF quiet_links(2)], of u u] rest by (metis quieter_refl snd_conv)
  then have "unbound t r" using unbound_quieter r(1) by blast
  moreover have "(\<forall>r \<in> set rs. unbound t r) \<and> node_rows t = node_rows u"
    using Cons.prems(1,2) r(2) by (intro Cons.IH [OF _ _ rest]) (auto simp: store_ids_ok_def)
  ultimately show ?case using r(2) by simp
qed simp

lemma hardware_unbound:
  assumes "store_ids_ok s" "drop_bindings_for_hardware h s = (Ok leaves, t)"
  shows "leaves = active_leaves_for_hardware s h" "\<forall>r \<in> set leaves. unbound t r" "node_rows t = node_rows s"
proof -
  have l: "leaves = active_leaves_for_hardware s h"
    and d: "for_each (\<lambda>r. delete_node_bindings (n_key r) (n_id r)) leaves s = (Ok (), t)"
    using assms(2) unfolding drop_bindings_for_hardware_def by (auto elim!: bind_Ok_elim)
  show "leaves = active_leaves_for_hardware s h" by (rule l)
  have "set leaves \<subseteq> set (node_rows s)" by (auto simp: l active_leaves_for_hardware_def)
  from all_deleted [OF assms(1) this d] show "\<forall>r \<in> set leaves. unbound t r" "node_rows t = node_rows s" by simp_all
qed

text \<open>No live bridge with one of the uids has the label as a member.\<close>

definition off_uids :: "store \<Rightarrow> string set \<Rightarrow> string \<Rightarrow> bool" where
  "off_uids s us l \<longleftrightarrow> (\<forall>r \<in> set (pb_rows s). b_uid r \<in> us \<and> b_destroyed r = None \<longrightarrow>
     (\<forall>m \<in> set (member_rows s). \<not> (m_bridge m = b_id r \<and> m_label m = l \<and> m_role m = Member)))"

lemma live_uids_iff:
  "u \<in> set (live_uids s P l) \<longleftrightarrow> (\<exists>r \<in> set (pb_rows s). b_destroyed r = None \<and> P r \<and> b_uid r = u
     \<and> (\<exists>m \<in> set (member_rows s). m_bridge m = b_id r \<and> m_label m = l \<and> m_role m = Member))"
  by (auto simp: live_uids_def)

lemma live_uids_off: "live_uids s (\<lambda>_. True) l = [] \<longleftrightarrow> off_uids s UNIV l"
proof -
  have "live_uids s (\<lambda>_. True) l = [] \<longleftrightarrow> (\<forall>u. u \<notin> set (live_uids s (\<lambda>_. True) l))" by (cases "live_uids s (\<lambda>_. True) l") auto
  then show ?thesis unfolding live_uids_iff off_uids_def by blast
qed

lemma off_uids_quieter:
  assumes "quieter s t" "off_uids s us l"
  shows "off_uids t us l"
  unfolding off_uids_def
proof (intro ballI impI)
  fix y m assume y: "y \<in> set (pb_rows t)" "b_uid y \<in> us \<and> b_destroyed y = None" and m: "m \<in> set (member_rows t)"
  obtain x where x: "x \<in> set (pb_rows s)" "pb_le x y"
    using assms(1) y(1) list_all2_memD [of pb_le "pb_rows s" "pb_rows t" y] by (auto simp: quieter_def)
  have "m \<in> set (member_rows s)" using assms(1) m by (auto simp: quieter_def)
  then show "\<not> (m_bridge m = b_id y \<and> m_label m = l \<and> m_role m = Member)"
    using assms(2) x(1) y(2) pb_leD [OF x(2)] unfolding off_uids_def by fastforce
qed

lemma with_immediate_Ok:
  assumes "with_immediate_transaction m s = (Ok a, s')"
  obtains b c t where "m (s\<lparr>in_tx := b\<rparr>) = (Ok a, t)" "s' = t\<lparr>in_tx := c\<rparr>"
proof (cases "in_tx s")
  case True
  then have eq: "s\<lparr>in_tx := True\<rparr> = s" by (cases s) simp
  have "m s = (Ok a, s')" using assms True by (simp add: with_immediate_transaction_def)
  then have "m (s\<lparr>in_tx := True\<rparr>) = (Ok a, s')" "s' = s'\<lparr>in_tx := in_tx s'\<rparr>" by (simp_all only: eq) simp
  then show thesis by (rule that)
next
  case False
  then show thesis using assms immediate_cases [OF assms False] that by (metis sum.distinct(1))
qed

lemma quieter_run: "keeps (quieter s) m \<Longrightarrow> m s = (x, t) \<Longrightarrow> quieter s t"
  using keepsD [of "quieter s" m s] by simp

lemma drop_tx_off:
  assumes "drop_tx uid b l notify kind s = (Ok (), t)" "m \<in> set (member_rows t)"
  shows "\<not> (m_bridge m = b \<and> m_label m = l)"
proof -
  let ?P = "\<lambda>r. m_bridge r = b \<and> m_label r = l"
  let ?rest = "if kind = ChangeDestroyed then
        bind (\<lambda>s. update_pb (\<lambda>r. b_uid r = uid) (\<lambda>r. r\<lparr>b_destroyed := Some (clock s)\<rparr>) s) (\<lambda>_.
        bind (delete_sealed b) (\<lambda>_. insert_event b Destroyed (RemovedDetail uid l notify)))
      else insert_event b MemberRemoved (RemovedDetail uid l notify)"
  obtain i j t' where body: "bind (delete_parties ?P) (\<lambda>_. ?rest) (s\<lparr>in_tx := i\<rparr>) = (Ok (), t')" and t: "t = t'\<lparr>in_tx := j\<rparr>"
    using assms(1) unfolding drop_tx_def by (rule with_immediate_Ok)
  obtain u where d: "delete_parties ?P (s\<lparr>in_tx := i\<rparr>) = (Ok (), u)" and rest: "?rest u = (Ok (), t')"
    using body by (rule bind_Ok_elim) simp
  have u: "member_rows u = filter (\<lambda>r. \<not> ?P r) (member_rows s)"
    using arg_cong [OF d, of "\<lambda>x. member_rows (snd x)"] by (simp add: delete_parties_def)
  have "quieter u t'"
    by (rule quieter_run [where m = ?rest]) (intro keeps_if keeps_bind quiet_primitives, rule rest)
  then have "m \<in> set (member_rows u)" using assms(2) t by (auto simp: quieter_def)
  then show ?thesis by (simp add: u)
qed

lemma member_off:
  assumes "distinct (map b_uid (pb_rows s))" "drop_member_on_coordinator uid l s = (Ok c, t)"
  shows "off_uids t {uid} l"
proof -
  obtain g where g: "get s uid = Ok g"
    using assms(2) unfolding drop_member_on_coordinator_def by (auto elim!: bind_Ok_elim)
  obtain x where x: "x \<in> set (pb_rows s)" "b_uid x = uid" "bg_destroyed g = (b_destroyed x \<noteq> None)"
    by (rule get_row [OF g])
  have one: "y = x" if "y \<in> set (pb_rows s)" "b_uid y = uid" for y
    using assms(1) that x(1,2) by (auto simp: distinct_map dest: inj_onD)
  show ?thesis
  proof (cases "bg_destroyed g")
    case True
    then have "t = s" using assms(2) g by (simp add: drop_member_on_coordinator_def)
    then show ?thesis using one x(3) True unfolding off_uids_def by fastforce
  next
    case False
    have b: "last_bridge_id s uid = Ok (b_id x)"
      using find_unique [OF assms(1) x(1,2)] by (simp add: last_bridge_id_def get_optional_def)
    obtain kind notify where d: "drop_tx uid (b_id x) l notify kind s = (Ok (), t)"
      using assms(2) g False b that unfolding drop_member_on_coordinator_def Let_def
      by (auto elim!: bind_Ok_elim)
    have q: "quieter s t" by (rule quieter_run [OF quiet_drop_tx d])
    show ?thesis
      unfolding off_uids_def
    proof (intro ballI impI)
      fix y m assume y: "y \<in> set (pb_rows t)" "b_uid y \<in> {uid} \<and> b_destroyed y = None" and m: "m \<in> set (member_rows t)"
      obtain z where z: "z \<in> set (pb_rows s)" "pb_le z y"
        using q y(1) list_all2_memD [of pb_le "pb_rows s" "pb_rows t" y] by (auto simp: quieter_def)
      then have "b_id y = b_id x" using one [of z] pb_leD(1,2) [OF z(2)] y(2) by simp
      then show "\<not> (m_bridge m = b_id y \<and> m_label m = l \<and> m_role m = Member)" using drop_tx_off [OF d m] by auto
    qed
  qed
qed

lemma quieter_uids: "quieter s t \<Longrightarrow> map b_uid (pb_rows t) = map b_uid (pb_rows s)"
proof (rule nth_equalityI)
  assume q: "quieter s t"
  then show "length (map b_uid (pb_rows t)) = length (map b_uid (pb_rows s))"
    by (simp add: quieter_def list_all2_conv_all_nth)
  fix i assume "i < length (map b_uid (pb_rows t))"
  then show "map b_uid (pb_rows t) ! i = map b_uid (pb_rows s) ! i"
    using q pb_leD(2) [of "pb_rows s ! i" "pb_rows t ! i"] by (simp add: quieter_def list_all2_conv_all_nth)
qed

lemma each_off:
  assumes "distinct (map b_uid (pb_rows s))" "drop_each l us s = (Ok cs, t)"
  shows "off_uids t (set us) l"
  using assms
proof (induction us arbitrary: s cs)
  case (Cons u us)
  then obtain c cs' v where v: "drop_member_on_coordinator u l s = (Ok c, v)" and rest: "drop_each l us v = (Ok cs', t)"
    by (auto elim!: bind_Ok_elim)
  have q: "quieter s v"
  proof -
    have "keeps (quieter s) (drop_member_on_coordinator u l)"
      unfolding drop_member_on_coordinator_def Let_def by (intro keeps_intros quiet_drop_tx)
    then show ?thesis using v by (rule quieter_run)
  qed
  have "off_uids t {u} l"
    by (rule off_uids_quieter [OF quieter_run [OF quiet_drop_each rest] member_off [OF Cons.prems(1) v]])
  moreover have "off_uids t (set us) l" using Cons.IH [OF _ rest] Cons.prems(1) quieter_uids [OF q] by simp
  ultimately show ?case by (auto simp: off_uids_def)
qed (simp add: off_uids_def)

lemma revoked_off:
  assumes "distinct (map b_uid (pb_rows s))" "on_member_revoked l s = (Ok cs, t)"
  shows "live_uids t (\<lambda>_. True) l = []"
proof -
  let ?us = "live_uids s (\<lambda>_. True) l"
  have d: "drop_each l ?us s = (Ok cs, t)" using assms(2) by (simp add: on_member_revoked_def)
  have off: "off_uids t (set ?us) l" by (rule each_off [OF assms(1) d])
  have q: "quieter s t" by (rule quieter_run [OF quiet_drop_each d])
  have "off_uids s (- set ?us) l" by (auto simp: off_uids_def live_uids_iff)
  then have "off_uids t (- set ?us) l" by (rule off_uids_quieter [OF q])
  then show ?thesis using off by (auto simp: live_uids_off off_uids_def)
qed

lemma members_off:
  assumes "distinct (map b_uid (pb_rows s))" "revoke_members ls s = (Ok cs, t)"
  shows "\<forall>l \<in> set ls. live_uids t (\<lambda>_. True) l = []"
  using assms
proof (induction ls arbitrary: s cs)
  case (Cons l ls)
  then obtain cs1 cs2 v where v: "on_member_revoked l s = (Ok cs1, v)" and rest: "revoke_members ls v = (Ok cs2, t)"
    by (auto elim!: bind_Ok_elim)
  have q: "quieter s v" "quieter v t"
    by (rule quieter_run [OF quiet_drops(2) v], rule quieter_run [OF quiet_members rest])
  have "live_uids t (\<lambda>_. True) l = []"
    using off_uids_quieter [OF q(2)] revoked_off [OF Cons.prems(1) v] by (simp add: live_uids_off)
  moreover have "\<forall>l \<in> set ls. live_uids t (\<lambda>_. True) l = []"
    using Cons.IH [OF _ rest] Cons.prems(1) quieter_uids [OF q(1)] by simp
  ultimately show ?case by simp
qed simp

lemma tables_in_tx [simp]: "quieter (s\<lparr>in_tx := b\<rparr>) t = quieter s t"
  by (simp add: quieter_def)

text \<open>The evicted node was an active leaf and is inactive afterwards.\<close>

lemma evicted_inactive:
  assumes "store_ids_ok s" "evict_and_refresh C key ev presented s = (Ok changes, t)"
  shows "\<exists>r \<in> set (node_rows s). n_id r = ev \<and> n_key r = key \<and> n_active r
    \<and> (\<exists>q \<in> set (node_rows t). n_id q = ev \<and> \<not> n_active q)"
proof -
  obtain v where body: "evict_body C key ev presented (s\<lparr>in_tx := True\<rparr>) = (Ok changes, v)" and t: "t = v\<lparr>in_tx := False\<rparr>"
    using assms(2) unfolding evict_and_refresh_def by (rule transaction_Ok_elim)
  let ?s = "s\<lparr>in_tx := True\<rparr>"
  have ids: "store_ids_ok ?s" using assms(1) by (simp add: store_ids_ok_def)
  show ?thesis
  proof (rule evict_body_Ok [OF body])
    fix T i and shares :: "bytes list" and meta :: "(int \<times> hw_row \<times> bytes) list" and s1 s2 s3
    assume T: "load ?s key = Ok T" and i: "index_by_db_id T ev = Ok i" and act: "kn_active (kt_nodes T ! i)"
      and del: "delete_node_bindings key ev (s1\<lparr>node_rows :=
         map (\<lambda>r. if n_id r = ev then r\<lparr>n_active := False\<rparr> else r) (node_rows s1)\<rparr>) = (Ok (), s2)"
      and leaf: "on_leaf_removed key (kn_label (kt_nodes T ! i)) s2 = (Ok changes, s3)"
      and loop: "for_each (put_share C) (map2 (\<lambda>(d, hk, _) share. (d, hk, share)) meta shares) s3 = (Ok (), v)"
    let ?r = "key_node_rows ?s key ! i"
    note idx = index_by_db_row [OF T ids i]
    have r: "?r \<in> set (node_rows s)" "n_key ?r = key" "n_active ?r"
      using nth_mem [OF idx(1)] load_OkD(1) [OF T ids] idx(1) act by (auto simp: key_node_rows_def)
    obtain q where q: "find (\<lambda>q. n_id q = ev \<and> n_key q = key)
        (map (\<lambda>r. if n_id r = ev then r\<lparr>n_active := False\<rparr> else r) (node_rows s1)) = Some q"
      and s2: "node_rows s2 = map (\<lambda>r. if n_id r = ev then r\<lparr>n_active := False\<rparr> else r) (node_rows s1)"
      by (rule delete_bindings_Ok [OF del]) simp
    then have q2: "q \<in> set (node_rows s2)" "n_id q = ev" "\<not> n_active q" by (auto simp: find_Some_iff split: if_splits)
    have "quieter s2 v"
      by (rule quieter_trans [OF quieter_run [OF quiet_drops(1) leaf] quieter_run [OF keeps_for_each [OF quiet_put_share] loop]])
    then obtain q' where "q' \<in> set (node_rows v)" "node_le q q'"
      using quieter_node_forward q2(1) by blast
    then have "\<exists>q \<in> set (node_rows t). n_id q = ev \<and> \<not> n_active q"
      using node_leD(1,5) [of q q'] q2(2,3) t by auto
    then show ?thesis using r idx(2) by blast
  qed
qed

lemma leaf_backed:
  assumes "store_ids_ok s" "load s key = Ok T" "leaf_backed_by T label h = Done node"
  shows "\<exists>r \<in> set (node_rows s). n_id r = kn_db node \<and> n_hw r = Some h"
proof -
  obtain i where l: "index_by_label T label = Ok i"
    using assms(3) by (cases "index_by_label T label") (simp_all add: leaf_backed_by_def of_result_def and_done_def)
  then have i: "index_by_label T label = Ok i" "kn_hw (kt_nodes T ! i) = Some h" "node = kt_nodes T ! i"
    using assms(3) by (cases "kn_hw (kt_nodes T ! i) = Some h"; simp add: leaf_backed_by_def of_result_def and_done_def)+
  obtain r where r: "r \<in> set (node_rows s)" "kn_db (kt_nodes T ! i) = n_id r"
    "r = key_node_rows s key ! i" "i < length (key_node_rows s key)"
    by (rule index_by_label_row [OF assms(2,1) i(1)])
  have "n_hw r = Some h" using load_OkD(1) [OF assms(2,1)] r(3,4) i(2) by simp
  then show ?thesis using r(1,2) i(3) by auto
qed

lemma evict_target_leaf:
  assumes "store_ids_ok s" "evict_target h named (active_leaves_for_hardware s' h) s = Done (key, ev)"
    and "node_rows s' = node_rows s"
  shows "\<exists>r \<in> set (node_rows s). n_id r = ev \<and> n_hw r = Some h"
proof (cases named)
  case None
  then obtain leaf where "active_leaves_for_hardware s' h = [leaf]" "n_id leaf = ev"
    using assms(2) by (auto simp: evict_target_def split: list.splits)
  then have "leaf \<in> set (active_leaves_for_hardware s' h)" "n_id leaf = ev" by simp_all
  then show ?thesis using assms(3) by (auto simp: active_leaves_for_hardware_def)
next
  case (Some kl)
  then obtain T node where "load s (fst kl) = Ok T" "leaf_backed_by T (snd kl) h = Done node" "kn_db node = ev"
    using assms(2) by (cases kl) (auto simp: evict_target_def)
  then show ?thesis using leaf_backed [OF assms(1)] by blast
qed

lemma quieter_key:
  assumes "quieter s t"
  shows "get_key t h = Ok k \<Longrightarrow> \<exists>k'. get_key s h = Ok k' \<and> hw_le k' k"
    and "get_key s h = Ok k' \<Longrightarrow> \<exists>k. get_key t h = Ok k \<and> hw_le k' k"
proof -
  have "list_all2 hw_le (hw_rows s) (hw_rows t)" using assms(1) by (simp add: quieter_def)
  then have "rel_option hw_le (find (\<lambda>r. hw_id r = h) (hw_rows s)) (find (\<lambda>r. hw_id r = h) (hw_rows t))"
    by (induction rule: list_all2_induct) (auto dest: hw_leD(1))
  then show "get_key t h = Ok k \<Longrightarrow> \<exists>k'. get_key s h = Ok k' \<and> hw_le k' k"
    "get_key s h = Ok k' \<Longrightarrow> \<exists>k. get_key t h = Ok k \<and> hw_le k' k"
    by (cases "find (\<lambda>r. hw_id r = h) (hw_rows s)"; cases "find (\<lambda>r. hw_id r = h) (hw_rows t)"; simp add: get_key_def)+
qed

lemma key_revoked:
  assumes "get_key s h = Ok k" "revoke_key h s = (Ok (), t)"
  shows "get_key t h = Ok (k\<lparr>hw_revoked := Some (clock s)\<rparr>)"
proof -
  have t: "hw_rows t = map (\<lambda>r. if hw_id r = h then r\<lparr>hw_revoked := Some (clock s)\<rparr> else r) (hw_rows s)"
    using arg_cong [OF assms(2), of "\<lambda>x. hw_rows (snd x)"] by (simp add: revoke_key_def)
  have "find (\<lambda>r. hw_id r = h) (map (\<lambda>r. if hw_id r = h then r\<lparr>hw_revoked := Some (clock s)\<rparr> else r) rows)
      = map_option (\<lambda>r. r\<lparr>hw_revoked := Some (clock s)\<rparr>) (find (\<lambda>r. hw_id r = h) rows)" for rows
    by (induction rows) auto
  note this [of "hw_rows s"]
  then show ?thesis
    using assms(1) unfolding get_key_def t by (cases "find (\<lambda>r. hw_id r = h) (hw_rows s)") (simp_all del: if_split)
qed

section \<open>The whole command\<close>

definition quiet_run :: "'a run \<Rightarrow> bool" where
  "quiet_run m \<longleftrightarrow> (\<forall>s. quieter s (snd (m s)))"

lemma quiet_runD: "quiet_run m \<Longrightarrow> m s = (x, t) \<Longrightarrow> quieter s t"
  unfolding quiet_run_def by (metis snd_conv)

lemma quiet_finish: "quiet_run (finish a)" and quiet_looking: "quiet_run (looking q)"
  by (simp_all add: quiet_run_def finish_def)

lemma quiet_doing:
  assumes "\<And>s. keeps (quieter s) m"
  shows "quiet_run (doing m)"
proof -
  have "quieter s (snd (doing m s))" for s
    using keepsD [OF assms quieter_refl, of s] by (cases "m s"; cases "fst (m s)") (simp_all add: doing_def)
  then show ?thesis by (simp add: quiet_run_def)
qed

lemma quiet_after:
  assumes "quiet_run m" "\<And>a. quiet_run (f a)"
  shows "quiet_run (after_run m f)"
proof -
  have "quieter s (snd (after_run m f s))" for s
  proof (cases "m s")
    case (Pair x t)
    then have q: "quieter s t" using assms(1) quiet_runD by blast
    show ?thesis
    proof (cases x)
      case (Done a)
      have "quieter t (snd (f a t))" using assms(2) by (simp add: quiet_run_def)
      then show ?thesis using quieter_trans [OF q] Pair Done by (simp add: after_run_def)
    qed (use q Pair in \<open>simp_all add: after_run_def\<close>)
  qed
  then show ?thesis by (simp add: quiet_run_def)
qed

lemmas quiet_runs = quiet_finish quiet_looking quiet_after quiet_doing

lemma quiet_drop_hardware: "keeps (quieter s) (drop_bindings_for_hardware h)"
  unfolding drop_bindings_for_hardware_def by (intro keeps_intros)

lemma quiet_peers: "quiet_run (drop_peers h named deny remove)"
  unfolding drop_peers_def
  by (cases named) (auto intro!: quiet_runs keeps_intros split: prod.splits)

lemma quiet_evict_leaf: "quiet_run (evict_leaf C typed h named leaves files)"
  unfolding evict_leaf_def by (intro quiet_runs) (auto intro!: quiet_runs keeps_intros split: prod.splits)

lemma quiet_revoke: "quiet_run (apply_hardware_revoke C typed h named evict files deny remove)"
proof -
  have e: "quiet_run (if evict then evict_leaf C typed h named leaves files else finish [])" for leaves
    by (simp add: quiet_evict_leaf quiet_finish)
  show ?thesis
    unfolding apply_hardware_revoke_def
    by (intro quiet_after quiet_peers quiet_doing quiet_drop_hardware e keeps_intros)
qed

lemma peers_rows:
  assumes "drop_peers h named deny remove s = (Done (), t)"
  shows "node_rows t = node_rows s"
proof -
  have k: "keeps (\<lambda>t. node_rows t = node_rows s) (remove_bridge key a b)"
    "keeps (\<lambda>t. node_rows t = node_rows s) (deny_bridge key a b)" for key a b
  proof -
    have m: "keeps (\<lambda>t. node_rows t = node_rows s) (case p of
        Ok pr \<Rightarrow> modify (\<lambda>s. s\<lparr>link_rows := filter (\<lambda>r. r \<noteq> pr) (link_rows s)\<rparr>) | Err _ \<Rightarrow> ret ())"
      for p :: "(int \<times> int) result" by (cases p) (simp_all add: keeps_def)
    show "keeps (\<lambda>t. node_rows t = node_rows s) (remove_bridge key a b)"
      unfolding remove_bridge_def by (intro keeps_bind keeps_asks keeps_lift) (simp add: keeps_def)
    show "keeps (\<lambda>t. node_rows t = node_rows s) (deny_bridge key a b)"
      unfolding deny_bridge_def by (intro keeps_bind keeps_asks m keeps_modify) simp
  qed
  show ?thesis
  proof (cases named)
    case None
    then show ?thesis using assms by (simp add: drop_peers_def finish_def)
  next
    case (Some kl)
    then have "bind (for_each (remove_bridge (fst kl) (snd kl)) remove) (\<lambda>_. for_each (deny_bridge (fst kl) (snd kl)) deny) s = (Ok (), t)"
      using assms by (cases kl) (auto simp: drop_peers_def after_run_Done doing_Done)
    moreover have "keeps (\<lambda>t. node_rows t = node_rows s)
        (bind (for_each (remove_bridge (fst kl) (snd kl)) remove) (\<lambda>_. for_each (deny_bridge (fst kl) (snd kl)) deny))"
      by (intro keeps_bind keeps_for_each k)
    ultimately show ?thesis using keepsD [of "\<lambda>t. node_rows t = node_rows s" _ s] by fastforce
  qed
qed

lemma evict_leaf_off:
  assumes "store_ids_ok s" "evict_leaf C typed h named (active_leaves_for_hardware s h) files s = (Done changes, t)"
  shows "\<exists>r \<in> set (active_leaves_for_hardware s h). \<exists>q \<in> set (node_rows t). n_id q = n_id r \<and> \<not> n_active q"
proof -
  obtain key node shares where t: "evict_target h named (active_leaves_for_hardware s h) s = Done (key, node)"
    and u: "evict_and_refresh C key node shares s = (Ok changes, t)"
    using assms(2) by (auto simp: evict_leaf_def after_run_Done doing_Done split: prod.splits)
  obtain r where r: "r \<in> set (node_rows s)" "n_id r = node" "n_active r"
    and q: "\<exists>q \<in> set (node_rows t). n_id q = node \<and> \<not> n_active q"
    using evicted_inactive [OF assms(1) u] by blast
  obtain r' where r': "r' \<in> set (node_rows s)" "n_id r' = node" "n_hw r' = Some h"
    using evict_target_leaf [OF assms(1) t] by blast
  have "r = r'" using ids_unique [OF assms(1)] r r' by blast
  then show ?thesis using r r'(3) q by (auto simp: active_leaves_for_hardware_def)
qed

text \<open>The last part of the command, which revokes the key.\<close>

lemma revoke_tail:
  assumes "distinct (map b_uid (pb_rows s))"
    and run: "bind (asks (\<lambda>s. get_key s h)) (\<lambda>k.
       bind (revoke_members (sorted_list_of_set (insert (hw_label k) (n_label ` set leaves)))) (\<lambda>revoke_changes.
       bind (revoke_key h) (\<lambda>_.
       bind (write_bridge_change_notices changes) (\<lambda>_.
       write_bridge_change_notices revoke_changes)))) s = (Ok (), s')"
  shows "\<exists>k k'. get_key s h = Ok k \<and> get_key s' h = Ok k' \<and> hw_revoked k' \<noteq> None \<and> quieter s s'
    \<and> (\<forall>l \<in> insert (hw_label k) (n_label ` set leaves). live_uids s' (\<lambda>_. True) l = [])"
proof -
  from run obtain k rc t u where k: "get_key s h = Ok k"
    and t: "revoke_members (sorted_list_of_set (insert (hw_label k) (n_label ` set leaves))) s = (Ok rc, t)"
    and u: "revoke_key h t = (Ok (), u)"
    and wr: "bind (write_bridge_change_notices changes) (\<lambda>_. write_bridge_change_notices rc) u = (Ok (), s')"
    by (auto elim!: bind_Ok_elim)
  have q1: "quieter s t" by (rule quieter_run [OF quiet_members t])
  have q2: "quieter u s'" by (rule quieter_run [OF keeps_bind [OF quiet_write quiet_write] wr])
  have q: "quieter t s'" by (rule quieter_trans [OF quieter_run [OF quiet_primitives(2) u] q2])
  have off: "live_uids s' (\<lambda>_. True) l = []" if "l \<in> insert (hw_label k) (n_label ` set leaves)" for l
  proof -
    have "l \<in> set (sorted_list_of_set (insert (hw_label k) (n_label ` set leaves)))"
      using that by (simp only: set_sorted_list_of_set finite_insert finite_imageI finite_set)
    then have "live_uids t (\<lambda>_. True) l = []" using members_off [OF assms(1) t] by blast
    then show ?thesis using off_uids_quieter [OF q] by (simp add: live_uids_off)
  qed
  obtain kt where kt: "get_key t h = Ok kt" using quieter_key(2) [OF q1 k] by blast
  obtain k' where k': "get_key s' h = Ok k'" "hw_le (kt\<lparr>hw_revoked := Some (clock t)\<rparr>) k'"
    using quieter_key(2) [OF q2 key_revoked [OF kt u]] by blast
  have "hw_revoked k' \<noteq> None" using hw_leD(3) [OF k'(2)] by simp
  then show ?thesis using k k'(1) quieter_trans [OF q1 q] off by blast
qed

text \<open>
  C16: Whatever the outcome of \<open>keyquorum revoke\<close>, it only takes away: no share of a leaf becomes active,
  no key unrevoked, no link, whitelist entry or bridge member appears. When it returns, the hardware
  key is revoked; every leaf it backed has lost its links and the whitelist entries that name it, and
  with the label of the key itself is a member of no live private bridge; with \<open>--evict\<close> one of
  these leaves is inactive.
\<close>

theorem hardware_revoked:
  assumes run: "apply_hardware_revoke C typed h named evict files deny remove s = (out, s')"
    and "store_ids_ok s" "distinct (map b_uid (pb_rows s))"
  shows "quieter s s' \<and> (out = Done () \<longrightarrow> (\<exists>k k'. get_key s h = Ok k \<and> get_key s' h = Ok k' \<and> hw_revoked k' \<noteq> None
    \<and> live_uids s' (\<lambda>_. True) (hw_label k) = []
    \<and> (\<forall>r \<in> set (active_leaves_for_hardware s h). unbound s' r \<and> live_uids s' (\<lambda>_. True) (n_label r) = [])
    \<and> (evict \<longrightarrow> (\<exists>r \<in> set (active_leaves_for_hardware s h).
         \<exists>q \<in> set (node_rows s'). n_id q = n_id r \<and> \<not> n_active q))))"
proof (intro conjI impI)
  show "quieter s s'" by (rule quiet_runD [OF quiet_revoke run])
  assume "out = Done ()"
  from run [unfolded apply_hardware_revoke_def this after_run_Done doing_Done]
  obtain s1 leaves s2 changes s3 where s1: "drop_peers h named deny remove s = (Done (), s1)"
    and s2: "drop_bindings_for_hardware h s1 = (Ok leaves, s2)"
    and s3: "(if evict then evict_leaf C typed h named leaves files else finish []) s2 = (Done changes, s3)"
    and rest: "bind (asks (\<lambda>s. get_key s h)) (\<lambda>k.
       bind (revoke_members (sorted_list_of_set (insert (hw_label k) (n_label ` set leaves)))) (\<lambda>revoke_changes.
       bind (revoke_key h) (\<lambda>_.
       bind (write_bridge_change_notices changes) (\<lambda>_.
       write_bridge_change_notices revoke_changes)))) s3 = (Ok (), s')"
    by auto
  have e: "quiet_run (if evict then evict_leaf C typed h named leaves files else finish [])"
    by (simp add: quiet_evict_leaf quiet_finish)
  have q1: "quieter s s1" by (rule quiet_runD [OF quiet_peers s1])
  have q2: "quieter s1 s2" by (rule quieter_run [OF quiet_drop_hardware s2])
  have q3: "quieter s2 s3" by (rule quiet_runD [OF e s3])
  have q03: "quieter s s3" by (rule quieter_trans [OF q1 quieter_trans [OF q2 q3]])
  have uids: "distinct (map b_uid (pb_rows s3))" using quieter_uids [OF q03] assms(3) by simp
  obtain k3 k' where k3: "get_key s3 h = Ok k3" and k': "get_key s' h = Ok k'" "hw_revoked k' \<noteq> None"
    and q36: "quieter s3 s'" and off: "\<forall>l \<in> insert (hw_label k3) (n_label ` set leaves). live_uids s' (\<lambda>_. True) l = []"
    using revoke_tail [OF uids rest] by blast
  obtain k where k: "get_key s h = Ok k" "hw_le k k3" using quieter_key(1) [OF q03 k3] by blast
  note r1 = peers_rows [OF s1]
  have ids1: "store_ids_ok s1" using assms(2) r1 by (simp add: store_ids_ok_def)
  note d = hardware_unbound [OF ids1 s2]
  have leaves: "leaves = active_leaves_for_hardware s h" using d(1) r1 by (simp add: active_leaves_for_hardware_def)
  have ub: "unbound s' r" if "r \<in> set leaves" for r by (rule unbound_quieter [OF quieter_trans [OF q3 q36]]) (use d(2) that in blast)
  have ev: "\<exists>r \<in> set leaves. \<exists>q \<in> set (node_rows s'). n_id q = n_id r \<and> \<not> n_active q" if evict
  proof -
    have ids2: "store_ids_ok s2" using ids1 d(3) by (simp add: store_ids_ok_def)
    have l: "leaves = active_leaves_for_hardware s2 h" using d(1,3) by (simp add: active_leaves_for_hardware_def)
    have "evict_leaf C typed h named (active_leaves_for_hardware s2 h) files s2 = (Done changes, s3)"
      using s3 that l by simp
    then obtain r x where x: "r \<in> set leaves" "x \<in> set (node_rows s3)" "n_id x = n_id r" "\<not> n_active x"
      using evict_leaf_off [OF ids2] l by blast
    obtain y where "y \<in> set (node_rows s')" "node_le x y" using quieter_node_forward [OF q36 x(2)] by blast
    then show ?thesis using node_leD(1,5) [of x y] x by metis
  qed
  show "\<exists>k k'. get_key s h = Ok k \<and> get_key s' h = Ok k' \<and> hw_revoked k' \<noteq> None
    \<and> live_uids s' (\<lambda>_. True) (hw_label k) = []
    \<and> (\<forall>r \<in> set (active_leaves_for_hardware s h). unbound s' r \<and> live_uids s' (\<lambda>_. True) (n_label r) = [])
    \<and> (evict \<longrightarrow> (\<exists>r \<in> set (active_leaves_for_hardware s h).
         \<exists>q \<in> set (node_rows s'). n_id q = n_id r \<and> \<not> n_active q))"
    using k k' ub ev off hw_leD(2) [OF k(2)] unfolding leaves by (metis image_eqI insertCI)
qed

definition three_party :: "string \<Rightarrow> member_row" where
  "three_party l = \<lparr> m_bridge = 1, m_label = l, m_encryption = replicate 32 3, m_signing = None,
     m_role = Member, m_local = False \<rparr>"

definition paired_store :: store where
  "paired_store = pair_store\<lparr>link_rows := [(2, 3)], bridge_rows := [(2, ''bob''), (3, ''ann'')],
     pb_rows := [\<lparr> b_id = 1, b_uid = ''u'', b_key = None, b_label = None, b_generation = 1,
       b_public = replicate 32 1, b_salt = replicate 16 2, b_destroyed = None \<rparr>],
     member_rows := [three_party ''ann'', three_party ''bob'', three_party ''cyd'']\<rparr>"

definition unpaired_store :: store where
  "unpaired_store = paired_store\<lparr>link_rows := [], bridge_rows := []\<rparr>"

lemma paired_unbind: "drop_bindings_for_hardware 1 paired_store = (Ok (active_leaves_for_hardware paired_store 1), unpaired_store)"
  by (simp add: drop_bindings_for_hardware_def active_leaves_for_hardware_def paired_store_def pair_store_def
      delete_node_bindings_def bind_run node_row.make_def unpaired_store_def)

lemma paired_leaves: "n_label ` set (active_leaves_for_hardware paired_store 1) = {''ann''}"
  by (simp add: active_leaves_for_hardware_def paired_store_def pair_store_def node_row.make_def)

lemma unpaired_get:
  obtains g where "get unpaired_store ''u'' = Ok g" "\<not> bg_destroyed g" "member_labels g = [''ann'', ''bob'', ''cyd'']"
  by (simp add: get_def unpaired_store_def paired_store_def roster_def three_party_def party_of_def vec_to_32_def u32_try_from_def
      vec_to_salt_def Let_def member_labels_def SALT_LEN_def)

lemma unpaired_notice:
  obtains n where "encode_notice ''u'' ''ann'' [''bob'', ''cyd''] (notify_labels [''ann'', ''bob'', ''cyd'']) NeedsMemberRotate = Ok n"
  by (simp add: encode_notice_def push_len_prefixed_def push_u16_count_def notify_labels_def notify_step_def as_bytes_def
      parent_node_label_def sm_keys_def)

lemma unpaired_drop:
  obtains c t where "on_member_revoked ''ann'' unpaired_store = (Ok [c], t)" "bc_removed c = ''ann''" "bc_uid c = ''u''"
    "member_rows t = [three_party ''bob'', three_party ''cyd'']" "pb_rows t = pb_rows unpaired_store"
    "disk t = (\<lambda>_. None)" "bad_paths t = {}"
proof -
  obtain g where g: "get unpaired_store ''u'' = Ok g" "\<not> bg_destroyed g" "member_labels g = [''ann'', ''bob'', ''cyd'']"
    by (rule unpaired_get)
  obtain n where n: "encode_notice ''u'' ''ann'' [''bob'', ''cyd''] (notify_labels [''ann'', ''bob'', ''cyd'']) NeedsMemberRotate = Ok n"
    by (rule unpaired_notice)
  have u: "live_uids unpaired_store (\<lambda>_. True) ''ann'' = [''u'']" "last_bridge_id unpaired_store ''u'' = Ok 1"
    by (simp_all add: live_uids_def unpaired_store_def paired_store_def three_party_def last_bridge_id_def get_optional_def)
  let ?s = "unpaired_store\<lparr>in_tx := True, member_rows := [three_party ''bob'', three_party ''cyd''], sealed_rows := []\<rparr>"
  have del: "delete_parties (\<lambda>r. m_bridge r = 1 \<and> m_label r = ''ann'') (unpaired_store\<lparr>in_tx := True\<rparr>) = (Ok (), ?s)"
    by (simp add: delete_parties_def unpaired_store_def paired_store_def pair_store_def demo_store_def empty_store_def three_party_def)
  have "1 \<in> b_id ` set (pb_rows ?s)" by (simp add: unpaired_store_def paired_store_def)
  then obtain es where es: "insert_event 1 MemberRemoved (RemovedDetail ''u'' ''ann'' (notify_labels [''ann'', ''bob'', ''cyd''])) ?s
      = (Ok (), ?s\<lparr>pbevent_rows := es\<rparr>)" using insert_event_run by blast
  have tx: "\<not> in_tx unpaired_store"
    by (simp add: unpaired_store_def paired_store_def pair_store_def demo_store_def empty_store_def)
  have d: "drop_tx ''u'' 1 ''ann'' (notify_labels [''ann'', ''bob'', ''cyd'']) NeedsMemberRotate unpaired_store
      = (Ok (), ?s\<lparr>pbevent_rows := es, in_tx := False\<rparr>)"
    using del es tx by (simp add: drop_tx_def with_immediate_transaction_def run_tx_def bind_run)
  show thesis
  proof (rule that)
    show "on_member_revoked ''ann'' unpaired_store = (Ok [\<lparr> bc_uid = ''u'', bc_removed = ''ann'', bc_remaining = [''bob'', ''cyd''],
         bc_notify = notify_labels [''ann'', ''bob'', ''cyd''], bc_kind = NeedsMemberRotate, bc_notice = n \<rparr>],
       ?s\<lparr>pbevent_rows := es, in_tx := False\<rparr>)"
      using u g n d by (simp add: on_member_revoked_def drop_member_on_coordinator_def bind_run Let_def)
  qed (simp_all add: unpaired_store_def paired_store_def pair_store_def demo_store_def empty_store_def)
qed

lemma sorted_labels: "sorted_list_of_set {''k'', ''ann''} = [''ann'', ''k'']"
  by (simp add: sorted_list_of_set_insert_remove)

lemma paired_run:
  obtains t where "apply_hardware_revoke toy (\<lambda>_. Ok []) 1 None False [] [] [] paired_store = (Done (), t)"
    "b_destroyed (hd (pb_rows t)) = None"
proof -
  obtain c t where r: "on_member_revoked ''ann'' unpaired_store = (Ok [c], t)" "bc_removed c = ''ann''" "bc_uid c = ''u''"
    and t: "member_rows t = [three_party ''bob'', three_party ''cyd'']" "pb_rows t = pb_rows unpaired_store"
      "disk t = (\<lambda>_. None)" "bad_paths t = {}"
    by (rule unpaired_drop)
  have k: "get_key unpaired_store 1 = Ok (demo_key 1 1)"
    by (simp add: get_key_def unpaired_store_def paired_store_def pair_store_def demo_store_def demo_key_def)
  have none: "on_member_revoked ''k'' t = (Ok [], t)"
    by (simp add: t on_member_revoked_def live_uids_def three_party_def bind_run unpaired_store_def paired_store_def)
  have m: "revoke_members [''ann'', ''k''] unpaired_store = (Ok [c], t)" using r(1) none by (simp add: bind_run)
  obtain v where rv: "revoke_key 1 t = (Ok (), v)" and v: "disk v = (\<lambda>_. None)" "bad_paths v = {}" "pb_rows v = pb_rows unpaired_store"
    by (simp add: revoke_key_def t)
  have name: "sanitize_label ''ann'' = Ok ''ann''" by (simp add: sanitize_label_def cont_def plain_char_def)
  obtain w where w: "write_bridge_change_notices [c] v = (Ok (), w)" "pb_rows w = pb_rows v"
    using v r(2) name by (simp add: write_bridge_change_notices_def write_owner_only_def create_new_def write_all_def bind_run)
  have "drop_peers 1 None [] [] paired_store = (Done (), paired_store)" by (simp add: drop_peers_def finish_def)
  moreover have "hw_label (demo_key 1 1) = ''k''" by (simp add: demo_key_def)
  ultimately have "apply_hardware_revoke toy (\<lambda>_. Ok []) 1 None False [] [] [] paired_store = (Done (), w)"
    using paired_unbind k m rv w(1) paired_leaves sorted_labels
    by (simp add: apply_hardware_revoke_def after_run_def doing_def finish_def bind_run write_bridge_change_notices_def)
  then show thesis by (rule that) (simp add: w(2) v(3) unpaired_store_def paired_store_def)
qed

theorem hardware_revoked_witness:
  "\<exists>t k'. apply_hardware_revoke toy (\<lambda>_. Ok []) 1 None False [] [] [] paired_store = (Done (), t)
    \<and> get_key t 1 = Ok k' \<and> hw_revoked k' \<noteq> None \<and> quieter paired_store t
    \<and> live_uids t (\<lambda>_. True) ''ann'' = [] \<and> live_uids paired_store (\<lambda>_. True) ''ann'' = [''u'']"
proof -
  obtain t where t: "apply_hardware_revoke toy (\<lambda>_. Ok []) 1 None False [] [] [] paired_store = (Done (), t)"
    by (rule paired_run)
  have ids: "store_ids_ok paired_store" "distinct (map b_uid (pb_rows paired_store))"
    using pair_store_inv by (simp_all add: paired_store_def bridge_inv_def store_ids_ok_def)
  have live: "live_uids paired_store (\<lambda>_. True) ''ann'' = [''u'']"
    by (simp add: live_uids_def paired_store_def three_party_def)
  obtain r where "r \<in> set (active_leaves_for_hardware paired_store 1)" "n_label r = ''ann''"
    using paired_leaves by (metis imageE insertI1)
  then show ?thesis using hardware_revoked [OF t ids] t live by metis
qed

end
