(* ===== verification/Spec2Isabelle.thy ===== *)
theory Spec2Isabelle
  imports Prelude Crates Strings Wire Store Keys Pss TreeProps TreeBridges TreeReshare TreeEvict TreePublish Pin Sharing Signing Quorum Export BridgeRuns RelayRuns RelayClient HardwareRevoke
begin

text \<open>
  KeyQuorum: a verification library for the Rust crate under \<open>src/src\<close>.

  \<^bold>\<open>The program.\<close> KeyQuorum splits secrets over trees of hardware keys. A personal SQLite
  database (\<open>db/schema.sql\<close>) holds the registry of public keys, the split trees with one sealed
  share per leaf, the files and credentials locked by password or by quorum, PINs, share links,
  and the private bridges between people; a relay delivers packages between stores. Every
  operation is a function of a connection; the ones that write more than one row run in a
  transaction.

  \<^bold>\<open>How it is modelled.\<close> An operation is a function from a state to a result and a new state
  (\<open>('s, 'a) op\<close>, with \<open>error + 'a\<close> for \<open>Result\<close>), composed by \<open>bind\<close> as \<open>?\<close> composes calls.
  The state (\<open>store\<close> in Store) has one list of rows per table in rowid order, the number of
  draws made from \<open>OsRng\<close>, the clock, the files on disk and whether a transaction is open. A
  statement that breaks a \<open>CHECK\<close>, key, foreign key or trigger of the schema is an error that
  writes nothing; \<open>run_tx\<close> puts every table back when its body fails. Machine integers keep
  their width (\<open>u8\<close>, \<open>u32\<close>); \<open>as u8\<close>, \<open>as usize\<close> are \<open>usize_as_u8\<close>, \<open>i64_as_usize\<close>. An index out
  of range panics in Rust; the places where the code could do so are shown to be in range.

  \<^bold>\<open>What is a parameter.\<close> The cryptography crates are the record \<open>crates\<close> (Crates): Shamir
  dealing and recovery, AES-GCM, Argon2, SHA-256, sealed boxes, Ed25519, curve arithmetic,
  random bytes as a function of the draw. What the code relies on are the predicates
  \<open>shamir_ok\<close>, \<open>shamir_linear\<close>, \<open>box_ok\<close>, \<open>aes_ok\<close>, \<open>ed_ok\<close> and their like, hypotheses of the
  theorems that need them. The crate \<open>toy\<close> satisfies all of them and is what the witnesses run on.

  \<^bold>\<open>The theories\<close>, in the order they build on each other:
  \<^item> Prelude, Crates, Strings, Wire: results, the operation monad and its rules (\<open>keeps\<close>), the
    crates, string functions, and the length-prefixed codec \<open>push_len_prefixed\<close>/\<open>take\<close>.
  \<^item> Store: the tables and transactions of \<open>db/mod.rs\<close> and \<open>schema.sql\<close>; locale \<open>rowid_table\<close>,
    interpreted on every table with an integer key.
  \<^item> Keys: \<open>keys.rs\<close>, the registry and the PEM/OpenSSH key-file parser.
  \<^item> Pss: \<open>pss.rs\<close>, proactive refresh; C3.
  \<^item> TreeArena, TreeFacts, TreeLoad, TreeSplit, TreeRound, TreeProps: loading a tree into the
    arena of \<open>key_tree.rs\<close>, ancestors, splitting and reconstruction. C1: splitting then
    reconstructing gives the secret back exactly when the presented leaves meet every threshold.
    The walks take fuel \<open>tree_fuel\<close>, one more than the number of nodes, and C33 shows that it
    never runs out on a well-formed tree. C25 tells which specifications are
    stored, as which rows, and which are refused.
  \<^item> TreeBridges: whitelist and link tables of one tree, with the invariant that a link is
    whitelisted. TreeOps: \<open>describe\<close>, \<open>export_spec\<close>, \<open>rebind_leaf\<close>. TreeReshare, TreeEvict: adding
    a leaf and evicting one, both resealing the siblings' rows.
  \<^item> TreeVisible: who sees which labels (\<open>visible_from_maps\<close>) and the published tree. TreePublish:
    \<open>apply_public_tree\<close>, \<open>project_local\<close>; C11 says what applying a slice
    stores and that nothing of another tree changes (\<open>others_kept\<close>).
  \<^item> Crypto, LockedFiles (also \<open>vault.rs\<close>), Quorum, Export, Signing: \<open>crypto.rs\<close> and the file,
    credential, quorum-file, export-bundle and signature operations over it.
  \<^item> Pin, Sharing: the PIN gate with its attempt counter and windows, and expiring share links.
  \<^item> SortedMap: \<open>BTreeMap\<close> as a sorted association list. BridgeCodec, BridgeStore, BridgeOps:
    \<open>private_bridge.rs\<close>, its labels and wire format (\<open>package_form\<close> is the language of packages
    the decoder accepts, C27), its statements, its operations.
    BridgeFacts, BridgeHistory, BridgeRuns: what each call does to the tables, and the
    reachable states of an arbitrary run of calls (\<open>bridge_run\<close>): C6 the invariant, C14 the
    history of generations, C7 that only signed packages change a bridge.
  \<^item> RelayKeys: \<open>relay/api_key.rs\<close> over the relay's own database (\<open>relay\<close>, the tables of
    \<open>relay/schema.sql\<close>): minting, revoking, rotating and checking bearers, and the licensee key.
    C18 holds after any sequence of them. RelayTrees: \<open>relay/org_tree.rs\<close>, the
    published trees, with \<open>validate_public_tree\<close> decided against the property \<open>public_ok\<close>, merged
    (C19) and cut to what a fingerprint may see (C32).
    RelayInbox: \<open>relay/mailbox.rs\<close>, its pages.
  \<^item> RelayServer: the handlers of \<open>relay/server.rs\<close> as functions from a request and a store to an
    answer and a store, and the host commands of \<open>bin/keyquorum/host.rs\<close>. RelayRuns: sequences of
    both, what they may change and who can make them (C8,
    C9, C20).
  \<^item> RelayCredential: \<open>db/relay_credential.rs\<close>, the bearers kept by a personal store.
    RelayClient: \<open>relay/client.rs\<close> and the relay commands of \<open>bin/keyquorum/main.rs\<close>, over a
    network (\<open>net\<close>) that is a parameter; C21 puts the server of
    RelayServer at its other end.
  \<^item> Commands: the commands of \<open>bin/keyquorum/main.rs\<close> on the vault, locked files, exports,
    share links, PINs and signatures, as functions of their parsed arguments and of the answers
    to their prompts; C23.
    BridgeCommands: the private-bridge commands, whose packages are written before the change is
    committed and removed when it fails (locale \<open>two_phase\<close>, C15).
    TreeCommands: gathering shares from key files and prompts, \<open>reconstruct\<close>, \<open>split\<close>, \<open>bind\<close>,
    \<open>add\<close>, \<open>revoke\<close> and \<open>access quorum\<close>, ending in an \<open>outcome\<close> that tells an error, a usage
    exit and a loop out of fuel apart; C2 is
    C1 from the command line.
    HardwareRevoke: what \<open>revoke\<close> comes to across trees, hardware keys and private bridges
    (C16): every step keeps the order \<open>quieter\<close>, and what a step has
    achieved survives whatever is quieter.

  \<^bold>\<open>Assumptions of the model.\<close> A \<open>SELECT\<close> without \<open>ORDER BY\<close> scans in rowid order. A store holds
  what \<open>sqlite\<close> would: the theorems state which well-formedness they need. Times are integers
  (the code compares one fixed-width format). The JSON \<open>detail\<close> of an event is the value that is
  printed. \<open>generation + 1\<close> of a bridge is addition of 32-bit words, as in a release build; a
  generation that wraps to 0 is refused by the \<open>CHECK\<close> of the table.

  \<^bold>\<open>Not modelled.\<close> The crates \<open>clap\<close>, \<open>axum\<close>, \<open>ureq\<close>, \<open>url\<close> and \<open>serde\<close>: parsing of arguments, of
  URLs, of query strings and of JSON are parameters, and so is the network. Listening on a socket
  and shutting down (\<open>serve\<close>). What the commands print, and the texts of the usage messages that end the
  process. Opening a database and migrating an old schema (\<open>db/mod.rs\<close>, \<open>relay/mod.rs\<close>), which
  changes no row of a current schema. Creation times that nothing reads. The listing commands, which only print.
\<close>

end
